(* ===== verification/Prelude.thy ===== *)
theory Prelude
  imports Main "HOL-Library.Word"
begin

text \<open>
  The vocabulary every other theory shares: C's machine words, the result type of a C
  function that may return, terminate the process, or run into undefined behaviour, the
  sequencing of such functions, and the two loop forms of the source (a \<open>for\<close> over a known
  range, and a loop whose end depends on the hardware, which may never come).
\<close>

unbundle bit_operations_syntax

section \<open>Machine words\<close>

type_synonym u8 = "8 word"
type_synonym u16 = "16 word"
type_synonym u32 = "32 word"
type_synonym u64 = "64 word"

text \<open>
  A C \<open>int\<close> or \<open>int32_t\<close> field that the code mixes with unsigned values is kept as a
  32 bit word; \<open>sint\<close> reads it where the source compares it as a signed number.
\<close>

type_synonym i32 = "32 word"

lemma uint_of_small: "0 \<le> n \<Longrightarrow> n < 2 ^ 32 \<Longrightarrow> uint (word_of_int n :: u32) = n"
  by (simp add: uint_word_of_int)

lemma uint_add_small:
  "uint a + uint b < 2 ^ 32 \<Longrightarrow> uint (a + b :: u32) = uint a + uint b"
  by (simp add: uint_word_ariths)

lemma uint_mult_small:
  "uint a * uint b < 2 ^ 32 \<Longrightarrow> uint (a * b :: u32) = uint a * uint b"
  by (simp add: uint_word_ariths)

lemma sint_small: "uint (a :: u32) < 2 ^ 31 \<Longrightarrow> sint a = uint a"
  by (simp add: sint_uint signed_take_bit_int_eq_self order_trans [OF _ uint_ge_0])

lemma scast_small: "uint (a :: u32) < 2 ^ 31 \<Longrightarrow> (scast a :: u64) = ucast a"
proof -
  assume "uint a < 2 ^ 31"
  then have "(word_of_int (sint a) :: u64) = word_of_int (uint a)" by (simp add: sint_small)
  then show ?thesis by simp
qed

text \<open>An index below \<open>m\<close> is, counted from \<open>m\<close>, beyond any length that fits in between.\<close>

lemma below_not_in_next:
  "(i :: u64) < m \<Longrightarrow> uint m + uint len \<le> 2 ^ 64 \<Longrightarrow> \<not> i - m < len"
proof -
  assume a: "i < m" "uint m + uint len \<le> 2 ^ 64"
  then have "uint (i - m) = uint i - uint m + 2 ^ 64"
    by (simp add: word_less_def uint_sub_if')
  with a uint_ge_0 [of i] have "uint len \<le> uint (i - m)" by linarith
  then show "\<not> i - m < len" by (simp add: word_less_def)
qed

section \<open>Outcomes of a C function\<close>

text \<open>
  \<open>Ok x\<close>: the function returned \<open>x\<close>. \<open>Exited n\<close>: the process called \<open>exit(n)\<close>.
  \<open>Fault\<close>: undefined behaviour (a null or dangling pointer is followed, a block is freed
  twice, an array is read out of range). A program maps a state to \<open>None\<close> when it never
  returns, otherwise to its outcome and the state it leaves.
\<close>

datatype 'a res = Ok 'a | Exited int | Fault

type_synonym ('s, 'a) prog = "'s \<Rightarrow> ('a res \<times> 's) option"

named_theorems prog_simps
named_theorems appends_intros

definition ret :: "'a \<Rightarrow> ('s, 'a) prog" where
  "ret x = (\<lambda>s. Some (Ok x, s))"

definition fault :: "('s, 'a) prog" where
  "fault = (\<lambda>s. Some (Fault, s))"

definition exit_with :: "int \<Rightarrow> ('s, 'a) prog" where
  "exit_with n = (\<lambda>s. Some (Exited n, s))"

definition read_st :: "('s \<Rightarrow> 'a) \<Rightarrow> ('s, 'a) prog" where
  "read_st f = (\<lambda>s. Some (Ok (f s), s))"

definition modify :: "('s \<Rightarrow> 's) \<Rightarrow> ('s, unit) prog" where
  "modify f = (\<lambda>s. Some (Ok (), f s))"

text \<open>Sequencing: the rest runs only if the first part returned.\<close>

definition bnd :: "('s, 'a) prog \<Rightarrow> ('a \<Rightarrow> ('s, 'b) prog) \<Rightarrow> ('s, 'b) prog" where
  "bnd m f = (\<lambda>s. case m s of
       None \<Rightarrow> None
     | Some (r, s') \<Rightarrow> (case r of
           Ok x \<Rightarrow> f x s'
         | Exited n \<Rightarrow> Some (Exited n, s')
         | Fault \<Rightarrow> Some (Fault, s')))"

lemma ret_apply [simp, prog_simps]: "ret x s = Some (Ok x, s)"
  by (simp add: ret_def)

lemma fault_apply [simp, prog_simps]: "fault s = Some (Fault, s)"
  by (simp add: fault_def)

lemma exit_with_apply [simp, prog_simps]: "exit_with n s = Some (Exited n, s)"
  by (simp add: exit_with_def)

lemma read_st_apply [simp, prog_simps]: "read_st f s = Some (Ok (f s), s)"
  by (simp add: read_st_def)

lemma modify_apply [simp, prog_simps]: "modify f s = Some (Ok (), f s)"
  by (simp add: modify_def)

lemma bnd_Ok [simp]: "m s = Some (Ok x, s') \<Longrightarrow> bnd m f s = f x s'"
  by (simp add: bnd_def)

lemma bnd_step: "m s = Some (Ok x, s') \<Longrightarrow> f x s' = r \<Longrightarrow> bnd m f s = r"
  by simp

lemma bnd_None [simp]: "m s = None \<Longrightarrow> bnd m f s = None"
  by (simp add: bnd_def)

lemma bnd_Fault [simp]: "m s = Some (Fault, s') \<Longrightarrow> bnd m f s = Some (Fault, s')"
  by (simp add: bnd_def)

lemma bnd_Exited [simp]: "m s = Some (Exited n, s') \<Longrightarrow> bnd m f s = Some (Exited n, s')"
  by (simp add: bnd_def)

lemma bnd_Ok_iff:
  "bnd m f s = Some (Ok y, t) \<longleftrightarrow> (\<exists>x s'. m s = Some (Ok x, s') \<and> f x s' = Some (Ok y, t))"
  by (auto simp: bnd_def split: option.splits res.splits)

lemma bnd_OkE:
  assumes "bnd m f s = Some (Ok y, t)"
  obtains x s' where "m s = Some (Ok x, s')" and "f x s' = Some (Ok y, t)"
  using assms by (auto simp: bnd_Ok_iff)

lemma bnd_SomeE:
  assumes "bnd m f s = Some (r, t)"
  obtains (ok) x s' where "m s = Some (Ok x, s')" and "f x s' = Some (r, t)"
    | (exited) n where "m s = Some (Exited n, t)" and "r = Exited n"
    | (fault) "m s = Some (Fault, t)" and "r = Fault"
  using assms by (auto simp: bnd_def split: option.splits res.splits)

lemma bnd_ret [simp]: "bnd (ret x) f = f x"
  by (rule ext) (simp add: bnd_def)

lemma bnd_assoc: "bnd (bnd m f) g = bnd m (\<lambda>x. bnd (f x) g)"
  by (rule ext) (auto simp: bnd_def split: option.splits res.splits)

section \<open>Loops\<close>

text \<open>\<open>for (i = \<dots>)\<close> over a known list of indices.\<close>

fun for_each :: "'x list \<Rightarrow> ('x \<Rightarrow> ('s, unit) prog) \<Rightarrow> ('s, unit) prog" where
  "for_each [] f = ret ()"
| "for_each (x # xs) f = bnd (f x) (\<lambda>_. for_each xs f)"

text \<open>A loop that stops at the first index whose body answers \<open>False\<close> (\<open>goto fail\<close>).\<close>

fun for_ok :: "'x list \<Rightarrow> ('x \<Rightarrow> ('s, bool) prog) \<Rightarrow> ('s, bool) prog" where
  "for_ok [] f = ret True"
| "for_ok (x # xs) f = bnd (f x) (\<lambda>b. if b then for_ok xs f else ret False)"

text \<open>Statements whose values are not used, in order.\<close>

fun steps :: "('s, unit) prog list \<Rightarrow> ('s, unit) prog" where
  "steps [] = ret ()"
| "steps (m # ms) = bnd m (\<lambda>_. steps ms)"

text \<open>
  A loop whose end depends on the hardware. The body gets the loop variables and answers
  \<open>Inl x\<close> to go round again with \<open>x\<close>, or \<open>Inr r\<close> to leave with \<open>r\<close>. The loop is \<open>None\<close>
  when it never ends.
\<close>

partial_function (option) iterate ::
    "('x \<Rightarrow> 's \<Rightarrow> (('x + 'r) res \<times> 's) option) \<Rightarrow> 'x \<Rightarrow> 's \<Rightarrow> ('r res \<times> 's) option" where
  "iterate body x s = (case body x s of
       None \<Rightarrow> None
     | Some (o1, s') \<Rightarrow> (case o1 of
           Ok v \<Rightarrow> (case v of Inl x' \<Rightarrow> iterate body x' s' | Inr r \<Rightarrow> Some (Ok r, s'))
         | Exited n \<Rightarrow> Some (Exited n, s')
         | Fault \<Rightarrow> Some (Fault, s')))"

lemma iterate_step:
  "body x s = Some (Ok (Inl x'), s') \<Longrightarrow> iterate body x s = iterate body x' s'"
  by (simp add: iterate.simps)

lemma iterate_leave:
  "body x s = Some (Ok (Inr r), s') \<Longrightarrow> iterate body x s = Some (Ok r, s')"
  by (simp add: iterate.simps)

text \<open>Partial correctness: an invariant the body keeps holds where the loop is left.\<close>

lemma iterate_invariant:
  assumes res: "iterate body x s = Some out"
    and inv: "I x s"
    and step: "\<And>x s x' s'. I x s \<Longrightarrow> body x s = Some (Ok (Inl x'), s') \<Longrightarrow> I x' s'"
    and leave: "\<And>x s r s'. I x s \<Longrightarrow> body x s = Some (Ok (Inr r), s') \<Longrightarrow> Q (Ok r, s')"
    and exited: "\<And>x s n s'. I x s \<Longrightarrow> body x s = Some (Exited n, s') \<Longrightarrow> Q (Exited n, s')"
    and faulted: "\<And>x s s'. I x s \<Longrightarrow> body x s = Some (Fault, s') \<Longrightarrow> Q (Fault, s')"
  shows "Q out"
proof -
  have "body = body \<longrightarrow> I x s \<longrightarrow> Q out"
  proof (rule iterate.raw_induct
      [where P = "\<lambda>b x s out. b = body \<longrightarrow> I x s \<longrightarrow> Q out" and xa = "((body, x), s)"
        and y = out, unfolded prod.case])
    fix it b x s y
    assume IH: "\<And>b x s y. it b x s = Some y \<Longrightarrow> b = body \<longrightarrow> I x s \<longrightarrow> Q y"
      and eq: "(case b x s of None \<Rightarrow> None
        | Some (o1, s') \<Rightarrow> (case o1 of
              Ok v \<Rightarrow> (case v of Inl x' \<Rightarrow> it b x' s' | Inr r \<Rightarrow> Some (Ok r, s'))
            | Exited n \<Rightarrow> Some (Exited n, s')
            | Fault \<Rightarrow> Some (Fault, s'))) = Some y"
    show "b = body \<longrightarrow> I x s \<longrightarrow> Q y"
      using eq IH step leave exited faulted
      by (cases y) (fastforce split: option.splits res.splits sum.splits prod.splits)
  qed (rule res)
  with inv show ?thesis by blast
qed

text \<open>A loop whose body always goes round again never ends.\<close>

lemma iterate_hangs:
  assumes "I x s"
    and "\<And>x s. I x s \<Longrightarrow> \<exists>x' s'. body x s = Some (Ok (Inl x'), s') \<and> I x' s'"
  shows "iterate body x s = None"
proof (rule ccontr)
  assume "iterate body x s \<noteq> None"
  then obtain out where "iterate body x s = Some out" by auto
  then have "\<not> True"
    by (rule iterate_invariant [where I = I]) (use assms in fastforce)+
  then show False by simp
qed

text \<open>Total correctness: a measure that falls whenever the body goes round again.\<close>

lemma iterate_total:
  fixes \<mu> :: "'x \<Rightarrow> 's \<Rightarrow> nat"
  assumes "I x s"
    and "\<And>x s. I x s \<Longrightarrow>
      (\<exists>x' s'. body x s = Some (Ok (Inl x'), s') \<and> I x' s' \<and> \<mu> x' s' < \<mu> x s) \<or>
      (\<exists>r s'. body x s = Some (Ok (Inr r), s') \<and> Q r s')"
  shows "\<exists>r t. iterate body x s = Some (Ok r, t) \<and> Q r t"
  using assms(1)
proof (induction "\<mu> x s" arbitrary: x s rule: less_induct)
  case less
  from assms(2) [OF less.prems] show ?case
  proof (elim disjE exE conjE)
    fix x' s'
    assume "body x s = Some (Ok (Inl x'), s')" "I x' s'" "\<mu> x' s' < \<mu> x s"
    then show ?thesis using less.hyps by (simp add: iterate_step)
  next
    fix r s'
    assume "body x s = Some (Ok (Inr r), s')" "Q r s'"
    then show ?thesis by (auto simp: iterate_leave)
  qed
qed

text \<open>Loops over a list, by an invariant in the number of rounds done.\<close>

lemma for_ok_runs:
  assumes "I 0 s" and "\<And>k s. k < length xs \<Longrightarrow> I k s \<Longrightarrow> \<exists>t. f (xs ! k) s = Some (Ok True, t) \<and> I (Suc k) t"
  shows "\<exists>t. for_ok xs f s = Some (Ok True, t) \<and> I (length xs) t"
  using assms
proof (induction xs arbitrary: s I)
  case (Cons x xs)
  from Cons.prems(2) [of 0 s] Cons.prems(1) obtain t where t: "f x s = Some (Ok True, t)" "I (Suc 0) t"
    by auto
  have "\<exists>u. for_ok xs f t = Some (Ok True, u) \<and> I (Suc (length xs)) u"
    using Cons.IH [of "\<lambda>k. I (Suc k)" t] Cons.prems(2) [of "Suc k" for k] t(2) by fastforce
  then show ?case using t by auto
qed simp

lemma for_each_runs:
  assumes "I 0 s" and "\<And>k s. k < length xs \<Longrightarrow> I k s \<Longrightarrow> \<exists>t. f (xs ! k) s = Some (Ok (), t) \<and> I (Suc k) t"
  shows "\<exists>t. for_each xs f s = Some (Ok (), t) \<and> I (length xs) t"
  using assms
proof (induction xs arbitrary: s I)
  case (Cons x xs)
  from Cons.prems(2) [of 0 s] Cons.prems(1) obtain t where t: "f x s = Some (Ok (), t)" "I (Suc 0) t"
    by auto
  have "\<exists>u. for_each xs f t = Some (Ok (), u) \<and> I (Suc (length xs)) u"
    using Cons.IH [of "\<lambda>k. I (Suc k)" t] Cons.prems(2) [of "Suc k" for k] t(2) by fastforce
  then show ?case using t by auto
qed simp

section \<open>Total correctness\<close>

text \<open>From a state with \<open>P\<close> the program returns a value and a state with \<open>Q\<close>.\<close>

definition run_to :: "('s \<Rightarrow> bool) \<Rightarrow> ('s, 'a) prog \<Rightarrow> ('a \<Rightarrow> 's \<Rightarrow> bool) \<Rightarrow> bool" where
  "run_to P m Q \<longleftrightarrow> (\<forall>s. P s \<longrightarrow> (\<exists>x t. m s = Some (Ok x, t) \<and> Q x t))"

lemma run_toI: "(\<And>s. P s \<Longrightarrow> \<exists>x t. m s = Some (Ok x, t) \<and> Q x t) \<Longrightarrow> run_to P m Q"
  by (simp add: run_to_def)

lemma run_toE:
  assumes "run_to P m Q" and "P s"
  obtains x t where "m s = Some (Ok x, t)" and "Q x t"
  using assms by (auto simp: run_to_def)

lemma run_to_conseq:
  "run_to P m Q \<Longrightarrow> (\<And>s. P1 s \<Longrightarrow> P s) \<Longrightarrow> (\<And>x t. Q x t \<Longrightarrow> Q1 x t) \<Longrightarrow> run_to P1 m Q1"
  unfolding run_to_def by blast

lemma run_to_ret: "(\<And>s. P s \<Longrightarrow> Q x s) \<Longrightarrow> run_to P (ret x) Q"
  by (simp add: run_to_def)

lemma run_to_modify: "(\<And>s. P s \<Longrightarrow> Q () (f s)) \<Longrightarrow> run_to P (modify f) Q"
  by (simp add: run_to_def)

lemma run_to_bnd: "run_to P m R \<Longrightarrow> (\<And>x. run_to (R x) (f x) Q) \<Longrightarrow> run_to P (bnd m f) Q"
  unfolding run_to_def by (fastforce simp: bnd_Ok_iff)

lemma run_to_read:
  "(\<And>x. run_to (\<lambda>s. P s \<and> f s = x) (g x) Q) \<Longrightarrow> run_to P (bnd (read_st f) g) Q"
  unfolding run_to_def by simp

lemma run_to_if:
  "run_to (\<lambda>s. P s \<and> b) m Q \<Longrightarrow> run_to (\<lambda>s. P s \<and> \<not> b) n Q \<Longrightarrow> run_to P (if b then m else n) Q"
  unfolding run_to_def by simp

lemma run_to_for_each:
  assumes "\<And>k. k < length xs \<Longrightarrow> run_to (I k) (f (xs ! k)) (\<lambda>_. I (Suc k))"
  shows "run_to (I 0) (for_each xs f) (\<lambda>_. I (length xs))"
proof (rule run_toI)
  fix s assume "I 0 s"
  then have "\<exists>t. for_each xs f s = Some (Ok (), t) \<and> I (length xs) t"
    by (rule for_each_runs) (use assms in \<open>auto simp: run_to_def\<close>)
  then show "\<exists>x t. for_each xs f s = Some (Ok x, t) \<and> I (length xs) t" by blast
qed

text \<open>A loop that may be left early, with what holds then.\<close>

lemma run_to_for_ok:
  assumes "\<And>k. k < length xs \<Longrightarrow> run_to (I k) (f (xs ! k)) (\<lambda>b. if b then I (Suc k) else R)"
  shows "run_to (I 0) (for_ok xs f) (\<lambda>b. if b then I (length xs) else R)"
  using assms
proof (induction xs arbitrary: I)
  case Nil
  show ?case unfolding for_ok.simps by (rule run_to_ret) simp
next
  case (Cons x xs)
  have "run_to (I (Suc 0)) (for_ok xs f) (\<lambda>b. if b then I (Suc (length xs)) else R)"
    by (rule Cons.IH [of "\<lambda>k. I (Suc k)"]) (use Cons.prems [of "Suc k" for k] in simp)
  then have "run_to (I (Suc 0)) (for_ok xs f) (\<lambda>b. if b then I (length (x # xs)) else R)"
    by (simp cong: if_cong)
  then have "run_to (if b then I (Suc 0) else R) (if b then for_ok xs f else ret False)
      (\<lambda>b. if b then I (length (x # xs)) else R)" for b
    by (cases b) (simp, simp, rule run_to_ret, simp)
  then show ?case unfolding for_ok.simps
    by (rule run_to_bnd [OF Cons.prems [of 0, simplified]])
qed

lemma run_to_iterate:
  fixes \<mu> :: "'x \<Rightarrow> 's \<Rightarrow> nat"
  assumes "\<And>x n. run_to (\<lambda>s. I x s \<and> \<mu> x s = n) (body x)
    (\<lambda>r t. case r of Inl y \<Rightarrow> I y t \<and> \<mu> y t < n | Inr z \<Rightarrow> Q z t)"
  shows "run_to (I x) (iterate body x) Q"
proof (rule run_toI)
  fix s assume "I x s"
  then show "\<exists>r t. iterate body x s = Some (Ok r, t) \<and> Q r t"
  proof (rule iterate_total)
    fix x s assume "I x s"
    then obtain r t where "body x s = Some (Ok r, t)"
      "case r of Inl y \<Rightarrow> I y t \<and> \<mu> y t < \<mu> x s | Inr z \<Rightarrow> Q z t"
      using assms [of x "\<mu> x s"] by (auto simp: run_to_def)
    then show "(\<exists>x' s'. body x s = Some (Ok (Inl x'), s') \<and> I x' s' \<and> \<mu> x' s' < \<mu> x s) \<or>
       (\<exists>r s'. body x s = Some (Ok (Inr r), s') \<and> Q r s')"
      by (cases r) auto
  qed
qed

section \<open>Partial correctness\<close>

text \<open>From a state with \<open>P\<close>, if the program returns, the value and the state satisfy \<open>Q\<close>.\<close>

definition if_returns :: "('s \<Rightarrow> bool) \<Rightarrow> ('s, 'a) prog \<Rightarrow> ('a \<Rightarrow> 's \<Rightarrow> bool) \<Rightarrow> bool" where
  "if_returns P m Q \<longleftrightarrow> (\<forall>s x t. P s \<longrightarrow> m s = Some (Ok x, t) \<longrightarrow> Q x t)"

lemma if_returnsD: "if_returns P m Q \<Longrightarrow> P s \<Longrightarrow> m s = Some (Ok x, t) \<Longrightarrow> Q x t"
  by (simp add: if_returns_def)

lemma if_returns_bnd:
  "if_returns P m R \<Longrightarrow> (\<And>x. if_returns (R x) (f x) Q) \<Longrightarrow> if_returns P (bnd m f) Q"
  unfolding if_returns_def by (fastforce simp: bnd_Ok_iff)

lemma if_returns_read:
  "(\<And>x. if_returns (\<lambda>s. P s \<and> f s = x) (g x) Q) \<Longrightarrow> if_returns P (bnd (read_st f) g) Q"
  unfolding if_returns_def by simp

lemma if_returns_ret: "(\<And>s. P s \<Longrightarrow> Q x s) \<Longrightarrow> if_returns P (ret x) Q"
  by (simp add: if_returns_def)

lemma if_returns_modify: "(\<And>s. P s \<Longrightarrow> Q () (f s)) \<Longrightarrow> if_returns P (modify f) Q"
  by (simp add: if_returns_def)

lemma if_returns_fault: "if_returns P fault Q"
  by (simp add: if_returns_def)

lemma if_returns_if:
  "(b \<Longrightarrow> if_returns P m Q) \<Longrightarrow> (\<not> b \<Longrightarrow> if_returns P n Q) \<Longrightarrow> if_returns P (if b then m else n) Q"
  by simp

lemma if_returns_pre: "if_returns P m Q \<Longrightarrow> (\<And>s. P1 s \<Longrightarrow> P s) \<Longrightarrow> if_returns P1 m Q"
  unfolding if_returns_def by blast

lemma if_returns_post: "if_returns P m Q \<Longrightarrow> (\<And>x s. Q x s \<Longrightarrow> R x s) \<Longrightarrow> if_returns P m R"
  unfolding if_returns_def by blast

section \<open>Reading a history\<close>

text \<open>
  A device behind the code is described by a step: what an event makes of its state and which
  actions it means, or that the device does not allow it. The actions of a whole history:
\<close>

fun interp :: "('e \<Rightarrow> 'c \<Rightarrow> ('c \<times> 'a list) option) \<Rightarrow> 'e list \<Rightarrow> 'c \<Rightarrow> ('c \<times> 'a list) option" where
  "interp step [] c = Some (c, [])"
| "interp step (e # es) c = (case step e c of
       None \<Rightarrow> None
     | Some (c1, acts) \<Rightarrow> map_option (\<lambda>(c2, acts2). (c2, acts @ acts2)) (interp step es c1))"

lemma interp_append:
  "interp step xs c = Some (c1, a1) \<Longrightarrow> interp step ys c1 = Some (c2, a2) \<Longrightarrow>
   interp step (xs @ ys) c = Some (c2, a1 @ a2)"
  by (induction xs arbitrary: c a1) (auto split: option.splits prod.splits)

section \<open>Lists\<close>

text \<open>The first suffix of a list that has a property, found from the front.\<close>

lemma first_suffix_Cons:
  "(\<exists>i \<le> length (c # cs). P (drop i (c # cs)) \<and> (\<forall>j < i. \<not> Q (drop j (c # cs)))) \<longleftrightarrow>
     P (c # cs) \<or> (\<not> Q (c # cs) \<and>
       (\<exists>i \<le> length cs. P (drop i cs) \<and> (\<forall>j < i. \<not> Q (drop j cs))))"
  (is "?L \<longleftrightarrow> ?R")
proof
  assume ?L
  then obtain i where i: "i \<le> length (c # cs)" "P (drop i (c # cs))"
    "\<forall>j < i. \<not> Q (drop j (c # cs))" by blast
  show ?R
  proof (cases i)
    case 0
    with i show ?thesis by simp
  next
    case (Suc k)
    have "\<not> Q (drop j cs)" if "j < k" for j
      using i(3) [rule_format, of "Suc j"] that Suc by simp
    moreover have "\<not> Q (c # cs)" using i(3) Suc by force
    ultimately show ?thesis using i(1,2) Suc by auto
  qed
next
  assume ?R
  then show ?L
  proof (elim disjE conjE exE)
    assume "P (c # cs)"
    then show ?L by (intro exI [of _ 0]) simp
  next
    fix k
    assume k: "\<not> Q (c # cs)" "k \<le> length cs" "P (drop k cs)" "\<forall>j < k. \<not> Q (drop j cs)"
    have "\<not> Q (drop j (c # cs))" if "j < Suc k" for j
      using k(1,4) that by (cases j) auto
    with k(2,3) show ?L by (intro exI [of _ "Suc k"]) simp
  qed
qed

lemma append_eq_take_drop: "length p = n \<Longrightarrow> xs = p @ ys \<longleftrightarrow> take n xs = p \<and> drop n xs = ys"
  by (metis append_eq_conv_conj)

end
