(* ===== verification/NacMem.thy ===== *)
theory NacMem
  imports Prelude "HOL-Library.Multiset"
begin

text \<open>
  The memory module of the kernel driver (drv/nac_mem.c), built for a 64 bit kernel
  (\<open>KERNEL_26X\<close>, \<open>PLATFORM64\<close>). When it is loaded it takes all the free pages it can get, sorts
  them, cuts a contiguous aligned buffer out of them for every card, and gives the rest back;
  the card driver then claims and releases the buffers. The kernel is compiled with wrapping
  signed arithmetic, so an \<open>int\<close> is a 32 bit word here.
\<close>

section \<open>State and kernel\<close>

definition PTABSIZE :: nat where "PTABSIZE = 1024"

definition HTABSIZE :: nat where "HTABSIZE = 8192"

definition NNACS :: nat where "NNACS = 16"

definition MBYTE :: u32 where "MBYTE = 1024 * 1024"

definition KBYTE :: u32 where "KBYTE = 1024"

definition NAC_MEM_SIZE :: u32 where "NAC_MEM_SIZE = 256 * 1024 * 1024"

definition NAC_MIN_SIZE :: u32 where "NAC_MIN_SIZE = 32 * 1024 * 1024"

text \<open>What the module asks of the page allocator and of its lock, with the answers.\<close>

datatype page_event = GotPages i32 u64 | FreedPages i32 u64 | SpinLock | SpinUnlock

text \<open>
  The module's parameters and static variables. \<open>reserved\<close> is the flag \<open>PG_reserved\<close> of each
  page, by page number; \<open>cstart\<close> is the static variable of \<open>nac_mem_findcontig\<close>.
\<close>

record mem_st =
  nnacs :: int
  msize :: "u32 list"
  malign :: u32
  dalign :: string
  gfporder :: i32
  ptable :: "u64 list"
  htable :: "u64 list"
  vaddr :: "u64 list"
  inuse :: "i32 list"
  cstart :: nat
  reserved :: "u64 \<Rightarrow> bool"
  plog :: "page_event list"

text \<open>
  The kernel: the page allocator (0 for no memory), the address map, \<open>simple_strtoul\<close> with
  base 0 (the value and the rest of the string), and the devices on the PCI bus by vendor and
  device number.
\<close>

record page_env =
  free_pages_at :: "page_event list \<Rightarrow> i32 \<Rightarrow> u64"
  virt_to_phys :: "u64 \<Rightarrow> u64"
  simple_strtoul :: "string \<Rightarrow> u64 \<times> string"
  pci_bus :: "(u32 \<times> u32) list"

type_synonym 'a mem = "(mem_st, 'a) prog"

definition log_page :: "page_event \<Rightarrow> unit mem" where
  "log_page e = modify (\<lambda>s. s\<lparr>plog := plog s @ [e]\<rparr>)"

definition get_free_pages :: "page_env \<Rightarrow> i32 \<Rightarrow> u64 mem" where
  "get_free_pages K order = bnd (read_st (\<lambda>s. free_pages_at K (plog s) order)) (\<lambda>p.
     bnd (log_page (GotPages order p)) (\<lambda>_. ret p))"

definition free_pages :: "u64 \<Rightarrow> i32 \<Rightarrow> unit mem" where
  "free_pages p order = log_page (FreedPages order p)"

text \<open>\<open>int psize = (PAGE_SIZE << gfporder)\<close>\<close>

definition piece_size :: "i32 \<Rightarrow> i32" where
  "piece_size order = push_bit (unat order) 4096"

section \<open>Collecting pages\<close>

text \<open>A page goes to the table of low pages, or to the table of high ones, which is not checked.\<close>

definition put_page :: "page_env \<Rightarrow> u64 \<Rightarrow> nat \<times> nat \<Rightarrow> (nat \<times> nat) mem" where
  "put_page K page = (\<lambda>(i, j).
     if virt_to_phys K page < 0xffffffff
     then bnd (modify (\<lambda>s. s\<lparr>ptable := (ptable s)[i := page]\<rparr>)) (\<lambda>_. ret (i + 1, j))
     else if j < HTABSIZE
     then bnd (modify (\<lambda>s. s\<lparr>htable := (htable s)[j := page]\<rparr>)) (\<lambda>_. ret (i, j + 1))
     else fault)"

definition find_order :: "page_env \<Rightarrow> i32 \<Rightarrow> (i32 \<times> u64) mem" where
  "find_order K = iterate (\<lambda>order. bnd (get_free_pages K order) (\<lambda>page.
     ret (if page = 0 then Inl (order - 1) else Inr (order, page))))"

definition collect_pages :: "page_env \<Rightarrow> i32 \<Rightarrow> nat \<times> nat \<Rightarrow> unit mem" where
  "collect_pages K order = iterate (\<lambda>(i, j).
     if \<not> i < PTABSIZE then ret (Inr ())
     else bnd (get_free_pages K order) (\<lambda>page.
       if page = 0 then ret (Inr ())
       else bnd (put_page K page (i, j)) (\<lambda>ij. ret (Inl ij))))"

definition nac_mem_alloc_ptable :: "page_env \<Rightarrow> unit mem" where
  "nac_mem_alloc_ptable K =
     bnd (read_st gfporder) (\<lambda>order0.
     bnd (find_order K order0) (\<lambda>(order, page).
     bnd (modify (\<lambda>s. s\<lparr>gfporder := order\<rparr>)) (\<lambda>_.
     bnd (put_page K page (0, 0)) (collect_pages K order))))"

text \<open>One pass of the bubble sort: the table, and whether anything was exchanged.\<close>

definition sort_step :: "nat \<Rightarrow> u64 list \<times> bool \<Rightarrow> u64 list \<times> bool" where
  "sort_step i = (\<lambda>(t, unsorted).
     if t ! i > t ! (i - 1) then (t[i - 1 := t ! i, i := t ! (i - 1)], True) else (t, unsorted))"

definition sort_pass :: "u64 list \<Rightarrow> u64 list \<times> bool" where
  "sort_pass t = fold sort_step [1..<PTABSIZE] (t, False)"

definition nac_mem_sort_ptable :: "unit mem" where
  "nac_mem_sort_ptable = iterate (\<lambda>_. bnd (read_st (\<lambda>s. sort_pass (ptable s))) (\<lambda>(t, unsorted).
     bnd (modify (\<lambda>s. s\<lparr>ptable := t\<rparr>)) (\<lambda>_. ret (if unsorted then Inl () else Inr ())))) ()"

definition nac_mem_free_ptable :: "unit mem" where
  "nac_mem_free_ptable =
     bnd (read_st gfporder) (\<lambda>order.
     bnd (for_each [0..<PTABSIZE] (\<lambda>i. bnd (read_st (\<lambda>s. ptable s ! i)) (\<lambda>p.
       if p = 0 then ret ()
       else bnd (free_pages p order) (\<lambda>_. modify (\<lambda>s. s\<lparr>ptable := (ptable s)[i := 0]\<rparr>))))) (\<lambda>_.
     for_each [0..<HTABSIZE] (\<lambda>i. bnd (read_st (\<lambda>s. htable s ! i)) (\<lambda>p.
       if p = 0 then ret ()
       else bnd (free_pages p order) (\<lambda>_. modify (\<lambda>s. s\<lparr>htable := (htable s)[i := 0]\<rparr>))))))"

section \<open>Cutting out buffers\<close>

text \<open>
  The scan for a contiguous area: found before slot \<open>i\<close> with the area starting at \<open>cs\<close>, the end
  of the pages reached, or the end of the table reached.
\<close>

datatype scan = Found nat nat | Gap | Off_end nat

fun find_scan :: "u64 list \<Rightarrow> i32 \<Rightarrow> u32 \<Rightarrow> u64 \<Rightarrow> nat \<Rightarrow> nat list \<Rightarrow> scan" where
  "find_scan t psize csize calign cs [] = Off_end cs"
| "find_scan t psize csize calign cs (i # is) =
     (if csize \<le> of_nat (i - cs) * psize \<and> t ! (i - 1) AND calign = 0 then Found cs i
      else if t ! i = 0 then Gap
      else find_scan t psize csize calign (if t ! (i - 1) - t ! i \<noteq> scast psize then i else cs) is)"

definition clear_slots :: "nat list \<Rightarrow> u64 list \<Rightarrow> u64 list" where
  "clear_slots = fold (\<lambda>j t. t[j := 0])"

definition nac_mem_findcontig :: "u32 \<Rightarrow> i32 \<Rightarrow> u64 mem" where
  "nac_mem_findcontig csize calign0 =
     bnd (read_st (\<lambda>s. (ptable s, cstart s, piece_size (gfporder s)))) (\<lambda>(t, cs, psize).
     if t ! cs = 0 then ret 0
     else case find_scan t psize csize (scast (calign0 - 1)) cs [cs + 1..<PTABSIZE] of
         Found cs1 i \<Rightarrow>
           if psize = 0 then fault
           else bnd (modify (\<lambda>s. s\<lparr>ptable := clear_slots [i - unat (csize div psize)..<i] t, cstart := i\<rparr>)) (\<lambda>_.
             ret (t ! (i - 1)))
       | Gap \<Rightarrow> bnd (modify (\<lambda>s. s\<lparr>cstart := 0\<rparr>)) (\<lambda>_. ret 0)
       | Off_end cs1 \<Rightarrow> bnd (modify (\<lambda>s. s\<lparr>cstart := cs1\<rparr>)) (\<lambda>_. ret 0))"

text \<open>\<open>free_pages\<close> for every piece of a buffer.\<close>

definition nac_mem_freecontig :: "u32 \<Rightarrow> u64 \<Rightarrow> unit mem" where
  "nac_mem_freecontig csize v0 =
     bnd (read_st gfporder) (\<lambda>order.
     iterate (\<lambda>v. if v < v0 + ucast csize
       then bnd (free_pages v order) (\<lambda>_. ret (Inl (v + scast (piece_size order))))
       else ret (Inr ())) v0)"

text \<open>The pages from the one of \<open>v\<close> to the one of \<open>v + size - 1\<close>, by number.\<close>

definition virt_to_page :: "u64 \<Rightarrow> u64" where
  "virt_to_page v = drop_bit 12 v"

definition set_reserved :: "bool \<Rightarrow> u64 \<Rightarrow> u32 \<Rightarrow> unit mem" where
  "set_reserved b v sz = for_each [unat (virt_to_page v)..<Suc (unat (virt_to_page (v + ucast sz - 1)))]
     (\<lambda>p. modify (\<lambda>s. s\<lparr>reserved := (reserved s)(of_nat p := b)\<rparr>))"

text \<open>The buffer of one card: smaller and smaller sizes are tried.\<close>

definition find_buffer :: "nat \<Rightarrow> bool mem" where
  "find_buffer nac = iterate (\<lambda>_.
     bnd (read_st (\<lambda>s. (msize s ! nac, malign s))) (\<lambda>(sz, al).
     bnd (nac_mem_findcontig sz al) (\<lambda>v.
     bnd (modify (\<lambda>s. s\<lparr>vaddr := (vaddr s)[nac := v]\<rparr>)) (\<lambda>_.
     if v \<noteq> 0 then ret (Inr True)
     else bnd (modify (\<lambda>s. s\<lparr>msize := (msize s)[nac := sz div 2]\<rparr>)) (\<lambda>_.
       ret (if sz div 2 \<le> NAC_MIN_SIZE then Inr False else Inl ())))))) ()"

definition nac_mem :: "bool mem" where
  "nac_mem = bnd (read_st nnacs) (\<lambda>n. for_ok [0..<nat n] (\<lambda>nac.
     bnd (find_buffer nac) (\<lambda>ok.
     if \<not> ok then ret False
     else bnd (read_st (\<lambda>s. (vaddr s ! nac, msize s ! nac))) (\<lambda>(v, sz).
       bnd (set_reserved True v sz) (\<lambda>_. ret True)))))"

definition nac_mem_cleanup :: "unit mem" where
  "nac_mem_cleanup = bnd (read_st nnacs) (\<lambda>n. for_each [0..<nat n] (\<lambda>nac.
     bnd (read_st (\<lambda>s. (vaddr s ! nac, msize s ! nac))) (\<lambda>(v, sz).
     if v = 0 then ret ()
     else bnd (set_reserved False v sz) (\<lambda>_. nac_mem_freecontig sz v))))"

section \<open>Loading and unloading\<close>

text \<open>nacpci.c: the cards the driver knows\<close>

definition nac_pci_tbl :: "(u32 \<times> u32) list" where
  "nac_pci_tbl = [(0xeaea, 0x5003), (0xeaea, 0x5051), (0xeaea, 0x5052), (0xeaea, 0x2003)]"

text \<open>
  \<open>pci_find_device\<close> searches the devices after \<open>from\<close>; the place \<open>from\<close> is kept as the part of
  the bus that follows it.
\<close>

fun pci_find_device :: "u32 \<times> u32 \<Rightarrow> (u32 \<times> u32) list \<Rightarrow> (u32 \<times> u32) list option" where
  "pci_find_device d [] = None"
| "pci_find_device d (x # xs) = (if x = d then Some xs else pci_find_device d xs)"

definition nac_mem_update_nnacs :: "page_env \<Rightarrow> unit mem" where
  "nac_mem_update_nnacs K = for_each nac_pci_tbl (\<lambda>d. iterate (\<lambda>from_dev.
     case pci_find_device d from_dev of
       None \<Rightarrow> ret (Inr ())
     | Some rest \<Rightarrow> bnd (modify (\<lambda>s. s\<lparr>nnacs := nnacs s + 1\<rparr>)) (\<lambda>_. ret (Inl rest))) (pci_bus K))"

text \<open>The alignment given at load time: a number with an optional suffix.\<close>

definition parse_align :: "page_env \<Rightarrow> string \<Rightarrow> u32" where
  "parse_align K str = (let (v, more) = simple_strtoul K str; a = ucast v in
     case more of
       [] \<Rightarrow> a
     | c # _ \<Rightarrow> if c = CHR ''M'' \<or> c = CHR ''m'' then a * MBYTE
         else if c = CHR ''K'' \<or> c = CHR ''k'' then a * KBYTE
         else a)"

definition nac_mem_init :: "page_env \<Rightarrow> int mem" where
  "nac_mem_init K =
     bnd (modify (\<lambda>s. if dalign s = [] then s else s\<lparr>malign := parse_align K (dalign s)\<rparr>)) (\<lambda>_.
     bnd (read_st nnacs) (\<lambda>n0.
     bnd (if n0 = 0 then nac_mem_update_nnacs K else ret ()) (\<lambda>_.
     bnd (modify (\<lambda>s. if nnacs s = 0 then s\<lparr>nnacs := 1\<rparr> else s)) (\<lambda>_.
     bnd (modify (\<lambda>s. if int NNACS < nnacs s then s\<lparr>nnacs := int NNACS\<rparr> else s)) (\<lambda>_.
     bnd (read_st nnacs) (\<lambda>n.
     bnd (for_each [0..<nat n] (\<lambda>nac. modify (\<lambda>s. s\<lparr>msize := (msize s)[nac := NAC_MEM_SIZE]\<rparr>))) (\<lambda>_.
     bnd (nac_mem_alloc_ptable K) (\<lambda>_.
     bnd nac_mem_sort_ptable (\<lambda>_.
     bnd nac_mem (\<lambda>_.
     bnd nac_mem_free_ptable (\<lambda>_. ret 0)))))))))))"

definition nac_mem_exit :: "unit mem" where
  "nac_mem_exit = nac_mem_cleanup"

section \<open>Claiming and releasing a buffer\<close>

text \<open>The first index below \<open>n\<close> with a property, or \<open>n\<close>.\<close>

definition first_slot :: "(nat \<Rightarrow> bool) \<Rightarrow> nat \<Rightarrow> nat" where
  "first_slot P n = length (takeWhile (\<lambda>i. \<not> P i) [0..<n])"

text \<open>The address, 0 for \<open>NULL\<close>, and the new value of \<open>*msize\<close>.\<close>

definition nac_mem_malloc :: "u64 \<Rightarrow> (u64 \<times> u64) mem" where
  "nac_mem_malloc want =
     bnd (log_page SpinLock) (\<lambda>_.
     bnd (read_st (\<lambda>s. (nat (nnacs s), first_slot (\<lambda>i. inuse s ! i = 0) (nat (nnacs s))))) (\<lambda>(n, i).
     if i = n then bnd (log_page SpinUnlock) (\<lambda>_. ret (0, want))
     else bnd (read_st (\<lambda>s. (vaddr s ! i, msize s ! i))) (\<lambda>(v, sz).
       let got = (if ucast sz < want then ucast sz else if want = 0 then ucast sz else want) in
       bnd (if v = 0 then ret () else modify (\<lambda>s. s\<lparr>inuse := (inuse s)[i := inuse s ! i + 1]\<rparr>)) (\<lambda>_.
       bnd (log_page SpinUnlock) (\<lambda>_. ret (v, got))))))"

definition nac_mem_free :: "u64 \<Rightarrow> unit mem" where
  "nac_mem_free objp =
     bnd (log_page SpinLock) (\<lambda>_.
     bnd (read_st (\<lambda>s. (nat (nnacs s), first_slot (\<lambda>i. vaddr s ! i = objp) (nat (nnacs s))))) (\<lambda>(n, i).
     bnd (if i = n then ret () else modify (\<lambda>s. s\<lparr>inuse := (inuse s)[i := inuse s ! i - 1]\<rparr>)) (\<lambda>_.
     log_page SpinUnlock)))"

section \<open>Sorting\<close>

text \<open>The sum of index times value falls with every exchange.\<close>

definition weight :: "u64 list \<Rightarrow> nat" where
  "weight t = (\<Sum>k<length t. k * unat (t ! k))"

lemma weight_swap:
  assumes "0 < i" and "i < length t" and "t ! i > t ! (i - 1)"
  shows "weight (t[i - 1 := t ! i, i := t ! (i - 1)]) < weight t"
proof -
  let ?u = "t[i - 1 := t ! i, i := t ! (i - 1)]" and ?S = "{..<length t} - {i} - {i - 1}"
  have split: "(\<Sum>k<length t. k * unat (x ! k)) = i * unat (x ! i) + ((i - 1) * unat (x ! (i - 1)) + (\<Sum>k\<in>?S. k * unat (x ! k)))" for x
  proof -
    have "(\<Sum>k\<in>{..<length t} - {i}. k * unat (x ! k)) = (i - 1) * unat (x ! (i - 1)) + (\<Sum>k\<in>?S. k * unat (x ! k))"
      using assms(1,2) by (intro sum.remove) auto
    then show ?thesis using assms(1,2) by (simp add: sum.remove [of _ i])
  qed
  have "(\<Sum>k\<in>?S. k * unat (?u ! k)) = (\<Sum>k\<in>?S. k * unat (t ! k))"
    by (rule sum.cong) auto
  moreover have "?u ! i = t ! (i - 1)" "?u ! (i - 1) = t ! i" using assms(1,2) by simp_all
  moreover have "unat (t ! (i - 1)) < unat (t ! i)" using assms(3) by (simp add: word_less_nat_alt)
  moreover obtain m where "i = Suc m" using assms(1) by (cases i) auto
  ultimately show ?thesis by (simp add: weight_def split)
qed

lemma sort_step_keeps:
  assumes "sort_step i (t, b) = (t1, b1)" and "0 < i" and "i < length t"
  shows "mset t1 = mset t" and "length t1 = length t" and "weight t1 \<le> weight t"
    and "b1 \<Longrightarrow> b \<or> weight t1 < weight t" and "\<not> b1 \<Longrightarrow> \<not> b \<and> t1 = t \<and> t ! i \<le> t ! (i - 1)"
proof -
  have *: "mset (t[i - 1 := t ! i, i := t ! (i - 1)]) = mset t"
    using assms(2,3) by (intro mset_swap) simp_all
  then show "mset t1 = mset t" using assms(1) by (auto simp: sort_step_def split: if_splits)
  show "length t1 = length t" "weight t1 \<le> weight t" "b1 \<Longrightarrow> b \<or> weight t1 < weight t"
    "\<not> b1 \<Longrightarrow> \<not> b \<and> t1 = t \<and> t ! i \<le> t ! (i - 1)"
    using assms weight_swap [of i t] by (auto simp: sort_step_def split: if_splits)
qed

lemma sort_steps_keep:
  assumes "fold sort_step is (t, b) = (t1, b1)" and "\<forall>i\<in>set is. 0 < i \<and> i < length t"
  shows "mset t1 = mset t \<and> length t1 = length t \<and> weight t1 \<le> weight t \<and> (b1 \<longrightarrow> b \<or> weight t1 < weight t) \<and>
    (\<not> b1 \<longrightarrow> \<not> b \<and> t1 = t \<and> (\<forall>i\<in>set is. t ! i \<le> t ! (i - 1)))"
  using assms
proof (induction "is" arbitrary: t b)
  case (Cons i "is")
  obtain t2 b2 where st: "sort_step i (t, b) = (t2, b2)" by fastforce
  have i: "0 < i" "i < length t" using Cons.prems(2) by auto
  note k = sort_step_keeps [OF st i]
  have "fold sort_step is (t2, b2) = (t1, b1)" using Cons.prems(1) st by simp
  moreover have "\<forall>j\<in>set is. 0 < j \<and> j < length t2" using Cons.prems(2) k(2) by auto
  ultimately have r: "mset t1 = mset t2 \<and> length t1 = length t2 \<and> weight t1 \<le> weight t2 \<and> (b1 \<longrightarrow> b2 \<or> weight t1 < weight t2) \<and>
      (\<not> b1 \<longrightarrow> \<not> b2 \<and> t1 = t2 \<and> (\<forall>j\<in>set is. t2 ! j \<le> t2 ! (j - 1)))"
    by (rule Cons.IH)
  have "b1 \<longrightarrow> b \<or> weight t1 < weight t" using r k(3,4) by linarith
  moreover have "\<not> b1 \<longrightarrow> \<not> b \<and> t1 = t \<and> (\<forall>j\<in>set (i # is). t ! j \<le> t ! (j - 1))" using r k(5) by auto
  ultimately show ?case using r k(1,2,3) by simp
qed simp

lemma sort_pass_keeps:
  assumes "sort_pass t = (t1, b)" and "length t = PTABSIZE"
  shows "mset t1 = mset t" and "length t1 = PTABSIZE" and "b \<Longrightarrow> weight t1 < weight t" and "\<not> b \<Longrightarrow> t1 = t \<and> sorted_wrt (\<ge>) t"
proof -
  have *: "mset t1 = mset t \<and> length t1 = length t \<and> weight t1 \<le> weight t \<and> (b \<longrightarrow> False \<or> weight t1 < weight t) \<and>
      (\<not> b \<longrightarrow> \<not> False \<and> t1 = t \<and> (\<forall>i\<in>set [1..<PTABSIZE]. t ! i \<le> t ! (i - 1)))"
    using assms by (intro sort_steps_keep) (simp_all add: sort_pass_def)
  show "mset t1 = mset t" "length t1 = PTABSIZE" "b \<Longrightarrow> weight t1 < weight t" using * assms(2) by auto
  assume "\<not> b"
  then have le: "t1 = t" "\<forall>i\<in>set [1..<PTABSIZE]. t ! i \<le> t ! (i - 1)" using * by blast+
  have "transp ((\<ge>) :: u64 \<Rightarrow> _)" by (rule transpI) simp
  moreover have "\<forall>i. Suc i < length t \<longrightarrow> t ! i \<ge> t ! Suc i"
  proof (intro allI impI)
    fix i assume "Suc i < length t"
    then show "t ! i \<ge> t ! Suc i" using le(2) assms(2) by (force dest: bspec [of _ _ "Suc i"])
  qed
  ultimately have "sorted_wrt (\<ge>) t" by (simp add: sorted_wrt_iff_nth_Suc_transp)
  with le(1) show "t1 = t \<and> sorted_wrt (\<ge>) t" by simp
qed

lemma sort_run:
  assumes "length (ptable s) = PTABSIZE"
  shows "\<exists>t. nac_mem_sort_ptable s = Some (Ok (), s\<lparr>ptable := t\<rparr>) \<and> sorted_wrt (\<ge>) t \<and> mset t = mset (ptable s) \<and> length t = PTABSIZE"
proof -
  let ?I = "\<lambda>s1. s1 = s\<lparr>ptable := ptable s1\<rparr> \<and> mset (ptable s1) = mset (ptable s) \<and> length (ptable s1) = PTABSIZE"
  have "\<exists>r s1. nac_mem_sort_ptable s = Some (Ok r, s1) \<and> (?I s1 \<and> sorted_wrt (\<ge>) (ptable s1))"
    unfolding nac_mem_sort_ptable_def
  proof (rule iterate_total [where I = "\<lambda>_. ?I" and \<mu> = "\<lambda>_ s1. weight (ptable s1)"], goal_cases)
    case 1
    show ?case using assms by simp
  next
    case (2 x s1)
    obtain t1 b where p: "sort_pass (ptable s1) = (t1, b)" by fastforce
    have len: "length (ptable s1) = PTABSIZE" using 2 by blast
    have upd: "s1\<lparr>ptable := t1\<rparr> = s\<lparr>ptable := t1\<rparr>" using arg_cong [OF conjunct1 [OF 2], of "ptable_update (\<lambda>_. t1)"] by simp
    show ?case using sort_pass_keeps [OF p len] p 2 by (cases b) (simp_all add: bnd_def upd)
  qed
  then obtain s1 where "nac_mem_sort_ptable s = Some (Ok (), s1)" "?I s1" "sorted_wrt (\<ge>) (ptable s1)" by auto
  then show ?thesis by (intro exI [of _ "ptable s1"]) metis
qed

section \<open>Scanning for a contiguous area\<close>

text \<open>Slots \<open>cs\<close> to \<open>i - 1\<close> hold the addresses of adjacent blocks, the lowest last.\<close>

definition run_of :: "u64 list \<Rightarrow> u64 \<Rightarrow> nat \<Rightarrow> nat \<Rightarrow> bool" where
  "run_of t ps cs i \<longleftrightarrow> cs < i \<and> (\<forall>j. cs \<le> j \<and> j < i \<longrightarrow> t ! j \<noteq> 0 \<and> t ! j = t ! (i - 1) + of_nat (i - 1 - j) * ps)"

lemma run_ofD:
  assumes "run_of t ps cs i"
  shows "cs < i" and "cs \<le> j \<Longrightarrow> j < i \<Longrightarrow> t ! j \<noteq> 0"
    and "cs \<le> j \<Longrightarrow> j < i \<Longrightarrow> t ! j = t ! (i - 1) + of_nat (i - 1 - j) * ps"
  using assms unfolding run_of_def by blast+

lemma run_of_one: "t ! i \<noteq> 0 \<Longrightarrow> run_of t ps i (Suc i)"
  by (auto simp: run_of_def dest: le_less_Suc_eq)

lemma run_of_more:
  assumes "run_of t ps cs i" and "t ! i \<noteq> 0" and "t ! (i - 1) - t ! i = ps"
  shows "run_of t ps cs (Suc i)"
proof -
  have "t ! j = t ! i + of_nat (i - j) * ps" if "cs \<le> j" "j < i" for j
  proof -
    have e: "t ! j = t ! (i - 1) + of_nat (i - 1 - j) * ps" by (rule run_ofD(3) [OF assms(1) that])
    have p: "t ! (i - 1) = t ! i + ps" using assms(3) [symmetric] by simp
    have d: "i - j = Suc (i - 1 - j)" using that by simp
    show ?thesis unfolding e d of_nat_Suc by (subst p) (simp add: distrib_right)
  qed
  moreover have "t ! j \<noteq> 0" if "cs \<le> j" "j < Suc i" for j
    using run_ofD(2) [OF assms(1), of j] that assms(2) by (cases "j = i") auto
  moreover have "cs < Suc i" using run_ofD(1) [OF assms(1)] by simp
  ultimately show ?thesis unfolding run_of_def by (metis add.right_neutral diff_Suc_1 diff_self_eq_0 less_antisym mult_zero_left of_nat_0)
qed

lemma find_scan_run:
  assumes "find_scan t psize csize msk cs [i..<n] = r" and "run_of t (scast psize) cs i" and "i \<le> n"
  shows "case r of
      Found cs1 k \<Rightarrow> run_of t (scast psize) cs1 k \<and> k < n \<and> csize \<le> of_nat (k - cs1) * psize \<and> t ! (k - 1) AND msk = 0
    | Gap \<Rightarrow> True
    | Off_end cs1 \<Rightarrow> cs1 < n"
  using assms
proof (induction "n - i" arbitrary: i cs)
  case 0
  then have "i = n" by simp
  with 0 show ?case by (auto simp: run_of_def)
next
  case (Suc d)
  then have i: "i < n" by simp
  then have up: "[i..<n] = i # [Suc i..<n]" by (rule upt_conv_Cons)
  consider (found) "csize \<le> of_nat (i - cs) * psize \<and> t ! (i - 1) AND msk = 0" | (gap) "\<not> (csize \<le> of_nat (i - cs) * psize \<and> t ! (i - 1) AND msk = 0)" "t ! i = 0"
    | (more) "\<not> (csize \<le> of_nat (i - cs) * psize \<and> t ! (i - 1) AND msk = 0)" "t ! i \<noteq> 0" by blast
  then show ?case
  proof cases
    case found
    then have "r = Found cs i" using Suc.prems(1) by (simp add: up)
    with found i Suc.prems(2) show ?thesis by simp
  next
    case gap
    then have "r = Gap" using Suc.prems(1) unfolding up find_scan.simps if_not_P [OF gap(1)] by simp
    then show ?thesis by simp
  next
    case more
    let ?c = "if t ! (i - 1) - t ! i \<noteq> scast psize then i else cs"
    have f: "find_scan t psize csize msk ?c [Suc i..<n] = r" using Suc.prems(1) unfolding up find_scan.simps if_not_P [OF more(1)] if_not_P [OF more(2)] .
    have "run_of t (scast psize) ?c (Suc i)" using run_of_one run_of_more Suc.prems(2) more(2) by simp
    then show ?thesis using Suc.hyps(1) [OF _ f] Suc.hyps(2) i by simp
  qed
qed

text \<open>The bytes found are enough, so the slots that make up the buffer lie inside the run.\<close>

lemma enough_slots:
  assumes "csize \<le> of_nat n * psize"
  shows "unat (csize div psize :: u32) \<le> n"
proof -
  have "unat csize \<le> unat (of_nat n * psize)" using assms by (simp add: word_le_nat_alt)
  also have "\<dots> \<le> n * unat psize"
    by (simp add: unat_word_ariths unat_of_nat) (metis mod_less_eq_dividend mod_mult_left_eq)
  finally have "unat csize div unat psize \<le> n" by (cases "unat psize = 0") (auto simp: div_le_mono less_mult_imp_div_less dest: div_le_mono [of _ _ "unat psize"])
  then show ?thesis by (simp add: unat_div_distrib)
qed

text \<open>The addresses of the blocks of a buffer.\<close>

definition pieces :: "i32 \<Rightarrow> u32 \<Rightarrow> u64 \<Rightarrow> u64 list" where
  "pieces psize csize v = map (\<lambda>j. v + of_nat j * scast psize) [0..<unat (csize div psize)]"

lemma run_pieces:
  assumes "run_of t (scast psize) cs i" and "unat (csize div psize) \<le> i - cs"
  shows "rev (map ((!) t) [i - unat (csize div psize)..<i]) = pieces psize csize (t ! (i - 1))"
proof (rule nth_equalityI)
  fix k assume "k < length (rev (map ((!) t) [i - unat (csize div psize)..<i]))"
  then have k: "k < unat (csize div psize)" using assms(2) by simp
  let ?j = "i - 1 - k"
  have "cs \<le> ?j" "?j < i" "i - 1 - ?j = k" using run_ofD(1) [OF assms(1)] assms(2) k by auto
  then have "t ! ?j = t ! (i - 1) + of_nat k * scast psize" using run_ofD(3) [OF assms(1), of ?j] by simp
  then show "rev (map ((!) t) [i - unat (csize div psize)..<i]) ! k = pieces psize csize (t ! (i - 1)) ! k"
    using k assms(2) by (simp add: rev_nth pieces_def)
qed (use assms(2) in \<open>simp add: pieces_def\<close>)

text \<open>The result of the search: nothing, or a buffer whose blocks leave the table.\<close>

lemma findcontig_run:
  assumes "length (ptable s) = PTABSIZE" and "cstart s < PTABSIZE" and ps: "piece_size (gfporder s) \<noteq> 0"
  shows "(\<exists>c < PTABSIZE. nac_mem_findcontig csize al s = Some (Ok 0, s\<lparr>cstart := c\<rparr>)) \<or>
    (\<exists>r i k. nac_mem_findcontig csize al s = Some (Ok r, s\<lparr>ptable := clear_slots [i - k..<i] (ptable s), cstart := i\<rparr>) \<and>
       k = unat (csize div piece_size (gfporder s)) \<and> k \<le> i \<and> i < PTABSIZE \<and> r \<noteq> 0 \<and> r AND scast (al - 1) = 0 \<and>
       (\<forall>j \<in> {i - k..<i}. ptable s ! j \<noteq> 0) \<and>
       rev (map ((!) (ptable s)) [i - k..<i]) = pieces (piece_size (gfporder s)) csize r)"
proof (cases "ptable s ! cstart s = 0")
  case True
  then have "nac_mem_findcontig csize al s = Some (Ok 0, s\<lparr>cstart := cstart s\<rparr>)" by (simp add: nac_mem_findcontig_def)
  then show ?thesis using assms(2) by blast
next
  case False
  let ?t = "ptable s" and ?ps = "piece_size (gfporder s)"
  obtain r where r: "find_scan ?t ?ps csize (scast (al - 1)) (cstart s) [Suc (cstart s)..<PTABSIZE] = r" by blast
  note scan = find_scan_run [OF r run_of_one [OF False] Suc_leI [OF assms(2)]]
  show ?thesis
  proof (cases r)
    case Gap
    then have "nac_mem_findcontig csize al s = Some (Ok 0, s\<lparr>cstart := 0\<rparr>)" using False r by (simp add: nac_mem_findcontig_def)
    then show ?thesis by (intro disjI1 exI [of _ 0]) (simp add: PTABSIZE_def)
  next
    case (Off_end c)
    then have "nac_mem_findcontig csize al s = Some (Ok 0, s\<lparr>cstart := c\<rparr>)" using False r by (simp add: nac_mem_findcontig_def)
    then show ?thesis using scan Off_end by auto
  next
    case (Found c i)
    let ?k = "unat (csize div ?ps)"
    have f: "run_of ?t (scast ?ps) c i" "i < PTABSIZE" "csize \<le> of_nat (i - c) * ?ps" "?t ! (i - 1) AND scast (al - 1) = 0"
      using scan Found by simp_all
    have k: "?k \<le> i - c" by (rule enough_slots [OF f(3)])
    have "nac_mem_findcontig csize al s =
        Some (Ok (?t ! (i - 1)), s\<lparr>ptable := clear_slots [i - ?k..<i] ?t, cstart := i\<rparr>)"
      using False r Found ps by (simp add: nac_mem_findcontig_def)
    moreover have "?t ! (i - 1) \<noteq> 0" using run_ofD(1) [OF f(1)] by (intro run_ofD(2) [OF f(1)]) auto
    moreover have "\<forall>j \<in> {i - ?k..<i}. ?t ! j \<noteq> 0"
    proof
      fix j assume "j \<in> {i - ?k..<i}"
      then have "c \<le> j" "j < i" using k run_ofD(1) [OF f(1)] by auto
      then show "?t ! j \<noteq> 0" by (rule run_ofD(2) [OF f(1)])
    qed
    moreover have "?k \<le> i" using k by simp
    ultimately show ?thesis using f(2,4) run_pieces [OF f(1) k] by blast
  qed
qed

section \<open>Accounting for the pages\<close>

text \<open>The blocks the kernel handed out and took back, with their order.\<close>

fun blocks_got :: "page_event list \<Rightarrow> (i32 \<times> u64) multiset" where
  "blocks_got [] = {#}"
| "blocks_got (GotPages ord p # h) = (if p = 0 then {#} else {#(ord, p)#}) + blocks_got h"
| "blocks_got (_ # h) = blocks_got h"

fun blocks_freed :: "page_event list \<Rightarrow> (i32 \<times> u64) multiset" where
  "blocks_freed [] = {#}"
| "blocks_freed (FreedPages ord p # h) = {#(ord, p)#} + blocks_freed h"
| "blocks_freed (_ # h) = blocks_freed h"

lemma blocks_append [simp]:
  "blocks_got (h @ h1) = blocks_got h + blocks_got h1"
  "blocks_freed (h @ h1) = blocks_freed h + blocks_freed h1"
proof -
  show "blocks_got (h @ h1) = blocks_got h + blocks_got h1"
    by (induction h rule: blocks_got.induct) simp_all
  show "blocks_freed (h @ h1) = blocks_freed h + blocks_freed h1"
    by (induction h rule: blocks_freed.induct) simp_all
qed

text \<open>The entries of a table, and the blocks of the buffer of one card and of all.\<close>

definition nz :: "u64 list \<Rightarrow> u64 multiset" where
  "nz t = filter_mset (\<lambda>p. p \<noteq> 0) (mset t)"

definition card_blocks :: "mem_st \<Rightarrow> nat \<Rightarrow> u64 multiset" where
  "card_blocks s i = (if vaddr s ! i = 0 then {#} else mset (pieces (piece_size (gfporder s)) (msize s ! i) (vaddr s ! i)))"

definition held :: "mem_st \<Rightarrow> u64 multiset" where
  "held s = (\<Sum>i<NNACS. card_blocks s i)"

lemma nz_update:
  assumes "i < length t"
  shows "nz (t[i := v]) + (if t ! i = 0 then {#} else {#t ! i#}) = nz t + (if v = 0 then {#} else {#v#})"
proof -
  have "mset t = add_mset (t ! i) (mset t - {#t ! i#})" using assms by simp
  then have "nz t = nz (t[i := 0]) + (if t ! i = 0 then {#} else {#t ! i#})"
    using assms by (simp add: nz_def mset_update)
  moreover have "nz (t[i := v]) = nz (t[i := 0]) + (if v = 0 then {#} else {#v#})"
    using assms by (simp add: nz_def mset_update)
  ultimately show ?thesis by simp
qed

lemma nz_clear:
  assumes "distinct js" and "\<forall>j\<in>set js. j < length t \<and> t ! j \<noteq> 0"
  shows "nz (clear_slots js t) + mset (map ((!) t) js) = nz t \<and> length (clear_slots js t) = length t"
  using assms
proof (induction js arbitrary: t)
  case Nil
  then show ?case by (simp add: clear_slots_def)
next
  case (Cons j js)
  have "nz (clear_slots js (t[j := 0])) + mset (map ((!) (t[j := 0])) js) = nz (t[j := 0]) \<and>
      length (clear_slots js (t[j := 0])) = length (t[j := 0])"
    using Cons.prems by (intro Cons.IH) (auto simp: nth_list_update)
  moreover have "map ((!) (t[j := 0])) js = map ((!) t) js"
    using Cons.prems(1) by (auto intro!: map_cong nth_list_update_neq)
  moreover have "nz (t[j := 0]) + {#t ! j#} = nz t" using nz_update [of j t 0] Cons.prems(2) by simp
  ultimately show ?case by (simp add: clear_slots_def)
qed

lemma held_update:
  assumes "nac < NNACS" and "\<And>i. i \<noteq> nac \<Longrightarrow> card_blocks s1 i = card_blocks s i"
  shows "held s1 + card_blocks s nac = held s + card_blocks s1 nac"
proof -
  have "(\<Sum>i\<in>{..<NNACS} - {nac}. card_blocks s1 i) = (\<Sum>i\<in>{..<NNACS} - {nac}. card_blocks s i)"
    by (rule sum.cong) (use assms(2) in auto)
  then show ?thesis using assms(1) by (simp add: held_def sum.remove [of "{..<NNACS}" nac])
qed

text \<open>
  What the kernel promises of the pages it gives: they do not reach the end of the address
  space, they are below 4 GB (\<open>GFP_DMA32\<close>), and they overlap no block given out before and not
  yet freed.
\<close>

definition apart :: "i32 \<times> u64 \<Rightarrow> i32 \<times> u64 \<Rightarrow> bool" where
  "apart a b \<longleftrightarrow> uint (snd a) + uint (piece_size (fst a)) \<le> uint (snd b) \<or>
     uint (snd b) + uint (piece_size (fst b)) \<le> uint (snd a)"

definition page_kernel :: "page_env \<Rightarrow> bool" where
  "page_kernel K \<longleftrightarrow> (\<forall>h ord. let p = free_pages_at K h ord in p = 0 \<or>
     uint p + uint (piece_size ord) < 2 ^ 64 \<and> virt_to_phys K p < 0xffffffff \<and>
     (\<forall>b \<in># blocks_got h - blocks_freed h. apart (ord, p) b))"

text \<open>No two blocks of a collection overlap.\<close>

definition separate :: "(i32 \<times> u64) multiset \<Rightarrow> bool" where
  "separate M \<longleftrightarrow> (\<forall>a \<in># M. \<forall>b \<in># M - {#a#}. apart a b)"

lemma apart_sym: "apart a b \<longleftrightarrow> apart b a"
  by (auto simp: apart_def)

lemma separate_empty [simp]: "separate {#}"
  by (simp add: separate_def)

lemma separate_add:
  assumes "separate M" and "\<forall>b \<in># M. apart x b"
  shows "separate (add_mset x M)"
  unfolding separate_def
proof (intro ballI)
  fix a b assume a: "a \<in># add_mset x M" and b: "b \<in># add_mset x M - {#a#}"
  show "apart a b"
  proof (cases "a = x")
    case True
    then show ?thesis using assms(2) b by simp
  next
    case False
    then have "a \<in># M" "b = x \<or> b \<in># M - {#a#}" using a b by auto
    then show ?thesis using assms apart_sym by (auto simp: separate_def)
  qed
qed

lemma separate_mono: "separate M \<Longrightarrow> N \<subseteq># M \<Longrightarrow> separate N"
  unfolding separate_def
proof (intro ballI)
  fix a b assume M: "\<forall>a \<in># M. \<forall>b \<in># M - {#a#}. apart a b" "N \<subseteq># M" and ab: "a \<in># N" "b \<in># N - {#a#}"
  have "N - {#a#} \<subseteq># M - {#a#}" using M(2) by (auto simp: subseteq_mset_def intro: diff_le_mono)
  then show "apart a b" using M ab by (meson mset_subset_eqD)
qed

text \<open>
  The invariant: the static tables have their sizes, a buffer has one of three sizes and is
  aligned, and every block that the kernel gave was given back, or is in a table, in a buffer, or
  in hand (\<open>E\<close>), exactly once.
\<close>

definition accounted :: "u64 multiset \<Rightarrow> mem_st \<Rightarrow> bool" where
  "accounted E s \<longleftrightarrow> blocks_got (plog s) =
     blocks_freed (plog s) + image_mset (Pair (gfporder s)) (nz (ptable s) + nz (htable s) + held s + E)"

definition buffer_ok :: "mem_st \<Rightarrow> nat \<Rightarrow> bool" where
  "buffer_ok s i \<longleftrightarrow> vaddr s ! i \<noteq> 0 \<longrightarrow>
     msize s ! i \<in> {0x10000000, 0x8000000, 0x4000000} \<and> vaddr s ! i AND scast (malign s - 1) = 0"

definition shape :: "mem_st \<Rightarrow> bool" where
  "shape s \<longleftrightarrow> length (msize s) = NNACS \<and> length (vaddr s) = NNACS \<and> length (inuse s) = NNACS \<and>
     length (ptable s) = PTABSIZE \<and> length (htable s) = HTABSIZE \<and> cstart s < PTABSIZE \<and> unat (gfporder s) \<le> 14 \<and>
     0 \<le> nnacs s \<and> nnacs s \<le> int NNACS \<and> (\<forall>i < NNACS. buffer_ok s i)"

definition log_ok :: "page_event list \<Rightarrow> bool" where
  "log_ok h \<longleftrightarrow> separate (blocks_got h - blocks_freed h) \<and>
     (\<forall>b \<in># blocks_got h. uint (snd b) + uint (piece_size (fst b)) < 2 ^ 64)"

definition mem_ok :: "u64 multiset \<Rightarrow> mem_st \<Rightarrow> bool" where
  "mem_ok E s \<longleftrightarrow> shape s \<and> accounted E s \<and> log_ok (plog s)"

text \<open>What the fields that a buffer does not depend on leave alone.\<close>

lemma held_frame [simp]:
  "held (s\<lparr>plog := l\<rparr>) = held s" "held (s\<lparr>ptable := t\<rparr>) = held s" "held (s\<lparr>htable := t\<rparr>) = held s"
  "held (s\<lparr>cstart := c\<rparr>) = held s" "held (s\<lparr>inuse := u\<rparr>) = held s" "held (s\<lparr>reserved := f\<rparr>) = held s"
  by (simp_all add: held_def card_blocks_def cong: if_cong)

lemma shape_frame [simp]:
  "shape (s\<lparr>plog := l\<rparr>) = shape s" "shape (s\<lparr>reserved := f\<rparr>) = shape s"
  "length t = PTABSIZE \<Longrightarrow> shape s \<Longrightarrow> shape (s\<lparr>ptable := t\<rparr>)"
  "length u = HTABSIZE \<Longrightarrow> shape s \<Longrightarrow> shape (s\<lparr>htable := u\<rparr>)"
  "c < PTABSIZE \<Longrightarrow> shape s \<Longrightarrow> shape (s\<lparr>cstart := c\<rparr>)"
  by (simp_all add: shape_def buffer_ok_def)

lemma log_ok_got:
  assumes "log_ok h" and "blocks_freed h \<subseteq># blocks_got h" and "p \<noteq> 0"
    and "uint p + uint (piece_size ord) < 2 ^ 64" and "\<forall>b \<in># blocks_got h - blocks_freed h. apart (ord, p) b"
  shows "log_ok (h @ [GotPages ord p])"
proof -
  have "separate (add_mset (ord, p) (blocks_got h - blocks_freed h))"
    using assms(1,5) by (intro separate_add) (simp_all add: log_ok_def)
  then have "separate (add_mset (ord, p) (blocks_got h) - blocks_freed h)"
    using assms(2) by (metis add_mset_add_single subset_mset.diff_add_assoc2)
  then show ?thesis using assms(1,3,4) by (simp add: log_ok_def)
qed

lemma log_ok_none [simp]: "log_ok (h @ [GotPages ord 0]) = log_ok h"
  by (simp add: log_ok_def)

lemma log_ok_freed:
  assumes "log_ok h"
  shows "log_ok (h @ [FreedPages ord p])"
proof -
  have "blocks_got h - add_mset (ord, p) (blocks_freed h) \<subseteq># blocks_got h - blocks_freed h"
    by (metis add_mset_add_single diff_diff_add_mset diff_subset_eq_self)
  then show ?thesis using assms separate_mono by (auto simp: log_ok_def)
qed

lemma mem_ok_live:
  "mem_ok E s \<Longrightarrow> blocks_got (plog s) - blocks_freed (plog s) =
     image_mset (Pair (gfporder s)) (nz (ptable s) + nz (htable s) + held s + E)"
  by (simp add: mem_ok_def accounted_def)

lemma mem_ok_freed_le: "mem_ok E s \<Longrightarrow> blocks_freed (plog s) \<subseteq># blocks_got (plog s)"
  by (simp add: mem_ok_def accounted_def)

section \<open>Collecting and returning pages\<close>

lemma get_free_pages_run:
  "get_free_pages K ord s = Some (Ok (free_pages_at K (plog s) ord),
     s\<lparr>plog := plog s @ [GotPages ord (free_pages_at K (plog s) ord)]\<rparr>)"
  by (simp add: get_free_pages_def log_page_def)

lemma mem_ok_got:
  assumes "page_kernel K" and "mem_ok {#} s" and "p = free_pages_at K (plog s) (gfporder s)" and "p \<noteq> 0"
  shows "mem_ok {#p#} (s\<lparr>plog := plog s @ [GotPages (gfporder s) p]\<rparr>)" and "virt_to_phys K p < 0xffffffff"
proof -
  have k: "uint p + uint (piece_size (gfporder s)) < 2 ^ 64" "virt_to_phys K p < 0xffffffff"
    "\<forall>b \<in># blocks_got (plog s) - blocks_freed (plog s). apart (gfporder s, p) b"
    using assms(1,3,4) unfolding page_kernel_def Let_def by blast+
  have "log_ok (plog s @ [GotPages (gfporder s) p])"
    using assms(2,4) k mem_ok_freed_le [OF assms(2)] by (intro log_ok_got) (simp_all add: mem_ok_def)
  then show "mem_ok {#p#} (s\<lparr>plog := plog s @ [GotPages (gfporder s) p]\<rparr>)"
    using assms(2,4) by (simp add: mem_ok_def accounted_def)
  show "virt_to_phys K p < 0xffffffff" by (rule k(2))
qed

lemma mem_ok_asked: "mem_ok E s \<Longrightarrow> mem_ok E (s\<lparr>plog := plog s @ [GotPages ord 0]\<rparr>)"
  by (simp add: mem_ok_def accounted_def)

text \<open>A page in hand goes to a free slot of the table.\<close>

lemma put_page_run:
  assumes "mem_ok {#p#} s" and "virt_to_phys K p < 0xffffffff" and "p \<noteq> 0" and "i < PTABSIZE" and "ptable s ! i = 0"
  shows "put_page K p (i, j) s = Some (Ok (i + 1, j), s\<lparr>ptable := (ptable s)[i := p]\<rparr>)"
    and "mem_ok {#} (s\<lparr>ptable := (ptable s)[i := p]\<rparr>)"
proof -
  show "put_page K p (i, j) s = Some (Ok (i + 1, j), s\<lparr>ptable := (ptable s)[i := p]\<rparr>)"
    using assms(2) by (simp add: put_page_def)
  have len: "length (ptable s) = PTABSIZE" using assms(1) by (simp add: mem_ok_def shape_def)
  then have "nz ((ptable s)[i := p]) = nz (ptable s) + {#p#}" using nz_update [of i "ptable s" p] assms(3-5) by simp
  then show "mem_ok {#} (s\<lparr>ptable := (ptable s)[i := p]\<rparr>)"
    using assms(1) len by (simp add: mem_ok_def accounted_def)
qed

text \<open>The module as it is loaded: empty tables, nothing asked of the kernel yet.\<close>

definition fresh :: "mem_st \<Rightarrow> bool" where
  "fresh s \<longleftrightarrow> shape s \<and> ptable s = replicate PTABSIZE 0 \<and> htable s = replicate HTABSIZE 0 \<and>
     (\<forall>i < NNACS. vaddr s ! i = 0) \<and> blocks_got (plog s) = {#} \<and> blocks_freed (plog s) = {#}"

lemma fresh_ok:
  assumes "fresh s" and "unat ord \<le> 14"
  shows "mem_ok {#} (s\<lparr>gfporder := ord\<rparr>)"
proof -
  have "held (s\<lparr>gfporder := ord\<rparr>) = {#}" using assms(1) by (simp add: held_def card_blocks_def fresh_def)
  moreover have "nz (replicate n 0) = {#}" for n by (simp add: nz_def)
  ultimately show ?thesis using assms
    by (simp add: mem_ok_def shape_def buffer_ok_def accounted_def log_ok_def fresh_def)
qed

text \<open>The kernel has at least one page to give.\<close>

definition has_page :: "page_env \<Rightarrow> bool" where
  "has_page K \<longleftrightarrow> (\<forall>h. blocks_got h = {#} \<longrightarrow> free_pages_at K h 0 \<noteq> 0)"

lemma fresh_asked: "fresh (s\<lparr>plog := h\<rparr>) \<Longrightarrow> fresh (s\<lparr>plog := h @ [GotPages ord 0]\<rparr>)"
  by (simp add: fresh_def)

lemma find_order_run:
  assumes "fresh s" and "has_page K"
  shows "\<exists>ord p h. find_order K (gfporder s) s = Some (Ok (ord, p), s\<lparr>plog := h @ [GotPages ord p]\<rparr>) \<and>
     p = free_pages_at K h ord \<and> p \<noteq> 0 \<and> unat ord \<le> 14 \<and> fresh (s\<lparr>plog := h\<rparr>)"
proof -
  let ?I = "\<lambda>ord t. unat ord \<le> 14 \<and> t = s\<lparr>plog := plog t\<rparr> \<and> fresh (s\<lparr>plog := plog t\<rparr>)"
  let ?Q = "\<lambda>(ord, p) t. \<exists>h. t = s\<lparr>plog := h @ [GotPages ord p]\<rparr> \<and> p = free_pages_at K h ord \<and> p \<noteq> 0 \<and>
    unat ord \<le> 14 \<and> fresh (s\<lparr>plog := h\<rparr>)"
  have "\<exists>r t. find_order K (gfporder s) s = Some (Ok r, t) \<and> ?Q r t"
    unfolding find_order_def
  proof (rule iterate_total [where I = ?I and \<mu> = "\<lambda>ord t. unat ord"], goal_cases)
    case 1
    show ?case using assms(1) by (simp add: fresh_def shape_def)
  next
    case (2 ord t)
    let ?p = "free_pages_at K (plog t) ord" and ?t = "t\<lparr>plog := plog t @ [GotPages ord (free_pages_at K (plog t) ord)]\<rparr>"
    have t: "t = s\<lparr>plog := plog t\<rparr>" "fresh (s\<lparr>plog := plog t\<rparr>)" "unat ord \<le> 14" using 2 by blast+
    have upd: "?t = s\<lparr>plog := plog t @ [GotPages ord ?p]\<rparr>"
      by (subst t(1)) simp
    show ?case
    proof (cases "?p = 0")
      case True
      have "ord \<noteq> 0" using True assms(2) t(2) by (auto simp: has_page_def fresh_def)
      then have "unat (ord - 1) < unat ord" by (rule measure_unat)
      moreover have "unat (ord - 1) \<le> 14" using calculation t(3) by simp
      moreover have "fresh (s\<lparr>plog := plog ?t\<rparr>)" using fresh_asked [OF t(2)] True by simp
      moreover have "?t = s\<lparr>plog := plog ?t\<rparr>" using upd by simp
      ultimately show ?thesis using True
        by (intro disjI1 exI [of _ "ord - 1"] exI [of _ ?t]) (simp add: get_free_pages_run)
    next
      case False
      then show ?thesis using t
        by (intro disjI2 exI [of _ "(ord, ?p)"] exI [of _ ?t] conjI) (simp add: get_free_pages_run, simp add: upd, metis)
    qed
  qed
  then show ?thesis by force
qed

lemma collect_run:
  assumes "page_kernel K" and "mem_ok {#} s" and "0 < i" and "\<forall>k. i \<le> k \<longrightarrow> k < PTABSIZE \<longrightarrow> ptable s ! k = 0" and "i \<le> PTABSIZE"
  shows "\<exists>t. collect_pages K (gfporder s) (i, 0) s = Some (Ok (), t) \<and> mem_ok {#} t \<and>
    t = s\<lparr>ptable := ptable t, plog := plog t\<rparr>"
proof -
  let ?I = "\<lambda>(i, j) t. mem_ok {#} t \<and> t = s\<lparr>ptable := ptable t, plog := plog t\<rparr> \<and> i \<le> PTABSIZE \<and> (j :: nat) = 0 \<and>
    (\<forall>k. i \<le> k \<longrightarrow> k < PTABSIZE \<longrightarrow> ptable t ! k = 0)"
  have "\<exists>r t. collect_pages K (gfporder s) (i, 0) s = Some (Ok r, t) \<and> mem_ok {#} t \<and> t = s\<lparr>ptable := ptable t, plog := plog t\<rparr>"
    unfolding collect_pages_def
  proof (rule iterate_total [where I = ?I and \<mu> = "\<lambda>(i, j) t. PTABSIZE - i"], goal_cases)
    case 1
    show ?case using assms by simp
  next
    case (2 x t)
    obtain i where x: "x = (i, 0)" using 2 by (cases x) auto
    have t: "mem_ok {#} t" "t = s\<lparr>ptable := ptable t, plog := plog t\<rparr>" "i \<le> PTABSIZE"
      "\<forall>k. i \<le> k \<longrightarrow> k < PTABSIZE \<longrightarrow> ptable t ! k = 0" using 2 by (simp_all add: x)
    have ord: "gfporder t = gfporder s" by (subst t(2)) simp
    let ?p = "free_pages_at K (plog t) (gfporder s)" and ?t = "t\<lparr>plog := plog t @ [GotPages (gfporder s) (free_pages_at K (plog t) (gfporder s))]\<rparr>"
    consider (full) "\<not> i < PTABSIZE" | (none) "i < PTABSIZE" "?p = 0" | (some) "i < PTABSIZE" "?p \<noteq> 0" by blast
    then show ?case
    proof cases
      case full
      then show ?thesis using t by (intro disjI2 exI [of _ "()"] exI [of _ t]) (simp add: x)
    next
      case none
      have "mem_ok {#} ?t" using mem_ok_asked [OF t(1)] none(2) by simp
      moreover have "?t = s\<lparr>ptable := ptable ?t, plog := plog ?t\<rparr>" by (subst t(2)) simp
      ultimately show ?thesis using none
        by (intro disjI2 exI [of _ "()"] exI [of _ ?t]) (simp add: x get_free_pages_run)
    next
      case some
      let ?u = "?t\<lparr>ptable := (ptable t)[i := ?p]\<rparr>"
      note got = mem_ok_got [OF assms(1) t(1) _ some(2), unfolded ord, OF refl]
      have "ptable ?t ! i = 0" using t(4) some(1) by simp
      note put = put_page_run [OF got some(2,1) this]
      have "put_page K ?p (i, 0) ?t = Some (Ok (i + 1, 0), ?u)" "mem_ok {#} ?u" using put by simp_all
      moreover have "?u = s\<lparr>ptable := ptable ?u, plog := plog ?u\<rparr>" by (subst t(2)) simp
      moreover have "\<forall>k. Suc i \<le> k \<longrightarrow> k < PTABSIZE \<longrightarrow> ptable ?u ! k = 0" using t(4) by auto
      ultimately show ?thesis using some
        by (intro disjI1 exI [of _ "(i + 1, 0)"] exI [of _ ?u]) (simp add: x get_free_pages_run)
    qed
  qed
  then show ?thesis by auto
qed

lemma alloc_ptable_run:
  assumes "page_kernel K" and "has_page K" and "fresh s"
  shows "\<exists>t. nac_mem_alloc_ptable K s = Some (Ok (), t) \<and> mem_ok {#} t \<and>
    t = s\<lparr>gfporder := gfporder t, ptable := ptable t, plog := plog t\<rparr>"
proof -
  obtain ord p h where f: "find_order K (gfporder s) s = Some (Ok (ord, p), s\<lparr>plog := h @ [GotPages ord p]\<rparr>)"
    "p = free_pages_at K h ord" "p \<noteq> 0" "unat ord \<le> 14" "fresh (s\<lparr>plog := h\<rparr>)"
    using find_order_run [OF assms(3,2)] by blast
  let ?a = "s\<lparr>plog := h, gfporder := ord\<rparr>"
  let ?b = "s\<lparr>plog := h @ [GotPages ord p], gfporder := ord\<rparr>"
  let ?c = "?b\<lparr>ptable := (ptable ?b)[0 := p]\<rparr>"
  have "mem_ok {#} ?a" using fresh_ok [OF f(5,4)] by simp
  then have b: "mem_ok {#p#} ?b" "virt_to_phys K p < 0xffffffff"
  proof -
    have e: "?a\<lparr>plog := plog ?a @ [GotPages (gfporder ?a) p]\<rparr> = ?b" by simp
    have "p = free_pages_at K (plog ?a) (gfporder ?a)" using f(2) by simp
    from mem_ok_got [OF assms(1) \<open>mem_ok {#} ?a\<close> this f(3), unfolded e]
    show "mem_ok {#p#} ?b" "virt_to_phys K p < 0xffffffff" .
  qed
  have z: "ptable ?b ! k = 0" if "k < PTABSIZE" for k using assms(3) that by (simp add: fresh_def)
  have c: "put_page K p (0, 0) ?b = Some (Ok (1, 0), ?c)" "mem_ok {#} ?c"
    using put_page_run [OF b f(3), of 0] z [of 0] by (simp_all add: PTABSIZE_def)
  have "\<forall>k. 1 \<le> k \<longrightarrow> k < PTABSIZE \<longrightarrow> ptable ?c ! k = 0" using z by auto
  then obtain t where t: "collect_pages K (gfporder ?c) (1, 0) ?c = Some (Ok (), t)" "mem_ok {#} t"
    "t = ?c\<lparr>ptable := ptable t, plog := plog t\<rparr>"
    using collect_run [OF assms(1) c(2), of 1] by (auto simp: PTABSIZE_def)
  have "nac_mem_alloc_ptable K s = Some (Ok (), t)"
    using t(1) c(1) by (simp add: nac_mem_alloc_ptable_def f(1))
  moreover have "t = s\<lparr>gfporder := gfporder t, ptable := ptable t, plog := plog t\<rparr>"
    by (subst (1 2) t(3)) simp
  ultimately show ?thesis using t(2) by blast
qed

text \<open>Without a single page the module never finishes loading.\<close>

lemma find_order_hangs:
  assumes "\<And>h ord. free_pages_at K h ord = 0"
  shows "find_order K ord s = None"
  unfolding find_order_def
  by (rule iterate_hangs [where I = "\<lambda>_ _. True"]) (simp_all add: get_free_pages_run assms)

section \<open>The buffers of the cards\<close>

lemma uint_piece_size:
  assumes "unat ord \<le> 14"
  shows "uint (piece_size ord) = 2 ^ (12 + unat ord)"
proof -
  have "(2 :: int) ^ (12 + unat ord) \<le> 2 ^ 26" using assms by (intro power_increasing) auto
  then have "push_bit (unat ord) (4096 :: int) < 2 ^ 32" by (simp add: push_bit_eq_mult power_add)
  then have "take_bit 32 (push_bit (unat ord) (4096 :: int)) = push_bit (unat ord) 4096"
    by (intro take_bit_int_eq_self) (simp_all add: push_bit_eq_mult)
  then show ?thesis unfolding piece_size_def unsigned_push_bit_eq by (simp add: push_bit_eq_mult power_add)
qed

lemma piece_size_pos: "unat ord \<le> 14 \<Longrightarrow> piece_size ord \<noteq> 0"
  using uint_piece_size [of ord] by auto

lemma findcontig_ok:
  assumes "mem_ok {#} s"
  shows "\<exists>r t. nac_mem_findcontig csize al s = Some (Ok r, t) \<and> t = s\<lparr>ptable := ptable t, cstart := cstart t\<rparr> \<and>
     mem_ok (if r = 0 then {#} else mset (pieces (piece_size (gfporder s)) csize r)) t \<and> (r \<noteq> 0 \<longrightarrow> r AND scast (al - 1) = 0)"
proof -
  have sh: "length (ptable s) = PTABSIZE" "cstart s < PTABSIZE" "unat (gfporder s) \<le> 14"
    using assms by (simp_all add: mem_ok_def shape_def)
  from findcontig_run [OF sh(1,2) piece_size_pos [OF sh(3)], of csize al] show ?thesis
  proof (elim disjE exE conjE)
    fix c assume c: "c < PTABSIZE" "nac_mem_findcontig csize al s = Some (Ok 0, s\<lparr>cstart := c\<rparr>)"
    have "mem_ok {#} (s\<lparr>cstart := c\<rparr>)" using assms c(1) by (simp add: mem_ok_def accounted_def)
    with c(2) show ?thesis by (intro exI [of _ 0] exI [of _ "s\<lparr>cstart := c\<rparr>"]) simp
  next
    fix r i k
    let ?js = "[i - k..<i]" and ?ps = "piece_size (gfporder s)"
    let ?t = "s\<lparr>ptable := clear_slots ?js (ptable s), cstart := i\<rparr>"
    assume r: "nac_mem_findcontig csize al s = Some (Ok r, ?t)" "k \<le> i" "i < PTABSIZE" "r \<noteq> 0" "r AND scast (al - 1) = 0"
      "\<forall>j \<in> {i - k..<i}. ptable s ! j \<noteq> 0" "rev (map ((!) (ptable s)) ?js) = pieces ?ps csize r"
    have c: "nz (clear_slots ?js (ptable s)) + mset (map ((!) (ptable s)) ?js) = nz (ptable s) \<and>
        length (clear_slots ?js (ptable s)) = length (ptable s)"
      using r(3,6) sh(1) by (intro nz_clear) auto
    have "mset (pieces ?ps csize r) = mset (map ((!) (ptable s)) ?js)" unfolding r(7) [symmetric] by (rule mset_rev)
    with c have e: "nz (ptable s) = nz (clear_slots ?js (ptable s)) + mset (pieces ?ps csize r)" by simp
    have "shape ?t" using assms c r(3) sh(1) by (simp add: mem_ok_def)
    moreover have "accounted (mset (pieces ?ps csize r)) ?t" using assms by (simp add: mem_ok_def accounted_def e)
    moreover have "log_ok (plog ?t)" using assms by (simp add: mem_ok_def)
    ultimately have "mem_ok (mset (pieces ?ps csize r)) ?t" by (simp add: mem_ok_def)
    with r(1,4,5) show ?thesis by (intro exI [of _ r] exI [of _ ?t]) simp
  qed
qed

text \<open>A buffer in hand becomes the buffer of a card.\<close>

definition buffer_sizes :: "u32 set" where
  "buffer_sizes = {0x10000000, 0x8000000, 0x4000000}"

lemma card_blocks_other [simp]:
  "i \<noteq> nac \<Longrightarrow> card_blocks (s\<lparr>vaddr := (vaddr s)[nac := v]\<rparr>) i = card_blocks s i"
  "i \<noteq> nac \<Longrightarrow> card_blocks (s\<lparr>msize := (msize s)[nac := z]\<rparr>) i = card_blocks s i"
  by (simp_all add: card_blocks_def cong: if_cong)

lemma mem_ok_buffer:
  assumes "mem_ok (mset (pieces (piece_size (gfporder s)) (msize s ! nac) v)) s" and "nac < NNACS" and "vaddr s ! nac = 0"
    and "v \<noteq> 0" and "msize s ! nac \<in> buffer_sizes" and "v AND scast (malign s - 1) = 0"
  shows "mem_ok {#} (s\<lparr>vaddr := (vaddr s)[nac := v]\<rparr>)"
proof -
  let ?t = "s\<lparr>vaddr := (vaddr s)[nac := v]\<rparr>"
  have len: "length (vaddr s) = NNACS" using assms(1) by (simp add: mem_ok_def shape_def)
  have "held ?t + card_blocks s nac = held s + card_blocks ?t nac" by (rule held_update) (use assms(2) in simp_all)
  then have h: "held ?t = held s + mset (pieces (piece_size (gfporder s)) (msize s ! nac) v)"
    using assms(2,3,4) len by (simp add: card_blocks_def)
  have "buffer_ok ?t i" if "i < NNACS" for i
    using assms that len by (cases "i = nac") (auto simp: mem_ok_def shape_def buffer_ok_def buffer_sizes_def)
  then have "shape ?t" using assms(1) by (simp add: mem_ok_def shape_def)
  moreover have "accounted {#} ?t" using assms(1) h by (simp add: mem_ok_def accounted_def ac_simps)
  ultimately show ?thesis using assms(1) by (simp add: mem_ok_def)
qed

lemma mem_ok_halved:
  assumes "mem_ok E s" and "vaddr s ! nac = 0" and "nac < NNACS"
  shows "mem_ok E (s\<lparr>msize := (msize s)[nac := z]\<rparr>)"
proof -
  let ?t = "s\<lparr>msize := (msize s)[nac := z]\<rparr>"
  have "held ?t + card_blocks s nac = held s + card_blocks ?t nac" by (rule held_update) (use assms in simp_all)
  then have h: "held ?t = held s" using assms(2) by (simp add: card_blocks_def)
  have "buffer_ok ?t i" if "i < NNACS" for i
    using assms that by (cases "i = nac") (auto simp: mem_ok_def shape_def buffer_ok_def)
  then show ?thesis using assms(1) h by (simp add: mem_ok_def shape_def accounted_def)
qed

lemma find_buffer_run:
  assumes "mem_ok {#} s" and "nac < NNACS" and "vaddr s ! nac = 0" and "msize s ! nac \<in> buffer_sizes"
  shows "\<exists>b t. find_buffer nac s = Some (Ok b, t) \<and> mem_ok {#} t \<and> (b \<longleftrightarrow> vaddr t ! nac \<noteq> 0) \<and>
     t = s\<lparr>msize := (msize s)[nac := msize t ! nac], ptable := ptable t, vaddr := (vaddr s)[nac := vaddr t ! nac], cstart := cstart t\<rparr>"
proof -
  let ?F = "\<lambda>t. t = s\<lparr>msize := (msize s)[nac := msize t ! nac], ptable := ptable t, vaddr := (vaddr s)[nac := vaddr t ! nac], cstart := cstart t\<rparr>"
  let ?I = "\<lambda>(_ :: unit) t. mem_ok {#} t \<and> vaddr t ! nac = 0 \<and> msize t ! nac \<in> buffer_sizes \<and> ?F t"
  let ?Q = "\<lambda>b t. mem_ok {#} t \<and> (b \<longleftrightarrow> vaddr t ! nac \<noteq> 0) \<and> ?F t"
  have "\<exists>r t. find_buffer nac s = Some (Ok r, t) \<and> ?Q r t"
    unfolding find_buffer_def
  proof (rule iterate_total [where I = ?I and \<mu> = "\<lambda>_ t. unat (msize t ! nac)"], goal_cases)
    case 1
    have "length (msize s) = NNACS" "length (vaddr s) = NNACS" using assms(1) by (simp_all add: mem_ok_def shape_def)
    then show ?case using assms list_update_id [of "vaddr s" nac] by simp
  next
    case (2 x t)
    then have t: "mem_ok {#} t" "vaddr t ! nac = 0" "msize t ! nac \<in> buffer_sizes" "?F t" by blast+
    let ?z = "msize t ! nac"
    obtain v u where u: "nac_mem_findcontig ?z (malign t) t = Some (Ok v, u)" "u = t\<lparr>ptable := ptable u, cstart := cstart u\<rparr>"
      "mem_ok (if v = 0 then {#} else mset (pieces (piece_size (gfporder t)) ?z v)) u" "v \<noteq> 0 \<Longrightarrow> v AND scast (malign t - 1) = 0"
      using findcontig_ok [OF t(1), of ?z "malign t"] by blast
    have same: "vaddr u = vaddr t" "msize u = msize t" "gfporder u = gfporder t" "malign u = malign t" by (subst u(2), simp)+
    let ?w = "u\<lparr>vaddr := (vaddr u)[nac := v]\<rparr>"
    have len: "length (vaddr t) = NNACS" "length (msize t) = NNACS" using t(1) by (simp_all add: mem_ok_def shape_def)
    have lens: "length (msize s) = NNACS" "length (vaddr s) = NNACS" using assms(1) by (simp_all add: mem_ok_def shape_def)
    have ow: "(vaddr t)[nac := y] = (vaddr s)[nac := y]" "(msize t)[nac := z] = (msize s)[nac := z]" for y z
      using arg_cong [OF t(4), of vaddr] arg_cong [OF t(4), of msize] by (simp_all, (metis list_update_overwrite)+)
    have F: "?F (?w\<lparr>msize := (msize t)[nac := z]\<rparr>)" for z
      using assms(2) len lens by (subst (2) u(2), subst (2) t(4)) (simp add: same ow)
    show ?case
    proof (cases "v = 0")
      case False
      have "mem_ok {#} ?w" using u(3,4) False assms(2) t(2,3) by (intro mem_ok_buffer) (simp_all add: same)
      moreover have id: "?w\<lparr>msize := (msize t)[nac := ?z]\<rparr> = ?w" by (simp add: same(2) [symmetric])
      have "?F ?w" by (rule F [of ?z, unfolded id])
      ultimately show ?thesis using False u(1) assms(2) len lens
        by (intro disjI2 exI [of _ True] exI [of _ ?w]) (simp add: same)
    next
      case True
      have "(vaddr u)[nac := v] = vaddr u" using t(2) True same(1) list_update_id [of "vaddr u" nac] by simp
      then have w: "?w = u" by simp
      let ?h = "?w\<lparr>msize := (msize t)[nac := ?z div 2]\<rparr>"
      have h: "mem_ok {#} ?h" using mem_ok_halved [of "{#}" u nac "?z div 2"] u(3) True t(2) assms(2) unfolding w by (simp add: same)
      have z: "?z div 2 \<le> NAC_MIN_SIZE \<or> ?z div 2 \<in> buffer_sizes \<and> unat (?z div 2) < unat ?z"
        using t(3) by (auto simp: buffer_sizes_def NAC_MIN_SIZE_def)
      have vz: "vaddr ?h ! nac = 0" "msize ?h ! nac = ?z div 2" using True assms(2) len by (simp_all add: same)
      show ?thesis
      proof (cases "?z div 2 \<le> NAC_MIN_SIZE")
        case True
        then show ?thesis using \<open>v = 0\<close> u(1) h F [of "?z div 2"] len lens assms(2) vz
          by (intro disjI2 exI [of _ False] exI [of _ ?h]) (simp add: same)
      next
        case False
        then show ?thesis using \<open>v = 0\<close> u(1) h F [of "?z div 2"] len lens assms(2) vz z
          by (intro disjI1 exI [of _ "()"] exI [of _ ?h]) (simp add: same)
      qed
    qed
  qed
  then show ?thesis by blast
qed

text \<open>The pages of a buffer.\<close>

definition page_range :: "u64 \<Rightarrow> u32 \<Rightarrow> u64 set" where
  "page_range v sz = {virt_to_page v..virt_to_page (v + ucast sz - 1)}"

lemma for_each_flags:
  "for_each ps (\<lambda>p. modify (\<lambda>s. s\<lparr>reserved := (reserved s)(of_nat p := b)\<rparr>)) s =
     Some (Ok (), s\<lparr>reserved := \<lambda>q. if q \<in> of_nat ` set ps then b else reserved s q\<rparr>)"
proof (induction ps arbitrary: s)
  case (Cons p ps)
  let ?f = "\<lambda>p. modify (\<lambda>s. s\<lparr>reserved := (reserved s)(of_nat p := b)\<rparr>)"
  have "for_each (p # ps) ?f s = for_each ps ?f (s\<lparr>reserved := (reserved s)(of_nat p := b)\<rparr>)"
    unfolding for_each.simps by (rule bnd_step [OF modify_apply refl])
  also have "\<dots> = Some (Ok (), s\<lparr>reserved := \<lambda>q. if q \<in> of_nat ` set ps then b else ((reserved s)(of_nat p := b)) q\<rparr>)"
    unfolding Cons.IH by simp
  also have "(\<lambda>q. if q \<in> of_nat ` set ps then b else ((reserved s)(of_nat p := b)) q) =
      (\<lambda>q. if q \<in> of_nat ` set (p # ps) then b else reserved s q)" by auto
  finally show ?case .
qed simp

lemma of_nat_image_unat: "of_nat ` {unat (a :: u64)..unat b} = {a..b}"
proof (intro equalityI subsetI)
  fix x :: u64 assume "x \<in> of_nat ` {unat a..unat b}"
  then obtain n where n: "x = of_nat n" "unat a \<le> n" "n \<le> unat b" by auto
  have "n < 2 ^ 64" using n(3) unsigned_less [of b, where 'a = nat] by simp
  then have "unat x = n" by (simp add: n(1) unat_of_nat take_bit_nat_eq_self)
  with n show "x \<in> {a..b}" by (simp add: word_le_nat_alt)
next
  fix x assume "x \<in> {a..b}"
  then show "x \<in> of_nat ` {unat a..unat b}"
    by (intro image_eqI [of _ _ "unat x"]) (simp_all add: word_le_nat_alt)
qed

lemma set_reserved_run:
  "set_reserved b v sz s = Some (Ok (), s\<lparr>reserved := \<lambda>q. if q \<in> page_range v sz then b else reserved s q\<rparr>)"
proof -
  have "of_nat ` set [unat (virt_to_page v)..<Suc (unat (virt_to_page (v + ucast sz - 1)))] = page_range v sz"
    unfolding page_range_def set_upt atLeastLessThanSuc_atLeastAtMost by (rule of_nat_image_unat)
  then show ?thesis by (simp only: set_reserved_def for_each_flags)
qed

text \<open>The pages of the buffers of the first cards.\<close>

definition buffer_pages :: "nat \<Rightarrow> mem_st \<Rightarrow> u64 \<Rightarrow> bool" where
  "buffer_pages k s p \<longleftrightarrow> (\<exists>i < k. vaddr s ! i \<noteq> 0 \<and> p \<in> page_range (vaddr s ! i) (msize s ! i))"

lemma buffer_pages_all:
  assumes "\<forall>j. k \<le> j \<longrightarrow> j < NNACS \<longrightarrow> vaddr s ! j = 0" and "k \<le> NNACS"
  shows "buffer_pages k s = buffer_pages NNACS s"
proof
  fix p show "buffer_pages k s p = buffer_pages NNACS s p"
    unfolding buffer_pages_def using assms by (meson not_less order.strict_trans2)
qed

lemma buffer_pages_cong:
  "(\<And>i. i < k \<Longrightarrow> vaddr t ! i = vaddr s ! i \<and> msize t ! i = msize s ! i) \<Longrightarrow> buffer_pages k t = buffer_pages k s"
  by (auto simp: buffer_pages_def fun_eq_iff)

definition mem_frame :: "mem_st \<Rightarrow> mem_st \<Rightarrow> bool" where
  "mem_frame s t \<longleftrightarrow> nnacs t = nnacs s \<and> malign t = malign s \<and> dalign t = dalign s \<and> gfporder t = gfporder s \<and>
     htable t = htable s \<and> inuse t = inuse s \<and> plog t = plog s"

lemma mem_frame_upd [simp]:
  "mem_frame s (s\<lparr>msize := a, ptable := b, vaddr := c, cstart := d\<rparr>)" "mem_frame s (t\<lparr>reserved := f\<rparr>) = mem_frame s t"
  by (simp_all add: mem_frame_def)

lemma mem_frame_trans: "mem_frame s t \<Longrightarrow> mem_frame t u \<Longrightarrow> mem_frame s u"
  by (simp add: mem_frame_def)

text \<open>The cards that got a buffer come first.\<close>

definition filled :: "mem_st \<Rightarrow> bool" where
  "filled s \<longleftrightarrow> (\<forall>i j. i < j \<longrightarrow> j < NNACS \<longrightarrow> vaddr s ! j \<noteq> 0 \<longrightarrow> vaddr s ! i \<noteq> 0)"

lemma filledI:
  "\<forall>i < k. vaddr s ! i \<noteq> 0 \<Longrightarrow> \<forall>j. k \<le> j \<longrightarrow> j < NNACS \<longrightarrow> vaddr s ! j = 0 \<Longrightarrow> filled s"
  unfolding filled_def by (meson not_less order.strict_trans)

definition carved :: "mem_st \<Rightarrow> nat \<Rightarrow> mem_st \<Rightarrow> bool" where
  "carved s k t \<longleftrightarrow> mem_ok {#} t \<and> (\<forall>j < k. vaddr t ! j \<noteq> 0) \<and> mem_frame s t \<and> (\<forall>j. k \<le> j \<longrightarrow> j < NNACS \<longrightarrow> vaddr t ! j = 0) \<and>
     (\<forall>j. k \<le> j \<longrightarrow> j < nat (nnacs s) \<longrightarrow> msize t ! j = NAC_MEM_SIZE) \<and> reserved t = buffer_pages k t"

lemma mem_ok_reserved [simp]: "mem_ok E (s\<lparr>reserved := f\<rparr>) = mem_ok E s"
  by (simp add: mem_ok_def accounted_def)

lemma nac_mem_run:
  assumes "carved s 0 s"
  shows "\<exists>b t. nac_mem s = Some (Ok b, t) \<and> mem_ok {#} t \<and> mem_frame s t \<and> reserved t = buffer_pages NNACS t \<and>
    filled t \<and> (\<forall>j. nat (nnacs s) \<le> j \<longrightarrow> j < NNACS \<longrightarrow> vaddr t ! j = 0)"
proof -
  have nn: "nat (nnacs s) \<le> NNACS" using assms by (simp add: carved_def mem_ok_def shape_def nat_le_iff)
  let ?R = "\<lambda>t. mem_ok {#} t \<and> mem_frame s t \<and> reserved t = buffer_pages NNACS t \<and>
    filled t \<and> (\<forall>j. nat (nnacs s) \<le> j \<longrightarrow> j < NNACS \<longrightarrow> vaddr t ! j = 0)"
  let ?body = "\<lambda>nac. bnd (find_buffer nac) (\<lambda>ok. if \<not> ok then ret False
     else bnd (read_st (\<lambda>s. (vaddr s ! nac, msize s ! nac))) (\<lambda>(v, sz). bnd (set_reserved True v sz) (\<lambda>_. ret True)))"
  have step: "run_to (carved s k) (?body k) (\<lambda>b. if b then carved s (Suc k) else ?R)" if k: "k < nat (nnacs s)" for k
  proof (rule run_toI)
    fix t assume "carved s k t"
    then have t: "mem_ok {#} t" "mem_frame s t" "\<forall>j. k \<le> j \<longrightarrow> j < NNACS \<longrightarrow> vaddr t ! j = 0"
      "\<forall>j. k \<le> j \<longrightarrow> j < nat (nnacs s) \<longrightarrow> msize t ! j = NAC_MEM_SIZE" "reserved t = buffer_pages k t"
      "\<forall>j < k. vaddr t ! j \<noteq> 0" by (simp_all add: carved_def)
    have kN: "k < NNACS" using k nn by simp
    have len: "length (vaddr t) = NNACS" "length (msize t) = NNACS" using t(1) by (simp_all add: mem_ok_def shape_def)
    obtain b u where u: "find_buffer k t = Some (Ok b, u)" "mem_ok {#} u" "b \<longleftrightarrow> vaddr u ! k \<noteq> 0"
      "u = t\<lparr>msize := (msize t)[k := msize u ! k], ptable := ptable u, vaddr := (vaddr t)[k := vaddr u ! k], cstart := cstart u\<rparr>"
      using find_buffer_run [OF t(1) kN] t(3,4) kN k by (auto simp: buffer_sizes_def NAC_MEM_SIZE_def)
    have vu: "vaddr u ! j = vaddr t ! j" "msize u ! j = msize t ! j" if "j \<noteq> k" for j
      using that arg_cong [OF u(4), of vaddr] arg_cong [OF u(4), of msize]
      by (simp_all, (metis nth_list_update_neq)+)
    have "mem_frame t u" by (subst u(4)) simp
    with t(2) have fr: "mem_frame s u" by (rule mem_frame_trans)
    have ru: "reserved u = buffer_pages k u"
      using arg_cong [OF u(4), of reserved] t(5) buffer_pages_cong [of k u t] vu by simp
    show "\<exists>r w. ?body k t = Some (Ok r, w) \<and> (if r then carved s (Suc k) else ?R) w"
    proof (cases b)
      case False
      then have z: "\<forall>j. k \<le> j \<longrightarrow> j < NNACS \<longrightarrow> vaddr u ! j = 0" using t(3) vu u(3) by metis
      moreover have "\<forall>j < k. vaddr u ! j \<noteq> 0" using t(6) vu by simp
      ultimately have "filled u" by (intro filledI)
      moreover have "reserved u = buffer_pages NNACS u" "\<forall>j. nat (nnacs s) \<le> j \<longrightarrow> j < NNACS \<longrightarrow> vaddr u ! j = 0"
        using z ru buffer_pages_all [of k u] kN k by simp_all
      ultimately show ?thesis using False u(1,2) fr by (intro exI [of _ False] exI [of _ u]) simp
    next
      case True
      let ?w = "u\<lparr>reserved := \<lambda>q. if q \<in> page_range (vaddr u ! k) (msize u ! k) then True else reserved u q\<rparr>"
      have "reserved ?w = buffer_pages (Suc k) ?w"
        using True u(3) by (auto simp: ru buffer_pages_def less_Suc_eq fun_eq_iff)
      moreover have "\<forall>j < Suc k. vaddr u ! j \<noteq> 0" using True u(3) t(6) vu by (simp add: less_Suc_eq)
      ultimately have "carved s (Suc k) ?w" using t(3,4) vu u(2) fr by (simp add: carved_def)
      then show ?thesis using True u(1) by (intro exI [of _ True] exI [of _ ?w]) (simp add: set_reserved_run)
    qed
  qed
  have "run_to (carved s 0) (for_ok [0..<nat (nnacs s)] ?body) (\<lambda>b. if b then carved s (nat (nnacs s)) else ?R)"
    using run_to_for_ok [of "[0..<nat (nnacs s)]" "carved s" ?body ?R] step by (simp cong: if_cong)
  then obtain b t where t: "for_ok [0..<nat (nnacs s)] ?body s = Some (Ok b, t)" "(if b then carved s (nat (nnacs s)) else ?R) t"
    using assms by (auto simp: run_to_def)
  have "?R t"
  proof (cases b)
    case True
    then have c: "carved s (nat (nnacs s)) t" using t(2) by simp
    then have "filled t" by (intro filledI [of "nat (nnacs s)"]) (simp_all add: carved_def)
    then show ?thesis using c nn buffer_pages_all [of "nat (nnacs s)" t] by (simp add: carved_def)
  qed (use t(2) in simp)
  moreover have "nac_mem s = Some (Ok b, t)" using t(1) by (simp add: nac_mem_def)
  ultimately show ?thesis by blast
qed

section \<open>Loading and unloading the module\<close>

lemma free_slot:
  assumes "mem_ok {#} s" and "i < PTABSIZE" and "ptable s ! i \<noteq> 0"
  shows "mem_ok {#} (s\<lparr>plog := plog s @ [FreedPages (gfporder s) (ptable s ! i)], ptable := (ptable s)[i := 0]\<rparr>)"
proof -
  have len: "length (ptable s) = PTABSIZE" using assms(1) by (simp add: mem_ok_def shape_def)
  have e: "nz (ptable s) = nz ((ptable s)[i := 0]) + {#ptable s ! i#}" using nz_update [of i "ptable s" 0] assms(2,3) len by simp
  have "log_ok (plog s @ [FreedPages (gfporder s) (ptable s ! i)])" using assms(1) by (intro log_ok_freed) (simp add: mem_ok_def)
  then show ?thesis using assms(1) len by (simp add: mem_ok_def accounted_def e)
qed

lemma free_high_slot:
  assumes "mem_ok {#} s" and "i < HTABSIZE" and "htable s ! i \<noteq> 0"
  shows "mem_ok {#} (s\<lparr>plog := plog s @ [FreedPages (gfporder s) (htable s ! i)], htable := (htable s)[i := 0]\<rparr>)"
proof -
  have len: "length (htable s) = HTABSIZE" using assms(1) by (simp add: mem_ok_def shape_def)
  have e: "nz (htable s) = nz ((htable s)[i := 0]) + {#htable s ! i#}" using nz_update [of i "htable s" 0] assms(2,3) len by simp
  have "log_ok (plog s @ [FreedPages (gfporder s) (htable s ! i)])" using assms(1) by (intro log_ok_freed) (simp add: mem_ok_def)
  then show ?thesis using assms(1) len by (simp add: mem_ok_def accounted_def e)
qed

text \<open>The rest of the tables is given back; the buffers stay as they are.\<close>

definition buffers_same :: "mem_st \<Rightarrow> mem_st \<Rightarrow> bool" where
  "buffers_same s t \<longleftrightarrow> nnacs t = nnacs s \<and> malign t = malign s \<and> gfporder t = gfporder s \<and> vaddr t = vaddr s \<and>
     msize t = msize s \<and> inuse t = inuse s \<and> reserved t = reserved s"

lemma buffers_same_refl [simp]: "buffers_same s s"
  by (simp add: buffers_same_def)

lemma free_ptable_run:
  assumes "mem_ok {#} s"
  shows "\<exists>t. nac_mem_free_ptable s = Some (Ok (), t) \<and> mem_ok {#} t \<and> buffers_same s t \<and> nz (ptable t) = {#} \<and> nz (htable t) = {#}"
proof -
  let ?low = "\<lambda>i. bnd (read_st (\<lambda>s. ptable s ! i)) (\<lambda>p. if p = 0 then ret ()
       else bnd (free_pages p (gfporder s)) (\<lambda>_. modify (\<lambda>s. s\<lparr>ptable := (ptable s)[i := 0]\<rparr>)))"
  let ?high = "\<lambda>i. bnd (read_st (\<lambda>s. htable s ! i)) (\<lambda>p. if p = 0 then ret ()
       else bnd (free_pages p (gfporder s)) (\<lambda>_. modify (\<lambda>s. s\<lparr>htable := (htable s)[i := 0]\<rparr>)))"
  let ?I = "\<lambda>k t. mem_ok {#} t \<and> buffers_same s t \<and> (\<forall>j < k. ptable t ! j = 0)"
  let ?J = "\<lambda>k t. mem_ok {#} t \<and> buffers_same s t \<and> nz (ptable t) = {#} \<and> (\<forall>j < k. htable t ! j = 0)"
  have low: "\<exists>u. ?low ([0..<PTABSIZE] ! k) t = Some (Ok (), u) \<and> ?I (Suc k) u" if k: "k < length [0..<PTABSIZE]" and I: "?I k t" for k t
  proof (cases "ptable t ! k = 0")
    case True
    then show ?thesis using k I by (intro exI [of _ t]) (simp add: less_Suc_eq)
  next
    case False
    let ?u = "t\<lparr>plog := plog t @ [FreedPages (gfporder t) (ptable t ! k)], ptable := (ptable t)[k := 0]\<rparr>"
    have len: "length (ptable t) = PTABSIZE" "gfporder t = gfporder s" using I by (simp_all add: mem_ok_def shape_def buffers_same_def)
    have "mem_ok {#} ?u" using free_slot [of t k] I k False by simp
    moreover have "\<forall>j < Suc k. ptable ?u ! j = 0" using I k len(1) by (simp add: less_Suc_eq)
    ultimately show ?thesis using k I False len
      by (intro exI [of _ ?u]) (simp add: free_pages_def log_page_def buffers_same_def)
  qed
  have high: "\<exists>u. ?high ([0..<HTABSIZE] ! k) t = Some (Ok (), u) \<and> ?J (Suc k) u" if k: "k < length [0..<HTABSIZE]" and J: "?J k t" for k t
  proof (cases "htable t ! k = 0")
    case True
    then show ?thesis using k J by (intro exI [of _ t]) (simp add: less_Suc_eq)
  next
    case False
    let ?u = "t\<lparr>plog := plog t @ [FreedPages (gfporder t) (htable t ! k)], htable := (htable t)[k := 0]\<rparr>"
    have len: "length (htable t) = HTABSIZE" "gfporder t = gfporder s" using J by (simp_all add: mem_ok_def shape_def buffers_same_def)
    have "mem_ok {#} ?u" using free_high_slot [of t k] J k False by simp
    moreover have "\<forall>j < Suc k. htable ?u ! j = 0" using J k len(1) by (simp add: less_Suc_eq)
    ultimately show ?thesis using k J False len
      by (intro exI [of _ ?u]) (simp add: free_pages_def log_page_def buffers_same_def)
  qed
  have "?I 0 s" using assms by simp
  then have "\<exists>t. for_each [0..<PTABSIZE] ?low s = Some (Ok (), t) \<and> ?I (length [0..<PTABSIZE]) t"
    by (rule for_each_runs) (rule low)
  then obtain t where t: "for_each [0..<PTABSIZE] ?low s = Some (Ok (), t)" "?I (length [0..<PTABSIZE]) t" by blast
  have nzz: "nz xs = {#}" if "\<forall>j < length xs. xs ! j = 0" for xs
    using that by (auto simp: nz_def mset_filter [symmetric] filter_empty_conv in_set_conv_nth simp del: mset_filter)
  have "length (ptable t) = PTABSIZE" using t(2) by (simp add: mem_ok_def shape_def)
  then have "?J 0 t" using t(2) nzz [of "ptable t"] by simp
  then have "\<exists>u. for_each [0..<HTABSIZE] ?high t = Some (Ok (), u) \<and> ?J (length [0..<HTABSIZE]) u"
    by (rule for_each_runs) (rule high)
  then obtain u where u: "for_each [0..<HTABSIZE] ?high t = Some (Ok (), u)" "?J (length [0..<HTABSIZE]) u" by blast
  have "length (htable u) = HTABSIZE" using u(2) by (simp add: mem_ok_def shape_def)
  then have "nz (htable u) = {#}" using u(2) nzz [of "htable u"] by simp
  moreover have "nac_mem_free_ptable s = Some (Ok (), u)" using t(1) u(1) by (simp add: nac_mem_free_ptable_def)
  ultimately show ?thesis using u(2) by blast
qed

text \<open>The cards on the bus are counted once each.\<close>

lemma pci_find_device_count:
  "pci_find_device d xs = None \<Longrightarrow> count_list xs d = 0"
  "pci_find_device d xs = Some ys \<Longrightarrow> count_list xs d = Suc (count_list ys d) \<and> length ys < length xs"
  by (induction xs) (auto split: if_splits)

lemma update_nnacs_run:
  "nac_mem_update_nnacs K s = Some (Ok (), s\<lparr>nnacs := nnacs s + int (sum_list (map (count_list (pci_bus K)) nac_pci_tbl))\<rparr>)"
proof -
  let ?body = "\<lambda>d from_dev. case pci_find_device d from_dev of None \<Rightarrow> ret (Inr ())
     | Some rest \<Rightarrow> bnd (modify (\<lambda>s. s\<lparr>nnacs := nnacs s + 1\<rparr>)) (\<lambda>_. ret (Inl rest))"
  have dev: "iterate (?body d) xs s = Some (Ok (), s\<lparr>nnacs := nnacs s + int (count_list xs d)\<rparr>)" for d xs s
  proof (induction xs arbitrary: s rule: length_induct)
    case (1 xs)
    show ?case
    proof (cases "pci_find_device d xs")
      case None
      then show ?thesis using pci_find_device_count(1) [OF None] by (subst iterate_leave [where r = "()" and s' = s]) simp_all
    next
      case (Some ys)
      note c = pci_find_device_count(2) [OF Some]
      have "iterate (?body d) xs s = iterate (?body d) ys (s\<lparr>nnacs := nnacs s + 1\<rparr>)"
        by (rule iterate_step) (simp add: Some)
      also have "\<dots> = Some (Ok (), s\<lparr>nnacs := nnacs s + 1 + int (count_list ys d)\<rparr>)" using 1 c by simp
      finally show ?thesis using c by simp
    qed
  qed
  have "for_each ds (\<lambda>d. iterate (?body d) (pci_bus K)) s =
      Some (Ok (), s\<lparr>nnacs := nnacs s + int (sum_list (map (count_list (pci_bus K)) ds))\<rparr>)" for ds s
    by (induction ds arbitrary: s) (simp_all add: dev add.assoc)
  then show ?thesis by (simp add: nac_mem_update_nnacs_def)
qed

lemma set_sizes_run:
  "for_each ks (\<lambda>k. modify (\<lambda>s. s\<lparr>msize := (msize s)[k := z]\<rparr>)) s =
     Some (Ok (), s\<lparr>msize := fold (\<lambda>k xs. xs[k := z]) ks (msize s)\<rparr>)"
proof (induction ks arbitrary: s)
  case (Cons k ks)
  show ?case unfolding for_each.simps by (rule bnd_step [OF modify_apply]) (simp only: Cons.IH, simp)
qed simp

lemma fold_same_nth:
  "length (fold (\<lambda>k xs. xs[k := z]) ks xs) = length xs"
  "j < length xs \<Longrightarrow> fold (\<lambda>k xs. xs[k := z]) ks xs ! j = (if j \<in> set ks then z else xs ! j)"
  by (induction ks arbitrary: xs) (auto simp: nth_list_update)

text \<open>The module as the kernel loads it, with its parameters.\<close>

definition mem_start :: "int \<Rightarrow> string \<Rightarrow> i32 \<Rightarrow> mem_st" where
  "mem_start n da order = \<lparr>nnacs = n, msize = replicate NNACS 0, malign = MBYTE, dalign = da, gfporder = order,
     ptable = replicate PTABSIZE 0, htable = replicate HTABSIZE 0, vaddr = replicate NNACS 0,
     inuse = replicate NNACS 0, cstart = 0, reserved = \<lambda>_. False, plog = []\<rparr>"

text \<open>What a loaded module owns.\<close>

definition loaded :: "mem_st \<Rightarrow> bool" where
  "loaded s \<longleftrightarrow> mem_ok {#} s \<and> nz (ptable s) = {#} \<and> nz (htable s) = {#} \<and> reserved s = buffer_pages NNACS s \<and> filled s \<and>
     (\<forall>j. nat (nnacs s) \<le> j \<longrightarrow> j < NNACS \<longrightarrow> vaddr s ! j = 0)"

lemma init_run:
  assumes K: "page_kernel K" "has_page K" and n: "0 \<le> n" and ord: "unat order \<le> 14"
  shows "\<exists>t. nac_mem_init K (mem_start n da order) = Some (Ok 0, t) \<and> loaded t \<and> 1 \<le> nnacs t \<and>
    malign t = (if da = [] then MBYTE else parse_align K da) \<and> inuse t = replicate NNACS 0"
proof -
  let ?al = "if da = [] then MBYTE else parse_align K da"
  define m where "m = (if n = 0 then int (sum_list (map (count_list (pci_bus K)) nac_pci_tbl)) else n)"
  define k where "k = (if int NNACS < (if m = 0 then 1 else m) then int NNACS else if m = 0 then 1 else m)"
  have "0 \<le> m" using n by (simp add: m_def)
  then have k: "1 \<le> k" "k \<le> int NNACS" by (auto simp: k_def NNACS_def)
  define a where "a = (mem_start n da order)\<lparr>malign := ?al, nnacs := k,
    msize := fold (\<lambda>k xs. xs[k := NAC_MEM_SIZE]) [0..<nat k] (msize (mem_start n da order))\<rparr>"
  let ?s1 = "(mem_start n da order)\<lparr>malign := ?al\<rparr>"
  have e1: "modify (\<lambda>s. if dalign s = [] then s else s\<lparr>malign := parse_align K (dalign s)\<rparr>) (mem_start n da order) = Some (Ok (), ?s1)"
    by (simp add: mem_start_def)
  have e2: "(if n = 0 then nac_mem_update_nnacs K else ret ()) ?s1 = Some (Ok (), ?s1\<lparr>nnacs := m\<rparr>)"
    by (simp add: update_nnacs_run m_def mem_start_def)
  have e3: "modify (\<lambda>s. if nnacs s = 0 then s\<lparr>nnacs := 1\<rparr> else s) (?s1\<lparr>nnacs := m\<rparr>) = Some (Ok (), ?s1\<lparr>nnacs := if m = 0 then 1 else m\<rparr>)"
    by simp
  have e4: "modify (\<lambda>s. if int NNACS < nnacs s then s\<lparr>nnacs := int NNACS\<rparr> else s) (?s1\<lparr>nnacs := if m = 0 then 1 else m\<rparr>) =
      Some (Ok (), ?s1\<lparr>nnacs := k\<rparr>)"
    by (simp add: k_def)
  have e5: "for_each [0..<nat k] (\<lambda>nac. modify (\<lambda>s. s\<lparr>msize := (msize s)[nac := NAC_MEM_SIZE]\<rparr>)) (?s1\<lparr>nnacs := k\<rparr>) = Some (Ok (), a)"
    by (simp add: set_sizes_run a_def)
  have r: "read_st nnacs (mem_start n da order\<lparr>malign := ?al\<rparr>) = Some (Ok n, ?s1)" "read_st nnacs (?s1\<lparr>nnacs := k\<rparr>) = Some (Ok k, ?s1\<lparr>nnacs := k\<rparr>)"
    by (simp_all add: mem_start_def)
  have init: "nac_mem_init K (mem_start n da order) = bnd (nac_mem_alloc_ptable K) (\<lambda>_. bnd nac_mem_sort_ptable (\<lambda>_.
      bnd nac_mem (\<lambda>_. bnd nac_mem_free_ptable (\<lambda>_. ret 0)))) a"
    unfolding nac_mem_init_def
    by (rule bnd_step, rule e1, rule bnd_step, rule r(1), rule bnd_step, rule e2, rule bnd_step, rule e3,
        rule bnd_step, rule e4, rule bnd_step, rule r(2), rule bnd_step, rule e5, rule refl)
  have fa: "fresh a"
    using ord k by (simp add: fresh_def shape_def buffer_ok_def a_def mem_start_def fold_same_nth PTABSIZE_def)
  obtain b where b: "nac_mem_alloc_ptable K a = Some (Ok (), b)" "mem_ok {#} b" "b = a\<lparr>gfporder := gfporder b, ptable := ptable b, plog := plog b\<rparr>"
    using alloc_ptable_run [OF K fa] by blast
  have "length (ptable b) = PTABSIZE" using b(2) by (simp add: mem_ok_def shape_def)
  then obtain t where t: "nac_mem_sort_ptable b = Some (Ok (), b\<lparr>ptable := t\<rparr>)" "mset t = mset (ptable b)" "length t = PTABSIZE"
    using sort_run by blast
  let ?c = "b\<lparr>ptable := t\<rparr>"
  have "nz t = nz (ptable b)" using t(2) by (simp add: nz_def)
  then have "mem_ok {#} ?c" using b(2) t(3) by (simp add: mem_ok_def accounted_def)
  moreover have ba: "vaddr b = vaddr a" "msize b = msize a" "reserved b = reserved a" "nnacs b = k" "malign b = ?al" "inuse b = replicate NNACS 0"
    by (subst b(3), simp add: a_def mem_start_def)+
  ultimately have "carved ?c 0 ?c"
    using fa k by (simp add: carved_def mem_frame_def fresh_def buffer_pages_def a_def mem_start_def fold_same_nth fun_eq_iff)
  then obtain x d where d: "nac_mem ?c = Some (Ok x, d)" "mem_ok {#} d" "mem_frame ?c d" "reserved d = buffer_pages NNACS d"
      "filled d" "\<forall>j. nat (nnacs ?c) \<le> j \<longrightarrow> j < NNACS \<longrightarrow> vaddr d ! j = 0"
    using nac_mem_run by blast
  obtain e where e: "nac_mem_free_ptable d = Some (Ok (), e)" "mem_ok {#} e" "buffers_same d e" "nz (ptable e) = {#}" "nz (htable e) = {#}"
    using free_ptable_run [OF d(2)] by blast
  have "buffer_pages NNACS e = buffer_pages NNACS d" using e(3) by (intro buffer_pages_cong) (simp add: buffers_same_def)
  then have "loaded e" using e d(3-6) by (simp add: loaded_def buffers_same_def mem_frame_def filled_def)
  moreover have "nnacs e = k" "malign e = ?al" "inuse e = replicate NNACS 0"
    using e(3) d(3) ba by (simp_all add: buffers_same_def mem_frame_def)
  ultimately show ?thesis using b(1) t(1) d(1) e(1) k(1) by (intro exI [of _ e]) (simp add: init)
qed

text \<open>A buffer is given back piece by piece.\<close>

lemma buffer_pieces:
  assumes "csize \<in> buffer_sizes" and "unat ord \<le> 14"
  shows "uint csize = int (unat (csize div piece_size ord)) * uint (piece_size ord)"
proof -
  have "\<exists>e \<in> {26, 27, 28}. uint csize = 2 ^ e" using assms(1) by (auto simp: buffer_sizes_def)
  then obtain e where "e \<in> {26, 27, 28}" "uint csize = 2 ^ e" by blast
  then have e: "26 \<le> e" "uint csize = 2 ^ e" by auto
  have d: "(2 :: int) ^ e = 2 ^ (e - (12 + unat ord)) * 2 ^ (12 + unat ord)"
    unfolding power_add [symmetric] using assms(2) e(1) by (intro arg_cong [of _ _ "(^) 2"]) simp
  have "int (unat (csize div piece_size ord)) = uint csize div uint (piece_size ord)"
    by (simp add: uint_div_distrib)
  then show ?thesis unfolding uint_piece_size [OF assms(2)] e(2) by (simp add: d)
qed

lemma scast_piece_size:
  assumes "unat ord \<le> 14"
  shows "uint (scast (piece_size ord) :: u64) = uint (piece_size ord)"
proof -
  have "(2 :: int) ^ (12 + unat ord) \<le> 2 ^ 26" using assms by (intro power_increasing) auto
  then have "uint (piece_size ord) < 2 ^ 31" unfolding uint_piece_size [OF assms] by simp
  then show ?thesis by (simp add: scast_small uint_up_ucast is_up)
qed

text \<open>The pieces of a buffer follow each other without wrapping.\<close>

lemma pieces_up:
  assumes "unat ord \<le> 14" and "j \<le> unat (csize div piece_size ord)"
    and "\<forall>p \<in> set (pieces (piece_size ord) csize v). uint p + uint (piece_size ord) < 2 ^ 64"
  shows "uint (v + of_nat j * scast (piece_size ord)) = uint v + int j * uint (piece_size ord)"
  using assms(2)
proof (induction j)
  case (Suc j)
  let ?p = "v + of_nat j * scast (piece_size ord)"
  have "?p \<in> set (pieces (piece_size ord) csize v)" using Suc.prems by (simp add: pieces_def)
  then have "uint ?p + uint (piece_size ord) < 2 ^ 64" using assms(3) by simp
  then have "uint (?p + scast (piece_size ord)) = uint ?p + uint (piece_size ord)"
    by (simp add: uint_word_ariths scast_piece_size [OF assms(1)])
  moreover have "v + of_nat (Suc j) * scast (piece_size ord) = ?p + scast (piece_size ord)" by (simp add: algebra_simps)
  ultimately show ?case using Suc by (simp add: algebra_simps)
qed simp

lemma freecontig_run:
  assumes sz: "csize \<in> buffer_sizes" and ord: "unat (gfporder s) \<le> 14"
    and last: "\<forall>p \<in> set (pieces (piece_size (gfporder s)) csize v). uint p + uint (piece_size (gfporder s)) < 2 ^ 64"
  shows "nac_mem_freecontig csize v s =
    Some (Ok (), s\<lparr>plog := plog s @ map (FreedPages (gfporder s)) (pieces (piece_size (gfporder s)) csize v)\<rparr>)"
proof -
  define ps where "ps = piece_size (gfporder s)"
  define k where "k = unat (csize div ps)"
  define P where "P = (\<lambda>j. v + of_nat j * scast ps :: u64)"
  let ?body = "\<lambda>w. if w < v + ucast csize then bnd (free_pages w (gfporder s)) (\<lambda>_. ret (Inl (w + scast ps))) else ret (Inr ())"
  have pcs: "pieces ps csize v = map P [0..<k]" by (simp add: pieces_def P_def k_def)
  have cs: "uint csize = int k * uint ps" using buffer_pieces [OF sz ord] by (simp add: k_def ps_def)
  have sc: "uint (scast ps :: u64) = uint ps" using scast_piece_size [OF ord] by (simp add: ps_def)
  have pos: "0 < uint ps" using uint_piece_size [OF ord] by (simp add: ps_def)
  have next_piece: "P (Suc j) = P j + scast ps" for j by (simp add: P_def algebra_simps)
  have up: "uint (P j) = uint v + int j * uint ps" if "j \<le> k" for j
    unfolding P_def ps_def using that last by (intro pieces_up [OF ord, of _ csize]) (simp_all add: k_def ps_def)
  have "(ucast csize :: u64) = word_of_int (int k * uint ps)" unfolding cs [symmetric] by simp
  also have "\<dots> = of_nat k * word_of_int (uint (scast ps :: u64))" unfolding sc by simp
  finally have vend: "v + ucast csize = P k" by (simp add: P_def)
  have less: "P j < v + ucast csize \<longleftrightarrow> j < k" if "j \<le> k" for j
    unfolding vend word_less_def up [OF that] up [OF order_refl] using pos by simp
  have loop: "iterate ?body (P (k - d)) t =
      Some (Ok (), t\<lparr>plog := plog t @ map (FreedPages (gfporder s)) (map P [k - d..<k])\<rparr>)" if "d \<le> k" for d t
    using that
  proof (induction d arbitrary: t)
    case 0
    then show ?case using less [of k] by (subst iterate_leave [where r = "()" and s' = t]) simp_all
  next
    case (Suc d)
    let ?j = "k - Suc d"
    have j: "?j < k" "Suc ?j = k - d" using Suc.prems by auto
    have "iterate ?body (P ?j) t = iterate ?body (P (k - d)) (t\<lparr>plog := plog t @ [FreedPages (gfporder s) (P ?j)]\<rparr>)"
      using less [of ?j] j next_piece [of ?j] by (intro iterate_step) (simp add: free_pages_def log_page_def)
    also have "\<dots> = Some (Ok (), t\<lparr>plog := plog t @ map (FreedPages (gfporder s)) (map P [?j..<k])\<rparr>)"
      using Suc j by (simp add: upt_conv_Cons)
    finally show ?case .
  qed
  have "P (k - k) = v" by (simp add: P_def)
  then have all: "iterate ?body v s = Some (Ok (), s\<lparr>plog := plog s @ map (FreedPages (gfporder s)) (map P [0..<k])\<rparr>)"
    using loop [of k s] by simp
  show ?thesis unfolding nac_mem_freecontig_def ps_def [symmetric] pcs
    by (rule bnd_step, rule read_st_apply) (unfold ps_def [symmetric], rule all)
qed

lemma card_blocks_held: "i < NNACS \<Longrightarrow> card_blocks s i \<subseteq># held s"
  by (simp add: held_def sum.remove [of _ i])

text \<open>What the kernel promised holds of the pieces of every buffer.\<close>

lemma loaded_pieces:
  assumes "loaded s" and "i < NNACS" and "vaddr s ! i \<noteq> 0" and "p \<in> set (pieces (piece_size (gfporder s)) (msize s ! i) (vaddr s ! i))"
  shows "uint p + uint (piece_size (gfporder s)) < 2 ^ 64"
proof -
  have "p \<in># card_blocks s i" using assms(3,4) by (simp add: card_blocks_def)
  then have "p \<in># held s" using card_blocks_held [OF assms(2)] by (meson mset_subset_eqD)
  then have "(gfporder s, p) \<in># blocks_got (plog s)" using assms(1) by (auto simp: loaded_def mem_ok_def accounted_def)
  then show ?thesis using assms(1) by (force simp: loaded_def mem_ok_def log_ok_def)
qed

lemma loaded_shape:
  assumes "loaded s"
  shows "unat (gfporder s) \<le> 14" and "nat (nnacs s) \<le> NNACS" and "i < NNACS \<Longrightarrow> buffer_ok s i"
  using assms by (simp_all add: loaded_def mem_ok_def shape_def nat_le_iff)

lemma loaded_size: "loaded s \<Longrightarrow> i < NNACS \<Longrightarrow> vaddr s ! i \<noteq> 0 \<Longrightarrow> msize s ! i \<in> buffer_sizes"
  using loaded_shape(3) by (auto simp: buffer_ok_def buffer_sizes_def)

text \<open>The buffers do not overlap.\<close>

lemma held_two:
  assumes "i < NNACS" and "j < NNACS" and "i \<noteq> j"
  shows "card_blocks s i + card_blocks s j \<subseteq># held s"
  using assms by (simp add: held_def sum.remove [of _ i] sum.remove [of _ j])

lemma loaded_apart:
  assumes "loaded s" and "i < NNACS" and "j < NNACS" and "i \<noteq> j" and "p \<in># card_blocks s i" and "q \<in># card_blocks s j"
  shows "apart (gfporder s, p) (gfporder s, q)"
proof -
  let ?live = "blocks_got (plog s) - blocks_freed (plog s)"
  have "?live = image_mset (Pair (gfporder s)) (held s)"
    using mem_ok_live [of "{#}" s] assms(1) by (simp add: loaded_def)
  moreover have "image_mset (Pair (gfporder s)) (card_blocks s i + card_blocks s j) \<subseteq># image_mset (Pair (gfporder s)) (held s)"
    by (rule image_mset_subseteq_mono [OF held_two [OF assms(2-4)]])
  moreover have "separate ?live" using assms(1) by (simp add: loaded_def mem_ok_def log_ok_def)
  ultimately have "separate (image_mset (Pair (gfporder s)) (card_blocks s i + card_blocks s j))" using separate_mono by metis
  moreover have "(gfporder s, p) \<in># image_mset (Pair (gfporder s)) (card_blocks s i + card_blocks s j)" using assms(5) by simp
  moreover have "(gfporder s, q) \<in># image_mset (Pair (gfporder s)) (card_blocks s i + card_blocks s j) - {#(gfporder s, p)#}"
  proof -
    have e: "card_blocks s i + card_blocks s j = add_mset p (card_blocks s i - {#p#} + card_blocks s j)"
      using assms(5) by simp
    have "image_mset (Pair (gfporder s)) (card_blocks s i + card_blocks s j) - {#(gfporder s, p)#} =
        image_mset (Pair (gfporder s)) (card_blocks s i - {#p#} + card_blocks s j)" unfolding e by simp
    then show ?thesis using assms(6) by simp
  qed
  ultimately show ?thesis by (simp add: separate_def)
qed

lemma loaded_ordered:
  assumes "loaded s" and "i < NNACS" and "j < NNACS" and "i \<noteq> j" and "vaddr s ! i \<noteq> 0" and "vaddr s ! j \<noteq> 0"
    and le: "uint (vaddr s ! i) \<le> uint (vaddr s ! j)"
  shows "uint (vaddr s ! i) + uint (msize s ! i) \<le> uint (vaddr s ! j)"
proof (rule ccontr)
  assume over: "\<not> ?thesis"
  let ?ps = "piece_size (gfporder s)" and ?v = "vaddr s ! i" and ?w = "vaddr s ! j"
  define k where "k = unat (msize s ! i div ?ps)"
  define q where "q = nat ((uint ?w - uint ?v) div uint ?ps)"
  note ord = loaded_shape(1) [OF assms(1)]
  have pos: "0 < uint ?ps" using uint_piece_size [OF ord] by simp
  have cs: "uint (msize s ! i) = int k * uint ?ps" "uint (msize s ! j) = int (unat (msize s ! j div ?ps)) * uint ?ps"
    using buffer_pieces [OF loaded_size ord] assms(1-3,5,6) by (simp_all add: k_def)
  have "uint ?w - uint ?v < int k * uint ?ps" using over cs(1) by simp
  moreover have "(uint ?w - uint ?v) div uint ?ps * uint ?ps \<le> uint ?w - uint ?v"
    using div_mult_mod_eq [of "uint ?w - uint ?v" "uint ?ps"] pos_mod_sign [OF pos, of "uint ?w - uint ?v"] by linarith
  ultimately have "(uint ?w - uint ?v) div uint ?ps * uint ?ps < int k * uint ?ps" by linarith
  then have "(uint ?w - uint ?v) div uint ?ps < int k" using pos by (simp add: mult_less_cancel_right)
  moreover have "0 \<le> (uint ?w - uint ?v) div uint ?ps" using le pos by (simp add: pos_imp_zdiv_nonneg_iff)
  ultimately have q: "q < k" "int q = (uint ?w - uint ?v) div uint ?ps" by (simp_all add: q_def)
  have at: "uint (?v + of_nat q * scast ?ps) = uint ?v + int q * uint ?ps"
    using loaded_pieces [OF assms(1,2,5)] q(1) by (intro pieces_up [OF ord, of _ "msize s ! i"]) (simp_all add: k_def)
  have "0 < unat (msize s ! j div ?ps)"
    using cs(2) loaded_size [OF assms(1,3,6)] by (cases "unat (msize s ! j div ?ps)") (auto simp: buffer_sizes_def)
  then have "?w \<in># card_blocks s j" using assms(6) by (auto simp: card_blocks_def pieces_def intro!: image_eqI [of _ _ 0])
  moreover have "?v + of_nat q * scast ?ps \<in># card_blocks s i" using assms(5) q(1) by (auto simp: card_blocks_def pieces_def k_def)
  ultimately have "apart (gfporder s, ?v + of_nat q * scast ?ps) (gfporder s, ?w)" using loaded_apart assms(1-4) by blast
  moreover have "int q * uint ?ps \<le> uint ?w - uint ?v" "uint ?w - uint ?v < int q * uint ?ps + uint ?ps"
    unfolding q(2) using pos div_mult_mod_eq [of "uint ?w - uint ?v" "uint ?ps"]
      pos_mod_bound [OF pos, of "uint ?w - uint ?v"] pos_mod_sign [OF pos, of "uint ?w - uint ?v"] by linarith+
  ultimately show False using pos by (simp add: apart_def at)
qed

text \<open>Unloading gives every block of every buffer back.\<close>

lemma held_cards:
  assumes "loaded s"
  shows "held s = (\<Sum>i<nat (nnacs s). card_blocks s i)"
proof -
  have "(\<Sum>i\<in>{..<NNACS} - {..<nat (nnacs s)}. card_blocks s i) = {#}"
    using assms by (intro sum.neutral) (auto simp: loaded_def card_blocks_def)
  moreover have sub: "{..<nat (nnacs s)} \<subseteq> {..<NNACS}" using loaded_shape(2) [OF assms] by auto
  ultimately show ?thesis unfolding held_def by (subst sum.subset_diff [OF sub]) simp_all
qed

lemma blocks_got_freed [simp]: "blocks_got (map (FreedPages ord) ps) = {#}"
  by (induction ps) simp_all

lemma blocks_freed_freed [simp]: "blocks_freed (map (FreedPages ord) ps) = image_mset (Pair ord) (mset ps)"
  by (induction ps) simp_all

lemma exit_run:
  assumes "loaded s"
  shows "\<exists>t. nac_mem_exit s = Some (Ok (), t) \<and> blocks_got (plog t) = blocks_freed (plog t) \<and>
     blocks_got (plog t) = blocks_got (plog s) \<and> reserved t = (\<lambda>_. False)"
proof -
  let ?body = "\<lambda>nac. bnd (read_st (\<lambda>s. (vaddr s ! nac, msize s ! nac))) (\<lambda>(v, sz).
     if v = 0 then ret () else bnd (set_reserved False v sz) (\<lambda>_. nac_mem_freecontig sz v))"
  let ?I = "\<lambda>k t. t = s\<lparr>reserved := reserved t, plog := plog t\<rparr> \<and> blocks_got (plog t) = blocks_got (plog s) \<and>
     blocks_freed (plog t) = blocks_freed (plog s) + image_mset (Pair (gfporder s)) (\<Sum>i<k. card_blocks s i) \<and>
     (\<forall>p. reserved t p \<longrightarrow> reserved s p \<and> \<not> buffer_pages k s p)"
  have ord: "unat (gfporder s) \<le> 14" by (rule loaded_shape(1) [OF assms])
  have step: "\<exists>u. ?body ([0..<nat (nnacs s)] ! k) t = Some (Ok (), u) \<and> ?I (Suc k) u"
    if k0: "k < length [0..<nat (nnacs s)]" and I: "?I k t" for k t
  proof -
    have k: "k < NNACS" "k < nat (nnacs s)" using k0 loaded_shape(2) [OF assms] by simp_all
    have same: "vaddr t = vaddr s" "msize t = msize s" "gfporder t = gfporder s" by (subst conjunct1 [OF I], simp)+
    show ?thesis
    proof (cases "vaddr s ! k = 0")
      case True
      then have "buffer_pages (Suc k) s = buffer_pages k s"
        by (intro ext) (auto simp: buffer_pages_def less_Suc_eq)
      then show ?thesis using True I k by (intro exI [of _ t]) (simp add: same card_blocks_def)
    next
      case False
      let ?v = "vaddr s ! k" and ?z = "msize s ! k"
      let ?r = "\<lambda>q. if q \<in> page_range ?v ?z then False else reserved t q"
      let ?u = "t\<lparr>reserved := ?r\<rparr>"
      let ?w = "?u\<lparr>plog := plog t @ map (FreedPages (gfporder s)) (pieces (piece_size (gfporder s)) ?z ?v)\<rparr>"
      have "nac_mem_freecontig ?z ?v ?u = Some (Ok (), ?w)"
        using freecontig_run [of ?z ?u ?v] loaded_size [OF assms k(1) False] loaded_pieces [OF assms k(1) False] ord
        by (simp add: same)
      then have "?body ([0..<nat (nnacs s)] ! k) t = Some (Ok (), ?w)"
        using k False by (simp add: same set_reserved_run)
      moreover have "?w = s\<lparr>reserved := reserved ?w, plog := plog ?w\<rparr>" by (subst conjunct1 [OF I]) simp
      moreover have "\<forall>p. reserved ?w p \<longrightarrow> reserved s p \<and> \<not> buffer_pages (Suc k) s p"
        using I by (auto simp: buffer_pages_def less_Suc_eq)
      ultimately show ?thesis using I False by (intro exI [of _ ?w]) (simp add: card_blocks_def)
    qed
  qed
  have "?I 0 s" by (simp add: buffer_pages_def)
  then have "\<exists>t. for_each [0..<nat (nnacs s)] ?body s = Some (Ok (), t) \<and> ?I (length [0..<nat (nnacs s)]) t"
    by (rule for_each_runs) (rule step)
  then obtain t where t: "for_each [0..<nat (nnacs s)] ?body s = Some (Ok (), t)" "?I (nat (nnacs s)) t" by auto
  have "blocks_got (plog s) = blocks_freed (plog s) + image_mset (Pair (gfporder s)) (held s)"
    using assms by (simp add: loaded_def mem_ok_def accounted_def)
  then have "blocks_got (plog t) = blocks_freed (plog t)" "blocks_got (plog t) = blocks_got (plog s)"
    using t(2) held_cards [OF assms] by simp_all
  moreover have "buffer_pages (nat (nnacs s)) s = reserved s"
    using assms buffer_pages_all [of "nat (nnacs s)" s] loaded_shape(2) [OF assms] by (simp add: loaded_def)
  then have "reserved t = (\<lambda>_. False)" using t(2) by auto
  moreover have "nac_mem_exit s = Some (Ok (), t)" using t(1) by (simp add: nac_mem_exit_def nac_mem_cleanup_def)
  ultimately show ?thesis by blast
qed

section \<open>A pool of buffers\<close>

text \<open>
  What the card drivers rely on: a claim answers a buffer that nobody holds, or 0 if all are
  held; a release gives one back. \<open>avail\<close> are the buffers, \<open>claimed\<close> the ones that are held.
\<close>

datatype pool_op = Claim u64 | Release nat

text \<open>A sequence of calls by drivers that release only what they hold.\<close>

fun pool_run :: "(u64 \<Rightarrow> ('s, u64 \<times> u64) prog) \<Rightarrow> (u64 \<Rightarrow> ('s, unit) prog) \<Rightarrow> pool_op list \<Rightarrow> u64 list \<Rightarrow> ('s, u64 list) prog" where
  "pool_run claim release [] hs = ret hs"
| "pool_run claim release (Claim w # ops) hs = bnd (claim w) (\<lambda>(v, sz).
     pool_run claim release ops (if v = 0 then hs else v # hs))"
| "pool_run claim release (Release k # ops) hs =
     (if k < length hs then bnd (release (hs ! k)) (\<lambda>_. pool_run claim release ops (remove1 (hs ! k) hs))
      else pool_run claim release ops hs)"

locale buffer_pool =
  fixes good :: "'s \<Rightarrow> bool" and avail :: "'s \<Rightarrow> u64 set" and claimed :: "'s \<Rightarrow> u64 set"
    and claim :: "u64 \<Rightarrow> ('s, u64 \<times> u64) prog" and release :: "u64 \<Rightarrow> ('s, unit) prog"
  assumes claim_law: "good s \<Longrightarrow> \<exists>v z t. claim w s = Some (Ok (v, z), t) \<and> good t \<and> avail t = avail s \<and>
      (if v = 0 then claimed s = avail s \<and> claimed t = claimed s
       else v \<in> avail s - claimed s \<and> claimed t = insert v (claimed s))"
    and release_law: "good s \<Longrightarrow> v \<in> claimed s \<Longrightarrow>
      \<exists>t. release v s = Some (Ok (), t) \<and> good t \<and> avail t = avail s \<and> claimed t = claimed s - {v}"
begin

text \<open>The holders never share a buffer, and every claim that fails finds all buffers held.\<close>

lemma holders_distinct:
  assumes "good s" and "distinct hs" and "set hs = claimed s" and "claimed s \<subseteq> avail s"
  shows "\<exists>rs t. pool_run claim release ops hs s = Some (Ok rs, t) \<and> good t \<and> distinct rs \<and>
     set rs = claimed t \<and> avail t = avail s \<and> claimed t \<subseteq> avail t"
  using assms
proof (induction ops arbitrary: hs s)
  case (Cons c ops)
  show ?case
  proof (cases c)
    case (Claim w)
    obtain v z t where t: "claim w s = Some (Ok (v, z), t)" "good t" "avail t = avail s"
      "if v = 0 then claimed s = avail s \<and> claimed t = claimed s else v \<in> avail s - claimed s \<and> claimed t = insert v (claimed s)"
      using claim_law [OF Cons.prems(1)] by blast
    define gs where "gs = (if v = 0 then hs else v # hs)"
    have "distinct gs" "set gs = claimed t" "claimed t \<subseteq> avail t"
      using t(3,4) Cons.prems(2-4) by (cases "v = 0"; simp add: gs_def; blast)+
    from Cons.IH [OF t(2) this] show ?thesis using t(1,3) by (simp add: Claim gs_def [symmetric])
  next
    case (Release k)
    show ?thesis
    proof (cases "k < length hs")
      case True
      then have "hs ! k \<in> claimed s" using Cons.prems(3) nth_mem by blast
      then obtain t where t: "release (hs ! k) s = Some (Ok (), t)" "good t" "avail t = avail s" "claimed t = claimed s - {hs ! k}"
        using release_law [OF Cons.prems(1)] by blast
      have "distinct (remove1 (hs ! k) hs)" "set (remove1 (hs ! k) hs) = claimed t" "claimed t \<subseteq> avail t"
        using t(3,4) Cons.prems(2-4) by (simp_all, blast)
      from Cons.IH [OF t(2) this] show ?thesis using t(1,3) True by (simp add: Release)
    next
      case False
      then show ?thesis using Cons.IH [OF Cons.prems] by (simp add: Release)
    qed
  qed
qed simp

end

text \<open>The module provides such a pool: a slot is taken when its flag is set.\<close>

definition pool_good :: "mem_st \<Rightarrow> bool" where
  "pool_good s \<longleftrightarrow> nat (nnacs s) \<le> NNACS \<and> length (inuse s) = NNACS \<and> length (vaddr s) = NNACS \<and> filled s \<and>
     (\<forall>i < NNACS. \<forall>j < NNACS. vaddr s ! i = vaddr s ! j \<longrightarrow> vaddr s ! i \<noteq> 0 \<longrightarrow> i = j) \<and>
     (\<forall>i < nat (nnacs s). inuse s ! i = 0 \<or> inuse s ! i = 1 \<and> vaddr s ! i \<noteq> 0)"

definition pool_avail :: "mem_st \<Rightarrow> u64 set" where
  "pool_avail s = {v. v \<noteq> 0 \<and> (\<exists>i < nat (nnacs s). vaddr s ! i = v)}"

definition pool_claimed :: "mem_st \<Rightarrow> u64 set" where
  "pool_claimed s = {v. \<exists>i < nat (nnacs s). vaddr s ! i = v \<and> inuse s ! i \<noteq> 0}"

lemma first_slot_spec:
  "first_slot P n \<le> n \<and> (\<forall>i < first_slot P n. \<not> P i) \<and> (first_slot P n < n \<longrightarrow> P (first_slot P n))"
proof (induction n)
  case (Suc n)
  show ?case
  proof (cases "\<exists>i < n. P i")
    case True
    then have "first_slot P (Suc n) = first_slot P n" by (auto simp: first_slot_def takeWhile_append)
    moreover have "first_slot P n < n" using Suc True by (metis le_neq_implies_less)
    ultimately show ?thesis using Suc by simp
  next
    case False
    then have "first_slot P (Suc n) = (if P n then n else Suc n)" by (auto simp: first_slot_def takeWhile_append)
    then show ?thesis using False by (auto simp: less_Suc_eq)
  qed
qed (simp add: first_slot_def)

lemma nac_malloc_run:
  "i = first_slot (\<lambda>i. inuse s ! i = 0) (nat (nnacs s)) \<Longrightarrow>
   nac_mem_malloc w s = (let t = s\<lparr>plog := plog s @ [SpinLock, SpinUnlock]\<rparr> in
     if i = nat (nnacs s) then Some (Ok (0, w), t)
     else if vaddr s ! i = 0 then Some (Ok (0, if w = 0 then ucast (msize s ! i) else min w (ucast (msize s ! i))), t)
     else Some (Ok (vaddr s ! i, if w = 0 then ucast (msize s ! i) else min w (ucast (msize s ! i))),
       t\<lparr>inuse := (inuse s)[i := inuse s ! i + 1]\<rparr>))"
  by (auto simp: nac_mem_malloc_def log_page_def min_def)

lemma free_run:
  "i = first_slot (\<lambda>i. vaddr s ! i = v) (nat (nnacs s)) \<Longrightarrow>
   nac_mem_free v s = (let t = s\<lparr>plog := plog s @ [SpinLock, SpinUnlock]\<rparr> in
     Some (Ok (), if i = nat (nnacs s) then t else t\<lparr>inuse := (inuse s)[i := inuse s ! i - 1]\<rparr>))"
  by (auto simp: nac_mem_free_def log_page_def)

lemma malloc_law:
  assumes "pool_good s"
  shows "\<exists>v z t. nac_mem_malloc w s = Some (Ok (v, z), t) \<and> pool_good t \<and> pool_avail t = pool_avail s \<and>
     (if v = 0 then pool_claimed s = pool_avail s \<and> pool_claimed t = pool_claimed s
      else v \<in> pool_avail s - pool_claimed s \<and> pool_claimed t = insert v (pool_claimed s))"
proof -
  define n where "n = nat (nnacs s)"
  define i where "i = first_slot (\<lambda>i. inuse s ! i = 0) n"
  let ?t = "s\<lparr>plog := plog s @ [SpinLock, SpinUnlock]\<rparr>"
  let ?z = "if w = 0 then ucast (msize s ! i) else min w (ucast (msize s ! i))"
  have g: "n \<le> NNACS" "length (inuse s) = NNACS" "filled s"
    "\<forall>i < NNACS. \<forall>j < NNACS. vaddr s ! i = vaddr s ! j \<longrightarrow> vaddr s ! i \<noteq> 0 \<longrightarrow> i = j"
    "\<forall>i < n. inuse s ! i = 0 \<or> inuse s ! i = 1 \<and> vaddr s ! i \<noteq> 0"
    using assms unfolding pool_good_def n_def by blast+
  have run: "nac_mem_malloc w s = (if i = n then Some (Ok (0, w), ?t) else if vaddr s ! i = 0 then Some (Ok (0, ?z), ?t)
      else Some (Ok (vaddr s ! i, ?z), ?t\<lparr>inuse := (inuse s)[i := inuse s ! i + 1]\<rparr>))"
    using nac_malloc_run [of i s w] by (simp add: i_def n_def Let_def)
  have sp: "i \<le> n" "\<forall>j < i. inuse s ! j \<noteq> 0" "i < n \<longrightarrow> inuse s ! i = 0"
    using first_slot_spec [of "\<lambda>i. inuse s ! i = 0" n] by (simp_all add: i_def)
  have same: "pool_good ?t" "pool_avail ?t = pool_avail s" "pool_claimed ?t = pool_claimed s"
    using assms by (simp_all add: pool_good_def pool_avail_def pool_claimed_def filled_def)
  show ?thesis
  proof (cases "i = n \<or> vaddr s ! i = 0")
    case True
    have taken: "inuse s ! k \<noteq> 0" if "k < n" "vaddr s ! k \<noteq> 0" for k
    proof (rule ccontr)
      assume "\<not> inuse s ! k \<noteq> 0"
      then have "i < k" using sp that True by (metis linorder_less_linear order_neq_le_trans)
      then show False using that True g(1,3) by (auto simp: filled_def)
    qed
    have "pool_claimed s = pool_avail s"
      unfolding pool_claimed_def pool_avail_def n_def [symmetric] using taken g(5) by fastforce
    then show ?thesis using True run same by (cases "i = n") (intro exI [of _ 0] exI [of _ "_ :: u64"] exI [of _ ?t], simp)+
  next
    case False
    let ?u = "?t\<lparr>inuse := (inuse s)[i := inuse s ! i + 1]\<rparr>" and ?v = "vaddr s ! i"
    have i: "i < n" "?v \<noteq> 0" using False sp(1) by auto
    have z: "inuse s ! i = 0" using sp(3) i(1) by simp
    have only: "k = i" if "k < n" "vaddr s ! k = ?v" for k using that g(1,4) i by simp
    have iu: "i < length (inuse s)" using i g(1,2) by simp
    have "pool_good ?u"
      using assms i z g(1,2) by (auto simp: pool_good_def filled_def nth_list_update n_def)
    moreover have "pool_claimed ?u = insert ?v (pool_claimed s)"
    proof -
      have "x \<in> pool_claimed ?u \<longleftrightarrow> x = ?v \<or> x \<in> pool_claimed s" for x
        unfolding pool_claimed_def using i(1) z only iu by (auto simp: nth_list_update n_def)
      then show ?thesis by blast
    qed
    moreover have "?v \<in> pool_avail s - pool_claimed s"
      using i z only by (auto simp: pool_avail_def pool_claimed_def n_def)
    moreover have "pool_avail ?u = pool_avail s" by (simp add: pool_avail_def)
    ultimately show ?thesis using run False i(2) by (intro exI [of _ ?v] exI [of _ ?z] exI [of _ ?u]) simp
  qed
qed

lemma free_law:
  assumes "pool_good s" and "v \<in> pool_claimed s"
  shows "\<exists>t. nac_mem_free v s = Some (Ok (), t) \<and> pool_good t \<and> pool_avail t = pool_avail s \<and> pool_claimed t = pool_claimed s - {v}"
proof -
  define n where "n = nat (nnacs s)"
  define i where "i = first_slot (\<lambda>i. vaddr s ! i = v) n"
  let ?u = "s\<lparr>plog := plog s @ [SpinLock, SpinUnlock], inuse := (inuse s)[i := inuse s ! i - 1]\<rparr>"
  have g: "n \<le> NNACS" "length (inuse s) = NNACS"
    "\<forall>i < NNACS. \<forall>j < NNACS. vaddr s ! i = vaddr s ! j \<longrightarrow> vaddr s ! i \<noteq> 0 \<longrightarrow> i = j"
    "\<forall>i < n. inuse s ! i = 0 \<or> inuse s ! i = 1 \<and> vaddr s ! i \<noteq> 0"
    using assms(1) unfolding pool_good_def n_def by blast+
  obtain k where k: "k < n" "vaddr s ! k = v" "inuse s ! k \<noteq> 0" using assms(2) by (auto simp: pool_claimed_def n_def)
  have "i < n" "vaddr s ! i = v"
    using first_slot_spec [of "\<lambda>i. vaddr s ! i = v" n] k(1,2) unfolding i_def [symmetric] by (metis le_neq_implies_less)+
  moreover from this have "i = k" using k g(1,3,4) by (metis order.strict_trans2)
  ultimately have i: "i < n" "vaddr s ! i = v" "inuse s ! i = 1" "v \<noteq> 0" using k g(4) by auto
  have iu: "i < length (inuse s)" using i g(1,2) by simp
  have only: "k = i" if "k < n" "vaddr s ! k = v" for k using that g(1,3) i by simp
  have "nac_mem_free v s = Some (Ok (), ?u)"
    using free_run [OF i_def [unfolded n_def]] i(1) by (simp add: n_def Let_def)
  moreover have "pool_good ?u"
    using assms(1) i g(1,2) by (auto simp: pool_good_def filled_def nth_list_update n_def)
  moreover have "pool_claimed ?u = pool_claimed s - {v}"
  proof -
    have "inuse ?u ! k \<noteq> 0 \<longleftrightarrow> k \<noteq> i \<and> inuse s ! k \<noteq> 0" for k using i(3) iu by (simp add: nth_list_update)
    then have "x \<in> pool_claimed ?u \<longleftrightarrow> (\<exists>k < n. vaddr s ! k = x \<and> k \<noteq> i \<and> inuse s ! k \<noteq> 0)" for x
      by (simp add: pool_claimed_def n_def)
    then have "x \<in> pool_claimed ?u \<longleftrightarrow> x \<in> pool_claimed s \<and> x \<noteq> v" for x
      unfolding pool_claimed_def using i(2) only by (auto simp: n_def [symmetric])
    then show ?thesis by blast
  qed
  moreover have "pool_avail ?u = pool_avail s" by (simp add: pool_avail_def)
  ultimately show ?thesis by blast
qed

interpretation card_buffers: buffer_pool pool_good pool_avail pool_claimed nac_mem_malloc nac_mem_free
  by unfold_locales (rule malloc_law free_law; assumption)+

lemma loaded_pool_good:
  assumes "loaded s" and "inuse s = replicate NNACS 0"
  shows "pool_good s" and "pool_claimed s = {}"
proof -
  have "i = j" if "i < NNACS" "j < NNACS" "vaddr s ! i = vaddr s ! j" "vaddr s ! i \<noteq> 0" for i j
  proof (rule ccontr)
    assume "i \<noteq> j"
    then have "uint (vaddr s ! i) + uint (msize s ! i) \<le> uint (vaddr s ! j)"
      using loaded_ordered [OF assms(1) that(1,2)] that(3,4) by simp
    then show False using that(3) loaded_size [OF assms(1) that(1,4)] by (auto simp: buffer_sizes_def)
  qed
  then show "pool_good s"
    using assms loaded_shape(2) [OF assms(1)] by (auto simp: pool_good_def loaded_def mem_ok_def shape_def)
  show "pool_claimed s = {}"
    using assms(2) loaded_shape(2) [OF assms(1)] by (auto simp: pool_claimed_def)
qed

section \<open>The properties of the module\<close>

text \<open>
  A kernel that hands out blocks of up to 4 MB from 16 MB upwards, one after the other, as long
  as they overlap none that is in use.
\<close>

definition demo_block :: "page_event list \<Rightarrow> u64" where
  "demo_block h = 0xffff880001000000 + of_nat (size (blocks_got h)) * 0x400000"

definition demo_pages :: page_env where
  "demo_pages = \<lparr>free_pages_at = (\<lambda>h ord. if unat ord \<le> 10 \<and> size (blocks_got h) < 512 \<and>
       (\<forall>b \<in># blocks_got h - blocks_freed h. apart (ord, demo_block h) b) then demo_block h else 0),
     virt_to_phys = (\<lambda>v. v - 0xffff880000000000), simple_strtoul = (\<lambda>str. (0, str)),
     pci_bus = [(0x8086, 0x1234), (0xeaea, 0x5052), (0xeaea, 0x2003)]\<rparr>"

lemma demo_block_uint:
  assumes "size (blocks_got h) < 512"
  shows "uint (demo_block h) = 0xffff880001000000 + int (size (blocks_got h)) * 0x400000"
    and "uint (demo_block h - 0xffff880000000000) = 0x1000000 + int (size (blocks_got h)) * 0x400000"
proof -
  let ?n = "int (size (blocks_got h))"
  have "demo_block h = word_of_int (0xffff880001000000 + ?n * 0x400000)" by (simp add: demo_block_def)
  then have "uint (demo_block h) = (0xffff880001000000 + ?n * 0x400000) mod 2 ^ LENGTH(64)" by (simp only: uint_word_of_int)
  also have "\<dots> = 0xffff880001000000 + ?n * 0x400000" using assms by (intro mod_pos_pos_trivial) simp_all
  finally show u: "uint (demo_block h) = 0xffff880001000000 + ?n * 0x400000" .
  then show "uint (demo_block h - 0xffff880000000000) = 0x1000000 + ?n * 0x400000"
    by (subst uint_minus_simple_alt [THEN iffD1]) (simp_all add: word_le_def)
qed

lemma demo_pages_ok: "page_kernel demo_pages" "has_page demo_pages"
proof -
  show "page_kernel demo_pages"
    unfolding page_kernel_def Let_def
  proof (intro allI)
    fix h ord
    let ?p = "free_pages_at demo_pages h ord"
    show "?p = 0 \<or> uint ?p + uint (piece_size ord) < 2 ^ 64 \<and> virt_to_phys demo_pages ?p < 0xffffffff \<and>
       (\<forall>b \<in># blocks_got h - blocks_freed h. apart (ord, ?p) b)"
    proof (cases "?p = 0")
      case False
      then have c: "unat ord \<le> 10" "size (blocks_got h) < 512" "?p = demo_block h"
        "\<forall>b \<in># blocks_got h - blocks_freed h. apart (ord, demo_block h) b"
        by (auto simp: demo_pages_def split: if_splits)
      have "(2 :: int) ^ (12 + unat ord) \<le> 2 ^ 22" using c(1) by (intro power_increasing) auto
      then have "uint (piece_size ord) \<le> 2 ^ 22" using uint_piece_size [of ord] c(1) by simp
      then have "uint ?p + uint (piece_size ord) < 2 ^ 64" using c(2) demo_block_uint(1) [OF c(2)] by (simp add: c(3))
      moreover have "virt_to_phys demo_pages ?p < 0xffffffff"
        using c(2) demo_block_uint(2) [OF c(2)] unfolding c(3) by (simp add: demo_pages_def word_less_def)
      ultimately show ?thesis using c(3,4) by simp
    qed simp
  qed
  show "has_page demo_pages" by (simp add: has_page_def demo_pages_def demo_block_def)
qed

text \<open>
  C8. Loading the module. With a kernel that keeps its promises and has a page to give, and a
  largest order of at most 14, \<open>nac_mem_init\<close> returns 0; every block it took from the kernel has
  been given back or is a piece of the buffer of exactly one card; the buffers have 256, 128 or
  64 MB, are aligned, do not overlap, and exactly their pages are marked reserved.
\<close>

theorem mem_init_buffers:
  assumes "page_kernel K" and "has_page K" and "0 \<le> n" and "unat order \<le> 14"
  shows "\<exists>t. nac_mem_init K (mem_start n da order) = Some (Ok 0, t) \<and>
     blocks_got (plog t) = blocks_freed (plog t) + image_mset (Pair (gfporder t)) (held t) \<and>
     (\<forall>i < NNACS. vaddr t ! i \<noteq> 0 \<longrightarrow> msize t ! i \<in> buffer_sizes \<and>
        vaddr t ! i AND scast ((if da = [] then MBYTE else parse_align K da) - 1) = 0) \<and>
     (\<forall>i < NNACS. \<forall>j < NNACS. i \<noteq> j \<longrightarrow> vaddr t ! i \<noteq> 0 \<longrightarrow> vaddr t ! j \<noteq> 0 \<longrightarrow>
        uint (vaddr t ! i) + uint (msize t ! i) \<le> uint (vaddr t ! j) \<or>
        uint (vaddr t ! j) + uint (msize t ! j) \<le> uint (vaddr t ! i)) \<and>
     (\<forall>p. reserved t p \<longleftrightarrow> (\<exists>i < NNACS. vaddr t ! i \<noteq> 0 \<and> p \<in> page_range (vaddr t ! i) (msize t ! i)))"
proof -
  obtain t where t: "nac_mem_init K (mem_start n da order) = Some (Ok 0, t)" "loaded t"
    "malign t = (if da = [] then MBYTE else parse_align K da)"
    using init_run [OF assms, of da] by blast
  have "blocks_got (plog t) = blocks_freed (plog t) + image_mset (Pair (gfporder t)) (held t)"
    using t(2) by (simp add: loaded_def mem_ok_def accounted_def)
  moreover have "\<forall>i < NNACS. vaddr t ! i \<noteq> 0 \<longrightarrow> msize t ! i \<in> buffer_sizes \<and> vaddr t ! i AND scast (malign t - 1) = 0"
    using loaded_shape(3) [OF t(2)] loaded_size [OF t(2)] by (simp add: buffer_ok_def)
  moreover have "uint (vaddr t ! i) + uint (msize t ! i) \<le> uint (vaddr t ! j) \<or> uint (vaddr t ! j) + uint (msize t ! j) \<le> uint (vaddr t ! i)"
    if "i < NNACS" "j < NNACS" "i \<noteq> j" "vaddr t ! i \<noteq> 0" "vaddr t ! j \<noteq> 0" for i j
    using loaded_ordered [OF t(2) that(1-5)] loaded_ordered [OF t(2) that(2,1) that(3) [symmetric] that(5,4)]
    by (cases "uint (vaddr t ! i) \<le> uint (vaddr t ! j)") simp_all
  moreover have "reserved t = buffer_pages NNACS t" using t(2) by (simp add: loaded_def)
  ultimately show ?thesis using t(1,3) by (intro exI [of _ t]) (simp add: buffer_pages_def)
qed

theorem mem_init_buffers_witness:
  "\<exists>t. nac_mem_init demo_pages (mem_start 0 '''' 12) = Some (Ok 0, t) \<and>
     blocks_got (plog t) = blocks_freed (plog t) + image_mset (Pair (gfporder t)) (held t)"
  using mem_init_buffers [OF demo_pages_ok, of 0 12 "''''"] by auto

text \<open>
  C10. Loading and unloading is a round trip: every block that the kernel gave has been given
  back, each once, and no page is left marked reserved.
\<close>

theorem mem_returns_all:
  assumes "page_kernel K" and "has_page K" and "0 \<le> n" and "unat order \<le> 14"
  shows "\<exists>t u. nac_mem_init K (mem_start n da order) = Some (Ok 0, t) \<and> nac_mem_exit t = Some (Ok (), u) \<and>
     blocks_freed (plog u) = blocks_got (plog u) \<and> blocks_got (plog u) = blocks_got (plog t) \<and> reserved u = (\<lambda>_. False)"
proof -
  obtain t where t: "nac_mem_init K (mem_start n da order) = Some (Ok 0, t)" "loaded t"
    using init_run [OF assms, of da] by blast
  with exit_run [OF t(2)] show ?thesis by metis
qed

theorem mem_returns_all_witness:
  "\<exists>t u. nac_mem_init demo_pages (mem_start 0 '''' 12) = Some (Ok 0, t) \<and> nac_mem_exit t = Some (Ok (), u) \<and>
     blocks_freed (plog u) = blocks_got (plog u)"
  using mem_returns_all [OF demo_pages_ok, of 0 12 "''''"] by auto

text \<open>
  C9. After loading, whatever sequence of \<open>nac_mem_malloc\<close> and \<open>nac_mem_free\<close> the drivers call,
  as long as they free only what they hold: every call returns, and the buffers held at the end
  are pairwise different buffers of the module, the ones whose flag is set.
\<close>

theorem drivers_never_share:
  assumes "page_kernel K" and "has_page K" and "0 \<le> n" and "unat order \<le> 14"
  shows "\<exists>t rs u. nac_mem_init K (mem_start n da order) = Some (Ok 0, t) \<and>
     pool_run nac_mem_malloc nac_mem_free ops [] t = Some (Ok rs, u) \<and> distinct rs \<and>
     set rs = {vaddr u ! i |i. i < nat (nnacs u) \<and> inuse u ! i \<noteq> 0} \<and>
     set rs \<subseteq> {v. v \<noteq> 0 \<and> (\<exists>i < nat (nnacs t). vaddr t ! i = v)}"
proof -
  obtain t where t: "nac_mem_init K (mem_start n da order) = Some (Ok 0, t)" "loaded t" "inuse t = replicate NNACS 0"
    using init_run [OF assms, of da] by blast
  note g = loaded_pool_good [OF t(2,3)]
  obtain rs u where "pool_run nac_mem_malloc nac_mem_free ops [] t = Some (Ok rs, u)" "distinct rs" "set rs = pool_claimed u"
    "pool_avail u = pool_avail t" "pool_claimed u \<subseteq> pool_avail u"
    using card_buffers.holders_distinct [OF g(1), of "[]" ops] g(2) by auto
  with t(1) show ?thesis
    by (intro exI [of _ t] exI [of _ rs] exI [of _ u]) (auto simp: pool_claimed_def pool_avail_def)
qed

theorem drivers_never_share_witness:
  "\<exists>t rs u. nac_mem_init demo_pages (mem_start 2 '''' 10) = Some (Ok 0, t) \<and>
     pool_run nac_mem_malloc nac_mem_free [Claim 0, Claim 0, Release 0, Claim 4096] [] t = Some (Ok rs, u) \<and> distinct rs"
  using drivers_never_share [OF demo_pages_ok, of 2 10 "''''" "[Claim 0, Claim 0, Release 0, Claim 4096]"]
  by (auto simp del: pool_run.simps)

text \<open>
  \<open>nac_mem_sort_ptable\<close> ends, and leaves the same entries in descending order; nothing else
  of the state changes.
\<close>

theorem ptable_sorted:
  assumes "length (ptable s) = PTABSIZE"
  shows "\<exists>t. nac_mem_sort_ptable s = Some (Ok (), s\<lparr>ptable := t\<rparr>) \<and> sorted_wrt (\<ge>) t \<and> mset t = mset (ptable s)"
  using sort_run [OF assms] by blast

theorem ptable_sorted_witness:
  "\<exists>t. nac_mem_sort_ptable (mem_start 1 '''' 9\<lparr>ptable := map of_nat [0..<1024]\<rparr>) = Some (Ok (), mem_start 1 '''' 9\<lparr>ptable := t\<rparr>) \<and>
     sorted_wrt (\<ge>) t"
  using ptable_sorted [of "mem_start 1 '''' 9\<lparr>ptable := map of_nat [0..<1024]\<rparr>"] by (auto simp: PTABSIZE_def)

text \<open>
  On a kernel without a single free page the module asks for ever: the error branch of
  \<open>nac_mem_alloc_ptable\<close> prints a message and goes on with a negative order.
\<close>

theorem mem_init_hangs:
  assumes "\<And>h ord. free_pages_at K h ord = 0" and "n \<noteq> 0"
  shows "nac_mem_init K (mem_start n da order) = None"
proof -
  have alloc: "nac_mem_alloc_ptable K s = None" for s
    by (simp add: nac_mem_alloc_ptable_def find_order_hangs [OF assms(1)])
  have sizes: "for_each ks (\<lambda>nac. modify (\<lambda>s. s\<lparr>msize := (msize s)[nac := NAC_MEM_SIZE]\<rparr>)) s = Some (Ok (), t) \<Longrightarrow>
      bnd (nac_mem_alloc_ptable K) f t = None" for ks s t and f :: "unit \<Rightarrow> 'a mem"
    by (simp add: alloc)
  show ?thesis
    by (simp add: nac_mem_init_def mem_start_def set_sizes_run alloc assms(2))
qed

theorem mem_init_hangs_witness: "nac_mem_init (demo_pages\<lparr>free_pages_at := \<lambda>_ _. 0\<rparr>) (mem_start 1 '''' 12) = None"
  by (rule mem_init_hangs) simp_all

end
