(* ===== verification/Duck.thy ===== *)
theory Duck
  imports Prelude "HOL-Library.Signed_Division"
begin

text \<open>
  The clock of the card (drv/nacts.c, drv/nacts.h). A unit counts time in the card; it ticks at
  the rate of a DDS that the driver corrects at every pulse, one a second, so that the card's
  second follows the host's clock or a reference on the RS422 input. The driver also watches
  the health of the input with a timer.
\<close>

section \<open>State\<close>

text \<open>\<open>duck_reg_t\<close>: offsets of the registers from the base of the unit\<close>

definition duck_cmd :: u32 where "duck_cmd = 0x00"
definition duck_conf :: u32 where "duck_conf = 0x04"
definition duck_hload :: u32 where "duck_hload = 0x0c"
definition duck_dds :: u32 where "duck_dds = 0x14"
definition duck_hread :: u32 where "duck_hread = 0x18"
definition duck_lread :: u32 where "duck_lread = 0x1c"
definition duck_hread1 :: u32 where "duck_hread1 = 0x20"
definition duck_lread1 :: u32 where "duck_lread1 = 0x24"

definition DUCK_BASE_ADDR :: u32 where "DUCK_BASE_ADDR = 0x60060"
definition Duck_Cmd_Go :: u32 where "Duck_Cmd_Go = 0x001"
definition Duck_Cmd_Stop :: u32 where "Duck_Cmd_Stop = 0x002"
definition Duck_Cmd_Load_Immed :: u32 where "Duck_Cmd_Load_Immed = 0x100"
definition Duck_Config_Muxin_RS422 :: u32 where "Duck_Config_Muxin_RS422 = 0x01"
definition Duck_Config_Muxin_Ovrflow :: u32 where "Duck_Config_Muxin_Ovrflow = 0x04"
definition Set_Duck_Clear_Stats :: u32 where "Set_Duck_Clear_Stats = 0x0001"
definition Set_Duck_Health_Thresh :: u32 where "Set_Duck_Health_Thresh = 0x0002"

definition cshift :: nat where "cshift = 3"

text \<open>The kernel's timer: the function it runs, when, and whether it is armed.\<close>

datatype timer_fun = No_timeout | Init_timeout | Health_timeout

record timer_list =
  timer_fn :: timer_fun
  expires :: u64
  armed :: bool

text \<open>
  \<open>nac_duck_t\<close>. Signed fields are 32 bit words; \<open>time_t\<close> has 64 bits. \<open>timer\<close> is a pointer,
  \<open>None\<close> for \<open>NULL\<close>.
\<close>

record nac_duck =
  base :: u32
  dds :: u32
  pre_dds :: u32
  sfreq :: u32
  width :: u32
  cfreq :: u32
  pulses :: u32
  single_misses :: u32
  longest_miss :: u32
  bad_pulses :: u32
  freq_error :: i32
  worst_freq :: u32
  phase_error :: i32
  worst_phase :: u32
  stat_start :: u64
  stat_end :: u64
  sickness :: u32
  health :: u32
  health_threshold :: i32
  resyncs :: u32
  is_started :: u32
  last_time :: u64
  last_tsc :: u64
  last_delta :: u64
  sync_state :: u32
  timer :: "timer_list option"

text \<open>What the driver does to the card, the kernel's timers and its wait queue.\<close>

datatype clk_event = ReadReg u32 u32 | WriteReg u32 u32 | GotTime int int
  | AddTimer timer_fun u64 | ModTimer u64 | DelTimer | WakeUp | WaitStarted

record clk_st =
  duck :: "nac_duck option"
  clog :: "clk_event list"

text \<open>The card's registers, the host's clock in seconds and microseconds, \<open>jiffies\<close>, \<open>HZ\<close>, and \<open>kmalloc\<close>.\<close>

record clk_env =
  readl_at :: "clk_event list \<Rightarrow> u32 \<Rightarrow> u32"
  time_at :: "clk_event list \<Rightarrow> int \<times> int"
  jiffies_at :: "clk_event list \<Rightarrow> u64"
  HZ :: u64
  kmalloc_ok :: "clk_event list \<Rightarrow> nat \<Rightarrow> bool"

type_synonym 'a clk = "(clk_st, 'a) prog"

definition log_clk :: "clk_event \<Rightarrow> unit clk" where
  "log_clk e = modify (\<lambda>s. s\<lparr>clog := clog s @ [e]\<rparr>)"

text \<open>Following the pointer \<open>sc->duck\<close>.\<close>

definition get_duck :: "nac_duck clk" where
  "get_duck = bnd (read_st duck) (\<lambda>d. case d of None \<Rightarrow> fault | Some d \<Rightarrow> ret d)"

definition upd_duck :: "(nac_duck \<Rightarrow> nac_duck) \<Rightarrow> unit clk" where
  "upd_duck f = bnd get_duck (\<lambda>d. modify (\<lambda>s. s\<lparr>duck := Some (f d)\<rparr>))"

definition DUCKR :: "clk_env \<Rightarrow> u32 \<Rightarrow> u32 clk" where
  "DUCKR E r = bnd get_duck (\<lambda>d. bnd (read_st (\<lambda>s. readl_at E (clog s) (base d + r))) (\<lambda>v.
     bnd (log_clk (ReadReg (base d + r) v)) (\<lambda>_. ret v)))"

definition DUCKW :: "u32 \<Rightarrow> u32 \<Rightarrow> unit clk" where
  "DUCKW r v = bnd get_duck (\<lambda>d. log_clk (WriteReg (base d + r) v))"

definition nac_gettime :: "clk_env \<Rightarrow> (int \<times> int) clk" where
  "nac_gettime E = bnd (read_st (\<lambda>s. time_at E (clog s))) (\<lambda>(sec, usec).
     bnd (log_clk (GotTime sec usec)) (\<lambda>_. ret (sec, usec)))"

text \<open>Operations on \<open>duck->timer\<close>, which follow the pointer.\<close>

definition upd_timer :: "(timer_list \<Rightarrow> timer_list) \<Rightarrow> unit clk" where
  "upd_timer f = bnd get_duck (\<lambda>d. case timer d of None \<Rightarrow> fault
     | Some tm \<Rightarrow> upd_duck (\<lambda>d. d\<lparr>timer := Some (f tm)\<rparr>))"

definition add_timer :: "unit clk" where
  "add_timer = bnd get_duck (\<lambda>d. case timer d of None \<Rightarrow> fault
     | Some tm \<Rightarrow> bnd (upd_timer (\<lambda>tm. tm\<lparr>armed := True\<rparr>)) (\<lambda>_. log_clk (AddTimer (timer_fn tm) (expires tm))))"

definition mod_timer :: "u64 \<Rightarrow> unit clk" where
  "mod_timer t = bnd (upd_timer (\<lambda>tm. tm\<lparr>expires := t, armed := True\<rparr>)) (\<lambda>_. log_clk (ModTimer t))"

definition del_timer_sync :: "unit clk" where
  "del_timer_sync = bnd (upd_timer (\<lambda>tm. tm\<lparr>armed := False\<rparr>)) (\<lambda>_. log_clk DelTimer)"

text \<open>A value of type \<open>int64_t\<close>, and the conversions from and to unsigned words.\<close>

definition s64 :: "int \<Rightarrow> int" where
  "s64 x = signed_take_bit 63 x"

definition s64_of :: "u64 \<Rightarrow> int" where
  "s64_of w = sint w"

definition ABS :: "int \<Rightarrow> u64" where
  "ABS x = word_of_int (s64 (if x < 0 then - x else x))"

section \<open>Setting up\<close>

definition duck_clear_stats :: "clk_env \<Rightarrow> unit clk" where
  "duck_clear_stats E =
     bnd (upd_duck (\<lambda>d. d\<lparr>bad_pulses := 0, worst_freq := 0, worst_phase := 0, pulses := 0, single_misses := 0,
       longest_miss := 0, sickness := 0, resyncs := 0\<rparr>)) (\<lambda>_.
     bnd (nac_gettime E) (\<lambda>(sec, usec).
     upd_duck (\<lambda>d. d\<lparr>stat_start := word_of_int sec, stat_end := word_of_int sec\<rparr>)))"

definition duck_set :: "int clk" where
  "duck_set =
     bnd (upd_duck (\<lambda>d. d\<lparr>cfreq := push_bit cshift 100000000, dds := 0xabcc7712, pre_dds := 0xabcc7712,
       sfreq := 67108864, width := 26, base := DUCK_BASE_ADDR\<rparr>)) (\<lambda>_.
     bnd get_duck (\<lambda>d.
     bnd (steps [DUCKW duck_dds (dds d), DUCKW duck_cmd Duck_Cmd_Stop, DUCKW duck_conf Duck_Config_Muxin_Ovrflow,
       upd_duck (\<lambda>d. d\<lparr>health_threshold := 0xc800, is_started := 0\<rparr>)]) (\<lambda>_. ret 0)))"

text \<open>The nearest second, as 32 bits.\<close>

definition nearest_second :: "int \<Rightarrow> int \<Rightarrow> u32" where
  "nearest_second sec usec = (if 500000 < usec then word_of_int sec + 1 else word_of_int sec)"

definition duck_start :: "clk_env \<Rightarrow> unit clk" where
  "duck_start E =
     bnd (nac_gettime E) (\<lambda>(sec, usec).
     bnd (DUCKW duck_hload (nearest_second sec usec)) (\<lambda>_.
     bnd (DUCKR E duck_hload) (\<lambda>_. steps
       [DUCKW duck_cmd (Duck_Cmd_Load_Immed OR Duck_Cmd_Go), upd_duck (\<lambda>d. d\<lparr>is_started := 1\<rparr>)])))"

definition jiffies :: "clk_env \<Rightarrow> u64 clk" where
  "jiffies E = read_st (\<lambda>s. jiffies_at E (clog s))"

definition duck_health_timeout :: "unit clk" where
  "duck_health_timeout =
     upd_duck (\<lambda>d. d\<lparr>sickness := (if health d \<noteq> 0 then sickness d + 1 else sickness d), health := 0\<rparr>)"

definition duck_init_timeout :: "clk_env \<Rightarrow> unit clk" where
  "duck_init_timeout E =
     bnd get_duck (\<lambda>_.
     bnd (nac_gettime E) (\<lambda>(sec, usec).
     if usec \<ge> 1000 * 1000 - 1000 * 1000 div uint (HZ E)
     then bnd (duck_start E) (\<lambda>_. bnd (jiffies E) (\<lambda>j. steps
       [upd_timer (\<lambda>tm. tm\<lparr>timer_fn := Health_timeout, expires := j + HZ E\<rparr>), add_timer, log_clk WakeUp]))
     else bnd (jiffies E) (\<lambda>j. steps [upd_timer (\<lambda>tm. tm\<lparr>expires := j + 1\<rparr>), add_timer])))"

definition duck_init :: "clk_env \<Rightarrow> int clk" where
  "duck_init E =
     bnd duck_set (\<lambda>r. if r \<noteq> 0 then ret (- 1)
     else bnd (duck_clear_stats E) (\<lambda>_.
     bnd (upd_duck (\<lambda>d. d\<lparr>last_time := 0, sync_state := - 1, health := 0\<rparr>)) (\<lambda>_.
     bnd del_timer_sync (\<lambda>_.
     bnd (jiffies E) (\<lambda>j.
     bnd (steps [upd_timer (\<lambda>tm. tm\<lparr>expires := j + 1, timer_fn := Init_timeout\<rparr>), add_timer, log_clk WaitStarted])
       (\<lambda>_. ret 0))))))"

section \<open>Pulses\<close>

text \<open>\<open>hostnow1\<close>: the host's time with 32 bits of fraction\<close>

definition host_time :: "int \<Rightarrow> int \<Rightarrow> int" where
  "host_time sec usec = s64 (s64 (sec * 2 ^ 32) + s64 (usec * 2 ^ 32) sdiv 1000 sdiv 1000)"

definition within_threshold :: "nac_duck \<Rightarrow> int \<Rightarrow> bool" where
  "within_threshold d off \<longleftrightarrow> off < sint (health_threshold d) \<and> off > - sint (health_threshold d)"

text \<open>\<open>offset1\<close>: the phase error from the second boundary\<close>

definition phase_offset :: "int \<Rightarrow> int" where
  "phase_offset now = (let low = now mod 2 ^ 32 in
     - (if low < 0x80000000 then low else 0 - (0x100000000 - low)))"

text \<open>A pulse of about the right length: the errors, and the estimate of the crystal.\<close>

definition good_pulse :: "clk_env \<Rightarrow> int \<Rightarrow> int \<Rightarrow> int clk" where
  "good_pulse E now delta =
     (let rate = uint (0xffffffffffffffff div word_of_int delta :: u64);
          err = s64 (rate - 0x100000000); off = phase_offset now in
     bnd (upd_duck (\<lambda>d. d\<lparr>freq_error := word_of_int err,
       worst_freq := (if ucast (worst_freq d) < ABS err then ucast (ABS err) else worst_freq d),
       phase_error := word_of_int off,
       worst_phase := (if ucast (worst_phase d) < ABS off then ucast (ABS off) else worst_phase d)\<rparr>)) (\<lambda>_.
     bnd get_duck (\<lambda>d.
     if dds d = 0 then fault
     else let est = s64 (rate * 2 ^ unat (width d)) sdiv uint (dds d) in
     bnd (if ABS (s64 (est - uint (drop_bit cshift (cfreq d)))) < 1000000
       then upd_duck (\<lambda>d. d\<lparr>cfreq := word_of_int (uint (cfreq d - drop_bit cshift (cfreq d)) + est)\<rparr>)
       else upd_duck (\<lambda>d. d\<lparr>bad_pulses := bad_pulses d + 1\<rparr>)) (\<lambda>_.
     bnd (if within_threshold d off
       then bnd (upd_duck (\<lambda>d. d\<lparr>health := (if health d = 0 then 1 else health d)\<rparr>)) (\<lambda>_.
         bnd (jiffies E) (\<lambda>j. mod_timer (j + 10 * HZ E + HZ E div 2)))
       else ret ()) (\<lambda>_.
     ret (s64 (0x100000000 - off div 2)))))))"

text \<open>A pulse while the card follows the host: \<open>syn_mode == 2\<close>.\<close>

definition host_pulse :: "clk_env \<Rightarrow> unit clk" where
  "host_pulse E =
     bnd (nac_gettime E) (\<lambda>(sec, usec). let hostnow = host_time sec usec in
     bnd (DUCKR E duck_hread) (\<lambda>high.
     bnd (DUCKR E duck_lread) (\<lambda>low. let now = s64 (uint (push_bit 32 (ucast high) + ucast low :: u64)) in
     bnd (upd_duck (\<lambda>d. d\<lparr>stat_end := (if 500000 < usec then word_of_int (sec + 1) else word_of_int sec),
       pulses := pulses d + 1\<rparr>)) (\<lambda>_.
     let delta = s64 (now - hostnow) in
     if delta > 0xffffffff \<or> delta < - 0xffffffff
     then steps [upd_duck (\<lambda>d. d\<lparr>resyncs := resyncs d + 1, sickness := sickness d + 1, health := 0\<rparr>),
       bnd duck_set (\<lambda>_. ret ()), duck_start E]
     else
       bnd (upd_duck (\<lambda>d. d\<lparr>health_threshold := 0xc800\<rparr>)) (\<lambda>_.
       bnd get_duck (\<lambda>d. let delta = s64_of (word_of_int hostnow - last_time d) in
       bnd (if last_time d \<noteq> 0 \<and> delta \<noteq> 0
         then bnd (if delta < 0x101000000 \<and> delta > 0xff000000 then good_pulse E hostnow delta else ret 0x100000000) (\<lambda>want.
           bnd get_duck (\<lambda>d.
           if cfreq d = 0 then fault
           else bnd (upd_duck (\<lambda>d. d\<lparr>dds := word_of_int (s64 (want * 2 ^ (unat (width d) + cshift)) sdiv uint (cfreq d))\<rparr>)) (\<lambda>_.
             bnd get_duck (\<lambda>d. DUCKW duck_dds (dds d)))))
         else ret ()) (\<lambda>_.
       bnd (upd_duck (\<lambda>d. d\<lparr>last_time := word_of_int hostnow\<rparr>)) (\<lambda>_. log_clk WakeUp))))))))"

text \<open>The DDS moves by at most 0x400 from one pulse to the next.\<close>

definition dds_filter :: "u32 \<Rightarrow> u32 \<Rightarrow> u32" where
  "dds_filter old new = (if new > old then (if new - old > 0x400 then old + 0x400 else new)
     else if old - new > 0x400 then old - 0x400 else new)"

text \<open>The card's counter, with the second it may have missed.\<close>

definition fix_second :: "u64 \<Rightarrow> u64 \<Rightarrow> u64" where
  "fix_second now lst = (if now < lst then now + 0x100000000
     else if drop_bit 6 (now - lst) < 0x2000000 then now + 0x100000000 else now)"

definition second_offset :: "u64 \<Rightarrow> u32" where
  "second_offset now = drop_bit 6 (if now AND 0xffffffff < 0x80000000 then ucast (now AND 0xffffffff)
     else ucast (0xffffffff - (now AND 0xffffffff)))"

text \<open>The rate the tracking stage asks for, before the filter; all in 64 bits.\<close>

definition track_dds :: "nac_duck \<Rightarrow> u64 \<Rightarrow> u64 \<Rightarrow> u32" where
  "track_dds d now delta =
     (let tmp = ucast (delta * ucast (dds d) div ucast (pre_dds d)) :: u32; off = second_offset now;
          early = now AND 0xffffffff < 0x80000000 in
      if tmp > 0x4000000
      then let t = tmp - 0x4000000 in
        ucast ((if early then 0x4000000 - ucast off - ucast t else 0x4000000 + ucast off - ucast t) * ucast (pre_dds d) div delta)
      else let t = 0x4000000 - tmp in
        ucast ((if early then 0x4000000 - ucast off + ucast t else 0x4000000 + ucast off + ucast t) * ucast (pre_dds d) div delta))"

definition set_dds :: "u32 \<Rightarrow> u64 \<Rightarrow> u64 \<Rightarrow> u32 \<Rightarrow> unit clk" where
  "set_dds v now ldelta st =
     bnd (upd_duck (\<lambda>d. d\<lparr>dds := v\<rparr>)) (\<lambda>_.
     bnd (DUCKW duck_dds v) (\<lambda>_.
     upd_duck (\<lambda>d. d\<lparr>last_time := now, last_delta := ldelta, sync_state := st\<rparr>)))"

text \<open>A pulse while the card follows the RS422 input: \<open>syn_mode == 1\<close>.\<close>

definition rs422_pulse :: "clk_env \<Rightarrow> unit clk" where
  "rs422_pulse E =
     bnd (DUCKR E duck_hread1) (\<lambda>high.
     bnd (DUCKR E duck_lread1) (\<lambda>low.
     bnd get_duck (\<lambda>d.
     let now = fix_second (push_bit 32 (ucast high) + ucast low) (last_time d); delta = drop_bit 6 (now - last_time d) in
     bnd (if sync_state d = - 1
       then upd_duck (\<lambda>d. d\<lparr>last_time := now, last_delta := delta AND 0x3ffffff, sync_state := 0\<rparr>)
       else if sync_state d = 0
       then if delta = 0 then fault
         else set_dds (ucast ((if last_delta d < 0x2000000 then 0x4000000 * 3 - last_delta d - 2 * delta
           else 0x4000000 * 4 - last_delta d - 2 * delta) * ucast (dds d) div delta)) now delta 1
       else if sync_state d = 1
       then if delta = 0 then fault
         else let v = ucast (0x4000000 * ucast (pre_dds d) div delta AND 0xffffffff) in
           bnd (upd_duck (\<lambda>d. d\<lparr>pre_dds := v\<rparr>)) (\<lambda>_. set_dds v now delta 2)
       else if sync_state d = 2
       then upd_duck (\<lambda>d. d\<lparr>last_time := now, sync_state := 3\<rparr>)
       else if pre_dds d = 0 \<or> delta = 0 then fault
       else bnd (upd_duck (\<lambda>d. d\<lparr>pre_dds := dds d\<rparr>)) (\<lambda>_.
         set_dds (dds_filter (dds d) (track_dds d now delta)) now delta 3)) (\<lambda>_.
     bnd (upd_duck (\<lambda>d. d\<lparr>pulses := pulses d + 1\<rparr>)) (\<lambda>_. log_clk WakeUp)))))"

definition duck_intr :: "clk_env \<Rightarrow> unit clk" where
  "duck_intr E =
     bnd (read_st duck) (\<lambda>d. case d of None \<Rightarrow> ret ()
     | Some d \<Rightarrow> if base d = 0 then ret ()
       else bnd (DUCKR E duck_conf) (\<lambda>c1.
         if c1 AND Duck_Config_Muxin_Ovrflow \<noteq> 0 then host_pulse E
         else bnd (DUCKR E duck_conf) (\<lambda>c2.
           if c2 AND Duck_Config_Muxin_RS422 \<noteq> 0 then rs422_pulse E else log_clk WakeUp)))"

section \<open>The request from user space\<close>

text \<open>\<open>duckinf_t\<close>\<close>

record duckinf =
  Last_Ticks :: u64
  Last_TSC :: u64
  Stat_Start :: u64
  Stat_End :: u64
  Crystal_Freq :: u32
  Synth_Freq :: u32
  Resyncs :: u32
  Bad_Pulses :: u32
  Worst_Freq_Err :: u32
  Worst_Phase_Err :: u32
  Health_Thresh :: u32
  Pulses :: u32
  Single_Pulses_Missing :: u32
  Longest_Pulse_Missing :: u32
  Health :: u32
  Sickness :: u32
  Freq_Err :: i32
  Phase_Err :: i32
  Set_Duck_Field :: u32

definition fill_duckinf :: "nac_duck \<Rightarrow> duckinf \<Rightarrow> duckinf" where
  "fill_duckinf d i = i\<lparr>Crystal_Freq := drop_bit cshift (cfreq d), Synth_Freq := sfreq d, Last_Ticks := last_time d,
     Resyncs := resyncs d, Bad_Pulses := bad_pulses d, Worst_Freq_Err := worst_freq d, Worst_Phase_Err := worst_phase d,
     Health_Thresh := health_threshold d, Pulses := pulses d, Single_Pulses_Missing := single_misses d,
     Longest_Pulse_Missing := longest_miss d, Health := health d, Sickness := sickness d, Freq_Err := freq_error d,
     Phase_Err := phase_error d, Stat_Start := stat_start d, Stat_End := stat_end d, Last_TSC := last_tsc d\<rparr>"

text \<open>A shift by 32 or more is undefined; \<open>32 - width\<close> is 32 while the unit is not set up.\<close>

definition round_threshold :: "nac_duck \<Rightarrow> u32 \<Rightarrow> i32 option" where
  "round_threshold d th = (let k = unat (32 - width d) in
     if k < 32 then Some (push_bit k (drop_bit k th)) else None)"

definition duck_ioctl :: "clk_env \<Rightarrow> duckinf \<Rightarrow> (int \<times> duckinf) clk" where
  "duck_ioctl E i0 =
     bnd (if Set_Duck_Field i0 AND Set_Duck_Clear_Stats \<noteq> 0
       then bnd (duck_clear_stats E) (\<lambda>_. ret (i0\<lparr>Set_Duck_Field := Set_Duck_Field i0 AND NOT Set_Duck_Clear_Stats\<rparr>))
       else ret i0) (\<lambda>i1.
     bnd (if Set_Duck_Field i1 AND Set_Duck_Health_Thresh \<noteq> 0
       then bnd get_duck (\<lambda>d. case round_threshold d (Health_Thresh i1) of None \<Rightarrow> fault
         | Some th \<Rightarrow> bnd (upd_duck (\<lambda>d. d\<lparr>health_threshold := th\<rparr>)) (\<lambda>_.
             ret (i1\<lparr>Set_Duck_Field := Set_Duck_Field i1 AND NOT Set_Duck_Health_Thresh\<rparr>)))
       else ret i1) (\<lambda>i2.
     bnd get_duck (\<lambda>d. ret (0, fill_duckinf d i2))))"

definition zero_duck :: nac_duck where
  "zero_duck = \<lparr>base = 0, dds = 0, pre_dds = 0, sfreq = 0, width = 0, cfreq = 0, pulses = 0, single_misses = 0,
     longest_miss = 0, bad_pulses = 0, freq_error = 0, worst_freq = 0, phase_error = 0, worst_phase = 0,
     stat_start = 0, stat_end = 0, sickness = 0, health = 0, health_threshold = 0, resyncs = 0, is_started = 0,
     last_time = 0, last_tsc = 0, last_delta = 0, sync_state = 0, timer = None\<rparr>"

text \<open>\<open>duck_new\<close>: either allocation may fail; the second failure leaves \<open>timer\<close> null.\<close>

definition duck_new :: "clk_env \<Rightarrow> nac_duck option clk" where
  "duck_new E = bnd (read_st (\<lambda>s. (kmalloc_ok E (clog s) 0, kmalloc_ok E (clog s) 1))) (\<lambda>(ok, ok1).
     ret (if \<not> ok then None
       else Some (zero_duck\<lparr>timer := (if ok1 then Some \<lparr>timer_fn = No_timeout, expires = 0, armed = False\<rparr> else None)\<rparr>)))"

definition duck_destroy :: "unit clk" where
  "duck_destroy =
     bnd get_duck (\<lambda>d.
     bnd (if timer d \<noteq> None then del_timer_sync else ret ()) (\<lambda>_. modify (\<lambda>s. s\<lparr>duck := None\<rparr>)))"

section \<open>Running the operations\<close>

lemma log_clk_run [simp]: "log_clk e s = Some (Ok (), s\<lparr>clog := clog s @ [e]\<rparr>)"
  by (simp add: log_clk_def)

lemma get_duck_run: "duck s = Some d \<Longrightarrow> get_duck s = Some (Ok d, s)"
  by (simp add: get_duck_def)

lemma upd_duck_run: "duck s = Some d \<Longrightarrow> upd_duck f s = Some (Ok (), s\<lparr>duck := Some (f d)\<rparr>)"
  by (simp add: upd_duck_def get_duck_run)

lemma DUCKW_run: "duck s = Some d \<Longrightarrow> DUCKW r v s = Some (Ok (), s\<lparr>clog := clog s @ [WriteReg (base d + r) v]\<rparr>)"
  by (simp add: DUCKW_def get_duck_run)

lemma DUCKR_run: "duck s = Some d \<Longrightarrow> DUCKR E r s = Some (Ok (readl_at E (clog s) (base d + r)),
    s\<lparr>clog := clog s @ [ReadReg (base d + r) (readl_at E (clog s) (base d + r))]\<rparr>)"
  by (simp add: DUCKR_def get_duck_run)

lemma nac_gettime_run: "nac_gettime E s = Some (Ok (time_at E (clog s)),
    s\<lparr>clog := clog s @ [GotTime (fst (time_at E (clog s))) (snd (time_at E (clog s)))]\<rparr>)"
  by (cases "time_at E (clog s)") (simp add: nac_gettime_def)

lemma jiffies_run [simp]: "jiffies E s = Some (Ok (jiffies_at E (clog s)), s)"
  by (simp add: jiffies_def)

lemma upd_timer_run: "duck s = Some d \<Longrightarrow> timer d = Some tm \<Longrightarrow>
    upd_timer f s = Some (Ok (), s\<lparr>duck := Some (d\<lparr>timer := Some (f tm)\<rparr>)\<rparr>)"
  by (simp add: upd_timer_def get_duck_run upd_duck_run)

lemma add_timer_run: "duck s = Some d \<Longrightarrow> timer d = Some tm \<Longrightarrow>
    add_timer s = Some (Ok (), s\<lparr>duck := Some (d\<lparr>timer := Some (tm\<lparr>armed := True\<rparr>)\<rparr>),
      clog := clog s @ [AddTimer (timer_fn tm) (expires tm)]\<rparr>)"
  by (simp add: add_timer_def get_duck_run upd_timer_run)

lemma mod_timer_run: "duck s = Some d \<Longrightarrow> timer d = Some tm \<Longrightarrow>
    mod_timer t s = Some (Ok (), s\<lparr>duck := Some (d\<lparr>timer := Some (tm\<lparr>expires := t, armed := True\<rparr>)\<rparr>),
      clog := clog s @ [ModTimer t]\<rparr>)"
  by (simp add: mod_timer_def upd_timer_run)

lemma del_timer_run: "duck s = Some d \<Longrightarrow> timer d = Some tm \<Longrightarrow>
    del_timer_sync s = Some (Ok (), s\<lparr>duck := Some (d\<lparr>timer := Some (tm\<lparr>armed := False\<rparr>)\<rparr>), clog := clog s @ [DelTimer]\<rparr>)"
  by (simp add: del_timer_sync_def upd_timer_run)

lemmas duck_runs = get_duck_run upd_duck_run DUCKW_run DUCKR_run nac_gettime_run upd_timer_run add_timer_run
  mod_timer_run del_timer_run

text \<open>The unit as \<open>duck_set\<close> leaves it.\<close>

definition unit_ready :: "nac_duck \<Rightarrow> nac_duck" where
  "unit_ready d = d\<lparr>cfreq := 800000000, dds := 0xabcc7712, pre_dds := 0xabcc7712, sfreq := 67108864, width := 26,
     base := DUCK_BASE_ADDR, health_threshold := 0xc800, is_started := 0\<rparr>"

lemma duck_set_run:
  "duck s = Some d \<Longrightarrow> duck_set s = Some (Ok 0, s\<lparr>duck := Some (unit_ready d), clog := clog s @
     [WriteReg 0x60074 0xabcc7712, WriteReg 0x60060 Duck_Cmd_Stop, WriteReg 0x60064 Duck_Config_Muxin_Ovrflow]\<rparr>)"
  by (simp add: duck_set_def duck_runs unit_ready_def DUCK_BASE_ADDR_def duck_dds_def duck_cmd_def duck_conf_def
      cshift_def push_bit_eq_mult)

lemma duck_start_run:
  assumes "duck s = Some d" and "time_at E (clog s) = (sec, usec)"
  shows "duck_start E s = Some (Ok (), s\<lparr>duck := Some (d\<lparr>is_started := 1\<rparr>), clog := clog s @
     [GotTime sec usec, WriteReg (base d + duck_hload) (nearest_second sec usec),
      ReadReg (base d + duck_hload) (readl_at E (clog s @ [GotTime sec usec, WriteReg (base d + duck_hload) (nearest_second sec usec)])
        (base d + duck_hload)),
      WriteReg (base d + duck_cmd) (Duck_Cmd_Load_Immed OR Duck_Cmd_Go)]\<rparr>)"
  using assms by (simp add: duck_start_def duck_runs)

lemma clear_stats_run:
  assumes "duck s = Some d" and "time_at E (clog s) = (sec, usec)"
  shows "duck_clear_stats E s = Some (Ok (), s\<lparr>duck := Some (d\<lparr>bad_pulses := 0, worst_freq := 0, worst_phase := 0, pulses := 0,
      single_misses := 0, longest_miss := 0, sickness := 0, resyncs := 0, stat_start := word_of_int sec,
      stat_end := word_of_int sec\<rparr>), clog := clog s @ [GotTime sec usec]\<rparr>)"
  using assms by (simp add: duck_clear_stats_def duck_runs)

section \<open>The filter of the DDS\<close>

text \<open>The filter is a clamp to 0x400 around the old value.\<close>

lemma dds_filter_clamp:
  "uint (dds_filter old new) = max (uint old - 0x400) (min (uint old + 0x400) (uint new))"
proof (cases "new > old")
  case True
  then have s: "uint (new - old) = uint new - uint old"
    by (simp add: uint_sub_if' word_less_def)
  show ?thesis
  proof (cases "new - old > 0x400")
    case True
    then have "uint old + 0x400 < uint new" using s by (simp add: word_less_def)
    moreover from this have "uint (old + 0x400) = uint old + 0x400"
      using uint_bounded [of new] by (subst uint_add_small) simp_all
    ultimately show ?thesis using True \<open>new > old\<close> by (simp add: dds_filter_def)
  next
    case False
    then have "uint new \<le> uint old + 0x400" using s by (simp add: word_less_def)
    then show ?thesis using False \<open>new > old\<close> by (simp add: dds_filter_def word_less_def)
  qed
next
  case False
  then have s: "uint (old - new) = uint old - uint new"
    by (simp add: uint_sub_if' word_less_def)
  show ?thesis
  proof (cases "old - new > 0x400")
    case True
    then have lt: "uint new + 0x400 < uint old" using s by (simp add: word_less_def)
    then have "0x400 \<le> uint old" using uint_ge_0 [of new] by linarith
    then have "0x400 \<le> old" by (simp add: word_le_def)
    then have "uint (old - 0x400) = uint old - 0x400" by (simp add: uint_sub_if' word_le_def)
    then show ?thesis using True False lt by (simp add: dds_filter_def)
  next
    case False
    then have "uint old \<le> uint new + 0x400" using s by (simp add: word_less_def)
    then show ?thesis using False \<open>\<not> new > old\<close> by (simp add: dds_filter_def word_less_def)
  qed
qed

section \<open>Properties of the pulses\<close>

text \<open>What the card and the clocks show during one interrupt.\<close>

definition shows_regs :: "clk_env \<Rightarrow> nac_duck \<Rightarrow> u32 \<Rightarrow> (u32 \<Rightarrow> u32) \<Rightarrow> bool" where
  "shows_regs E d conf rs \<longleftrightarrow> (\<forall>h. readl_at E h (base d + duck_conf) = conf) \<and>
     (\<forall>h. \<forall>r \<in> {duck_hread, duck_lread, duck_hread1, duck_lread1}. readl_at E h (base d + r) = rs r)"

definition card_time :: "u32 \<Rightarrow> u32 \<Rightarrow> u64" where
  "card_time high low = push_bit 32 (ucast high) + ucast low"

lemma rs422_start:
  assumes "duck s = Some d" and "base d \<noteq> 0" and "shows_regs E d conf rs"
    and "conf AND Duck_Config_Muxin_Ovrflow = 0" and "conf AND Duck_Config_Muxin_RS422 \<noteq> 0"
  shows "duck_intr E s = rs422_pulse E (s\<lparr>clog := clog s @ [ReadReg (base d + duck_conf) conf, ReadReg (base d + duck_conf) conf]\<rparr>)"
  using assms by (simp add: duck_intr_def duck_runs shows_regs_def)

lemma set_dds_run:
  "duck s = Some d \<Longrightarrow> set_dds v now ld st s = Some (Ok (), s\<lparr>duck := Some (d\<lparr>dds := v, last_time := now, last_delta := ld, sync_state := st\<rparr>),
     clog := clog s @ [WriteReg (base d + duck_dds) v]\<rparr>)"
  by (simp add: set_dds_def duck_runs)

text \<open>
  C17. Tracking a reference. Once the first pulses are over, a pulse moves the rate by at most
  0x400, to the rate computed from the counter if that is nearer; that rate is the only register
  written, and the pulse and the counter are noted.
\<close>

theorem tracking_pulse:
  assumes "duck s = Some d" and "base d \<noteq> 0" and regs: "shows_regs E d conf rs"
    and "conf AND Duck_Config_Muxin_Ovrflow = 0" and "conf AND Duck_Config_Muxin_RS422 \<noteq> 0"
    and "sync_state d \<notin> {- 1, 0, 1, 2}" and "pre_dds d \<noteq> 0"
    and now: "now = fix_second (card_time (rs duck_hread1) (rs duck_lread1)) (last_time d)"
    and delta: "delta = drop_bit 6 (now - last_time d)" "delta \<noteq> 0"
  shows "\<exists>t rate. duck_intr E s = Some (Ok (), t) \<and>
     uint rate = max (uint (dds d) - 0x400) (min (uint (dds d) + 0x400) (uint (track_dds d now delta))) \<and>
     duck t = Some (d\<lparr>dds := rate, pre_dds := dds d, last_time := now, last_delta := delta, sync_state := 3, pulses := pulses d + 1\<rparr>) \<and>
     clog t = clog s @ [ReadReg (base d + duck_conf) conf, ReadReg (base d + duck_conf) conf,
       ReadReg (base d + duck_hread1) (rs duck_hread1), ReadReg (base d + duck_lread1) (rs duck_lread1),
       WriteReg (base d + duck_dds) rate, WakeUp]"
proof -
  have r: "readl_at E h (base d + duck_hread1) = rs duck_hread1" "readl_at E h (base d + duck_lread1) = rs duck_lread1" for h
    using regs by (simp_all add: shows_regs_def)
  show ?thesis
    unfolding rs422_start [OF assms(1-5)]
    using assms(1,6,7) delta(2)
    by (simp add: rs422_pulse_def duck_runs r set_dds_run Let_def card_time_def [symmetric] now [symmetric] delta(1) [symmetric]
        dds_filter_clamp [symmetric])
qed

text \<open>
  C18. Following the host. When the card's counter is more than a second away from the host's
  clock, the interrupt counts a resynchronisation and a sickness, sets the unit up again and
  starts it at the nearest second of the host; these are the registers it writes, in order.
\<close>

theorem host_resync:
  assumes "duck s = Some d" and "base d \<noteq> 0" and regs: "shows_regs E d conf rs"
    and "conf AND Duck_Config_Muxin_Ovrflow \<noteq> 0" and time: "\<And>h. time_at E h = (sec, usec)"
    and off: "0xffffffff < \<bar>s64 (s64 (uint (card_time (rs duck_hread) (rs duck_lread))) - host_time sec usec)\<bar>"
  shows "\<exists>t v. duck_intr E s = Some (Ok (), t) \<and>
     duck t = Some ((unit_ready d)\<lparr>pulses := pulses d + 1, resyncs := resyncs d + 1, sickness := sickness d + 1, health := 0,
       stat_end := word_of_int (if 500000 < usec then sec + 1 else sec), is_started := 1\<rparr>) \<and>
     clog t = clog s @ [ReadReg (base d + duck_conf) conf, GotTime sec usec,
       ReadReg (base d + duck_hread) (rs duck_hread), ReadReg (base d + duck_lread) (rs duck_lread),
       WriteReg 0x60074 0xabcc7712, WriteReg 0x60060 Duck_Cmd_Stop, WriteReg 0x60064 Duck_Config_Muxin_Ovrflow,
       GotTime sec usec, WriteReg 0x6006C (nearest_second sec usec), ReadReg 0x6006C v,
       WriteReg 0x60060 (Duck_Cmd_Load_Immed OR Duck_Cmd_Go)]"
proof -
  let ?delta = "s64 (s64 (uint (card_time (rs duck_hread) (rs duck_lread))) - host_time sec usec)"
  have r: "readl_at E h (base d + duck_hread) = rs duck_hread" "readl_at E h (base d + duck_lread) = rs duck_lread"
    "readl_at E h (base d + duck_conf) = conf" for h
    using regs by (simp_all add: shows_regs_def)
  have c: "?delta > 0xffffffff \<or> ?delta < - 0xffffffff" using off by linarith
  have b: "base (unit_ready d) = 0x60060" "0x60060 + duck_hload = 0x6006C" "0x60060 + duck_cmd = 0x60060"
    by (simp_all add: unit_ready_def DUCK_BASE_ADDR_def duck_hload_def duck_cmd_def)
  show ?thesis using assms(1,2,4) c
    by (simp add: duck_intr_def host_pulse_def duck_runs r time Let_def card_time_def [symmetric] duck_set_run duck_start_run b)
       (simp add: unit_ready_def DUCK_BASE_ADDR_def duck_hload_def duck_cmd_def)
qed

text \<open>The time between two pulses is never 0 unless the counter went back.\<close>

lemma forward_delta:
  assumes "lst \<le> now" and "uint (now :: u64) + 2 ^ 32 < 2 ^ 64"
  shows "drop_bit 6 (fix_second now lst - lst) \<noteq> 0"
proof (cases "drop_bit 6 (now - lst) < 0x2000000")
  case True
  have "uint (now + 0x100000000) = uint now + 2 ^ 32" using assms(2) by (simp add: uint_word_ariths)
  moreover have "lst \<le> now + 0x100000000" using assms(1) calculation by (simp add: word_le_def)
  ultimately have "uint (now + 0x100000000 - lst) = uint now + 2 ^ 32 - uint lst" by (simp add: uint_sub_if' word_le_def)
  then have "2 ^ 32 \<le> uint (now + 0x100000000 - lst)" using assms(1) by (simp add: word_le_def)
  then have "2 ^ 32 div 64 \<le> uint (now + 0x100000000 - lst) div 64" by (intro zdiv_mono1) simp_all
  moreover have "uint (drop_bit 6 w) = uint w div 64" for w :: u64 by (simp add: drop_bit_eq_div uint_div_distrib)
  ultimately have "0 < uint (drop_bit 6 (now + 0x100000000 - lst))" by simp
  then have "drop_bit 6 (now + 0x100000000 - lst) \<noteq> 0" by (metis less_irrefl unsigned_0)
  then show ?thesis using True assms(1) by (auto simp: fix_second_def)
next
  case False
  then show ?thesis using assms(1) by (auto simp: fix_second_def)
qed

text \<open>A counter that goes back by one second exactly makes it 0.\<close>

lemma back_one_second:
  assumes "lst = now + 0x100000000" and "uint (now :: u64) + 2 ^ 32 < 2 ^ 64"
  shows "drop_bit 6 (fix_second now lst - lst) = 0"
proof -
  have "uint (now + 0x100000000) = uint now + 2 ^ 32" using assms(2) by (simp add: uint_word_ariths)
  then have "now < lst" using assms(1) by (simp add: word_less_def)
  then show ?thesis using assms(1) by (simp add: fix_second_def)
qed

text \<open>
  C38. While the unit is configured for the reference input (the overflow input is off, RS422 is
  on), its base is set, the computed rate \<open>pre_dds\<close> is not 0 and the counter is a second away from
  the end of its range: a pulse never fails when the counter has not run backwards since the
  last one, in any stage of the synchronisation; when the counter has gone back by exactly one
  second, the driver divides by 0 in every stage but the first (-1) and the fourth (2), which
  do not divide by the difference.
\<close>

theorem reference_pulse_division:
  assumes "duck s = Some d" and "base d \<noteq> 0" and regs: "shows_regs E d conf rs"
    and "conf AND Duck_Config_Muxin_Ovrflow = 0" and "conf AND Duck_Config_Muxin_RS422 \<noteq> 0" and "pre_dds d \<noteq> 0"
    and now: "now = card_time (rs duck_hread1) (rs duck_lread1)" and small: "uint now + 2 ^ 32 < 2 ^ 64"
  shows "(last_time d \<le> now \<longrightarrow> (\<exists>t. duck_intr E s = Some (Ok (), t))) \<and>
     (last_time d = now + 0x100000000 \<and> sync_state d \<notin> {- 1, 2} \<longrightarrow> (\<exists>t. duck_intr E s = Some (Fault, t)))"
proof (intro conjI impI)
  have r: "readl_at E h (base d + duck_hread1) = rs duck_hread1" "readl_at E h (base d + duck_lread1) = rs duck_lread1" for h
    using regs by (simp_all add: shows_regs_def)
  let ?delta = "drop_bit 6 (fix_second now (last_time d) - last_time d)"
  note unf = rs422_pulse_def duck_runs r set_dds_run Let_def card_time_def [symmetric] now [symmetric]
  {
    assume "last_time d \<le> now"
    then have d: "?delta \<noteq> 0" by (rule forward_delta [OF _ small])
    consider "sync_state d = - 1" | "sync_state d = 0" | "sync_state d = 1" | "sync_state d = 2" | "sync_state d \<notin> {- 1, 0, 1, 2}" by blast
    then show "\<exists>t. duck_intr E s = Some (Ok (), t)"
      unfolding rs422_start [OF assms(1-5)] using assms(1,6) d by cases (simp_all add: unf)
  next
    assume l: "last_time d = now + 0x100000000 \<and> sync_state d \<notin> {- 1, 2}"
    then have d: "?delta = 0" by (intro back_one_second [OF _ small]) simp
    consider "sync_state d = 0" | "sync_state d = 1" | "sync_state d \<notin> {- 1, 0, 1, 2}" using l by blast
    then show "\<exists>t. duck_intr E s = Some (Fault, t)"
      unfolding rs422_start [OF assms(1-5)] using assms(1,6) d by cases (simp_all add: unf)
  }
qed

section \<open>The life of the clock\<close>

text \<open>The kernel runs the function of an armed timer whose time has come, and disarms it.\<close>

definition fire_timer :: "clk_env \<Rightarrow> unit clk" where
  "fire_timer E = bnd get_duck (\<lambda>d. case timer d of None \<Rightarrow> fault
     | Some tm \<Rightarrow> bnd (jiffies E) (\<lambda>j.
       if armed tm \<and> expires tm \<le> j
       then bnd (upd_timer (\<lambda>tm. tm\<lparr>armed := False\<rparr>)) (\<lambda>_.
         case timer_fn tm of No_timeout \<Rightarrow> ret () | Init_timeout \<Rightarrow> duck_init_timeout E | Health_timeout \<Rightarrow> duck_health_timeout)
       else ret ()))"

text \<open>What may happen to a clock: an interrupt of the card, the timer, a request from user space.\<close>

inductive clk_step :: "clk_env \<Rightarrow> clk_st \<Rightarrow> clk_st \<Rightarrow> bool" for E where
  pulse: "duck_intr E s = Some (Ok (), t) \<Longrightarrow> clk_step E s t"
| timeout: "fire_timer E s = Some (Ok (), t) \<Longrightarrow> clk_step E s t"
| request: "duck_ioctl E i s = Some (Ok r, t) \<Longrightarrow> clk_step E s t"

inductive_cases clk_stepE: "clk_step E s t"

inductive clk_reach :: "clk_env \<Rightarrow> clk_st \<Rightarrow> clk_st \<Rightarrow> bool" for E s where
  start: "clk_reach E s s"
| more: "clk_reach E s t \<Longrightarrow> clk_step E t u \<Longrightarrow> clk_reach E s u"

text \<open>
  The watchdog: a clock that is not started has its start pending, and a clock that counts as
  healthy has an armed timer, so that it stops counting as healthy when the pulses stop.
\<close>

definition timer_ok :: "nac_duck \<Rightarrow> timer_list \<Rightarrow> bool" where
  "timer_ok d tm \<longleftrightarrow> (health d = 0 \<or> health d = 1 \<and> armed tm) \<and>
     (is_started d = 0 \<and> armed tm \<and> timer_fn tm = Init_timeout \<or>
      is_started d = 1 \<and> (timer_fn tm = Health_timeout \<or> timer_fn tm = Init_timeout \<and> armed tm))"

definition clock_ok :: "nac_duck \<Rightarrow> bool" where
  "clock_ok d \<longleftrightarrow> base d = DUCK_BASE_ADDR \<and> width d = 26 \<and> sync_state d \<in> {- 1, 0, 1, 2, 3} \<and>
     (\<exists>tm. timer d = Some tm \<and> timer_ok d tm)"

definition clk_ok :: "clk_st \<Rightarrow> bool" where
  "clk_ok s \<longleftrightarrow> (\<exists>d. duck s = Some d \<and> clock_ok d)"

definition keeps_clock :: "'a clk \<Rightarrow> bool" where
  "keeps_clock m \<longleftrightarrow> if_returns clk_ok m (\<lambda>_. clk_ok)"

named_theorems keeps

lemma keeps_bnd [keeps]: "keeps_clock m \<Longrightarrow> (\<And>x. keeps_clock (f x)) \<Longrightarrow> keeps_clock (bnd m f)"
  unfolding keeps_clock_def by (rule if_returns_bnd)

lemma keeps_if [keeps]: "keeps_clock m \<Longrightarrow> keeps_clock n \<Longrightarrow> keeps_clock (if b then m else n)"
  by simp

lemma keeps_case_option [keeps]:
  "keeps_clock m \<Longrightarrow> (\<And>y. keeps_clock (f y)) \<Longrightarrow> keeps_clock (case x of None \<Rightarrow> m | Some y \<Rightarrow> f y)"
  by (cases x) simp_all

lemma keeps_ret [keeps]: "keeps_clock (ret x)"
  unfolding keeps_clock_def by (rule if_returns_ret)

lemma keeps_fault [keeps]: "keeps_clock fault"
  unfolding keeps_clock_def by (rule if_returns_fault)

lemma keeps_read [keeps]: "keeps_clock (read_st f)"
  by (simp add: keeps_clock_def if_returns_def)

lemma keeps_log [keeps]: "keeps_clock (log_clk e)"
  by (simp add: keeps_clock_def if_returns_def clk_ok_def)

lemma keeps_get [keeps]: "keeps_clock get_duck"
  by (auto simp: keeps_clock_def if_returns_def get_duck_def bnd_Ok_iff split: option.splits)

lemma keeps_upd: "(\<And>d. clock_ok d \<Longrightarrow> clock_ok (f d)) \<Longrightarrow> keeps_clock (upd_duck f)"
  by (auto simp: keeps_clock_def if_returns_def clk_ok_def upd_duck_run)

lemma keeps_steps [keeps]: "(\<And>m. m \<in> set ms \<Longrightarrow> keeps_clock m) \<Longrightarrow> keeps_clock (steps ms)"
  by (induction ms) (simp_all add: keeps_ret keeps_bnd)

lemma keeps_DUCKR [keeps]: "keeps_clock (DUCKR E r)"
  unfolding DUCKR_def by (intro keeps)

lemma keeps_DUCKW [keeps]: "keeps_clock (DUCKW r v)"
  unfolding DUCKW_def by (intro keeps)

lemma keeps_gettime [keeps]: "keeps_clock (nac_gettime E)"
  unfolding nac_gettime_def split_def by (intro keeps)

lemma keeps_jiffies [keeps]: "keeps_clock (jiffies E)"
  unfolding jiffies_def by (intro keeps)

lemma keeps_set_dds [keeps]: "st \<in> {1, 2, 3} \<Longrightarrow> keeps_clock (set_dds v now ld st)"
  unfolding set_dds_def by (intro keeps keeps_upd) (auto simp: clock_ok_def timer_ok_def)

lemma keeps_rs422 [keeps]: "keeps_clock (rs422_pulse E)"
  unfolding rs422_pulse_def Let_def
  by (intro keeps keeps_upd) (auto simp: clock_ok_def timer_ok_def)

text \<open>Health is set together with the timer.\<close>

lemma keeps_healthy [keeps]:
  "keeps_clock (bnd (upd_duck (\<lambda>d. d\<lparr>health := (if health d = 0 then 1 else health d)\<rparr>)) (\<lambda>_. bnd (jiffies E) (\<lambda>j. mod_timer (g j))))"
  by (auto simp: keeps_clock_def if_returns_def clk_ok_def clock_ok_def timer_ok_def duck_runs)

lemma keeps_good_pulse [keeps]: "keeps_clock (good_pulse E now delta)"
  unfolding good_pulse_def Let_def
  by (intro keeps keeps_upd) (auto simp: clock_ok_def timer_ok_def)

lemma keeps_resync [keeps]:
  "keeps_clock (steps [upd_duck (\<lambda>d. d\<lparr>resyncs := resyncs d + 1, sickness := sickness d + 1, health := 0\<rparr>),
     bnd duck_set (\<lambda>_. ret ()), duck_start E])"
proof -
  have "\<exists>h. steps [upd_duck (\<lambda>d. d\<lparr>resyncs := resyncs d + 1, sickness := sickness d + 1, health := 0\<rparr>),
     bnd duck_set (\<lambda>_. ret ()), duck_start E] s = Some (Ok (), s\<lparr>duck := Some ((unit_ready (d\<lparr>resyncs := resyncs d + 1,
       sickness := sickness d + 1, health := 0\<rparr>))\<lparr>is_started := 1\<rparr>), clog := h\<rparr>)" if "duck s = Some d" for s d
  proof -
    obtain sec usec where "time_at E (clog s @ [WriteReg 0x60074 0xabcc7712, WriteReg 0x60060 Duck_Cmd_Stop,
        WriteReg 0x60064 Duck_Config_Muxin_Ovrflow]) = (sec, usec)" by fastforce
    then show ?thesis using that by (simp add: upd_duck_run duck_set_run duck_start_run) (metis (no_types))
  qed
  then show ?thesis
    unfolding keeps_clock_def if_returns_def clk_ok_def
    by (fastforce simp: clock_ok_def timer_ok_def unit_ready_def)
qed

lemma keeps_host [keeps]: "keeps_clock (host_pulse E)"
  unfolding host_pulse_def Let_def split_def
  by (intro keeps keeps_upd) (auto simp: clock_ok_def timer_ok_def)

lemma keeps_intr [keeps]: "keeps_clock (duck_intr E)"
  unfolding duck_intr_def by (intro keeps)

text \<open>The timer: the start of the clock, or the end of its health.\<close>

definition last_tick :: "clk_env \<Rightarrow> clk_st \<Rightarrow> bool" where
  "last_tick E s \<longleftrightarrow> snd (time_at E (clog s)) \<ge> 1000 * 1000 - 1000 * 1000 div uint (HZ E)"

lemma init_timeout_run:
  assumes "duck s = Some d" and "timer d = Some tm"
  shows "\<exists>h e. duck_init_timeout E s = Some (Ok (), s\<lparr>duck := Some (d\<lparr>is_started := (if last_tick E s then 1 else is_started d),
      timer := Some (tm\<lparr>timer_fn := (if last_tick E s then Health_timeout else timer_fn tm), expires := e, armed := True\<rparr>)\<rparr>), clog := h\<rparr>)"
proof -
  obtain sec usec where t: "time_at E (clog s) = (sec, usec)" by fastforce
  obtain sec1 usec1 where t1: "time_at E (clog s @ [GotTime sec usec]) = (sec1, usec1)" by fastforce
  show ?thesis
  proof (cases "usec \<ge> 1000 * 1000 - 1000 * 1000 div uint (HZ E)")
    case True
    with assms t t1 show ?thesis
      by (intro exI [of _ "_ :: clk_event list"] exI [of _ "_ :: u64"])
         (simp_all add: duck_init_timeout_def duck_runs duck_start_run last_tick_def)
  next
    case False
    let ?e = "jiffies_at E (clog s @ [GotTime sec usec]) + 1"
    from False assms t show ?thesis
      by (intro exI [of _ "clog s @ [GotTime sec usec, AddTimer (timer_fn tm) ?e]"] exI [of _ ?e])
         (simp_all add: duck_init_timeout_def duck_runs last_tick_def)
  qed
qed

lemma health_timeout_run:
  "duck s = Some d \<Longrightarrow> \<exists>n. duck_health_timeout s = Some (Ok (), s\<lparr>duck := Some (d\<lparr>sickness := n, health := 0\<rparr>)\<rparr>)"
  by (intro exI [of _ "if health d \<noteq> 0 then sickness d + 1 else sickness d"]) (simp add: duck_health_timeout_def upd_duck_run)

text \<open>What the timer does when its time has come, by the function it runs.\<close>

definition after_timeout :: "clk_env \<Rightarrow> clk_st \<Rightarrow> nac_duck \<Rightarrow> timer_list \<Rightarrow> nac_duck \<Rightarrow> timer_list \<Rightarrow> bool" where
  "after_timeout E s d tm d1 tm1 \<longleftrightarrow>
     (if timer_fn tm = Health_timeout then health d1 = 0 \<and> is_started d1 = is_started d \<and> \<not> armed tm1 \<and> timer_fn tm1 = Health_timeout
      else health d1 = health d \<and> armed tm1 \<and>
        (if last_tick E s then is_started d1 = 1 \<and> timer_fn tm1 = Health_timeout
         else is_started d1 = is_started d \<and> timer_fn tm1 = Init_timeout))"

lemma fire_timer_run:
  assumes d: "duck s = Some d" "timer d = Some tm" "timer_fn tm \<noteq> No_timeout"
    and due: "armed tm" "expires tm \<le> jiffies_at E (clog s)"
  shows "\<exists>t d1 tm1. fire_timer E s = Some (Ok (), t) \<and> duck t = Some d1 \<and> timer d1 = Some tm1 \<and> after_timeout E s d tm d1 tm1 \<and>
     base d1 = base d \<and> width d1 = width d \<and> sync_state d1 = sync_state d"
proof -
  let ?tm = "tm\<lparr>armed := False\<rparr>"
  let ?s = "s\<lparr>duck := Some (d\<lparr>timer := Some ?tm\<rparr>)\<rparr>"
  have r: "fire_timer E s = (case timer_fn tm of No_timeout \<Rightarrow> ret () | Init_timeout \<Rightarrow> duck_init_timeout E
      | Health_timeout \<Rightarrow> duck_health_timeout) ?s"
    using d due by (simp add: fire_timer_def duck_runs)
  have sd: "duck ?s = Some (d\<lparr>timer := Some ?tm\<rparr>)" "timer (d\<lparr>timer := Some ?tm\<rparr>) = Some ?tm" "last_tick E ?s = last_tick E s"
    by (simp_all add: last_tick_def)
  show ?thesis
  proof (cases "timer_fn tm")
    case Init_timeout
    then show ?thesis
      using r init_timeout_run [OF sd(1,2), of E] unfolding sd(3)
      by (cases "last_tick E s") (auto simp: after_timeout_def)
  next
    case Health_timeout
    then show ?thesis
      using r health_timeout_run [OF sd(1)] by (auto simp: after_timeout_def)
  qed (use d(3) in simp)
qed

lemma keeps_timer [keeps]: "keeps_clock (fire_timer E)"
  unfolding keeps_clock_def if_returns_def clk_ok_def
proof (intro allI impI)
  fix s x t
  assume "\<exists>d. duck s = Some d \<and> clock_ok d" and run: "fire_timer E s = Some (Ok x, t)"
  then obtain d tm where d: "duck s = Some d" "clock_ok d" "timer d = Some tm" "timer_ok d tm" by (auto simp: clock_ok_def)
  show "\<exists>d. duck t = Some d \<and> clock_ok d"
  proof (cases "armed tm \<and> expires tm \<le> jiffies_at E (clog s)")
    case False
    then have "t = s" using run d by (simp add: fire_timer_def duck_runs split: if_splits)
    with d show ?thesis by blast
  next
    case True
    have fn: "timer_fn tm = Init_timeout \<or> timer_fn tm = Health_timeout" using d(4) by (auto simp: timer_ok_def)
    then obtain d1 tm1 where "duck t = Some d1" "timer d1 = Some tm1" "after_timeout E s d tm d1 tm1"
      "base d1 = base d" "width d1 = width d" "sync_state d1 = sync_state d"
      using fire_timer_run [OF d(1,3), of E] True run by auto
    then show ?thesis using d(2,4) fn by (auto simp: clock_ok_def timer_ok_def after_timeout_def split: if_splits)
  qed
qed

lemma keeps_clear_stats [keeps]: "keeps_clock (duck_clear_stats E)"
  unfolding duck_clear_stats_def split_def by (intro keeps keeps_upd) (auto simp: clock_ok_def timer_ok_def)

lemma keeps_ioctl [keeps]: "keeps_clock (duck_ioctl E i)"
  unfolding duck_ioctl_def by (intro keeps keeps_upd) (auto simp: clock_ok_def timer_ok_def)

lemma keeps_clockD: "keeps_clock m \<Longrightarrow> m s = Some (Ok x, t) \<Longrightarrow> clk_ok s \<Longrightarrow> clk_ok t"
  unfolding keeps_clock_def by (rule if_returnsD)

lemma clk_step_ok:
  assumes "clk_step E s t" and "clk_ok s"
  shows "clk_ok t"
  using assms(1)
proof (cases rule: clk_step.cases)
  case pulse
  then show ?thesis using keeps_clockD [OF keeps_intr] assms(2) by blast
next
  case timeout
  then show ?thesis using keeps_clockD [OF keeps_timer] assms(2) by blast
next
  case (request i r)
  then show ?thesis using keeps_clockD [OF keeps_ioctl] assms(2) by blast
qed

text \<open>A clock with a timer is set up by \<open>duck_init\<close> whatever its state.\<close>

lemma duck_init_run:
  assumes "duck s = Some d" and "timer d = Some tm"
  shows "\<exists>t. duck_init E s = Some (Ok 0, t) \<and> clk_ok t"
proof -
  obtain sec usec where "time_at E (clog s @ [WriteReg 0x60074 0xabcc7712, WriteReg 0x60060 Duck_Cmd_Stop,
      WriteReg 0x60064 Duck_Config_Muxin_Ovrflow]) = (sec, usec)" by fastforce
  with assms have "\<exists>t. duck_init E s = Some (Ok 0, t) \<and> (\<exists>e. duck t = Some ((unit_ready d)\<lparr>bad_pulses := 0, worst_freq := 0, worst_phase := 0,
      pulses := 0, single_misses := 0, longest_miss := 0, sickness := 0, resyncs := 0, stat_start := word_of_int sec,
      stat_end := word_of_int sec, last_time := 0, sync_state := - 1, health := 0,
      timer := Some (tm\<lparr>expires := e, timer_fn := Init_timeout, armed := True\<rparr>)\<rparr>))"
    by (simp add: duck_init_def duck_set_run clear_stats_run duck_runs unit_ready_def) blast
  then show ?thesis by (auto simp: clk_ok_def clock_ok_def timer_ok_def unit_ready_def)
qed

text \<open>
  C19. The watchdog. After \<open>duck_init\<close> of a clock that has a timer, whatever pulses, timeouts and
  requests follow and return: a clock that is not started has its start pending; \<open>health\<close> is 0
  or 1, and while it is 1 a timer is armed; a started clock's timer runs \<open>duck_health_timeout\<close>, or
  still \<open>duck_init_timeout\<close> and is then armed. When the armed timer's time has come, its function
  returns: \<open>duck_health_timeout\<close> takes the health away and leaves the timer disarmed;
  \<open>duck_init_timeout\<close> arms the timer again, in the last tick of a second to run
  \<open>duck_health_timeout\<close> on the clock it has started, before that to run itself. The unit stays where
  and as wide as it was set up, and the stage of synchronisation is one of the five.
\<close>

theorem clock_watchdog:
  assumes "duck s = Some d" and "timer d \<noteq> None" and "duck_init E s = Some (r, s1)" and "clk_reach E s1 t"
  shows "\<exists>d1 tm. duck t = Some d1 \<and> timer d1 = Some tm \<and> base d1 = DUCK_BASE_ADDR \<and> width d1 = 26 \<and>
     sync_state d1 \<in> {- 1, 0, 1, 2, 3} \<and> (health d1 = 0 \<or> health d1 = 1 \<and> armed tm) \<and>
     (is_started d1 = 0 \<and> armed tm \<and> timer_fn tm = Init_timeout \<or>
      is_started d1 = 1 \<and> (timer_fn tm = Health_timeout \<or> timer_fn tm = Init_timeout \<and> armed tm)) \<and>
     (armed tm \<and> expires tm \<le> jiffies_at E (clog t) \<longrightarrow>
       (\<exists>u d2 tm2. fire_timer E t = Some (Ok (), u) \<and> duck u = Some d2 \<and> timer d2 = Some tm2 \<and>
         after_timeout E t d1 tm d2 tm2))"
proof -
  have "clk_ok s1" using duck_init_run [OF assms(1), of _ E] assms(2,3) by auto
  with assms(4) have "clk_ok t" by (induction rule: clk_reach.induct) (auto intro: clk_step_ok)
  then obtain d1 tm where d1: "duck t = Some d1" "clock_ok d1" "timer d1 = Some tm" "timer_ok d1 tm"
    by (auto simp: clk_ok_def clock_ok_def)
  then have "timer_fn tm \<noteq> No_timeout" by (auto simp: timer_ok_def)
  from fire_timer_run [OF d1(1,3) this, of E] show ?thesis
    using d1 by (intro exI [of _ d1] exI [of _ tm]) (auto simp: clock_ok_def timer_ok_def)
qed

lemma round_threshold_64:
  assumes "width d = 26"
  shows "round_threshold d th = Some (push_bit 6 (drop_bit 6 th))" and "uint (push_bit 6 (drop_bit 6 th) :: u32) = uint th div 64 * 64"
proof -
  show "round_threshold d th = Some (push_bit 6 (drop_bit 6 th))" using assms by (simp add: round_threshold_def)
  have "uint (drop_bit 6 th) = uint th div 64" by (simp add: drop_bit_eq_div uint_div_distrib)
  moreover have "uint th div 64 * 64 \<le> uint th" by (simp add: minus_mod_eq_div_mult [symmetric])
  then have "uint th div 64 * 64 < 2 ^ 32" using uint_bounded [of th] by simp
  ultimately show "uint (push_bit 6 (drop_bit 6 th) :: u32) = uint th div 64 * 64"
    unfolding push_bit_eq_mult by (subst uint_mult_small) simp_all
qed

text \<open>
  The threshold of health. Setting it from user space stores it rounded down to a multiple of
  64, the resolution of a clock 26 bits wide, reports the stored value and clears the request; a
  later request reports the same value, and nothing else of the clock has changed.
\<close>

theorem threshold_roundtrip:
  assumes "duck s = Some d" and "width d = 26" and "Set_Duck_Field i = Set_Duck_Health_Thresh" and "Set_Duck_Field j = 0"
  shows "\<exists>t i1 j1. duck_ioctl E i s = Some (Ok (0, i1), t) \<and> duck_ioctl E j t = Some (Ok (0, j1), t) \<and>
     uint (Health_Thresh i1) = uint (Health_Thresh i) div 64 * 64 \<and> Health_Thresh j1 = Health_Thresh i1 \<and>
     Set_Duck_Field i1 = 0 \<and> duck t = Some (d\<lparr>health_threshold := Health_Thresh i1\<rparr>) \<and> clog t = clog s"
  using assms
  by (simp add: duck_ioctl_def duck_runs round_threshold_64 fill_duckinf_def Set_Duck_Health_Thresh_def Set_Duck_Clear_Stats_def)

text \<open>Before the unit is set up its width is 0 and the rounding shifts by 32.\<close>

lemma unset_threshold_faults:
  "duck s = Some d \<Longrightarrow> width d = 0 \<Longrightarrow> Set_Duck_Field i = Set_Duck_Health_Thresh \<Longrightarrow> duck_ioctl E i s = Some (Fault, s)"
  by (simp add: duck_ioctl_def duck_runs round_threshold_def Set_Duck_Health_Thresh_def Set_Duck_Clear_Stats_def)

section \<open>Examples\<close>

definition demo_clock :: nac_duck where
  "demo_clock = zero_duck\<lparr>base := DUCK_BASE_ADDR, dds := 0xabcc7712, pre_dds := 0xabcc7712, sfreq := 67108864, width := 26,
     cfreq := 800000000, last_time := 100 * 0x100000000, sync_state := 3, is_started := 1,
     timer := Some \<lparr>timer_fn = Health_timeout, expires = 0, armed = False\<rparr>\<rparr>"

definition demo_regs :: "u32 \<Rightarrow> u32 \<Rightarrow> u32" where
  "demo_regs sec r = (if r = duck_hread \<or> r = duck_hread1 then sec else 0x1000)"

definition demo_clk_env :: "u32 \<Rightarrow> u32 \<Rightarrow> clk_env" where
  "demo_clk_env conf sec = \<lparr>readl_at = (\<lambda>h r. if r = DUCK_BASE_ADDR + duck_conf then conf else demo_regs sec (r - DUCK_BASE_ADDR)),
     time_at = (\<lambda>_. (200, 700000)), jiffies_at = (\<lambda>h. of_nat (length h)), HZ = 1000, kmalloc_ok = (\<lambda>_ _. True)\<rparr>"

definition demo_clk_st :: clk_st where
  "demo_clk_st = \<lparr>duck = Some demo_clock, clog = []\<rparr>"

lemma demo_shows: "shows_regs (demo_clk_env conf sec) demo_clock conf (demo_regs sec)"
  by (simp add: shows_regs_def demo_clk_env_def demo_clock_def demo_regs_def DUCK_BASE_ADDR_def duck_conf_def duck_hread_def
      duck_lread_def duck_hread1_def duck_lread1_def)

lemmas demo_clk_defs = demo_clk_st_def demo_clock_def demo_regs_def zero_duck_def DUCK_BASE_ADDR_def Duck_Config_Muxin_Ovrflow_def
  Duck_Config_Muxin_RS422_def card_time_def fix_second_def duck_hread_def duck_hread1_def duck_lread_def duck_lread1_def

lemma demo_times:
  "fix_second (card_time (demo_regs 101 duck_hread1) (demo_regs 101 duck_lread1)) (last_time demo_clock) = 0x6500001000"
  "drop_bit 6 (0x6500001000 - last_time demo_clock) = 0x4000040"
  by (simp_all add: demo_clk_defs push_bit_eq_mult drop_bit_eq_div)

theorem tracking_pulse_witness:
  "\<exists>t rate. duck_intr (demo_clk_env 1 101) demo_clk_st = Some (Ok (), t) \<and>
     uint rate = max (uint (dds demo_clock) - 0x400) (min (uint (dds demo_clock) + 0x400) (uint (track_dds demo_clock 0x6500001000 0x4000040))) \<and>
     duck t = Some (demo_clock\<lparr>dds := rate, last_time := 0x6500001000, last_delta := 0x4000040, pulses := 1\<rparr>)"
proof -
  have "duck demo_clk_st = Some demo_clock" "base demo_clock \<noteq> 0" "sync_state demo_clock \<notin> {- 1, 0, 1, 2}" "pre_dds demo_clock \<noteq> 0"
    "(1 :: u32) AND Duck_Config_Muxin_Ovrflow = 0" "(1 :: u32) AND Duck_Config_Muxin_RS422 \<noteq> 0" "(0x4000040 :: u64) \<noteq> 0"
    by (simp_all add: demo_clk_defs)
  from tracking_pulse [OF this(1,2) demo_shows this(5,6,3,4) demo_times(1) [symmetric] demo_times(2) [symmetric] this(7)]
  show ?thesis by (elim exE conjE, intro exI conjI) (assumption | simp add: demo_clk_defs)+
qed

theorem host_resync_witness:
  "\<exists>t. duck_intr (demo_clk_env 4 101) demo_clk_st = Some (Ok (), t) \<and> duck t \<noteq> None"
proof -
  have "duck demo_clk_st = Some demo_clock" "base demo_clock \<noteq> 0" "(4 :: u32) AND Duck_Config_Muxin_Ovrflow \<noteq> 0"
    "time_at (demo_clk_env 4 101) h = (200, 700000)" for h
    by (simp_all add: demo_clk_defs demo_clk_env_def)
  moreover have "0xffffffff < \<bar>s64 (s64 (uint (card_time (demo_regs 101 duck_hread) (demo_regs 101 duck_lread))) - host_time 200 700000)\<bar>"
    by (simp add: demo_clk_defs push_bit_eq_mult host_time_def s64_def)
  ultimately show ?thesis using host_resync [of demo_clk_st demo_clock "demo_clk_env 4 101" 4 "demo_regs 101" 200 700000] demo_shows by auto
qed

theorem reference_pulse_division_witness:
  "\<exists>t. duck_intr (demo_clk_env 1 99) (demo_clk_st\<lparr>duck := Some (demo_clock\<lparr>last_time := 100 * 0x100000000 + 0x1000\<rparr>)\<rparr>) = Some (Fault, t)"
proof -
  let ?d = "demo_clock\<lparr>last_time := 100 * 0x100000000 + 0x1000\<rparr>"
  have "shows_regs (demo_clk_env 1 99) ?d 1 (demo_regs 99)" using demo_shows [of 1 99] by (simp add: shows_regs_def)
  moreover have "base ?d \<noteq> 0" "pre_dds ?d \<noteq> 0" "(1 :: u32) AND Duck_Config_Muxin_Ovrflow = 0" "(1 :: u32) AND Duck_Config_Muxin_RS422 \<noteq> 0"
    by (simp_all add: demo_clk_defs)
  moreover have n: "0x6300001000 = card_time (demo_regs 99 duck_hread1) (demo_regs 99 duck_lread1)"
    by (simp add: demo_clk_defs push_bit_eq_mult)
  moreover have "uint (0x6300001000 :: u64) + 2 ^ 32 < 2 ^ 64" by simp
  moreover have "last_time ?d = 0x6300001000 + 0x100000000 \<and> sync_state ?d \<notin> {- 1, 2}" by (simp add: demo_clk_defs)
  ultimately show ?thesis
    using reference_pulse_division [of "demo_clk_st\<lparr>duck := Some ?d\<rparr>" ?d "demo_clk_env 1 99" 1 "demo_regs 99" "0x6300001000"] by simp
qed

theorem clock_watchdog_witness:
  "\<exists>s1 d1 tm. duck_init (demo_clk_env 4 101) demo_clk_st = Some (Ok 0, s1) \<and> duck s1 = Some d1 \<and> timer d1 = Some tm \<and> width d1 = 26"
proof -
  have d: "duck demo_clk_st = Some demo_clock" "timer demo_clock \<noteq> None" by (simp_all add: demo_clk_defs)
  then obtain s1 where s1: "duck_init (demo_clk_env 4 101) demo_clk_st = Some (Ok 0, s1)"
    using duck_init_run [of demo_clk_st demo_clock] by blast
  from clock_watchdog [OF d s1 clk_reach.start] s1 show ?thesis by blast
qed

definition demo_request :: "u32 \<Rightarrow> duckinf" where
  "demo_request field = duckinf.make 0 0 0 0 0 0 0 0 0 0 1000 0 0 0 0 0 0 0 field"

theorem threshold_roundtrip_witness:
  "\<exists>t i1 j1. duck_ioctl (demo_clk_env 4 101) (demo_request 2) demo_clk_st = Some (Ok (0, i1), t) \<and>
     duck_ioctl (demo_clk_env 4 101) (demo_request 0) t = Some (Ok (0, j1), t) \<and> uint (Health_Thresh i1) = 960"
proof -
  have "duck demo_clk_st = Some demo_clock" "width demo_clock = 26" "Set_Duck_Field (demo_request 2) = Set_Duck_Health_Thresh"
    "Set_Duck_Field (demo_request 0) = 0"
    by (simp_all add: demo_clk_defs demo_request_def duckinf.defs Set_Duck_Health_Thresh_def)
  from threshold_roundtrip [OF this, of "demo_clk_env 4 101"] show ?thesis by (auto simp: demo_request_def duckinf.defs)
qed

end
