(* ===== verification/NacCard.thy ===== *)
theory NacCard
  imports NacMem Duck
begin

text \<open>
  The life of a card in the kernel driver (drv/nac_main.c, the first and the last part): the
  table of units, probing and removing a card, loading and unloading the module. The build is
  the one of \<open>NacMem\<close>; the kernel headers of that time define \<open>HAVE_PCI_SET_MWI\<close>. The kernel is
  a parameter: what a call answers is any function of the history of calls.
\<close>

section \<open>State and kernel\<close>

definition NACMINORBITS :: nat where "NACMINORBITS = 3"

definition NACMINORMASK :: u32 where "NACMINORMASK = push_bit NACMINORBITS 1 - 1"

definition NAC_MAX_BOARDS :: nat where "NAC_MAX_BOARDS = 2 ^ NACMINORBITS"

definition NAC_LOCKS :: nat where "NAC_LOCKS = 32"

definition NAC_MIN_LATENCY :: u8 where "NAC_MIN_LATENCY = 64"

definition NACF_ATTACHED :: u32 where "NACF_ATTACHED = 0x0001"

text \<open>The error numbers of the kernel that the driver returns, negated.\<close>

definition E_IO :: int where "E_IO = 5"

definition E_NXIO :: int where "E_NXIO = 6"

definition E_AGAIN :: int where "E_AGAIN = 11"

definition E_NOMEM :: int where "E_NOMEM = 12"

definition E_FAULT :: int where "E_FAULT = 14"

definition E_BUSY :: int where "E_BUSY = 16"

definition E_NODEV :: int where "E_NODEV = 19"

definition E_INVAL :: int where "E_INVAL = 22"

definition E_NOTTY :: int where "E_NOTTY = 25"

definition E_NOSPC :: int where "E_NOSPC = 28"

lemmas errno_values = E_IO_def E_NXIO_def E_AGAIN_def E_NOMEM_def E_FAULT_def E_BUSY_def E_NODEV_def E_INVAL_def
  E_NOTTY_def E_NOSPC_def

text \<open>The three kinds of device node of a card, in the order of \<open>nac_fops_array\<close>.\<close>

datatype fops = Nac_fops | Nac_mem_fops | Nac_iom_fops

definition nac_fops_array :: "fops list" where
  "nac_fops_array = [Nac_fops, Nac_mem_fops, Nac_iom_fops]"

record pciconfig =
  ba0 :: u32
  ba1 :: u32
  ba2 :: u32
  com :: u32
  lin :: u8
  lat :: u8

record nac_lock =
  lock_pid :: int
  lock_tgid :: int

type_synonym dev = nat

record nac_softc =
  sc_unit :: int
  sc_flags :: u32
  sc_lock_sem :: nat
  sc_device :: "dev option"
  sc_lock :: "nac_lock list"
  sc_mmio :: u64
  sc_mmio_size :: u32
  sc_mmbuf :: u64
  sc_buf :: u64
  sc_buf_size :: u32
  sc_irq :: u32
  sc_monseq :: u32
  sc_pciconfig :: pciconfig
  sc_duck :: "nac_duck option"

text \<open>What \<open>memset(sc, 0, sizeof(nac_softc_t))\<close> leaves, which is also the state at load time.\<close>

definition zero_softc :: nac_softc where
  "zero_softc = \<lparr>sc_unit = 0, sc_flags = 0, sc_lock_sem = 0, sc_device = None,
     sc_lock = replicate NAC_LOCKS \<lparr>lock_pid = 0, lock_tgid = 0\<rparr>, sc_mmio = 0, sc_mmio_size = 0, sc_mmbuf = 0,
     sc_buf = 0, sc_buf_size = 0, sc_irq = 0, sc_monseq = 0,
     sc_pciconfig = \<lparr>ba0 = 0, ba1 = 0, ba2 = 0, com = 0, lin = 0, lat = 0\<rparr>, sc_duck = None\<rparr>"

text \<open>
  What the driver asks of the kernel and of the card, in order, with the answers.
\<close>

datatype drv_event =
    EnableDevice dev int | SetMaster dev | SetMwi dev
  | ReadConfig dev u32 u32 | WriteConfig dev u32 u32
  | RequestRegion u64 u64 | ReleaseRegion u64 u64 | Ioremap u64 u64 u64 | Iounmap u64 | PokeIo u64 u8
  | EnableMsi dev int | RequestIrq u32 nat int | FreeIrq u32 nat
  | CdevAdd nat fops u32 int | CdevDel nat fops
  | AllocChrdev int u32 | UnregisterChrdev u32 | RegisterDriver int | UnregisterDriver
  | CopyToUser u64 nat nat | CopyFromUser u64 nat nat | IoRead u64 nat | IoWrite u64 "u8 list"
  | RemapPfn u64 u64 u64 int

record drv_st =
  nac_array :: "nac_softc list"
  nac_dev :: u32
  driver_data :: "dev \<Rightarrow> nat option"
  mem :: mem_st
  kmem :: "u64 \<Rightarrow> u8" \<comment> \<open>bytes of the kernel's memory\<close>
  umem :: "u64 \<Rightarrow> u8" \<comment> \<open>bytes of the calling process\<close>
  dlog :: "drv_event list"
  klog :: "clk_event list" \<comment> \<open>what the clocks did\<close>

record drv_env =
  pages :: page_env
  clock :: clk_env
  enable_device_at :: "drv_event list \<Rightarrow> dev \<Rightarrow> int"
  config_at :: "drv_event list \<Rightarrow> dev \<Rightarrow> u32 \<Rightarrow> u32"
  region_start :: "dev \<Rightarrow> u64"
  region_len :: "dev \<Rightarrow> u64"
  region_busy_at :: "drv_event list \<Rightarrow> u64 \<Rightarrow> u64 \<Rightarrow> bool"
  ioremap_at :: "drv_event list \<Rightarrow> u64 \<Rightarrow> u64 \<Rightarrow> u64"
  enable_msi_at :: "drv_event list \<Rightarrow> dev \<Rightarrow> int"
  dev_irq_at :: "drv_event list \<Rightarrow> dev \<Rightarrow> u32"
  request_irq_at :: "drv_event list \<Rightarrow> u32 \<Rightarrow> int"
  cdev_add_at :: "drv_event list \<Rightarrow> u32 \<Rightarrow> int"
  alloc_chrdev_at :: "drv_event list \<Rightarrow> int \<times> u32"
  register_driver_at :: "drv_event list \<Rightarrow> int"
  dev_code :: "dev \<Rightarrow> u16"
  access_ok_at :: "drv_event list \<Rightarrow> u64 \<Rightarrow> u32 \<Rightarrow> bool"
  uncopied_at :: "drv_event list \<Rightarrow> u64 \<Rightarrow> nat \<Rightarrow> nat"
  io_byte_at :: "drv_event list \<Rightarrow> u64 \<Rightarrow> u8"
  remap_at :: "drv_event list \<Rightarrow> u64 \<Rightarrow> u64 \<Rightarrow> int"
  high_memory :: u64 \<comment> \<open>its physical address\<close>
  stack_padding_at :: "drv_event list \<Rightarrow> u16" \<comment> \<open>what a local variable holds between its fields\<close>

type_synonym 'a drv = "(drv_st, 'a) prog"

definition log_drv :: "drv_event \<Rightarrow> unit drv" where
  "log_drv e = modify (\<lambda>s. s\<lparr>dlog := dlog s @ [e]\<rparr>)"

text \<open>A call whose answer the kernel decides by the history, and the event it leaves.\<close>

definition ask :: "(drv_event list \<Rightarrow> 'a) \<Rightarrow> ('a \<Rightarrow> drv_event) \<Rightarrow> 'a drv" where
  "ask f ev = bnd (read_st (\<lambda>s. f (dlog s))) (\<lambda>x. bnd (log_drv (ev x)) (\<lambda>_. ret x))"

definition get_sc :: "nat \<Rightarrow> nac_softc drv" where
  "get_sc u = read_st (\<lambda>s. nac_array s ! u)"

definition upd_sc :: "nat \<Rightarrow> (nac_softc \<Rightarrow> nac_softc) \<Rightarrow> unit drv" where
  "upd_sc u f = modify (\<lambda>s. s\<lparr>nac_array := (nac_array s)[u := f (nac_array s ! u)]\<rparr>)"

text \<open>A call into the memory module.\<close>

definition in_mem :: "'a mem \<Rightarrow> 'a drv" where
  "in_mem m = (\<lambda>s. case m (mem s) of None \<Rightarrow> None | Some (r, v) \<Rightarrow> Some (r, s\<lparr>mem := v\<rparr>))"

definition attached :: "nac_softc \<Rightarrow> bool" where
  "attached sc \<longleftrightarrow> sc_flags sc AND NACF_ATTACHED \<noteq> 0"

section \<open>PCI configuration\<close>

definition PCI_COMMAND :: u32 where "PCI_COMMAND = 0x04"

definition PCI_REVISION_ID :: u32 where "PCI_REVISION_ID = 0x08"

definition PCI_LATENCY_TIMER :: u32 where "PCI_LATENCY_TIMER = 0x0d"

definition PCI_BASE_ADDRESS_0 :: u32 where "PCI_BASE_ADDRESS_0 = 0x10"

definition PCI_BASE_ADDRESS_1 :: u32 where "PCI_BASE_ADDRESS_1 = 0x14"

definition PCI_BASE_ADDRESS_2 :: u32 where "PCI_BASE_ADDRESS_2 = 0x18"

definition PCI_INTERRUPT_LINE :: u32 where "PCI_INTERRUPT_LINE = 0x3c"

definition pci_read_config :: "drv_env \<Rightarrow> dev option \<Rightarrow> u32 \<Rightarrow> u32 drv" where
  "pci_read_config E d reg = (case d of None \<Rightarrow> fault
     | Some d \<Rightarrow> ask (\<lambda>h. config_at E h d reg) (ReadConfig d reg))"

definition pci_write_config :: "dev option \<Rightarrow> u32 \<Rightarrow> u32 \<Rightarrow> unit drv" where
  "pci_write_config d reg v = (case d of None \<Rightarrow> fault | Some d \<Rightarrow> log_drv (WriteConfig d reg v))"

definition nac_pciconfig_save :: "drv_env \<Rightarrow> nat \<Rightarrow> unit drv" where
  "nac_pciconfig_save E u =
     bnd (get_sc u) (\<lambda>sc. let d = sc_device sc; put = (\<lambda>f. upd_sc u (\<lambda>sc. sc\<lparr>sc_pciconfig := f (sc_pciconfig sc)\<rparr>)) in
     bnd (pci_read_config E d PCI_BASE_ADDRESS_0) (\<lambda>v. bnd (put (\<lambda>c. c\<lparr>ba0 := v\<rparr>)) (\<lambda>_.
     bnd (pci_read_config E d PCI_BASE_ADDRESS_1) (\<lambda>v. bnd (put (\<lambda>c. c\<lparr>ba1 := v\<rparr>)) (\<lambda>_.
     bnd (pci_read_config E d PCI_BASE_ADDRESS_2) (\<lambda>v. bnd (put (\<lambda>c. c\<lparr>ba2 := v\<rparr>)) (\<lambda>_.
     bnd (pci_read_config E d PCI_COMMAND) (\<lambda>v. bnd (put (\<lambda>c. c\<lparr>com := v\<rparr>)) (\<lambda>_.
     bnd (pci_read_config E d PCI_INTERRUPT_LINE) (\<lambda>v. bnd (put (\<lambda>c. c\<lparr>lin := ucast v\<rparr>)) (\<lambda>_.
     bnd (pci_read_config E d PCI_LATENCY_TIMER) (\<lambda>v. put (\<lambda>c. c\<lparr>lat := ucast v\<rparr>)))))))))))))"

definition nac_pciconfig_restore :: "nat \<Rightarrow> int drv" where
  "nac_pciconfig_restore u =
     bnd (get_sc u) (\<lambda>sc. let d = sc_device sc; c = sc_pciconfig sc in
     bnd (steps [pci_write_config d PCI_BASE_ADDRESS_0 (ba0 c), pci_write_config d PCI_BASE_ADDRESS_1 (ba1 c),
       pci_write_config d PCI_BASE_ADDRESS_2 (ba2 c), pci_write_config d PCI_COMMAND (com c),
       pci_write_config d PCI_INTERRUPT_LINE (ucast (lin c)), pci_write_config d PCI_LATENCY_TIMER (ucast (lat c))]) (\<lambda>_.
     ret 0))"

section \<open>Probing a card\<close>

definition nac_find_unattached :: "int drv" where
  "nac_find_unattached = bnd (read_st (\<lambda>s. first_slot (\<lambda>c. \<not> attached (nac_array s ! c)) NAC_MAX_BOARDS)) (\<lambda>c.
     ret (if c < NAC_MAX_BOARDS then int c else - 1))"

definition attach_unit :: "dev \<Rightarrow> nat \<Rightarrow> unit drv" where
  "attach_unit d u = steps [
     upd_sc u (\<lambda>sc. sc\<lparr>sc_unit := int u, sc_flags := sc_flags sc OR NACF_ATTACHED, sc_device := Some d\<rparr>),
     modify (\<lambda>s. s\<lparr>driver_data := (driver_data s)(d \<mapsto> u)\<rparr>),
     upd_sc u (\<lambda>sc. sc\<lparr>sc_lock := map (\<lambda>l. l\<lparr>lock_pid := 0, lock_tgid := 0\<rparr>) (sc_lock sc), sc_lock_sem := 1\<rparr>)]"

definition set_latency :: "drv_env \<Rightarrow> dev \<Rightarrow> unit drv" where
  "set_latency E d = bnd (pci_read_config E (Some d) PCI_LATENCY_TIMER) (\<lambda>v.
     if (ucast v :: u8) < NAC_MIN_LATENCY then pci_write_config (Some d) PCI_LATENCY_TIMER 64 else ret ())"

text \<open>
  The register window. The size is kept in 32 bits; the answer of \<open>ioremap_nocache\<close> is not
  checked before the first store, which faults on a null pointer or beyond the window.
\<close>

definition map_window :: "drv_env \<Rightarrow> nat \<Rightarrow> u64 \<Rightarrow> u32 \<Rightarrow> unit drv" where
  "map_window E u iom iom_size =
     bnd (log_drv (RequestRegion iom (ucast iom_size))) (\<lambda>_.
     bnd (ask (\<lambda>h. ioremap_at E h iom (ucast iom_size)) (Ioremap iom (ucast iom_size))) (\<lambda>v.
     bnd (upd_sc u (\<lambda>sc. sc\<lparr>sc_mmio := v, sc_mmio_size := iom_size\<rparr>)) (\<lambda>_.
     if v = 0 \<or> \<not> 0x900FC < iom_size then fault else log_drv (PokeIo (v + 0x900FC) 1))))"

text \<open>The buffer in memory; the answer tells whether there is one.\<close>

definition claim_buffer :: "drv_env \<Rightarrow> nat \<Rightarrow> bool drv" where
  "claim_buffer E u =
     bnd (in_mem (nac_mem_malloc 0)) (\<lambda>(v, hole_size).
     bnd (upd_sc u (\<lambda>sc. sc\<lparr>sc_mmbuf := v\<rparr>)) (\<lambda>_.
     if v = 0 then ret False
     else bnd (upd_sc u (\<lambda>sc. sc\<lparr>sc_buf := virt_to_phys (pages E) v, sc_buf_size := ucast hole_size\<rparr>)) (\<lambda>_. ret True)))"

definition claim_irq :: "drv_env \<Rightarrow> dev \<Rightarrow> nat \<Rightarrow> int drv" where
  "claim_irq E d u =
     bnd (read_st (\<lambda>s. dev_irq_at E (dlog s) d)) (\<lambda>irq.
     if irq = 0 then ret (- E_IO)
     else bnd (ask (\<lambda>h. request_irq_at E h irq) (RequestIrq irq u)) (\<lambda>error.
       if error < 0 then ret error
       else bnd (read_st (\<lambda>s. dev_irq_at E (dlog s) d)) (\<lambda>irq.
         bnd (upd_sc u (\<lambda>sc. sc\<lparr>sc_irq := irq\<rparr>)) (\<lambda>_. ret 0))))"

text \<open>The number of a device node: \<open>NACMINOR * NAC_MAX_BOARDS + unit\<close>.\<close>

definition node_number :: "nat \<Rightarrow> nat \<Rightarrow> u32" where
  "node_number minor u = of_nat (minor * NAC_MAX_BOARDS + u)"

definition add_nodes :: "drv_env \<Rightarrow> nat \<Rightarrow> unit drv" where
  "add_nodes E u = for_each [0..<3] (\<lambda>minor. bnd (read_st nac_dev) (\<lambda>nd. let no = nd OR node_number minor u in
     bnd (ask (\<lambda>h. cdev_add_at E h no) (CdevAdd u (nac_fops_array ! minor) no)) (\<lambda>_. ret ())))"

text \<open>The last part of a probe, which cannot fail any more.\<close>

definition finish_probe :: "drv_env \<Rightarrow> dev \<Rightarrow> nat \<Rightarrow> int drv" where
  "finish_probe E d u =
     bnd (nac_pciconfig_save E u) (\<lambda>_.
     bnd (pci_read_config E (Some d) PCI_REVISION_ID) (\<lambda>_.
     bnd (add_nodes E u) (\<lambda>_. ret 0)))"

definition claim_resources :: "drv_env \<Rightarrow> dev \<Rightarrow> nat \<Rightarrow> int drv" where
  "claim_resources E d u =
     bnd (claim_buffer E u) (\<lambda>ok.
     if \<not> ok then ret (- E_NOMEM)
     else bnd (ask (\<lambda>h. enable_msi_at E h d) (EnableMsi d)) (\<lambda>error.
     if error < 0 then ret error
     else bnd (claim_irq E d u) (\<lambda>error.
     if error < 0 then ret error
     else finish_probe E d u)))"

definition nac_init_one :: "drv_env \<Rightarrow> dev \<Rightarrow> int drv" where
  "nac_init_one E d =
     bnd nac_find_unattached (\<lambda>unit.
     if unit < 0 then ret (- E_NOMEM)
     else let u = nat unit; iom = region_start E d; iom_size = ucast (region_len E d) :: u32 in
     bnd (attach_unit d u) (\<lambda>_.
     bnd (ask (\<lambda>h. enable_device_at E h d) (EnableDevice d)) (\<lambda>rc.
     if rc \<noteq> 0 then ret rc
     else bnd (steps [log_drv (SetMaster d), set_latency E d, log_drv (SetMwi d)]) (\<lambda>_.
     bnd (read_st (\<lambda>s. region_busy_at E (dlog s) iom (ucast iom_size))) (\<lambda>busy.
     if busy then ret (- E_BUSY)
     else bnd (map_window E u iom iom_size) (\<lambda>_. claim_resources E d u))))))"

section \<open>Removing a card\<close>

definition nac_remove_one :: "drv_env \<Rightarrow> dev \<Rightarrow> unit drv" where
  "nac_remove_one E d =
     bnd (read_st (\<lambda>s. driver_data s d)) (\<lambda>p. case p of None \<Rightarrow> ret ()
     | Some u \<Rightarrow>
       bnd (for_each nac_fops_array (\<lambda>f. log_drv (CdevDel u f))) (\<lambda>_.
       bnd (get_sc u) (\<lambda>sc.
       bnd (if sc_irq sc \<noteq> 0 then log_drv (FreeIrq (sc_irq sc) u) else ret ()) (\<lambda>_.
       bnd (if sc_mmbuf sc \<noteq> 0 then in_mem (nac_mem_free (sc_mmbuf sc)) else ret ()) (\<lambda>_.
       bnd (if sc_mmio sc \<noteq> 0
         then bnd (log_drv (Iounmap (sc_mmio sc))) (\<lambda>_. log_drv (ReleaseRegion (region_start E d) (region_len E d)))
         else ret ()) (\<lambda>_.
       upd_sc u (\<lambda>_. zero_softc)))))))"

section \<open>The module\<close>

text \<open>The calls of probe and remove that registering and unregistering cause are steps of their own.\<close>

definition nac_cleanup :: "unit drv" where
  "nac_cleanup =
     bnd (read_st nac_dev) (\<lambda>nd.
     bnd (if nd \<noteq> 0 then log_drv (UnregisterChrdev nd) else ret ()) (\<lambda>_. log_drv UnregisterDriver))"

definition nac_init :: "drv_env \<Rightarrow> int drv" where
  "nac_init E =
     bnd (ask (\<lambda>h. alloc_chrdev_at E h) (\<lambda>(r, nd). AllocChrdev r nd)) (\<lambda>(r, nd).
     if r < 0 then bnd nac_cleanup (\<lambda>_. ret 0)
     else bnd (modify (\<lambda>s. s\<lparr>nac_dev := nd\<rparr>)) (\<lambda>_.
       ask (\<lambda>h. register_driver_at E h) RegisterDriver))"

text \<open>The state when the module is loaded after the memory module.\<close>

definition drv_start :: "mem_st \<Rightarrow> drv_st" where
  "drv_start m = \<lparr>nac_array = replicate NAC_MAX_BOARDS zero_softc, nac_dev = 0, driver_data = Map.empty, mem = m,
     kmem = \<lambda>_. 0, umem = \<lambda>_. 0, dlog = [], klog = []\<rparr>"

section \<open>Execution\<close>

text \<open>Rules for boolean results, which the simplifier cannot instantiate.\<close>

lemma bnd_bool [simp]:
  "bnd (read_st f) g s = g (f s) s"
  "m s = Some (Ok True, t) \<Longrightarrow> bnd m k s = k True t" "m s = Some (Ok False, t) \<Longrightarrow> bnd m k s = k False t"
  by simp_all

lemma log_drv_run: "log_drv e s = Some (Ok (), s\<lparr>dlog := dlog s @ [e]\<rparr>)"
  by (simp add: log_drv_def)

lemma ask_run: "ask f ev s = Some (Ok (f (dlog s)), s\<lparr>dlog := dlog s @ [ev (f (dlog s))]\<rparr>)"
  by (simp add: ask_def log_drv_def)

lemma get_sc_run: "get_sc u s = Some (Ok (nac_array s ! u), s)"
  by (simp add: get_sc_def)

lemma upd_sc_run: "upd_sc u f s = Some (Ok (), s\<lparr>nac_array := (nac_array s)[u := f (nac_array s ! u)]\<rparr>)"
  by (simp add: upd_sc_def)

lemma read_config_run:
  "pci_read_config E (Some d) r s = Some (Ok (config_at E (dlog s) d r), s\<lparr>dlog := dlog s @ [ReadConfig d r (config_at E (dlog s) d r)]\<rparr>)"
  by (simp add: pci_read_config_def ask_run)

lemma write_config_run: "pci_write_config (Some d) r v s = Some (Ok (), s\<lparr>dlog := dlog s @ [WriteConfig d r v]\<rparr>)"
  by (simp add: pci_write_config_def log_drv_run)

lemmas drv_runs = log_drv_run ask_run get_sc_run upd_sc_run read_config_run write_config_run

lemma attach_unit_run:
  assumes "u < length (nac_array s)"
  shows "attach_unit d u s = Some (Ok (), s\<lparr>driver_data := (driver_data s)(d \<mapsto> u),
     nac_array := (nac_array s)[u := (nac_array s ! u)\<lparr>sc_unit := int u, sc_flags := sc_flags (nac_array s ! u) OR NACF_ATTACHED,
       sc_device := Some d, sc_lock := map (\<lambda>l. l\<lparr>lock_pid := 0, lock_tgid := 0\<rparr>) (sc_lock (nac_array s ! u)), sc_lock_sem := 1\<rparr>]\<rparr>)"
  using assms by (simp add: attach_unit_def drv_runs)

lemma set_latency_run:
  "\<exists>L. set_latency E d s = Some (Ok (), s\<lparr>dlog := dlog s @ L\<rparr>) \<and>
     (\<exists>v. L = [ReadConfig d PCI_LATENCY_TIMER v] \<or> L = [ReadConfig d PCI_LATENCY_TIMER v, WriteConfig d PCI_LATENCY_TIMER 64])"
  by (auto simp: set_latency_def drv_runs)

lemma map_window_Ok:
  assumes "map_window E u iom z s = Some (Ok (), t)" and "u < length (nac_array s)"
  obtains v where "v \<noteq> 0" and "0x900FC < z" and "t = s\<lparr>nac_array := (nac_array s)[u := (nac_array s ! u)\<lparr>sc_mmio := v, sc_mmio_size := z\<rparr>],
     dlog := dlog s @ [RequestRegion iom (ucast z), Ioremap iom (ucast z) v, PokeIo (v + 0x900FC) 1]\<rparr>"
  using assms by (auto simp: map_window_def drv_runs split: if_splits)

lemma claim_buffer_Ok:
  assumes "claim_buffer E u s = Some (Ok ok, t)" and "u < length (nac_array s)"
  obtains v z m where "nac_mem_malloc 0 (mem s) = Some (Ok (v, z), m)" and "ok \<longleftrightarrow> v \<noteq> 0"
    and "t = s\<lparr>mem := m, nac_array := (nac_array s)[u := if v = 0 then (nac_array s ! u)\<lparr>sc_mmbuf := 0\<rparr>
      else (nac_array s ! u)\<lparr>sc_mmbuf := v, sc_buf := virt_to_phys (pages E) v, sc_buf_size := ucast z\<rparr>]\<rparr>"
  using assms by (auto simp: claim_buffer_def in_mem_def drv_runs bnd_Ok_iff split: if_splits option.splits prod.splits)

lemma claim_irq_Ok:
  assumes "claim_irq E d u s = Some (Ok r, t)" and "u < length (nac_array s)"
  obtains (no_irq) "dev_irq_at E (dlog s) d = 0" "r = - E_IO" "t = s"
    | (refused) q where "q < 0" "r = q" "t = s\<lparr>dlog := dlog s @ [RequestIrq (dev_irq_at E (dlog s) d) u q]\<rparr>"
    | (granted) q where "\<not> q < 0" "r = 0" "dev_irq_at E (dlog s) d \<noteq> 0"
        "t = s\<lparr>nac_array := (nac_array s)[u := (nac_array s ! u)\<lparr>sc_irq := dev_irq_at E (dlog s @ [RequestIrq (dev_irq_at E (dlog s) d) u q]) d\<rparr>],
           dlog := dlog s @ [RequestIrq (dev_irq_at E (dlog s) d) u q]\<rparr>"
  using assms by (auto simp: claim_irq_def drv_runs split: if_splits)

lemma save_run:
  assumes "sc_device (nac_array s ! u) = Some d" and "u < length (nac_array s)"
  shows "\<exists>c v0 v1 v2 v3 v4 v5. nac_pciconfig_save E u s = Some (Ok (),
     s\<lparr>dlog := dlog s @ [ReadConfig d PCI_BASE_ADDRESS_0 v0, ReadConfig d PCI_BASE_ADDRESS_1 v1, ReadConfig d PCI_BASE_ADDRESS_2 v2,
         ReadConfig d PCI_COMMAND v3, ReadConfig d PCI_INTERRUPT_LINE v4, ReadConfig d PCI_LATENCY_TIMER v5],
       nac_array := (nac_array s)[u := (nac_array s ! u)\<lparr>sc_pciconfig := c\<rparr>]\<rparr>)"
  using assms by (simp add: nac_pciconfig_save_def drv_runs Let_def) (intro exI, rule refl)

lemma add_nodes_run:
  "\<exists>r0 r1 r2. add_nodes E u s = Some (Ok (), s\<lparr>dlog := dlog s @
     [CdevAdd u Nac_fops (nac_dev s OR node_number 0 u) r0, CdevAdd u Nac_mem_fops (nac_dev s OR node_number 1 u) r1,
      CdevAdd u Nac_iom_fops (nac_dev s OR node_number 2 u) r2]\<rparr>)"
proof -
  have "[0..<3] = [0, 1, 2::nat]" by (simp add: upt_rec)
  then show ?thesis
    unfolding add_nodes_def by (simp add: drv_runs Let_def nac_fops_array_def del: One_nat_def) (intro exI, rule refl)
qed

section \<open>What a probe does\<close>

text \<open>The device keeps its interrupt while the driver requests it.\<close>

definition irq_stable :: "drv_env \<Rightarrow> bool" where
  "irq_stable E \<longleftrightarrow> (\<forall>h i u p d. dev_irq_at E (h @ [RequestIrq i u p]) d = dev_irq_at E h d)"

text \<open>
  The unit \<open>sc1\<close> after a probe, and what the memory module was asked: nothing yet, or for a
  buffer, which the unit then has.
\<close>

definition taken :: "dev \<Rightarrow> nat \<Rightarrow> nac_softc \<Rightarrow> nac_softc \<Rightarrow> bool" where
  "taken d u sc sc1 \<longleftrightarrow> sc_unit sc1 = int u \<and> sc_flags sc1 = sc_flags sc OR NACF_ATTACHED \<and> sc_device sc1 = Some d \<and> sc_duck sc1 = sc_duck sc \<and>
     (sc_mmio sc1 = sc_mmio sc \<and> sc_mmio_size sc1 = sc_mmio_size sc \<or> sc_mmio sc1 \<noteq> 0)"

definition no_buffer :: "nac_softc \<Rightarrow> nac_softc \<Rightarrow> bool" where
  "no_buffer sc sc1 \<longleftrightarrow> sc_mmbuf sc1 = sc_mmbuf sc \<and> sc_buf sc1 = sc_buf sc \<and> sc_buf_size sc1 = sc_buf_size sc"

definition buffer_asked :: "drv_env \<Rightarrow> mem_st \<Rightarrow> mem_st \<Rightarrow> nac_softc \<Rightarrow> nac_softc \<Rightarrow> bool" where
  "buffer_asked E m m1 sc sc1 \<longleftrightarrow> (\<exists>z. nac_mem_malloc 0 m = Some (Ok (sc_mmbuf sc1, z), m1) \<and>
     (if sc_mmbuf sc1 = 0 then sc_buf sc1 = sc_buf sc \<and> sc_buf_size sc1 = sc_buf_size sc
      else sc_buf sc1 = virt_to_phys (pages E) (sc_mmbuf sc1) \<and> sc_buf_size sc1 = ucast z))"

text \<open>The conversation of a probe that succeeds.\<close>

definition finish_log :: "dev \<Rightarrow> nat \<Rightarrow> u32 \<Rightarrow> drv_event list \<Rightarrow> bool" where
  "finish_log d u nd L \<longleftrightarrow> (\<exists>a0 a1 a2 a3 a4 a5 rev r0 r1 r2. L = [
        ReadConfig d PCI_BASE_ADDRESS_0 a0, ReadConfig d PCI_BASE_ADDRESS_1 a1, ReadConfig d PCI_BASE_ADDRESS_2 a2,
        ReadConfig d PCI_COMMAND a3, ReadConfig d PCI_INTERRUPT_LINE a4, ReadConfig d PCI_LATENCY_TIMER a5,
        ReadConfig d PCI_REVISION_ID rev, CdevAdd u Nac_fops (nd OR node_number 0 u) r0,
        CdevAdd u Nac_mem_fops (nd OR node_number 1 u) r1, CdevAdd u Nac_iom_fops (nd OR node_number 2 u) r2])"

definition rest_log :: "dev \<Rightarrow> nat \<Rightarrow> u32 \<Rightarrow> u32 \<Rightarrow> drv_event list \<Rightarrow> bool" where
  "rest_log d u nd irq L \<longleftrightarrow> (\<exists>q p K. L = EnableMsi d q # RequestIrq irq u p # K \<and> finish_log d u nd K \<and> \<not> q < 0 \<and> \<not> p < 0)"

definition start_log :: "dev \<Rightarrow> drv_event list \<Rightarrow> bool" where
  "start_log d L \<longleftrightarrow> (\<exists>v. L = [SetMaster d, ReadConfig d PCI_LATENCY_TIMER v, SetMwi d] \<or>
     L = [SetMaster d, ReadConfig d PCI_LATENCY_TIMER v, WriteConfig d PCI_LATENCY_TIMER 64, SetMwi d])"

definition probe_log :: "drv_env \<Rightarrow> dev \<Rightarrow> nat \<Rightarrow> u32 \<Rightarrow> u64 \<Rightarrow> u32 \<Rightarrow> drv_event list \<Rightarrow> bool" where
  "probe_log E d u nd v irq L \<longleftrightarrow> (\<exists>A B. L = EnableDevice d 0 # A @
       [RequestRegion (region_start E d) (ucast (ucast (region_len E d) :: u32)),
        Ioremap (region_start E d) (ucast (ucast (region_len E d) :: u32)) v, PokeIo (v + 0x900FC) 1] @ B \<and>
     start_log d A \<and> rest_log d u nd irq B)"

definition unit_set_up :: "drv_env \<Rightarrow> dev \<Rightarrow> nat \<Rightarrow> u32 \<Rightarrow> nac_softc \<Rightarrow> drv_event list \<Rightarrow> bool" where
  "unit_set_up E d u nd sc L \<longleftrightarrow> sc_mmio sc \<noteq> 0 \<and> sc_mmio_size sc = ucast (region_len E d) \<and> sc_mmbuf sc \<noteq> 0 \<and>
     (\<exists>irq. irq \<noteq> 0 \<and> (irq_stable E \<longrightarrow> sc_irq sc = irq) \<and> probe_log E d u nd (sc_mmio sc) irq L)"

definition probed :: "drv_env \<Rightarrow> dev \<Rightarrow> nat \<Rightarrow> drv_st \<Rightarrow> int \<Rightarrow> drv_st \<Rightarrow> bool" where
  "probed E d u s r t \<longleftrightarrow> (\<exists>sc m L. t = s\<lparr>driver_data := (driver_data s)(d \<mapsto> u), mem := m,
       nac_array := (nac_array s)[u := sc], dlog := dlog s @ L\<rparr> \<and> taken d u (nac_array s ! u) sc \<and>
     (m = mem s \<and> no_buffer (nac_array s ! u) sc \<and> r \<noteq> 0 \<or> buffer_asked E (mem s) m (nac_array s ! u) sc) \<and>
     (r = 0 \<longrightarrow> unit_set_up E d u (nac_dev s) sc L))"

lemma probedI:
  assumes "t = s\<lparr>driver_data := (driver_data s)(d \<mapsto> u), mem := m, nac_array := (nac_array s)[u := sc], dlog := dlog s @ L\<rparr>"
    and "taken d u (nac_array s ! u) sc"
    and "m = mem s \<and> no_buffer (nac_array s ! u) sc \<and> r \<noteq> 0 \<or> buffer_asked E (mem s) m (nac_array s ! u) sc"
    and "r = 0 \<Longrightarrow> unit_set_up E d u (nac_dev s) sc L"
  shows "probed E d u s r t"
  using assms unfolding probed_def by blast

text \<open>The stages from the back.\<close>

lemma finish_run:
  assumes "sc_device (nac_array s ! u) = Some d" and "u < length (nac_array s)"
  shows "\<exists>c L. finish_probe E d u s = Some (Ok 0, s\<lparr>dlog := dlog s @ L,
       nac_array := (nac_array s)[u := (nac_array s ! u)\<lparr>sc_pciconfig := c\<rparr>]\<rparr>) \<and> finish_log d u (nac_dev s) L"
proof -
  obtain c a0 a1 a2 a3 a4 a5 where sv: "nac_pciconfig_save E u s = Some (Ok (), s\<lparr>dlog := dlog s @
      [ReadConfig d PCI_BASE_ADDRESS_0 a0, ReadConfig d PCI_BASE_ADDRESS_1 a1, ReadConfig d PCI_BASE_ADDRESS_2 a2,
       ReadConfig d PCI_COMMAND a3, ReadConfig d PCI_INTERRUPT_LINE a4, ReadConfig d PCI_LATENCY_TIMER a5],
      nac_array := (nac_array s)[u := (nac_array s ! u)\<lparr>sc_pciconfig := c\<rparr>]\<rparr>)" (is "_ = Some (Ok (), ?s1)")
    using save_run [OF assms, of E] by blast
  let ?rev = "config_at E (dlog ?s1) d PCI_REVISION_ID"
  let ?s2 = "?s1\<lparr>dlog := dlog ?s1 @ [ReadConfig d PCI_REVISION_ID ?rev]\<rparr>"
  obtain r0 r1 r2 where nodes: "add_nodes E u ?s2 = Some (Ok (), ?s2\<lparr>dlog := dlog ?s2 @
      [CdevAdd u Nac_fops (nac_dev ?s2 OR node_number 0 u) r0, CdevAdd u Nac_mem_fops (nac_dev ?s2 OR node_number 1 u) r1,
       CdevAdd u Nac_iom_fops (nac_dev ?s2 OR node_number 2 u) r2]\<rparr>)"
    using add_nodes_run by blast
  have "finish_probe E d u s = Some (Ok 0, ?s2\<lparr>dlog := dlog ?s2 @
      [CdevAdd u Nac_fops (nac_dev ?s2 OR node_number 0 u) r0, CdevAdd u Nac_mem_fops (nac_dev ?s2 OR node_number 1 u) r1,
       CdevAdd u Nac_iom_fops (nac_dev ?s2 OR node_number 2 u) r2]\<rparr>)"
    unfolding finish_probe_def by (rule bnd_step, rule sv, rule bnd_step, rule read_config_run, rule bnd_step, rule nodes, rule ret_apply)
  moreover define K where "K = [
      ReadConfig d PCI_BASE_ADDRESS_0 a0, ReadConfig d PCI_BASE_ADDRESS_1 a1, ReadConfig d PCI_BASE_ADDRESS_2 a2,
      ReadConfig d PCI_COMMAND a3, ReadConfig d PCI_INTERRUPT_LINE a4, ReadConfig d PCI_LATENCY_TIMER a5,
      ReadConfig d PCI_REVISION_ID ?rev, CdevAdd u Nac_fops (nac_dev s OR node_number 0 u) r0,
      CdevAdd u Nac_mem_fops (nac_dev s OR node_number 1 u) r1, CdevAdd u Nac_iom_fops (nac_dev s OR node_number 2 u) r2]"
  moreover have "finish_log d u (nac_dev s) K" unfolding finish_log_def K_def by blast
  ultimately show ?thesis by (intro exI [of _ c] exI [of _ K]) (simp add: K_def)
qed

lemma claim_resources_Ok:
  assumes "claim_resources E d u s = Some (Ok r, t)" and "u < length (nac_array s)" and "sc_device (nac_array s ! u) = Some d"
  shows "\<exists>sc m L. t = s\<lparr>mem := m, nac_array := (nac_array s)[u := sc], dlog := dlog s @ L\<rparr> \<and>
     sc_unit sc = sc_unit (nac_array s ! u) \<and> sc_flags sc = sc_flags (nac_array s ! u) \<and> sc_device sc = Some d \<and>
     sc_duck sc = sc_duck (nac_array s ! u) \<and> sc_mmio sc = sc_mmio (nac_array s ! u) \<and> sc_mmio_size sc = sc_mmio_size (nac_array s ! u) \<and>
     buffer_asked E (mem s) m (nac_array s ! u) sc \<and>
     (r = 0 \<longrightarrow> sc_mmbuf sc \<noteq> 0 \<and> (\<exists>irq. irq \<noteq> 0 \<and> (irq_stable E \<longrightarrow> sc_irq sc = irq) \<and> rest_log d u (nac_dev s) irq L))"
    (is "?G t")
proof -
  define sc0 where "sc0 = nac_array s ! u"
  from assms(1) obtain ok s1 where ok: "claim_buffer E u s = Some (Ok ok, s1)"
    and rest: "(if \<not> ok then ret (- E_NOMEM) else bnd (ask (\<lambda>h. enable_msi_at E h d) (EnableMsi d)) (\<lambda>error.
     if error < 0 then ret error else bnd (claim_irq E d u) (\<lambda>error. if error < 0 then ret error else finish_probe E d u))) s1 = Some (Ok r, t)"
    unfolding claim_resources_def by (rule bnd_OkE)
  obtain v z m where b: "nac_mem_malloc 0 (mem s) = Some (Ok (v, z), m)" "ok \<longleftrightarrow> v \<noteq> 0"
    and s1_eq: "s1 = s\<lparr>mem := m, nac_array := (nac_array s)[u := if v = 0 then sc0\<lparr>sc_mmbuf := 0\<rparr>
      else sc0\<lparr>sc_mmbuf := v, sc_buf := virt_to_phys (pages E) v, sc_buf_size := ucast z\<rparr>]\<rparr>"
    using claim_buffer_Ok [OF ok assms(2)] unfolding sc0_def by metis
  define sc1 where "sc1 = (if v = 0 then sc0\<lparr>sc_mmbuf := 0\<rparr>
      else sc0\<lparr>sc_mmbuf := v, sc_buf := virt_to_phys (pages E) v, sc_buf_size := ucast z\<rparr>)"
  note s1 = s1_eq [folded sc1_def]
  have asked: "buffer_asked E (mem s) m sc0 (f sc1)" if "\<And>sc. sc_mmbuf (f sc) = sc_mmbuf sc \<and> sc_buf (f sc) = sc_buf sc \<and> sc_buf_size (f sc) = sc_buf_size sc" for f
    using b(1) that by (auto simp: buffer_asked_def sc1_def)
  have frame: "sc_unit sc1 = sc_unit sc0" "sc_flags sc1 = sc_flags sc0" "sc_device sc1 = Some d" "sc_duck sc1 = sc_duck sc0"
    "sc_mmio sc1 = sc_mmio sc0" "sc_mmio_size sc1 = sc_mmio_size sc0" "sc_mmbuf sc1 = v"
    using assms(3) by (simp_all add: sc1_def sc0_def)
  have early: "?G t" if "t = s1\<lparr>dlog := dlog s @ L\<rparr>" "r \<noteq> 0" for L
    using that asked [of "\<lambda>x. x"] frame unfolding s1 sc0_def by (intro exI [of _ sc1] exI [of _ m] exI [of _ L]) simp
  show ?thesis
  proof (cases ok)
    case False
    then have "t = s1\<lparr>dlog := dlog s @ []\<rparr>" "r \<noteq> 0" using rest by (auto simp: s1 errno_values)
    then show ?thesis by (rule early)
  next
    case True
    define q where "q = enable_msi_at E (dlog s) d"
    let ?s2 = "s1\<lparr>dlog := dlog s @ [EnableMsi d q]\<rparr>"
    have msi: "ask (\<lambda>h. enable_msi_at E h d) (EnableMsi d) s1 = Some (Ok q, ?s2)" by (simp add: ask_run s1 q_def)
    show ?thesis
    proof (cases "q < 0")
      case True
      then have "t = ?s2" "r \<noteq> 0" using rest msi \<open>ok\<close> by auto
      then show ?thesis by (rule early)
    next
      case False
      with rest \<open>ok\<close> msi obtain r1 s3 where irq: "claim_irq E d u ?s2 = Some (Ok r1, s3)"
        and rest1: "(if r1 < 0 then ret r1 else finish_probe E d u) s3 = Some (Ok r, t)"
        by (auto elim: bnd_OkE)
      have len: "u < length (nac_array ?s2)" using assms(2) by (simp add: s1)
      show ?thesis using irq len
      proof (cases rule: claim_irq_Ok)
        case no_irq
        then have "t = ?s2" "r \<noteq> 0" using rest1 by (auto simp: errno_values)
        then show ?thesis by (rule early)
      next
        case (refused p)
        then have "t = s1\<lparr>dlog := dlog s @ [EnableMsi d q, RequestIrq (dev_irq_at E (dlog ?s2) d) u p]\<rparr>" "r \<noteq> 0"
          using rest1 by auto
        then show ?thesis by (rule early)
      next
        case (granted p)
        let ?i = "dev_irq_at E (dlog ?s2) d"
        define sc3 where "sc3 = sc1\<lparr>sc_irq := dev_irq_at E (dlog ?s2 @ [RequestIrq ?i u p]) d\<rparr>"
        have s3: "s3 = s\<lparr>mem := m, nac_array := (nac_array s)[u := sc3], dlog := dlog s @ [EnableMsi d q, RequestIrq ?i u p]\<rparr>"
          using granted(4) assms(2) by (simp add: sc3_def s1)
        obtain c K where fin: "finish_probe E d u s3 = Some (Ok 0, s3\<lparr>dlog := dlog s3 @ K,
            nac_array := (nac_array s3)[u := (nac_array s3 ! u)\<lparr>sc_pciconfig := c\<rparr>]\<rparr>)" "finish_log d u (nac_dev s) K"
          using finish_run [of s3 u d E] assms(2) frame(3) by (auto simp: s3 sc3_def)
        let ?sc = "sc3\<lparr>sc_pciconfig := c\<rparr>" and ?L = "[EnableMsi d q, RequestIrq ?i u p] @ K"
        have "r = 0" "t = s\<lparr>mem := m, nac_array := (nac_array s)[u := ?sc], dlog := dlog s @ ?L\<rparr>"
          using rest1 granted(2) fin(1) assms(2) by (simp_all add: s3)
        moreover have "rest_log d u (nac_dev s) ?i ?L" unfolding rest_log_def using False granted(1) fin(2) by simp
        moreover have "irq_stable E \<longrightarrow> dev_irq_at E (dlog ?s2 @ [RequestIrq ?i u p]) d = ?i" unfolding irq_stable_def by blast
        then have "irq_stable E \<longrightarrow> sc_irq ?sc = ?i" by (simp add: sc3_def)
        moreover have "buffer_asked E (mem s) m sc0 ?sc" unfolding sc3_def by (rule asked) simp
        ultimately show ?thesis using granted(3) frame \<open>ok\<close> b(2)
          by (intro exI [of _ ?sc] exI [of _ m] exI [of _ ?L]) (simp add: sc3_def sc0_def, blast)
      qed
    qed
  qed
qed

lemma enable_run:
  "\<exists>L. steps [log_drv (SetMaster d), set_latency E d, log_drv (SetMwi d)] s = Some (Ok (), s\<lparr>dlog := dlog s @ L\<rparr>) \<and> start_log d L"
proof -
  obtain L where L: "set_latency E d (s\<lparr>dlog := dlog s @ [SetMaster d]\<rparr>) = Some (Ok (), s\<lparr>dlog := dlog s @ SetMaster d # L\<rparr>)"
    "\<exists>v. L = [ReadConfig d PCI_LATENCY_TIMER v] \<or> L = [ReadConfig d PCI_LATENCY_TIMER v, WriteConfig d PCI_LATENCY_TIMER 64]"
    using set_latency_run [of E d "s\<lparr>dlog := dlog s @ [SetMaster d]\<rparr>"] by auto
  then show ?thesis
    by (intro exI [of _ "SetMaster d # L @ [SetMwi d]"]) (auto simp: start_log_def log_drv_run)
qed

lemma find_unattached_run:
  "nac_find_unattached s = Some (Ok (if \<forall>v < NAC_MAX_BOARDS. attached (nac_array s ! v) then - 1
     else int (first_slot (\<lambda>c. \<not> attached (nac_array s ! c)) NAC_MAX_BOARDS)), s)"
  using first_slot_spec [of "\<lambda>c. \<not> attached (nac_array s ! c)" NAC_MAX_BOARDS]
  by (auto simp: nac_find_unattached_def)

lemma init_one_Ok:
  assumes run: "nac_init_one E d s = Some (Ok r, t)" and len: "length (nac_array s) = NAC_MAX_BOARDS"
  obtains (full) "\<forall>v < NAC_MAX_BOARDS. attached (nac_array s ! v)" and "r = - E_NOMEM" and "t = s"
    | (unit) u where "u < NAC_MAX_BOARDS" and "\<not> attached (nac_array s ! u)" and "\<forall>v < u. attached (nac_array s ! v)"
        and "probed E d u s r t"
proof (cases "\<forall>v < NAC_MAX_BOARDS. attached (nac_array s ! v)")
  case True
  then have "r = - E_NOMEM" "t = s" using run by (simp_all add: nac_init_one_def find_unattached_run)
  with True show ?thesis by (rule full)
next
  case False
  define u where "u = first_slot (\<lambda>c. \<not> attached (nac_array s ! c)) NAC_MAX_BOARDS"
  have u: "u < NAC_MAX_BOARDS" "\<not> attached (nac_array s ! u)" "\<forall>v < u. attached (nac_array s ! v)"
    using first_slot_spec [of "\<lambda>c. \<not> attached (nac_array s ! c)" NAC_MAX_BOARDS] False
    unfolding u_def [symmetric] by (auto simp: le_less)
  let ?a = "nac_array s ! u" and ?iom = "region_start E d" and ?z = "ucast (region_len E d) :: u32"
  define sc1 where "sc1 = ?a\<lparr>sc_unit := int u, sc_flags := sc_flags ?a OR NACF_ATTACHED, sc_device := Some d,
    sc_lock := map (\<lambda>l. l\<lparr>lock_pid := 0, lock_tgid := 0\<rparr>) (sc_lock ?a), sc_lock_sem := 1\<rparr>"
  define s1 where "s1 = s\<lparr>driver_data := (driver_data s)(d \<mapsto> u), nac_array := (nac_array s)[u := sc1]\<rparr>"
  have at: "attach_unit d u s = Some (Ok (), s1)"
    using attach_unit_run [of u s d] u(1) len by (simp add: sc1_def s1_def)
  define q where "q = enable_device_at E (dlog s) d"
  let ?s2 = "s1\<lparr>dlog := dlog s @ [EnableDevice d q]\<rparr>"
  have en: "ask (\<lambda>h. enable_device_at E h d) (EnableDevice d) s1 = Some (Ok q, ?s2)" by (simp add: ask_run s1_def q_def)
  have rest: "(if q \<noteq> 0 then ret q
     else bnd (steps [log_drv (SetMaster d), set_latency E d, log_drv (SetMwi d)]) (\<lambda>_.
     bnd (read_st (\<lambda>s. region_busy_at E (dlog s) ?iom (ucast ?z))) (\<lambda>busy.
     if busy then ret (- E_BUSY) else bnd (map_window E u ?iom ?z) (\<lambda>_. claim_resources E d u)))) ?s2 = Some (Ok r, t)"
    using run False u(1) unfolding nac_init_one_def bnd_Ok [OF find_unattached_run] u_def [symmetric]
    by (simp add: Let_def at en)
  have early: "probed E d u s r t" if "t = s1\<lparr>dlog := dlog s @ L\<rparr>" "r \<noteq> 0" for L
    using that by (intro probedI [where m = "mem s" and sc = sc1 and L = L]) (simp_all add: s1_def taken_def no_buffer_def sc1_def)
  have "probed E d u s r t"
  proof (cases "q = 0")
    case False
    then have "t = ?s2" "r \<noteq> 0" using rest by auto
    then show ?thesis by (rule early)
  next
    case True
    obtain A where A: "steps [log_drv (SetMaster d), set_latency E d, log_drv (SetMwi d)] ?s2 = Some (Ok (), ?s2\<lparr>dlog := dlog ?s2 @ A\<rparr>)"
      "start_log d A" using enable_run by blast
    define s3 where "s3 = s1\<lparr>dlog := dlog s @ EnableDevice d q # A\<rparr>"
    have s3: "?s2\<lparr>dlog := dlog ?s2 @ A\<rparr> = s3" by (simp add: s3_def)
    show ?thesis
    proof (cases "region_busy_at E (dlog s3) ?iom (ucast ?z)")
      case True
      then have "t = s3" "r \<noteq> 0" using rest A(1) \<open>q = 0\<close> unfolding s3 by (auto simp: errno_values)
      then show ?thesis unfolding s3_def by (rule early)
    next
      case False
      with rest A(1) \<open>q = 0\<close> obtain s4 where w: "map_window E u ?iom ?z s3 = Some (Ok (), s4)"
        and res: "claim_resources E d u s4 = Some (Ok r, t)"
        unfolding s3 by (auto elim: bnd_OkE)
      have l3: "u < length (nac_array s3)" using u(1) len by (simp add: s3_def s1_def)
      obtain v where v: "v \<noteq> 0" "s4 = s3\<lparr>nac_array := (nac_array s3)[u := (nac_array s3 ! u)\<lparr>sc_mmio := v, sc_mmio_size := ?z\<rparr>],
          dlog := dlog s3 @ [RequestRegion ?iom (ucast ?z), Ioremap ?iom (ucast ?z) v, PokeIo (v + 0x900FC) 1]\<rparr>"
        using map_window_Ok [OF w l3] by metis
      define sc4 where "sc4 = sc1\<lparr>sc_mmio := v, sc_mmio_size := ?z\<rparr>"
      define C where "C = EnableDevice d 0 # A @ [RequestRegion ?iom (ucast ?z), Ioremap ?iom (ucast ?z) v, PokeIo (v + 0x900FC) 1]"
      have s4: "s4 = s1\<lparr>nac_array := (nac_array s)[u := sc4], dlog := dlog s @ C\<rparr>"
        using u(1) len by (simp add: v(2) s3_def s1_def sc4_def C_def \<open>q = 0\<close>)
      have a4: "nac_array s4 ! u = sc4" "u < length (nac_array s4)" using u(1) len by (simp_all add: s4)
      have f4: "sc_device sc4 = Some d" "sc_mmio sc4 = v" "sc_mmio_size sc4 = ?z" by (simp_all add: sc4_def sc1_def)
      obtain sc m L where sc: "t = s4\<lparr>mem := m, nac_array := (nac_array s4)[u := sc], dlog := dlog s4 @ L\<rparr>"
        "sc_unit sc = sc_unit sc4" "sc_flags sc = sc_flags sc4" "sc_device sc = Some d" "sc_duck sc = sc_duck sc4"
        "sc_mmio sc = v" "sc_mmio_size sc = ?z" "buffer_asked E (mem s4) m sc4 sc"
        "r = 0 \<longrightarrow> sc_mmbuf sc \<noteq> 0 \<and> (\<exists>irq. irq \<noteq> 0 \<and> (irq_stable E \<longrightarrow> sc_irq sc = irq) \<and> rest_log d u (nac_dev s4) irq L)"
        using claim_resources_Ok [OF res a4(2)] unfolding a4(1) f4 by blast
      have "buffer_asked E (mem s) m ?a sc" using sc(8) by (auto simp: buffer_asked_def s4 s1_def sc4_def sc1_def)
      moreover have "unit_set_up E d u (nac_dev s) sc (C @ L)" if "r = 0"
        using sc(9) that v(1) A(2) sc(6,7) unfolding unit_set_up_def probe_log_def by (auto simp: C_def s4 s1_def)
      ultimately show ?thesis using sc(1-6) v(1)
        by (intro probedI [where m = m and sc = sc and L = "C @ L"]) (simp_all add: s4 s1_def taken_def sc4_def sc1_def)
    qed
  qed
  with u show ?thesis by (rule unit)
qed

section \<open>What a removal does\<close>

definition remove_log :: "drv_env \<Rightarrow> dev \<Rightarrow> nat \<Rightarrow> nac_softc \<Rightarrow> drv_event list" where
  "remove_log E d u sc = [CdevDel u Nac_fops, CdevDel u Nac_mem_fops, CdevDel u Nac_iom_fops] @
     (if sc_irq sc \<noteq> 0 then [FreeIrq (sc_irq sc) u] else []) @
     (if sc_mmio sc \<noteq> 0 then [Iounmap (sc_mmio sc), ReleaseRegion (region_start E d) (region_len E d)] else [])"

lemma in_mem_Ok: "m (mem s) = Some (Ok x, v) \<Longrightarrow> in_mem m s = Some (Ok x, s\<lparr>mem := v\<rparr>)"
  by (simp add: in_mem_def)

lemma remove_run:
  assumes "driver_data s d = Some u" and sc: "sc = nac_array s ! u"
    and "sc_mmbuf sc \<noteq> 0 \<longrightarrow> nac_mem_free (sc_mmbuf sc) (mem s) = Some (Ok (), m)" and "sc_mmbuf sc = 0 \<longrightarrow> m = mem s"
  shows "nac_remove_one E d s = Some (Ok (), s\<lparr>mem := m, nac_array := (nac_array s)[u := zero_softc], dlog := dlog s @ remove_log E d u sc\<rparr>)"
proof -
  let ?L = "[CdevDel u Nac_fops, CdevDel u Nac_mem_fops, CdevDel u Nac_iom_fops]"
  let ?I = "if sc_irq sc \<noteq> 0 then [FreeIrq (sc_irq sc) u] else []"
  let ?R = "if sc_mmio sc \<noteq> 0 then [Iounmap (sc_mmio sc), ReleaseRegion (region_start E d) (region_len E d)] else []"
  let ?s1 = "s\<lparr>dlog := dlog s @ ?L\<rparr>" and ?s2 = "s\<lparr>dlog := dlog s @ ?L @ ?I\<rparr>"
  let ?s3 = "s\<lparr>mem := m, dlog := dlog s @ ?L @ ?I\<rparr>" and ?s4 = "s\<lparr>mem := m, dlog := dlog s @ remove_log E d u sc\<rparr>"
  have e0: "read_st (\<lambda>s. driver_data s d) s = Some (Ok (Some u), s)" using assms(1) by simp
  have e1: "for_each nac_fops_array (\<lambda>f. log_drv (CdevDel u f)) s = Some (Ok (), ?s1)"
    by (simp add: nac_fops_array_def drv_runs)
  have e2: "get_sc u ?s1 = Some (Ok sc, ?s1)" by (simp add: drv_runs sc)
  have e3: "(if sc_irq sc \<noteq> 0 then log_drv (FreeIrq (sc_irq sc) u) else ret ()) ?s1 = Some (Ok (), ?s2)"
    by (simp add: drv_runs)
  have e4: "(if sc_mmbuf sc \<noteq> 0 then in_mem (nac_mem_free (sc_mmbuf sc)) else ret ()) ?s2 = Some (Ok (), ?s3)"
    using assms(3,4) by (cases "sc_mmbuf sc = 0") (simp_all add: in_mem_def)
  have e5: "(if sc_mmio sc \<noteq> 0 then bnd (log_drv (Iounmap (sc_mmio sc))) (\<lambda>_. log_drv (ReleaseRegion (region_start E d) (region_len E d)))
      else ret ()) ?s3 = Some (Ok (), ?s4)"
    by (simp add: drv_runs remove_log_def)
  have e6: "upd_sc u (\<lambda>_. zero_softc) ?s4 = Some (Ok (), s\<lparr>mem := m, nac_array := (nac_array s)[u := zero_softc], dlog := dlog s @ remove_log E d u sc\<rparr>)"
    by (simp add: drv_runs)
  show ?thesis
    unfolding nac_remove_one_def
    by (rule bnd_step, rule e0, unfold option.case, rule bnd_step, rule e1, rule bnd_step, rule e2, rule bnd_step, rule e3,
        rule bnd_step, rule e4, rule bnd_step, rule e5, rule e6)
qed

section \<open>The table of units\<close>

text \<open>A buffer of the memory module, with its size.\<close>

definition pool_buffer :: "mem_st \<Rightarrow> u64 \<Rightarrow> u32 \<Rightarrow> bool" where
  "pool_buffer m v z \<longleftrightarrow> (\<exists>i < nat (nnacs m). vaddr m ! i = v \<and> msize m ! i = z)"

definition unit_wf :: "drv_env \<Rightarrow> mem_st \<Rightarrow> nat \<Rightarrow> nac_softc \<Rightarrow> bool" where
  "unit_wf E m u sc \<longleftrightarrow> (if attached sc then sc_unit sc = int u \<and> sc_device sc \<noteq> None else sc = zero_softc) \<and> sc_duck sc = None \<and>
     (if sc_mmbuf sc = 0 then sc_buf sc = 0 \<and> sc_buf_size sc = 0
      else sc_buf sc = virt_to_phys (pages E) (sc_mmbuf sc) \<and> pool_buffer m (sc_mmbuf sc) (sc_buf_size sc))"

text \<open>
  The invariant: free units are zero, a used one knows its number, the units hold the claimed
  buffers of the memory module, each a different one, and the driver finds the unit of every
  device that is bound to it (\<open>B\<close>).
\<close>

definition card_wf :: "drv_env \<Rightarrow> dev set \<Rightarrow> drv_st \<Rightarrow> bool" where
  "card_wf E B s \<longleftrightarrow> length (nac_array s) = NAC_MAX_BOARDS \<and> (\<forall>u < NAC_MAX_BOARDS. unit_wf E (mem s) u (nac_array s ! u)) \<and>
     pool_good (mem s) \<and>
     pool_claimed (mem s) = {v. v \<noteq> 0 \<and> (\<exists>u < NAC_MAX_BOARDS. sc_mmbuf (nac_array s ! u) = v)} \<and>
     (\<forall>u < NAC_MAX_BOARDS. \<forall>w < NAC_MAX_BOARDS. sc_mmbuf (nac_array s ! u) = sc_mmbuf (nac_array s ! w) \<longrightarrow>
        sc_mmbuf (nac_array s ! u) \<noteq> 0 \<longrightarrow> u = w) \<and>
     (\<forall>d \<in> B. \<exists>u < NAC_MAX_BOARDS. driver_data s d = Some u \<and> attached (nac_array s ! u) \<and> sc_device (nac_array s ! u) = Some d)"

lemma card_wf_len: "card_wf E B s \<Longrightarrow> length (nac_array s) = NAC_MAX_BOARDS"
  by (simp add: card_wf_def)

lemma card_wf_unit: "card_wf E B s \<Longrightarrow> u < NAC_MAX_BOARDS \<Longrightarrow> unit_wf E (mem s) u (nac_array s ! u)"
  by (simp add: card_wf_def)

lemma card_wf_bound:
  assumes "card_wf E B s" and "d \<in> B"
  obtains u where "u < NAC_MAX_BOARDS" and "driver_data s d = Some u" and "attached (nac_array s ! u)" and "sc_device (nac_array s ! u) = Some d"
  using assms by (auto simp: card_wf_def)

lemma attached_or [simp]: "sc_flags sc = f OR NACF_ATTACHED \<Longrightarrow> attached sc"
  by (simp add: attached_def NACF_ATTACHED_def word_ao_absorbs)

lemma not_attached_zero [simp]: "\<not> attached zero_softc"
  by (simp add: attached_def zero_softc_def)

text \<open>Claiming and releasing change nothing but the flags and the log.\<close>

definition same_buffers :: "mem_st \<Rightarrow> mem_st \<Rightarrow> bool" where
  "same_buffers m m1 \<longleftrightarrow> nnacs m1 = nnacs m \<and> vaddr m1 = vaddr m \<and> msize m1 = msize m"

lemma same_buffers_refl [simp]: "same_buffers m m"
  by (simp add: same_buffers_def)

lemma ucast_back: "(ucast (ucast (a :: u32) :: u64) :: u32) = a"
  by (rule bit_word_eqI) (simp add: bit_ucast_iff)

lemma malloc_same:
  assumes "nac_mem_malloc 0 m = Some (Ok (v, z), m1)"
  shows "same_buffers m m1" and "v \<noteq> 0 \<Longrightarrow> pool_buffer m v (ucast z)"
proof -
  define i where "i = first_slot (\<lambda>i. inuse m ! i = 0) (nat (nnacs m))"
  have i: "i \<le> nat (nnacs m)" using first_slot_spec by (simp add: i_def)
  note r = nac_malloc_run [OF i_def, of 0] assms
  show "same_buffers m m1" using r by (auto simp: same_buffers_def Let_def split: if_splits)
  show "pool_buffer m v (ucast z)" if "v \<noteq> 0"
    using r i that unfolding pool_buffer_def by (intro exI [of _ i]) (auto simp: Let_def ucast_back split: if_splits)
qed

lemma free_same: "nac_mem_free v m = Some (Ok (), m1) \<Longrightarrow> same_buffers m m1"
  using free_run [OF refl, of v m] by (auto simp: same_buffers_def Let_def split: if_splits)

lemma pool_buffer_same [simp]: "same_buffers m m1 \<Longrightarrow> pool_buffer m1 v z = pool_buffer m v z"
  by (simp add: pool_buffer_def same_buffers_def)

lemma unit_wf_same: "same_buffers m m1 \<Longrightarrow> unit_wf E m1 u sc = unit_wf E m u sc"
  by (simp add: unit_wf_def)

lemma unit_wf_zero [simp]: "unit_wf E m u zero_softc"
  unfolding unit_wf_def by simp (simp add: zero_softc_def)

text \<open>Putting a new record in place of a unit; what the unit held before is free then.\<close>

lemma card_wf_place:
  assumes wf: "card_wf E B s" and u: "u < NAC_MAX_BOARDS"
    and m: "same_buffers (mem s) m" "pool_good m" and sc: "unit_wf E m u sc"
    and cl: "sc_mmbuf sc \<notin> pool_claimed (mem s) - {sc_mmbuf (nac_array s ! u)}"
      "pool_claimed m = pool_claimed (mem s) - {sc_mmbuf (nac_array s ! u)} \<union> ({sc_mmbuf sc} - {0})"
    and t: "nac_array t = (nac_array s)[u := sc]" "mem t = m"
    and D: "\<And>d. d \<in> D \<Longrightarrow> \<exists>w < NAC_MAX_BOARDS. driver_data t d = Some w \<and> attached (nac_array t ! w) \<and> sc_device (nac_array t ! w) = Some d"
  shows "card_wf E D t"
proof -
  let ?held = "\<lambda>a. {v. v \<noteq> 0 \<and> (\<exists>w < NAC_MAX_BOARDS. sc_mmbuf (a ! w) = v)}"
  have len: "length (nac_array s) = NAC_MAX_BOARDS" using wf by (rule card_wf_len)
  have held: "pool_claimed (mem s) = ?held (nac_array s)" using wf unfolding card_wf_def by blast
  have at: "nac_array t ! w = (if w = u then sc else nac_array s ! w)" if "w < NAC_MAX_BOARDS" for w
    using that u by (simp add: t(1) len nth_list_update)
  have "unit_wf E m w (nac_array t ! w)" if "w < NAC_MAX_BOARDS" for w
    using that sc card_wf_unit [OF wf that] by (simp add: at unit_wf_same [OF m(1)])
  moreover have "pool_claimed m = ?held (nac_array t)"
    unfolding cl(2) held using u at wf unfolding card_wf_def by (auto split: if_splits)
  moreover have "a = b" if "a < NAC_MAX_BOARDS" "b < NAC_MAX_BOARDS" "sc_mmbuf (nac_array t ! a) = sc_mmbuf (nac_array t ! b)" "sc_mmbuf (nac_array t ! a) \<noteq> 0" for a b
    using that cl(1) wf u unfolding card_wf_def at [OF that(1)] at [OF that(2)] by (auto split: if_splits)
  ultimately show ?thesis using D m(2) by (simp add: card_wf_def t len)
qed

lemma probe_wf:
  assumes wf: "card_wf E B s" and run: "nac_init_one E d s = Some (Ok r, t)"
  shows "card_wf E (if 0 \<le> r then insert d B else B - {d}) t"
  using run card_wf_len [OF wf]
proof (cases rule: init_one_Ok)
  case full
  then show ?thesis using wf by (auto simp: errno_values card_wf_def)
next
  case (unit u)
  then obtain sc m L where t: "t = s\<lparr>driver_data := (driver_data s)(d \<mapsto> u), mem := m, nac_array := (nac_array s)[u := sc], dlog := dlog s @ L\<rparr>"
    and sc: "taken d u (nac_array s ! u) sc"
    and buf: "m = mem s \<and> no_buffer (nac_array s ! u) sc \<and> r \<noteq> 0 \<or> buffer_asked E (mem s) m (nac_array s ! u) sc"
    unfolding probed_def by blast
  have z: "nac_array s ! u = zero_softc" using card_wf_unit [OF wf unit(1)] unit(2) by (simp add: unit_wf_def)
  have at: "attached sc" "sc_unit sc = int u" "sc_device sc = Some d" "sc_duck sc = None"
    using sc by (simp_all add: taken_def z) (simp add: zero_softc_def)
  have good: "pool_good (mem s)" "0 \<notin> pool_claimed (mem s)" using wf by (auto simp: card_wf_def)
  have m: "same_buffers (mem s) m \<and> pool_good m \<and> unit_wf E m u sc \<and> sc_mmbuf sc \<notin> pool_claimed (mem s) \<and>
      pool_claimed m = (if sc_mmbuf sc = 0 then pool_claimed (mem s) else insert (sc_mmbuf sc) (pool_claimed (mem s)))"
    using buf
  proof (elim disjE conjE)
    assume "m = mem s" "no_buffer (nac_array s ! u) sc"
    then show ?thesis using good at by (simp add: no_buffer_def z unit_wf_def zero_softc_def)
  next
    assume "buffer_asked E (mem s) m (nac_array s ! u) sc"
    then obtain zz where a: "nac_mem_malloc 0 (mem s) = Some (Ok (sc_mmbuf sc, zz), m)"
      "if sc_mmbuf sc = 0 then sc_buf sc = 0 \<and> sc_buf_size sc = 0
       else sc_buf sc = virt_to_phys (pages E) (sc_mmbuf sc) \<and> sc_buf_size sc = ucast zz"
      by (auto simp: buffer_asked_def z zero_softc_def)
    have "pool_good m \<and> (if sc_mmbuf sc = 0 then pool_claimed m = pool_claimed (mem s)
        else sc_mmbuf sc \<in> pool_avail (mem s) - pool_claimed (mem s) \<and> pool_claimed m = insert (sc_mmbuf sc) (pool_claimed (mem s)))"
      using card_buffers.claim_law [OF good(1), of 0] a(1) by (auto split: if_splits)
    then show ?thesis using malloc_same [OF a(1)] a(2) at good(2) by (auto simp: unit_wf_def split: if_splits)
  qed
  have bound: "\<exists>w < NAC_MAX_BOARDS. driver_data t x = Some w \<and> attached (nac_array t ! w) \<and> sc_device (nac_array t ! w) = Some x"
    if "x \<in> (if 0 \<le> r then insert d B else B - {d})" for x
  proof (cases "x = d")
    case True
    then show ?thesis using unit(1) at card_wf_len [OF wf] by (intro exI [of _ u]) (simp add: t)
  next
    case False
    then have "x \<in> B" using that by (simp split: if_splits)
    then obtain w where w: "w < NAC_MAX_BOARDS" "driver_data s x = Some w" "attached (nac_array s ! w)" "sc_device (nac_array s ! w) = Some x"
      using card_wf_bound [OF wf] by blast
    moreover from this have "w \<noteq> u" using unit(2) by blast
    ultimately show ?thesis using False by (intro exI [of _ w]) (simp add: t)
  qed
  show ?thesis
    using m z good(2) by (intro card_wf_place [OF wf unit(1) _ _ _ _ _ _ _ bound, of m sc]) (auto simp: t zero_softc_def)
qed

lemma remove_wf:
  assumes wf: "card_wf E B s" and d: "d \<in> B"
  obtains u t where "u < NAC_MAX_BOARDS" and "driver_data s d = Some u" and "sc_device (nac_array s ! u) = Some d"
    and "nac_remove_one E d s = Some (Ok (), t)" and "card_wf E (B - {d}) t" and "nac_array t = (nac_array s)[u := zero_softc]"
    and "dlog t = dlog s @ remove_log E d u (nac_array s ! u)" and "same_buffers (mem s) (mem t)"
    and "pool_claimed (mem t) = pool_claimed (mem s) - {sc_mmbuf (nac_array s ! u)}" and "driver_data t = driver_data s"
proof -
  obtain u where u: "u < NAC_MAX_BOARDS" "driver_data s d = Some u" "attached (nac_array s ! u)" "sc_device (nac_array s ! u) = Some d"
    using card_wf_bound [OF wf d] by blast
  let ?v = "sc_mmbuf (nac_array s ! u)"
  have good: "pool_good (mem s)" "0 \<notin> pool_claimed (mem s)" using wf by (auto simp: card_wf_def)
  have "\<exists>m. (?v \<noteq> 0 \<longrightarrow> nac_mem_free ?v (mem s) = Some (Ok (), m)) \<and> (?v = 0 \<longrightarrow> m = mem s) \<and> same_buffers (mem s) m \<and> pool_good m \<and>
      pool_claimed m = pool_claimed (mem s) - {?v}"
  proof (cases "?v = 0")
    case True
    then show ?thesis using good by (intro exI [of _ "mem s"]) auto
  next
    case False
    then have "?v \<in> pool_claimed (mem s)" using wf u(1) by (auto simp: card_wf_def)
    then obtain m where "nac_mem_free ?v (mem s) = Some (Ok (), m)" "pool_good m" "pool_claimed m = pool_claimed (mem s) - {?v}"
      using card_buffers.release_law [OF good(1)] by blast
    then show ?thesis using False free_same by blast
  qed
  then obtain m where m: "?v \<noteq> 0 \<longrightarrow> nac_mem_free ?v (mem s) = Some (Ok (), m)" "?v = 0 \<longrightarrow> m = mem s" "same_buffers (mem s) m"
    "pool_good m" "pool_claimed m = pool_claimed (mem s) - {?v}" by blast
  let ?t = "s\<lparr>mem := m, nac_array := (nac_array s)[u := zero_softc], dlog := dlog s @ remove_log E d u (nac_array s ! u)\<rparr>"
  have run: "nac_remove_one E d s = Some (Ok (), ?t)" by (rule remove_run [OF u(2) refl m(1,2)])
  have bound: "\<exists>w < NAC_MAX_BOARDS. driver_data ?t x = Some w \<and> attached (nac_array ?t ! w) \<and> sc_device (nac_array ?t ! w) = Some x"
    if "x \<in> B - {d}" for x
  proof -
    have "x \<in> B" using that by simp
    then obtain w where w: "w < NAC_MAX_BOARDS" "driver_data s x = Some w" "attached (nac_array s ! w)" "sc_device (nac_array s ! w) = Some x"
      by (rule card_wf_bound [OF wf])
    moreover from this have "w \<noteq> u" using that u(4) by auto
    ultimately show ?thesis by (intro exI [of _ w]) simp
  qed
  have "sc_mmbuf zero_softc = 0" by (simp add: zero_softc_def)
  then have "card_wf E (B - {d}) ?t"
    using m(3-5) good(2) by (intro card_wf_place [OF wf u(1) _ _ _ _ _ _ _ bound, of m zero_softc]) simp_all
  with run u m(3,5) show ?thesis by (intro that [of u ?t]) simp_all
qed

section \<open>Resources\<close>

text \<open>What the driver holds of the kernel, by the history.\<close>

datatype resource = Enabled dev | Region u64 u64 | Window u64 | Msi dev | Irq u32 nat | Node nat fops

fun acquires :: "drv_event \<Rightarrow> resource multiset" where
  "acquires (EnableDevice d r) = (if r = 0 then {#Enabled d#} else {#})"
| "acquires (RequestRegion a z) = {#Region a z#}"
| "acquires (Ioremap a z v) = (if v = 0 then {#} else {#Window v#})"
| "acquires (EnableMsi d r) = (if r < 0 then {#} else {#Msi d#})"
| "acquires (RequestIrq i u r) = (if r < 0 then {#} else {#Irq i u#})"
| "acquires (CdevAdd u f n r) = (if r = 0 then {#Node u f#} else {#})"
| "acquires _ = {#}"

fun releases :: "drv_event \<Rightarrow> resource multiset" where
  "releases (ReleaseRegion a z) = {#Region a z#}"
| "releases (Iounmap v) = {#Window v#}"
| "releases (FreeIrq i u) = {#Irq i u#}"
| "releases (CdevDel u f) = {#Node u f#}"
| "releases _ = {#}"

definition acquired :: "drv_event list \<Rightarrow> resource multiset" where
  "acquired h = sum_list (map acquires h)"

definition released :: "drv_event list \<Rightarrow> resource multiset" where
  "released h = sum_list (map releases h)"

lemma resources_simps [simp]:
  "acquired [] = {#}" "acquired (e # h) = acquires e + acquired h" "acquired (h @ k) = acquired h + acquired k"
  "released [] = {#}" "released (e # h) = releases e + released h" "released (h @ k) = released h + released k"
  by (simp_all add: acquired_def released_def)

lemma start_log_resources: "start_log d L \<Longrightarrow> acquired L = {#} \<and> released L = {#}"
  by (auto simp: start_log_def)

text \<open>A probe that succeeds, when the kernel accepts the device nodes.\<close>

definition nodes_added :: "drv_event list \<Rightarrow> bool" where
  "nodes_added h \<longleftrightarrow> (\<forall>e \<in> set h. case e of CdevAdd u f n r \<Rightarrow> r = 0 | _ \<Rightarrow> True)"

lemma finish_log_resources:
  assumes "finish_log d u nd K" and "nodes_added K"
  shows "acquired K = {#Node u Nac_fops, Node u Nac_mem_fops, Node u Nac_iom_fops#} \<and> released K = {#}"
proof -
  obtain a0 a1 a2 a3 a4 a5 rev r0 r1 r2 where K: "K = [
        ReadConfig d PCI_BASE_ADDRESS_0 a0, ReadConfig d PCI_BASE_ADDRESS_1 a1, ReadConfig d PCI_BASE_ADDRESS_2 a2,
        ReadConfig d PCI_COMMAND a3, ReadConfig d PCI_INTERRUPT_LINE a4, ReadConfig d PCI_LATENCY_TIMER a5,
        ReadConfig d PCI_REVISION_ID rev, CdevAdd u Nac_fops (nd OR node_number 0 u) r0,
        CdevAdd u Nac_mem_fops (nd OR node_number 1 u) r1, CdevAdd u Nac_iom_fops (nd OR node_number 2 u) r2]"
    using assms(1) unfolding finish_log_def by (elim exE)
  show ?thesis using assms(2) by (simp add: K nodes_added_def)
qed

lemma probe_log_resources:
  assumes "probe_log E d u nd v irq L" and "v \<noteq> 0" and "nodes_added L"
  shows "acquired L = {#Enabled d, Region (region_start E d) (ucast (ucast (region_len E d) :: u32)), Window v, Msi d, Irq irq u,
      Node u Nac_fops, Node u Nac_mem_fops, Node u Nac_iom_fops#}" and "released L = {#}"
proof -
  obtain A B where L: "L = EnableDevice d 0 # A @ [RequestRegion (region_start E d) (ucast (ucast (region_len E d) :: u32)),
        Ioremap (region_start E d) (ucast (ucast (region_len E d) :: u32)) v, PokeIo (v + 0x900FC) 1] @ B"
    "start_log d A" "rest_log d u nd irq B"
    using assms(1) unfolding probe_log_def by blast
  obtain q p K where B: "B = EnableMsi d q # RequestIrq irq u p # K" "finish_log d u nd K" "\<not> q < 0" "\<not> p < 0"
    using L(3) unfolding rest_log_def by blast
  have "nodes_added K" using assms(3) by (simp add: L(1) B(1) nodes_added_def)
  note K = finish_log_resources [OF B(2) this]
  show "acquired L = {#Enabled d, Region (region_start E d) (ucast (ucast (region_len E d) :: u32)), Window v, Msi d, Irq irq u,
      Node u Nac_fops, Node u Nac_mem_fops, Node u Nac_iom_fops#}" and "released L = {#}"
    using start_log_resources [OF L(2)] B(3,4) assms(2) K by (simp_all add: L(1) B(1))
qed

section \<open>The properties\<close>

lemma probe_setup:
  assumes "card_wf E B s" and "nac_init_one E d s = Some (Ok 0, t)" and "irq_stable E"
  shows "\<exists>u sc L. u < NAC_MAX_BOARDS \<and> \<not> attached (nac_array s ! u) \<and> (\<forall>w < u. attached (nac_array s ! w)) \<and>
     nac_array t = (nac_array s)[u := sc] \<and> driver_data t = (driver_data s)(d \<mapsto> u) \<and> attached sc \<and> sc_unit sc = int u \<and>
     sc_device sc = Some d \<and> sc_mmio sc \<noteq> 0 \<and> sc_mmio_size sc = ucast (region_len E d) \<and> sc_irq sc \<noteq> 0 \<and>
     sc_mmbuf sc \<in> pool_avail (mem s) - pool_claimed (mem s) \<and> pool_claimed (mem t) = insert (sc_mmbuf sc) (pool_claimed (mem s)) \<and>
     pool_buffer (mem t) (sc_mmbuf sc) (sc_buf_size sc) \<and> sc_buf sc = virt_to_phys (pages E) (sc_mmbuf sc) \<and>
     dlog t = dlog s @ L \<and> probe_log E d u (nac_dev s) (sc_mmio sc) (sc_irq sc) L"
  using assms(2) card_wf_len [OF assms(1)]
proof (cases rule: init_one_Ok)
  case full
  then show ?thesis by (simp add: errno_values)
next
  case (unit u)
  then obtain sc m L where t: "t = s\<lparr>driver_data := (driver_data s)(d \<mapsto> u), mem := m, nac_array := (nac_array s)[u := sc], dlog := dlog s @ L\<rparr>"
    and sc: "taken d u (nac_array s ! u) sc" "buffer_asked E (mem s) m (nac_array s ! u) sc" "unit_set_up E d u (nac_dev s) sc L"
    unfolding probed_def by blast
  obtain z where z: "nac_mem_malloc 0 (mem s) = Some (Ok (sc_mmbuf sc, z), m)" "sc_mmbuf sc \<noteq> 0"
    "sc_buf sc = virt_to_phys (pages E) (sc_mmbuf sc)" "sc_buf_size sc = ucast z"
    using sc(2,3) by (auto simp: buffer_asked_def unit_set_up_def)
  have "pool_good (mem s)" using assms(1) by (simp add: card_wf_def)
  from card_buffers.claim_law [OF this, of 0]
  have "sc_mmbuf sc \<in> pool_avail (mem s) - pool_claimed (mem s)" "pool_claimed m = insert (sc_mmbuf sc) (pool_claimed (mem s))"
    using z(1,2) by auto
  then show ?thesis using unit(1-3) sc z malloc_same [OF z(1)] assms(3)
    by (intro exI [of _ u] exI [of _ sc] exI [of _ L]) (auto simp: t taken_def unit_set_up_def)
qed

text \<open>
  C13. A probe that returns 0 took the first free unit: nothing else in the table changed, the
  unit has a buffer that nobody held, its physical address and its size, and a mapped register
  window, and it told the kernel exactly what \<open>probe_log\<close> lists, in that order.
\<close>

theorem probe_sets_up:
  assumes "card_wf E B s" and "nac_init_one E d s = Some (Ok 0, t)" and "irq_stable E"
  shows "\<exists>u sc L. u < NAC_MAX_BOARDS \<and> \<not> attached (nac_array s ! u) \<and> (\<forall>w < u. attached (nac_array s ! w)) \<and>
     nac_array t = (nac_array s)[u := sc] \<and> driver_data t = (driver_data s)(d \<mapsto> u) \<and> attached sc \<and> sc_unit sc = int u \<and>
     sc_device sc = Some d \<and> sc_mmio sc \<noteq> 0 \<and> sc_mmio_size sc = ucast (region_len E d) \<and> sc_irq sc \<noteq> 0 \<and>
     sc_mmbuf sc \<in> pool_avail (mem s) - pool_claimed (mem s) \<and> pool_claimed (mem t) = insert (sc_mmbuf sc) (pool_claimed (mem s)) \<and>
     pool_buffer (mem t) (sc_mmbuf sc) (sc_buf_size sc) \<and> sc_buf sc = virt_to_phys (pages E) (sc_mmbuf sc) \<and>
     dlog t = dlog s @ L \<and> probe_log E d u (nac_dev s) (sc_mmio sc) (sc_irq sc) L"
  by (rule probe_setup [OF assms])

text \<open>
  C14. Removing a card undoes its probe: the table of units and the claimed buffers are as before,
  and of what the driver got from the kernel in between, only the enabled device and its message
  interrupts are still held.
\<close>

theorem probe_remove_roundtrip:
  assumes "card_wf E B s" and "nac_init_one E d s = Some (Ok 0, t)" and "irq_stable E"
    and "uint (region_len E d) < 2 ^ 32" and "nodes_added (dlog t)"
  shows "\<exists>v K. nac_remove_one E d t = Some (Ok (), v) \<and> nac_array v = nac_array s \<and> pool_claimed (mem v) = pool_claimed (mem s) \<and>
     card_wf E (B - {d}) v \<and> dlog v = dlog s @ K \<and> acquired K = released K + {#Enabled d, Msi d#}"
proof -
  obtain u sc L where u: "u < NAC_MAX_BOARDS" "\<not> attached (nac_array s ! u)" "nac_array t = (nac_array s)[u := sc]"
    "driver_data t = (driver_data s)(d \<mapsto> u)" "dlog t = dlog s @ L" "sc_mmio sc \<noteq> 0" "sc_irq sc \<noteq> 0"
    "sc_mmbuf sc \<in> pool_avail (mem s) - pool_claimed (mem s)" "pool_claimed (mem t) = insert (sc_mmbuf sc) (pool_claimed (mem s))"
    "probe_log E d u (nac_dev s) (sc_mmio sc) (sc_irq sc) L"
    using probe_setup [OF assms(1-3)] by blast
  have len: "length (nac_array s) = NAC_MAX_BOARDS" using assms(1) by (rule card_wf_len)
  have "card_wf E (insert d B) t" using probe_wf [OF assms(1,2)] by simp
  then obtain w v where v: "driver_data t d = Some w" "nac_remove_one E d t = Some (Ok (), v)" "card_wf E (insert d B - {d}) v"
    "nac_array v = (nac_array t)[w := zero_softc]" "dlog v = dlog t @ remove_log E d w (nac_array t ! w)"
    "pool_claimed (mem v) = pool_claimed (mem t) - {sc_mmbuf (nac_array t ! w)}"
    using remove_wf [of E "insert d B" t d] by (metis insertI1)
  have w: "w = u" using v(1) u(4) by simp
  have z: "nac_array s ! u = zero_softc" using card_wf_unit [OF assms(1) u(1)] u(2) by (simp add: unit_wf_def)
  have at: "nac_array t ! u = sc" using u(1,3) len by simp
  have size: "ucast (ucast (region_len E d) :: u32) = region_len E d"
    using assms(4) by (simp add: word_uint_eq_iff unsigned_ucast_eq take_bit_eq_mod uint_mod_distrib)
  have "acquired L = {#Enabled d, Region (region_start E d) (region_len E d), Window (sc_mmio sc), Msi d, Irq (sc_irq sc) u,
      Node u Nac_fops, Node u Nac_mem_fops, Node u Nac_iom_fops#}" "released L = {#}"
    using probe_log_resources [OF u(10,6)] assms(5) by (simp_all add: u(5) size nodes_added_def)
  moreover have "acquired (remove_log E d u sc) = {#}" "released (remove_log E d u sc) =
      {#Node u Nac_fops, Node u Nac_mem_fops, Node u Nac_iom_fops, Irq (sc_irq sc) u, Window (sc_mmio sc), Region (region_start E d) (region_len E d)#}"
    using u(6,7) by (simp_all add: remove_log_def)
  ultimately have "acquired (L @ remove_log E d u sc) = released (L @ remove_log E d u sc) + {#Enabled d, Msi d#}" by simp
  moreover have "nac_array v = nac_array s" using v(4) z by (simp add: w u(3)) (metis list_update_id)
  moreover have "pool_claimed (mem v) = pool_claimed (mem s)" using v(6) u(8,9) by (auto simp: w at)
  ultimately show ?thesis using v(2,3,5) by (intro exI [of _ v] exI [of _ "L @ remove_log E d u sc"]) (simp add: w at u(5))
qed

text \<open>Probing one device after the other.\<close>

fun probe_all :: "drv_env \<Rightarrow> dev list \<Rightarrow> int list drv" where
  "probe_all E [] = ret []"
| "probe_all E (d # ds) = bnd (nac_init_one E d) (\<lambda>r. bnd (probe_all E ds) (\<lambda>rs. ret (r # rs)))"

definition free_units :: "drv_st \<Rightarrow> nat set" where
  "free_units s = {u. u < NAC_MAX_BOARDS \<and> \<not> attached (nac_array s ! u)}"

lemma free_units_finite [simp]: "finite (free_units s)"
  by (simp add: free_units_def)

lemma probe_takes_unit:
  assumes "nac_init_one E d s = Some (Ok r, t)" and "length (nac_array s) = NAC_MAX_BOARDS"
  shows "card (free_units t) = card (free_units s) - 1" and "length (nac_array t) = NAC_MAX_BOARDS"
proof -
  have "card (free_units t) = card (free_units s) - 1 \<and> length (nac_array t) = NAC_MAX_BOARDS"
    using assms
  proof (cases rule: init_one_Ok)
    case full
    then have "free_units s = {}" by (auto simp: free_units_def)
    then show ?thesis using full assms(2) by simp
  next
    case (unit u)
    then obtain sc where t: "nac_array t = (nac_array s)[u := sc]" "taken d u (nac_array s ! u) sc" unfolding probed_def by auto
    then have "attached sc" by (simp add: taken_def)
    then have "attached (nac_array t ! x) \<longleftrightarrow> x = u \<or> attached (nac_array s ! x)" if "x < NAC_MAX_BOARDS" for x
      using that assms(2) unit(1) by (simp add: t(1) nth_list_update)
    then have "free_units t = free_units s - {u}" by (auto simp: free_units_def)
    then show ?thesis using unit(1,2) t(1) assms(2) by (simp add: card_Diff_singleton_if) (simp add: free_units_def)
  qed
  then show "card (free_units t) = card (free_units s) - 1" "length (nac_array t) = NAC_MAX_BOARDS" by simp_all
qed

lemma probes_take_units:
  assumes "probe_all E ds s = Some (Ok rs, t)" and "length (nac_array s) = NAC_MAX_BOARDS"
  shows "card (free_units t) = card (free_units s) - length ds"
  using assms
proof (induction ds arbitrary: s rs)
  case (Cons d ds)
  then obtain r s1 rs1 where "nac_init_one E d s = Some (Ok r, s1)" "probe_all E ds s1 = Some (Ok rs1, t)"
    by (auto simp: bnd_Ok_iff)
  then show ?case using Cons.IH probe_takes_unit Cons.prems(2) by fastforce
qed simp

lemma probes_refused:
  assumes "free_units s = {}"
  shows "probe_all E ds s = Some (Ok (replicate (length ds) (- E_NOMEM)), s)"
proof (induction ds)
  case (Cons d ds)
  have "\<forall>u < NAC_MAX_BOARDS. attached (nac_array s ! u)" using assms by (auto simp: free_units_def)
  then have "nac_init_one E d s = Some (Ok (- E_NOMEM), s)" by (simp add: nac_init_one_def find_unattached_run)
  then show ?case using Cons by simp
qed simp

text \<open>
  C32. A probe that fails keeps its unit: whatever the results of eight probes were, from then on
  every probe is refused without a word to the kernel (\<open>F\<close>), which may grant everything by then.
\<close>

theorem failed_probes_use_up_units:
  assumes "length (nac_array s) = NAC_MAX_BOARDS" and "probe_all E ds s = Some (Ok rs, t)" and "length ds = 8"
  shows "probe_all F es t = Some (Ok (replicate (length es) (- E_NOMEM)), t)"
proof (rule probes_refused)
  have "card (free_units s) \<le> card {..<NAC_MAX_BOARDS}" by (rule card_mono) (auto simp: free_units_def)
  then show "free_units t = {}"
    using probes_take_units [OF assms(2,1)] assms(3) by (simp add: NAC_MAX_BOARDS_def NACMINORBITS_def)
qed

section \<open>Loading the module\<close>

text \<open>
  When no device numbers are left, \<open>nac_init\<close> takes back the registration of a driver that it
  never registered and returns 0, for success; when the driver cannot be registered, it keeps
  the device numbers.
\<close>

lemma module_init_outcomes:
  assumes "alloc_chrdev_at E (dlog s) = (r, nd)"
  shows "r < 0 \<Longrightarrow> nac_dev s = 0 \<Longrightarrow> nac_init E s = Some (Ok 0, s\<lparr>dlog := dlog s @ [AllocChrdev r nd, UnregisterDriver]\<rparr>)"
    and "0 \<le> r \<Longrightarrow> \<exists>err. nac_init E s = Some (Ok err, s\<lparr>nac_dev := nd, dlog := dlog s @ [AllocChrdev r nd, RegisterDriver err]\<rparr>)"
  using assms by (simp_all add: nac_init_def nac_cleanup_def drv_runs split_def)

lemma start_wf: "pool_good m \<Longrightarrow> pool_claimed m = {} \<Longrightarrow> card_wf E {} (drv_start m)"
  by (simp add: card_wf_def drv_start_def) (simp add: zero_softc_def)

text \<open>Saving and restoring the configuration writes back what was read.\<close>

lemma config_restored:
  assumes "sc_device (nac_array s ! u) = Some d" and "u < length (nac_array s)"
  shows "\<exists>t w a b c e f g. nac_pciconfig_save E u s = Some (Ok (), t) \<and> nac_pciconfig_restore u t = Some (Ok 0, w) \<and>
     dlog t = dlog s @ [ReadConfig d PCI_BASE_ADDRESS_0 a, ReadConfig d PCI_BASE_ADDRESS_1 b, ReadConfig d PCI_BASE_ADDRESS_2 c,
       ReadConfig d PCI_COMMAND e, ReadConfig d PCI_INTERRUPT_LINE f, ReadConfig d PCI_LATENCY_TIMER g] \<and>
     dlog w = dlog t @ [WriteConfig d PCI_BASE_ADDRESS_0 a, WriteConfig d PCI_BASE_ADDRESS_1 b, WriteConfig d PCI_BASE_ADDRESS_2 c,
       WriteConfig d PCI_COMMAND e, WriteConfig d PCI_INTERRUPT_LINE (ucast (ucast f :: u8)), WriteConfig d PCI_LATENCY_TIMER (ucast (ucast g :: u8))]"
  using assms by (simp add: nac_pciconfig_save_def nac_pciconfig_restore_def drv_runs Let_def)

section \<open>Examples\<close>

text \<open>A memory module with two buffers of 256 MB, and a kernel that grants everything.\<close>

definition demo_mem :: mem_st where
  "demo_mem = (mem_start 2 '''' 10)\<lparr>vaddr := (replicate NNACS 0)[0 := 0xffff880010000000, 1 := 0xffff880020000000],
     msize := (replicate NNACS 0)[0 := NAC_MEM_SIZE, 1 := NAC_MEM_SIZE]\<rparr>"

definition demo_drv :: drv_env where
  "demo_drv = \<lparr>pages = demo_pages, clock = demo_clk_env 4 101, enable_device_at = \<lambda>_ _. 0, config_at = \<lambda>_ _ _. 16,
     region_start = \<lambda>_. 0xd0000000, region_len = \<lambda>_. 0x100000, region_busy_at = \<lambda>_ _ _. False,
     ioremap_at = \<lambda>_ a _. a + 0xffffc20000000000, enable_msi_at = \<lambda>_ _. 0, dev_irq_at = \<lambda>_ _. 16, request_irq_at = \<lambda>_ _. 0,
     cdev_add_at = \<lambda>_ _. 0, alloc_chrdev_at = \<lambda>_. (0, 0x0fe00000), register_driver_at = \<lambda>_. 0, dev_code = \<lambda>_. 0x5052,
     access_ok_at = \<lambda>_ _ _. True, uncopied_at = \<lambda>_ _ _. 0, io_byte_at = \<lambda>_ _. 0xff, remap_at = \<lambda>_ _ _. 0,
     high_memory = 0x80000000, stack_padding_at = \<lambda>_. 0xbeef\<rparr>"

lemma demo_mem_good: "pool_good demo_mem" "pool_claimed demo_mem = {}"
proof -
  have "filled demo_mem"
    by (auto simp: filled_def demo_mem_def NNACS_def nth_list_update)
  then show "pool_good demo_mem"
    by (auto simp: pool_good_def demo_mem_def mem_start_def NNACS_def nth_list_update split: if_splits)
  show "pool_claimed demo_mem = {}"
    by (auto simp: pool_claimed_def demo_mem_def mem_start_def NNACS_def)
qed

lemma demo_wf: "card_wf demo_drv {} (drv_start demo_mem)"
  by (rule start_wf [OF demo_mem_good])

lemma demo_stable: "irq_stable demo_drv"
  by (simp add: irq_stable_def demo_drv_def)

lemma demo_claim:
  "nac_mem_malloc 0 demo_mem = Some (Ok (0xffff880010000000, 0x10000000),
     demo_mem\<lparr>plog := [SpinLock, SpinUnlock], inuse := (inuse demo_mem)[0 := 1]\<rparr>)"
proof -
  have f: "nnacs demo_mem = 2" "inuse demo_mem ! 0 = 0" "vaddr demo_mem ! 0 = 0xffff880010000000" "msize demo_mem ! 0 = NAC_MEM_SIZE"
    "plog demo_mem = []"
    by (simp_all add: demo_mem_def mem_start_def NNACS_def)
  then have "first_slot (\<lambda>i. inuse demo_mem ! i = 0) (nat (nnacs demo_mem)) = 0"
    by (simp add: first_slot_def upt_conv_Cons)
  from nac_malloc_run [OF this [symmetric], of 0] show ?thesis
    by (simp add: f NAC_MEM_SIZE_def)
qed

lemma drv_start_simps [simp]:
  "nac_array (drv_start m) = replicate NAC_MAX_BOARDS zero_softc" "mem (drv_start m) = m" "dlog (drv_start m) = []"
  "nac_dev (drv_start m) = 0" "driver_data (drv_start m) = Map.empty"
  by (simp_all add: drv_start_def)

lemma demo_probe: "\<exists>t. nac_init_one demo_drv 7 (drv_start demo_mem) = Some (Ok 0, t) \<and> nodes_added (dlog t)"
proof -
  have find: "nac_find_unattached (drv_start demo_mem) = Some (Ok 0, drv_start demo_mem)"
    by (simp add: nac_find_unattached_def first_slot_def NAC_MAX_BOARDS_def NACMINORBITS_def upt_conv_Cons)
  have three: "[0..<3] = [0, 1, 2::nat]" by (simp add: upt_rec)
  have claim: "claim_buffer demo_drv u s = Some (Ok True, s\<lparr>mem := m, nac_array := (nac_array s)[u := (nac_array s ! u)\<lparr>
      sc_mmbuf := v, sc_buf := virt_to_phys demo_pages v, sc_buf_size := ucast z\<rparr>]\<rparr>)"
    if "nac_mem_malloc 0 (mem s) = Some (Ok (v, z), m)" "v \<noteq> 0" "u < length (nac_array s)" for s u v z m
    using that by (simp add: claim_buffer_def in_mem_def drv_runs demo_drv_def)
  have f: "enable_device_at demo_drv h d = 0" "region_start demo_drv d = 0xd0000000" "region_len demo_drv d = 0x100000"
    "region_busy_at demo_drv h a z = False" "ioremap_at demo_drv h a z = a + 0xffffc20000000000" "enable_msi_at demo_drv h d = 0"
    "dev_irq_at demo_drv h d = 16" "request_irq_at demo_drv h i = 0" "cdev_add_at demo_drv h n = 0" "config_at demo_drv h d reg = 16"
    for h d a z i n reg by (simp_all add: demo_drv_def)
  show ?thesis
    by (simp add: nac_init_one_def find attach_unit_def drv_runs set_latency_def map_window_def claim_resources_def claim
        demo_claim claim_irq_def finish_probe_def nac_pciconfig_save_def add_nodes_def nac_fops_array_def three
        f nodes_added_def Let_def NAC_MAX_BOARDS_def NACMINORBITS_def NAC_MIN_LATENCY_def)
qed

theorem probe_sets_up_witness:
  "\<exists>t u sc. nac_init_one demo_drv 7 (drv_start demo_mem) = Some (Ok 0, t) \<and> nac_array t = (replicate NAC_MAX_BOARDS zero_softc)[u := sc] \<and>
     sc_mmbuf sc \<in> pool_avail demo_mem \<and> sc_device sc = Some 7"
proof -
  obtain t where "nac_init_one demo_drv 7 (drv_start demo_mem) = Some (Ok 0, t)" using demo_probe by blast
  with probe_sets_up [OF demo_wf this demo_stable] show ?thesis by auto
qed

theorem probe_remove_roundtrip_witness:
  "\<exists>t v. nac_init_one demo_drv 7 (drv_start demo_mem) = Some (Ok 0, t) \<and> nac_remove_one demo_drv 7 t = Some (Ok (), v) \<and>
     nac_array v = replicate NAC_MAX_BOARDS zero_softc \<and> pool_claimed (mem v) = {}"
proof -
  obtain t where t: "nac_init_one demo_drv 7 (drv_start demo_mem) = Some (Ok 0, t)" "nodes_added (dlog t)" using demo_probe by blast
  have "uint (region_len demo_drv 7) < 2 ^ 32" by (simp add: demo_drv_def)
  with probe_remove_roundtrip [OF demo_wf t(1) demo_stable _ t(2)] t(1) show ?thesis
    by (auto simp: demo_mem_good)
qed

text \<open>A bus on which no device can be enabled.\<close>

definition dead_bus :: drv_env where
  "dead_bus = demo_drv\<lparr>enable_device_at := \<lambda>_ _. - E_IO\<rparr>"

lemma dead_probe: "\<exists>r t. nac_init_one dead_bus d s = Some (Ok r, t)"
proof -
  have at: "\<exists>t. attach_unit d u s = Some (Ok (), t)" for u by (simp add: attach_unit_def drv_runs)
  have en: "ask (\<lambda>h. enable_device_at dead_bus h d) (EnableDevice d) t = Some (Ok (- E_IO), t\<lparr>dlog := dlog t @ [EnableDevice d (- E_IO)]\<rparr>)" for t
    by (simp add: ask_run dead_bus_def)
  show ?thesis
    using at [of "first_slot (\<lambda>c. \<not> attached (nac_array s ! c)) NAC_MAX_BOARDS"]
    by (auto simp: nac_init_one_def find_unattached_run Let_def en errno_values)
qed

lemma dead_probes: "\<exists>rs t. probe_all dead_bus ds s = Some (Ok rs, t)"
proof (induction ds arbitrary: s)
  case (Cons d ds)
  obtain r t where "nac_init_one dead_bus d s = Some (Ok r, t)" using dead_probe by blast
  moreover obtain rs u where "probe_all dead_bus ds t = Some (Ok rs, u)" using Cons by blast
  ultimately show ?case by simp
qed simp

theorem failed_probes_use_up_units_witness:
  "\<exists>rs t. probe_all dead_bus [0, 1, 2, 3, 4, 5, 6, 7] (drv_start demo_mem) = Some (Ok rs, t) \<and>
     probe_all demo_drv [8, 9] t = Some (Ok [- E_NOMEM, - E_NOMEM], t)"
proof -
  obtain rs t where t: "probe_all dead_bus [0, 1, 2, 3, 4, 5, 6, 7] (drv_start demo_mem) = Some (Ok rs, t)" using dead_probes by blast
  have "probe_all demo_drv [8, 9] t = Some (Ok (replicate (length [8, 9 :: nat]) (- E_NOMEM)), t)"
    by (rule failed_probes_use_up_units [OF _ t]) simp_all
  with t show ?thesis by (simp add: numeral_2_eq_2)
qed

end
