(* ===== verification/NacFile.thy ===== *)
theory NacFile
  imports NacCard
begin

text \<open>
  The device nodes of a card (drv/nac_main.c, the middle part): open, release, read and write of
  the memory buffer and of the register window, the requests, and the mapping of both into a
  process. A file is passed in and out of a call; the memory of the kernel and of the calling
  process are maps from addresses to bytes.
\<close>

section \<open>Opening and releasing\<close>

text \<open>\<open>private_data\<close> is a pointer into the table of units, kept as the index.\<close>

record drv_file =
  private_data :: "nat option"
  f_op :: fops
  f_sync :: bool

definition NACUNIT :: "u32 \<Rightarrow> nat" where
  "NACUNIT iminor = unat (iminor AND NACMINORMASK)"

definition NACMINOR :: "u32 \<Rightarrow> nat" where
  "NACMINOR iminor = unat (drop_bit NACMINORBITS iminor)"

definition nac_drv_open :: "u32 \<Rightarrow> drv_file \<Rightarrow> (int \<times> drv_file) drv" where
  "nac_drv_open iminor fp =
     (let unit = NACUNIT iminor; minor = NACMINOR iminor in
     if private_data fp = None \<and> minor \<noteq> 0 \<and> length nac_fops_array \<le> minor then ret (- E_NODEV, fp)
     else let fp = (if private_data fp = None \<and> minor \<noteq> 0 then fp\<lparr>f_op := nac_fops_array ! minor\<rparr> else fp) in
     if private_data fp = None
     then if unit > NAC_MAX_BOARDS then ret (- E_NODEV, fp)
       else bnd (get_sc unit) (\<lambda>sc.
         ret (if \<not> attached sc then (- E_NODEV, fp) else (0, fp\<lparr>private_data := Some unit\<rparr>)))
     else ret (0, fp))"

text \<open>Calling through \<open>fp->private_data\<close>.\<close>

definition of_file :: "drv_file \<Rightarrow> (nat \<Rightarrow> nac_softc \<Rightarrow> 'a drv) \<Rightarrow> 'a drv" where
  "of_file fp k = (case private_data fp of None \<Rightarrow> fault | Some u \<Rightarrow> bnd (get_sc u) (k u))"

text \<open>A lock is cleared if the process that closes the node of the card itself still has it.\<close>

definition nac_release :: "u32 \<Rightarrow> int \<Rightarrow> drv_file \<Rightarrow> int drv" where
  "nac_release iminor tgid fp = of_file fp (\<lambda>u _.
     bnd (for_each [0..<NAC_LOCKS] (\<lambda>c. bnd (get_sc u) (\<lambda>sc.
       if lock_tgid (sc_lock sc ! c) = tgid \<and> NACMINOR iminor = 0
       then upd_sc u (\<lambda>sc. sc\<lparr>sc_lock := (sc_lock sc)[c := \<lparr>lock_pid = 0, lock_tgid = 0\<rparr>]\<rparr>)
       else ret ()))) (\<lambda>_. ret 0))"

datatype irqreturn = IRQ_NONE | IRQ_HANDLED

definition nac_interrupt :: "nat \<Rightarrow> irqreturn drv" where
  "nac_interrupt u = ret IRQ_HANDLED"

section \<open>Copying between kernel and process\<close>

definition peek :: "u64 \<Rightarrow> nat \<Rightarrow> (u64 \<Rightarrow> u8) \<Rightarrow> u8 list" where
  "peek a n m = map (\<lambda>k. m (a + of_nat k)) [0..<n]"

definition poke :: "u64 \<Rightarrow> u8 list \<Rightarrow> (u64 \<Rightarrow> u8) \<Rightarrow> (u64 \<Rightarrow> u8)" where
  "poke a bs m = (\<lambda>x. if unat (x - a) < length bs then bs ! unat (x - a) else m x)"

text \<open>
  Both answer the number of bytes that were not copied. What \<open>copy_from_user\<close> does not get, it
  fills with zeros at the destination.
\<close>

definition copy_to_user :: "drv_env \<Rightarrow> u64 \<Rightarrow> u8 list \<Rightarrow> nat drv" where
  "copy_to_user E to bs =
     bnd (read_st (\<lambda>s. uncopied_at E (dlog s) to (length bs))) (\<lambda>remain.
     bnd (modify (\<lambda>s. s\<lparr>umem := poke to (take (length bs - remain) bs) (umem s)\<rparr>)) (\<lambda>_.
     bnd (log_drv (CopyToUser to (length bs) remain)) (\<lambda>_. ret remain)))"

definition copy_from_user :: "drv_env \<Rightarrow> u64 \<Rightarrow> nat \<Rightarrow> (nat \<times> u8 list) drv" where
  "copy_from_user E from_addr n =
     bnd (read_st (\<lambda>s. (uncopied_at E (dlog s) from_addr n, peek from_addr n (umem s)))) (\<lambda>(remain, bs).
     bnd (log_drv (CopyFromUser from_addr n remain)) (\<lambda>_.
     ret (remain, take (n - remain) bs @ replicate remain 0)))"

text \<open>Cutting a transfer at the end of the area: \<open>*ppos\<close> is signed, the sum is not.\<close>

definition clip :: "u64 \<Rightarrow> u64 \<Rightarrow> u32 \<Rightarrow> u64" where
  "clip ppos cnt sz = (if ucast sz < ppos + cnt then ucast sz - ppos else cnt)"

text \<open>The end of all four transfers: the result and the new position.\<close>

definition transferred :: "u64 \<Rightarrow> u64 \<Rightarrow> nat \<Rightarrow> int \<times> u64" where
  "transferred ppos cnt remain =
     (if of_nat remain = cnt then - E_INVAL else sint (cnt - of_nat remain), ppos + (cnt - of_nat remain))"

text \<open>Access through a pointer of the unit, which faults when the pointer is null.\<close>

definition through :: "u64 \<Rightarrow> unit drv" where
  "through p = (if p = 0 then fault else ret ())"

lemma through_simps [simp]: "through 0 = fault" "p \<noteq> 0 \<Longrightarrow> through p = ret ()"
  by (simp_all add: through_def)

lemma through_bnd: "bnd (through p) k = (if p = 0 then fault else k ())"
  by (cases "p = 0") (auto simp: fun_eq_iff)

definition nac_mem_read :: "drv_env \<Rightarrow> drv_file \<Rightarrow> u64 \<Rightarrow> u64 \<Rightarrow> u64 \<Rightarrow> (int \<times> u64) drv" where
  "nac_mem_read E fp buf cnt ppos = of_file fp (\<lambda>u sc.
     if sc_mmbuf sc = 0 then ret (- E_NXIO, ppos)
     else if sint ppos \<ge> uint (sc_buf_size sc) then ret (0, ppos)
     else let cnt = clip ppos cnt (sc_buf_size sc) in
     if cnt = 0 then ret (0, ppos)
     else bnd (through (sc_mmbuf sc)) (\<lambda>_.
       bnd (read_st (\<lambda>s. peek (sc_mmbuf sc + ppos) (unat cnt) (kmem s))) (\<lambda>bs.
       bnd (copy_to_user E buf bs) (\<lambda>remain. ret (transferred ppos cnt remain)))))"

definition nac_iom_read :: "drv_env \<Rightarrow> drv_file \<Rightarrow> u64 \<Rightarrow> u64 \<Rightarrow> u64 \<Rightarrow> (int \<times> u64) drv" where
  "nac_iom_read E fp buf cnt ppos = of_file fp (\<lambda>u sc.
     if sint ppos > uint (sc_mmio_size sc) then ret (0, ppos)
     else let cnt = clip ppos cnt (sc_mmio_size sc) in
     if cnt = 0 then ret (0, ppos)
     else if ppos AND 3 \<noteq> 0 then ret (- E_FAULT, ppos)
     else if cnt AND 3 \<noteq> 0 then ret (- E_FAULT, ppos)
     else bnd (through (sc_mmio sc)) (\<lambda>_.
       bnd (read_st (\<lambda>s. peek (sc_mmio sc + ppos) (unat cnt) (io_byte_at E (dlog s)))) (\<lambda>bs.
       bnd (log_drv (IoRead (sc_mmio sc + ppos) (unat cnt))) (\<lambda>_.
       bnd (copy_to_user E buf bs) (\<lambda>remain. ret (transferred ppos cnt remain))))))"

definition nac_mem_write :: "drv_env \<Rightarrow> drv_file \<Rightarrow> u64 \<Rightarrow> u64 \<Rightarrow> u64 \<Rightarrow> (int \<times> u64) drv" where
  "nac_mem_write E fp buf cnt ppos = of_file fp (\<lambda>u sc.
     if sc_mmbuf sc = 0 then ret (- E_NXIO, ppos)
     else if sint ppos \<ge> uint (sc_buf_size sc) then ret (- E_NOSPC, ppos)
     else let cnt = clip ppos cnt (sc_buf_size sc) in
     if cnt = 0 then ret (- E_NOSPC, ppos)
     else bnd (through (sc_mmbuf sc)) (\<lambda>_.
       bnd (copy_from_user E buf (unat cnt)) (\<lambda>(remain, bs).
       bnd (modify (\<lambda>s. s\<lparr>kmem := poke (sc_mmbuf sc + ppos) bs (kmem s)\<rparr>)) (\<lambda>_.
       ret (transferred ppos cnt remain)))))"

definition nac_iom_write :: "drv_env \<Rightarrow> drv_file \<Rightarrow> u64 \<Rightarrow> u64 \<Rightarrow> u64 \<Rightarrow> (int \<times> u64) drv" where
  "nac_iom_write E fp buf cnt ppos = of_file fp (\<lambda>u sc.
     if sint ppos > uint (sc_mmio_size sc) then ret (0, ppos)
     else let cnt = clip ppos cnt (sc_mmio_size sc) in
     if cnt = 0 then ret (0, ppos)
     else if ppos AND 3 \<noteq> 0 then ret (- E_FAULT, ppos)
     else if cnt AND 3 \<noteq> 0 then ret (- E_FAULT, ppos)
     else bnd (through (sc_mmio sc)) (\<lambda>_.
       bnd (copy_from_user E buf (unat cnt)) (\<lambda>(remain, bs).
       bnd (log_drv (IoWrite (sc_mmio sc + ppos) bs)) (\<lambda>_.
       ret (transferred ppos cnt remain)))))"

section \<open>Requests\<close>

text \<open>The parts of a request number, and the two requests.\<close>

definition IOC_NR :: "u32 \<Rightarrow> u32" where "IOC_NR cmd = cmd AND 0xff"

definition IOC_TYPE :: "u32 \<Rightarrow> u32" where "IOC_TYPE cmd = drop_bit 8 cmd AND 0xff"

definition IOC_SIZE :: "u32 \<Rightarrow> u32" where "IOC_SIZE cmd = drop_bit 16 cmd AND 0x3fff"

definition IOC_DIR :: "u32 \<Rightarrow> u32" where "IOC_DIR cmd = drop_bit 30 cmd AND 3"

definition IOC_WRITE :: u32 where "IOC_WRITE = 1"

definition IOC_READ :: u32 where "IOC_READ = 2"

definition IOC :: "u32 \<Rightarrow> u32 \<Rightarrow> u32 \<Rightarrow> u32 \<Rightarrow> u32" where
  "IOC dir type nr sz = push_bit 30 dir OR push_bit 16 sz OR push_bit 8 type OR nr"

definition NAC_IOC_MAGIC :: u32 where "NAC_IOC_MAGIC = 0x69"

definition NAC_IOC_MAXNR :: u32 where "NAC_IOC_MAXNR = 4"

definition NACIOCINFO :: u32 where "NACIOCINFO = IOC IOC_READ NAC_IOC_MAGIC 2 20"

definition NACIOCDUCK :: u32 where "NACIOCDUCK = IOC (IOC_READ OR IOC_WRITE) NAC_IOC_MAGIC 4 96"

text \<open>Little-endian memory.\<close>

definition le_bytes :: "nat \<Rightarrow> u64 \<Rightarrow> u8 list" where
  "le_bytes n w = map (\<lambda>k. ucast (drop_bit (8 * k) w)) [0..<n]"

fun le_word :: "u8 list \<Rightarrow> u64" where
  "le_word [] = 0"
| "le_word (b # bs) = ucast b OR push_bit 8 (le_word bs)"

record nacinf =
  inf_id :: u32
  inf_phy_addr :: u32
  inf_buf_size :: u32
  inf_iom_size :: u32
  inf_device_code :: u16

text \<open>The 20 bytes of a \<open>nacinf_t\<close>; the last two belong to no field.\<close>

definition nacinf_bytes :: "nacinf \<Rightarrow> u16 \<Rightarrow> u8 list" where
  "nacinf_bytes i pad = le_bytes 4 (ucast (inf_id i)) @ le_bytes 4 (ucast (inf_phy_addr i)) @ le_bytes 4 (ucast (inf_buf_size i)) @
     le_bytes 4 (ucast (inf_iom_size i)) @ le_bytes 2 (ucast (inf_device_code i)) @ le_bytes 2 (ucast pad)"

text \<open>The 96 bytes of a \<open>duckinf_t\<close>.\<close>

definition duckinf_of :: "u8 list \<Rightarrow> duckinf" where
  "duckinf_of bs = (let q = (\<lambda>k. le_word (take 8 (drop (8 * k) bs))); w = (\<lambda>k. ucast (le_word (take 4 (drop (32 + 4 * k) bs)))) in
     \<lparr>Last_Ticks = q 0, Last_TSC = q 1, Stat_Start = q 2, Stat_End = q 3, Crystal_Freq = w 0, Synth_Freq = w 1, Resyncs = w 2,
      Bad_Pulses = w 3, Worst_Freq_Err = w 4, Worst_Phase_Err = w 5, Health_Thresh = w 6, Pulses = w 7,
      Single_Pulses_Missing = w 8, Longest_Pulse_Missing = w 9, Health = w 10, Sickness = w 11, Freq_Err = w 12,
      Phase_Err = w 13, Set_Duck_Field = w 14\<rparr>)"

definition duckinf_bytes :: "duckinf \<Rightarrow> u8 list \<Rightarrow> u8 list" where
  "duckinf_bytes i pad = concat (map (le_bytes 8) [Last_Ticks i, Last_TSC i, Stat_Start i, Stat_End i]) @
     concat (map (\<lambda>w. le_bytes 4 (ucast w)) [Crystal_Freq i, Synth_Freq i, Resyncs i, Bad_Pulses i, Worst_Freq_Err i,
       Worst_Phase_Err i, Health_Thresh i, Pulses i, Single_Pulses_Missing i, Longest_Pulse_Missing i, Health i, Sickness i,
       Freq_Err i, Phase_Err i, Set_Duck_Field i]) @ pad"

text \<open>A call into the clock of a unit.\<close>

definition in_clock :: "nat \<Rightarrow> 'a clk \<Rightarrow> 'a drv" where
  "in_clock u m = (\<lambda>s. case m \<lparr>duck = sc_duck (nac_array s ! u), clog = klog s\<rparr> of None \<Rightarrow> None
     | Some (r, c) \<Rightarrow> Some (r, s\<lparr>klog := clog c, nac_array := (nac_array s)[u := (nac_array s ! u)\<lparr>sc_duck := duck c\<rparr>]\<rparr>))"

definition ioctl_info_drv :: "drv_env \<Rightarrow> nac_softc \<Rightarrow> u64 \<Rightarrow> int drv" where
  "ioctl_info_drv E sc arg =
     (let info = \<lparr>inf_id = word_of_int (sc_unit sc), inf_phy_addr = ucast (sc_buf sc), inf_buf_size = sc_buf_size sc,
        inf_iom_size = sc_mmio_size sc, inf_device_code = (case sc_device sc of None \<Rightarrow> 0 | Some d \<Rightarrow> dev_code E d)\<rparr> in
     bnd (read_st (\<lambda>s. stack_padding_at E (dlog s))) (\<lambda>pad.
     bnd (copy_to_user E arg (nacinf_bytes info pad)) (\<lambda>remain. ret (if remain \<noteq> 0 then - E_FAULT else 0))))"

definition ioctl_duck_drv :: "drv_env \<Rightarrow> nat \<Rightarrow> u64 \<Rightarrow> int drv" where
  "ioctl_duck_drv E u arg =
     bnd (copy_from_user E arg 96) (\<lambda>(remain, bs).
     if remain \<noteq> 0 then ret (- E_FAULT)
     else bnd (in_clock u (duck_ioctl (clock E) (duckinf_of bs))) (\<lambda>(error, i).
       bnd (copy_to_user E arg (duckinf_bytes i (drop 92 bs))) (\<lambda>remain. ret (if remain \<noteq> 0 then - E_FAULT else error))))"

text \<open>The kernel's \<open>access_ok\<close> makes no difference between reading and writing.\<close>

definition nac_ioctl :: "drv_env \<Rightarrow> drv_file \<Rightarrow> u32 \<Rightarrow> u64 \<Rightarrow> int drv" where
  "nac_ioctl E fp cmd arg = of_file fp (\<lambda>u sc.
     if IOC_TYPE cmd \<noteq> NAC_IOC_MAGIC then ret (- E_NOTTY)
     else if IOC_NR cmd > NAC_IOC_MAXNR then ret (- E_NOTTY)
     else bnd (read_st (\<lambda>s. if IOC_DIR cmd AND IOC_READ \<noteq> 0 then \<not> access_ok_at E (dlog s) arg (IOC_SIZE cmd)
         else if IOC_DIR cmd AND IOC_WRITE \<noteq> 0 then \<not> access_ok_at E (dlog s) arg (IOC_SIZE cmd) else False)) (\<lambda>bad.
       if bad then ret (- E_FAULT)
       else if cmd = NACIOCINFO then ioctl_info_drv E sc arg
       else if cmd = NACIOCDUCK then ioctl_duck_drv E u arg
       else ret (- E_NOTTY)))"

section \<open>Mapping into a process\<close>

record vma =
  vm_start :: u64
  vm_end :: u64
  vm_pgoff :: u64
  vm_io :: bool
  vm_reserved :: bool
  vm_dontexpand :: bool

text \<open>
  \<open>off\<close>, \<open>physical\<close>, \<open>vsize\<close> and \<open>psize\<close> are of type \<open>loff_t\<close>: words of 64 bits that are compared as
  signed numbers, except with \<open>__pa(high_memory)\<close>, and shifted arithmetically.
\<close>

definition remap :: "drv_env \<Rightarrow> drv_file \<Rightarrow> vma \<Rightarrow> u64 \<Rightarrow> u64 \<Rightarrow> u64 \<Rightarrow> bool \<Rightarrow> (int \<times> vma) drv" where
  "remap E fp vma off physical psize keep =
     (let vsize = vm_end vma - vm_start vma in
     if off AND 0xfff \<noteq> 0 then ret (- E_NXIO, vma)
     else if psize <s vsize then ret (- E_INVAL, vma)
     else let vma = vma\<lparr>vm_io := vm_io vma \<or> high_memory E \<le> off \<or> f_sync fp, vm_reserved := True, vm_dontexpand := vm_dontexpand vma \<or> keep\<rparr>;
              pfn = signed_drop_bit 12 physical in
     bnd (ask (\<lambda>h. remap_at E h pfn vsize) (RemapPfn (vm_start vma) pfn vsize)) (\<lambda>r.
     ret (if r \<noteq> 0 then - E_AGAIN else 0, vma)))"

definition nac_mmap :: "drv_env \<Rightarrow> drv_file \<Rightarrow> vma \<Rightarrow> (int \<times> vma) drv" where
  "nac_mmap E fp vma = of_file fp (\<lambda>u sc.
     let off = push_bit 12 (vm_pgoff vma) in
     if sc_buf sc = 0 then ret (- E_NOMEM, vma)
     else remap E fp vma off (sc_buf sc + off) (ucast (sc_buf_size sc) - off) True)"

definition nac_iom_mmap :: "drv_env \<Rightarrow> drv_file \<Rightarrow> vma \<Rightarrow> (int \<times> vma) drv" where
  "nac_iom_mmap E fp vma = of_file fp (\<lambda>u sc.
     let off = push_bit 12 (vm_pgoff vma) in
     if sc_buf sc = 0 then ret (- E_NOMEM, vma)
     else case sc_device sc of None \<Rightarrow> fault
     | Some d \<Rightarrow> remap E fp vma off (ucast (ucast (region_start E d) :: u32) + off) (region_len E d - off) False)"

section \<open>The tables of operations\<close>

definition drv_read :: "drv_env \<Rightarrow> drv_file \<Rightarrow> u64 \<Rightarrow> u64 \<Rightarrow> u64 \<Rightarrow> (int \<times> u64) drv" where
  "drv_read E fp = (case f_op fp of Nac_iom_fops \<Rightarrow> nac_iom_read E fp | _ \<Rightarrow> nac_mem_read E fp)"

definition drv_write :: "drv_env \<Rightarrow> drv_file \<Rightarrow> u64 \<Rightarrow> u64 \<Rightarrow> u64 \<Rightarrow> (int \<times> u64) drv" where
  "drv_write E fp = (case f_op fp of Nac_iom_fops \<Rightarrow> nac_iom_write E fp | _ \<Rightarrow> nac_mem_write E fp)"

definition drv_mmap :: "drv_env \<Rightarrow> drv_file \<Rightarrow> vma \<Rightarrow> (int \<times> vma) drv" where
  "drv_mmap E fp = (case f_op fp of Nac_iom_fops \<Rightarrow> nac_iom_mmap E fp | _ \<Rightarrow> nac_mmap E fp)"

section \<open>Bytes\<close>

lemma length_peek [simp]: "length (peek a n m) = n"
  by (simp add: peek_def)

lemma poke_outside: "\<not> unat (x - a) < length bs \<Longrightarrow> poke a bs m x = m x"
  by (simp add: poke_def)

lemma peek_poke:
  assumes "length bs = n" and "n < 2 ^ 64"
  shows "peek a n (poke a bs m) = bs"
proof (rule nth_equalityI)
  fix k assume "k < length (peek a n (poke a bs m))"
  then have k: "k < n" by simp
  then have "unat (of_nat k :: u64) = k" using assms(2) by (simp add: unat_of_nat take_bit_nat_eq_self)
  then show "peek a n (poke a bs m) ! k = bs ! k" using k assms(1) by (simp add: peek_def poke_def)
qed (simp add: assms(1))

lemma le_word_bytes:
  "le_word (le_bytes n w) = take_bit (8 * n) w"
proof (induction n arbitrary: w)
  case (Suc n)
  have "le_bytes (Suc n) w = ucast w # le_bytes n (drop_bit 8 w)"
    by (simp add: le_bytes_def map_upt_Suc add.commute del: upt_Suc)
  then have "le_word (le_bytes (Suc n) w) = ucast (ucast w :: u8) OR push_bit 8 (take_bit (8 * n) (drop_bit 8 w))"
    using Suc by simp
  also have "\<dots> = take_bit (8 * Suc n) w"
    by (rule bit_word_eqI) (auto simp: bit_or_iff bit_ucast_iff bit_push_bit_iff bit_take_bit_iff bit_drop_bit_eq)
  finally show ?case .
qed (simp add: le_bytes_def)

lemma length_le_bytes [simp]: "length (le_bytes n w) = n"
  by (simp add: le_bytes_def)

lemma le_word_32 [simp]: "(ucast (le_word (le_bytes 4 (ucast (w :: u32)))) :: u32) = w"
  by (simp add: le_word_bytes) (rule bit_word_eqI, simp add: bit_ucast_iff bit_take_bit_iff)

lemma le_word_64 [simp]: "le_word (le_bytes 8 w) = w"
  by (simp add: le_word_bytes) (rule bit_word_eqI, simp add: bit_take_bit_iff)

text \<open>A request of the clock survives the way to the process and back.\<close>

lemma duckinf_roundtrip: "duckinf_of (duckinf_bytes i pad) = i"
  by (simp add: duckinf_of_def duckinf_bytes_def Let_def)

text \<open>What a process reads of a description.\<close>

definition nacinf_of :: "u8 list \<Rightarrow> nacinf" where
  "nacinf_of bs = (let w = (\<lambda>k. ucast (le_word (take 4 (drop (4 * k) bs)))) in
     \<lparr>inf_id = w 0, inf_phy_addr = w 1, inf_buf_size = w 2, inf_iom_size = w 3, inf_device_code = ucast (le_word (take 2 (drop 16 bs)))\<rparr>)"

lemma le_word_16 [simp]: "(ucast (le_word (le_bytes 2 (ucast (w :: u16)))) :: u16) = w"
  by (simp add: le_word_bytes) (rule bit_word_eqI, simp add: bit_ucast_iff bit_take_bit_iff)

lemma nacinf_roundtrip: "nacinf_of (nacinf_bytes i pad) = i"
  by (simp add: nacinf_of_def nacinf_bytes_def Let_def)

lemma length_nacinf [simp]: "length (nacinf_bytes i pad) = 20"
  by (simp add: nacinf_bytes_def)

section \<open>Reading and writing the buffer\<close>

text \<open>
  The kernel calls read and write with a position that is not negative and stays so, and copies
  at most as many bytes as it was asked for.
\<close>

definition vfs_pos :: "u64 \<Rightarrow> u64 \<Rightarrow> bool" where
  "vfs_pos ppos cnt \<longleftrightarrow> uint ppos + uint cnt < 2 ^ 63"

definition copies_ok :: "drv_env \<Rightarrow> bool" where
  "copies_ok E \<longleftrightarrow> (\<forall>h a n. uncopied_at E h a n \<le> n)"

lemma sint_pos: "uint (a :: u64) < 2 ^ 63 \<Longrightarrow> sint a = uint a"
  by (simp add: sint_uint signed_take_bit_int_eq_self order_trans [OF _ uint_ge_0])

lemma vfs_pos_sint:
  assumes "vfs_pos ppos cnt"
  shows "sint ppos = uint ppos" and "uint (ppos + cnt) = uint ppos + uint cnt"
proof -
  have b: "0 \<le> uint cnt" "0 \<le> uint ppos" "uint ppos + uint cnt < 2 ^ 63" using assms by (simp_all add: vfs_pos_def)
  then show "sint ppos = uint ppos" by (intro sint_pos) linarith
  show "uint (ppos + cnt) = uint ppos + uint cnt" using b by (simp add: uint_word_ariths)
qed

lemma uint_clip:
  assumes "vfs_pos ppos cnt" and "uint ppos < uint sz"
  shows "uint (clip ppos cnt sz) = min (uint cnt) (uint sz - uint ppos)"
proof -
  have z: "uint (ucast sz :: u64) = uint sz" by (simp add: uint_up_ucast is_up)
  have "uint (ucast sz - ppos) = uint sz - uint ppos" using assms(2) by (simp add: uint_sub_if' z)
  then show ?thesis using vfs_pos_sint(2) [OF assms(1)] by (auto simp: clip_def word_less_def z min_def)
qed

text \<open>The run of a write into the buffer, in its three outcomes.\<close>

lemma mem_write_run:
  assumes fp: "private_data fp = Some u" and sc: "sc = nac_array s ! u" and vfs: "vfs_pos ppos cnt"
    and n: "n = unat (clip ppos cnt (sc_buf_size sc))" and r: "r = uncopied_at E (dlog s) buf n"
  shows "nac_mem_write E fp buf cnt ppos s =
    (if sc_mmbuf sc = 0 then Some (Ok (- E_NXIO, ppos), s)
     else if uint (sc_buf_size sc) \<le> uint ppos \<or> cnt = 0 then Some (Ok (- E_NOSPC, ppos), s)
     else Some (Ok (transferred ppos (of_nat n) r), s\<lparr>kmem := poke (sc_mmbuf sc + ppos) (take (n - r) (peek buf n (umem s)) @ replicate r 0) (kmem s),
       dlog := dlog s @ [CopyFromUser buf n r]\<rparr>))"
proof -
  have z: "clip ppos cnt (sc_buf_size sc) = 0 \<longleftrightarrow> cnt = 0" if "uint ppos < uint (sc_buf_size sc)"
    using uint_clip [OF vfs that] that by (auto simp: word_uint_eq_iff min_def split: if_splits)
  show ?thesis
    using vfs_pos_sint(1) [OF vfs] z
    by (auto simp: nac_mem_write_def of_file_def fp sc [symmetric] drv_runs Let_def copy_from_user_def n r not_le)
qed

lemma mem_read_run:
  assumes fp: "private_data fp = Some u" and sc: "sc = nac_array s ! u" and vfs: "vfs_pos ppos cnt"
    and n: "n = unat (clip ppos cnt (sc_buf_size sc))" and r: "r = uncopied_at E (dlog s) buf n"
  shows "nac_mem_read E fp buf cnt ppos s =
    (if sc_mmbuf sc = 0 then Some (Ok (- E_NXIO, ppos), s)
     else if uint (sc_buf_size sc) \<le> uint ppos \<or> cnt = 0 then Some (Ok (0, ppos), s)
     else Some (Ok (transferred ppos (of_nat n) r), s\<lparr>umem := poke buf (take (n - r) (peek (sc_mmbuf sc + ppos) n (kmem s))) (umem s),
       dlog := dlog s @ [CopyToUser buf n r]\<rparr>))"
proof -
  have z: "clip ppos cnt (sc_buf_size sc) = 0 \<longleftrightarrow> cnt = 0" if "uint ppos < uint (sc_buf_size sc)"
    using uint_clip [OF vfs that] that by (auto simp: word_uint_eq_iff min_def split: if_splits)
  show ?thesis
    using vfs_pos_sint(1) [OF vfs] z
    by (auto simp: nac_mem_read_def of_file_def fp sc [symmetric] drv_runs Let_def copy_to_user_def n r not_le)
qed

text \<open>The bytes of an area.\<close>

definition in_area :: "u64 \<Rightarrow> u32 \<Rightarrow> u64 \<Rightarrow> bool" where
  "in_area v z x \<longleftrightarrow> uint (x - v) < uint z"

lemma in_area_range:
  assumes "uint v + uint z \<le> 2 ^ 64"
  shows "in_area v z x \<longleftrightarrow> uint v \<le> uint x \<and> uint x < uint v + uint z"
proof -
  have z: "uint z < 2 ^ 64" using uint_bounded [of z] by simp
  show ?thesis
  proof (cases "uint v \<le> uint x")
    case True
    then have "uint (x - v) = uint x - uint v" by (simp add: uint_sub_if')
    then show ?thesis using True by (auto simp: in_area_def)
  next
    case False
    then have "uint (x - v) = uint x - uint v + 2 ^ 64" by (simp add: uint_sub_if')
    then have "\<not> uint (x - v) < uint z" using z assms uint_ge_0 [of x] by linarith
    then show ?thesis using False by (simp add: in_area_def)
  qed
qed

text \<open>What a clipped transfer touches lies in the area.\<close>

lemma clip_in_area:
  assumes "vfs_pos ppos cnt" and "uint ppos < uint sz" and "unat (x - (v + ppos)) < unat (clip ppos cnt sz)"
  shows "in_area v sz x"
proof -
  define y where "y = x - (v + ppos)"
  have k: "uint y < uint sz - uint ppos"
    using assms(3) unfolding word_less_nat_alt [symmetric] word_less_def uint_clip [OF assms(1,2)] y_def [symmetric] by simp
  have "uint sz < 2 ^ 32" using uint_bounded [of sz] by simp
  then have "uint (y + ppos) = uint y + uint ppos"
    using k uint_ge_0 [of y] uint_ge_0 [of ppos] by (simp add: uint_word_ariths)
  moreover have "y + ppos = x - v" by (simp add: y_def)
  ultimately show ?thesis using k by (simp add: in_area_def)
qed

lemma mem_write_contained:
  assumes "private_data fp = Some u" and "vfs_pos ppos cnt" and "copies_ok E"
    and "nac_mem_write E fp buf cnt ppos s = Some (Ok r, t)" and "\<not> in_area (sc_mmbuf (nac_array s ! u)) (sc_buf_size (nac_array s ! u)) x"
  shows "kmem t x = kmem s x"
proof -
  define n where "n = unat (clip ppos cnt (sc_buf_size (nac_array s ! u)))"
  define q where "q = uncopied_at E (dlog s) buf n"
  have "q \<le> n" using assms(3) by (simp add: copies_ok_def q_def)
  define bs where "bs = take (n - q) (peek buf n (umem s)) @ replicate q 0"
  have len: "length bs = n" using \<open>q \<le> n\<close> by (simp add: bs_def)
  have out: "\<not> unat (x - (sc_mmbuf (nac_array s ! u) + ppos)) < length bs" if "uint ppos < uint (sc_buf_size (nac_array s ! u))"
    using clip_in_area [OF assms(2) that] assms(5) unfolding len n_def by blast
  note run = mem_write_run [OF assms(1) refl assms(2) n_def q_def, folded bs_def]
  show ?thesis
  proof (cases "sc_mmbuf (nac_array s ! u) = 0 \<or> uint (sc_buf_size (nac_array s ! u)) \<le> uint ppos \<or> cnt = 0")
    case True
    then show ?thesis using assms(4) run by (auto split: if_splits)
  next
    case False
    then have "t = s\<lparr>kmem := poke (sc_mmbuf (nac_array s ! u) + ppos) bs (kmem s), dlog := dlog s @ [CopyFromUser buf n q]\<rparr>"
      using assms(4) run by simp
    then show ?thesis using False poke_outside [OF out] by (simp add: not_le)
  qed
qed

text \<open>
  C15. What is written into the buffer through a file is read back: the write stores as many of the
  bytes as fit between the position and the end of the buffer and moves on by that many; a read at
  the old position then delivers the same bytes and moves on by the same number.
\<close>

theorem mem_write_read:
  assumes "private_data fp = Some u" and "sc_mmbuf (nac_array s ! u) \<noteq> 0" and "vfs_pos ppos cnt" and "cnt \<noteq> 0"
    and "uint ppos < uint (sc_buf_size (nac_array s ! u))" and full: "\<And>h a k. uncopied_at E h a k = 0"
    and n: "n = nat (min (uint cnt) (uint (sc_buf_size (nac_array s ! u)) - uint ppos))"
  shows "\<exists>t w. nac_mem_write E fp src cnt ppos s = Some (Ok (int n, ppos + of_nat n), t) \<and>
     nac_mem_read E fp dst cnt ppos t = Some (Ok (int n, ppos + of_nat n), w) \<and>
     peek dst n (umem w) = peek src n (umem s) \<and> kmem w = kmem t \<and> nac_array w = nac_array s \<and> mem w = mem s"
proof -
  let ?sc = "nac_array s ! u"
  have nc: "n = unat (clip ppos cnt (sc_buf_size ?sc))"
    using uint_clip [OF assms(3,5)] n by (simp add: unat_eq_nat_uint)
  have pos: "0 < uint cnt" using assms(4) uint_ge_0 [of cnt] by (simp add: word_uint_eq_iff order_less_le)
  have "uint (sc_buf_size ?sc) < 2 ^ 32" using uint_bounded [of "sc_buf_size ?sc"] by simp
  then have "uint (sc_buf_size ?sc) - uint ppos < 2 ^ 32" using uint_ge_0 [of ppos] by linarith
  then have n0: "0 < n" "n < 2 ^ 32" using n pos assms(5) by (simp_all add: nat_less_iff min_less_iff_disj)
  have tr: "transferred ppos (of_nat n) 0 = (int n, ppos + of_nat n)"
  proof -
    have "uint (of_nat n :: u64) = int n" using n0 by (simp add: unsigned_of_nat take_bit_nat_eq_self)
    then show ?thesis using n0 sint_pos [of "of_nat n"] by (auto simp: transferred_def word_uint_eq_iff [of "0 :: u64"])
  qed
  let ?t = "s\<lparr>kmem := poke (sc_mmbuf ?sc + ppos) (peek src n (umem s)) (kmem s), dlog := dlog s @ [CopyFromUser src n 0]\<rparr>"
  let ?w = "?t\<lparr>umem := poke dst (peek src n (umem s)) (umem s), dlog := dlog ?t @ [CopyToUser dst n 0]\<rparr>"
  have wr: "nac_mem_write E fp src cnt ppos s = Some (Ok (int n, ppos + of_nat n), ?t)"
    using mem_write_run [OF assms(1) refl assms(3) nc full [symmetric], of src] assms(2,4,5) by (simp add: tr)
  have pk: "peek (sc_mmbuf ?sc + ppos) n (kmem ?t) = peek src n (umem s)" using n0 by (simp add: peek_poke)
  have nt: "n = unat (clip ppos cnt (sc_buf_size (nac_array ?t ! u)))" using nc by simp
  have rd: "nac_mem_read E fp dst cnt ppos ?t = Some (Ok (int n, ppos + of_nat n), ?w)"
    using mem_read_run [OF assms(1) refl assms(3) nt full [of "dlog ?t" dst n, symmetric]] assms(2,4,5) pk by (simp add: tr)
  have "peek dst n (umem ?w) = peek src n (umem s)" using n0 by (simp add: peek_poke)
  with wr rd show ?thesis by (intro exI [of _ ?t] exI [of _ ?w]) simp
qed

section \<open>Requests\<close>

lemma request_parts:
  "IOC_TYPE NACIOCINFO = NAC_IOC_MAGIC" "IOC_NR NACIOCINFO = 2" "IOC_DIR NACIOCINFO = IOC_READ" "IOC_SIZE NACIOCINFO = 20"
  "IOC_TYPE NACIOCDUCK = NAC_IOC_MAGIC" "IOC_NR NACIOCDUCK = 4" "IOC_DIR NACIOCDUCK = 3" "IOC_SIZE NACIOCDUCK = 96"
  "NACIOCINFO \<noteq> NACIOCDUCK" "NACIOCDUCK \<noteq> NACIOCINFO"
  by (simp_all add: IOC_TYPE_def IOC_NR_def IOC_DIR_def IOC_SIZE_def NACIOCINFO_def NACIOCDUCK_def IOC_def IOC_READ_def
      IOC_WRITE_def NAC_IOC_MAGIC_def push_bit_eq_mult drop_bit_eq_div)

definition card_info :: "drv_env \<Rightarrow> nac_softc \<Rightarrow> nacinf" where
  "card_info E sc = \<lparr>inf_id = word_of_int (sc_unit sc), inf_phy_addr = ucast (sc_buf sc), inf_buf_size = sc_buf_size sc,
     inf_iom_size = sc_mmio_size sc, inf_device_code = (case sc_device sc of None \<Rightarrow> 0 | Some d \<Rightarrow> dev_code E d)\<rparr>"

lemma ioctl_describe_run:
  assumes "private_data fp = Some u" and "access_ok_at E (dlog s) arg 20" and "uncopied_at E (dlog s) arg 20 = 0"
  shows "nac_ioctl E fp NACIOCINFO arg s = Some (Ok 0,
     s\<lparr>umem := poke arg (nacinf_bytes (card_info E (nac_array s ! u)) (stack_padding_at E (dlog s))) (umem s),
       dlog := dlog s @ [CopyToUser arg 20 0]\<rparr>)"
  using assms
  by (simp add: nac_ioctl_def of_file_def drv_runs request_parts NAC_IOC_MAXNR_def IOC_READ_def ioctl_info_drv_def copy_to_user_def
      card_info_def Let_def)

text \<open>A request to a unit without a clock follows the null pointer.\<close>

lemma no_clock:
  assumes "duck c = None"
  shows "get_duck c = Some (Fault, c)" and "upd_duck f c = Some (Fault, c)" and "duck_clear_stats C c = Some (Fault, c)"
  using assms by (simp_all add: get_duck_def upd_duck_def duck_clear_stats_def)

lemma duck_ioctl_no_clock: "duck c = None \<Longrightarrow> duck_ioctl C i c = Some (Fault, c)"
  by (cases "Set_Duck_Field i AND Set_Duck_Clear_Stats = 0"; cases "Set_Duck_Field i AND Set_Duck_Health_Thresh = 0")
     (simp_all add: duck_ioctl_def no_clock)

lemma ioctl_duck_run:
  assumes "private_data fp = Some u" and "access_ok_at E (dlog s) arg 96" and "uncopied_at E (dlog s) arg 96 = 0"
    and "sc_duck (nac_array s ! u) = None"
  shows "\<exists>t. nac_ioctl E fp NACIOCDUCK arg s = Some (Fault, t)"
  using assms
  by (simp add: nac_ioctl_def of_file_def drv_runs request_parts NAC_IOC_MAXNR_def IOC_READ_def ioctl_duck_drv_def copy_from_user_def
      in_clock_def duck_ioctl_no_clock)

section \<open>Device numbers\<close>

lemma node_number_parts:
  assumes "u < NAC_MAX_BOARDS" and "k < 3"
  shows "NACUNIT (node_number k u) = u" and "NACMINOR (node_number k u) = k" and "node_number k u AND 0xfffff = node_number k u"
proof -
  have u: "u \<in> {0, 1, 2, 3, 4, 5, 6, 7}" using assms(1) by (auto simp: NAC_MAX_BOARDS_def NACMINORBITS_def)
  have k: "k \<in> {0, 1, 2}" using assms(2) by auto
  have "NACUNIT (node_number k u) = u \<and> NACMINOR (node_number k u) = k \<and> node_number k u AND 0xfffff = node_number k u"
    using u k by (auto simp: node_number_def NACUNIT_def NACMINOR_def NACMINORMASK_def NACMINORBITS_def NAC_MAX_BOARDS_def)
  then show "NACUNIT (node_number k u) = u" "NACMINOR (node_number k u) = k" "node_number k u AND 0xfffff = node_number k u"
    by simp_all
qed

text \<open>
  C31. The device numbers lead back to where they came from: opening the node that a probe made
  for unit \<open>u\<close> and operations \<open>k\<close> gives a file on unit \<open>u\<close> with these operations, if the unit is
  still in use; a number beyond the three kinds of node is refused and so is a free unit.
\<close>

theorem nodes_open_their_unit:
  assumes "u < NAC_MAX_BOARDS" and "k < 3" and "nac_dev s AND 0xfffff = 0"
  shows "nac_drv_open ((nac_dev s OR node_number k u) AND 0xfffff) \<lparr>private_data = None, f_op = nac_fops_array ! k, f_sync = b\<rparr> s =
      Some (Ok (if attached (nac_array s ! u) then (0, \<lparr>private_data = Some u, f_op = nac_fops_array ! k, f_sync = b\<rparr>)
        else (- E_NODEV, \<lparr>private_data = None, f_op = nac_fops_array ! k, f_sync = b\<rparr>)), s) \<and>
    (3 \<le> NACMINOR i \<longrightarrow> nac_drv_open i \<lparr>private_data = None, f_op = f, f_sync = b\<rparr> s =
      Some (Ok (- E_NODEV, \<lparr>private_data = None, f_op = f, f_sync = b\<rparr>), s))"
proof -
  have "(nac_dev s OR node_number k u) AND 0xfffff = (nac_dev s AND 0xfffff) OR (node_number k u AND 0xfffff)"
    by (rule bit_word_eqI) (auto simp: bit_and_iff bit_or_iff)
  then have i: "(nac_dev s OR node_number k u) AND 0xfffff = node_number k u" using node_number_parts(3) [OF assms(1,2)] assms(3) by simp
  have "\<not> NAC_MAX_BOARDS < u" "\<not> length nac_fops_array \<le> k" using assms(1,2) by (simp_all add: nac_fops_array_def)
  then show ?thesis
    unfolding i by (simp add: nac_drv_open_def node_number_parts [OF assms(1,2)] drv_runs Let_def nac_fops_array_def)
qed

section \<open>Mapping\<close>

lemma page_aligned: "push_bit 12 (x :: u64) AND 0xfff = 0"
proof -
  have "(0xfff :: u64) = mask 12" by (simp add: mask_eq_exp_minus_1)
  then have "push_bit 12 x AND 0xfff = take_bit 12 (push_bit 12 x)" by (simp only: take_bit_eq_mask)
  also have "\<dots> = 0" by (simp add: take_bit_push_bit)
  finally show ?thesis .
qed

lemma sint_of_range: "- (2 ^ 63) \<le> k \<Longrightarrow> k < 2 ^ 63 \<Longrightarrow> sint (word_of_int k :: u64) = k"
  by (simp add: signed_of_int signed_take_bit_int_eq_self)

lemma uint_of_range: "0 \<le> k \<Longrightarrow> k < 2 ^ 64 \<Longrightarrow> uint (word_of_int k :: u64) = k"
  by (simp add: uint_word_of_int)

lemma word_of_int_mod: "(word_of_int (k mod 2 ^ 64) :: u64) = word_of_int k"
  by (simp add: word_of_int_eq_iff take_bit_eq_mod)

lemma mmap_run:
  assumes fp: "private_data fp = Some u" and sc: "sc = nac_array s ! u" and buf: "sc_buf sc \<noteq> 0" "uint (sc_buf sc) < 2 ^ 32"
    and off: "push_bit 12 (vm_pgoff vma) = word_of_int k" "- (2 ^ 62) \<le> k" "k < 2 ^ 63"
    and v: "v = vm_end vma - vm_start vma" "0 < uint v" "uint v < 2 ^ 47"
    and pfn: "pfn = word_of_int ((uint (sc_buf sc) + k) div 4096)" and r: "r = remap_at E (dlog s) pfn v"
  shows "nac_mmap E fp vma s =
    (if uint (sc_buf_size sc) - k < uint v then Some (Ok (- E_INVAL, vma), s)
     else Some (Ok (if r \<noteq> 0 then - E_AGAIN else 0,
         vma\<lparr>vm_io := vm_io vma \<or> high_memory E \<le> push_bit 12 (vm_pgoff vma) \<or> f_sync fp, vm_reserved := True, vm_dontexpand := True\<rparr>),
       s\<lparr>dlog := dlog s @ [RemapPfn (vm_start vma) pfn v r]\<rparr>))"
proof -
  let ?z = "uint (sc_buf_size sc)" and ?b = "uint (sc_buf sc)"
  have z: "0 \<le> ?z" "?z < 2 ^ 32" using uint_bounded [of "sc_buf_size sc"] by simp_all
  have ps: "ucast (sc_buf_size sc) - push_bit 12 (vm_pgoff vma) = (word_of_int (?z - k) :: u64)"
    unfolding off(1) ucast_eq wi_hom_syms ..
  have "- (2 ^ 63) \<le> ?z - k" using z(1) off(3) by linarith
  moreover have "?z - k < 2 ^ 63" using z(2) off(2) by simp
  ultimately have "sint (word_of_int (?z - k) :: u64) = ?z - k" by (rule sint_of_range)
  moreover have "sint v = uint v" using v(3) by (intro sint_pos) simp
  ultimately have less: "(word_of_int (?z - k) :: u64) <s v \<longleftrightarrow> ?z - k < uint v" by (simp add: word_sless_alt)
  have "signed_drop_bit 12 (sc_buf sc + push_bit 12 (vm_pgoff vma)) = pfn" if "\<not> ?z - k < uint v"
  proof -
    have sum: "sc_buf sc + push_bit 12 (vm_pgoff vma) = word_of_int (?b + k)" unfolding off(1) by simp
    have pow: "(2 :: int) ^ 62 \<le> 2 ^ 63" "(2 :: int) ^ 32 + 2 ^ 32 \<le> 2 ^ 63" by simp_all
    have "- (2 ^ 63) \<le> ?b + k" using pow(1) off(2) uint_ge_0 [of "sc_buf sc"] by linarith
    moreover have "?b + k < 2 ^ 63" using pow(2) that z(2) v(2) buf(2) by linarith
    ultimately have "sint (word_of_int (?b + k) :: u64) = ?b + k" by (intro sint_of_range)
    then have "sint (signed_drop_bit 12 (sc_buf sc + push_bit 12 (vm_pgoff vma))) = (?b + k) div 4096"
      unfolding sum by (simp add: sint_signed_drop_bit_eq drop_bit_eq_div)
    then show ?thesis unfolding pfn by (metis of_int_sint scast_id)
  qed
  then show ?thesis
    using buf(1) less
    by (simp add: nac_mmap_def of_file_def fp sc [symmetric] drv_runs Let_def remap_def page_aligned ps v(1) [symmetric] r [symmetric] cong: if_cong)
qed

text \<open>
  C16. What a process gets to see. A mapping of the buffer whose offset is not negative is granted
  only inside the buffer: the page frames lie between its physical address and its end. But the
  offset is signed and its sign is not tested: every range of physical memory below the buffer is
  granted to a process that asks for the page offset of a negative distance, which is below
  2^52 as the kernel demands.
\<close>

theorem mmap_ranges:
  assumes fp: "private_data fp = Some u" and sc: "sc = nac_array s ! u"
    and buf: "sc_buf sc \<noteq> 0" "uint (sc_buf sc) < 2 ^ 32" "4096 dvd uint (sc_buf sc)"
    and v: "v = vm_end vma - vm_start vma" "0 < uint v" "uint v < 2 ^ 47"
  shows "(\<forall>w t. uint (vm_pgoff vma) < 2 ^ 51 \<longrightarrow> nac_mmap E fp vma s = Some (Ok (0, w), t) \<longrightarrow>
       (\<exists>pfn. dlog t = dlog s @ [RemapPfn (vm_start vma) pfn v 0] \<and> uint (sc_buf sc) \<le> uint pfn * 4096 \<and>
          uint pfn * 4096 + uint v \<le> uint (sc_buf sc) + uint (sc_buf_size sc))) \<and>
     (\<forall>p. 0 \<le> p \<and> p * 4096 + uint v \<le> uint (sc_buf sc) \<and> remap_at E (dlog s) (word_of_int p) v = 0 \<longrightarrow>
       (\<exists>pgoff w t. uint pgoff < 2 ^ 52 \<and> nac_mmap E fp (vma\<lparr>vm_pgoff := pgoff\<rparr>) s = Some (Ok (0, w), t) \<and>
          dlog t = dlog s @ [RemapPfn (vm_start vma) (word_of_int p) v 0]))"
proof (intro conjI allI impI)
  fix w t
  let ?k = "uint (vm_pgoff vma) * 4096" and ?b = "uint (sc_buf sc)"
  assume small: "uint (vm_pgoff vma) < 2 ^ 51" and run: "nac_mmap E fp vma s = Some (Ok (0, w), t)"
  have off: "push_bit 12 (vm_pgoff vma) = word_of_int ?k"
    by (simp add: push_bit_eq_mult)
  have "0 \<le> ?k" by simp
  then have "- (2 ^ 62) \<le> ?k" by (rule order_trans [rotated]) simp
  moreover have "?k < 2 ^ 63" using small by simp
  ultimately have kb: "- (2 ^ 62) \<le> ?k" "?k < 2 ^ 63" .
  define pfn :: u64 where "pfn = word_of_int ((?b + ?k) div 4096)"
  have r: "\<not> uint (sc_buf_size sc) - ?k < uint v" "dlog t = dlog s @ [RemapPfn (vm_start vma) pfn v 0]"
    using run mmap_run [OF fp sc buf(1,2) off kb v pfn_def refl, of E]
    by (auto simp: errno_values split: if_splits)
  obtain c where c: "?b = 4096 * c" using buf(3) by (rule dvdE)
  have d: "(?b + ?k) div 4096 = c + uint (vm_pgoff vma)" by (simp add: c)
  have "0 \<le> c" "c < 2 ^ 20" using buf(2) uint_ge_0 [of "sc_buf sc"] unfolding c by simp_all
  then have "uint pfn = c + uint (vm_pgoff vma)"
    unfolding pfn_def d using small by (intro uint_of_range) simp_all
  then have "uint pfn * 4096 = ?b + ?k" by (simp add: c)
  with r show "\<exists>pfn. dlog t = dlog s @ [RemapPfn (vm_start vma) pfn v 0] \<and> ?b \<le> uint pfn * 4096 \<and>
      uint pfn * 4096 + uint v \<le> ?b + uint (sc_buf_size sc)"
    by (intro exI [of _ pfn]) simp
next
  fix p
  let ?b = "uint (sc_buf sc)"
  assume p: "0 \<le> p \<and> p * 4096 + uint v \<le> ?b \<and> remap_at E (dlog s) (word_of_int p) v = 0"
  obtain c where c: "?b = 4096 * c" using buf(3) by (rule dvdE)
  have c32: "0 \<le> c" "c < 2 ^ 20" using buf(2) uint_ge_0 [of "sc_buf sc"] unfolding c by simp_all
  define pgoff :: u64 where "pgoff = word_of_int ((p - c) mod 2 ^ 52)"
  have small: "uint pgoff = (p - c) mod 2 ^ 52" by (simp add: pgoff_def uint_word_of_int)
  let ?k = "(p - c) * 4096"
  have "push_bit 12 pgoff = (word_of_int ((p - c) mod 2 ^ 52 * 4096) :: u64)"
    by (simp add: pgoff_def push_bit_eq_mult mult.commute)
  also have "(p - c) mod 2 ^ 52 * 4096 = ?k mod 2 ^ 64" using mod_mult_mult2 [of "p - c" 4096 "2 ^ 52"] by simp
  also have "(word_of_int (?k mod 2 ^ 64) :: u64) = word_of_int ?k" by (rule word_of_int_mod)
  finally have off: "push_bit 12 (vm_pgoff (vma\<lparr>vm_pgoff := pgoff\<rparr>)) = word_of_int ?k" by simp
  have "p * 4096 \<le> c * 4096" using p v(2) unfolding c by linarith
  then have "?k \<le> 0" by (simp add: algebra_simps)
  then have "?k < 2 ^ 63" by (rule le_less_trans) simp
  moreover have "- (2 ^ 62) \<le> ?k" using p c32 by (simp add: algebra_simps)
  moreover have "(?b + ?k) div 4096 = p" unfolding c by (simp add: algebra_simps)
  ultimately have k: "- (2 ^ 62) \<le> ?k" "?k < 2 ^ 63" "(?b + ?k) div 4096 = p" by blast+
  have "uint v \<le> - ?k" using p unfolding c by (simp add: algebra_simps)
  then have fits: "\<not> uint (sc_buf_size sc) - ?k < uint v" using uint_ge_0 [of "sc_buf_size sc"] by linarith
  have "nac_mmap E fp (vma\<lparr>vm_pgoff := pgoff\<rparr>) s = Some (Ok (0, vma\<lparr>vm_pgoff := pgoff,
      vm_io := vm_io vma \<or> high_memory E \<le> push_bit 12 pgoff \<or> f_sync fp, vm_reserved := True, vm_dontexpand := True\<rparr>),
      s\<lparr>dlog := dlog s @ [RemapPfn (vm_start vma) (word_of_int p) v 0]\<rparr>)"
  proof -
    have "word_of_int p = (word_of_int ((?b + ?k) div 4096) :: u64)" by (simp only: k(3))
    moreover have "v = vm_end (vma\<lparr>vm_pgoff := pgoff\<rparr>) - vm_start (vma\<lparr>vm_pgoff := pgoff\<rparr>)" by (simp add: v(1))
    moreover have "0 = remap_at E (dlog s) (word_of_int p) v" using p by simp
    ultimately show ?thesis using mmap_run [OF fp sc buf(1,2) off k(1,2) _ v(2,3), where E = E and pfn = "word_of_int p" and r = 0] fits
      by (simp del: push_bit_of_int)
  qed
  then show "\<exists>pgoff w t. uint pgoff < 2 ^ 52 \<and> nac_mmap E fp (vma\<lparr>vm_pgoff := pgoff\<rparr>) s = Some (Ok (0, w), t) \<and>
      dlog t = dlog s @ [RemapPfn (vm_start vma) (word_of_int p) v 0]"
    using small by (intro exI [of _ pgoff]) simp
qed


section \<open>The register window\<close>

lemma low_bits: "(x :: u64) AND 3 = 0 \<longleftrightarrow> 4 dvd uint x"
proof -
  have "(3 :: u64) = mask 2" by (simp add: mask_eq_exp_minus_1)
  then have "x AND 3 = take_bit 2 x" by (simp only: take_bit_eq_mask)
  then show ?thesis by (simp add: word_uint_eq_iff unsigned_take_bit_eq dvd_eq_mod_eq_0)
       (simp add: take_bit_eq_mod)
qed

text \<open>Where a transfer of the window may go.\<close>

definition in_window :: "nac_softc \<Rightarrow> u64 \<Rightarrow> nat \<Rightarrow> bool" where
  "in_window sc ppos n \<longleftrightarrow> 0 < n \<and> 4 dvd uint ppos \<and> 4 dvd int n \<and> uint ppos + int n \<le> uint (sc_mmio_size sc)"

lemma window_clip:
  assumes vfs: "vfs_pos ppos cnt" and "\<not> uint (sc_mmio_size sc) < sint ppos" and c: "c = clip ppos cnt (sc_mmio_size sc)"
    and "c \<noteq> 0" and "ppos AND 3 = 0" and "c AND 3 = 0"
  shows "in_window sc ppos (unat c)"
proof -
  have le: "uint ppos \<le> uint (sc_mmio_size sc)" using assms(2) vfs_pos_sint(1) [OF vfs] by simp
  have "uint ppos \<noteq> uint (sc_mmio_size sc)"
  proof
    assume e: "uint ppos = uint (sc_mmio_size sc)"
    then have "(ucast (sc_mmio_size sc) :: u64) = ppos" by (simp add: word_uint_eq_iff uint_up_ucast is_up)
    moreover have "cnt = 0" if "\<not> ppos < ppos + cnt"
      using that vfs_pos_sint(2) [OF vfs] uint_ge_0 [of cnt] by (simp add: word_less_def word_uint_eq_iff)
    ultimately show False using assms(4) unfolding c clip_def by (auto split: if_splits)
  qed
  then have "uint c = min (uint cnt) (uint (sc_mmio_size sc) - uint ppos)" using uint_clip [OF vfs] le unfolding c by simp
  moreover have "0 < unat c" using assms(4) by (simp add: unat_gt_0)
  ultimately show ?thesis using assms(5,6) by (simp add: in_window_def low_bits unat_eq_nat_uint [symmetric] min_def split: if_splits)
qed

text \<open>
  The registers are read and written through a file only inside the window of the unit, in
  whole words at word addresses; every other request is answered without touching a register.
\<close>

theorem window_access:
  assumes fp: "private_data fp = Some u" and vfs: "vfs_pos ppos cnt" and copies: "copies_ok E"
  shows "(nac_iom_write E fp buf cnt ppos s = Some (Ok (r, p), t) \<longrightarrow> t = s \<and> p = ppos \<and> r \<in> {0, - E_FAULT} \<or>
       (\<exists>n q bs. in_window (nac_array s ! u) ppos n \<and> length bs = n \<and>
          dlog t = dlog s @ [CopyFromUser buf n q, IoWrite (sc_mmio (nac_array s ! u) + ppos) bs])) \<and>
     (nac_iom_read E fp buf cnt ppos s = Some (Ok (r, p), t) \<longrightarrow> t = s \<and> p = ppos \<and> r \<in> {0, - E_FAULT} \<or>
       (\<exists>n q. in_window (nac_array s ! u) ppos n \<and>
          dlog t = dlog s @ [IoRead (sc_mmio (nac_array s ! u) + ppos) n, CopyToUser buf n q]))"
proof -
  define c where "c = clip ppos cnt (sc_mmio_size (nac_array s ! u))"
  have le: "uncopied_at E h a n \<le> n" for h a n using copies by (simp add: copies_ok_def)
  show ?thesis
    using window_clip [OF vfs _ c_def] le [of "dlog s" buf "unat c"]
    by (auto simp: nac_iom_write_def nac_iom_read_def of_file_def fp drv_runs Let_def copy_from_user_def copy_to_user_def
        c_def [symmetric] through_bnd split: if_splits)
qed

section \<open>Examples\<close>

definition demo_unit :: nac_softc where
  "demo_unit = zero_softc\<lparr>sc_flags := 1, sc_device := Some 7, sc_mmio := 0xffffc200d0000000, sc_mmio_size := 0x100000,
     sc_mmbuf := 0xffff880010000000, sc_buf := 0x10000000, sc_buf_size := 0x10000000\<rparr>"

definition demo_table :: drv_st where
  "demo_table = (drv_start demo_mem)\<lparr>nac_array := (replicate NAC_MAX_BOARDS zero_softc)[0 := demo_unit], nac_dev := 0x0fe00000\<rparr>"

definition demo_file :: "fops \<Rightarrow> drv_file" where
  "demo_file f = \<lparr>private_data = Some 0, f_op = f, f_sync = False\<rparr>"

lemma demo_table_simps [simp]:
  "private_data (demo_file f) = Some 0" "nac_array demo_table ! 0 = demo_unit" "sc_mmbuf demo_unit = 0xffff880010000000"
  "sc_buf demo_unit = 0x10000000" "sc_buf_size demo_unit = 0x10000000" "sc_mmio_size demo_unit = 0x100000"
  "sc_mmio demo_unit = 0xffffc200d0000000" "sc_duck demo_unit = None" "attached demo_unit" "dlog demo_table = []" "nac_dev demo_table = 0x0fe00000"
  by (simp_all add: demo_file_def demo_table_def demo_unit_def NAC_MAX_BOARDS_def zero_softc_def attached_def NACF_ATTACHED_def)

lemma demo_drv_simps [simp]:
  "uncopied_at demo_drv h a n = 0" "access_ok_at demo_drv h a z" "remap_at demo_drv h q v = 0" "copies_ok demo_drv"
  by (simp_all add: demo_drv_def copies_ok_def)

theorem mem_write_read_witness:
  "\<exists>t w. nac_mem_write demo_drv (demo_file Nac_mem_fops) 0x7f0000 8 0x0ffffffc demo_table = Some (Ok (4, 0x10000000), t) \<and>
     nac_mem_read demo_drv (demo_file Nac_mem_fops) 0x7f8000 8 0x0ffffffc t = Some (Ok (4, 0x10000000), w) \<and>
     peek 0x7f8000 4 (umem w) = peek 0x7f0000 4 (umem demo_table)"
proof -
  have "\<exists>t w. nac_mem_write demo_drv (demo_file Nac_mem_fops) 0x7f0000 8 0x0ffffffc demo_table = Some (Ok (int 4, 0x0ffffffc + of_nat 4), t) \<and>
     nac_mem_read demo_drv (demo_file Nac_mem_fops) 0x7f8000 8 0x0ffffffc t = Some (Ok (int 4, 0x0ffffffc + of_nat 4), w) \<and>
     peek 0x7f8000 4 (umem w) = peek 0x7f0000 4 (umem demo_table) \<and> kmem w = kmem t \<and> nac_array w = nac_array demo_table \<and> mem w = mem demo_table"
    by (rule mem_write_read [where u = 0]) (simp_all add: vfs_pos_def)
  then show ?thesis by (elim exE conjE) (intro exI conjI; simp)
qed

theorem nodes_open_their_unit_witness:
  "nac_drv_open 8 \<lparr>private_data = None, f_op = Nac_mem_fops, f_sync = False\<rparr> demo_table = Some (Ok (0, demo_file Nac_mem_fops), demo_table)"
  using nodes_open_their_unit [where u = 0 and k = 1 and s = demo_table and b = False and i = 24 and f = Nac_fops]
  by (simp add: NAC_MAX_BOARDS_def NACMINORBITS_def node_number_def nac_fops_array_def demo_file_def)

theorem mmap_ranges_witness:
  "\<exists>pgoff w t. uint pgoff < 2 ^ 52 \<and>
     nac_mmap demo_drv (demo_file Nac_fops) \<lparr>vm_start = 0x400000, vm_end = 0x401000, vm_pgoff = pgoff, vm_io = False, vm_reserved = False,
       vm_dontexpand = False\<rparr> demo_table = Some (Ok (0, w), t) \<and> dlog t = [RemapPfn 0x400000 0x100 0x1000 0]"
  using mmap_ranges [where fp = "demo_file Nac_fops" and u = 0 and sc = demo_unit and s = demo_table and v = "0x1000" and E = demo_drv
      and vma = "\<lparr>vm_start = 0x400000, vm_end = 0x401000, vm_pgoff = 0, vm_io = False, vm_reserved = False, vm_dontexpand = False\<rparr>"]
  by (auto dest!: spec [of _ "0x100 :: int"])


theorem window_access_witness:
  "\<exists>r p t n q bs. nac_iom_write demo_drv (demo_file Nac_iom_fops) 0x7f0000 16 0xffff8 demo_table = Some (Ok (r, p), t) \<and>
     in_window demo_unit 0xffff8 n \<and> length bs = n \<and> dlog t = [CopyFromUser 0x7f0000 n q, IoWrite 0xffffc200d00ffff8 bs]"
proof -
  have run: "nac_iom_write demo_drv (demo_file Nac_iom_fops) 0x7f0000 16 0xffff8 demo_table = Some (Ok (8, 0x100000),
      demo_table\<lparr>dlog := [CopyFromUser 0x7f0000 8 0, IoWrite 0xffffc200d00ffff8 (peek 0x7f0000 8 (umem demo_table))]\<rparr>)"
    by (simp add: nac_iom_write_def of_file_def drv_runs Let_def clip_def copy_from_user_def transferred_def)
  moreover have vfs: "vfs_pos 0xffff8 16" by (simp add: vfs_pos_def)
  ultimately have "\<exists>n q bs. in_window demo_unit 0xffff8 n \<and> length bs = n \<and>
      [CopyFromUser 0x7f0000 8 0, IoWrite 0xffffc200d00ffff8 (peek 0x7f0000 8 (umem demo_table))] =
      [CopyFromUser 0x7f0000 n q, IoWrite 0xffffc200d00ffff8 bs]"
    using window_access [OF demo_table_simps(1) vfs demo_drv_simps(4), THEN conjunct1, THEN mp, OF run] by simp
  then obtain n q bs where "in_window demo_unit 0xffff8 n" "length bs = n"
    "[CopyFromUser 0x7f0000 8 0, IoWrite 0xffffc200d00ffff8 (peek 0x7f0000 8 (umem demo_table))] =
      [CopyFromUser 0x7f0000 n q, IoWrite 0xffffc200d00ffff8 bs]" by (elim exE conjE)
  then have "in_window demo_unit 0xffff8 n \<and> length bs = n \<and> dlog (demo_table\<lparr>dlog := [CopyFromUser 0x7f0000 8 0,
      IoWrite 0xffffc200d00ffff8 (peek 0x7f0000 8 (umem demo_table))]\<rparr>) = [CopyFromUser 0x7f0000 n q, IoWrite 0xffffc200d00ffff8 bs]"
    by simp
  with run show ?thesis by blast
qed

end
