(* ===== verification/NacSys.thy ===== *)
theory NacSys
  imports NacFile
begin

text \<open>
  The driver as a whole: which sequences of calls the kernel makes, what holds in every state they
  reach, and what that means for two processes that use two cards. The world is the state of the
  driver with the devices that are bound to it and the files that are open. Every call of
  \<open>NacCard\<close> and \<open>NacFile\<close> is a step; between two calls processes and cards write to memory.
\<close>

section \<open>Steps\<close>

record world =
  bound :: "dev set"
  files :: "drv_file multiset"
  drv :: drv_st

text \<open>A file is opened on a node of \<open>add_nodes\<close>; it starts with the operations of the node.\<close>

inductive drv_step :: "drv_env \<Rightarrow> world \<Rightarrow> world \<Rightarrow> bool" for E where
  probe: "d \<notin> bound w \<Longrightarrow> nac_init_one E d (drv w) = Some (Ok r, t) \<Longrightarrow>
    drv_step E w (w\<lparr>bound := if 0 \<le> r then insert d (bound w) else bound w, drv := t\<rparr>)"
| remove: "d \<in> bound w \<Longrightarrow> nac_remove_one E d (drv w) = Some (Ok (), t) \<Longrightarrow>
    drv_step E w (w\<lparr>bound := bound w - {d}, drv := t\<rparr>)"
| opened: "nac_drv_open i \<lparr>private_data = None, f_op = f, f_sync = b\<rparr> (drv w) = Some (Ok (0, fp), t) \<Longrightarrow>
    drv_step E w (w\<lparr>files := add_mset fp (files w), drv := t\<rparr>)"
| refused: "nac_drv_open i \<lparr>private_data = None, f_op = f, f_sync = b\<rparr> (drv w) = Some (Ok (r, fp), t) \<Longrightarrow> r \<noteq> 0 \<Longrightarrow>
    drv_step E w (w\<lparr>drv := t\<rparr>)"
| closed: "fp \<in># files w \<Longrightarrow> nac_release i tgid fp (drv w) = Some (Ok r, t) \<Longrightarrow>
    drv_step E w (w\<lparr>files := files w - {#fp#}, drv := t\<rparr>)"
| reading: "fp \<in># files w \<Longrightarrow> vfs_pos ppos cnt \<Longrightarrow> drv_read E fp buf cnt ppos (drv w) = Some (Ok r, t) \<Longrightarrow>
    drv_step E w (w\<lparr>drv := t\<rparr>)"
| writing: "fp \<in># files w \<Longrightarrow> vfs_pos ppos cnt \<Longrightarrow> drv_write E fp buf cnt ppos (drv w) = Some (Ok r, t) \<Longrightarrow>
    drv_step E w (w\<lparr>drv := t\<rparr>)"
| request: "fp \<in># files w \<Longrightarrow> nac_ioctl E fp cmd arg (drv w) = Some (Ok r, t) \<Longrightarrow> drv_step E w (w\<lparr>drv := t\<rparr>)"
| mapping: "fp \<in># files w \<Longrightarrow> drv_mmap E fp v (drv w) = Some (Ok r, t) \<Longrightarrow> drv_step E w (w\<lparr>drv := t\<rparr>)"
| interrupt: "nac_interrupt u (drv w) = Some (Ok r, t) \<Longrightarrow> drv_step E w (w\<lparr>drv := t\<rparr>)"
| dma: "drv_step E w (w\<lparr>drv := (drv w)\<lparr>kmem := m\<rparr>\<rparr>)"
| process: "drv_step E w (w\<lparr>drv := (drv w)\<lparr>umem := m\<rparr>\<rparr>)"

text \<open>From loading the module on, after the memory module.\<close>

inductive drv_reach :: "drv_env \<Rightarrow> mem_st \<Rightarrow> world \<Rightarrow> bool" for E m where
  load: "nac_init E (drv_start m) = Some (Ok r, s) \<Longrightarrow> drv_reach E m \<lparr>bound = {}, files = {#}, drv = s\<rparr>"
| step: "drv_reach E m w \<Longrightarrow> drv_step E w v \<Longrightarrow> drv_reach E m v"

section \<open>What the file operations leave alone\<close>

text \<open>The units, the memory module and the binding of devices.\<close>

definition same_cards :: "drv_st \<Rightarrow> drv_st \<Rightarrow> bool" where
  "same_cards s t \<longleftrightarrow> nac_array t = nac_array s \<and> mem t = mem s \<and> driver_data t = driver_data s"

lemma same_cards_refl [simp]: "same_cards s s"
  by (simp add: same_cards_def)

lemma same_cards_fields [simp]:
  "same_cards s (s\<lparr>dlog := l\<rparr>)" "same_cards s (s\<lparr>kmem := k, dlog := l\<rparr>)" "same_cards s (s\<lparr>umem := k, dlog := l\<rparr>)"
  "same_cards s (s\<lparr>dlog := l, kmem := k\<rparr>)" "same_cards s (s\<lparr>kmem := k\<rparr>)" "same_cards s (s\<lparr>umem := k\<rparr>)" "same_cards s (s\<lparr>nac_dev := n, dlog := l\<rparr>)"
  by (simp_all add: same_cards_def)

lemma card_wf_same: "same_cards s t \<Longrightarrow> card_wf E B s \<Longrightarrow> card_wf E B t"
  by (simp add: same_cards_def card_wf_def)

lemma copy_to_run:
  "copy_to_user E a bs s = Some (Ok (uncopied_at E (dlog s) a (length bs)),
     s\<lparr>umem := poke a (take (length bs - uncopied_at E (dlog s) a (length bs)) bs) (umem s),
       dlog := dlog s @ [CopyToUser a (length bs) (uncopied_at E (dlog s) a (length bs))]\<rparr>)"
  by (simp add: copy_to_user_def drv_runs)

lemma copy_from_run:
  "copy_from_user E a n s = Some (Ok (uncopied_at E (dlog s) a n,
       take (n - uncopied_at E (dlog s) a n) (peek a n (umem s)) @ replicate (uncopied_at E (dlog s) a n) 0),
     s\<lparr>dlog := dlog s @ [CopyFromUser a n (uncopied_at E (dlog s) a n)]\<rparr>)"
  by (simp add: copy_from_user_def drv_runs)

lemma ask_bnd: "bnd (ask f ev) k s = k (f (dlog s)) (s\<lparr>dlog := dlog s @ [ev (f (dlog s))]\<rparr>)"
  by (simp add: bnd_def ask_run)

lemmas file_ops = nac_mem_read_def nac_iom_read_def nac_mem_write_def nac_iom_write_def of_file_def through_bnd

text \<open>Calls on a file of a unit return, and leave the cards alone.\<close>

text \<open>A unit without a mapped register window has no window.\<close>

definition window_known :: "nac_softc \<Rightarrow> bool" where
  "window_known sc \<longleftrightarrow> (sc_mmio sc = 0 \<longrightarrow> sc_mmio_size sc = 0)"

text \<open>So no transfer reaches its null pointer, whose only guard is the size.\<close>

lemma no_window:
  assumes "window_known sc" and "sc_mmio sc = 0" and "vfs_pos ppos cnt"
  shows "uint (sc_mmio_size sc) < sint ppos \<or> clip ppos cnt (sc_mmio_size sc) = 0"
proof (cases "ppos = 0")
  case False
  then have "0 < uint ppos" using uint_ge_0 [of ppos] by (simp add: word_uint_eq_iff order_less_le)
  then show ?thesis using assms vfs_pos_sint(1) [OF assms(3)] by (simp add: window_known_def)
qed (use assms in \<open>simp add: window_known_def clip_def word_gt_0\<close>)

lemma read_returns:
  assumes fp: "private_data fp = Some u" and iom: "f_op fp = Nac_iom_fops \<Longrightarrow> window_known (nac_array s ! u) \<and> vfs_pos ppos cnt"
  shows "\<exists>r t. drv_read E fp buf cnt ppos s = Some (Ok r, t) \<and> same_cards s t \<and> kmem t = kmem s"
proof -
  have "\<exists>r t. nac_mem_read E fp buf cnt ppos s = Some (Ok r, t) \<and> same_cards s t \<and> kmem t = kmem s"
    by (simp add: file_ops fp drv_runs Let_def copy_to_run)
  moreover have "\<exists>r t. nac_iom_read E fp buf cnt ppos s = Some (Ok r, t) \<and> same_cards s t \<and> kmem t = kmem s"
    if "f_op fp = Nac_iom_fops"
    using no_window [of "nac_array s ! u" ppos cnt] iom [OF that]
    by (cases "sc_mmio (nac_array s ! u) = 0") (auto simp: file_ops fp drv_runs Let_def copy_to_run)
  ultimately show ?thesis by (cases "f_op fp") (simp_all add: drv_read_def)
qed

lemma write_returns:
  assumes fp: "private_data fp = Some u" and iom: "f_op fp = Nac_iom_fops \<Longrightarrow> window_known (nac_array s ! u) \<and> vfs_pos ppos cnt"
  shows "\<exists>r t. drv_write E fp buf cnt ppos s = Some (Ok r, t) \<and> same_cards s t"
proof -
  have "\<exists>r t. nac_mem_write E fp buf cnt ppos s = Some (Ok r, t) \<and> same_cards s t"
    by (simp add: file_ops fp drv_runs Let_def copy_from_run)
  moreover have "\<exists>r t. nac_iom_write E fp buf cnt ppos s = Some (Ok r, t) \<and> same_cards s t" if "f_op fp = Nac_iom_fops"
    using no_window [of "nac_array s ! u" ppos cnt] iom [OF that]
    by (cases "sc_mmio (nac_array s ! u) = 0") (auto simp: file_ops fp drv_runs Let_def copy_from_run)
  ultimately show ?thesis by (cases "f_op fp") (simp_all add: drv_write_def)
qed

text \<open>A unit without a buffer, as a removed one, says so.\<close>

lemma no_buffer_answers:
  assumes "private_data fp = Some u" and "f_op fp \<noteq> Nac_iom_fops" and "sc_mmbuf (nac_array s ! u) = 0"
  shows "drv_read E fp buf cnt ppos s = Some (Ok (- E_NXIO, ppos), s) \<and> drv_write E fp buf cnt ppos s = Some (Ok (- E_NXIO, ppos), s)"
proof -
  have "nac_mem_read E fp buf cnt ppos s = Some (Ok (- E_NXIO, ppos), s)" "nac_mem_write E fp buf cnt ppos s = Some (Ok (- E_NXIO, ppos), s)"
    using assms(1,3) by (simp_all add: file_ops drv_runs)
  then show ?thesis using assms(2) by (cases "f_op fp") (simp_all add: drv_read_def drv_write_def)
qed

lemma remap_returns: "\<exists>a b t. remap E fp v off ph ps k s = Some (Ok (a, b), t) \<and> same_cards s t"
  by (simp add: remap_def Let_def ask_bnd)

lemma mmap_returns:
  assumes "private_data fp = Some u" and "sc_buf (nac_array s ! u) \<noteq> 0 \<longrightarrow> sc_device (nac_array s ! u) \<noteq> None"
  shows "\<exists>r t. drv_mmap E fp v s = Some (Ok r, t) \<and> same_cards s t"
proof -
  have "\<exists>r t. nac_mmap E fp v s = Some (Ok r, t) \<and> same_cards s t"
    by (simp add: nac_mmap_def of_file_def assms(1) drv_runs Let_def remap_returns)
  moreover have "\<exists>r t. nac_iom_mmap E fp v s = Some (Ok r, t) \<and> same_cards s t"
    using assms(2) by (auto simp: nac_iom_mmap_def of_file_def assms(1) drv_runs Let_def remap_returns)
  ultimately show ?thesis by (simp add: drv_mmap_def split: fops.split)
qed

lemma duck_request_faults:
  assumes "sc_duck (nac_array s ! u) = None" and "uncopied_at E (dlog s) arg 96 = 0"
  shows "\<exists>t. ioctl_duck_drv E u arg s = Some (Fault, t)"
  using assms by (simp add: ioctl_duck_drv_def copy_from_run in_clock_def duck_ioctl_no_clock)

lemma request_keeps:
  assumes "private_data fp = Some u" and "sc_duck (nac_array s ! u) = None" and "nac_ioctl E fp cmd arg s = Some (Ok r, t)"
  shows "same_cards s t \<and> kmem t = kmem s"
proof -
  have "same_cards s t \<and> kmem t = kmem s" if "ioctl_info_drv E sc arg s = Some (Ok r, t)" for sc
    using that by (auto simp: ioctl_info_drv_def Let_def copy_to_run)
  moreover have "same_cards s t \<and> kmem t = kmem s" if run: "ioctl_duck_drv E u arg s = Some (Ok r, t)"
  proof (cases "uncopied_at E (dlog s) arg 96 = 0")
    case True
    then obtain v where "ioctl_duck_drv E u arg s = Some (Fault, v)" using duck_request_faults [OF assms(2), where E = E and arg = arg] by blast
    then show ?thesis using run by simp
  next
    case False
    then show ?thesis using run by (auto simp: ioctl_duck_drv_def copy_from_run)
  qed
  ultimately show ?thesis
    using assms(3) by (auto simp: nac_ioctl_def of_file_def assms(1) drv_runs split: if_splits)
qed

lemma request_returns:
  assumes "private_data fp = Some u" and "cmd \<noteq> NACIOCDUCK"
  shows "\<exists>r t. nac_ioctl E fp cmd arg s = Some (Ok r, t)"
  using assms by (simp add: nac_ioctl_def of_file_def drv_runs ioctl_info_drv_def Let_def copy_to_run)

text \<open>A release clears locks and nothing else.\<close>

definition same_locks :: "nat \<Rightarrow> drv_st \<Rightarrow> drv_st \<Rightarrow> bool" where
  "same_locks u s t \<longleftrightarrow> mem t = mem s \<and> driver_data t = driver_data s \<and> kmem t = kmem s \<and>
     (\<exists>ls. nac_array t = (nac_array s)[u := (nac_array s ! u)\<lparr>sc_lock := ls\<rparr>] \<and> length ls = length (sc_lock (nac_array s ! u)) \<and>
       (\<forall>c < length ls. ls ! c = sc_lock (nac_array s ! u) ! c \<or> ls ! c = \<lparr>lock_pid = 0, lock_tgid = 0\<rparr>))"

lemma same_locks_refl [simp]: "same_locks u s s"
  unfolding same_locks_def by (intro conjI refl exI [of _ "sc_lock (nac_array s ! u)"]) simp_all

lemma same_locks_clear:
  assumes "same_locks u s t" and "u < length (nac_array s)"
  shows "same_locks u s (t\<lparr>nac_array := (nac_array t)[u := (nac_array t ! u)\<lparr>sc_lock := (sc_lock (nac_array t ! u))[c := \<lparr>lock_pid = 0, lock_tgid = 0\<rparr>]\<rparr>]\<rparr>)"
proof -
  obtain ls where ls: "nac_array t = (nac_array s)[u := (nac_array s ! u)\<lparr>sc_lock := ls\<rparr>]" "length ls = length (sc_lock (nac_array s ! u))"
    "\<forall>c < length ls. ls ! c = sc_lock (nac_array s ! u) ! c \<or> ls ! c = \<lparr>lock_pid = 0, lock_tgid = 0\<rparr>"
    using assms(1) unfolding same_locks_def by blast
  let ?ls = "ls[c := \<lparr>lock_pid = 0, lock_tgid = 0\<rparr>]"
  have "\<forall>k < length ?ls. ?ls ! k = sc_lock (nac_array s ! u) ! k \<or> ?ls ! k = \<lparr>lock_pid = 0, lock_tgid = 0\<rparr>"
  proof (intro allI impI)
    fix k assume "k < length ?ls"
    then show "?ls ! k = sc_lock (nac_array s ! u) ! k \<or> ?ls ! k = \<lparr>lock_pid = 0, lock_tgid = 0\<rparr>"
      using ls(3) by (cases "k = c") simp_all
  qed
  moreover have "mem t = mem s" "driver_data t = driver_data s" "kmem t = kmem s" using assms(1) by (simp_all add: same_locks_def)
  ultimately show ?thesis
    unfolding same_locks_def using ls(1,2) assms(2) by (intro conjI exI [of _ ?ls]) simp_all
qed

lemma release_loop:
  assumes "u < length (nac_array s)" and "same_locks u s t0"
    and body: "\<And>c t. body c t = Some (Ok (), if Q c t then t\<lparr>nac_array := (nac_array t)[u := (nac_array t ! u)\<lparr>sc_lock :=
      (sc_lock (nac_array t ! u))[c := \<lparr>lock_pid = 0, lock_tgid = 0\<rparr>]\<rparr>]\<rparr> else t)"
  shows "\<exists>t. for_each cs body t0 = Some (Ok (), t) \<and> same_locks u s t"
  using assms(2)
proof (induction cs arbitrary: t0)
  case (Cons c cs)
  then show ?case using same_locks_clear [OF Cons.prems assms(1)] by (simp add: body)
qed simp

lemma release_returns:
  assumes "private_data fp = Some u" and "u < length (nac_array s)"
  shows "\<exists>t. nac_release i tgid fp s = Some (Ok 0, t) \<and> same_locks u s t"
proof -
  define body where "body = (\<lambda>c. bnd (get_sc u) (\<lambda>sc. if lock_tgid (sc_lock sc ! c) = tgid \<and> NACMINOR i = 0
       then upd_sc u (\<lambda>sc. sc\<lparr>sc_lock := (sc_lock sc)[c := \<lparr>lock_pid = 0, lock_tgid = 0\<rparr>]\<rparr>) else ret ()))"
  have "body c t = Some (Ok (), if lock_tgid (sc_lock (nac_array t ! u) ! c) = tgid \<and> NACMINOR i = 0 then t\<lparr>nac_array :=
      (nac_array t)[u := (nac_array t ! u)\<lparr>sc_lock := (sc_lock (nac_array t ! u))[c := \<lparr>lock_pid = 0, lock_tgid = 0\<rparr>]\<rparr>]\<rparr> else t)" for c t
    by (simp add: body_def drv_runs)
  from release_loop [OF assms(2) same_locks_refl this] obtain t where "for_each [0..<NAC_LOCKS] body s = Some (Ok (), t)" "same_locks u s t"
    by blast
  then show ?thesis
    unfolding nac_release_def of_file_def assms(1) option.case body_def [symmetric] by (simp add: drv_runs)
qed

lemma zero_locks: "same_locks u s t \<Longrightarrow> nac_array s ! u = zero_softc \<Longrightarrow> u < length (nac_array s) \<Longrightarrow> nac_array t ! u = zero_softc"
proof -
  assume a: "same_locks u s t" "nac_array s ! u = zero_softc" "u < length (nac_array s)"
  let ?z = "\<lparr>lock_pid = 0, lock_tgid = 0\<rparr>"
  obtain ls where ls: "nac_array t ! u = zero_softc\<lparr>sc_lock := ls\<rparr>" "length ls = NAC_LOCKS"
    "\<forall>c < length ls. ls ! c = replicate NAC_LOCKS ?z ! c \<or> ls ! c = ?z"
    using a unfolding same_locks_def by (auto simp: zero_softc_def)
  then have "ls = replicate NAC_LOCKS ?z" by (intro nth_equalityI) auto
  then show "nac_array t ! u = zero_softc" using ls(1) by (simp add: zero_softc_def)
qed

lemma release_wf:
  assumes wf: "card_wf E B s" and u: "u < NAC_MAX_BOARDS" and locks: "same_locks u s t"
  shows "card_wf E B t"
proof -
  have len: "length (nac_array s) = NAC_MAX_BOARDS" using wf by (rule card_wf_len)
  obtain ls where t: "mem t = mem s" "driver_data t = driver_data s" "nac_array t = (nac_array s)[u := (nac_array s ! u)\<lparr>sc_lock := ls\<rparr>]"
    using locks unfolding same_locks_def by blast
  have at: "sc_mmbuf (nac_array t ! v) = sc_mmbuf (nac_array s ! v)" "attached (nac_array t ! v) = attached (nac_array s ! v)"
    "sc_device (nac_array t ! v) = sc_device (nac_array s ! v)" for v
    using u len by (cases "v = u"; simp add: t(3) attached_def)+
  have "unit_wf E (mem s) v (nac_array t ! v)" if v: "v < NAC_MAX_BOARDS" for v
  proof (cases "v = u \<and> \<not> attached (nac_array s ! u)")
    case True
    then have "nac_array s ! u = zero_softc" using card_wf_unit [OF wf u] by (simp add: unit_wf_def)
    then show ?thesis using True zero_locks [OF locks] u len by simp
  next
    case False
    then show ?thesis using card_wf_unit [OF wf v] u len
      by (cases "v = u") (auto simp: t(3) unit_wf_def attached_def)
  qed
  then show ?thesis using wf by (simp add: card_wf_def t(1,2) at) (simp add: t(3))
qed

section \<open>Reachable states\<close>

definition world_wf :: "drv_env \<Rightarrow> world \<Rightarrow> bool" where
  "world_wf E w \<longleftrightarrow> card_wf E (bound w) (drv w) \<and> (\<forall>u < NAC_MAX_BOARDS. window_known (nac_array (drv w) ! u)) \<and>
     (\<forall>fp \<in># files w. \<exists>u < NAC_MAX_BOARDS. private_data fp = Some u)"

lemma world_file:
  assumes "world_wf E w" and "fp \<in># files w"
  obtains u where "u < NAC_MAX_BOARDS" and "private_data fp = Some u" and "unit_wf E (mem (drv w)) u (nac_array (drv w) ! u)"
    and "u < length (nac_array (drv w))" and "window_known (nac_array (drv w) ! u)"
  using assms card_wf_unit card_wf_len unfolding world_wf_def by metis

lemma NACUNIT_less: "NACUNIT i < NAC_MAX_BOARDS"
proof -
  have "(push_bit 3 1 - 1 :: u32) = mask 3" by (simp add: mask_eq_exp_minus_1)
  then have "i AND (push_bit 3 1 - 1) = take_bit 3 i" by (simp only: take_bit_eq_mask)
  then show ?thesis by (simp add: NACUNIT_def NACMINORMASK_def NACMINORBITS_def NAC_MAX_BOARDS_def unsigned_take_bit_eq take_bit_nat_less_exp [of 3, simplified])
qed

lemma open_keeps:
  assumes "nac_drv_open i \<lparr>private_data = None, f_op = f, f_sync = b\<rparr> s = Some (Ok (r, fp), t)"
  shows "t = s" and "r = 0 \<Longrightarrow> private_data fp = Some (NACUNIT i)"
  using assms by (auto simp: nac_drv_open_def Let_def drv_runs errno_values split: if_splits)

lemma probe_same:
  assumes "nac_init_one E d s = Some (Ok r, t)" and "length (nac_array s) = NAC_MAX_BOARDS"
  shows "same_buffers (mem s) (mem t)"
  using assms
proof (cases rule: init_one_Ok)
  case (unit u)
  then show ?thesis using malloc_same(1) by (auto simp: probed_def buffer_asked_def)
qed simp

lemma window_known_zero [simp]: "window_known zero_softc"
  by (simp add: window_known_def zero_softc_def)

lemma probe_windows:
  assumes "nac_init_one E d s = Some (Ok r, t)" and "length (nac_array s) = NAC_MAX_BOARDS"
    and "\<forall>u < NAC_MAX_BOARDS. window_known (nac_array s ! u)"
  shows "\<forall>u < NAC_MAX_BOARDS. window_known (nac_array t ! u)"
  using assms(1,2)
proof (cases rule: init_one_Ok)
  case (unit v)
  then obtain sc where sc: "nac_array t = (nac_array s)[v := sc]" "taken d v (nac_array s ! v) sc" unfolding probed_def by auto
  then have "window_known sc" using assms(3) unit(1) by (auto simp: taken_def window_known_def)
  then show ?thesis using assms(2,3) unit(1) by (simp add: sc(1) nth_list_update)
qed (use assms(3) in simp)

lemma release_windows:
  assumes "same_locks v s t" and "v < length (nac_array s)" and "window_known (nac_array s ! u)"
  shows "window_known (nac_array t ! u)"
  using assms unfolding same_locks_def by (cases "v = u") (auto simp: window_known_def)

lemma keeps_wf:
  assumes "world_wf E w" and "same_cards (drv w) t"
  shows "world_wf E (w\<lparr>drv := t\<rparr>) \<and> same_buffers (mem (drv w)) (mem t)"
  using assms card_wf_same [OF assms(2)] by (simp add: world_wf_def same_cards_def)

lemma step_wf:
  assumes "drv_step E w v" and wf: "world_wf E w"
  shows "world_wf E v \<and> same_buffers (mem (drv w)) (mem (drv v))"
  using assms(1)
proof cases
  case (probe d r t)
  have c: "card_wf E (bound w) (drv w)" using wf by (simp add: world_wf_def)
  have "card_wf E (if 0 \<le> r then insert d (bound w) else bound w - {d}) t" by (rule probe_wf [OF c probe(3)])
  moreover have "bound w - {d} = bound w" using probe(2) by simp
  moreover have "\<forall>u < NAC_MAX_BOARDS. window_known (nac_array t ! u)"
    using probe_windows [OF probe(3) card_wf_len [OF c]] wf by (simp add: world_wf_def)
  ultimately show ?thesis using wf probe(1) probe_same [OF probe(3) card_wf_len [OF c]] by (simp add: world_wf_def split: if_splits)
next
  case (remove d t)
  have c: "card_wf E (bound w) (drv w)" using wf by (simp add: world_wf_def)
  obtain u t' where t': "nac_remove_one E d (drv w) = Some (Ok (), t')" "card_wf E (bound w - {d}) t'" "same_buffers (mem (drv w)) (mem t')"
    "nac_array t' = (nac_array (drv w))[u := zero_softc]"
    using remove_wf [OF c remove(2)] by metis
  have "window_known (nac_array t' ! k)" if "k < NAC_MAX_BOARDS" for k
    using wf card_wf_len [OF c] that by (cases "k = u") (simp_all add: world_wf_def t'(4))
  then show ?thesis using t'(1-3) remove(1,3) wf by (simp add: world_wf_def)
next
  case (opened i f b fp t)
  then show ?thesis using open_keeps [OF opened(2)] wf NACUNIT_less by (auto simp: world_wf_def)
next
  case (refused i f b r fp t)
  then show ?thesis using open_keeps [OF refused(2)] wf by (simp add: world_wf_def)
next
  case (closed fp i tgid r t)
  obtain u where u: "u < NAC_MAX_BOARDS" "private_data fp = Some u" "u < length (nac_array (drv w))"
    using wf closed(2) by (rule world_file)
  have locks: "same_locks u (drv w) t" using release_returns [OF u(2,3), of i tgid] closed(3) by auto
  then have "card_wf E (bound w) t" using release_wf [OF _ u(1) locks] wf by (simp add: world_wf_def)
  moreover have "\<forall>k < NAC_MAX_BOARDS. window_known (nac_array t ! k)"
    using release_windows [OF locks u(3)] wf by (simp add: world_wf_def)
  moreover have "mem t = mem (drv w)" using locks by (simp add: same_locks_def)
  ultimately show ?thesis using wf closed(1) by (auto simp: world_wf_def dest: in_diffD)
next
  case (reading fp ppos cnt buf r t)
  obtain u where "private_data fp = Some u" "window_known (nac_array (drv w) ! u)" using wf reading(2) by (rule world_file)
  then have "same_cards (drv w) t" using read_returns [of fp u "drv w" ppos cnt E buf] reading(3,4) by fastforce
  then show ?thesis using keeps_wf [OF wf] reading(1) by simp
next
  case (writing fp ppos cnt buf r t)
  obtain u where "private_data fp = Some u" "window_known (nac_array (drv w) ! u)" using wf writing(2) by (rule world_file)
  then have "same_cards (drv w) t" using write_returns [of fp u "drv w" ppos cnt E buf] writing(3,4) by fastforce
  then show ?thesis using keeps_wf [OF wf] writing(1) by simp
next
  case (request fp cmd arg r t)
  obtain u where "private_data fp = Some u" "unit_wf E (mem (drv w)) u (nac_array (drv w) ! u)" using wf request(2) by (rule world_file)
  then have "same_cards (drv w) t" using request_keeps [OF _ _ request(3)] by (simp add: unit_wf_def)
  then show ?thesis using keeps_wf [OF wf] request(1) by simp
next
  case (mapping fp a r t)
  obtain u where u: "private_data fp = Some u" "unit_wf E (mem (drv w)) u (nac_array (drv w) ! u)" using wf mapping(2) by (rule world_file)
  have "sc_buf (nac_array (drv w) ! u) \<noteq> 0 \<longrightarrow> sc_device (nac_array (drv w) ! u) \<noteq> None"
    using u(2) by (auto simp: unit_wf_def zero_softc_def split: if_splits)
  then have "\<exists>r t. drv_mmap E fp a (drv w) = Some (Ok r, t) \<and> same_cards (drv w) t" by (rule mmap_returns [OF u(1)])
  then have "same_cards (drv w) t" using mapping(3) by auto
  then show ?thesis using keeps_wf [OF wf] mapping(1) by simp
next
  case (interrupt u r t)
  then show ?thesis using keeps_wf [OF wf, of t] by (simp add: nac_interrupt_def)
next
  case (dma m)
  then show ?thesis using keeps_wf [OF wf] by simp
next
  case (process m)
  then show ?thesis using keeps_wf [OF wf] by simp
qed

text \<open>Loading gives the device numbers and nothing else.\<close>

lemma cleanup_run: "\<exists>l. nac_cleanup s = Some (Ok (), s\<lparr>dlog := dlog s @ l\<rparr>)"
  by (cases "nac_dev s = 0") (simp_all add: nac_cleanup_def drv_runs, (intro exI, rule refl)+)

lemma init_keeps: "nac_init E s = Some (Ok r, t) \<Longrightarrow> same_cards s t"
  using cleanup_run [of "s\<lparr>dlog := dlog s @ [AllocChrdev (fst (alloc_chrdev_at E (dlog s))) (snd (alloc_chrdev_at E (dlog s)))]\<rparr>"]
  by (auto simp: nac_init_def ask_bnd ask_run drv_runs split_def split: if_splits)

lemma reach_wf:
  assumes "drv_reach E m w" and "pool_good m" and "pool_claimed m = {}"
  shows "world_wf E w \<and> same_buffers m (mem (drv w))"
  using assms(1)
proof induction
  case (load r s)
  have same: "same_cards (drv_start m) s" using init_keeps [OF load] .
  then have "\<forall>u < NAC_MAX_BOARDS. window_known (nac_array s ! u)" by (simp add: same_cards_def)
  moreover
  have "card_wf E {} s" using card_wf_same [OF same] start_wf [OF assms(2,3)] by blast
  ultimately show ?case using same by (simp add: world_wf_def same_cards_def)
next
  case (step w v)
  then show ?case using step_wf [OF step(2)] by (auto simp: same_buffers_def)
qed

text \<open>The buffers of the memory module do not overlap and do not wrap around.\<close>

definition pool_separate :: "mem_st \<Rightarrow> bool" where
  "pool_separate m \<longleftrightarrow> (\<forall>i < nat (nnacs m). vaddr m ! i \<noteq> 0 \<longrightarrow> uint (vaddr m ! i) + uint (msize m ! i) \<le> 2 ^ 64 \<and>
     (\<forall>j < nat (nnacs m). vaddr m ! j \<noteq> 0 \<longrightarrow> i \<noteq> j \<longrightarrow> uint (vaddr m ! i) \<le> uint (vaddr m ! j) \<longrightarrow>
        uint (vaddr m ! i) + uint (msize m ! i) \<le> uint (vaddr m ! j)))"

lemma pool_separate_same: "same_buffers m m1 \<Longrightarrow> pool_separate m1 = pool_separate m"
  by (simp add: pool_separate_def same_buffers_def)

lemma loaded_end:
  assumes "loaded m" and "i < NNACS" and "vaddr m ! i \<noteq> 0"
  shows "uint (vaddr m ! i) + uint (msize m ! i) \<le> 2 ^ 64"
proof -
  let ?ps = "piece_size (gfporder m)" and ?v = "vaddr m ! i" and ?z = "msize m ! i"
  define k where "k = unat (?z div ?ps)"
  note ord = loaded_shape(1) [OF assms(1)]
  have cs: "uint ?z = int k * uint ?ps" using buffer_pieces [OF loaded_size ord] assms by (simp add: k_def)
  have "0 < k" using cs loaded_size [OF assms] by (cases k) (auto simp: buffer_sizes_def)
  then obtain j where j: "k = Suc j" by (cases k) auto
  have at: "uint (?v + of_nat j * scast ?ps) = uint ?v + int j * uint ?ps"
    using loaded_pieces [OF assms] j by (intro pieces_up [OF ord, of _ ?z]) (simp_all add: k_def)
  have "?v + of_nat j * scast ?ps \<in> set (pieces ?ps ?z ?v)" using j by (auto simp: pieces_def k_def)
  from loaded_pieces [OF assms this] show ?thesis unfolding at cs j by (simp add: algebra_simps)
qed

lemma loaded_separate:
  assumes "loaded m"
  shows "pool_separate m"
  unfolding pool_separate_def
proof (intro allI impI conjI)
  fix i assume i: "i < nat (nnacs m)" "vaddr m ! i \<noteq> 0"
  then show "uint (vaddr m ! i) + uint (msize m ! i) \<le> 2 ^ 64" using loaded_end [OF assms] loaded_shape(2) [OF assms] by simp
  fix j assume "j < nat (nnacs m)" "vaddr m ! j \<noteq> 0" "i \<noteq> j" "uint (vaddr m ! i) \<le> uint (vaddr m ! j)"
  then show "uint (vaddr m ! i) + uint (msize m ! i) \<le> uint (vaddr m ! j)"
    using i loaded_shape(2) [OF assms] by (intro loaded_ordered [OF assms]) simp_all
qed

section \<open>Cards do not meet\<close>

text \<open>The buffer of a unit.\<close>

definition unit_area :: "drv_st \<Rightarrow> nat \<Rightarrow> u64 \<Rightarrow> bool" where
  "unit_area s u = in_area (sc_mmbuf (nac_array s ! u)) (sc_buf_size (nac_array s ! u))"

lemma unit_area_pool:
  assumes "card_wf E B s" and "pool_separate (mem s)" and "u < NAC_MAX_BOARDS" and "unit_area s u x"
  obtains i where "i < nat (nnacs (mem s))" and "vaddr (mem s) ! i = sc_mmbuf (nac_array s ! u)" and "vaddr (mem s) ! i \<noteq> 0"
    and "uint (vaddr (mem s) ! i) \<le> uint x" and "uint x < uint (vaddr (mem s) ! i) + uint (msize (mem s) ! i)"
proof -
  let ?sc = "nac_array s ! u"
  have wf: "unit_wf E (mem s) u ?sc" using card_wf_unit [OF assms(1,3)] .
  have "sc_mmbuf ?sc \<noteq> 0"
  proof
    assume "sc_mmbuf ?sc = 0"
    then have "uint (sc_buf_size ?sc) = 0" using wf by (simp add: unit_wf_def)
    then show False using assms(4) uint_ge_0 [of "x - sc_mmbuf ?sc"] by (simp add: unit_area_def in_area_def)
  qed
  then obtain i where i: "i < nat (nnacs (mem s))" "vaddr (mem s) ! i = sc_mmbuf ?sc" "msize (mem s) ! i = sc_buf_size ?sc"
    using wf by (auto simp: unit_wf_def pool_buffer_def)
  then have "uint (sc_mmbuf ?sc) + uint (sc_buf_size ?sc) \<le> 2 ^ 64"
    using assms(2) \<open>sc_mmbuf ?sc \<noteq> 0\<close> unfolding pool_separate_def by metis
  from in_area_range [OF this] show ?thesis using assms(4) i \<open>sc_mmbuf ?sc \<noteq> 0\<close> by (intro that [of i]) (simp_all add: unit_area_def)
qed

lemma areas_disjoint:
  assumes wf: "card_wf E B s" and sep: "pool_separate (mem s)" and u: "u < NAC_MAX_BOARDS" and v: "v < NAC_MAX_BOARDS"
    and "u \<noteq> v" and xu: "unit_area s u x" and xv: "unit_area s v x"
  shows False
proof -
  obtain i where i: "i < nat (nnacs (mem s))" "vaddr (mem s) ! i = sc_mmbuf (nac_array s ! u)" "vaddr (mem s) ! i \<noteq> 0"
    "uint (vaddr (mem s) ! i) \<le> uint x" "uint x < uint (vaddr (mem s) ! i) + uint (msize (mem s) ! i)"
    using unit_area_pool [OF wf sep u xu] .
  obtain j where j: "j < nat (nnacs (mem s))" "vaddr (mem s) ! j = sc_mmbuf (nac_array s ! v)" "vaddr (mem s) ! j \<noteq> 0"
    "uint (vaddr (mem s) ! j) \<le> uint x" "uint x < uint (vaddr (mem s) ! j) + uint (msize (mem s) ! j)"
    using unit_area_pool [OF wf sep v xv] .
  have "i \<noteq> j" using wf u v \<open>u \<noteq> v\<close> i(2,3) j(2) unfolding card_wf_def by metis
  have apart: "uint (vaddr (mem s) ! a) + uint (msize (mem s) ! a) \<le> uint (vaddr (mem s) ! b)"
    if "a < nat (nnacs (mem s))" "vaddr (mem s) ! a \<noteq> 0" "b < nat (nnacs (mem s))" "vaddr (mem s) ! b \<noteq> 0" "a \<noteq> b"
      "uint (vaddr (mem s) ! a) \<le> uint (vaddr (mem s) ! b)" for a b
    using sep that unfolding pool_separate_def by blast
  show False
  proof (cases "uint (vaddr (mem s) ! i) \<le> uint (vaddr (mem s) ! j)")
    case True
    from apart [OF i(1,3) j(1,3) \<open>i \<noteq> j\<close> True] show False using i(5) j(4) by linarith
  next
    case False
    then have "uint (vaddr (mem s) ! j) \<le> uint (vaddr (mem s) ! i)" by simp
    from apart [OF j(1,3) i(1,3) \<open>i \<noteq> j\<close> [symmetric] this] show False using i(4) j(5) by linarith
  qed
qed

text \<open>A write into the register window stores no byte of memory.\<close>

lemma iom_write_kmem:
  assumes "private_data fp = Some u" and "nac_iom_write E fp buf cnt ppos s = Some (Ok r, t)"
  shows "kmem t = kmem s"
  using assms by (auto simp: file_ops drv_runs Let_def copy_from_run split: if_splits)

lemma write_contained:
  assumes "private_data fp = Some u" and "vfs_pos ppos cnt" and "copies_ok E"
    and "drv_write E fp buf cnt ppos s = Some (Ok r, t)" and "\<not> unit_area s u x"
  shows "kmem t x = kmem s x"
  using assms mem_write_contained [OF assms(1-3), of buf s r t x] iom_write_kmem [OF assms(1), of E buf cnt ppos s r t]
  by (cases "f_op fp") (simp_all add: drv_write_def unit_area_def)

text \<open>What a read delivers depends on the bytes of the unit alone.\<close>

lemma read_local:
  assumes fp: "private_data fp = Some u" and vfs: "vfs_pos ppos cnt"
    and same: "\<And>x. unit_area s u x \<Longrightarrow> m x = kmem s x" and run: "drv_read E fp buf cnt ppos s = Some (Ok r, t)"
  shows "drv_read E fp buf cnt ppos (s\<lparr>kmem := m\<rparr>) = Some (Ok r, t\<lparr>kmem := m\<rparr>)"
proof -
  let ?sc = "nac_array s ! u"
  define n where "n = unat (clip ppos cnt (sc_buf_size ?sc))"
  define q where "q = uncopied_at E (dlog s) buf n"
  have n1: "n = unat (clip ppos cnt (sc_buf_size (nac_array (s\<lparr>kmem := m\<rparr>) ! u)))" "q = uncopied_at E (dlog (s\<lparr>kmem := m\<rparr>)) buf n"
    by (simp_all add: n_def q_def)
  have pk: "peek (sc_mmbuf ?sc + ppos) n m = peek (sc_mmbuf ?sc + ppos) n (kmem s)" if "uint ppos < uint (sc_buf_size ?sc)"
  proof -
    have "m (sc_mmbuf ?sc + ppos + of_nat k) = kmem s (sc_mmbuf ?sc + ppos + of_nat k)" if k: "k < n" for k
    proof -
      have "n < 2 ^ 64" unfolding n_def using unsigned_less [of "clip ppos cnt (sc_buf_size ?sc)"] by simp
      then have "unat (of_nat k :: u64) = k" using k by (simp add: unat_of_nat take_bit_nat_eq_self)
      then have "unit_area s u (sc_mmbuf ?sc + ppos + of_nat k)"
        unfolding unit_area_def using k by (intro clip_in_area [OF vfs \<open>uint ppos < uint (sc_buf_size ?sc)\<close>]) (simp add: n_def)
      then show ?thesis by (rule same)
    qed
    then show ?thesis by (simp add: peek_def)
  qed
  have "nac_mem_read E fp buf cnt ppos (s\<lparr>kmem := m\<rparr>) = Some (Ok r, t\<lparr>kmem := m\<rparr>)" if "nac_mem_read E fp buf cnt ppos s = Some (Ok r, t)"
    using that pk mem_read_run [OF fp refl vfs n_def q_def] mem_read_run [OF fp refl vfs n1]
    by (auto simp: not_le split: if_splits)
  moreover have "nac_iom_read E fp buf cnt ppos (s\<lparr>kmem := m\<rparr>) = Some (Ok r, t\<lparr>kmem := m\<rparr>)" if "nac_iom_read E fp buf cnt ppos s = Some (Ok r, t)"
    using that by (auto simp: file_ops fp drv_runs Let_def copy_to_run split: if_splits)
  ultimately show ?thesis using run by (cases "f_op fp") (simp_all add: drv_read_def)
qed

text \<open>What loading the memory module gives the driver.\<close>

lemma module_pool:
  assumes "page_kernel K" and "has_page K" and "0 \<le> n" and "unat order \<le> 14" and "nac_mem_init K (mem_start n da order) = Some (Ok 0, m)"
  shows "pool_good m" and "pool_claimed m = {}" and "pool_separate m"
proof -
  obtain t where "nac_mem_init K (mem_start n da order) = Some (Ok 0, t)" "loaded t" "inuse t = replicate NNACS 0"
    using init_run [OF assms(1-4), of da] by blast
  then have m: "loaded m" "inuse m = replicate NNACS 0" using assms(5) by simp_all
  show "pool_good m" "pool_claimed m = {}" by (rule loaded_pool_good [OF m])+
  show "pool_separate m" by (rule loaded_separate [OF m(1)])
qed

text \<open>
  C11. Cards do not meet. Load the memory module, then the driver, and let the kernel make any
  sequence of calls: a write through a file of one unit changes no byte outside the buffer of
  this unit, and so none of another unit's; and a read through it gives the same bytes whatever
  the other buffers, and the rest of the kernel's memory, hold.
\<close>

theorem cards_isolated:
  assumes "page_kernel (pages E)" and "has_page (pages E)" and "0 \<le> n" and "unat order \<le> 14" and copies: "copies_ok E"
    and "nac_mem_init (pages E) (mem_start n da order) = Some (Ok 0, m)" and reach: "drv_reach E m w"
    and fp: "fp \<in># files w" "private_data fp = Some u" and vfs: "vfs_pos ppos cnt"
  shows "(\<forall>r t x. drv_write E fp buf cnt ppos (drv w) = Some (Ok r, t) \<longrightarrow> kmem t x \<noteq> kmem (drv w) x \<longrightarrow>
       unit_area (drv w) u x \<and> (\<forall>v < NAC_MAX_BOARDS. v \<noteq> u \<longrightarrow> \<not> unit_area (drv w) v x)) \<and>
     (\<forall>r t k. drv_read E fp buf cnt ppos (drv w) = Some (Ok r, t) \<longrightarrow> (\<forall>x. unit_area (drv w) u x \<longrightarrow> k x = kmem (drv w) x) \<longrightarrow>
       drv_read E fp buf cnt ppos ((drv w)\<lparr>kmem := k\<rparr>) = Some (Ok r, t\<lparr>kmem := k\<rparr>))"
proof -
  note pool = module_pool [OF assms(1-4,6)]
  have wf: "world_wf E w" "same_buffers m (mem (drv w))" using reach_wf [OF reach pool(1,2)] by simp_all
  have c: "card_wf E (bound w) (drv w)" "u < NAC_MAX_BOARDS" using wf(1) fp by (auto simp: world_wf_def)
  have sep: "pool_separate (mem (drv w))" using pool_separate_same [OF wf(2)] pool(3) by simp
  show ?thesis
    using write_contained [OF fp(2) vfs copies] areas_disjoint [OF c(1) sep _ c(2)] read_local [OF fp(2) vfs] by metis
qed

text \<open>
  C12. Calls on open files follow no null pointer. In every reachable state, also after the card
  was removed while the file was open, or when its probe failed before it had a buffer or a
  register window, every file is on a unit of the table; read and write, mmap, close and every
  request but \<open>NACIOCDUCK\<close> come back with a result, so none of them accesses the buffer or the
  window of the unit through a null pointer (such an access faults in the model: \<open>through\<close>); and a
  bound device can be removed. On a unit without a buffer, read and write of it answer -ENXIO. The
  register window has no such test, only the one of its size: there the position must be one that
  the kernel passes, not negative.
\<close>

theorem open_files_never_fault:
  assumes "page_kernel (pages E)" and "has_page (pages E)" and "0 \<le> n" and "unat order \<le> 14"
    and "nac_mem_init (pages E) (mem_start n da order) = Some (Ok 0, m)" and "drv_reach E m w" and "fp \<in># files w"
  shows "(\<exists>u < NAC_MAX_BOARDS. private_data fp = Some u \<and>
       (f_op fp \<noteq> Nac_iom_fops \<longrightarrow> sc_mmbuf (nac_array (drv w) ! u) = 0 \<longrightarrow>
          drv_read E fp buf cnt ppos (drv w) = Some (Ok (- E_NXIO, ppos), drv w) \<and>
          drv_write E fp buf cnt ppos (drv w) = Some (Ok (- E_NXIO, ppos), drv w))) \<and>
     (f_op fp \<noteq> Nac_iom_fops \<or> vfs_pos ppos cnt \<longrightarrow> (\<exists>r t. drv_read E fp buf cnt ppos (drv w) = Some (Ok r, t)) \<and>
       (\<exists>r t. drv_write E fp buf cnt ppos (drv w) = Some (Ok r, t))) \<and> (\<exists>r t. drv_mmap E fp v (drv w) = Some (Ok r, t)) \<and>
     (cmd \<noteq> NACIOCDUCK \<longrightarrow> (\<exists>r t. nac_ioctl E fp cmd arg (drv w) = Some (Ok r, t))) \<and>
     (\<exists>t. nac_release i tgid fp (drv w) = Some (Ok 0, t)) \<and>
     (\<forall>d \<in> bound w. \<exists>t. nac_remove_one E d (drv w) = Some (Ok (), t))"
proof -
  note pool = module_pool [OF assms(1-5)]
  have wf: "world_wf E w" using reach_wf [OF assms(6) pool(1,2)] by simp
  obtain u where u: "u < NAC_MAX_BOARDS" "private_data fp = Some u" "unit_wf E (mem (drv w)) u (nac_array (drv w) ! u)"
    "u < length (nac_array (drv w))" "window_known (nac_array (drv w) ! u)" using wf assms(7) by (rule world_file)
  have "sc_buf (nac_array (drv w) ! u) \<noteq> 0 \<longrightarrow> sc_device (nac_array (drv w) ! u) \<noteq> None"
    using u(3) by (auto simp: unit_wf_def zero_softc_def split: if_splits)
  then have "\<exists>r t. drv_mmap E fp v (drv w) = Some (Ok r, t)" using mmap_returns [OF u(2)] by blast
  moreover have "\<exists>r t. drv_read E fp buf cnt ppos (drv w) = Some (Ok r, t)" if "f_op fp \<noteq> Nac_iom_fops \<or> vfs_pos ppos cnt"
    using read_returns [OF u(2), of "drv w" ppos cnt E buf] u(5) that by blast
  moreover have "\<exists>r t. drv_write E fp buf cnt ppos (drv w) = Some (Ok r, t)" if "f_op fp \<noteq> Nac_iom_fops \<or> vfs_pos ppos cnt"
    using write_returns [OF u(2), of "drv w" ppos cnt E buf] u(5) that by blast
  moreover have "\<exists>t. nac_release i tgid fp (drv w) = Some (Ok 0, t)" using release_returns [OF u(2,4)] by blast
  moreover have "\<exists>t. nac_remove_one E d (drv w) = Some (Ok (), t)" if "d \<in> bound w" for d
    using remove_wf [of E "bound w" "drv w" d] wf that unfolding world_wf_def by metis
  ultimately show ?thesis using u(1,2) request_returns [OF u(2), of cmd E arg "drv w"] no_buffer_answers [OF u(2)] by blast
qed

section \<open>An example\<close>

text \<open>On the granting kernel a probe returns, and then the node of the unit can be opened.\<close>

lemma demo_probe_any:
  assumes s: "nac_array s = replicate NAC_MAX_BOARDS zero_softc" and alloc: "nac_mem_malloc 0 (mem s) = Some (Ok (v, z), m1)"
  shows "\<exists>r t. nac_init_one demo_drv 7 s = Some (Ok r, t)"
proof -
  have find: "nac_find_unattached s = Some (Ok 0, s)"
    by (simp add: nac_find_unattached_def first_slot_def NAC_MAX_BOARDS_def NACMINORBITS_def upt_conv_Cons s)
  have three: "[0..<3] = [0, 1, 2::nat]" by (simp add: upt_rec)
  have claim: "claim_buffer demo_drv u s1 = Some (Ok (v \<noteq> 0), s1\<lparr>mem := m1, nac_array := (nac_array s1)[u := if v = 0 then
      (nac_array s1 ! u)\<lparr>sc_mmbuf := 0\<rparr> else (nac_array s1 ! u)\<lparr>sc_mmbuf := v, sc_buf := virt_to_phys demo_pages v, sc_buf_size := ucast z\<rparr>]\<rparr>)"
    if "mem s1 = mem s" "u < length (nac_array s1)" for s1 u
    using that alloc by (simp add: claim_buffer_def in_mem_def drv_runs demo_drv_def)
  have f: "enable_device_at demo_drv h d = 0" "region_start demo_drv d = 0xd0000000" "region_len demo_drv d = 0x100000"
    "region_busy_at demo_drv h a z = False" "ioremap_at demo_drv h a z = a + 0xffffc20000000000" "enable_msi_at demo_drv h d = 0"
    "dev_irq_at demo_drv h d = 16" "request_irq_at demo_drv h i = 0" "cdev_add_at demo_drv h n = 0" "config_at demo_drv h d reg = 16"
    for h d a z i n reg by (simp_all add: demo_drv_def)
  show ?thesis
    by (cases "v = 0") (simp_all add: nac_init_one_def find attach_unit_def drv_runs set_latency_def map_window_def claim_resources_def claim
        claim_irq_def finish_probe_def nac_pciconfig_save_def add_nodes_def nac_fops_array_def three s
        f Let_def NAC_MAX_BOARDS_def NACMINORBITS_def NAC_MIN_LATENCY_def)
qed

lemma demo_reach:
  assumes "pool_good m" and "pool_claimed m = {}"
  shows "\<exists>w. drv_reach demo_drv m w \<and> demo_file Nac_mem_fops \<in># files w"
proof -
  let ?s0 = "(drv_start m)\<lparr>nac_dev := 0x0fe00000, dlog := [AllocChrdev 0 0x0fe00000, RegisterDriver 0]\<rparr>"
  have "nac_init demo_drv (drv_start m) = Some (Ok 0, ?s0)"
    by (simp add: nac_init_def ask_bnd ask_run demo_drv_def)
  then have r0: "drv_reach demo_drv m \<lparr>bound = {}, files = {#}, drv = ?s0\<rparr>" by (rule drv_reach.load)
  obtain v z m1 where alloc: "nac_mem_malloc 0 (mem ?s0) = Some (Ok (v, z), m1)"
    using card_buffers.claim_law [OF assms(1), of 0] by auto
  obtain r t where probe: "nac_init_one demo_drv 7 ?s0 = Some (Ok r, t)" using demo_probe_any [OF _ alloc] by auto
  define w where "w = \<lparr>bound = if 0 \<le> r then {7} else {}, files = {#}, drv = t\<rparr>"
  have "drv_step demo_drv \<lparr>bound = {}, files = {#}, drv = ?s0\<rparr> w"
    using drv_step.probe [of 7 "\<lparr>bound = {}, files = {#}, drv = ?s0\<rparr>" demo_drv r t] probe by (simp add: w_def cong: if_cong)
  then have r1: "drv_reach demo_drv m w" using r0 drv_reach.step by blast
  have len: "length (nac_array ?s0) = NAC_MAX_BOARDS" by simp
  have "attached (nac_array t ! 0)"
    using probe len
  proof (cases rule: init_one_Ok)
    case full
    have pos: "0 < NAC_MAX_BOARDS" by (simp add: NAC_MAX_BOARDS_def)
    then have "attached (nac_array ?s0 ! 0)" using full(1) by blast
    then show ?thesis using pos by simp
  next
    case (unit u)
    then have "u = 0" using not_attached_zero by (cases u) auto
    moreover obtain sc where "nac_array t = (nac_array ?s0)[u := sc]" "taken 7 u (nac_array ?s0 ! u) sc" using unit(4) unfolding probed_def by auto
    ultimately show ?thesis using unit(1) by (simp add: taken_def)
  qed
  then have op: "nac_drv_open 8 \<lparr>private_data = None, f_op = Nac_mem_fops, f_sync = False\<rparr> (drv w) = Some (Ok (0, demo_file Nac_mem_fops), t)"
    by (simp add: nac_drv_open_def NACUNIT_def NACMINOR_def NACMINORMASK_def NACMINORBITS_def nac_fops_array_def drv_runs Let_def
        demo_file_def w_def drop_bit_eq_div)
  have "drv_reach demo_drv m (w\<lparr>files := add_mset (demo_file Nac_mem_fops) (files w), drv := t\<rparr>)"
    by (rule drv_reach.step [OF r1 drv_step.opened [OF op]])
  then show ?thesis by (intro exI conjI, assumption) simp
qed

lemma demo_pages_drv [simp]: "pages demo_drv = demo_pages"
  by (simp add: demo_drv_def)

lemma demo_module: "\<exists>m. nac_mem_init demo_pages (mem_start 2 '''' 10) = Some (Ok 0, m)"
  using init_run [OF demo_pages_ok, of 2 10 "''''"] by auto

theorem cards_isolated_witness:
  "\<exists>m w. nac_mem_init demo_pages (mem_start 2 '''' 10) = Some (Ok 0, m) \<and> drv_reach demo_drv m w \<and>
     demo_file Nac_mem_fops \<in># files w \<and> (\<exists>r t. drv_write demo_drv (demo_file Nac_mem_fops) 0x7f0000 64 0 (drv w) = Some (Ok r, t) \<and>
       (\<forall>x v. v < NAC_MAX_BOARDS \<longrightarrow> v \<noteq> 0 \<longrightarrow> unit_area (drv w) v x \<longrightarrow> kmem t x = kmem (drv w) x))"
proof -
  obtain m where m: "nac_mem_init (pages demo_drv) (mem_start 2 '''' 10) = Some (Ok 0, m)" using demo_module by auto
  have K: "page_kernel (pages demo_drv)" "has_page (pages demo_drv)" using demo_pages_ok by simp_all
  have ord: "(0 :: int) \<le> 2" "unat (10 :: i32) \<le> 14" by simp_all
  obtain w where w: "drv_reach demo_drv m w" "demo_file Nac_mem_fops \<in># files w"
    using demo_reach [OF module_pool(1,2) [OF K ord m]] by blast
  have wf: "world_wf demo_drv w" using reach_wf [OF w(1) module_pool(1,2) [OF K ord m]] by simp
  obtain u where "private_data (demo_file Nac_mem_fops) = Some u" "window_known (nac_array (drv w) ! u)"
    using wf w(2) by (rule world_file)
  moreover have vfs: "vfs_pos 0 64" by (simp add: vfs_pos_def)
  ultimately obtain r t where t: "drv_write demo_drv (demo_file Nac_mem_fops) 0x7f0000 64 0 (drv w) = Some (Ok r, t)"
    using write_returns by blast
  from cards_isolated [OF K ord demo_drv_simps(4) m w demo_table_simps(1) vfs, THEN conjunct1] t
  have "\<forall>x v. v < NAC_MAX_BOARDS \<longrightarrow> v \<noteq> 0 \<longrightarrow> unit_area (drv w) v x \<longrightarrow> kmem t x = kmem (drv w) x" by blast
  then show ?thesis using m w t by auto
qed

theorem open_files_never_fault_witness:
  "\<exists>m w. nac_mem_init demo_pages (mem_start 2 '''' 10) = Some (Ok 0, m) \<and> drv_reach demo_drv m w \<and>
     demo_file Nac_mem_fops \<in># files w \<and> (\<exists>r t. drv_write demo_drv (demo_file Nac_mem_fops) 0x7f0000 64 0 (drv w) = Some (Ok r, t)) \<and>
     (\<exists>r t. nac_ioctl demo_drv (demo_file Nac_mem_fops) NACIOCINFO 0x7f0000 (drv w) = Some (Ok r, t))"
proof -
  obtain m where m: "nac_mem_init (pages demo_drv) (mem_start 2 '''' 10) = Some (Ok 0, m)" using demo_module by auto
  have K: "page_kernel (pages demo_drv)" "has_page (pages demo_drv)" using demo_pages_ok by simp_all
  have ord: "(0 :: int) \<le> 2" "unat (10 :: i32) \<le> 14" by simp_all
  obtain w where w: "drv_reach demo_drv m w" "demo_file Nac_mem_fops \<in># files w"
    using demo_reach [OF module_pool(1,2) [OF K ord m]] by blast
  have "NACIOCINFO \<noteq> NACIOCDUCK" by (rule request_parts)
  moreover have "f_op (demo_file Nac_mem_fops) \<noteq> Nac_iom_fops" by (simp add: demo_file_def)
  ultimately show ?thesis using open_files_never_fault [OF K ord m w, where cmd = NACIOCINFO] m w by auto
qed

end
