(* ===== verification/Divdi3.thy ===== *)
theory Divdi3
  imports Prelude "HOL-Library.Signed_Division"
begin

text \<open>
  The division of 64 bit numbers in halves of 32 bits (drv/divdi3_impl.c), which the driver's
  modules need on 32 bit kernels. The file has three builds, with different machine instructions:
  i386, which divides two words by one, and powerpc and s390, which divide in half words after
  shifting the divisor to the top. A division by zero, which C leaves undefined and i386 traps,
  is \<open>None\<close>.
\<close>

section \<open>Halves\<close>

definition hi32 :: "u64 \<Rightarrow> u32" where
  "hi32 n = ucast (drop_bit 32 n)"

definition lo32 :: "u64 \<Rightarrow> u32" where
  "lo32 n = ucast n"

definition join32 :: "u32 \<Rightarrow> u32 \<Rightarrow> u64" where
  "join32 h l = push_bit 32 (ucast h) OR ucast l"

definition ll_B :: u32 where "ll_B = push_bit 16 1"

definition ll_lowpart :: "u32 \<Rightarrow> u32" where
  "ll_lowpart t = t mod ll_B"

definition ll_highpart :: "u32 \<Rightarrow> u32" where
  "ll_highpart t = t div ll_B"

section \<open>The machines\<close>

text \<open>Two words by one: the instruction traps when the quotient does not fit.\<close>

definition udiv_qrnnd_i386 :: "u32 \<Rightarrow> u32 \<Rightarrow> u32 \<Rightarrow> (u32 \<times> u32) option" where
  "udiv_qrnnd_i386 n1 n0 d =
     (if d \<le> n1 then None
      else Some (ucast (join32 n1 n0 div ucast d), ucast (join32 n1 n0 mod ucast d)))"

text \<open>One digit of the quotient, to base \<open>2 ^ 16\<close>: an estimate, corrected up to two times.\<close>

definition qrnnd_digit :: "u32 \<Rightarrow> u32 \<Rightarrow> u32 \<Rightarrow> u32 \<times> u32" where
  "qrnnd_digit d r x =
     (let d1 = ll_highpart d; d0 = ll_lowpart d; r1 = r mod d1; q1 = r div d1; m = q1 * d0; r1 = r1 * ll_B OR x;
          (q1, r1) = (if r1 < m then (let q1 = q1 - 1; r1 = r1 + d in if d \<le> r1 then (if r1 < m then (q1 - 1, r1 + d) else (q1, r1)) else (q1, r1))
            else (q1, r1))
      in (q1, r1 - m))"

definition udiv_qrnnd_c :: "u32 \<Rightarrow> u32 \<Rightarrow> u32 \<Rightarrow> (u32 \<times> u32) option" where
  "udiv_qrnnd_c n1 n0 d =
     (if ll_highpart d = 0 then None
      else let (q1, r1) = qrnnd_digit d n1 (ll_highpart n0); (q0, r0) = qrnnd_digit d r1 (ll_lowpart n0)
        in Some (q1 * ll_B OR q0, r0))"

text \<open>\<open>bsrl\<close>: the number of the highest bit that is set.\<close>

definition bsrl :: "u32 \<Rightarrow> nat option" where
  "bsrl x = (if x = 0 then None else Some (last (filter (bit x) [0..<32])))"

definition clz_i386 :: "u32 \<Rightarrow> nat option" where
  "clz_i386 x = map_option (\<lambda>c. c XOR 31) (bsrl x)"

definition clz_powerpc :: "u32 \<Rightarrow> nat option" where
  "clz_powerpc x = Some (length (takeWhile (\<lambda>k. \<not> bit x (31 - k)) [0..<32]))"

definition clz_tab :: "nat list" where
  "clz_tab = [0, 1] @ replicate 2 2 @ replicate 4 3 @ replicate 8 4 @ replicate 16 5 @ replicate 32 6 @ replicate 64 7 @ replicate 128 8"

definition clz_s390 :: "u32 \<Rightarrow> nat option" where
  "clz_s390 xr = (let a = (if xr < push_bit 16 1 then (if xr < push_bit 8 1 then 0 else 8)
       else (if xr < push_bit 24 1 then 16 else 24))
     in Some (32 - (clz_tab ! unat (drop_bit a xr) + a)))"

text \<open>The product of two words in two words; s390 multiplies signed numbers and corrects.\<close>

definition umul_ppmm :: "u32 \<Rightarrow> u32 \<Rightarrow> u32 \<times> u32" where
  "umul_ppmm u v = (hi32 (ucast u * ucast v), lo32 (ucast u * ucast v))"

definition umul_ppmm_s390 :: "u32 \<Rightarrow> u32 \<Rightarrow> u32 \<times> u32" where
  "umul_ppmm_s390 u v =
     (let p = scast u * scast v :: u64; h = hi32 p;
          h = (if u <s 0 then h + v else h);
          h = (if v <s 0 then h + u else h)
      in (h, lo32 p))"

text \<open>Subtracting two words from two words, the borrow going from the low to the high one.\<close>

definition sub_ddmmss :: "u32 \<Rightarrow> u32 \<Rightarrow> u32 \<Rightarrow> u32 \<Rightarrow> u32 \<times> u32" where
  "sub_ddmmss ah al bh bl = (ah - bh - (if al < bl then 1 else 0), al - bl)"

definition sub_ddmmss_s390 :: "u32 \<Rightarrow> u32 \<Rightarrow> u32 \<Rightarrow> u32 \<Rightarrow> u32 \<times> u32" where
  "sub_ddmmss_s390 ah al bh bl = ((if al < bl then ah + (- 1) else ah) - bh, al - bl)"

record div_arch =
  qrnnd :: "u32 \<Rightarrow> u32 \<Rightarrow> u32 \<Rightarrow> (u32 \<times> u32) option"
  clz :: "u32 \<Rightarrow> nat option"
  umul :: "u32 \<Rightarrow> u32 \<Rightarrow> u32 \<times> u32"
  sub2 :: "u32 \<Rightarrow> u32 \<Rightarrow> u32 \<Rightarrow> u32 \<Rightarrow> u32 \<times> u32"
  needs_normalization :: bool

definition i386 :: div_arch where
  "i386 = \<lparr>qrnnd = udiv_qrnnd_i386, clz = clz_i386, umul = umul_ppmm, sub2 = sub_ddmmss, needs_normalization = False\<rparr>"

definition powerpc :: div_arch where
  "powerpc = \<lparr>qrnnd = udiv_qrnnd_c, clz = clz_powerpc, umul = umul_ppmm, sub2 = sub_ddmmss, needs_normalization = True\<rparr>"

definition s390 :: div_arch where
  "s390 = \<lparr>qrnnd = udiv_qrnnd_c, clz = clz_s390, umul = umul_ppmm_s390, sub2 = sub_ddmmss_s390, needs_normalization = True\<rparr>"

section \<open>The division\<close>

text \<open>
  The divisor is one word: the two words of the quotient and the remainder, which is one word.
  First for a machine that divides any numbers, then with the divisor shifted to the top.
\<close>

definition by_one_word :: "div_arch \<Rightarrow> u32 \<Rightarrow> u32 \<Rightarrow> u32 \<Rightarrow> (u32 \<times> u32 \<times> u32) option" where
  "by_one_word A n1 n0 d0 =
     (if n1 < d0 then Option.bind (qrnnd A n1 n0 d0) (\<lambda>(q0, n0). Some (0, q0, n0))
      else if d0 = 0 then None
      else Option.bind (qrnnd A 0 n1 d0) (\<lambda>(q1, n1).
        Option.bind (qrnnd A n1 n0 d0) (\<lambda>(q0, n0). Some (q1, q0, n0))))"

definition by_one_word_norm :: "div_arch \<Rightarrow> u32 \<Rightarrow> u32 \<Rightarrow> u32 \<Rightarrow> (u32 \<times> u32 \<times> u32) option" where
  "by_one_word_norm A n1 n0 d0 =
     (if n1 < d0 then Option.bind (clz A d0) (\<lambda>bm.
        let (d0, n1, n0) = (if bm \<noteq> 0 then (push_bit bm d0, push_bit bm n1 OR drop_bit (32 - bm) n0, push_bit bm n0) else (d0, n1, n0))
        in Option.bind (qrnnd A n1 n0 d0) (\<lambda>(q0, n0). Some (0, q0, drop_bit bm n0)))
      else if d0 = 0 then None
      else Option.bind (clz A d0) (\<lambda>bm.
        if bm = 0 then Option.bind (qrnnd A (n1 - d0) n0 d0) (\<lambda>(q0, n0). Some (1, q0, drop_bit bm n0))
        else let b = 32 - bm; d0 = push_bit bm d0; n2 = drop_bit b n1; n1 = push_bit bm n1 OR drop_bit b n0; n0 = push_bit bm n0
          in Option.bind (qrnnd A n2 n1 d0) (\<lambda>(q1, n1).
            Option.bind (qrnnd A n1 n0 d0) (\<lambda>(q0, n0). Some (q1, q0, drop_bit bm n0)))))"

text \<open>The divisor is two words: the quotient is one word, the remainder two.\<close>

definition by_two_words :: "div_arch \<Rightarrow> u32 \<Rightarrow> u32 \<Rightarrow> u32 \<Rightarrow> u32 \<Rightarrow> (u32 \<times> u32 \<times> u32) option" where
  "by_two_words A n1 n0 d1 d0 =
     (if n1 < d1 then Some (0, n1, n0)
      else Option.bind (clz A d1) (\<lambda>bm.
        if bm = 0 then (if d1 < n1 \<or> d0 \<le> n0 then Some (1, sub2 A n1 n0 d1 d0) else Some (0, n1, n0))
        else let b = 32 - bm; d1 = push_bit bm d1 OR drop_bit b d0; d0 = push_bit bm d0;
               n2 = drop_bit b n1; n1 = push_bit bm n1 OR drop_bit b n0; n0 = push_bit bm n0
          in Option.bind (qrnnd A n2 n1 d1) (\<lambda>(q0, n1).
            let (m1, m0) = umul A q0 d0;
                (q0, m1, m0) = (if n1 < m1 \<or> m1 = n1 \<and> n0 < m0 then (q0 - 1, sub2 A m1 m0 d1 d0) else (q0, m1, m0));
                (n1, n0) = sub2 A n1 n0 m1 m0
            in Some (q0, drop_bit bm n1, push_bit b n1 OR drop_bit bm n0))))"

text \<open>The quotient and what is stored through \<open>rp\<close>, if it is not null.\<close>

definition udivmoddi4 :: "div_arch \<Rightarrow> u64 \<Rightarrow> u64 \<Rightarrow> (u64 \<times> u64) option" where
  "udivmoddi4 A n d =
     (let d0 = lo32 d; d1 = hi32 d; n0 = lo32 n; n1 = hi32 n in
      if d1 = 0
      then Option.bind (if needs_normalization A then by_one_word_norm A n1 n0 d0 else by_one_word A n1 n0 d0) (\<lambda>(q1, q0, r).
        Some (join32 q1 q0, join32 0 r))
      else Option.bind (by_two_words A n1 n0 d1 d0) (\<lambda>(q0, r1, r0). Some (join32 0 q0, join32 r1 r0)))"

definition negdi2 :: "u64 \<Rightarrow> u64" where
  "negdi2 u = (let low = - lo32 u; high = - hi32 u - (if 0 < low then 1 else 0) in join32 high low)"

definition divdi3 :: "div_arch \<Rightarrow> u64 \<Rightarrow> u64 \<Rightarrow> u64 option" where
  "divdi3 A u v =
     (let c = False;
          (c, uu) = (if hi32 u <s 0 then (\<not> c, negdi2 u) else (c, u));
          (c, vv) = (if hi32 v <s 0 then (\<not> c, negdi2 v) else (c, v))
      in Option.bind (udivmoddi4 A uu vv) (\<lambda>(w, _). Some (if c then negdi2 w else w)))"

definition moddi3 :: "div_arch \<Rightarrow> u64 \<Rightarrow> u64 \<Rightarrow> u64 option" where
  "moddi3 A u v =
     (let c = False;
          (c, uu) = (if hi32 u <s 0 then (\<not> c, negdi2 u) else (c, u));
          vv = (if hi32 v <s 0 then negdi2 v else v)
      in Option.bind (udivmoddi4 A uu vv) (\<lambda>(_, w). Some (if c then negdi2 w else w)))"

definition umoddi3 :: "div_arch \<Rightarrow> u64 \<Rightarrow> u64 \<Rightarrow> u64 option" where
  "umoddi3 A u v = map_option snd (udivmoddi4 A u v)"

definition udivdi3 :: "div_arch \<Rightarrow> u64 \<Rightarrow> u64 \<Rightarrow> u64 option" where
  "udivdi3 A n d = map_option fst (udivmoddi4 A n d)"

section \<open>Halves as numbers\<close>

lemma uint_hi32: "uint (hi32 n) = uint n div 2 ^ 32"
proof -
  have "uint n < 2 ^ 32 * 2 ^ 32" using uint_bounded [of n] by simp
  then have "uint n div 2 ^ 32 < 2 ^ 32" by (simp add: div_less_iff_less_mult)
  moreover have "0 \<le> uint n div 2 ^ 32" by (intro div_int_pos_iff [THEN iffD2]) simp
  ultimately have "take_bit 32 (uint n div 2 ^ 32) = uint n div 2 ^ 32" by (simp add: take_bit_int_eq_self_iff)
  moreover have "take_bit 64 (uint n) = uint n" using uint_bounded [of n] by (simp add: take_bit_int_eq_self_iff)
  ultimately show ?thesis unfolding hi32_def unsigned_ucast_eq unsigned_drop_bit_eq by (simp add: drop_bit_eq_div)
qed

lemma uint_lo32: "uint (lo32 n) = uint n mod 2 ^ 32"
  by (simp add: lo32_def unsigned_ucast_eq take_bit_eq_mod)

lemma uint_or_disjoint: "uint a AND uint b = 0 \<Longrightarrow> uint (a OR b) = uint a + uint b"
  by (simp add: unsigned_or_eq disjunctive_add_eq_or)

lemma uint_join32: "uint (join32 h l) = uint h * 2 ^ 32 + uint l"
proof -
  have "push_bit 32 (uint h) < 2 ^ 64" using uint_bounded [of h] by (simp add: push_bit_eq_mult)
  then have h: "uint (push_bit 32 (ucast h) :: u64) = push_bit 32 (uint h)"
    unfolding unsigned_push_bit_eq by (simp add: uint_up_ucast is_up take_bit_int_eq_self_iff push_bit_eq_mult)
  have t: "take_bit 32 (uint l) = uint l" using uint_bounded [of l] by (simp add: take_bit_int_eq_self_iff)
  have l: "uint (ucast l :: u64) = take_bit 32 (uint l)" unfolding t by (simp add: uint_up_ucast is_up)
  have "push_bit 32 (uint h) AND take_bit 32 (uint l) = 0"
    by (rule bit_eqI) (simp add: bit_simps)
  then show ?thesis
    unfolding join32_def by (subst uint_or_disjoint) (simp_all only: h l, simp add: push_bit_eq_mult t)
qed

lemma join_hi_lo: "uint (hi32 n) * 2 ^ 32 + uint (lo32 n) = uint n"
  by (simp add: uint_hi32 uint_lo32)

lemma u32_bounds: "0 \<le> uint (x :: u32)" "uint (x :: u32) < 2 ^ 32"
  using uint_bounded [of x] by simp_all

lemma uint_word_of_range: "0 \<le> k \<Longrightarrow> k < 2 ^ 32 \<Longrightarrow> uint (word_of_int k :: u32) = k"
  by (simp add: uint_word_of_int)

lemma div_bounds:
  assumes "0 < (d :: int)"
  shows "n div d * d \<le> n" and "n < (n div d + 1) * d"
proof -
  have "(n div d + 1) * d = n div d * d + d" by (simp add: distrib_right)
  then show "n div d * d \<le> n" "n < (n div d + 1) * d"
    using div_mult_mod_eq [of n d] pos_mod_sign [OF assms, of n] pos_mod_bound [OF assms, of n] by linarith+
qed

lemma div_below:
  assumes "0 < (d :: int)" and "n < b * d"
  shows "n div d < b"
proof (rule ccontr)
  assume "\<not> n div d < b"
  then have "b * d \<le> n div d * d" using assms(1) by (intro mult_right_mono) simp_all
  moreover have "n div d * d \<le> n" by (rule div_bounds(1) [OF assms(1)])
  ultimately show False using assms(2) by linarith
qed

section \<open>Long division by half words\<close>

lemma uint_parts: "uint (ll_highpart t) = uint t div 2 ^ 16" "uint (ll_lowpart t) = uint t mod 2 ^ 16"
proof -
  have "uint ll_B = 2 ^ 16" by (simp add: ll_B_def)
  then show "uint (ll_highpart t) = uint t div 2 ^ 16" "uint (ll_lowpart t) = uint t mod 2 ^ 16"
    by (simp_all add: ll_highpart_def ll_lowpart_def uint_div_distrib uint_mod_distrib)
qed

lemma uint_digits:
  assumes "uint a < 2 ^ 16" and "uint b < 2 ^ 16"
  shows "uint (a * ll_B OR b) = uint a * 2 ^ 16 + uint b"
proof -
  have m: "a * ll_B = push_bit 16 a" by (simp add: ll_B_def push_bit_eq_mult mult.commute)
  have "push_bit 16 (uint a) < 2 ^ 32" using assms(1) by (simp add: push_bit_eq_mult)
  then have p: "uint (push_bit 16 a) = push_bit 16 (uint a)"
    unfolding unsigned_push_bit_eq by (simp add: take_bit_int_eq_self_iff push_bit_eq_mult)
  have t: "take_bit 16 (uint b) = uint b" using assms(2) by (simp add: take_bit_int_eq_self_iff)
  have "push_bit 16 (uint a) AND take_bit 16 (uint b) = 0"
    by (rule bit_eqI) (auto simp add: bit_simps)
  then have "uint (push_bit 16 a OR b) = push_bit 16 (uint a) + uint b" unfolding t using uint_or_disjoint [of "push_bit 16 a" b] by (simp only: p)
  then show ?thesis unfolding m by (simp add: push_bit_eq_mult)
qed

text \<open>The estimate is too large by at most two.\<close>

lemma digit_estimate:
  fixes D R X :: int
  assumes D: "2 ^ 31 \<le> D" "D < 2 ^ 32" and R: "0 \<le> R" "R < D" and X: "0 \<le> X" "X < 2 ^ 16"
  defines "Q \<equiv> R div (D div 2 ^ 16)" and "S \<equiv> R mod (D div 2 ^ 16) * 2 ^ 16 + X"
  defines "M \<equiv> Q * (D mod 2 ^ 16)"
  shows "R * 2 ^ 16 + X = Q * D + (S - M)" and "0 \<le> Q" and "Q \<le> 2 ^ 16 + 1" and "0 \<le> M" and "M < 2 ^ 32"
    and "0 \<le> S" and "S < D" and "M \<le> 2 * D"
proof -
  define d1 d0 where "d1 = D div 2 ^ 16" and "d0 = D mod 2 ^ 16"
  have d: "D = d1 * 2 ^ 16 + d0" "0 \<le> d0" "d0 < 2 ^ 16" by (simp_all add: d1_def d0_def)
  have d1: "2 ^ 15 \<le> d1" using D(1) unfolding d1_def by simp
  have R1: "R = Q * d1 + R mod d1" "0 \<le> R mod d1" "R mod d1 < d1" using d1 div_mult_mod_eq [of R d1] unfolding Q_def d1_def by simp_all
  have S: "S = R mod d1 * 2 ^ 16 + X" "M = Q * d0" by (simp_all add: S_def M_def d1_def d0_def)
  show "R * 2 ^ 16 + X = Q * D + (S - M)" unfolding S d(1) using R1(1) by (simp add: algebra_simps)
  show Q0: "0 \<le> Q" unfolding Q_def using R(1) D(1) by (simp add: pos_imp_zdiv_nonneg_iff)
  show Q: "Q \<le> 2 ^ 16 + 1"
  proof (rule ccontr)
    assume "\<not> Q \<le> 2 ^ 16 + 1"
    then have "(2 ^ 16 + 2) * d1 \<le> Q * d1" using d1 by (intro mult_right_mono) simp_all
    then have "(2 ^ 16 + 2) * d1 \<le> R" using R1(1,2) by linarith
    then show False using R(2) d d1 by simp
  qed
  show M0: "0 \<le> M" unfolding S using Q0 d(2) by simp
  have "M \<le> (2 ^ 16 + 1) * (2 ^ 16 - 1)" unfolding S using Q Q0 d by (intro mult_mono) simp_all
  then show "M < 2 ^ 32" "M \<le> 2 * D" using D(1) by simp_all
  show "0 \<le> S" unfolding S using R1(2) X(1) by simp
  have "(R mod d1 + 1) * 2 ^ 16 \<le> d1 * 2 ^ 16" using R1(3) by (intro mult_right_mono) simp_all
  then show "S < D" unfolding S d(1) using X(2) d(2) by (simp add: algebra_simps)
qed

lemma div_mod_unique: "(a :: int) = q * b + r \<Longrightarrow> 0 \<le> r \<Longrightarrow> r < b \<Longrightarrow> q = a div b \<and> r = a mod b"
  using int_div_pos_eq [of a b q r] int_mod_pos_eq [of a b q r] by (simp add: mult.commute)

lemma qrnnd_digit_correct:
  assumes norm: "2 ^ 31 \<le> uint d" and r: "uint r < uint d" and x: "uint x < 2 ^ 16" and run: "qrnnd_digit d r x = (q, s)"
  shows "uint q = (uint r * 2 ^ 16 + uint x) div uint d" and "uint s = (uint r * 2 ^ 16 + uint x) mod uint d"
proof -
  define D R X where "D = uint d" and "R = uint r" and "X = uint x"
  define Q S M where "Q = R div (D div 2 ^ 16)" and "S = R mod (D div 2 ^ 16) * 2 ^ 16 + X" and "M = Q * (D mod 2 ^ 16)"
  have D: "2 ^ 31 \<le> D" "D < 2 ^ 32" and R: "0 \<le> R" "R < D" and X: "0 \<le> X" "X < 2 ^ 16"
    using norm r x u32_bounds by (simp_all add: D_def R_def X_def)
  note e = digit_estimate [OF D R X, folded Q_def S_def, folded M_def]
  define q1 m r1 where "q1 = r div ll_highpart d" and "m = r div ll_highpart d * ll_lowpart d" and "r1 = r mod ll_highpart d * ll_B OR x"
  have digit: "qrnnd_digit d r x = (let (q, r) = (if r1 < m then (let q = q1 - 1; r = r1 + d in
      if d \<le> r then (if r < m then (q - 1, r + d) else (q, r)) else (q, r)) else (q1, r1)) in (q, r - m))"
    by (simp add: qrnnd_digit_def q1_def m_def r1_def Let_def)
  have q: "uint q1 = Q" by (simp add: q1_def uint_div_distrib uint_parts Q_def D_def R_def)
  have m: "uint m = M" using e(4,5) q by (simp add: m_def q1_def [symmetric] uint_word_ariths uint_parts M_def D_def)
  have "R mod (D div 2 ^ 16) < D div 2 ^ 16" using D(1) by (intro pos_mod_bound) simp
  also have "D div 2 ^ 16 < 2 ^ 16" using D(2) by (simp add: div_less_iff_less_mult)
  finally have rr: "uint r1 = S" unfolding r1_def using x by (subst uint_digits) (simp_all add: uint_mod_distrib uint_parts S_def D_def R_def X_def)
  have sum: "uint (r1 + d) = (S + D) mod 2 ^ 32" by (simp add: uint_word_ariths rr D_def)
  have dd: "uint d = D" by (simp add: D_def)
  have pick: "\<exists>k \<in> {0, 1, 2}. 0 \<le> S - M + k * D \<and> S - M + k * D < D \<and> 0 \<le> Q - k \<and>
      uint q = (Q - k) mod 2 ^ 32 \<and> uint s = (S - M + k * D) mod 2 ^ 32"
  proof -
    have nn: "0 \<le> Q * D + (S - M)" using e(1) R(1) X(1) by simp
    have pos: "0 < D" using D by simp
    consider (none) "M \<le> S" | (one) "S < M" "M \<le> S + D" | (two) "S + D < M" by linarith
    then show ?thesis
    proof cases
      case none
      then have "\<not> r1 < m" by (simp add: word_less_def m rr)
      then have "qrnnd_digit d r x = (q1, r1 - m)" by (simp add: digit Let_def)
      then have "q = q1" "s = r1 - m" using run by simp_all
      then show ?thesis using none e by (intro bexI [of _ 0]) (simp_all add: q uint_word_ariths rr m)
    next
      case one
      then have "r1 < m" by (simp add: word_less_def m rr)
      moreover have "\<not> (d \<le> r1 + d \<and> r1 + d < m)"
      proof (cases "S + D < 2 ^ 32")
        case True
        then show ?thesis using one e(6) pos by (simp add: word_less_def m sum)
      next
        case False
        then have "(S + D) mod 2 ^ 32 = S + D - 2 ^ 32" using e(6,7) D by (subst mod_pos_pos_trivial [of "S + D - 2 ^ 32" "2 ^ 32", symmetric]) (simp_all add: mod_diff_right_eq)
        then show ?thesis using e(7) D by (simp add: word_le_def dd sum)
      qed
      ultimately have "qrnnd_digit d r x = (q1 - 1, r1 + d - m)" by (auto simp: digit Let_def)
      then have "q = q1 - 1" "s = r1 + d - m" using run by simp_all
      moreover have "1 \<le> Q"
      proof (rule ccontr)
        assume "\<not> 1 \<le> Q"
        then have "Q = 0" using e(2) by simp
        then show False using one(1) by (simp add: M_def) (use e(6) in simp)
      qed
      moreover have "uint (q1 - 1) = (Q - 1) mod 2 ^ 32" "uint (r1 + d - m) = (S - M + 1 * D) mod 2 ^ 32"
        by (simp_all add: uint_word_ariths q rr m dd mod_simps algebra_simps)
      ultimately show ?thesis using one e(7) pos by (intro bexI [of _ 1] conjI) (simp_all only:, simp_all)
    next
      case two
      then have ss: "(S + D) mod 2 ^ 32 = S + D" using e(5,6) D by simp
      then have "r1 < m" "d \<le> r1 + d" "r1 + d < m" using two e(6) pos by (simp_all add: word_less_def word_le_def m rr dd sum)
      then have "qrnnd_digit d r x = (q1 - 1 - 1, r1 + d + d - m)" by (simp add: digit Let_def)
      then have "q = q1 - 1 - 1" "s = r1 + d + d - m" using run by simp_all
      moreover have "2 \<le> Q"
      proof (rule ccontr)
        assume "\<not> 2 \<le> Q"
        then have "Q * D \<le> 1 * D" using pos by (intro mult_right_mono) simp_all
        then show False using nn two by simp
      qed
      moreover have "uint (q1 - 1 - 1) = (Q - 2) mod 2 ^ 32" "uint (r1 + d + d - m) = (S - M + 2 * D) mod 2 ^ 32"
        by (simp_all add: uint_word_ariths q rr m dd mod_simps algebra_simps)
      ultimately show ?thesis using two e(6,7,8) pos by (intro bexI [of _ 2] conjI) (simp_all only:, simp_all)
    qed
  qed
  then obtain k where k: "k \<in> {0, 1, 2}" "0 \<le> S - M + k * D" "S - M + k * D < D" "0 \<le> Q - k"
    "uint q = (Q - k) mod 2 ^ 32" "uint s = (S - M + k * D) mod 2 ^ 32" by blast
  have "R * 2 ^ 16 + X = (Q - k) * D + (S - M + k * D)" using e(1) by (simp add: algebra_simps)
  from div_mod_unique [OF this k(2,3)] have "Q - k = (R * 2 ^ 16 + X) div D" "S - M + k * D = (R * 2 ^ 16 + X) mod D" by simp_all
  moreover have "Q - k < 2 ^ 32" using k(1) e(3) by auto
  then have "uint q = Q - k" using k(4,5) by simp
  moreover have "uint s = S - M + k * D" using k(2,3,6) D(2) by simp
  ultimately show "uint q = (uint r * 2 ^ 16 + uint x) div uint d" "uint s = (uint r * 2 ^ 16 + uint x) mod uint d"
    by (simp_all add: D_def R_def X_def)
qed

lemma qrnnd_c_correct:
  assumes norm: "2 ^ 31 \<le> uint d" and n1: "uint n1 < uint d"
  obtains q r where "udiv_qrnnd_c n1 n0 d = Some (q, r)" and "uint q = (uint n1 * 2 ^ 32 + uint n0) div uint d"
    and "uint r = (uint n1 * 2 ^ 32 + uint n0) mod uint d"
proof -
  define H L D where "H = uint n0 div 2 ^ 16" and "L = uint n0 mod 2 ^ 16" and "D = uint d"
  have N0: "uint n0 = H * 2 ^ 16 + L" by (simp add: H_def L_def)
  have HL: "0 \<le> H" "H < 2 ^ 16" "0 \<le> L" "L < 2 ^ 16"
    using u32_bounds [of n0] by (simp_all add: H_def L_def pos_imp_zdiv_nonneg_iff div_less_iff_less_mult)
  have D: "0 < D" "2 ^ 31 \<le> D" using norm by (simp_all add: D_def)
  obtain q1 r1 where e1: "qrnnd_digit d n1 (ll_highpart n0) = (q1, r1)" by fastforce
  have u1: "uint q1 = (uint n1 * 2 ^ 16 + H) div D" "uint r1 = (uint n1 * 2 ^ 16 + H) mod D"
    using qrnnd_digit_correct [OF norm n1 _ e1] HL by (simp_all add: uint_parts H_def D_def)
  have r1: "uint r1 < uint d" using u1(2) D by (simp add: D_def)
  obtain q0 r0 where e0: "qrnnd_digit d r1 (ll_lowpart n0) = (q0, r0)" by fastforce
  have u0: "uint q0 = (uint r1 * 2 ^ 16 + L) div D" "uint r0 = (uint r1 * 2 ^ 16 + L) mod D"
    using qrnnd_digit_correct [OF norm r1 _ e0] HL by (simp_all add: uint_parts L_def D_def)
  have small: "(a * 2 ^ 16 + b) div D < 2 ^ 16" if "a < D" "b < 2 ^ 16" for a b
  proof -
    have "(a + 1) * 2 ^ 16 \<le> D * 2 ^ 16" using that(1) by (intro mult_right_mono) simp_all
    then have "a * 2 ^ 16 + b < D * 2 ^ 16" using that(2) by (simp add: algebra_simps)
    then show ?thesis using D(1) by (intro div_below) (simp_all add: mult.commute)
  qed
  have "uint q1 < 2 ^ 16" "uint q0 < 2 ^ 16" using small [OF _ HL(2)] small [OF _ HL(4)] n1 r1 u1(1) u0(1) by (simp_all add: D_def)
  then have q: "uint (q1 * ll_B OR q0) = uint q1 * 2 ^ 16 + uint q0" by (rule uint_digits)
  have a1: "uint n1 * 2 ^ 16 + H = uint q1 * D + uint r1" unfolding u1 by (rule div_mult_mod_eq [symmetric])
  have a0: "uint r1 * 2 ^ 16 + L = uint q0 * D + uint r0" unfolding u0 by (rule div_mult_mod_eq [symmetric])
  have "uint n1 * 2 ^ 32 + uint n0 = (uint n1 * 2 ^ 16 + H) * 2 ^ 16 + L" unfolding N0 by simp
  also have "\<dots> = uint q1 * D * 2 ^ 16 + (uint r1 * 2 ^ 16 + L)" unfolding a1 by (simp add: algebra_simps)
  also have "\<dots> = (uint q1 * 2 ^ 16 + uint q0) * D + uint r0" unfolding a0 by (simp add: algebra_simps)
  finally have eq: "uint n1 * 2 ^ 32 + uint n0 = uint (q1 * ll_B OR q0) * D + uint r0" unfolding q .
  have "0 \<le> uint r0" "uint r0 < D" using u0(2) D(1) by simp_all
  from div_mod_unique [OF eq this] have res: "uint (q1 * ll_B OR q0) = (uint n1 * 2 ^ 32 + uint n0) div D" "uint r0 = (uint n1 * 2 ^ 32 + uint n0) mod D" by simp_all
  have "uint (ll_highpart d) \<noteq> 0" using norm unfolding uint_parts by (simp add: div_int_pos_iff zdiv_eq_0_iff)
  then have "ll_highpart d \<noteq> 0" by auto
  then have "udiv_qrnnd_c n1 n0 d = Some (q1 * ll_B OR q0, r0)" by (simp add: udiv_qrnnd_c_def e1 e0)
  then show ?thesis using res unfolding D_def by (rule that)
qed

lemma qrnnd_i386_correct:
  assumes n1: "uint n1 < uint d"
  obtains q r where "udiv_qrnnd_i386 n1 n0 d = Some (q, r)" and "uint q = (uint n1 * 2 ^ 32 + uint n0) div uint d"
    and "uint r = (uint n1 * 2 ^ 32 + uint n0) mod uint d"
proof -
  have d: "uint (ucast d :: u64) = uint d" by (simp add: uint_up_ucast is_up)
  let ?N = "uint n1 * 2 ^ 32 + uint n0"
  have D: "0 < uint d" using u32_bounds(1) [of n1] n1 by (rule order_le_less_trans)
  have "(uint n1 + 1) * 2 ^ 32 \<le> uint d * 2 ^ 32" using n1 by (intro mult_right_mono) simp_all
  then have "?N < uint d * 2 ^ 32" using u32_bounds(2) [of n0] by (simp add: algebra_simps)
  then have "?N div uint d < 2 ^ 32" using D by (intro div_below) (simp_all add: mult.commute)
  moreover have "0 \<le> ?N div uint d" using D by (simp add: pos_imp_zdiv_nonneg_iff)
  moreover have "uint (join32 n1 n0 div ucast d) = ?N div uint d" unfolding uint_div_distrib uint_join32 d ..
  ultimately have q: "uint (ucast (join32 n1 n0 div ucast d) :: u32) = ?N div uint d"
    by (simp add: unsigned_ucast_eq take_bit_int_eq_self_iff)
  have "?N mod uint d < 2 ^ 32" using pos_mod_bound [OF D, of ?N] u32_bounds(2) [of d] by (rule less_trans)
  moreover have "0 \<le> ?N mod uint d" using D by simp
  moreover have "uint (join32 n1 n0 mod ucast d) = ?N mod uint d" unfolding uint_mod_distrib uint_join32 d ..
  ultimately have r: "uint (ucast (join32 n1 n0 mod ucast d) :: u32) = ?N mod uint d"
    by (simp add: unsigned_ucast_eq take_bit_int_eq_self_iff)
  have "\<not> d \<le> n1" using n1 by (simp add: word_le_def)
  then show ?thesis using q r by (intro that) (simp add: udiv_qrnnd_i386_def, assumption+)
qed

section \<open>Leading zeros\<close>

text \<open>What a count of leading zeros is good for: the shift that puts the highest bit on top.\<close>

definition top_shift :: "u32 \<Rightarrow> nat \<Rightarrow> bool" where
  "top_shift x c \<longleftrightarrow> c < 32 \<and> 2 ^ (31 - c) \<le> uint x \<and> uint x < 2 ^ (32 - c)"

lemma bit_highest:
  assumes "x \<noteq> (0 :: u32)"
  obtains k where "k < 32" and "bit x k" and "\<And>j. k < j \<Longrightarrow> \<not> bit x j" and "2 ^ k \<le> uint x" and "uint x < 2 ^ (k + 1)"
proof -
  have ex: "\<exists>k. bit x k" using assms by (auto simp: bit_eq_iff)
  have fin: "finite {k. bit x k}" by (rule finite_subset [of _ "{..<32}"]) (auto dest: bit_imp_le_length)
  define k where "k = Max {k. bit x k}"
  have k: "bit x k" using Max_in [OF fin] ex by (simp add: k_def)
  have up: "\<not> bit x j" if "k < j" for j using Max_ge [OF fin, of j] that unfolding k_def by (metis mem_Collect_eq not_less)
  have "x = take_bit (k + 1) x" by (rule bit_word_eqI) (use up in \<open>auto simp: bit_take_bit_iff less_Suc_eq_le simp flip: not_less\<close>)
  then have "uint x = take_bit (k + 1) (uint x)" by (metis unsigned_take_bit_eq)
  then have lt: "uint x < 2 ^ (k + 1)" by (metis take_bit_int_less_exp)
  have "k < LENGTH(32)" using k by (rule bit_imp_le_length)
  then have k32: "k < 32" by simp
  then have b: "bit (uint x) k" using k by (simp add: bit_uint_iff)
  have ge: "2 ^ k \<le> uint x"
  proof (rule ccontr)
    assume "\<not> 2 ^ k \<le> uint x"
    then have "take_bit k (uint x) = uint x" by (simp add: take_bit_int_eq_self_iff)
    then have "\<not> bit (uint x) k" by (metis bit_take_bit_iff less_irrefl)
    then show False using b by simp
  qed
  show ?thesis using k32 k up ge lt by (rule that)
qed

lemma upt_at: "k < n \<Longrightarrow> [0..<n] = [0..<k] @ k # [Suc k..<n]"
  using upt_add_eq_append [of 0 k "n - k"] by (simp add: upt_conv_Cons)

lemma clz_i386_top: "x \<noteq> 0 \<Longrightarrow> \<exists>c. clz_i386 x = Some c \<and> top_shift x c"
proof -
  assume "x \<noteq> 0"
  then obtain k where k: "k < 32" "bit x k" "\<And>j. k < j \<Longrightarrow> \<not> bit x j" "2 ^ k \<le> uint x" "uint x < 2 ^ (k + 1)"
    by (rule bit_highest) blast
  have "[0..<32] = [0..<k] @ k # [Suc k..<32]" using k(1) by (rule upt_at)
  moreover have "filter (bit x) [Suc k..<32] = []" using k(3) by (auto simp: filter_empty_conv)
  ultimately have "last (filter (bit x) [0..<32]) = k" using k(2) by simp
  moreover have "k XOR 31 = 31 - k"
  proof -
    have "k \<in> {..<32}" using k(1) by simp
    then have "k \<in> set [0..<32]" by simp
    moreover have "\<forall>k \<in> set [0..<32]. k XOR 31 = 31 - k" by code_simp
    ultimately show ?thesis by blast
  qed
  moreover have "31 - (31 - k) = k" "32 - (31 - k) = k + 1" using k(1) by simp_all
  ultimately show ?thesis using \<open>x \<noteq> 0\<close> k(1,4,5) by (simp add: clz_i386_def bsrl_def top_shift_def)
qed

lemma takeWhile_until: "\<forall>y \<in> set xs. P y \<Longrightarrow> \<not> P z \<Longrightarrow> takeWhile P (xs @ z # ys) = xs"
  by (induction xs) simp_all

lemma clz_powerpc_top: "x \<noteq> 0 \<Longrightarrow> \<exists>c. clz_powerpc x = Some c \<and> top_shift x c"
proof -
  assume "x \<noteq> 0"
  then obtain k where k: "k < 32" "bit x k" "\<And>j. k < j \<Longrightarrow> \<not> bit x j" "2 ^ k \<le> uint x" "uint x < 2 ^ (k + 1)"
    by (rule bit_highest) blast
  have "[0..<32] = [0..<31 - k] @ (31 - k) # [Suc (31 - k)..<32]" 
    by (rule upt_at) simp
  moreover have "takeWhile (\<lambda>j. \<not> bit x (31 - j)) ([0..<31 - k] @ (31 - k) # [Suc (31 - k)..<32]) = [0..<31 - k]"
    using k(1,2,3) by (intro takeWhile_until) auto
  ultimately have "takeWhile (\<lambda>j. \<not> bit x (31 - j)) [0..<32] = [0..<31 - k]" by (simp only:)
  moreover have "31 - (31 - k) = k" "32 - (31 - k) = k + 1" using k(1) by simp_all
  ultimately show ?thesis using k(1,4,5) by (simp add: clz_powerpc_def top_shift_def)
qed

lemma clz_tab_top: "0 < i \<Longrightarrow> i < 256 \<Longrightarrow> 0 < clz_tab ! i \<and> clz_tab ! i \<le> 8 \<and> 2 ^ (clz_tab ! i - 1) \<le> i \<and> i < 2 ^ (clz_tab ! i)"
proof -
  assume "0 < i" "i < 256"
  then have "i \<in> set [1..<256]" by simp
  moreover have "\<forall>i \<in> set [1..<256]. 0 < clz_tab ! i \<and> clz_tab ! i \<le> 8 \<and> 2 ^ (clz_tab ! i - 1) \<le> i \<and> i < 2 ^ (clz_tab ! i)"
    by code_simp
  ultimately show ?thesis by blast
qed

text \<open>The table is read at the byte that holds the highest bit.\<close>

lemma uint_drop: "uint (drop_bit a (x :: u32)) = uint x div 2 ^ a"
proof -
  have "take_bit 32 (uint x) = uint x" using uint_bounded [of x] by (simp add: take_bit_int_eq_self_iff)
  then show ?thesis unfolding unsigned_drop_bit_eq by (simp add: drop_bit_eq_div)
qed

lemma clz_s390_top: "x \<noteq> 0 \<Longrightarrow> \<exists>c. clz_s390 x = Some c \<and> top_shift x c"
proof -
  assume x: "x \<noteq> 0"
  have tab: "top_shift x (32 - (clz_tab ! unat (drop_bit a x) + a))" if a: "a \<le> 24" "2 ^ a \<le> uint x \<or> a = 0" "uint x < 2 ^ (a + 8)" for a
  proof -
    define i where "i = unat (drop_bit a x)"
    let ?i = i and ?t = "clz_tab ! i"
    have i: "int i = uint x div 2 ^ a" unfolding i_def of_nat_unat by (rule uint_drop)
    have "0 < uint x" using x u32_bounds(1) [of x] by (simp add: word_uint_eq_iff order_less_le)
    then have "2 ^ a \<le> uint x" using a(2) by auto
    then have "1 \<le> uint x div 2 ^ a" by (simp add: zdiv_mono1 [of "2 ^ a" "uint x" "2 ^ a", simplified])
    moreover have "uint x div 2 ^ a < 256" using a(3) by (intro div_below) (simp_all add: power_add mult.commute)
    ultimately have "0 < ?i" "?i < 256" unfolding i [symmetric] by simp_all
    from clz_tab_top [OF this] have t: "0 < ?t" "?t \<le> 8" "2 ^ (?t - 1) \<le> ?i" "?i < 2 ^ ?t" by simp_all
    have "(2 :: int) ^ (?t - 1) \<le> uint x div 2 ^ a" "uint x div 2 ^ a < 2 ^ ?t"
      unfolding i [symmetric] using t(3,4) by (simp_all only: of_nat_le_iff [symmetric, where 'a = int] of_nat_less_iff [symmetric, where 'a = int] of_nat_power of_nat_numeral)
    moreover have "uint x div 2 ^ a * 2 ^ a \<le> uint x" "uint x < (uint x div 2 ^ a + 1) * 2 ^ a"
      by (rule div_bounds; simp)+
    ultimately have "2 ^ (?t - 1) * 2 ^ a \<le> uint x" "uint x < 2 ^ ?t * 2 ^ a"
      by (meson mult_right_mono order_trans zero_le_numeral zero_le_power order_less_le_trans zless_imp_add1_zle)+
    moreover have "31 - (32 - (?t + a)) = ?t - 1 + a" "32 - (32 - (?t + a)) = ?t + a" using t(1,2) a(1) by simp_all
    moreover have "32 - (?t + a) < 32" using t(1) by simp
    ultimately show ?thesis unfolding top_shift_def i_def [symmetric] by (simp only: power_add simp_thms)
  qed
  define a :: nat where "a = (if x < push_bit 16 1 then (if x < push_bit 8 1 then 0 else 8) else (if x < push_bit 24 1 then 16 else 24))"
  have "a \<le> 24" "2 ^ a \<le> uint x \<or> a = 0" "uint x < 2 ^ (a + 8)"
    using u32_bounds(2) [of x] by (auto simp: a_def word_less_def)
  from tab [OF this] have "top_shift x (32 - (clz_tab ! unat (drop_bit a x) + a))" .
  moreover have "clz_s390 x = Some (32 - (clz_tab ! unat (drop_bit a x) + a))" unfolding clz_s390_def a_def Let_def ..
  ultimately show ?thesis by blast
qed

section \<open>Two-word products and differences\<close>

text \<open>A pair of words as a number.\<close>

definition val2 :: "u32 \<times> u32 \<Rightarrow> int" where
  "val2 p = uint (fst p) * 2 ^ 32 + uint (snd p)"

lemma val2_umul: "val2 (umul_ppmm u v) = uint u * uint v"
proof -
  have "uint u * uint v \<le> (2 ^ 32 - 1) * (2 ^ 32 - 1)" using u32_bounds [of u] u32_bounds [of v] by (intro mult_mono) simp_all
  then have "uint (ucast u * ucast v :: u64) = uint u * uint v"
    using u32_bounds(1) [of u] u32_bounds(1) [of v] by (simp add: uint_word_ariths uint_up_ucast is_up)
  then show ?thesis unfolding val2_def umul_ppmm_def fst_conv snd_conv join_hi_lo .
qed

lemma val2_inj: "val2 p = val2 q \<Longrightarrow> p = q"
proof -
  assume e: "val2 p = val2 q"
  have "uint (fst p) = val2 p div 2 ^ 32" "uint (snd p) = val2 p mod 2 ^ 32" for p
    using u32_bounds [of "fst p"] u32_bounds [of "snd p"] by (simp_all add: val2_def)
  then show "p = q" using e by (metis prod.collapse word_uint_eq_iff)
qed

lemma sub_s390_eq: "sub_ddmmss_s390 ah al bh bl = sub_ddmmss ah al bh bl"
  by (simp add: sub_ddmmss_s390_def sub_ddmmss_def)

lemma val2_sub: "val2 (sub_ddmmss ah al bh bl) = (val2 (ah, al) - val2 (bh, bl)) mod 2 ^ 64"
proof -
  define c where "c = (if al < bl then 1 else 0 :: int)"
  define x y where "x = uint ah - uint bh - c" and "y = uint al - uint bl + c * 2 ^ 32"
  have y: "uint (al - bl) = y" by (simp add: uint_sub_if' y_def c_def word_less_def)
  then have y0: "0 \<le> y" "y < 2 ^ 32" using u32_bounds [of "al - bl"] by simp_all
  have x: "uint (ah - bh - (if al < bl then 1 else 0)) = x mod 2 ^ 32" by (simp add: uint_word_ariths mod_simps x_def c_def)
  have "val2 (ah, al) - val2 (bh, bl) = 2 ^ 32 * x + y" by (simp add: val2_def x_def y_def algebra_simps)
  moreover have "(2 ^ 32 * x + y) mod (2 ^ 32 * 2 ^ 32) = 2 ^ 32 * (x mod 2 ^ 32) + y"
    using y0 by (subst zmod_zmult2_eq) simp_all
  ultimately show ?thesis by (simp add: val2_def sub_ddmmss_def x y)
qed

text \<open>The corrected signed product is the unsigned one.\<close>

lemma halves_add_high: "hi32 (p + 0x100000000 * ucast x) = hi32 p + x" "lo32 (p + 0x100000000 * ucast x) = lo32 p"
proof -
  have e: "uint (p + 0x100000000 * ucast (x :: u32)) = (uint p + 2 ^ 32 * uint x) mod (2 ^ 32 * 2 ^ 32)"
    by (simp add: uint_word_ariths uint_up_ucast is_up mod_simps)
  have s: "(uint p + 2 ^ 32 * uint x) mod (2 ^ 32 * 2 ^ 32) = 2 ^ 32 * ((uint p div 2 ^ 32 + uint x) mod 2 ^ 32) + uint p mod 2 ^ 32"
    by (subst zmod_zmult2_eq) (simp_all add: add.commute)
  define y where "y = (uint p div 2 ^ 32 + uint x) mod 2 ^ 32"
  have "(2 ^ 32 * y + uint p mod 2 ^ 32) div 2 ^ 32 = y" by simp
  moreover have "uint (hi32 p + x) = y" unfolding uint_word_ariths(1) uint_hi32 y_def by simp
  ultimately have "uint (hi32 (p + 0x100000000 * ucast x)) = uint (hi32 p + x)"
    unfolding uint_hi32 [of "p + 0x100000000 * ucast x"] e s y_def [symmetric] by simp
  then show "hi32 (p + 0x100000000 * ucast x) = hi32 p + x" by (rule word_uint_eqI)
  have "uint (lo32 (p + 0x100000000 * ucast x)) = uint (lo32 p)" unfolding uint_lo32 e s by simp
  then show "lo32 (p + 0x100000000 * ucast x) = lo32 p" by (rule word_uint_eqI)
qed

lemma scast_up: "(scast (u :: u32) :: u64) = ucast u - (if u <s 0 then 0x100000000 else 0)"
proof -
  have "sint u = uint u - (if u <s 0 then 2 ^ 32 else 0)"
  proof -
    have s: "sint u = (uint u + 2 ^ 31) mod 2 ^ 32 - 2 ^ 31"
      by (simp add: sint_uint signed_take_bit_eq_take_bit_shift take_bit_eq_mod add.commute)
    show ?thesis
    proof (cases "uint u < 2 ^ 31")
      case True
      then have "sint u = uint u" unfolding s using u32_bounds(1) [of u] by (subst mod_pos_pos_trivial) simp_all
      then show ?thesis using u32_bounds(1) [of u] by (simp add: word_sless_alt)
    next
      case False
      have "(uint u + 2 ^ 31) mod 2 ^ 32 = (uint u - 2 ^ 31 + 2 ^ 32) mod 2 ^ 32" by (simp add: add.commute)
      also have "\<dots> = (uint u - 2 ^ 31) mod 2 ^ 32" by (rule mod_add_self2)
      also have "\<dots> = uint u - 2 ^ 31" using False u32_bounds(2) [of u] by (intro mod_pos_pos_trivial) simp_all
      finally have "sint u = uint u - 2 ^ 32" unfolding s by simp
      then show ?thesis using u32_bounds(2) [of u] by (simp add: word_sless_alt)
    qed
  qed
  then show ?thesis unfolding scast_eq ucast_eq by (cases "u <s 0") simp_all
qed

lemma umul_s390_eq: "umul_ppmm_s390 u v = umul_ppmm u v"
proof -
  let ?a = "ucast u :: u64" and ?b = "ucast v :: u64"
  define H :: u64 where "H = 0x100000000"
  have z: "H * H = 0" by (simp add: H_def)
  define p :: u64 where "p = scast u * scast v"
  define x :: u32 where "x = (if u <s 0 then v else 0)"
  define y :: u32 where "y = (if v <s 0 then u else 0)"
  have "p + H * ucast x + H * ucast y = ?a * ?b"
    by (simp add: p_def x_def y_def scast_up H_def [symmetric] algebra_simps z)
  then have "hi32 (?a * ?b) = hi32 p + x + y" "lo32 (?a * ?b) = lo32 p"
    using halves_add_high [of "p + H * ucast x" y] halves_add_high [of p x] by (simp_all add: H_def [symmetric])
  then show ?thesis by (simp add: umul_ppmm_s390_def umul_ppmm_def p_def [symmetric] x_def y_def Let_def)
qed

section \<open>Shifting numbers of several words\<close>

lemma uint_push: "b + c = 32 \<Longrightarrow> uint (push_bit b (x :: u32)) = uint x mod 2 ^ c * 2 ^ b"
proof -
  assume "b + c = 32"
  then have "32 - b = c" by simp
  then show ?thesis unfolding unsigned_push_bit_eq take_bit_push_bit by (simp add: take_bit_eq_mod push_bit_eq_mult)
qed

lemma uint_shift_in:
  assumes "b + c = 32"
  shows "uint (push_bit b h OR drop_bit c (l :: u32)) = uint h mod 2 ^ c * 2 ^ b + uint l div 2 ^ c"
proof -
  have "uint l < 2 ^ b * 2 ^ c" using u32_bounds(2) [of l] assms by (simp flip: power_add)
  then have "uint l div 2 ^ c < 2 ^ b" by (intro div_below) simp_all
  moreover have "0 \<le> uint l div 2 ^ c" by (simp add: pos_imp_zdiv_nonneg_iff)
  ultimately have "take_bit b (uint (drop_bit c l)) = uint (drop_bit c l)" by (simp add: uint_drop take_bit_int_eq_self_iff)
  moreover have "push_bit b k AND take_bit b j = 0" for k j :: int by (rule bit_eqI) (simp add: bit_simps)
  moreover have "uint (push_bit b h) = push_bit b (uint h mod 2 ^ c)" unfolding uint_push [OF assms] by (simp add: push_bit_eq_mult)
  ultimately have "uint (push_bit b h) AND uint (drop_bit c l) = 0" by metis
  from uint_or_disjoint [OF this] show ?thesis by (simp only: uint_push [OF assms] uint_drop)
qed

text \<open>Three words with the bits that two words are shifted by.\<close>

lemma shift_two_words:
  assumes "b + c = 32"
  shows "(uint (drop_bit c h) * 2 ^ 32 + uint (push_bit b h OR drop_bit c l)) * 2 ^ 32 + uint (push_bit b (l :: u32)) =
    (uint h * 2 ^ 32 + uint l) * 2 ^ b"
proof -
  have B: "(2 :: int) ^ 32 = 2 ^ b * 2 ^ c" using assms by (simp flip: power_add)
  have h: "uint h = uint h div 2 ^ c * 2 ^ c + uint h mod 2 ^ c" by (rule div_mult_mod_eq [symmetric])
  have l: "uint l = uint l div 2 ^ c * 2 ^ c + uint l mod 2 ^ c" by (rule div_mult_mod_eq [symmetric])
  define H1 H0 L1 L0 P Q where "H1 = uint h div 2 ^ c" and "H0 = uint h mod 2 ^ c" and "L1 = uint l div 2 ^ c" and "L0 = uint l mod 2 ^ c"
    and "P = (2 :: int) ^ b" and "Q = (2 :: int) ^ c"
  have "uint h = H1 * Q + H0" "uint l = L1 * Q + L0" unfolding H1_def H0_def L1_def L0_def Q_def by (rule h, rule l)
  then show ?thesis
    unfolding uint_drop uint_shift_in [OF assms] uint_push [OF assms] B H1_def [symmetric] H0_def [symmetric] L1_def [symmetric] L0_def [symmetric]
    unfolding P_def [symmetric] Q_def [symmetric] by (simp add: algebra_simps)
qed

lemma shift_small:
  assumes "b + c = 32" and "uint h < 2 ^ c"
  shows "uint (push_bit b h OR drop_bit c l) * 2 ^ 32 + uint (push_bit b (l :: u32)) = (uint h * 2 ^ 32 + uint l) * 2 ^ b"
proof -
  have "uint (drop_bit c h) = 0" unfolding uint_drop using assms(2) by simp
  then show ?thesis using shift_two_words [OF assms(1), of h l] by simp
qed

lemma two_digits_of_quotient:
  fixes d :: int
  assumes "q1 = x div d" and "r1 = x mod d" and "q0 = (r1 * 2 ^ 32 + n0) div d" and "r0 = (r1 * 2 ^ 32 + n0) mod d" and "0 < d"
  shows "q1 * 2 ^ 32 + q0 = (x * 2 ^ 32 + n0) div d" and "r0 = (x * 2 ^ 32 + n0) mod d"
proof -
  have x: "x = q1 * d + r1" unfolding assms(1,2) by simp
  have y: "r1 * 2 ^ 32 + n0 = q0 * d + r0" unfolding assms(3,4) by simp
  have "x * 2 ^ 32 + n0 = q1 * d * 2 ^ 32 + (r1 * 2 ^ 32 + n0)" unfolding x by (simp add: algebra_simps)
  also have "\<dots> = (q1 * 2 ^ 32 + q0) * d + r0" unfolding y by (simp add: algebra_simps)
  finally have eq: "x * 2 ^ 32 + n0 = (q1 * 2 ^ 32 + q0) * d + r0" .
  have "0 \<le> r0" "r0 < d" using assms(4,5) by simp_all
  from div_mod_unique [OF eq this] show "q1 * 2 ^ 32 + q0 = (x * 2 ^ 32 + n0) div d" "r0 = (x * 2 ^ 32 + n0) mod d" by simp_all
qed

section \<open>What a machine has to provide\<close>

text \<open>A division of two words by one gives the quotient and the remainder.\<close>

definition divides :: "(u32 \<times> u32) option \<Rightarrow> u32 \<Rightarrow> u32 \<Rightarrow> u32 \<Rightarrow> bool" where
  "divides res n1 n0 d \<longleftrightarrow> (\<exists>q r. res = Some (q, r) \<and> uint q = val2 (n1, n0) div uint d \<and> uint r = val2 (n1, n0) mod uint d)"

locale divider =
  fixes A :: div_arch
  assumes clz_law: "x \<noteq> 0 \<Longrightarrow> \<exists>c. clz A x = Some c \<and> top_shift x c"
    and qrnnd_law: "2 ^ 31 \<le> uint d \<Longrightarrow> uint n1 < uint d \<Longrightarrow> divides (qrnnd A n1 n0 d) n1 n0 d"
    and umul_law: "val2 (umul A u v) = uint u * uint v"
    and sub_law: "val2 (sub2 A ah al bh bl) = (val2 (ah, al) - val2 (bh, bl)) mod 2 ^ 64"

locale any_divider = divider +
  assumes any_law: "uint n1 < uint d \<Longrightarrow> divides (qrnnd A n1 n0 d) n1 n0 d"

text \<open>The result of dividing by one word: nothing on zero, otherwise quotient and remainder.\<close>

definition one_word_result :: "(u32 \<times> u32 \<times> u32) option \<Rightarrow> int \<Rightarrow> int \<Rightarrow> bool" where
  "one_word_result res n d \<longleftrightarrow> (if d = 0 then res = None
     else \<exists>q1 q0 r. res = Some (q1, q0, r) \<and> val2 (q1, q0) = n div d \<and> uint r = n mod d)"

context any_divider
begin

lemma by_one_word_correct: "one_word_result (by_one_word A n1 n0 d) (val2 (n1, n0)) (uint d)"
proof (cases "uint n1 < uint d")
  case True
  then obtain q r where q: "qrnnd A n1 n0 d = Some (q, r)" "uint q = val2 (n1, n0) div uint d" "uint r = val2 (n1, n0) mod uint d"
    using any_law unfolding divides_def by blast
  have "uint d \<noteq> 0" using True u32_bounds(1) [of n1] by linarith
  moreover have "by_one_word A n1 n0 d = Some (0, q, r)" using True q(1) by (simp add: by_one_word_def word_less_def)
  ultimately show ?thesis using q(2,3) by (simp add: one_word_result_def val2_def)
next
  case False
  show ?thesis
  proof (cases "d = 0")
    case True
    then show ?thesis by (simp add: one_word_result_def by_one_word_def)
  next
    case d: False
    then have D: "0 < uint d" using u32_bounds(1) [of d] by (simp add: word_uint_eq_iff order_less_le)
    then obtain q1 r1 where q1: "qrnnd A 0 n1 d = Some (q1, r1)" "uint q1 = uint n1 div uint d" "uint r1 = uint n1 mod uint d"
      using any_law [of 0 d n1] unfolding divides_def val2_def by auto
    have "uint r1 < uint d" using q1(3) D by simp
    then obtain q0 r0 where q0: "qrnnd A r1 n0 d = Some (q0, r0)" "uint q0 = (uint r1 * 2 ^ 32 + uint n0) div uint d"
        "uint r0 = (uint r1 * 2 ^ 32 + uint n0) mod uint d"
      using any_law [of r1 d n0] unfolding divides_def val2_def by auto
    have "by_one_word A n1 n0 d = Some (q1, q0, r0)" using False d q1(1) q0(1) by (simp add: by_one_word_def word_less_def)
    then show ?thesis
      using two_digits_of_quotient [OF q1(2,3) q0(2,3) D] D by (simp add: one_word_result_def val2_def)
  qed
qed

end

context divider
begin

lemma normalized:
  assumes "top_shift x c"
  shows "uint (push_bit c x) = uint x * 2 ^ c" and "2 ^ 31 \<le> uint (push_bit c x)"
proof -
  have c: "c + (32 - c) = 32" "c < 32" "2 ^ (31 - c) \<le> uint x" "uint x < 2 ^ (32 - c)" using assms by (simp_all add: top_shift_def)
  show u: "uint (push_bit c x) = uint x * 2 ^ c" unfolding uint_push [OF c(1)] using c(4) by simp
  have "2 ^ (31 - c) * 2 ^ c \<le> uint x * 2 ^ c" using c(3) by (rule mult_right_mono) simp
  moreover have "(2 :: int) ^ (31 - c) * 2 ^ c = 2 ^ 31" using c(2) by (simp flip: power_add)
  ultimately show "2 ^ 31 \<le> uint (push_bit c x)" unfolding u by simp
qed

lemma by_one_word_norm_correct: "one_word_result (by_one_word_norm A n1 n0 d) (val2 (n1, n0)) (uint d)"
proof (cases "d = 0")
  case True
  then show ?thesis by (simp add: one_word_result_def by_one_word_norm_def)
next
  case False
  let ?N = "val2 (n1, n0)" and ?D = "uint d"
  have D: "0 < ?D" using False u32_bounds(1) [of d] by (simp add: word_uint_eq_iff order_less_le)
  obtain c where c: "clz A d = Some c" "top_shift d c" using clz_law [OF False] by blast
  define e where "e = 32 - c"
  have ce: "c + e = 32" "c < 32" "?D < 2 ^ e" using c(2) by (simp_all add: top_shift_def e_def)
  let ?d = "push_bit c d" and ?h = "push_bit c n1 OR drop_bit e n0" and ?l = "push_bit c n0" and ?t = "drop_bit e n1"
  note d = normalized [OF c(2)]
  have scaled: "(k * 2 ^ c) div uint ?d = k div ?D" "(k * 2 ^ c) mod uint ?d = k mod ?D * 2 ^ c" for k
    unfolding d(1) by (simp_all add: mod_mult_mult2)
  have rem: "uint (drop_bit c r) = ?N mod ?D" if "uint r = ?N mod ?D * 2 ^ c" for r :: u32
    unfolding uint_drop that by simp
  show ?thesis
  proof (cases "uint n1 < ?D")
    case True
    show ?thesis
    proof (cases "c = 0")
      case True0: True
      then have "2 ^ 31 \<le> ?D" using d by simp
      then obtain q r where q: "qrnnd A n1 n0 d = Some (q, r)" "uint q = ?N div ?D" "uint r = ?N mod ?D"
        using qrnnd_law [OF _ True] unfolding divides_def by blast
      have "by_one_word_norm A n1 n0 d = Some (0, q, r)" using True True0 q(1) c(1) by (simp add: by_one_word_norm_def word_less_def)
      then show ?thesis using q(2,3) D by (simp add: one_word_result_def val2_def)
    next
      case False
      have small: "uint n1 < 2 ^ e" using True ce(3) by simp
      have sh: "val2 (?h, ?l) = ?N * 2 ^ c" unfolding val2_def fst_conv snd_conv by (rule shift_small [OF ce(1) small])
      have "uint n1 * 2 ^ 32 + uint n0 < ?D * 2 ^ 32"
      proof -
        have "(uint n1 + 1) * 2 ^ 32 \<le> ?D * 2 ^ 32" using True by (intro mult_right_mono) simp_all
        then show ?thesis using u32_bounds(2) [of n0] by (simp add: algebra_simps)
      qed
      then have "?N * 2 ^ c < ?D * 2 ^ 32 * 2 ^ c" by (simp add: val2_def)
      then have "uint ?h * 2 ^ 32 + uint ?l < uint ?d * 2 ^ 32" using sh unfolding d(1) val2_def by (simp add: algebra_simps)
      then have "uint ?h * 2 ^ 32 < uint ?d * 2 ^ 32" using u32_bounds(1) [of ?l] by linarith
      then have "uint ?h < uint ?d" by simp
      then obtain q r where q: "qrnnd A ?h ?l ?d = Some (q, r)" "uint q = ?N div ?D" "uint r = ?N mod ?D * 2 ^ c"
        using qrnnd_law [OF d(2)] sh scaled [of ?N] unfolding divides_def by metis
      have "by_one_word_norm A n1 n0 d = Some (0, q, drop_bit c r)"
        using True False q(1) c(1) by (simp add: by_one_word_norm_def word_less_def e_def [symmetric])
      then show ?thesis using q(2) rem [OF q(3)] D by (simp add: one_word_result_def val2_def)
    qed
  next
    case ge: False
    then have branch: "\<not> n1 < d" by (simp add: word_less_def)
    show ?thesis
    proof (cases "c = 0")
      case True
      then have norm: "2 ^ 31 \<le> ?D" using d by simp
      have sub: "uint (n1 - d) = uint n1 - ?D" using ge by (simp add: uint_sub_if')
      have "uint n1 - ?D < ?D" using norm u32_bounds(2) [of n1] by simp
      then obtain q r where q: "qrnnd A (n1 - d) n0 d = Some (q, r)" "uint q = val2 (n1 - d, n0) div ?D" "uint r = val2 (n1 - d, n0) mod ?D"
        using qrnnd_law [OF norm, of "n1 - d" n0] sub unfolding divides_def by auto
      have v: "?N = 2 ^ 32 * ?D + val2 (n1 - d, n0)" unfolding val2_def by (simp add: sub algebra_simps)
      have "val2 (1, q) = ?N div ?D" "uint r = ?N mod ?D" unfolding v using D by (simp_all add: val2_def q(2,3))
      moreover have "by_one_word_norm A n1 n0 d = Some (1, q, r)" using branch False True q(1) c(1) by (simp add: by_one_word_norm_def)
      ultimately show ?thesis using D by (simp add: one_word_result_def)
    next
      case pos: False
      have "uint n1 < 2 ^ 31 * 2 ^ e"
      proof -
        have "(2 :: int) ^ 32 \<le> 2 ^ 31 * 2 ^ e" using ce(1,2) by (cases e) simp_all
        then show ?thesis using u32_bounds(2) [of n1] by linarith
      qed
      then have "uint ?t < 2 ^ 31" unfolding uint_drop by (intro div_below) simp_all
      then have "uint ?t < uint ?d" using d(2) by linarith
      then obtain q1 r1 where q1: "qrnnd A ?t ?h ?d = Some (q1, r1)" "uint q1 = (uint ?t * 2 ^ 32 + uint ?h) div uint ?d"
          "uint r1 = (uint ?t * 2 ^ 32 + uint ?h) mod uint ?d"
        using qrnnd_law [OF d(2)] unfolding divides_def val2_def by fastforce
      have dpos: "0 < uint ?d" using d(2) by (rule order_less_le_trans [rotated]) simp
      then have "uint r1 < uint ?d" using q1(3) by simp
      then obtain q0 r0 where q0: "qrnnd A r1 ?l ?d = Some (q0, r0)" "uint q0 = (uint r1 * 2 ^ 32 + uint ?l) div uint ?d"
          "uint r0 = (uint r1 * 2 ^ 32 + uint ?l) mod uint ?d"
        using qrnnd_law [OF d(2)] unfolding divides_def val2_def by fastforce
      have sh: "(uint ?t * 2 ^ 32 + uint ?h) * 2 ^ 32 + uint ?l = ?N * 2 ^ c"
        unfolding val2_def fst_conv snd_conv by (rule shift_two_words [OF ce(1)])
      have "val2 (q1, q0) = ?N div ?D" "uint r0 = ?N mod ?D * 2 ^ c"
        using two_digits_of_quotient [OF q1(2,3) q0(2,3) dpos] unfolding sh scaled val2_def by simp_all
      moreover have "by_one_word_norm A n1 n0 d = Some (q1, q0, drop_bit c r0)"
        using branch False pos q1(1) q0(1) c(1) by (simp add: by_one_word_norm_def Let_def e_def [symmetric])
      ultimately show ?thesis using rem D by (simp add: one_word_result_def)
    qed
  qed
qed

end

text \<open>Shifting two words to the right.\<close>

lemma shift_right_two:
  assumes "b + c = 32"
  shows "val2 (drop_bit c h, push_bit b h OR drop_bit c l) = val2 (h, l) div 2 ^ c"
proof -
  define H1 H0 L1 L0 P Q where "H1 = uint h div 2 ^ c" and "H0 = uint h mod 2 ^ c" and "L1 = uint l div 2 ^ c" and "L0 = uint l mod 2 ^ c"
    and "P = (2 :: int) ^ b" and "Q = (2 :: int) ^ c"
  have h: "uint h = H1 * Q + H0" "uint l = L1 * Q + L0"
    unfolding H1_def H0_def L1_def L0_def Q_def by (rule div_mult_mod_eq [symmetric])+
  have B: "(2 :: int) ^ 32 = P * Q" using assms by (simp add: P_def Q_def flip: power_add)
  have Q: "0 < Q" "0 \<le> L0" "L0 < Q" by (simp_all add: Q_def L0_def)
  have "val2 (h, l) = (H1 * (P * Q) + H0 * P + L1) * Q + L0" unfolding val2_def fst_conv snd_conv B h by (simp add: algebra_simps)
  from div_mod_unique [OF this Q(2,3)] have "H1 * (P * Q) + H0 * P + L1 = val2 (h, l) div Q" by simp
  moreover have "val2 (drop_bit c h, push_bit b h OR drop_bit c l) = H1 * (P * Q) + H0 * P + L1"
    unfolding val2_def fst_conv snd_conv uint_drop uint_shift_in [OF assms] B
    unfolding H1_def H0_def L1_def P_def by simp
  ultimately show ?thesis unfolding Q_def by simp
qed

lemma val2_bounds: "0 \<le> val2 p" "val2 p < 2 ^ 64"
proof -
  have "uint (fst p) * 2 ^ 32 \<le> (2 ^ 32 - 1) * 2 ^ 32" using u32_bounds(2) [of "fst p"] by (intro mult_right_mono) simp_all
  then show "val2 p < 2 ^ 64" using u32_bounds(2) [of "snd p"] by (simp add: val2_def)
qed (simp add: val2_def)

lemma val2_less: "val2 (a, b) < val2 (c, d) \<longleftrightarrow> a < c \<or> c = a \<and> b < d"
proof -
  have v: "val2 (x, y) = uint x * 4294967296 + uint y" for x y by (simp add: val2_def)
  have bd: "0 \<le> uint b" "uint b < 4294967296" "0 \<le> uint d" "uint d < 4294967296" using u32_bounds [of b] u32_bounds [of d] by simp_all
  consider "uint a < uint c" | "uint c < uint a" | "uint a = uint c" by linarith
  then show ?thesis
    unfolding word_less_def word_uint_eq_iff [of c] v using bd by cases linarith+
qed

text \<open>The estimate by the upper word of the divisor is too large by at most one.\<close>

lemma estimate_product:
  assumes c: "c + e = 32" "c < 32" and norm: "2 ^ 31 \<le> uint d1" and x: "X < 2 ^ (32 + c)" and q: "q = X div uint d1"
    and d0: "uint d0 = k mod 2 ^ e * 2 ^ c" and q0: "0 \<le> q"
  shows "q * uint d0 \<le> val2 (d1, d0)"
proof -
  have "X < 2 ^ (c + 1) * uint d1"
  proof -
    have "(2 :: int) ^ (32 + c) = 2 ^ (c + 1) * 2 ^ 31" by (simp add: power_add)
    also have "\<dots> \<le> 2 ^ (c + 1) * uint d1" using norm by (intro mult_left_mono) simp_all
    finally show ?thesis using x by linarith
  qed
  moreover have dpos: "0 < uint d1" using norm by (rule order_less_le_trans [rotated]) simp
  ultimately have ql: "q < 2 ^ (c + 1)" unfolding q by (intro div_below)
  have "q * uint d0 \<le> 2 ^ 63"
  proof (cases "c = 31")
    case True
    then have "e = 1" using c by simp
    have "k mod 2 ^ e \<le> 1" using pos_mod_bound [of 2 k] by (simp add: \<open>e = 1\<close>)
    then have "uint d0 \<le> 1 * 2 ^ c" unfolding d0 by (intro mult_right_mono) simp_all
    then have "q * uint d0 \<le> 2 ^ 32 * 2 ^ 31" using ql q0 unfolding True by (intro mult_mono) simp_all
    then show ?thesis by simp
  next
    case False
    then have "(2 :: int) ^ (c + 1) \<le> 2 ^ 31" using c by (intro power_increasing) simp_all
    then have "q * uint d0 \<le> 2 ^ 31 * 2 ^ 32" using ql q0 u32_bounds [of d0] by (intro mult_mono) simp_all
    then show ?thesis by simp
  qed
  moreover have "2 ^ 63 \<le> uint d1 * 2 ^ 32" using mult_right_mono [OF norm, of "2 ^ 32"] by simp
  ultimately show ?thesis using u32_bounds(1) [of d0] unfolding val2_def fst_conv snd_conv by linarith
qed

context divider
begin

text \<open>A divisor of two words whose upper one is already at the top.\<close>

lemma top_divisor:
  assumes norm: "2 ^ 31 \<le> uint d1" and ge: "d1 \<le> n1"
  shows "\<exists>q r. (if d1 < n1 \<or> d0 \<le> n0 then Some (1, sub2 A n1 n0 d1 d0) else Some (0, n1, n0)) = Some (q, r) \<and>
     uint q = val2 (n1, n0) div val2 (d1, d0) \<and> val2 r = val2 (n1, n0) mod val2 (d1, d0)"
proof -
  let ?n = "val2 (n1, n0)" and ?d = "val2 (d1, d0)"
  have le: "?d \<le> ?n \<longleftrightarrow> d1 < n1 \<or> d0 \<le> n0" using ge val2_less [of n1 n0 d1 d0] by (auto simp: not_less [symmetric])
  have "2 ^ 63 \<le> uint d1 * 2 ^ 32" using mult_right_mono [OF norm, of "2 ^ 32"] by simp
  then have d: "2 ^ 63 \<le> ?d" using u32_bounds(1) [of d0] unfolding val2_def fst_conv snd_conv by linarith
  note n = val2_bounds [of "(n1, n0)"]
  show ?thesis
  proof (cases "?d \<le> ?n")
    case True
    have "?n = 1 * ?d + (?n - ?d)" by simp
    moreover have "0 \<le> ?n - ?d" "?n - ?d < ?d" using True d n by simp_all
    ultimately have "1 = ?n div ?d" "?n - ?d = ?n mod ?d" using div_mod_unique by metis+
    moreover have "val2 (sub2 A n1 n0 d1 d0) = ?n - ?d" unfolding sub_law using True d n by simp
    ultimately show ?thesis using True le by simp
  next
    case False
    then show ?thesis using le n by simp
  qed
qed

text \<open>The step for any other divisor, with all numbers shifted.\<close>

lemma shifted_divisor:
  assumes c: "clz A d1 = Some c" "top_shift d1 c" "c \<noteq> 0" and e: "e = 32 - c"
    and D: "D1 = push_bit c d1 OR drop_bit e d0" "D0 = push_bit c d0"
    and N: "N2 = drop_bit e n1" "N1 = push_bit c n1 OR drop_bit e n0" "N0 = push_bit c n0"
  shows "\<exists>qq rr. qrnnd A N2 N1 D1 = Some (qq, rr) \<and>
     (let m = val2 (umul A qq D0); q = (if val2 (rr, N0) < m then qq - 1 else qq); m = (if val2 (rr, N0) < m then m - val2 (D1, D0) else m) in
      uint q = val2 (n1, n0) div val2 (d1, d0) \<and> 0 \<le> val2 (rr, N0) - m \<and>
      val2 (rr, N0) - m = val2 (n1, n0) mod val2 (d1, d0) * 2 ^ c)"
proof -
  let ?n = "val2 (n1, n0)" and ?d = "val2 (d1, d0)" and ?D = "val2 (D1, D0)"
  have ce: "c + e = 32" "c < 32" "uint d1 < 2 ^ e" "2 ^ (31 - c) \<le> uint d1" using c(2) by (simp_all add: top_shift_def e)
  have D': "?D = ?d * 2 ^ c" unfolding D val2_def fst_conv snd_conv by (rule shift_small [OF ce(1,3)])
  have N': "(uint N2 * 2 ^ 32 + uint N1) * 2 ^ 32 + uint N0 = ?n * 2 ^ c"
    unfolding N val2_def fst_conv snd_conv by (rule shift_two_words [OF ce(1)])
  have "uint D1 = uint d1 * 2 ^ c + uint d0 div 2 ^ e" unfolding D(1) uint_shift_in [OF ce(1)] using ce(3) by simp
  moreover have "0 \<le> uint d0 div 2 ^ e" by (simp add: pos_imp_zdiv_nonneg_iff)
  moreover have "2 ^ 31 \<le> uint d1 * 2 ^ c"
  proof -
    have "(2 :: int) ^ 31 = 2 ^ (31 - c) * 2 ^ c" using ce(2) by (simp flip: power_add)
    also have "\<dots> \<le> uint d1 * 2 ^ c" using ce(4) by (intro mult_right_mono) simp_all
    finally show ?thesis .
  qed
  ultimately have norm: "2 ^ 31 \<le> uint D1" by linarith
  have "uint N2 < uint D1"
  proof -
    have "(2 :: int) ^ 32 \<le> 2 ^ 31 * 2 ^ e" using ce(1,2) by (cases e) simp_all
    then have "uint N2 < 2 ^ 31" unfolding N(1) uint_drop using u32_bounds(2) [of n1] by (intro div_below) simp_all
    then show ?thesis using norm by linarith
  qed
  then obtain qq rr where q: "qrnnd A N2 N1 D1 = Some (qq, rr)" "uint qq = (uint N2 * 2 ^ 32 + uint N1) div uint D1"
      "uint rr = (uint N2 * 2 ^ 32 + uint N1) mod uint D1"
    using qrnnd_law [OF norm, of N2 N1] unfolding divides_def val2_def by auto
  define X R M where "X = uint N2 * 2 ^ 32 + uint N1" and "R = val2 (rr, N0)" and "M = val2 (umul A qq D0)"
  have M: "M = uint qq * uint D0" by (simp add: M_def umul_law)
  have X: "X = uint qq * uint D1 + uint rr" unfolding X_def q(2,3) by simp
  have D1: "0 < uint D1" using norm by (rule order_less_le_trans [rotated]) simp
  then have rr: "uint rr < uint D1" using q(3) by simp
  have "?n * 2 ^ c = X * 2 ^ 32 + uint N0" using N' by (simp add: X_def)
  also have "\<dots> = uint qq * ?D + (R - M)" unfolding X M R_def val2_def fst_conv snd_conv by (simp add: algebra_simps)
  finally have eq: "?n * 2 ^ c = uint qq * ?D + (R - M)" .
  have "X * 2 ^ 32 < 2 ^ 64 * 2 ^ c"
  proof -
    have "?n * 2 ^ c < 2 ^ 64 * 2 ^ c" using val2_bounds(2) [of "(n1, n0)"] by (intro mult_strict_right_mono) simp_all
    then show ?thesis using N' u32_bounds(1) [of N0] unfolding X_def by linarith
  qed
  then have Xb: "X < 2 ^ (32 + c)" by (simp add: power_add)
  have md: "M \<le> ?D" unfolding M
    by (rule estimate_product [OF ce(1,2) norm Xb]) (simp_all add: q(2) X_def D(2) uint_push [OF ce(1)] pos_imp_zdiv_nonneg_iff [OF D1])
  have R: "0 \<le> R" "R < ?D"
  proof -
    show "0 \<le> R" unfolding R_def by (rule val2_bounds)
    show "R < ?D" using rr unfolding R_def val2_less word_less_def by simp
  qed
  have "0 < ?d * 2 ^ c" using R D' by linarith
  then have dpos: "0 < ?d" by (simp add: zero_less_mult_iff)
  define k where "k = (if R < M then 1 else 0 :: int)"
  have eq2: "?n * 2 ^ c = (uint qq - k) * ?D + (R - M + k * ?D)" unfolding eq by (simp add: algebra_simps)
  have "0 \<le> M" using u32_bounds(1) [of qq] u32_bounds(1) [of D0] by (simp add: M)
  then have fin: "0 \<le> R - M + k * ?D" "R - M + k * ?D < ?D" using md R by (simp_all add: k_def)
  have "uint qq - k = ?n div ?d" "R - M + k * ?D = ?n mod ?d * 2 ^ c"
    using div_mod_unique [OF eq2 fin] unfolding D' by (simp_all add: mod_mult_mult2)
  moreover have "uint (if R < M then qq - 1 else qq) = uint qq - k"
  proof (cases "R < M")
    case True
    then have "0 < M" using R(1) by linarith
    then have "uint qq \<noteq> 0" unfolding M by auto
    then have "1 \<le> uint qq" using u32_bounds(1) [of qq] by linarith
    then show ?thesis using True by (simp add: k_def uint_sub_if')
  qed (simp add: k_def)
  moreover have "R - (if R < M then M - ?D else M) = R - M + k * ?D" by (simp add: k_def)
  ultimately have "let m = val2 (umul A qq D0); q = (if val2 (rr, N0) < m then qq - 1 else qq); m = (if val2 (rr, N0) < m then m - val2 (D1, D0) else m) in
      uint q = ?n div ?d \<and> 0 \<le> val2 (rr, N0) - m \<and> val2 (rr, N0) - m = ?n mod ?d * 2 ^ c"
    using fin(1) unfolding Let_def M_def [symmetric] R_def [symmetric] by (intro conjI) simp_all
  with q(1) show ?thesis by blast
qed

end

context divider
begin

lemma by_two_words_correct:
  assumes "d1 \<noteq> 0"
  shows "\<exists>q r1 r0. by_two_words A n1 n0 d1 d0 = Some (q, r1, r0) \<and>
     uint q = val2 (n1, n0) div val2 (d1, d0) \<and> val2 (r1, r0) = val2 (n1, n0) mod val2 (d1, d0)"
proof (cases "n1 < d1")
  case True
  then have "val2 (n1, n0) < val2 (d1, d0)" by (simp add: val2_less)
  then show ?thesis using True val2_bounds(1) [of "(n1, n0)"] by (simp add: by_two_words_def)
next
  case False
  obtain c where c: "clz A d1 = Some c" "top_shift d1 c" using clz_law [OF assms] by blast
  show ?thesis
  proof (cases "c = 0")
    case True
    then have "2 ^ 31 \<le> uint d1" using c(2) by (simp add: top_shift_def)
    then obtain q r1 r0 :: u32 where "(if d1 < n1 \<or> d0 \<le> n0 then Some (1, sub2 A n1 n0 d1 d0) else Some (0, n1, n0)) = Some (q, r1, r0)"
        "uint q = val2 (n1, n0) div val2 (d1, d0)" "val2 (r1, r0) = val2 (n1, n0) mod val2 (d1, d0)"
      using top_divisor [of d1 n1 d0 n0] False unfolding not_less by (metis prod.collapse)
    note res = this
    have "by_two_words A n1 n0 d1 d0 = (if d1 < n1 \<or> d0 \<le> n0 then Some (1, sub2 A n1 n0 d1 d0) else Some (0, n1, n0))"
      using False c(1) True by (simp add: by_two_words_def)
    from trans [OF this res(1)] res(2,3) show ?thesis by blast
  next
    case pos: False
    let ?n = "val2 (n1, n0)" and ?d = "val2 (d1, d0)"
    define e D1 D0 N2 N1 N0 where "e = 32 - c" and "D1 = push_bit c d1 OR drop_bit e d0" and "D0 = push_bit c d0"
      and "N2 = drop_bit e n1" and "N1 = push_bit c n1 OR drop_bit e n0" and "N0 = push_bit c n0"
    obtain qq rr where q: "qrnnd A N2 N1 D1 = Some (qq, rr)" and
      res: "let m = val2 (umul A qq D0); q = (if val2 (rr, N0) < m then qq - 1 else qq); m = (if val2 (rr, N0) < m then m - val2 (D1, D0) else m) in
        uint q = ?n div ?d \<and> 0 \<le> val2 (rr, N0) - m \<and> val2 (rr, N0) - m = ?n mod ?d * 2 ^ c"
      using shifted_divisor [OF c pos e_def D1_def D0_def N2_def N1_def N0_def] by metis
    obtain m1 m0 where m: "umul A qq D0 = (m1, m0)" by fastforce
    define q' m' where "q' = (if val2 (rr, N0) < val2 (m1, m0) then qq - 1 else qq)"
      and "m' = (if val2 (rr, N0) < val2 (m1, m0) then sub2 A m1 m0 D1 D0 else (m1, m0))"
    obtain w1 w0 where w: "m' = (w1, w0)" by fastforce
    obtain s1 s0 where s: "sub2 A rr N0 w1 w0 = (s1, s0)" by fastforce
    have q': "uint q' = ?n div ?d" using res by (simp add: m q'_def Let_def split: if_splits)
    have run: "by_two_words A n1 n0 d1 d0 = Some (q', drop_bit c s1, push_bit e s1 OR drop_bit c s0)"
      using False pos c(1) q m s w
      by (cases "val2 (rr, N0) < val2 (m1, m0)") (simp_all add: by_two_words_def Let_def e_def [symmetric] D1_def [symmetric]
          D0_def [symmetric] N2_def [symmetric] N1_def [symmetric] N0_def [symmetric] q'_def m'_def flip: val2_less)
    define z where "z = (if val2 (rr, N0) < val2 (m1, m0) then val2 (m1, m0) - val2 (D1, D0) else val2 (m1, m0))"
    have z: "0 \<le> val2 (rr, N0) - z" "val2 (rr, N0) - z = ?n mod ?d * 2 ^ c" using res by (simp_all add: m z_def Let_def split: if_splits)
    have w': "val2 (w1, w0) = z mod 2 ^ 64"
    proof (cases "val2 (rr, N0) < val2 (m1, m0)")
      case True
      then have "val2 (w1, w0) = val2 (sub2 A m1 m0 D1 D0)" using w by (simp add: m'_def)
      then show ?thesis using True by (simp add: z_def sub_law)
    next
      case False
      then have "val2 (w1, w0) = val2 (m1, m0)" using w by (simp add: m'_def)
      then show ?thesis using False val2_bounds [of "(m1, m0)"] by (simp add: z_def)
    qed
    have "0 < d1" using assms by (simp add: word_gt_0)
    then have "0 < uint d1" by (simp add: word_less_def)
    then have dpos: "0 < ?d" unfolding val2_def fst_conv snd_conv by (intro add_pos_nonneg mult_pos_pos) simp_all
    have "val2 (rr, N0) - z < 2 ^ 64"
    proof -
      have ce: "c + e = 32" "uint d1 < 2 ^ e" using c(2) by (simp_all add: top_shift_def e_def)
      have "?n mod ?d < ?d" using dpos by simp
      then have "?n mod ?d * 2 ^ c < ?d * 2 ^ c" by simp
      also have "?d * 2 ^ c = val2 (D1, D0)"
        unfolding D1_def D0_def val2_def fst_conv snd_conv by (rule shift_small [OF ce, symmetric])
      also have "\<dots> < 2 ^ 64" by (rule val2_bounds)
      finally show ?thesis unfolding z(2) .
    qed
    then have "val2 (s1, s0) = ?n mod ?d * 2 ^ c"
      using z sub_law [of rr N0 w1 w0] unfolding s w' by (simp add: mod_diff_right_eq)
    then have "val2 (drop_bit c s1, push_bit e s1 OR drop_bit c s0) = ?n mod ?d"
      using shift_right_two [of e c s1 s0] c(2) by (simp add: top_shift_def e_def)
    with run q' show ?thesis by blast
  qed
qed

text \<open>The whole division, for a machine that needs the divisor at the top.\<close>

lemma join_val2: "uint (join32 a b) = val2 (a, b)"
  by (simp add: uint_join32 val2_def)

lemma halves_val2: "val2 (hi32 n, lo32 n) = uint n"
  unfolding val2_def fst_conv snd_conv by (rule join_hi_lo)

lemma udivmoddi4_one_word:
  assumes "hi32 d = 0" and "one_word_result res (val2 (hi32 n, lo32 n)) (uint (lo32 d))"
  shows "Option.bind res (\<lambda>(q1, q0, r). Some (join32 q1 q0, join32 0 r)) = (if d = 0 then None else Some (n div d, n mod d))"
proof -
  have d: "uint d = uint (lo32 d)" using halves_val2 [of d] assms(1) by (simp add: val2_def)
  show ?thesis
  proof (cases "d = 0")
    case True
    then show ?thesis using assms(2) d by (simp add: one_word_result_def)
  next
    case False
    then have "uint d \<noteq> 0" by (simp add: word_uint_eq_iff)
    then obtain q1 q0 r where "res = Some (q1, q0, r)" "val2 (q1, q0) = uint n div uint d" "uint r = uint n mod uint d"
      using assms(2) by (auto simp: one_word_result_def halves_val2 d)
    moreover from this have "join32 q1 q0 = n div d" "join32 0 r = n mod d"
      by (auto intro!: word_uint_eqI simp: join_val2 uint_div_distrib uint_mod_distrib) (simp add: val2_def)
    ultimately show ?thesis using False by simp
  qed
qed

lemma udivmoddi4_two_words:
  assumes "hi32 d \<noteq> 0"
  shows "Option.bind (by_two_words A (hi32 n) (lo32 n) (hi32 d) (lo32 d)) (\<lambda>(q0, r1, r0). Some (join32 0 q0, join32 r1 r0)) =
    Some (n div d, n mod d)"
proof -
  obtain q r1 r0 where q: "by_two_words A (hi32 n) (lo32 n) (hi32 d) (lo32 d) = Some (q, r1, r0)"
      "uint q = uint n div uint d" "val2 (r1, r0) = uint n mod uint d"
    using by_two_words_correct [OF assms, of "hi32 n" "lo32 n" "lo32 d"] unfolding halves_val2 by blast
  have "join32 0 q = n div d" by (rule word_uint_eqI) (simp add: join_val2 uint_div_distrib val2_def q(2))
  moreover have "join32 r1 r0 = n mod d" by (rule word_uint_eqI) (simp add: join_val2 uint_mod_distrib q(3))
  ultimately show ?thesis using q(1) by simp
qed

lemma udivmoddi4_norm:
  assumes "needs_normalization A"
  shows "udivmoddi4 A n d = (if d = 0 then None else Some (n div d, n mod d))"
proof (cases "hi32 d = 0")
  case True
  then show ?thesis using udivmoddi4_one_word [OF True by_one_word_norm_correct] assms by (simp add: udivmoddi4_def)
next
  case False
  then have "d \<noteq> 0" by (auto simp: hi32_def)
  then show ?thesis using False udivmoddi4_two_words [OF False] by (simp add: udivmoddi4_def)
qed

end

context any_divider
begin

lemma udivmoddi4_any:
  assumes "\<not> needs_normalization A"
  shows "udivmoddi4 A n d = (if d = 0 then None else Some (n div d, n mod d))"
proof (cases "hi32 d = 0")
  case True
  then show ?thesis using udivmoddi4_one_word [OF True by_one_word_correct] assms by (simp add: udivmoddi4_def)
next
  case False
  then have "d \<noteq> 0" by (auto simp: hi32_def)
  then show ?thesis using False udivmoddi4_two_words [OF False] by (simp add: udivmoddi4_def)
qed

end

section \<open>The three machines\<close>

interpretation m_i386: any_divider i386
proof
  show "\<exists>c. clz i386 x = Some c \<and> top_shift x c" if "x \<noteq> 0" for x using clz_i386_top [OF that] by (simp add: i386_def)
  have any: "divides (qrnnd i386 n1 n0 d) n1 n0 d" if "uint n1 < uint d" for n1 n0 d
    using qrnnd_i386_correct [OF that, of n0] unfolding divides_def val2_def fst_conv snd_conv i386_def div_arch.simps by metis
  show "divides (qrnnd i386 n1 n0 d) n1 n0 d" if "2 ^ 31 \<le> uint d" "uint n1 < uint d" for n1 n0 d using any that(2) .
  show "divides (qrnnd i386 n1 n0 d) n1 n0 d" if "uint n1 < uint d" for n1 n0 d using any that .
  show "val2 (umul i386 u v) = uint u * uint v" for u v by (simp add: i386_def val2_umul)
  show "val2 (sub2 i386 ah al bh bl) = (val2 (ah, al) - val2 (bh, bl)) mod 2 ^ 64" for ah al bh bl
    unfolding i386_def div_arch.simps by (rule val2_sub)
qed

lemma c_divides: "2 ^ 31 \<le> uint d \<Longrightarrow> uint n1 < uint d \<Longrightarrow> divides (udiv_qrnnd_c n1 n0 d) n1 n0 d"
  using qrnnd_c_correct [of d n1 n0] unfolding divides_def val2_def fst_conv snd_conv by metis

interpretation m_powerpc: divider powerpc
proof
  show "\<exists>c. clz powerpc x = Some c \<and> top_shift x c" if "x \<noteq> 0" for x using clz_powerpc_top [OF that] by (simp add: powerpc_def)
  show "divides (qrnnd powerpc n1 n0 d) n1 n0 d" if "2 ^ 31 \<le> uint d" "uint n1 < uint d" for n1 n0 d
    using c_divides [OF that] by (simp add: powerpc_def)
  show "val2 (umul powerpc u v) = uint u * uint v" for u v by (simp add: powerpc_def val2_umul)
  show "val2 (sub2 powerpc ah al bh bl) = (val2 (ah, al) - val2 (bh, bl)) mod 2 ^ 64" for ah al bh bl
    unfolding powerpc_def div_arch.simps by (rule val2_sub)
qed

interpretation m_s390: divider s390
proof
  show "\<exists>c. clz s390 x = Some c \<and> top_shift x c" if "x \<noteq> 0" for x using clz_s390_top [OF that] by (simp add: s390_def)
  show "divides (qrnnd s390 n1 n0 d) n1 n0 d" if "2 ^ 31 \<le> uint d" "uint n1 < uint d" for n1 n0 d
    using c_divides [OF that] by (simp add: s390_def)
  show "val2 (umul s390 u v) = uint u * uint v" for u v by (simp add: s390_def umul_s390_eq val2_umul)
  show "val2 (sub2 s390 ah al bh bl) = (val2 (ah, al) - val2 (bh, bl)) mod 2 ^ 64" for ah al bh bl
    unfolding s390_def div_arch.simps sub_s390_eq by (rule val2_sub)
qed

lemma udivmoddi4_all:
  assumes "A \<in> {i386, powerpc, s390}"
  shows "udivmoddi4 A n d = (if d = 0 then None else Some (n div d, n mod d))"
proof -
  have "\<not> needs_normalization i386" "needs_normalization powerpc" "needs_normalization s390"
    by (simp_all add: i386_def powerpc_def s390_def)
  then show ?thesis using assms m_i386.udivmoddi4_any m_powerpc.udivmoddi4_norm m_s390.udivmoddi4_norm by blast
qed

text \<open>
  C20. Division without sign. On all three machines \<open>__udivdi3\<close> and \<open>__umoddi3\<close> divide by zero
  exactly if the divisor is zero, and otherwise give the quotient and the remainder of the
  natural numbers.
\<close>

theorem unsigned_division:
  assumes "A \<in> {i386, powerpc, s390}"
  shows "udivdi3 A n d = (if d = 0 then None else Some (n div d)) \<and>
     umoddi3 A n d = (if d = 0 then None else Some (n mod d))"
  using assms by (simp add: udivdi3_def umoddi3_def udivmoddi4_all)

theorem unsigned_division_witness:
  "udivdi3 i386 (2 ^ 63 + 5) (2 ^ 33) = Some (2 ^ 30) \<and> umoddi3 i386 (2 ^ 63 + 5) (2 ^ 33) = Some 5 \<and>
   udivdi3 powerpc (2 ^ 40) 3 = Some 366503875925 \<and> umoddi3 s390 (2 ^ 40) 3 = Some 1 \<and> udivdi3 s390 1 0 = None"
  using unsigned_division [of i386 "2 ^ 63 + 5" "2 ^ 33"] unsigned_division [of powerpc "2 ^ 40" 3]
    unsigned_division [of s390 "2 ^ 40" 3] unsigned_division [of s390 1 0]
  by simp

section \<open>Division with sign\<close>

lemma mod_two_words:
  fixes a b :: int
  assumes "0 \<le> b" "b < 2 ^ 32"
  shows "(a * 2 ^ 32 + b) mod (2 ^ 32 * 2 ^ 32) = a mod 2 ^ 32 * 2 ^ 32 + b"
proof -
  have "(a * 2 ^ 32 + b) div 2 ^ 32 = a" "(a * 2 ^ 32 + b) mod 2 ^ 32 = b" using assms by simp_all
  then show ?thesis by (subst zmod_zmult2_eq) simp_all
qed

lemma negdi2_minus: "negdi2 u = - u"
proof (rule word_uint_eqI)
  define H L where "H = uint (hi32 u)" and "L = uint (lo32 u)"
  have u: "uint u = H * 2 ^ 32 + L" unfolding H_def L_def by (rule join_hi_lo [symmetric])
  have b: "0 \<le> H" "H < 2 ^ 32" "0 \<le> L" "L < 2 ^ 32" unfolding H_def L_def by (rule u32_bounds)+
  have low: "uint (- lo32 u) = (- L) mod 2 ^ 32" by (simp add: uint_word_ariths L_def)
  have pos: "0 < - lo32 u \<longleftrightarrow> L \<noteq> 0" by (simp add: L_def word_greater_zero_iff unsigned_eq_0_iff)
  have high: "uint (- hi32 u - (if 0 < - lo32 u then 1 else 0)) = (- H - (if L \<noteq> 0 then 1 else 0)) mod 2 ^ 32"
    unfolding pos by (simp add: uint_word_ariths H_def mod_simps)
  define c :: int where "c = (if L \<noteq> 0 then 1 else 0)"
  have "uint (negdi2 u) = (- H - c) mod 2 ^ 32 * 2 ^ 32 + (- L) mod 2 ^ 32"
    unfolding negdi2_def Let_def uint_join32 low high c_def ..
  also have "\<dots> = ((- H - c) * 2 ^ 32 + (- L) mod 2 ^ 32) mod (2 ^ 32 * 2 ^ 32)"
    by (rule mod_two_words [symmetric]) simp_all
  also have "(- H - c) * 2 ^ 32 + (- L) mod 2 ^ 32 = - (H * 2 ^ 32 + L)"
    using b by (simp add: c_def zmod_zminus1_eq_if)
  also have "(- (H * 2 ^ 32 + L)) mod (2 ^ 32 * 2 ^ 32) = uint (- u)"
    unfolding u [symmetric] by (simp add: uint_word_ariths)
  finally show "uint (negdi2 u) = uint (- u)" .
qed

lemma high_negative: "hi32 u <s 0 \<longleftrightarrow> sint u < 0"
proof -
  have "hi32 u <s 0 \<longleftrightarrow> sint (hi32 u) < 0" by (simp add: word_sless_alt)
  also have "\<dots> \<longleftrightarrow> bit (hi32 u) 31" using bit_last_iff [of "hi32 u"] by simp
  also have "\<dots> \<longleftrightarrow> bit u 63" by (simp add: hi32_def bit_simps)
  also have "\<dots> \<longleftrightarrow> sint u < 0" using bit_last_iff [of u] by simp
  finally show ?thesis .
qed

lemma absolute_value: "uint (if sint u < 0 then - u else u) = \<bar>sint u\<bar>" for u :: u64
proof -
  have b: "- (2 ^ 63) \<le> sint u" "sint u < 2 ^ 63" using sint_ge [of u] sint_less [of u] by simp_all
  have w: "word_of_int (sint u) = u" by simp
  have "uint (word_of_int \<bar>sint u\<bar> :: u64) = \<bar>sint u\<bar>"
    using b by (simp add: uint_word_of_int abs_if)
  moreover have "(if sint u < 0 then - u else u) = word_of_int \<bar>sint u\<bar>"
    by (simp add: abs_if)
  ultimately show ?thesis by simp
qed

lemma with_sign: "(if P then - w else w) = word_of_int ((if P then -1 else 1) * uint w)" for w :: u64
  by simp


lemma negdi2_twice_signed:
  "divdi3 A u v = Option.bind (udivmoddi4 A (if sint u < 0 then - u else u) (if sint v < 0 then - v else v))
     (\<lambda>(w, _). Some (if (sint u < 0) \<noteq> (sint v < 0) then - w else w))"
  by (simp add: divdi3_def high_negative negdi2_minus)

lemma moddi3_signed:
  "moddi3 A u v = Option.bind (udivmoddi4 A (if sint u < 0 then - u else u) (if sint v < 0 then - v else v))
     (\<lambda>(_, w). Some (if sint u < 0 then - w else w))"
  by (simp add: moddi3_def high_negative negdi2_minus)

lemma sdiv_of_absolutes:
  fixes a b :: int
  shows "a sdiv b = (if (a < 0) \<noteq> (b < 0) then - 1 else 1) * (\<bar>a\<bar> div \<bar>b\<bar>)"
    and "a smod b = (if a < 0 then - 1 else 1) * (\<bar>a\<bar> mod \<bar>b\<bar>)"
  by (auto simp: signed_divide_int_def signed_modulo_int_def sgn_if)

lemma divdi3_all:
  assumes "A \<in> {i386, powerpc, s390}"
  shows "divdi3 A u v = (if v = 0 then None else Some (word_of_int (sint u sdiv sint v)))"
proof -
  let ?abs = "\<lambda>w :: u64. if sint w < 0 then - w else w"
  have z: "?abs v = 0 \<longleftrightarrow> v = 0" by simp
  have "uint (?abs u div ?abs v) = \<bar>sint u\<bar> div \<bar>sint v\<bar>" unfolding uint_div_distrib absolute_value ..
  then have "(if (sint u < 0) \<noteq> (sint v < 0) then - (?abs u div ?abs v) else ?abs u div ?abs v) = word_of_int (sint u sdiv sint v)"
    unfolding with_sign sdiv_of_absolutes(1) by simp
  then show ?thesis unfolding negdi2_twice_signed udivmoddi4_all [OF assms] z by simp
qed

lemma moddi3_all:
  assumes "A \<in> {i386, powerpc, s390}"
  shows "moddi3 A u v = (if v = 0 then None else Some (word_of_int (sint u smod sint v)))"
proof -
  let ?abs = "\<lambda>w :: u64. if sint w < 0 then - w else w"
  have z: "?abs v = 0 \<longleftrightarrow> v = 0" by simp
  have "uint (?abs u mod ?abs v) = \<bar>sint u\<bar> mod \<bar>sint v\<bar>" unfolding uint_mod_distrib absolute_value ..
  then have "(if sint u < 0 then - (?abs u mod ?abs v) else ?abs u mod ?abs v) = word_of_int (sint u smod sint v)"
    unfolding with_sign sdiv_of_absolutes(2) by simp
  then show ?thesis unfolding moddi3_signed udivmoddi4_all [OF assms] z by simp
qed

text \<open>
  C21. Division with sign. On all three machines \<open>__divdi3\<close> and \<open>__moddi3\<close> divide by zero exactly
  if the divisor is zero, and otherwise give the quotient rounded towards zero and the remainder
  with the sign of the dividend, modulo \<open>2 ^ 64\<close>: the most negative number divided by -1 is
  itself.
\<close>

theorem signed_division:
  assumes "A \<in> {i386, powerpc, s390}"
  shows "divdi3 A u v = (if v = 0 then None else Some (word_of_int (sint u sdiv sint v))) \<and>
     moddi3 A u v = (if v = 0 then None else Some (word_of_int (sint u smod sint v)))"
  using divdi3_all [OF assms] moddi3_all [OF assms] by (rule conjI)

theorem signed_division_witness:
  "divdi3 s390 (- 7) 2 = Some (- 3) \<and> moddi3 powerpc (- 7) 2 = Some (- 1) \<and>
   divdi3 i386 (- (2 ^ 63)) (- 1) = Some (- (2 ^ 63)) \<and> divdi3 i386 5 0 = None"
  using signed_division [of s390 "- 7" 2] signed_division [of powerpc "- 7" 2]
    signed_division [of i386 "- (2 ^ 63)" "- 1"] signed_division [of i386 5 0]
  by simp

end
