(* ===== verification/ToolArgs.thy ===== *)
theory ToolArgs
  imports Prelude
begin

text \<open>
  The command line of the tool nactool (\<open>parse_cmdline\<close> of src/nactool/nactool.c, and the tables
  of nactool.h), with its grammar. The file is built with or without \<open>COPPER\<close>, which adds two
  options and is a parameter here. What is commented out in the source is left out.
\<close>

section \<open>The command line\<close>

datatype tool_mode = MODE_HELP | MODE_GSET | MODE_SSET | MODE_GDRV | MODE_GREGS | MODE_NWAY_RST
  | MODE_GEEPROM | MODE_SEEPROM | MODE_TEST | MODE_ISP | MODE_GPAUSE | MODE_SPAUSE | MODE_GCOALESCE
  | MODE_SCOALESCE | MODE_GSN | MODE_SRING | MODE_GOFFLOAD | MODE_SOFFLOAD | MODE_GSTATS | MODE_DSN
  | MODE_TR | MODE_PHY | MODE_PCS | MODE_MAC | MODE_RXBW | MODE_BYPASS

definition AUTONEG_DISABLE :: int where "AUTONEG_DISABLE = 0"
definition AUTONEG_ENABLE :: int where "AUTONEG_ENABLE = 1"
definition FULL :: int where "FULL = 0"
definition HALF :: int where "HALF = 1"
definition SPEED_10 :: int where "SPEED_10 = 0"
definition SPEED_100 :: int where "SPEED_100 = 1"
definition SPEED_1000 :: int where "SPEED_1000 = 2"
definition BYPASS_ENABLE :: int where "BYPASS_ENABLE = 0"
definition BYPASS_DISABLE :: int where "BYPASS_DISABLE = 1"

text \<open>The options that the tool knows, short and long.\<close>

definition args :: "bool \<Rightarrow> (string \<times> string \<times> tool_mode) list" where
  "args copper = [(''-s'', ''--change'', MODE_SSET)] @
     (if copper then [(''-b'', ''--bypass'', MODE_BYPASS)] else []) @
     [(''-g'', ''--generate'', MODE_GSN), (''-p'', ''--program'', MODE_ISP), (''-n'', ''--serial--number'', MODE_DSN),
      (''-T'', ''--test--register'', MODE_TR), (''-c'', ''--pcs'', MODE_PCS)] @
     (if copper then [(''-y'', ''--phy'', MODE_PHY)] else []) @
     [(''-m'', ''--mac'', MODE_MAC), (''-B'', ''--band'', MODE_RXBW), (''-S'', ''--statistics'', MODE_GSTATS),
      (''-h'', ''--help'', MODE_HELP)]"

text \<open>The global variables that the command line sets; -1 and \<open>None\<close> where it does not.\<close>

record options =
  mode :: tool_mode
  devname :: "string option"
  autoneg_wanted :: int
  bypass_wanted :: int
  sn_file :: "string option"
  bin_file :: "string option"
  speed_wanted :: int
  port_wanted :: int
  duplex_wanted :: int
  neg_changed :: bool
  mode_changed :: bool

definition no_options :: options where
  "no_options = \<lparr>mode = MODE_GSET, devname = None, autoneg_wanted = - 1, bypass_wanted = - 1, sn_file = None,
     bin_file = None, speed_wanted = - 1, port_wanted = - 1, duplex_wanted = - 1, neg_changed = False,
     mode_changed = False\<rparr>"

text \<open>\<open>show_usage(n)\<close> ends the process with \<open>n\<close>.\<close>

abbreviation show_usage :: "int \<Rightarrow> int + 'a" where
  "show_usage n \<equiv> Inl n"

definition find_mode :: "bool \<Rightarrow> string \<Rightarrow> tool_mode option" where
  "find_mode copper a = map_option (\<lambda>(srt, lng, m). m) (find (\<lambda>(srt, lng, m). a = srt \<or> a = lng) (args copper))"

definition first_arg :: "bool \<Rightarrow> string \<Rightarrow> options \<Rightarrow> int + options" where
  "first_arg copper a opts =
     (let k = find_mode copper a; opts = (case k of Some m \<Rightarrow> opts\<lparr>mode := m\<rparr> | None \<Rightarrow> opts) in
      if mode opts = MODE_HELP \<or> k = None \<and> take 1 a = ''-'' then show_usage 0
      else Inr (opts\<lparr>devname := Some a\<rparr>))"

definition takes_device :: "tool_mode \<Rightarrow> bool" where
  "takes_device m \<longleftrightarrow> m \<in> {MODE_SSET, MODE_GDRV, MODE_GREGS, MODE_NWAY_RST, MODE_TEST, MODE_GEEPROM,
     MODE_SEEPROM, MODE_GPAUSE, MODE_SPAUSE, MODE_GCOALESCE, MODE_SCOALESCE, MODE_GSN, MODE_SRING,
     MODE_GOFFLOAD, MODE_SOFFLOAD, MODE_GSTATS, MODE_DSN, MODE_TR, MODE_PHY, MODE_PCS, MODE_MAC,
     MODE_ISP, MODE_RXBW, MODE_BYPASS}"

text \<open>A word of a small vocabulary, and the value it stands for.\<close>

definition word_of :: "(string \<times> int) list \<Rightarrow> string \<Rightarrow> int + int" where
  "word_of tab a = (case map_of tab a of Some n \<Rightarrow> Inr n | None \<Rightarrow> show_usage 1)"

definition port_words :: "(string \<times> int) list" where
  "port_words = [(''1'', 0), (''2'', 1), (''3'', 2), (''4'', 3)]"

definition autoneg_words :: "(string \<times> int) list" where
  "autoneg_words = [(''on'', AUTONEG_ENABLE), (''off'', AUTONEG_DISABLE)]"

definition speed_words :: "(string \<times> int) list" where
  "speed_words = [(''10'', SPEED_10), (''100'', SPEED_100), (''1000'', SPEED_1000)]"

definition duplex_words :: "(string \<times> int) list" where
  "duplex_words = [(''half'', HALF), (''full'', FULL)]"

definition bypass_words :: "(string \<times> int) list" where
  "bypass_words = [(''on'', BYPASS_ENABLE), (''off'', BYPASS_DISABLE)]"

text \<open>The next argument, and what is left after it.\<close>

definition next_arg :: "string list \<Rightarrow> (string \<Rightarrow> string list \<Rightarrow> int + 'a) \<Rightarrow> int + 'a" where
  "next_arg rest f = (case rest of [] \<Rightarrow> show_usage 1 | a # rest \<Rightarrow> f a rest)"

definition next_word :: "(string \<times> int) list \<Rightarrow> string list \<Rightarrow> (int \<Rightarrow> string list \<Rightarrow> int + 'a) \<Rightarrow> int + 'a" where
  "next_word tab rest f = next_arg rest (\<lambda>a rest. case word_of tab a of Inl n \<Rightarrow> Inl n | Inr x \<Rightarrow> f x rest)"

text \<open>
  The options of \<open>-s\<close>: a port, then autonegotiation, which must come last, or a speed and a
  duplex mode. A word other than \<open>speed\<close> in place of it is passed over.
\<close>

definition autoneg_arg :: "string list \<Rightarrow> options \<Rightarrow> int + options \<times> string list" where
  "autoneg_arg rest opts =
     (if length rest \<noteq> 1 then show_usage 1
      else next_word autoneg_words rest (\<lambda>x rest. Inr (opts\<lparr>neg_changed := True, autoneg_wanted := x\<rparr>, rest)))"

definition speed_arg :: "string \<Rightarrow> string list \<Rightarrow> options \<Rightarrow> int + options \<times> string list" where
  "speed_arg k rest opts =
     (if k = ''speed'' then next_word speed_words rest (\<lambda>x rest. Inr (opts\<lparr>mode_changed := True, speed_wanted := x\<rparr>, rest))
      else Inr (opts, rest))"

definition duplex_arg :: "string list \<Rightarrow> options \<Rightarrow> int + options \<times> string list" where
  "duplex_arg rest opts = next_arg rest (\<lambda>d rest.
     if d = ''duplex'' then next_word duplex_words rest (\<lambda>x rest. Inr (opts\<lparr>duplex_wanted := x\<rparr>, rest))
     else show_usage 1)"

definition sset_args :: "string \<Rightarrow> string list \<Rightarrow> options \<Rightarrow> int + options \<times> string list" where
  "sset_args a rest opts =
     (if a = ''port'' then next_word port_words rest (\<lambda>p rest.
        let opts = opts\<lparr>port_wanted := p\<rparr> in
        next_arg rest (\<lambda>k rest.
          if k = ''autoneg'' then autoneg_arg rest opts
          else case speed_arg k rest opts of Inl n \<Rightarrow> Inl n | Inr (opts, rest) \<Rightarrow> duplex_arg rest opts))
      else show_usage 1)"

definition bypass_args :: "string \<Rightarrow> string list \<Rightarrow> options \<Rightarrow> int + options \<times> string list" where
  "bypass_args a rest opts =
     (if a = ''bypass'' then next_word bypass_words rest (\<lambda>x rest. Inr (opts\<lparr>bypass_wanted := x\<rparr>, rest))
      else show_usage 1)"

definition default_arg :: "string \<Rightarrow> string list \<Rightarrow> options \<Rightarrow> int + options \<times> string list" where
  "default_arg a rest opts =
     (if mode opts = MODE_SSET then sset_args a rest opts
      else if mode opts = MODE_BYPASS then bypass_args a rest opts
      else show_usage 1)"

definition third_arg :: "string \<Rightarrow> string list \<Rightarrow> options \<Rightarrow> int + options \<times> string list" where
  "third_arg a rest opts =
     (if mode opts = MODE_TEST then (if a = ''online'' \<or> a = ''offline'' then Inr (opts, rest) else show_usage 1)
      else if mode opts = MODE_ISP then Inr (opts\<lparr>sn_file := Some a\<rparr>, rest)
      else if mode opts = MODE_GSN then Inr (opts\<lparr>bin_file := Some a\<rparr>, rest)
      else default_arg a rest opts)"

text \<open>One round of the loop, for the argument number \<open>i\<close>: the cases fall through.\<close>

definition arg_round :: "bool \<Rightarrow> nat \<Rightarrow> string \<Rightarrow> string list \<Rightarrow> options \<Rightarrow> int + options \<times> string list" where
  "arg_round copper i a rest opts =
     (if i = 1 then (case first_arg copper a opts of Inl n \<Rightarrow> Inl n | Inr opts \<Rightarrow> Inr (opts, rest))
      else if i = 2 \<and> takes_device (mode opts) then Inr (opts\<lparr>devname := Some a\<rparr>, rest)
      else if i \<le> 3 then third_arg a rest opts
      else default_arg a rest opts)"

lemma next_arg_Inr: "next_arg rest f = Inr y \<longleftrightarrow> (\<exists>a r. rest = a # r \<and> f a r = Inr y)"
  by (auto simp: next_arg_def split: list.splits)

lemma next_word_Inr:
  "next_word tab rest f = Inr y \<longleftrightarrow> (\<exists>a x r. rest = a # r \<and> map_of tab a = Some x \<and> f x r = Inr y)"
  by (auto simp: next_word_def next_arg_Inr word_of_def split: sum.splits option.splits)

text \<open>What the options of \<open>-s\<close> and of \<open>-b\<close> accept, one group of words at a time.\<close>

lemma autoneg_arg_Inr:
  "autoneg_arg rest opts = Inr (opts', r) \<longleftrightarrow> (\<exists>v x. rest = [v] \<and> map_of autoneg_words v = Some x \<and> r = [] \<and>
     opts' = opts\<lparr>neg_changed := True, autoneg_wanted := x\<rparr>)"
  by (auto simp: autoneg_arg_def next_word_Inr)

lemma speed_arg_Inr:
  "speed_arg k rest opts = Inr (opts', r) \<longleftrightarrow>
     (if k = ''speed'' then \<exists>w x. rest = w # r \<and> map_of speed_words w = Some x \<and>
        opts' = opts\<lparr>mode_changed := True, speed_wanted := x\<rparr> else opts' = opts \<and> r = rest)"
  by (auto simp: speed_arg_def next_word_Inr)

lemma duplex_arg_Inr:
  "duplex_arg rest opts = Inr (opts', r) \<longleftrightarrow> (\<exists>d y. rest = ''duplex'' # d # r \<and> map_of duplex_words d = Some y \<and>
     opts' = opts\<lparr>duplex_wanted := y\<rparr>)"
  by (auto simp: duplex_arg_def next_word_Inr next_arg_Inr split: if_splits)

lemma sset_args_Inr:
  "sset_args a rest opts = Inr (opts', r) \<longleftrightarrow> a = ''port'' \<and> (\<exists>p n k rest1. rest = p # k # rest1 \<and> map_of port_words p = Some n \<and>
     (if k = ''autoneg'' then autoneg_arg rest1 (opts\<lparr>port_wanted := n\<rparr>) = Inr (opts', r)
      else \<exists>o1 rest2. speed_arg k rest1 (opts\<lparr>port_wanted := n\<rparr>) = Inr (o1, rest2) \<and> duplex_arg rest2 o1 = Inr (opts', r)))"
proof -
  have seq: "(case q of Inl n \<Rightarrow> Inl n | Inr (o1, rest) \<Rightarrow> f rest o1) = Inr y \<longleftrightarrow> (\<exists>o1 rest. q = Inr (o1, rest) \<and> f rest o1 = Inr y)"
    for q :: "int + options \<times> string list" and f :: "string list \<Rightarrow> options \<Rightarrow> int + options \<times> string list" and y
    by (auto split: sum.splits)
  have cond: "(if P then A else B) = Inr y \<longleftrightarrow> (if P then A = Inr y else B = Inr y)"
    for P and A B :: "int + options \<times> string list" and y by simp
  show ?thesis
    unfolding sset_args_def Let_def cond seq next_word_Inr next_arg_Inr by (cases "a = ''port''") (simp_all, blast)
qed

lemma bypass_args_Inr:
  "bypass_args a rest opts = Inr (opts', r) \<longleftrightarrow> a = ''bypass'' \<and>
     (\<exists>v x. rest = v # r \<and> map_of bypass_words v = Some x \<and> opts' = opts\<lparr>bypass_wanted := x\<rparr>)"
  by (auto simp: bypass_args_def next_word_Inr)

lemma speed_arg_length: "speed_arg k rest opts = Inr (opts', r) \<Longrightarrow> length r \<le> length rest"
  unfolding speed_arg_Inr by (metis le_SucI length_Cons order_refl)

lemma sset_args_length:
  assumes "sset_args a rest opts = Inr (opts', r)"
  shows "length r \<le> length rest"
proof -
  obtain p n k rest1 where r: "rest = p # k # rest1" and
    c: "if k = ''autoneg'' then autoneg_arg rest1 (opts\<lparr>port_wanted := n\<rparr>) = Inr (opts', r)
      else \<exists>o1 rest2. speed_arg k rest1 (opts\<lparr>port_wanted := n\<rparr>) = Inr (o1, rest2) \<and> duplex_arg rest2 o1 = Inr (opts', r)"
    using assms unfolding sset_args_Inr by blast
  define o1 where "o1 = opts\<lparr>port_wanted := n\<rparr>"
  from c have q: "autoneg_arg rest1 o1 = Inr (opts', r) \<or> (\<exists>o2 rest2. speed_arg k rest1 o1 = Inr (o2, rest2) \<and> duplex_arg rest2 o2 = Inr (opts', r))"
    unfolding o1_def by (cases "k = ''autoneg''") simp_all
  from q have "length r \<le> length rest1"
  proof
    assume "autoneg_arg rest1 o1 = Inr (opts', r)"
    then show ?thesis unfolding autoneg_arg_Inr by auto
  next
    assume "\<exists>o2 rest2. speed_arg k rest1 o1 = Inr (o2, rest2) \<and> duplex_arg rest2 o2 = Inr (opts', r)"
    then obtain o2 rest2 where s: "speed_arg k rest1 o1 = Inr (o2, rest2)" "duplex_arg rest2 o2 = Inr (opts', r)" by blast
    have "length r \<le> length rest2" using s(2) unfolding duplex_arg_Inr by auto
    then show ?thesis using speed_arg_length [OF s(1)] by (rule order_trans)
  qed
  then show ?thesis by (simp add: r)
qed

lemma default_arg_length: "default_arg a rest opts = Inr (opts', r) \<Longrightarrow> length r \<le> length rest"
  by (auto simp: default_arg_def bypass_args_Inr split: if_splits dest: sset_args_length)

lemma third_arg_length: "third_arg a rest opts = Inr (opts', r) \<Longrightarrow> length r \<le> length rest"
  unfolding third_arg_def by (auto split: if_splits dest: default_arg_length)

lemma arg_round_length: "arg_round copper i a rest opts = Inr (opts', r) \<Longrightarrow> length r \<le> length rest"
  unfolding arg_round_def by (auto split: if_splits sum.splits dest: default_arg_length third_arg_length)

function parse_from :: "bool \<Rightarrow> nat \<Rightarrow> string list \<Rightarrow> options \<Rightarrow> int + options" where
  "parse_from copper i [] opts = Inr opts"
| "parse_from copper i (a # rest) opts = (case arg_round copper i a rest opts of
       Inl n \<Rightarrow> Inl n
     | Inr (opts, r) \<Rightarrow> parse_from copper (i + (length rest - length r) + 1) r opts)"
  by pat_completeness auto

termination
  by (relation "measure (\<lambda>(copper, i, as, opts). length as)") (auto dest: arg_round_length)

text \<open>\<open>argp[0]\<close> is the name of the tool.\<close>

definition parse_cmdline :: "bool \<Rightarrow> string list \<Rightarrow> int + options" where
  "parse_cmdline copper argp = (case parse_from copper 1 (tl argp) no_options of
       Inl n \<Rightarrow> Inl n
     | Inr opts \<Rightarrow> (case devname opts of
           None \<Rightarrow> show_usage 1
         | Some d \<Rightarrow> if d \<noteq> ''nac0'' \<and> d \<noteq> ''nac1'' \<and> d \<noteq> ''nac2'' \<and> d \<noteq> ''nac3'' then show_usage 1 else Inr opts))"

section \<open>The grammar\<close>

text \<open>The options after \<open>-s DEVNAME\<close>: groups of words that each set a port and what to do with it.\<close>

inductive sset_line :: "options \<Rightarrow> string list \<Rightarrow> options \<Rightarrow> bool" where
  sset_end: "sset_line opts [] opts"
| sset_autoneg: "map_of port_words p = Some n \<Longrightarrow> map_of autoneg_words v = Some x \<Longrightarrow>
    sset_line opts [''port'', p, ''autoneg'', v] (opts\<lparr>port_wanted := n, neg_changed := True, autoneg_wanted := x\<rparr>)"
| sset_speed: "map_of port_words p = Some n \<Longrightarrow> map_of speed_words w = Some x \<Longrightarrow> map_of duplex_words d = Some y \<Longrightarrow>
    sset_line (opts\<lparr>port_wanted := n, mode_changed := True, speed_wanted := x, duplex_wanted := y\<rparr>) rest opts' \<Longrightarrow>
    sset_line opts ([''port'', p, ''speed'', w, ''duplex'', d] @ rest) opts'"
| sset_other: "map_of port_words p = Some n \<Longrightarrow> k \<noteq> ''autoneg'' \<Longrightarrow> k \<noteq> ''speed'' \<Longrightarrow> map_of duplex_words d = Some y \<Longrightarrow>
    sset_line (opts\<lparr>port_wanted := n, duplex_wanted := y\<rparr>) rest opts' \<Longrightarrow>
    sset_line opts ([''port'', p, k, ''duplex'', d] @ rest) opts'"

inductive bypass_line :: "options \<Rightarrow> string list \<Rightarrow> options \<Rightarrow> bool" where
  bypass_end: "bypass_line opts [] opts"
| bypass_set: "map_of bypass_words v = Some x \<Longrightarrow> bypass_line (opts\<lparr>bypass_wanted := x\<rparr>) rest opts' \<Longrightarrow>
    bypass_line opts ([''bypass'', v] @ rest) opts'"

text \<open>Lines that the tool accepts, without its own name, and the options they set.\<close>

inductive cmdline :: "bool \<Rightarrow> string list \<Rightarrow> options \<Rightarrow> bool" for copper where
  show_line: "d \<in> {''nac0'', ''nac1'', ''nac2'', ''nac3''} \<Longrightarrow> cmdline copper [d] (no_options\<lparr>devname := Some d\<rparr>)"
| plain_line: "d \<in> {''nac0'', ''nac1'', ''nac2'', ''nac3''} \<Longrightarrow> find_mode copper a = Some m \<Longrightarrow> m \<noteq> MODE_HELP \<Longrightarrow>
    cmdline copper [a, d] (no_options\<lparr>mode := m, devname := Some d\<rparr>)"
| isp_line: "d \<in> {''nac0'', ''nac1'', ''nac2'', ''nac3''} \<Longrightarrow> find_mode copper a = Some MODE_ISP \<Longrightarrow>
    cmdline copper [a, d, f] (no_options\<lparr>mode := MODE_ISP, devname := Some d, sn_file := Some f\<rparr>)"
| gsn_line: "d \<in> {''nac0'', ''nac1'', ''nac2'', ''nac3''} \<Longrightarrow> find_mode copper a = Some MODE_GSN \<Longrightarrow>
    cmdline copper [a, d, f] (no_options\<lparr>mode := MODE_GSN, devname := Some d, bin_file := Some f\<rparr>)"
| sset_command: "d \<in> {''nac0'', ''nac1'', ''nac2'', ''nac3''} \<Longrightarrow> find_mode copper a = Some MODE_SSET \<Longrightarrow>
    sset_line (no_options\<lparr>mode := MODE_SSET, devname := Some d\<rparr>) rest opts \<Longrightarrow> cmdline copper (a # d # rest) opts"
| bypass_command: "d \<in> {''nac0'', ''nac1'', ''nac2'', ''nac3''} \<Longrightarrow> find_mode copper a = Some MODE_BYPASS \<Longrightarrow>
    bypass_line (no_options\<lparr>mode := MODE_BYPASS, devname := Some d\<rparr>) rest opts \<Longrightarrow> cmdline copper (a # d # rest) opts"

section \<open>The loop accepts the grammar\<close>

lemma arg_round_later: "4 \<le> i \<Longrightarrow> arg_round copper i a rest opts = default_arg a rest opts"
  by (simp add: arg_round_def)

lemma default_arg_sset: "mode opts = MODE_SSET \<Longrightarrow> default_arg a rest opts = sset_args a rest opts"
  by (simp add: default_arg_def)

lemma default_arg_bypass: "mode opts = MODE_BYPASS \<Longrightarrow> default_arg a rest opts = bypass_args a rest opts"
  by (simp add: default_arg_def)

lemma arg_round_options:
  "3 \<le> i \<Longrightarrow> mode opts = MODE_SSET \<or> mode opts = MODE_BYPASS \<Longrightarrow> arg_round copper i a rest opts = default_arg a rest opts"
  by (auto simp: arg_round_def third_arg_def)

lemma parse_from_Inr:
  "parse_from copper i (a # rest) opts = Inr opts' \<longleftrightarrow> (\<exists>o1 r. arg_round copper i a rest opts = Inr (o1, r) \<and>
     parse_from copper (i + (length rest - length r) + 1) r o1 = Inr opts')"
  by (auto split: sum.splits)

declare parse_from.simps(2) [simp del]

lemma sset_sound:
  "parse_from copper i as opts = Inr opts' \<Longrightarrow> 3 \<le> i \<Longrightarrow> mode opts = MODE_SSET \<Longrightarrow> sset_line opts as opts'"
proof (induction "length as" arbitrary: i as opts rule: less_induct)
  case less
  show ?case
  proof (cases as)
    case Nil
    then show ?thesis using less.prems(1) by (auto intro: sset_end)
  next
    case (Cons a rest)
    obtain o1 r where arg: "sset_args a rest opts = Inr (o1, r)" and
      go: "parse_from copper (i + (length rest - length r) + 1) r o1 = Inr opts'"
      using less.prems unfolding Cons parse_from_Inr by (auto simp: arg_round_options default_arg_sset)
    have shorter: "length r < length as" using sset_args_length [OF arg] by (simp add: Cons)
    obtain p n k rest1 where w: "a = ''port''" "rest = p # k # rest1" "map_of port_words p = Some n" and
      c: "if k = ''autoneg'' then autoneg_arg rest1 (opts\<lparr>port_wanted := n\<rparr>) = Inr (o1, r)
        else \<exists>o2 rest2. speed_arg k rest1 (opts\<lparr>port_wanted := n\<rparr>) = Inr (o2, rest2) \<and> duplex_arg rest2 o2 = Inr (o1, r)"
      using arg unfolding sset_args_Inr by blast
    have rest: "sset_line o1 r opts'" if "mode o1 = MODE_SSET"
      by (rule less.hyps [OF shorter go _ that]) (use less.prems(2) in simp)
    consider "k = ''autoneg''" | "k = ''speed''" | "k \<noteq> ''autoneg''" "k \<noteq> ''speed''" by blast
    then show ?thesis
    proof cases
      case 1
      with c obtain v x where v: "rest1 = [v]" "map_of autoneg_words v = Some x" "r = []"
        "o1 = opts\<lparr>port_wanted := n, neg_changed := True, autoneg_wanted := x\<rparr>"
        unfolding autoneg_arg_Inr by auto
      with go have "opts' = o1" by simp
      then show ?thesis using sset_autoneg [OF w(3) v(2)] by (simp add: Cons w(1,2) 1 v(1,4))
    next
      case 2
      then have "k \<noteq> ''autoneg''" by simp
      with c 2 obtain v x d y where v: "rest1 = v # ''duplex'' # d # r" "map_of speed_words v = Some x" "map_of duplex_words d = Some y"
        "o1 = opts\<lparr>port_wanted := n, mode_changed := True, speed_wanted := x, duplex_wanted := y\<rparr>"
        unfolding speed_arg_Inr duplex_arg_Inr by auto
      then show ?thesis using sset_speed [OF w(3) v(2,3)] rest less.prems(3) by (simp add: Cons w(1,2) 2 v(1))
    next
      case 3
      with c obtain d y where v: "rest1 = ''duplex'' # d # r" "map_of duplex_words d = Some y"
        "o1 = opts\<lparr>port_wanted := n, duplex_wanted := y\<rparr>"
        unfolding speed_arg_Inr duplex_arg_Inr by auto
      then show ?thesis using sset_other [OF w(3) 3 v(2)] rest less.prems(3) by (simp add: Cons w(1,2) v(1))
    qed
  qed
qed

lemma sset_complete:
  "sset_line opts as opts' \<Longrightarrow> 3 \<le> i \<Longrightarrow> mode opts = MODE_SSET \<Longrightarrow> parse_from copper i as opts = Inr opts'"
proof (induction arbitrary: i rule: sset_line.induct)
  case (sset_end opts)
  show ?case by simp
next
  case (sset_autoneg p n v x opts)
  then have "sset_args ''port'' [p, ''autoneg'', v] opts =
      Inr (opts\<lparr>port_wanted := n, neg_changed := True, autoneg_wanted := x\<rparr>, [])"
    unfolding sset_args_Inr by (simp add: autoneg_arg_Inr)
  then show ?case using sset_autoneg.prems by (simp add: parse_from_Inr arg_round_options default_arg_sset)
next
  case (sset_speed p n w x d y opts rest opts')
  then have "sset_args ''port'' ([p, ''speed'', w, ''duplex'', d] @ rest) opts =
      Inr (opts\<lparr>port_wanted := n, mode_changed := True, speed_wanted := x, duplex_wanted := y\<rparr>, rest)"
    unfolding sset_args_Inr by (simp add: speed_arg_Inr duplex_arg_Inr)
  then show ?case using sset_speed by (simp add: parse_from_Inr arg_round_options default_arg_sset)
next
  case (sset_other p n k d y opts rest opts')
  then have "sset_args ''port'' ([p, k, ''duplex'', d] @ rest) opts =
      Inr (opts\<lparr>port_wanted := n, duplex_wanted := y\<rparr>, rest)"
    unfolding sset_args_Inr by (simp add: speed_arg_Inr duplex_arg_Inr)
  then show ?case using sset_other by (simp add: parse_from_Inr arg_round_options default_arg_sset)
qed

lemma bypass_sound:
  "parse_from copper i as opts = Inr opts' \<Longrightarrow> 3 \<le> i \<Longrightarrow> mode opts = MODE_BYPASS \<Longrightarrow> bypass_line opts as opts'"
proof (induction "length as" arbitrary: i as opts rule: less_induct)
  case less
  show ?case
  proof (cases as)
    case Nil
    then show ?thesis using less.prems(1) by (auto intro: bypass_end)
  next
    case (Cons a rest)
    then obtain v x r where v: "a = ''bypass''" "rest = v # r" "map_of bypass_words v = Some x" and
      go: "parse_from copper (i + 2) r (opts\<lparr>bypass_wanted := x\<rparr>) = Inr opts'"
      using less.prems unfolding Cons parse_from_Inr by (auto simp: arg_round_options default_arg_bypass bypass_args_Inr)
    have "bypass_line (opts\<lparr>bypass_wanted := x\<rparr>) r opts'"
      by (rule less.hyps [OF _ go]) (use less.prems v in \<open>simp_all add: Cons\<close>)
    then show ?thesis using bypass_set [OF v(3)] by (simp add: Cons v(1,2))
  qed
qed

lemma bypass_complete:
  "bypass_line opts as opts' \<Longrightarrow> 3 \<le> i \<Longrightarrow> mode opts = MODE_BYPASS \<Longrightarrow> parse_from copper i as opts = Inr opts'"
proof (induction arbitrary: i rule: bypass_line.induct)
  case (bypass_set v x opts rest opts')
  then have "bypass_args ''bypass'' (v # rest) opts = Inr (opts\<lparr>bypass_wanted := x\<rparr>, rest)" by (simp add: bypass_args_Inr)
  then show ?case using bypass_set by (simp add: parse_from_Inr arg_round_options default_arg_bypass)
qed simp

lemma find_mode_takes:
  assumes "find_mode copper a = Some m"
  shows "m = MODE_HELP \<or> takes_device m \<and> m \<noteq> MODE_TEST" and "a \<notin> {''nac0'', ''nac1'', ''nac2'', ''nac3''}"
proof -
  obtain x where x: "find (\<lambda>(srt, lng, m). a = srt \<or> a = lng) (args copper) = Some x" "m = snd (snd x)"
    using assms by (auto simp: find_mode_def)
  then have "x \<in> set (args copper)" "a = fst x \<or> a = fst (snd x)"
    by (auto simp: find_Some_iff intro!: nth_mem)
  then show "m = MODE_HELP \<or> takes_device m \<and> m \<noteq> MODE_TEST" "a \<notin> {''nac0'', ''nac1'', ''nac2'', ''nac3''}"
    using x(2) by (auto simp: args_def takes_device_def split: if_splits)
qed

lemma last_args_refused:
  assumes "4 \<le> i" and "mode opts \<noteq> MODE_SSET" and "mode opts \<noteq> MODE_BYPASS"
  shows "parse_from copper i as opts = Inr opts' \<longleftrightarrow> as = [] \<and> opts' = opts"
  using assms by (cases as) (auto simp: parse_from_Inr arg_round_later default_arg_def)

text \<open>What may follow a command and its device.\<close>

lemma parse_rest:
  assumes "takes_device (mode opts)" and "mode opts \<noteq> MODE_TEST"
  shows "parse_from copper 3 as opts = Inr opts' \<longleftrightarrow> as = [] \<and> opts' = opts \<or>
     mode opts = MODE_ISP \<and> (\<exists>f. as = [f] \<and> opts' = opts\<lparr>sn_file := Some f\<rparr>) \<or>
     mode opts = MODE_GSN \<and> (\<exists>f. as = [f] \<and> opts' = opts\<lparr>bin_file := Some f\<rparr>) \<or>
     mode opts = MODE_SSET \<and> sset_line opts as opts' \<or> mode opts = MODE_BYPASS \<and> bypass_line opts as opts'"
proof (cases "mode opts = MODE_SSET \<or> mode opts = MODE_BYPASS")
  case True
  then show ?thesis
  proof
    assume m: "mode opts = MODE_SSET"
    have eq: "parse_from copper 3 as opts = Inr opts' \<longleftrightarrow> sset_line opts as opts'"
      using m by (auto dest: sset_sound intro: sset_complete)
    have "as = [] \<and> opts' = opts \<Longrightarrow> sset_line opts as opts'" by (auto intro: sset_end)
    then show ?thesis unfolding eq by (simp only: m tool_mode.distinct) blast
  next
    assume m: "mode opts = MODE_BYPASS"
    have eq: "parse_from copper 3 as opts = Inr opts' \<longleftrightarrow> bypass_line opts as opts'"
      using m by (auto dest: bypass_sound intro: bypass_complete)
    have "as = [] \<and> opts' = opts \<Longrightarrow> bypass_line opts as opts'" by (auto intro: bypass_end)
    then show ?thesis unfolding eq by (simp only: m tool_mode.distinct) blast
  qed
next
  case False
  show ?thesis
  proof (cases as)
    case (Cons a rest)
    have "arg_round copper 3 a rest opts = third_arg a rest opts" by (simp add: arg_round_def)
    then show ?thesis
      using assms False unfolding Cons parse_from_Inr by (auto simp: third_arg_def default_arg_def last_args_refused)
  qed (use False in auto)
qed

definition asks_help :: "bool \<Rightarrow> string list \<Rightarrow> bool" where
  "asks_help copper as \<longleftrightarrow> (case as of [] \<Rightarrow> False
     | a # _ \<Rightarrow> find_mode copper a = Some MODE_HELP \<or> find_mode copper a = None \<and> take 1 a = ''-'')"

lemma first_round:
  "arg_round copper 1 a rest no_options = (if asks_help copper (a # rest) then Inl 0
     else Inr (no_options\<lparr>mode := (case find_mode copper a of Some m \<Rightarrow> m | None \<Rightarrow> MODE_GSET), devname := Some a\<rparr>, rest))"
  by (auto simp: arg_round_def first_arg_def asks_help_def no_options_def Let_def split: option.splits)

lemma nac0_no_option: "d \<in> {''nac0'', ''nac1'', ''nac2'', ''nac3''} \<Longrightarrow> find_mode copper d = None \<and> take 1 d \<noteq> ''-''"
  by (auto dest: find_mode_takes(2) intro: ccontr)

inductive_cases cmdline_Nil: "cmdline copper [] opts"
inductive_cases cmdline_Cons: "cmdline copper (a # rest) opts"
inductive_cases cmdline_two: "cmdline copper (a # d # rest) opts"

lemma parse_one:
  assumes "\<not> asks_help copper (a # rest)" and "find_mode copper a = None"
  shows "parse_from copper 1 (a # rest) no_options = Inr opts \<longleftrightarrow> rest = [] \<and> opts = no_options\<lparr>devname := Some a\<rparr>"
proof -
  have "no_options\<lparr>mode := MODE_GSET, devname := Some a\<rparr> = no_options\<lparr>devname := Some a\<rparr>" by (simp add: no_options_def)
  then have r: "arg_round copper 1 a rest no_options = Inr (no_options\<lparr>devname := Some a\<rparr>, rest)"
    unfolding first_round using assms by simp
  have "parse_from copper 2 rest (no_options\<lparr>devname := Some a\<rparr>) = Inr opts \<longleftrightarrow> rest = [] \<and> opts = no_options\<lparr>devname := Some a\<rparr>"
    by (cases rest)
      (auto simp: parse_from_Inr arg_round_def third_arg_def default_arg_def takes_device_def no_options_def)
  then show ?thesis unfolding parse_from_Inr r by (simp add: numeral_2_eq_2)
qed

lemma parse_command:
  assumes "find_mode copper a = Some m" and "m \<noteq> MODE_HELP"
  shows "parse_from copper 1 (a # rest) no_options = Inr opts \<longleftrightarrow>
     rest = [] \<and> opts = no_options\<lparr>mode := m, devname := Some a\<rparr> \<or>
     (\<exists>d as. rest = d # as \<and> parse_from copper 3 as (no_options\<lparr>mode := m, devname := Some d\<rparr>) = Inr opts)"
proof -
  have r: "arg_round copper 1 a rest no_options = Inr (no_options\<lparr>mode := m, devname := Some a\<rparr>, rest)"
    unfolding first_round using assms by (simp add: asks_help_def)
  have "takes_device m" using find_mode_takes(1) [OF assms(1)] assms(2) by blast
  then have "arg_round copper 2 d as (no_options\<lparr>mode := m, devname := Some a\<rparr>) = Inr (no_options\<lparr>mode := m, devname := Some d\<rparr>, as)" for d as
    by (simp add: arg_round_def)
  then have "parse_from copper 2 rest (no_options\<lparr>mode := m, devname := Some a\<rparr>) = Inr opts \<longleftrightarrow>
     rest = [] \<and> opts = no_options\<lparr>mode := m, devname := Some a\<rparr> \<or>
     (\<exists>d as. rest = d # as \<and> parse_from copper 3 as (no_options\<lparr>mode := m, devname := Some d\<rparr>) = Inr opts)"
    by (cases rest) (auto simp: parse_from_Inr simp flip: numeral_3_eq_3)
  then show ?thesis unfolding parse_from_Inr r by (simp add: numeral_2_eq_2)
qed

lemma sset_devname: "sset_line opts as opts' \<Longrightarrow> devname opts' = devname opts"
  by (induction rule: sset_line.induct) simp_all

lemma bypass_devname: "bypass_line opts as opts' \<Longrightarrow> devname opts' = devname opts"
  by (induction rule: bypass_line.induct) simp_all

lemma parse_cmdline_Inr:
  "parse_cmdline copper (prog # as) = Inr opts \<longleftrightarrow> parse_from copper 1 as no_options = Inr opts \<and>
     (\<exists>d. devname opts = Some d \<and> d \<in> {''nac0'', ''nac1'', ''nac2'', ''nac3''})"
  by (auto simp: parse_cmdline_def split: sum.splits option.splits if_splits)

lemma cmdline_command:
  assumes "find_mode copper a = Some m" and "m \<noteq> MODE_HELP"
  shows "parse_from copper 3 as (no_options\<lparr>mode := m, devname := Some d\<rparr>) = Inr opts \<and> d \<in> {''nac0'', ''nac1'', ''nac2'', ''nac3''} \<longleftrightarrow>
     cmdline copper (a # d # as) opts"
proof -
  have "takes_device m" "m \<noteq> MODE_TEST" using find_mode_takes(1) [OF assms(1)] assms(2) by blast+
  then have p: "parse_from copper 3 as (no_options\<lparr>mode := m, devname := Some d\<rparr>) = Inr opts \<longleftrightarrow>
     as = [] \<and> opts = no_options\<lparr>mode := m, devname := Some d\<rparr> \<or>
     m = MODE_ISP \<and> (\<exists>f. as = [f] \<and> opts = no_options\<lparr>mode := m, devname := Some d, sn_file := Some f\<rparr>) \<or>
     m = MODE_GSN \<and> (\<exists>f. as = [f] \<and> opts = no_options\<lparr>mode := m, devname := Some d, bin_file := Some f\<rparr>) \<or>
     m = MODE_SSET \<and> sset_line (no_options\<lparr>mode := m, devname := Some d\<rparr>) as opts \<or>
     m = MODE_BYPASS \<and> bypass_line (no_options\<lparr>mode := m, devname := Some d\<rparr>) as opts"
    by (simp add: parse_rest)
  show ?thesis
  proof
    assume "parse_from copper 3 as (no_options\<lparr>mode := m, devname := Some d\<rparr>) = Inr opts \<and> d \<in> {''nac0'', ''nac1'', ''nac2'', ''nac3''}"
    then show "cmdline copper (a # d # as) opts"
      unfolding p using assms by (elim conjE disjE exE) (auto intro: cmdline.intros)
  next
    assume "cmdline copper (a # d # as) opts"
    then show "parse_from copper 3 as (no_options\<lparr>mode := m, devname := Some d\<rparr>) = Inr opts \<and> d \<in> {''nac0'', ''nac1'', ''nac2'', ''nac3''}"
      unfolding p by (rule cmdline_two) (use assms in auto)
  qed
qed

lemma parse_cmdline_accepts: "parse_cmdline copper (prog # as) = Inr opts \<longleftrightarrow> cmdline copper as opts"
proof (cases as)
  case Nil
  then show ?thesis by (auto simp: parse_cmdline_Inr no_options_def elim: cmdline_Nil)
next
  case (Cons a rest)
  show ?thesis
  proof (cases "find_mode copper a")
    case None
    have "parse_cmdline copper (prog # as) = Inr opts \<longleftrightarrow> rest = [] \<and> opts = no_options\<lparr>devname := Some a\<rparr> \<and>
        a \<in> {''nac0'', ''nac1'', ''nac2'', ''nac3''}"
    proof (cases "asks_help copper as")
      case True
      then have "parse_from copper 1 as no_options = Inl 0" unfolding Cons parse_from.simps(2) first_round by simp
      moreover have "a \<notin> {''nac0'', ''nac1'', ''nac2'', ''nac3''}" using True None nac0_no_option [of a copper] by (auto simp: Cons asks_help_def)
      ultimately show ?thesis by (simp add: parse_cmdline_Inr)
    next
      case False
      then show ?thesis unfolding parse_cmdline_Inr Cons parse_one [OF False [unfolded Cons] None] by auto
    qed
    also have "\<dots> \<longleftrightarrow> cmdline copper as opts"
      unfolding Cons using None by (auto intro: show_line elim: cmdline_Cons)
    finally show ?thesis .
  next
    case (Some m)
    show ?thesis
    proof (cases "m = MODE_HELP")
      case True
      then have "parse_from copper 1 as no_options = Inl 0" unfolding Cons parse_from.simps(2) first_round using Some by (simp add: asks_help_def)
      moreover have "\<not> cmdline copper as opts"
      proof
        assume "cmdline copper as opts"
        then show False unfolding Cons by (rule cmdline_Cons) (use Some True nac0_no_option [of a copper] in auto)
      qed
      ultimately show ?thesis by (simp add: parse_cmdline_Inr)
    next
      case False
      have a: "a \<notin> {''nac0'', ''nac1'', ''nac2'', ''nac3''}" by (rule find_mode_takes(2) [OF Some])
      show ?thesis
      proof (cases rest)
        case Nil
        have "\<not> cmdline copper [a] opts" using a by (auto elim: cmdline_Cons)
        then show ?thesis unfolding parse_cmdline_Inr Cons parse_command [OF Some False] Nil using a by auto
      next
        case c2: (Cons d as')
        have dev: "devname opts = Some d" if "parse_from copper 3 as' (no_options\<lparr>mode := m, devname := Some d\<rparr>) = Inr opts"
        proof -
          have "takes_device m" "m \<noteq> MODE_TEST" using find_mode_takes(1) [OF Some] False by blast+
          with that show ?thesis by (auto simp: parse_rest dest: sset_devname bypass_devname)
        qed
        show ?thesis
          unfolding parse_cmdline_Inr Cons parse_command [OF Some False] c2 cmdline_command [OF Some False, symmetric] using dev by auto
      qed
    qed
  qed
qed

text \<open>Every other line ends the tool with 1, after a question for help with 0.\<close>

lemma next_word_Inl: "next_word tab rest f = Inl n \<Longrightarrow> (\<And>x r. f x r = Inl n \<Longrightarrow> n = 1) \<Longrightarrow> n = 1"
  by (auto simp: next_word_def next_arg_def word_of_def split: list.splits sum.splits option.splits)

lemma next_arg_Inl: "next_arg rest f = Inl n \<Longrightarrow> (\<And>x r. f x r = Inl n \<Longrightarrow> n = 1) \<Longrightarrow> n = 1"
  by (auto simp: next_arg_def split: list.splits)

lemma duplex_arg_Inl: "duplex_arg rest opts = Inl n \<Longrightarrow> n = 1"
  unfolding duplex_arg_def by (erule next_arg_Inl) (auto split: if_splits elim: next_word_Inl)

lemma speed_arg_Inl: "speed_arg k rest opts = Inl n \<Longrightarrow> n = 1"
  unfolding speed_arg_def by (auto split: if_splits elim: next_word_Inl)

lemma autoneg_arg_Inl: "autoneg_arg rest opts = Inl n \<Longrightarrow> n = 1"
  unfolding autoneg_arg_def by (auto split: if_splits elim: next_word_Inl)

lemma sset_args_Inl: "sset_args a rest opts = Inl n \<Longrightarrow> n = 1"
proof (cases "a = ''port''")
  case True
  assume "sset_args a rest opts = Inl n"
  then show ?thesis
    unfolding sset_args_def if_P [OF True] Let_def
    by (elim next_word_Inl next_arg_Inl)
      (auto split: if_splits sum.splits dest: duplex_arg_Inl speed_arg_Inl autoneg_arg_Inl)
qed (simp add: sset_args_def)

lemma default_arg_Inl: "default_arg a rest opts = Inl n \<Longrightarrow> n = 1"
  unfolding default_arg_def bypass_args_def by (auto split: if_splits dest: sset_args_Inl elim: next_word_Inl)

lemma arg_round_Inl: "arg_round copper i a rest opts = Inl n \<Longrightarrow> i \<noteq> 1 \<Longrightarrow> n = 1"
  unfolding arg_round_def third_arg_def by (auto split: if_splits dest: default_arg_Inl)

lemma parse_from_Inl: "parse_from copper i as opts = Inl n \<Longrightarrow> 2 \<le> i \<Longrightarrow> n = 1"
proof (induction copper i as opts rule: parse_from.induct)
  case (2 copper i a rest opts)
  then show ?case
    by (auto simp: parse_from.simps(2) split: sum.splits dest: arg_round_Inl)
qed simp

lemma parse_cmdline_Inl:
  assumes "parse_cmdline copper (prog # as) = Inl n"
  shows "n = (if asks_help copper as then 0 else 1)"
proof (cases as)
  case (Cons a rest)
  show ?thesis
  proof (cases "asks_help copper as")
    case True
    then have "parse_from copper 1 as no_options = Inl 0" unfolding Cons parse_from.simps(2) first_round by simp
    then show ?thesis using assms True by (simp add: parse_cmdline_def)
  next
    case False
    then obtain o1 where "arg_round copper 1 a rest no_options = Inr (o1, rest)" unfolding Cons first_round by simp
    then have "parse_from copper 1 as no_options = parse_from copper 2 rest o1"
      by (simp add: Cons parse_from.simps(2) numeral_2_eq_2)
    then show ?thesis
      using assms False parse_from_Inl [of copper 2 rest o1 n] by (auto simp: parse_cmdline_def split: sum.splits option.splits if_splits)
  qed
qed (use assms in \<open>auto simp: parse_cmdline_def no_options_def asks_help_def\<close>)

text \<open>
  C22. The command line of nactool. \<open>parse_cmdline\<close> accepts exactly the lines of the grammar
  \<open>cmdline\<close> and sets exactly the options that the grammar says; every other line ends the tool,
  with 0 if the first word asks for help, with 0 as well if it begins with \<open>-\<close> but is no option
  that the tool knows, and with 1 otherwise. The grammar is that of the code, which accepts more
  than the usage text shows: any word in place of \<open>speed\<close> is passed over and the duplex mode
  follows at once (\<open>port 1 spede duplex full\<close>), groups of port options may be repeated and the last one
  counts, and a command with options may be given without any.
\<close>

theorem cmdline_grammar:
  "(parse_cmdline copper (prog # as) = Inr opts \<longleftrightarrow> cmdline copper as opts) \<and>
   (parse_cmdline copper (prog # as) = Inl n \<longleftrightarrow>
      (\<nexists>opts. cmdline copper as opts) \<and> n = (if asks_help copper as then 0 else 1))"
proof (cases "parse_cmdline copper (prog # as)")
  case (Inl k)
  then have "\<nexists>opts. cmdline copper as opts" by (simp flip: parse_cmdline_accepts [of copper prog])
  then show ?thesis using Inl parse_cmdline_Inl [OF Inl] by (auto simp: parse_cmdline_accepts)
next
  case (Inr o1)
  then have c: "cmdline copper as o1" by (simp add: parse_cmdline_accepts)
  show ?thesis unfolding parse_cmdline_accepts unfolding Inr using c by blast
qed

end
