(* ===== verification/Nactypes.thy ===== *)
theory Nactypes
  imports Prelude
begin

text \<open>
  The board's register map (include/nacreg.h), the bit fields the library packs into those
  registers, and the plain data structures of include/nactypes.h that describe an open card
  and its DMA streams.
\<close>

section \<open>Register addresses\<close>

definition MAC0_DATA :: u32 where
  "MAC0_DATA = 0x90090"

definition MAC1_DATA :: u32 where
  "MAC1_DATA = 0x900a0"

definition MAC0_ADDR :: u32 where
  "MAC0_ADDR = 0x90098"

definition MAC1_ADDR :: u32 where
  "MAC1_ADDR = 0x900a8"

definition I2C_BASEADDR :: u32 where
  "I2C_BASEADDR = 0x600c0"

definition MDIO_BASE_ADDR :: u32 where
  "MDIO_BASE_ADDR = 0x600E8"

definition FLASH_DATA :: u32 where
  "FLASH_DATA = 0x600E0"

definition FLASH_ADDR :: u32 where
  "FLASH_ADDR = 0x600E4"

definition BYPASS_EN_AND_CAP_START :: u32 where
  "BYPASS_EN_AND_CAP_START = 0x90028"

definition TIMER_INTERVAL_ADDR :: u32 where
  "TIMER_INTERVAL_ADDR = 0x60044"

definition BYPASS_CRL :: u32 where
  "BYPASS_CRL = 0x60058"

definition BYPASS_THRESHOLD :: u32 where
  "BYPASS_THRESHOLD = 0x6005C"

definition STREAM_REG_DIFF_0x40 :: u32 where
  "STREAM_REG_DIFF_0x40 = 0x40"

definition RFT_DMA_CTL_REG :: u32 where
  "RFT_DMA_CTL_REG = 0x50300"

definition RFT_HOST_ADDR_LO_REG :: u32 where
  "RFT_HOST_ADDR_LO_REG = 0x50304"

definition RFT_BUF_BOTTOM_LO_REG :: u32 where
  "RFT_BUF_BOTTOM_LO_REG = 0x5030C"

definition RFT_LIMIT_PTR_LO_REG :: u32 where
  "RFT_LIMIT_PTR_LO_REG = 0x50314"

definition RFT_RECORD_PTR_LO_REG :: u32 where
  "RFT_RECORD_PTR_LO_REG = 0x50320"

definition DMA_CTL_REG :: u32 where
  "DMA_CTL_REG = 0x80000"

definition HOST_ADDR_LO_REG :: u32 where
  "HOST_ADDR_LO_REG = 0x80004"

definition BUF_BOTTOM_LO_REG :: u32 where
  "BUF_BOTTOM_LO_REG = 0x8000C"

definition LIMIT_PTR_LO_REG :: u32 where
  "LIMIT_PTR_LO_REG = 0x80014"

definition RECORD_PTR_LO_REG :: u32 where
  "RECORD_PTR_LO_REG = 0x80020"

definition DROP_CNT_REG :: u32 where
  "DROP_CNT_REG = 0x80028"

definition TX_DMA_CTL_REG :: u32 where
  "TX_DMA_CTL_REG = 0x80200"

definition TX_HOST_ADDR_LO_REG :: u32 where
  "TX_HOST_ADDR_LO_REG = 0x80204"

definition TX_BUF_BOTTOM_LO_REG :: u32 where
  "TX_BUF_BOTTOM_LO_REG = 0x8020C"

definition TX_LIMIT_PTR_LO_REG :: u32 where
  "TX_LIMIT_PTR_LO_REG = 0x80214"

definition TX_RECORD_PTR_LO_REG :: u32 where
  "TX_RECORD_PTR_LO_REG = 0x8021C"

definition PORT0_TX_BYTE_LOW :: u32 where
  "PORT0_TX_BYTE_LOW = 0x60280"

definition PORT0_TX_BYTE_HIGH :: u32 where
  "PORT0_TX_BYTE_HIGH = 0x60284"

definition PORT0_RX_BYTE_LOW :: u32 where
  "PORT0_RX_BYTE_LOW = 0x60288"

definition PORT0_RX_BYTE_HIGH :: u32 where
  "PORT0_RX_BYTE_HIGH = 0x6028C"

definition PORT0_TX_FRAME_LOW :: u32 where
  "PORT0_TX_FRAME_LOW = 0x60290"

definition PORT0_TX_FRAME_HIGH :: u32 where
  "PORT0_TX_FRAME_HIGH = 0x60294"

definition PORT0_RX_FRAME_LOW :: u32 where
  "PORT0_RX_FRAME_LOW = 0x60298"

definition PORT0_RX_FRAME_HIGH :: u32 where
  "PORT0_RX_FRAME_HIGH = 0x6029C"

definition PORT_OFFSET_60 :: u32 where
  "PORT_OFFSET_60 = 0x60"

lemmas reg_addr_defs =
  MAC0_DATA_def MAC1_DATA_def MAC0_ADDR_def MAC1_ADDR_def I2C_BASEADDR_def MDIO_BASE_ADDR_def
  FLASH_DATA_def FLASH_ADDR_def BYPASS_EN_AND_CAP_START_def TIMER_INTERVAL_ADDR_def
  BYPASS_CRL_def BYPASS_THRESHOLD_def

lemmas stream_reg_defs =
  STREAM_REG_DIFF_0x40_def RFT_DMA_CTL_REG_def RFT_HOST_ADDR_LO_REG_def
  RFT_BUF_BOTTOM_LO_REG_def RFT_LIMIT_PTR_LO_REG_def RFT_RECORD_PTR_LO_REG_def
  DMA_CTL_REG_def HOST_ADDR_LO_REG_def BUF_BOTTOM_LO_REG_def LIMIT_PTR_LO_REG_def
  RECORD_PTR_LO_REG_def DROP_CNT_REG_def TX_DMA_CTL_REG_def TX_HOST_ADDR_LO_REG_def
  TX_BUF_BOTTOM_LO_REG_def TX_LIMIT_PTR_LO_REG_def TX_RECORD_PTR_LO_REG_def

lemmas port_reg_defs =
  PORT0_TX_BYTE_LOW_def PORT0_TX_BYTE_HIGH_def PORT0_RX_BYTE_LOW_def PORT0_RX_BYTE_HIGH_def
  PORT0_TX_FRAME_LOW_def PORT0_TX_FRAME_HIGH_def PORT0_RX_FRAME_LOW_def PORT0_RX_FRAME_HIGH_def
  PORT_OFFSET_60_def

section \<open>Bit fields\<close>

text \<open>
  A C union of a bit-field struct and an integer is the integer, with a reader and a writer
  for the field of width \<open>w\<close> that starts at bit \<open>lo\<close> (little-endian layout: the branch of
  the headers without NAC_BIG_ENDIAN, which no build file defines).
\<close>

definition bf_get :: "nat \<Rightarrow> nat \<Rightarrow> 'a::len word \<Rightarrow> 'a word" where
  "bf_get lo w v = drop_bit lo v AND mask w"

definition bf_put :: "nat \<Rightarrow> nat \<Rightarrow> 'a::len word \<Rightarrow> 'a word \<Rightarrow> 'a word" where
  "bf_put lo w x v = (v AND NOT (push_bit lo (mask w))) OR push_bit lo (x AND mask w)"

lemma bit_bf_get: "bit (bf_get lo w v) n \<longleftrightarrow> n < w \<and> bit v (lo + n)"
  by (auto simp: bf_get_def bit_simps dest: bit_imp_le_length)

lemma bit_bf_put:
  "bit (bf_put lo w x (v :: 'a::len word)) n \<longleftrightarrow>
     n < LENGTH('a) \<and> (if lo \<le> n \<and> n < lo + w then bit x (n - lo) else bit v n)"
  by (auto simp: bf_put_def bit_simps dest: bit_imp_le_length)

lemma bf_get_put:
  "lo + w \<le> LENGTH('a) \<Longrightarrow> bf_get lo w (bf_put lo w x (v :: 'a::len word)) = x AND mask w"
  by (rule bit_eqI) (auto simp: bit_bf_get bit_bf_put bit_simps)

lemma bf_get_put_other:
  "lo' + w' \<le> lo \<or> lo + w \<le> lo' \<Longrightarrow>
   bf_get lo' w' (bf_put lo w x (v :: 'a::len word)) = bf_get lo' w' v"
  by (rule bit_eqI) (auto simp: bit_bf_get bit_bf_put dest: bit_imp_le_length)

lemma word_clear_set: "((v :: 'a::len word) AND NOT c) OR c = v OR c"
  by (rule bit_word_eqI) (auto simp: bit_or_iff bit_and_iff bit_not_iff)

text \<open>\<open>dma_ctl_reg_t\<close>: burst_ready, addr_load, status_clear, dma_pause_n in bits 0 to 3.\<close>

type_synonym dma_ctl_reg_t = u32

definition set_addr_load :: "u32 \<Rightarrow> dma_ctl_reg_t \<Rightarrow> dma_ctl_reg_t" where
  "set_addr_load b v = bf_put 1 1 b v"

definition set_status_clear :: "u32 \<Rightarrow> dma_ctl_reg_t \<Rightarrow> dma_ctl_reg_t" where
  "set_status_clear b v = bf_put 2 1 b v"

definition set_dma_pause_n :: "u32 \<Rightarrow> dma_ctl_reg_t \<Rightarrow> dma_ctl_reg_t" where
  "set_dma_pause_n b v = bf_put 3 1 b v"

lemmas dma_ctl_defs = set_addr_load_def set_status_clear_def set_dma_pause_n_def

lemma dma_ctl_values:
  "set_dma_pause_n 1 0 = 8" "set_dma_pause_n 0 0 = 0" "set_addr_load 1 0 = 2"
  "set_status_clear 1 2 = 6" "set_dma_pause_n 0 6 = 6" "set_status_clear 1 0 = 4"
  by (simp_all add: dma_ctl_defs bf_put_def mask_eq_exp_minus_1)

lemma set_dma_pause_n_0: "set_dma_pause_n 0 v = v AND NOT 8"
  by (simp add: set_dma_pause_n_def bf_put_def mask_eq_exp_minus_1)

lemma set_dma_pause_n_1: "set_dma_pause_n 1 v = v OR 8"
proof -
  have "set_dma_pause_n 1 v = (v AND NOT 8) OR 8"
    by (simp add: set_dma_pause_n_def bf_put_def mask_eq_exp_minus_1)
  also have "\<dots> = v OR 8"
    by (rule word_clear_set)
  finally show ?thesis .
qed

lemma clear_set_8: "((v :: u32) AND - 9) OR 8 = v OR 8"
  using word_clear_set [of v 8] by simp

lemma set_dma_pause_twice: "set_dma_pause_n 1 (set_dma_pause_n 0 v) = v OR 8"
  unfolding set_dma_pause_n_0 set_dma_pause_n_1 by (rule word_clear_set)

text \<open>\<open>status_reg_t\<close>: the bits sr0 to sr15 of the flash status word.\<close>

definition SR_bit :: "nat \<Rightarrow> u16 \<Rightarrow> bool" where
  "SR_bit i v = bit v i"

end
