(* ===== verification/Machine.thy ===== *)
theory Machine
  imports Nactypes
begin

text \<open>
  The state the user-space library works on: the herd of open cards (nactypes.h), errno, the
  process's memory and its mappings, and the history of everything the process did to the
  outside world. The outside world (the FPGA behind the register window, the kernel's mmap
  and open, malloc, the clock) is an environment: what it answers may depend on the whole
  history, so a register can change between two reads of it.
\<close>

section \<open>Data structures\<close>

datatype errno_t = ENONE | EBADF | EINVAL | EBUSY | EAGAIN | ENOTTY | ENODEV | EIO | ENFILE
  | ESYS \<comment> \<open>set by a failing system call\<close>

text \<open>\<open>struct timeval\<close> and \<open>struct timespec\<close>: seconds, and microseconds or nanoseconds.\<close>

type_synonym timeval = "int \<times> int"
type_synonym timespec = "int \<times> int"

text \<open>
  \<open>nacpbm_stream_t\<close>: the register offsets of a stream's DMA engine. \<open>malloc\<close> leaves the
  fields unset; only \<open>drop_cnt\<close> is ever left so (\<open>None\<close>).
\<close>

record nacpbm_stream_t =
  dma_buf_start :: u32
  dma_buf_end :: u32
  record_ptr :: u32
  limit_ptr :: u32
  drop_cnt :: "u32 option"
  dma_ctl_reg :: u32

text \<open>
  The pointer \<open>stream->pbm\<close>. No two streams ever share a block, so the pointer carries its
  block: null, allocated, or dangling after \<open>free\<close>.
\<close>

datatype pbm_ptr = PNull | PTo nacpbm_stream_t | PFreed

record stream_t =
  buf :: u64
  stream_size :: u32
  offset :: u32
  processed :: u32
  pbm :: pbm_ptr
  phyaddr :: u32
  mindata :: u32
  maxwait :: timeval
  poll :: timespec
  extra_window_size :: u32
  free_space :: i32
  last_bus_top :: u32
  last_bus_bottom :: u32
  is_first_time :: bool
  attached :: bool
  started :: bool

record nacinf_t =
  nac_id :: u32
  phy_addr :: u32
  buf_size :: u32
  iom_size :: u32
  device_code :: u16

record sheep_t =
  nacname :: string
  naciom :: int
  stream :: "int \<Rightarrow> stream_t" \<comment> \<open>indices 0 to NAC_STREAM_MAX - 1\<close>
  iom :: u64
  nacinf :: nacinf_t
  opened :: bool
  msu_config :: bool
  num_stream :: u32

definition NAC_STREAM_MAX :: int where
  "NAC_STREAM_MAX = 32"

definition NUM_STREAM :: int where
  "NUM_STREAM = 8"

text \<open>What \<open>memset(\<dots>, 0, sizeof \<dots>)\<close> leaves.\<close>

definition zero_stream :: stream_t where
  "zero_stream = \<lparr>buf = 0, stream_size = 0, offset = 0, processed = 0, pbm = PNull,
     phyaddr = 0, mindata = 0, maxwait = (0, 0), poll = (0, 0), extra_window_size = 0,
     free_space = 0, last_bus_top = 0, last_bus_bottom = 0, is_first_time = False,
     attached = False, started = False\<rparr>"

definition zero_sheep :: sheep_t where
  "zero_sheep = \<lparr>nacname = [], naciom = 0, stream = (\<lambda>_. zero_stream), iom = 0,
     nacinf = \<lparr>nac_id = 0, phy_addr = 0, buf_size = 0, iom_size = 0, device_code = 0\<rparr>,
     opened = False, msu_config = False, num_stream = 0\<rparr>"

section \<open>Events, environment, state\<close>

text \<open>One event per interaction with the outside world, with the answer it got.\<close>

datatype event =
    RegRd int u32 u32 \<comment> \<open>card, register offset, value read\<close>
  | RegWr int u32 u32 \<comment> \<open>card, register offset, value written\<close>
  | Delay nat \<comment> \<open>sleep, usleep, nanosleep: microseconds\<close>
  | Clock timeval
  | Alloc bool
  | MMap int u64 u64 u64 "u64 option" \<comment> \<open>fd, requested address, length, file offset, answer\<close>
  | MUnmap u64 u64
  | SysOpen string "int option"
  | SysClose int
  | SysIoctl int "nacinf_t option"
  | SemOp int int int bool \<comment> \<open>\<open>sem_op\<close> and \<open>sem_flg\<close> of one \<open>semop\<close>\<close>
  | SemCtl int "int option" "int option" \<comment> \<open>SETVAL with a value or GETVAL, and the answer\<close>

type_synonym history = "event list"

record env =
  dev :: "history \<Rightarrow> int \<Rightarrow> u32 \<Rightarrow> u32"
  malloc_ok :: "history \<Rightarrow> bool"
  mmap_at :: "history \<Rightarrow> u64 option"
  clock_at :: "history \<Rightarrow> timeval"
  open_at :: "history \<Rightarrow> string \<Rightarrow> int option"
  close_at :: "history \<Rightarrow> int \<Rightarrow> int"
  ioctl_at :: "history \<Rightarrow> int \<Rightarrow> nacinf_t option"
  open_max :: int
  dma :: "history \<Rightarrow> (int \<times> u64) \<Rightarrow> u8 \<Rightarrow> u8"
  semop_at :: "history \<Rightarrow> int \<Rightarrow> int \<Rightarrow> int \<Rightarrow> bool option"
  semctl_at :: "history \<Rightarrow> int \<Rightarrow> int option \<Rightarrow> int option"

text \<open>
  A byte of memory is private to the process or lies in the physical buffer of a card (its
  \<open>memory hole\<close>) at an offset; two virtual addresses may name the same byte of a hole. A byte
  of the hole is read through \<open>dma\<close>, which says what the card made of the byte the process
  last wrote there. An unmapped byte may be neither read nor written.
\<close>

datatype cell = Priv u64 | Hole int u64 | Unmapped

record mach =
  herd :: "int \<Rightarrow> sheep_t option" \<comment> \<open>empty while the global pointer is null\<close>
  errno :: errno_t
  vmap :: "u64 \<Rightarrow> cell"
  ram :: "cell \<Rightarrow> u8"
  trace :: history

type_synonym 'a nac = "(mach, 'a) prog"

section \<open>Access to the herd\<close>

definition get_sheep :: "int \<Rightarrow> sheep_t nac" where
  "get_sheep fd = (\<lambda>s. case herd s fd of None \<Rightarrow> Some (Fault, s) | Some h \<Rightarrow> Some (Ok h, s))"

definition put_sheep :: "int \<Rightarrow> (sheep_t \<Rightarrow> sheep_t) \<Rightarrow> unit nac" where
  "put_sheep fd f = (\<lambda>s. case herd s fd of
       None \<Rightarrow> Some (Fault, s)
     | Some h \<Rightarrow> Some (Ok (), s\<lparr>herd := (herd s)(fd \<mapsto> f h)\<rparr>))"

definition get_stream :: "int \<Rightarrow> int \<Rightarrow> stream_t nac" where
  "get_stream fd n = (\<lambda>s. case herd s fd of
       None \<Rightarrow> Some (Fault, s)
     | Some h \<Rightarrow> if 0 \<le> n \<and> n < NAC_STREAM_MAX then Some (Ok (stream h n), s)
         else Some (Fault, s))"

definition put_stream :: "int \<Rightarrow> int \<Rightarrow> (stream_t \<Rightarrow> stream_t) \<Rightarrow> unit nac" where
  "put_stream fd n f = (\<lambda>s. case herd s fd of
       None \<Rightarrow> Some (Fault, s)
     | Some h \<Rightarrow> if 0 \<le> n \<and> n < NAC_STREAM_MAX
         then Some (Ok (), s\<lparr>herd := (herd s)(fd \<mapsto>
                h\<lparr>stream := (stream h)(n := f (stream h n))\<rparr>)\<rparr>)
         else Some (Fault, s))"

text \<open>Following \<open>stream->pbm\<close>.\<close>

definition deref_pbm :: "pbm_ptr \<Rightarrow> nacpbm_stream_t nac" where
  "deref_pbm p = (case p of PNull \<Rightarrow> fault | PTo b \<Rightarrow> ret b | PFreed \<Rightarrow> fault)"

definition get_pbm :: "int \<Rightarrow> int \<Rightarrow> nacpbm_stream_t nac" where
  "get_pbm fd n = bnd (get_stream fd n) (\<lambda>st. deref_pbm (pbm st))"

definition set_errno :: "errno_t \<Rightarrow> unit nac" where
  "set_errno e = modify (\<lambda>s. s\<lparr>errno := e\<rparr>)"

text \<open>\<open>errno = e; return r;\<close>\<close>

definition fail_with :: "errno_t \<Rightarrow> 'a \<Rightarrow> 'a nac" where
  "fail_with e r = bnd (set_errno e) (\<lambda>_. ret r)"

definition log_event :: "event \<Rightarrow> unit nac" where
  "log_event e = modify (\<lambda>s. s\<lparr>trace := trace s @ [e]\<rparr>)"

section \<open>Registers\<close>

text \<open>\<open>reg_read\<close> and \<open>reg_write\<close> of nacapi.c go through the mapping \<open>herd[nacfd].iom\<close>.\<close>

definition reg_read :: "env \<Rightarrow> int \<Rightarrow> u32 \<Rightarrow> u32 nac" where
  "reg_read E fd a = bnd (get_sheep fd) (\<lambda>h.
     if iom h = 0 then fault
     else bnd (read_st (\<lambda>s. dev E (trace s) fd a)) (\<lambda>v.
          bnd (log_event (RegRd fd a v)) (\<lambda>_. ret v)))"

definition reg_write :: "int \<Rightarrow> u32 \<Rightarrow> u32 \<Rightarrow> unit nac" where
  "reg_write fd a v = bnd (get_sheep fd) (\<lambda>h.
     if iom h = 0 then fault else log_event (RegWr fd a v))"

definition usleep :: "nat \<Rightarrow> unit nac" where
  "usleep us = log_event (Delay us)"

definition malloc :: "env \<Rightarrow> bool nac" where
  "malloc E = bnd (read_st (\<lambda>s. malloc_ok E (trace s))) (\<lambda>b.
     bnd (log_event (Alloc b)) (\<lambda>_. ret b))"

definition gettimeofday :: "env \<Rightarrow> timeval nac" where
  "gettimeofday E = bnd (read_st (\<lambda>s. clock_at E (trace s))) (\<lambda>t.
     bnd (log_event (Clock t)) (\<lambda>_. ret t))"

text \<open>A register read whose value is only printed.\<close>

definition show_reg :: "env \<Rightarrow> int \<Rightarrow> u32 \<Rightarrow> unit nac" where
  "show_reg E fd a = bnd (reg_read E fd a) (\<lambda>_. ret ())"

section \<open>Memory\<close>

definition read_byte :: "env \<Rightarrow> u64 \<Rightarrow> u8 nac" where
  "read_byte E a = (\<lambda>s. case vmap s a of
       Priv p \<Rightarrow> Some (Ok (ram s (Priv p)), s)
     | Hole fd off \<Rightarrow> Some (Ok (dma E (trace s) (fd, off) (ram s (Hole fd off))), s)
     | Unmapped \<Rightarrow> Some (Fault, s))"

definition write_byte :: "u64 \<Rightarrow> u8 \<Rightarrow> unit nac" where
  "write_byte a b = (\<lambda>s. if vmap s a = Unmapped then Some (Fault, s)
     else Some (Ok (), s\<lparr>ram := (ram s)(vmap s a := b)\<rparr>))"

text \<open>\<open>memcpy(dst, src, n)\<close>, byte by byte from the front.\<close>

fun memcpy :: "env \<Rightarrow> u64 \<Rightarrow> u64 \<Rightarrow> nat \<Rightarrow> unit nac" where
  "memcpy E dst src 0 = ret ()"
| "memcpy E dst src (Suc n) = bnd (read_byte E src) (\<lambda>b.
     bnd (write_byte dst b) (\<lambda>_. memcpy E (dst + 1) (src + 1) n))"

text \<open>The bytes \<open>a, \<dots>, a + len - 1\<close> now name the cells \<open>f 0, \<dots>, f (len - 1)\<close>.\<close>

definition map_range :: "u64 \<Rightarrow> u64 \<Rightarrow> (u64 \<Rightarrow> cell) \<Rightarrow> (u64 \<Rightarrow> cell) \<Rightarrow> u64 \<Rightarrow> cell" where
  "map_range a len f vm = (\<lambda>x. if x - a < len then f (x - a) else vm x)"

text \<open>
  \<open>mmap\<close>: \<open>None\<close> is \<open>MAP_FAILED\<close>. Anonymous memory (no descriptor) is private and zero;
  a mapping of a card shows its memory hole from the file offset on.
\<close>

definition mmap :: "env \<Rightarrow> int \<Rightarrow> u64 \<Rightarrow> u64 \<Rightarrow> u64 \<Rightarrow> u64 option nac" where
  "mmap E fd addr len off = bnd (read_st (\<lambda>s. mmap_at E (trace s))) (\<lambda>r.
     bnd (log_event (MMap fd addr len off r)) (\<lambda>_.
     case r of None \<Rightarrow> fail_with ESYS None
     | Some a \<Rightarrow> bnd (modify (\<lambda>s. if fd = - 1
           then s\<lparr>vmap := map_range a len (\<lambda>i. Priv (a + i)) (vmap s),
                  ram := (\<lambda>c. case c of Priv x \<Rightarrow> if x - a < len then 0 else ram s c
                            | Hole _ _ \<Rightarrow> ram s c | Unmapped \<Rightarrow> ram s c)\<rparr>
           else s\<lparr>vmap := map_range a len (\<lambda>i. Hole fd (off + i)) (vmap s)\<rparr>))
         (\<lambda>_. ret (Some a))))"

definition munmap :: "u64 \<Rightarrow> u64 \<Rightarrow> unit nac" where
  "munmap a len = bnd (log_event (MUnmap a len)) (\<lambda>_.
     modify (\<lambda>s. s\<lparr>vmap := map_range a len (\<lambda>_. Unmapped) (vmap s)\<rparr>))"

section \<open>Symbolic execution\<close>

text \<open>A card is mapped when its entry of the herd exists and its register window is mapped.\<close>

definition mapped :: "int \<Rightarrow> mach \<Rightarrow> bool" where
  "mapped fd s \<longleftrightarrow> (case herd s fd of None \<Rightarrow> False | Some h \<Rightarrow> iom h \<noteq> 0)"

lemma mappedI [intro]: "herd s fd = Some h \<Longrightarrow> iom h \<noteq> 0 \<Longrightarrow> mapped fd s"
  by (simp add: mapped_def)

lemma mappedE:
  assumes "mapped fd s"
  obtains h where "herd s fd = Some h" and "iom h \<noteq> 0"
  using assms by (auto simp: mapped_def split: option.splits)

lemma mapped_simps [simp]:
  "mapped fd (s\<lparr>trace := t\<rparr>) = mapped fd s"
  "mapped fd (s\<lparr>errno := e\<rparr>) = mapped fd s"
  "mapped fd (s\<lparr>ram := m\<rparr>) = mapped fd s"
  "mapped fd (s\<lparr>vmap := p\<rparr>) = mapped fd s"
  by (simp_all add: mapped_def)

lemma get_sheep_run [simp]: "herd s fd = Some h \<Longrightarrow> get_sheep fd s = Some (Ok h, s)"
  by (simp add: get_sheep_def)

lemma get_sheep_null [simp]: "herd s fd = None \<Longrightarrow> get_sheep fd s = Some (Fault, s)"
  by (simp add: get_sheep_def)

lemma put_sheep_run [simp]:
  "herd s fd = Some h \<Longrightarrow> put_sheep fd f s = Some (Ok (), s\<lparr>herd := (herd s)(fd \<mapsto> f h)\<rparr>)"
  by (simp add: put_sheep_def)

lemma get_stream_run [simp]:
  "herd s fd = Some h \<Longrightarrow> 0 \<le> n \<Longrightarrow> n < NAC_STREAM_MAX \<Longrightarrow>
   get_stream fd n s = Some (Ok (stream h n), s)"
  by (simp add: get_stream_def)

lemma get_stream_out [simp]:
  "n < 0 \<or> NAC_STREAM_MAX \<le> n \<Longrightarrow> get_stream fd n s = Some (Fault, s)"
  by (auto simp: get_stream_def split: option.splits)

lemma put_stream_run [simp]:
  "herd s fd = Some h \<Longrightarrow> 0 \<le> n \<Longrightarrow> n < NAC_STREAM_MAX \<Longrightarrow>
   put_stream fd n f s = Some (Ok (), s\<lparr>herd := (herd s)(fd \<mapsto>
     h\<lparr>stream := (stream h)(n := f (stream h n))\<rparr>)\<rparr>)"
  by (simp add: put_stream_def)

lemma deref_pbm_simps [simp]:
  "deref_pbm PNull = fault" "deref_pbm PFreed = fault" "deref_pbm (PTo b) = ret b"
  by (simp_all add: deref_pbm_def)

lemma get_pbm_run [simp]:
  "herd s fd = Some h \<Longrightarrow> 0 \<le> n \<Longrightarrow> n < NAC_STREAM_MAX \<Longrightarrow>
   get_pbm fd n s = deref_pbm (pbm (stream h n)) s"
  by (simp add: get_pbm_def)

lemma set_errno_run [simp]: "set_errno e s = Some (Ok (), s\<lparr>errno := e\<rparr>)"
  by (simp add: set_errno_def)

lemma fail_with_run [simp]: "fail_with e r s = Some (Ok r, s\<lparr>errno := e\<rparr>)"
  by (simp add: fail_with_def)

lemma log_event_run [simp]: "log_event e s = Some (Ok (), s\<lparr>trace := trace s @ [e]\<rparr>)"
  by (simp add: log_event_def)

lemma usleep_run [simp]: "usleep n s = Some (Ok (), s\<lparr>trace := trace s @ [Delay n]\<rparr>)"
  by (simp add: usleep_def)

lemma malloc_run [simp]:
  "malloc E s = Some (Ok (malloc_ok E (trace s)),
     s\<lparr>trace := trace s @ [Alloc (malloc_ok E (trace s))]\<rparr>)"
  by (simp add: malloc_def bnd_def)

lemma gettimeofday_run [simp]:
  "gettimeofday E s = Some (Ok (clock_at E (trace s)),
     s\<lparr>trace := trace s @ [Clock (clock_at E (trace s))]\<rparr>)"
  by (simp add: gettimeofday_def bnd_def)

lemma reg_read_run [simp]:
  "herd s fd = Some h \<Longrightarrow> iom h \<noteq> 0 \<Longrightarrow>
   reg_read E fd a s = Some (Ok (dev E (trace s) fd a),
     s\<lparr>trace := trace s @ [RegRd fd a (dev E (trace s) fd a)]\<rparr>)"
  by (simp add: reg_read_def bnd_def)

lemma reg_write_run [simp]:
  "herd s fd = Some h \<Longrightarrow> iom h \<noteq> 0 \<Longrightarrow>
   reg_write fd a v s = Some (Ok (), s\<lparr>trace := trace s @ [RegWr fd a v]\<rparr>)"
  by (simp add: reg_write_def)

lemma reg_read_mapped:
  "mapped fd s \<Longrightarrow> reg_read E fd a s = Some (Ok (dev E (trace s) fd a),
     s\<lparr>trace := trace s @ [RegRd fd a (dev E (trace s) fd a)]\<rparr>)"
  by (elim mappedE) simp

lemma reg_write_mapped:
  "mapped fd s \<Longrightarrow> reg_write fd a v s = Some (Ok (), s\<lparr>trace := trace s @ [RegWr fd a v]\<rparr>)"
  by (elim mappedE) simp

lemma reg_unmapped [simp]:
  "\<not> mapped fd s \<Longrightarrow> reg_read E fd a s = Some (Fault, s)"
  "\<not> mapped fd s \<Longrightarrow> reg_write fd a v s = Some (Fault, s)"
  by (auto simp: reg_read_def reg_write_def mapped_def bnd_def get_sheep_def split: option.splits)

lemma show_reg_mapped:
  "mapped fd s \<Longrightarrow> show_reg E fd a s = Some (Ok (),
     s\<lparr>trace := trace s @ [RegRd fd a (dev E (trace s) fd a)]\<rparr>)"
  by (simp add: show_reg_def reg_read_mapped)

lemmas mapped_runs = reg_read_mapped reg_write_mapped show_reg_mapped

lemma mmap_hole_run:
  "fd \<noteq> - 1 \<Longrightarrow> mmap_at E (trace s) = Some a \<Longrightarrow>
   mmap E fd addr len off s = Some (Ok (Some a), s\<lparr>trace := trace s @ [MMap fd addr len off (Some a)],
     vmap := map_range a len (\<lambda>i. Hole fd (off + i)) (vmap s)\<rparr>)"
  by (simp add: mmap_def)

lemma mmap_fails:
  "mmap_at E (trace s) = None \<Longrightarrow> mmap E fd addr len off s =
     Some (Ok None, s\<lparr>trace := trace s @ [MMap fd addr len off None], errno := ESYS\<rparr>)"
  by (simp add: mmap_def)

lemma munmap_run [simp]:
  "munmap a len s = Some (Ok (), s\<lparr>trace := trace s @ [MUnmap a len],
     vmap := map_range a len (\<lambda>_. Unmapped) (vmap s)\<rparr>)"
  by (simp add: munmap_def)

text \<open>What it takes for the first statement of a sequence to let the rest run to a result.\<close>

lemma bnd_get_sheep_Ok:
  "bnd (get_sheep fd) f s = Some (Ok r, t) \<longleftrightarrow>
     (\<exists>h. herd s fd = Some h \<and> f h s = Some (Ok r, t))"
  by (auto simp: bnd_def get_sheep_def split: option.splits)

lemma bnd_get_stream_Ok:
  "bnd (get_stream fd n) f s = Some (Ok r, t) \<longleftrightarrow>
     (\<exists>h. herd s fd = Some h \<and> 0 \<le> n \<and> n < NAC_STREAM_MAX \<and> f (stream h n) s = Some (Ok r, t))"
  by (auto simp: bnd_def get_stream_def split: option.splits)

lemma bnd_deref_pbm_Ok:
  "bnd (deref_pbm p) f s = Some (Ok r, t) \<longleftrightarrow> (\<exists>b. p = PTo b \<and> f b s = Some (Ok r, t))"
  by (cases p) (auto simp: bnd_def)

lemma bnd_get_pbm_Ok:
  "bnd (get_pbm fd n) f s = Some (Ok r, t) \<longleftrightarrow>
     (\<exists>h b. herd s fd = Some h \<and> 0 \<le> n \<and> n < NAC_STREAM_MAX \<and> pbm (stream h n) = PTo b \<and>
        f b s = Some (Ok r, t))"
  by (auto simp: get_pbm_def bnd_assoc bnd_get_stream_Ok bnd_deref_pbm_Ok)

lemma bnd_put_stream_Ok:
  "bnd (put_stream fd n g) f s = Some (Ok r, t) \<longleftrightarrow>
     (\<exists>h. herd s fd = Some h \<and> 0 \<le> n \<and> n < NAC_STREAM_MAX \<and>
        f () (s\<lparr>herd := (herd s)(fd \<mapsto> h\<lparr>stream := (stream h)(n := g (stream h n))\<rparr>)\<rparr>) =
          Some (Ok r, t))"
  by (auto simp: bnd_def put_stream_def split: option.splits)

lemma bnd_reg_read_Ok:
  "bnd (reg_read E fd a) f s = Some (Ok r, t) \<longleftrightarrow> mapped fd s \<and>
     f (dev E (trace s) fd a) (s\<lparr>trace := trace s @ [RegRd fd a (dev E (trace s) fd a)]\<rparr>) =
       Some (Ok r, t)"
  by (cases "mapped fd s") (simp_all add: reg_read_mapped)

lemma bnd_reg_write_Ok:
  "bnd (reg_write fd a v) f s = Some (Ok r, t) \<longleftrightarrow> mapped fd s \<and>
     f () (s\<lparr>trace := trace s @ [RegWr fd a v]\<rparr>) = Some (Ok r, t)"
  by (cases "mapped fd s") (simp_all add: reg_write_mapped)

lemma bnd_show_reg_Ok:
  "bnd (show_reg E fd a) f s = Some (Ok r, t) \<longleftrightarrow> mapped fd s \<and>
     f () (s\<lparr>trace := trace s @ [RegRd fd a (dev E (trace s) fd a)]\<rparr>) = Some (Ok r, t)"
  by (cases "mapped fd s") (simp_all add: show_reg_def reg_read_mapped)

lemmas run_iffs = bnd_get_sheep_Ok bnd_get_stream_Ok bnd_deref_pbm_Ok bnd_get_pbm_Ok
  bnd_put_stream_Ok bnd_reg_read_Ok bnd_reg_write_Ok bnd_show_reg_Ok bnd_assoc

section \<open>Histories\<close>

text \<open>The register writes of one card, in order.\<close>

fun reg_writes :: "int \<Rightarrow> history \<Rightarrow> (u32 \<times> u32) list" where
  "reg_writes fd [] = []"
| "reg_writes fd (RegWr f a v # es) =
     (if f = fd then (a, v) # reg_writes fd es else reg_writes fd es)"
| "reg_writes fd (e # es) = reg_writes fd es"

lemma reg_writes_append [simp]: "reg_writes fd (xs @ ys) = reg_writes fd xs @ reg_writes fd ys"
  by (induction fd xs rule: reg_writes.induct) auto

text \<open>What a register holds after a list of writes, as far as they determine it.\<close>

definition last_write :: "u32 \<Rightarrow> (u32 \<times> u32) list \<Rightarrow> u32 option" where
  "last_write a ws = map_of (rev ws) a"

lemma last_write_unique:
  assumes "(a, v) \<in> set ws" and "\<And>w. (a, w) \<in> set ws \<Longrightarrow> w = v"
  shows "last_write a ws = Some v"
proof (cases "map_of (rev ws) a")
  case None
  then show ?thesis using assms(1) by (auto simp: map_of_eq_None_iff image_iff)
next
  case (Some w)
  then have "(a, w) \<in> set ws" using map_of_SomeD by fastforce
  with assms(2) Some show ?thesis by (auto simp: last_write_def)
qed

text \<open>
  From \<open>s\<close> to \<open>t\<close> the entry of the card became \<open>h\<close>, the registers of the card were
  written as in \<open>ws\<close>, and neither errno nor the memory changed.
\<close>

definition effect :: "int \<Rightarrow> sheep_t \<Rightarrow> (u32 \<times> u32) list \<Rightarrow> mach \<Rightarrow> mach \<Rightarrow> bool" where
  "effect fd h ws s t \<longleftrightarrow> herd t = (herd s)(fd \<mapsto> h) \<and> errno t = errno s \<and> vmap t = vmap s \<and>
     ram t = ram s \<and> reg_writes fd (trace t) = reg_writes fd (trace s) @ ws"

lemma effect_refl: "herd s fd = Some h \<Longrightarrow> effect fd h [] s s"
  by (simp add: effect_def fun_upd_idem)

lemma effect_trans:
  "effect fd h1 w1 s t \<Longrightarrow> effect fd h2 w2 t u \<Longrightarrow> effect fd h2 (w1 @ w2) s u"
  by (simp add: effect_def)

text \<open>Only reads, waits and the clock lie between \<open>s\<close> and \<open>t\<close>.\<close>

definition quiet :: "int \<Rightarrow> mach \<Rightarrow> mach \<Rightarrow> bool" where
  "quiet fd s t \<longleftrightarrow> herd t = herd s \<and> errno t = errno s \<and> vmap t = vmap s \<and> ram t = ram s \<and>
     reg_writes fd (trace t) = reg_writes fd (trace s)"

lemma quiet_refl [simp]: "quiet fd s s"
  by (simp add: quiet_def)

lemma quiet_trans: "quiet fd s t \<Longrightarrow> quiet fd t u \<Longrightarrow> quiet fd s u"
  by (simp add: quiet_def)

lemma quiet_mapped: "quiet fd s t \<Longrightarrow> mapped fd t = mapped fd s"
  by (simp add: quiet_def mapped_def)

lemma effect_herd: "effect fd h ws s t \<Longrightarrow> herd t fd = Some h"
  by (simp add: effect_def)

text \<open>No program rewrites history.\<close>

definition appends :: "'a nac \<Rightarrow> bool" where
  "appends m \<longleftrightarrow> (\<forall>s r t. m s = Some (r, t) \<longrightarrow> (\<exists>evs. trace t = trace s @ evs))"

lemma appendsI [intro?]:
  "(\<And>s r t. m s = Some (r, t) \<Longrightarrow> \<exists>evs. trace t = trace s @ evs) \<Longrightarrow> appends m"
  by (auto simp: appends_def)

lemma appendsD: "appends m \<Longrightarrow> m s = Some (r, t) \<Longrightarrow> \<exists>evs. trace t = trace s @ evs"
  by (auto simp: appends_def)

lemma appends_bnd [appends_intros]:
  assumes "appends m" and "\<And>x. appends (f x)"
  shows "appends (bnd m f)"
proof
  fix s r t
  assume "bnd m f s = Some (r, t)"
  then show "\<exists>evs. trace t = trace s @ evs"
    by (cases rule: bnd_SomeE) (use assms in \<open>fastforce dest!: appendsD\<close>)+
qed

lemma appends_basic [appends_intros]:
  "appends (ret x)" "appends fault" "appends (exit_with n)" "appends (read_st g)"
  "appends (get_sheep fd)" "appends (put_sheep fd u)" "appends (get_stream fd n)"
  "appends (put_stream fd n w)" "appends (deref_pbm p)" "appends (set_errno e)"
  "appends (log_event ev)"
  by (auto simp: appends_def get_sheep_def put_sheep_def get_stream_def put_stream_def
      deref_pbm_def split: option.splits pbm_ptr.splits if_splits)

lemma appends_if [appends_intros]: "appends a \<Longrightarrow> appends b \<Longrightarrow> appends (if c then a else b)"
  by simp

lemma appends_for_each [appends_intros]:
  "(\<And>x. appends (f x)) \<Longrightarrow> appends (for_each xs f)"
  by (induction xs) (auto intro!: appends_intros)

lemma appends_iterate [appends_intros]:
  assumes "\<And>x. appends (body x)"
  shows "appends (iterate body x)"
proof
  fix s r t
  assume "iterate body x s = Some (r, t)"
  then have "(\<lambda>(r, t). \<exists>evs. trace t = trace s @ evs) (r, t)"
    by (rule iterate_invariant [where I = "\<lambda>x t. \<exists>evs. trace t = trace s @ evs"])
      (use assms in \<open>fastforce dest!: appendsD\<close>)+
  then show "\<exists>evs. trace t = trace s @ evs" by simp
qed

lemma appends_ops [appends_intros]:
  "appends (get_pbm fd n)" "appends (fail_with e x)" "appends (reg_read E fd a)"
  "appends (reg_write fd a v)" "appends (usleep us)" "appends (malloc E)"
  "appends (gettimeofday E)"
  unfolding get_pbm_def fail_with_def reg_read_def reg_write_def usleep_def malloc_def
    gettimeofday_def
  by (intro appends_intros)+

section \<open>Read-modify-write on a port\<close>

text \<open>
  A port is a place the code reads a word from and writes a word to: a register of the card,
  or a register of a PHY reached through one. What its two operations promise is stated over
  the history: the value read, and the events each operation adds.
\<close>

locale rw_port =
  fixes rd :: "u32 nac"
    and wr :: "u32 \<Rightarrow> unit nac"
    and usable :: "mach \<Rightarrow> bool"
    and rd_val :: "history \<Rightarrow> u32"
    and rd_ev :: "history \<Rightarrow> event list"
    and wr_ev :: "u32 \<Rightarrow> event list"
  assumes rd_spec: "usable s \<Longrightarrow>
      rd s = Some (Ok (rd_val (trace s)), s\<lparr>trace := trace s @ rd_ev (trace s)\<rparr>)"
    and wr_spec: "usable s \<Longrightarrow> wr v s = Some (Ok (), s\<lparr>trace := trace s @ wr_ev v\<rparr>)"
    and usable_trace: "usable (s\<lparr>trace := h\<rparr>) = usable s"

text \<open>The pattern \<open>tmp = read(); tmp = f(tmp); write(tmp);\<close>\<close>

definition rmw :: "u32 nac \<Rightarrow> (u32 \<Rightarrow> unit nac) \<Rightarrow> (u32 \<Rightarrow> u32) \<Rightarrow> unit nac" where
  "rmw rd wr f = bnd rd (\<lambda>tmp. wr (f tmp))"

context rw_port
begin

lemma rmw_run:
  "usable s \<Longrightarrow> rmw rd wr f s = Some (Ok (),
     s\<lparr>trace := trace s @ rd_ev (trace s) @ wr_ev (f (rd_val (trace s)))\<rparr>)"
  by (simp add: rmw_def rd_spec wr_spec usable_trace)

lemma rmw_ret:
  "usable s \<Longrightarrow> bnd (rmw rd wr f) (\<lambda>_. ret r) s = Some (Ok r,
     s\<lparr>trace := trace s @ rd_ev (trace s) @ wr_ev (f (rd_val (trace s)))\<rparr>)"
  by (simp add: rmw_run)

end

interpretation reg: rw_port "reg_read E fd a" "reg_write fd a" "mapped fd"
    "\<lambda>h. dev E h fd a" "\<lambda>h. [RegRd fd a (dev E h fd a)]" "\<lambda>v. [RegWr fd a v]"
  for E fd a
  by unfold_locales (simp_all add: reg_read_mapped reg_write_mapped)

section \<open>A concrete card\<close>

text \<open>One open card with file descriptor 3, on which the hypotheses of the theorems hold.\<close>

definition demo_card :: sheep_t where
  "demo_card = zero_sheep\<lparr>iom := 0x7f0000000000, opened := True, num_stream := 8,
     nacinf := \<lparr>nac_id = 0, phy_addr = 0x20000000, buf_size = 0x8000000, iom_size = 0x100000,
       device_code = 0x7\<rparr>\<rparr>"

definition demo_mach :: mach where
  "demo_mach = \<lparr>herd = [3 \<mapsto> demo_card], errno = ENONE, vmap = Priv, ram = (\<lambda>_. 0), trace = []\<rparr>"

text \<open>An outside world whose registers read 0 and whose system calls all succeed.\<close>

definition demo_env :: env where
  "demo_env = \<lparr>dev = (\<lambda>_ _ _. 0), malloc_ok = (\<lambda>_. True), mmap_at = (\<lambda>_. Some 0x7f1000000000),
     clock_at = (\<lambda>h. (int (length h), 0)), open_at = (\<lambda>_ _. Some 3), close_at = (\<lambda>_ _. 0),
     ioctl_at = (\<lambda>_ _. Some (nacinf demo_card)), open_max = 1024, dma = (\<lambda>_ _ b. b),
     semop_at = (\<lambda>_ _ _ _. Some True), semctl_at = (\<lambda>_ _ _. Some 0)\<rparr>"

lemma demo_simps:
  "herd demo_mach 3 = Some demo_card" "trace demo_mach = []" "opened demo_card" "iom demo_card \<noteq> 0"
  "malloc_ok demo_env hist" "nacinf_t.buf_size (nacinf demo_card) = 0x8000000"
  "phy_addr (nacinf demo_card) = 0x20000000"
  by (simp_all add: demo_mach_def demo_card_def demo_env_def)

lemma demo_mapped: "mapped 3 demo_mach"
  by (simp add: mapped_def demo_mach_def demo_card_def)

end
