(* ===== verification/Board.thy ===== *)
theory Board
  imports Machine
begin

text \<open>
  The board-level registers of lib/nacapi.c: the capture control register, the bypass switch,
  the timer interval and the per-port byte and frame counters.
\<close>

section \<open>Capture control\<close>

definition capture_start :: "env \<Rightarrow> int \<Rightarrow> int nac" where
  "capture_start E nacfd =
     bnd (rmw (reg_read E nacfd BYPASS_EN_AND_CAP_START)
              (reg_write nacfd BYPASS_EN_AND_CAP_START)
              (\<lambda>tmp. tmp OR 0x1FF)) (\<lambda>_. ret 0)"

text \<open>A shift by a count outside 0 to 31 is undefined in C.\<close>

definition capture_start_stream :: "env \<Rightarrow> int \<Rightarrow> int \<Rightarrow> int nac" where
  "capture_start_stream E nacfd stream_num =
     (if stream_num + 1 < 0 \<or> 31 < stream_num + 1 then fault
      else bnd (rmw (reg_read E nacfd BYPASS_EN_AND_CAP_START)
                    (reg_write nacfd BYPASS_EN_AND_CAP_START)
                    (\<lambda>tmp. (tmp OR push_bit (nat (stream_num + 1)) 0x1) OR 0x1)) (\<lambda>_. ret 0))"

definition capture_stop_stream :: "env \<Rightarrow> int \<Rightarrow> int \<Rightarrow> int nac" where
  "capture_stop_stream E nacfd stream_num =
     (if stream_num + 1 < 0 \<or> 31 < stream_num + 1 then fault
      else bnd (rmw (reg_read E nacfd BYPASS_EN_AND_CAP_START)
                    (reg_write nacfd BYPASS_EN_AND_CAP_START)
                    (\<lambda>tmp. (tmp AND (0xFFFFFFFF AND NOT (push_bit (nat (stream_num + 1)) 0x1)))
                            OR 0x1)) (\<lambda>_. ret 0))"

definition capture_stop :: "env \<Rightarrow> int \<Rightarrow> int nac" where
  "capture_stop E nacfd =
     bnd (rmw (reg_read E nacfd BYPASS_EN_AND_CAP_START)
              (reg_write nacfd BYPASS_EN_AND_CAP_START)
              (\<lambda>tmp. tmp AND 0xfffffE00)) (\<lambda>_. ret 0)"

lemma capture_stop_run:
  "mapped fd s \<Longrightarrow> capture_stop E fd s = Some (Ok 0, s\<lparr>trace := trace s @
     [RegRd fd BYPASS_EN_AND_CAP_START (dev E (trace s) fd BYPASS_EN_AND_CAP_START),
      RegWr fd BYPASS_EN_AND_CAP_START
        (dev E (trace s) fd BYPASS_EN_AND_CAP_START AND 0xfffffE00)]\<rparr>)"
  by (simp add: capture_stop_def reg.rmw_ret)

lemma bit_all_ones_32: "bit (0xFFFFFFFF :: u32) k \<longleftrightarrow> k < 32"
proof -
  have "(0xFFFFFFFF :: u32) = - 1" by simp
  then show ?thesis by (simp only: bit_minus_1_iff) simp
qed

lemma bit_one_u32: "bit (1 :: u32) k \<longleftrightarrow> k = 0"
  by (auto simp: bit_1_iff)

text \<open>
  What one call does to the capture register: one read, one write, and the value written
  compared with the value read.
\<close>

definition capture_update :: "env \<Rightarrow> int \<Rightarrow> mach \<Rightarrow> int nac \<Rightarrow> (u32 \<Rightarrow> nat \<Rightarrow> bool) \<Rightarrow> bool" where
  "capture_update E fd s m wanted \<longleftrightarrow>
     (let v = dev E (trace s) fd BYPASS_EN_AND_CAP_START in
      \<exists>w. m s = Some (Ok 0, s\<lparr>trace := trace s @
             [RegRd fd BYPASS_EN_AND_CAP_START v, RegWr fd BYPASS_EN_AND_CAP_START w]\<rparr>) \<and>
          (\<forall>k < 32. bit w k \<longleftrightarrow> wanted v k))"

lemma capture_update_rmw:
  assumes "mapped fd s"
    and "\<And>v k. k < 32 \<Longrightarrow> bit (f v) k \<longleftrightarrow> wanted v k"
  shows "capture_update E fd s (bnd (rmw (reg_read E fd BYPASS_EN_AND_CAP_START)
           (reg_write fd BYPASS_EN_AND_CAP_START) f) (\<lambda>_. ret 0)) wanted"
  unfolding capture_update_def Let_def
  by (rule exI [where x = "f (dev E (trace s) fd BYPASS_EN_AND_CAP_START)"])
    (simp add: assms reg.rmw_ret)

lemma bit_mask_9: "k < 32 \<Longrightarrow> bit (0x1FF :: u32) k \<longleftrightarrow> k < 9"
proof -
  assume k: "k < 32"
  have "(0x1FF :: u32) = mask 9" by (simp add: mask_eq_exp_minus_1)
  then show ?thesis by (simp only: bit_mask_iff) (use k in auto)
qed

lemma bit_clear_9: "k < 32 \<Longrightarrow> bit (0xfffffE00 :: u32) k \<longleftrightarrow> 9 \<le> k"
proof -
  assume k: "k < 32"
  have "(0xfffffE00 :: u32) = NOT (mask 9)" by (simp add: mask_eq_exp_minus_1)
  then show ?thesis by (simp only: bit_not_iff bit_mask_iff) (use k in auto)
qed

text \<open>
  On a mapped card each of the four capture operations reads the capture register once
  and writes it once. Starting or stopping a stream 0 to 30 sets or clears that stream's own
  bit (number stream_num + 1), sets the global enable bit 0, and leaves every other bit as it
  was read; \<open>capture_start\<close> sets and \<open>capture_stop\<close> clears exactly the bits 0 to 8, the
  enable bit and the bits of the eight streams.
\<close>

theorem capture_stream_bits:
  assumes "mapped fd s" and "0 \<le> n" and "n \<le> 30"
  shows "capture_update E fd s (capture_start_stream E fd n)
           (\<lambda>v k. k = 0 \<or> k = nat (n + 1) \<or> bit v k) \<and>
         capture_update E fd s (capture_stop_stream E fd n)
           (\<lambda>v k. k = 0 \<or> (k \<noteq> nat (n + 1) \<and> bit v k)) \<and>
         capture_update E fd s (capture_start E fd) (\<lambda>v k. k < 9 \<or> bit v k) \<and>
         capture_update E fd s (capture_stop E fd) (\<lambda>v k. 9 \<le> k \<and> bit v k)"
proof -
  have n: "\<not> (n + 1 < 0 \<or> 31 < n + 1)" "nat (n + 1) < 32" using assms(2,3) by auto
  show ?thesis
    unfolding capture_start_stream_def capture_stop_stream_def capture_start_def
      capture_stop_def if_not_P [OF n(1)]
    by (intro conjI capture_update_rmw [OF assms(1)])
      (use n(2) in \<open>auto simp: bit_mask_9 bit_clear_9 bit_or_iff bit_and_iff bit_not_iff
         bit_push_bit_iff bit_one_u32 bit_all_ones_32 simp del: push_bit_of_1 bit_numeral_word_iff\<close>)
qed

lemma capture_stream_bits_witness:
  "capture_update demo_env 3 demo_mach (capture_start_stream demo_env 3 2)
     (\<lambda>v k. k = 0 \<or> k = nat (2 + 1) \<or> bit v k)"
  using capture_stream_bits [of 3 demo_mach 2 demo_env] demo_mapped by simp

section \<open>Timer and bypass\<close>

text \<open>The argument is unsigned, so \<open>time_ms <= 0\<close> is \<open>time_ms == 0\<close>.\<close>

definition nac_set_timer_interval :: "int \<Rightarrow> u32 \<Rightarrow> int nac" where
  "nac_set_timer_interval nacfd time_ms =
     (if time_ms = 0 then ret (-1)
      else bnd (reg_write nacfd TIMER_INTERVAL_ADDR (time_ms * 100000)) (\<lambda>_. ret 0))"

definition bypass_switch_on :: "int \<Rightarrow> int nac" where
  "bypass_switch_on nacfd = bnd (reg_write nacfd BYPASS_CRL 1) (\<lambda>_. ret 0)"

definition bypass_switch_off :: "int \<Rightarrow> int nac" where
  "bypass_switch_off nacfd = bnd (reg_write nacfd BYPASS_CRL 2) (\<lambda>_. ret 0)"

definition bypass_enable_count :: "int \<Rightarrow> unit nac" where
  "bypass_enable_count nacfd = reg_write nacfd BYPASS_CRL 2"

definition set_bypass_threshold :: "int \<Rightarrow> u32 \<Rightarrow> unit nac" where
  "set_bypass_threshold nacfd cnt = reg_write nacfd BYPASS_THRESHOLD cnt"

definition PULSE_INTERVAL :: u32 where
  "PULSE_INTERVAL = 100000000"

definition bypass_init :: "int \<Rightarrow> unit nac" where
  "bypass_init nacfd =
     bnd (reg_write nacfd BYPASS_CRL 1) (\<lambda>_.
     reg_write nacfd BYPASS_THRESHOLD PULSE_INTERVAL)"

text \<open>
  \<open>nac_set_timer_interval\<close> rejects the interval 0 with -1 and touches nothing; for every
  other interval it writes the timer register once, and the value it writes is the interval
  in 10 ns ticks exactly when the interval is at most 42949 ms: above, the product wraps.
\<close>

theorem timer_interval_exact:
  assumes "mapped fd s"
  shows "nac_set_timer_interval fd 0 s = Some (Ok (- 1), s) \<and>
    (\<forall>t. t \<noteq> 0 \<longrightarrow> (\<exists>w. nac_set_timer_interval fd t s =
         Some (Ok 0, s\<lparr>trace := trace s @ [RegWr fd TIMER_INTERVAL_ADDR w]\<rparr>) \<and>
       (uint w = uint t * 100000 \<longleftrightarrow> uint t \<le> 42949)))"
proof (intro conjI allI impI)
  show "nac_set_timer_interval fd 0 s = Some (Ok (- 1), s)"
    by (simp add: nac_set_timer_interval_def)
next
  fix t :: u32
  assume t: "t \<noteq> 0"
  have "uint (t * 100000) = uint t * 100000 mod 2 ^ 32"
    by (simp add: uint_word_ariths)
  moreover have "uint t * 100000 mod 2 ^ 32 = uint t * 100000 \<longleftrightarrow> uint t \<le> 42949"
    using uint_ge_0 [of t] by (auto simp: mod_eq_self_iff_div_eq_0 zdiv_eq_0_iff)
  ultimately show "\<exists>w. nac_set_timer_interval fd t s =
         Some (Ok 0, s\<lparr>trace := trace s @ [RegWr fd TIMER_INTERVAL_ADDR w]\<rparr>) \<and>
       (uint w = uint t * 100000 \<longleftrightarrow> uint t \<le> 42949)"
    using assms t by (auto simp: nac_set_timer_interval_def reg_write_mapped)
qed

lemma timer_interval_exact_witness:
  "nac_set_timer_interval 3 0 demo_mach = Some (Ok (- 1), demo_mach)"
  using timer_interval_exact [OF demo_mapped] by blast

section \<open>Port counters\<close>

record statistics_cnt_t =
  tx_bytes :: u64
  rx_bytes :: u64
  tx_frames :: u64
  rx_frames :: u64

text \<open>One 64 bit counter: the high register is read before the low one.\<close>

definition read_counter :: "env \<Rightarrow> int \<Rightarrow> u32 \<Rightarrow> u32 \<Rightarrow> u64 nac" where
  "read_counter E nacfd hi lo =
     bnd (reg_read E nacfd hi) (\<lambda>h.
     bnd (reg_read E nacfd lo) (\<lambda>l.
     ret (push_bit 32 (ucast h) OR ucast l)))"

definition port_reg :: "u32 \<Rightarrow> int \<Rightarrow> u32" where
  "port_reg r port_num = r + word_of_int port_num * PORT_OFFSET_60"

definition nac_statistics_cnt :: "env \<Rightarrow> int \<Rightarrow> int \<Rightarrow> statistics_cnt_t nac" where
  "nac_statistics_cnt E nacfd p =
     bnd (read_counter E nacfd (port_reg PORT0_TX_BYTE_HIGH p) (port_reg PORT0_TX_BYTE_LOW p)) (\<lambda>tb.
     bnd (read_counter E nacfd (port_reg PORT0_RX_BYTE_HIGH p) (port_reg PORT0_RX_BYTE_LOW p)) (\<lambda>rb.
     bnd (read_counter E nacfd (port_reg PORT0_TX_FRAME_HIGH p) (port_reg PORT0_TX_FRAME_LOW p)) (\<lambda>tf.
     bnd (read_counter E nacfd (port_reg PORT0_RX_FRAME_HIGH p) (port_reg PORT0_RX_FRAME_LOW p)) (\<lambda>rf.
     ret \<lparr>tx_bytes = tb, rx_bytes = rb, tx_frames = tf, rx_frames = rf\<rparr>))))"

lemma uint_hi_lo:
  "uint (push_bit 32 (ucast (h :: u32)) OR ucast (l :: u32) :: u64) = uint h * 2 ^ 32 + uint l"
proof -
  have l: "uint (ucast l :: u64) = uint l" and h: "uint (ucast h :: u64) = uint h"
    by (simp_all add: uint_up_ucast is_up)
  have "uint (push_bit 32 (ucast h) OR ucast l :: u64) = uint (push_bit 32 (ucast h) + ucast l :: u64)"
    by (subst disjunctive_add [symmetric])
      (auto simp: bit_push_bit_iff bit_ucast_iff dest: bit_imp_le_length)
  also have "\<dots> = uint h * 2 ^ 32 + uint l"
  proof -
    have hb: "uint h < 2 ^ 32" and lb: "uint l < 2 ^ 32"
      using uint_lt2p [of h] uint_lt2p [of l] by simp_all
    have "uint (push_bit 32 (ucast h) :: u64) = uint h * 2 ^ 32"
      using hb by (simp add: push_bit_eq_mult uint_word_ariths h)
    then show ?thesis
      using hb lb by (simp add: uint_word_ariths l)
  qed
  finally show ?thesis .
qed

text \<open>
  On a mapped card \<open>nac_statistics_cnt\<close> reads the eight counter registers of the port,
  each high half before its low half, and each of the four counters it returns is the
  64 bit number high * 2^32 + low of the two halves read: no half is lost or swapped.
\<close>

theorem statistics_counters:
  assumes "mapped fd s"
  shows "\<exists>c th tl rh rl tfh tfl rfh rfl.
     nac_statistics_cnt E fd p s = Some (Ok c, s\<lparr>trace := trace s @
       [RegRd fd (port_reg PORT0_TX_BYTE_HIGH p) th, RegRd fd (port_reg PORT0_TX_BYTE_LOW p) tl,
        RegRd fd (port_reg PORT0_RX_BYTE_HIGH p) rh, RegRd fd (port_reg PORT0_RX_BYTE_LOW p) rl,
        RegRd fd (port_reg PORT0_TX_FRAME_HIGH p) tfh, RegRd fd (port_reg PORT0_TX_FRAME_LOW p) tfl,
        RegRd fd (port_reg PORT0_RX_FRAME_HIGH p) rfh,
        RegRd fd (port_reg PORT0_RX_FRAME_LOW p) rfl]\<rparr>) \<and>
     uint (tx_bytes c) = uint th * 2 ^ 32 + uint tl \<and>
     uint (rx_bytes c) = uint rh * 2 ^ 32 + uint rl \<and>
     uint (tx_frames c) = uint tfh * 2 ^ 32 + uint tfl \<and>
     uint (rx_frames c) = uint rfh * 2 ^ 32 + uint rfl"
  by (intro exI conjI, rule trans, simp add: assms nac_statistics_cnt_def read_counter_def
      reg_read_mapped, rule refl, simp_all add: uint_hi_lo)

lemma statistics_counters_witness:
  "\<exists>c t. nac_statistics_cnt demo_env 3 1 demo_mach = Some (Ok c, t)"
  using statistics_counters [OF demo_mapped, of demo_env 1] by blast

end
