(* ===== verification/Flash.thy ===== *)
theory Flash
  imports Board
begin

text \<open>
  The remote update of the card (lib/nacapi.c): the flash memory behind two registers, the
  commands that program, erase, lock and check it, the serial numbers kept in it, and the
  comparison of image files. Messages are left out; the codes given to \<open>exit\<close> are kept.
\<close>

section \<open>Words of the process's memory\<close>

text \<open>\<open>*pd\<close> for \<open>uint16_t *pd\<close>, little-endian.\<close>

definition read_half :: "env \<Rightarrow> u64 \<Rightarrow> u16 nac" where
  "read_half E a = bnd (read_byte E a) (\<lambda>lo. bnd (read_byte E (a + 1)) (\<lambda>hi. ret (ucast hi * 256 + ucast lo)))"

section \<open>Cycles of the flash bus\<close>

definition flash_busy_round :: "env \<Rightarrow> int \<Rightarrow> u32 \<Rightarrow> (u32 + unit) nac" where
  "flash_busy_round E nacfd result32 =
     (if result32 \<noteq> 0 then bnd (reg_read E nacfd FLASH_ADDR) (\<lambda>v. ret (Inl v)) else ret (Inr ()))"

definition flash_idle :: "env \<Rightarrow> int \<Rightarrow> unit nac" where
  "flash_idle E nacfd = bnd (reg_read E nacfd FLASH_ADDR) (\<lambda>v. iterate (flash_busy_round E nacfd) v)"

definition flash_write :: "env \<Rightarrow> int \<Rightarrow> u32 \<Rightarrow> u16 \<Rightarrow> unit nac" where
  "flash_write E nacfd addr data =
     (if 0x7FFFFF < addr then ret ()
      else bnd (flash_idle E nacfd) (\<lambda>_.
           bnd (reg_write nacfd FLASH_DATA (ucast data)) (\<lambda>_.
           reg_write nacfd FLASH_ADDR (0x80000000 + addr))))"

definition flash_valid_round :: "env \<Rightarrow> int \<Rightarrow> u32 \<Rightarrow> (u32 + unit) nac" where
  "flash_valid_round E nacfd result32 =
     (if result32 AND 0x1 = 0 then bnd (reg_read E nacfd FLASH_ADDR) (\<lambda>v. ret (Inl v)) else ret (Inr ()))"

text \<open>An address out of range returns without a value, which every caller uses.\<close>

definition flash_read :: "env \<Rightarrow> int \<Rightarrow> u32 \<Rightarrow> u16 nac" where
  "flash_read E nacfd addr =
     (if 0x7FFFFF < addr then fault
      else bnd (reg_write nacfd FLASH_ADDR addr) (\<lambda>_.
           bnd (reg_read E nacfd FLASH_ADDR) (\<lambda>v.
           bnd (iterate (flash_valid_round E nacfd) v) (\<lambda>_.
           bnd (reg_read E nacfd FLASH_DATA) (\<lambda>w. ret (ucast w))))))"

definition reconfig :: "env \<Rightarrow> int \<Rightarrow> unit nac" where
  "reconfig E nacfd = bnd (flash_idle E nacfd) (\<lambda>_. reg_write nacfd FLASH_DATA 0xC0000000)"

text \<open>\<open>do \<dots> = flash_read(\<dots>); while (\<dots>)\<close>: reading the status until it is accepted.\<close>

definition status_round :: "env \<Rightarrow> int \<Rightarrow> u32 \<Rightarrow> (u16 \<Rightarrow> bool) \<Rightarrow> unit \<Rightarrow> (unit + u16) nac" where
  "status_round E nacfd addr ok u =
     bnd (flash_read E nacfd addr) (\<lambda>v. ret (if ok v then Inr v else Inl ()))"

definition status_until :: "env \<Rightarrow> int \<Rightarrow> u32 \<Rightarrow> (u16 \<Rightarrow> bool) \<Rightarrow> u16 nac" where
  "status_until E nacfd addr ok = iterate (status_round E nacfd addr ok) ()"

section \<open>Commands\<close>

definition set_config_register :: "env \<Rightarrow> int \<Rightarrow> u16 \<Rightarrow> unit nac" where
  "set_config_register E nacfd data =
     steps [flash_write E nacfd (ucast data) 0x60, flash_write E nacfd (ucast data) 0x03]"

definition clear_stats_regs :: "env \<Rightarrow> int \<Rightarrow> unit nac" where
  "clear_stats_regs E nacfd = flash_write E nacfd 0 0x50"

text \<open>The status after programming: VPP, program and protection errors end the process.\<close>

definition program_status :: "u16 \<Rightarrow> unit nac" where
  "program_status v =
     (if SR_bit 3 v then exit_with 1
      else if SR_bit 4 v then exit_with 2
      else if SR_bit 1 v then exit_with 3 else ret ())"

definition word_program :: "env \<Rightarrow> int \<Rightarrow> u32 \<Rightarrow> u16 \<Rightarrow> unit nac" where
  "word_program E nacfd addr data =
     bnd (flash_write E nacfd addr 0x40) (\<lambda>_.
     bnd (flash_write E nacfd addr data) (\<lambda>_.
     bnd (status_until E nacfd addr (SR_bit 7)) program_status))"

definition blank_check_command :: "env \<Rightarrow> int \<Rightarrow> u32 \<Rightarrow> unit nac" where
  "blank_check_command E nacfd blockToCheck =
     bnd (flash_write E nacfd blockToCheck 0xBC) (\<lambda>_.
     bnd (flash_write E nacfd blockToCheck 0xCB) (\<lambda>_.
     bnd (status_until E nacfd blockToCheck (SR_bit 7)) (\<lambda>_. ret ())))"

text \<open>Bit \<open>i\<close> of a word, moved to bit 15 - \<open>i\<close> in the arithmetic of \<open>int\<close>.\<close>

definition swap_bit :: "u16 \<Rightarrow> nat \<Rightarrow> u32" where
  "swap_bit src i = (if i < 8 then push_bit (15 - i * 2) (ucast src AND push_bit i 1)
     else drop_bit (2 * i - 15) (ucast src AND push_bit i 1))"

definition bit_swap :: "u16 \<Rightarrow> u16" where
  "bit_swap src = fold (\<lambda>i dst. dst OR ucast (swap_bit src i)) [0..<16] 0"

text \<open>The request of a buffer is repeated until the chip grants it.\<close>

definition buffer_request_round :: "env \<Rightarrow> int \<Rightarrow> u32 \<Rightarrow> unit \<Rightarrow> (unit + unit) nac" where
  "buffer_request_round E nacfd start_addr u =
     bnd (flash_write E nacfd start_addr 0xE8) (\<lambda>_.
     bnd (flash_read E nacfd start_addr) (\<lambda>v. ret (if SR_bit 7 v then Inr () else Inl ())))"

definition buffer_word :: "env \<Rightarrow> int \<Rightarrow> u32 \<Rightarrow> u64 \<Rightarrow> nat \<Rightarrow> unit nac" where
  "buffer_word E nacfd start_addr pdata i =
     bnd (read_half E (pdata + 2 * of_nat i)) (\<lambda>d.
     flash_write E nacfd (start_addr + of_nat i) (bit_swap d))"

definition buffer_program :: "env \<Rightarrow> int \<Rightarrow> u32 \<Rightarrow> int \<Rightarrow> u64 \<Rightarrow> unit nac" where
  "buffer_program E nacfd start_addr n pdata =
     (if n < 0 \<or> 31 < n then exit_with 1
      else bnd (iterate (buffer_request_round E nacfd start_addr) ()) (\<lambda>_.
        bnd (flash_write E nacfd start_addr (word_of_int n)) (\<lambda>_.
        bnd (for_each [0..<Suc (nat n)] (buffer_word E nacfd start_addr pdata)) (\<lambda>_.
        bnd (flash_write E nacfd start_addr 0xD0) (\<lambda>_.
        bnd (status_until E nacfd start_addr (SR_bit 7)) program_status)))))"

definition BANK_SIZE_W :: u32 where
  "BANK_SIZE_W = 512 * 1024"

definition BLOCK_SIZE_W :: u32 where
  "BLOCK_SIZE_W = 64 * 1024"

definition block_addr :: "u8 \<Rightarrow> u8 \<Rightarrow> u32" where
  "block_addr bank block = ucast bank * 0x80000 + ucast block * 0x10000"

text \<open>The parts of a size in units of \<open>c\<close>: how many, and how much of the last.\<close>

definition parts :: "u32 \<Rightarrow> u32 \<Rightarrow> u32 \<times> u32" where
  "parts w_size c = (if w_size mod c = 0 then (w_size div c, c) else (w_size div c + 1, w_size mod c))"

definition block_program :: "env \<Rightarrow> int \<Rightarrow> u8 \<Rightarrow> u8 \<Rightarrow> u32 \<Rightarrow> u64 \<Rightarrow> unit nac" where
  "block_program E nacfd bank block w_size pdata =
     (if w_size = 0 then exit_with 1
      else let start_addr = block_addr bank block;
               (need_buffer, last_words) = parts w_size 32;
               q = unat (need_buffer - 1) in
        bnd (for_each [0..<q] (\<lambda>i.
               buffer_program E nacfd (start_addr + 32 * of_nat i) 31 (pdata + 64 * of_nat i))) (\<lambda>_.
        buffer_program E nacfd (start_addr + 32 * of_nat q) (uint last_words - 1) (pdata + 64 * of_nat q)))"

text \<open>The number of blocks is kept in a \<open>uint8_t\<close>; the loop counts in \<open>int\<close>.\<close>

definition bank_program :: "env \<Rightarrow> int \<Rightarrow> u8 \<Rightarrow> u32 \<Rightarrow> u64 \<Rightarrow> unit nac" where
  "bank_program E nacfd bank w_size pdata =
     (if w_size = 0 then exit_with 1
      else let (need, last_words) = parts w_size BLOCK_SIZE_W;
               need_block = (ucast need :: u8);
               last_block = need_block - 1;
               q = unat need_block - 1 in
        bnd (for_each [0..<q] (\<lambda>i.
               block_program E nacfd bank (of_nat i) BLOCK_SIZE_W (pdata + 2 * ucast BLOCK_SIZE_W * of_nat i))) (\<lambda>_.
        block_program E nacfd bank last_block last_words (pdata + 2 * ucast BLOCK_SIZE_W * of_nat q)))"

definition block_unlock :: "env \<Rightarrow> int \<Rightarrow> u8 \<Rightarrow> u8 \<Rightarrow> unit nac" where
  "block_unlock E nacfd bank block =
     bnd (flash_write E nacfd (ucast bank * 0x80000) 0x60) (\<lambda>_.
     bnd (flash_write E nacfd (block_addr bank block) 0xD0) (\<lambda>_.
     bnd (flash_write E nacfd (ucast bank * 0x80000) 0x90) (\<lambda>_.
     bnd (flash_read E nacfd (block_addr bank block + 2)) (\<lambda>result16.
     if result16 \<noteq> 0 then exit_with 1 else ret ()))))"

definition bank_unlock :: "env \<Rightarrow> int \<Rightarrow> u8 \<Rightarrow> unit nac" where
  "bank_unlock E nacfd bank = for_each [0..<8] (\<lambda>i. block_unlock E nacfd bank (of_nat i))"

definition erase_status :: "u16 \<Rightarrow> unit nac" where
  "erase_status v =
     (if SR_bit 3 v then exit_with 1
      else if SR_bit 4 v \<and> SR_bit 5 v then exit_with 2
      else if SR_bit 5 v then exit_with 3
      else if SR_bit 1 v then exit_with 4 else ret ())"

definition block_erase :: "env \<Rightarrow> int \<Rightarrow> u8 \<Rightarrow> u8 \<Rightarrow> unit nac" where
  "block_erase E nacfd bank block =
     bnd (flash_write E nacfd (ucast bank * 0x80000) 0x20) (\<lambda>_.
     bnd (flash_write E nacfd (block_addr bank block) 0xD0) (\<lambda>_.
     bnd (status_until E nacfd (ucast bank * 0x80000) (SR_bit 7)) erase_status))"

definition bank_erase :: "env \<Rightarrow> int \<Rightarrow> u8 \<Rightarrow> unit nac" where
  "bank_erase E nacfd bank = for_each [0..<8] (\<lambda>i. block_erase E nacfd bank (of_nat i))"

datatype lock_stat_t = UNLOCKED | LOCKED | UNLOCKED_AND_LOCKEDDOWN | LOCKED_AND_LOCKEDDOWN

definition lock_word :: "lock_stat_t \<Rightarrow> u16" where
  "lock_word l = (case l of LOCKED \<Rightarrow> 0x01 | UNLOCKED \<Rightarrow> 0xD0
     | LOCKED_AND_LOCKEDDOWN \<Rightarrow> 0x2F | UNLOCKED_AND_LOCKEDDOWN \<Rightarrow> 0x2F)"

text \<open>A lock state that does not match is only reported.\<close>

definition locking_operation_command :: "env \<Rightarrow> int \<Rightarrow> u32 \<Rightarrow> lock_stat_t \<Rightarrow> unit nac" where
  "locking_operation_command E nacfd addr lock_operation =
     bnd (flash_write E nacfd addr 0x60) (\<lambda>_.
     bnd (flash_write E nacfd addr (lock_word lock_operation)) (\<lambda>_.
     bnd (flash_write E nacfd addr 0x90) (\<lambda>_.
     bnd (flash_read E nacfd addr) (\<lambda>_.
     flash_write E nacfd addr 0xFF))))"

definition protection_register_program_command :: "env \<Rightarrow> int \<Rightarrow> u32 \<Rightarrow> u16 \<Rightarrow> unit nac" where
  "protection_register_program_command E nacfd addr data =
     bnd (flash_write E nacfd addr 0xC0) (\<lambda>_.
     bnd (flash_write E nacfd addr data) (\<lambda>_.
     bnd (status_until E nacfd addr (SR_bit 7)) (\<lambda>_. ret ())))"

text \<open>Every round sends \<open>data_flow[0]\<close> to \<open>data_flow[31]\<close>.\<close>

definition factory_round :: "env \<Rightarrow> int \<Rightarrow> u32 \<Rightarrow> u64 \<Rightarrow> unit nac" where
  "factory_round E nacfd start_addr data_flow =
     bnd (for_each [0..<32] (\<lambda>i. bnd (read_half E (data_flow + 2 * of_nat i)) (flash_write E nacfd start_addr))) (\<lambda>_.
     bnd (status_until E nacfd start_addr (\<lambda>v. \<not> SR_bit 0 v)) (\<lambda>_. ret ()))"

definition buffer_enhanced_factory_program_command :: "env \<Rightarrow> int \<Rightarrow> u32 \<Rightarrow> u32 \<Rightarrow> u64 \<Rightarrow> unit nac" where
  "buffer_enhanced_factory_program_command E nacfd start_addr count data_flow =
     (if count mod 32 \<noteq> 0 then ret ()
      else bnd (flash_write E nacfd start_addr 0x80) (\<lambda>_.
        bnd (flash_write E nacfd start_addr 0xD0) (\<lambda>_.
        bnd (status_until E nacfd start_addr (\<lambda>v. \<not> SR_bit 7 v)) (\<lambda>_.
        bnd (for_each [0..<unat (count div 32)] (\<lambda>_. factory_round E nacfd start_addr data_flow)) (\<lambda>_.
        bnd (flash_write E nacfd start_addr 0xFFFF) (\<lambda>_.
        bnd (status_until E nacfd start_addr (SR_bit 7)) (\<lambda>_. ret ())))))))"

section \<open>Serial numbers\<close>

text \<open>The four words of a number, the highest first.\<close>

definition sn_words :: "u64 \<Rightarrow> u16 list" where
  "sn_words sn = [ucast (drop_bit 48 (sn AND 0xffff000000000000)), ucast (drop_bit 32 (sn AND 0x0000ffff00000000)),
     ucast (drop_bit 16 (sn AND 0x00000000ffff0000)), ucast (sn AND 0x000000000000ffff)]"

text \<open>Both numbers are written and read alike, in a block of their own of bank 14.\<close>

definition program_num :: "env \<Rightarrow> int \<Rightarrow> u8 \<Rightarrow> u64 \<Rightarrow> unit nac" where
  "program_num E nacfd block sn = (let a = 14 * BANK_SIZE_W + ucast block * 0x10000 in steps
     [set_config_register E nacfd 0xBDDF, clear_stats_regs E nacfd,
      block_unlock E nacfd 14 block, block_erase E nacfd 14 block,
      word_program E nacfd a (sn_words sn ! 0), word_program E nacfd (a + 1) (sn_words sn ! 1),
      word_program E nacfd (a + 2) (sn_words sn ! 2), word_program E nacfd (a + 3) (sn_words sn ! 3)])"

definition set_logic_num :: "env \<Rightarrow> int \<Rightarrow> u64 \<Rightarrow> unit nac" where
  "set_logic_num E nacfd sn_logic = program_num E nacfd 0 sn_logic"

definition set_hardware_num :: "env \<Rightarrow> int \<Rightarrow> u64 \<Rightarrow> unit nac" where
  "set_hardware_num E nacfd no = program_num E nacfd 1 no"

definition fetch_num :: "env \<Rightarrow> int \<Rightarrow> u8 \<Rightarrow> u64 nac" where
  "fetch_num E nacfd block = (let a = 14 * BANK_SIZE_W + ucast block * 0x10000 in
     bnd (set_config_register E nacfd 0xBDDF) (\<lambda>_.
     bnd (clear_stats_regs E nacfd) (\<lambda>_.
     bnd (flash_write E nacfd (14 * BANK_SIZE_W) 0xff) (\<lambda>_.
     bnd (flash_read E nacfd a) (\<lambda>w0.
     bnd (flash_read E nacfd (a + 1)) (\<lambda>w1.
     bnd (flash_read E nacfd (a + 2)) (\<lambda>w2.
     bnd (flash_read E nacfd (a + 3)) (\<lambda>w3.
     ret (push_bit 48 (ucast w0) OR push_bit 32 (ucast w1) OR push_bit 16 (ucast w2) OR ucast w3)))))))))"

definition read_logic_num :: "env \<Rightarrow> int \<Rightarrow> u64 nac" where
  "read_logic_num E nacfd = fetch_num E nacfd 0"

definition read_hardware_num :: "env \<Rightarrow> int \<Rightarrow> u64 nac" where
  "read_hardware_num E nacfd = fetch_num E nacfd 1"

text \<open>The type of the TCAM is bits 47 to 40 of the logic number.\<close>

definition nac_judge_serial_num :: "env \<Rightarrow> int \<Rightarrow> int nac" where
  "nac_judge_serial_num E nacfd = bnd (read_logic_num E nacfd) (\<lambda>sn.
     let sn_tmp = (ucast (drop_bit 40 (sn AND 0x0000ff0000000000)) :: u8) in
     ret (if sn_tmp = 1 then 1 else if sn_tmp = 0 then 0 else - 1))"

section \<open>Image files\<close>

text \<open>A file as little-endian words; an odd last byte is not one.\<close>

fun file_words :: "u8 list \<Rightarrow> u16 list" where
  "file_words (lo # hi # bs) = (ucast hi * 256 + ucast lo) # file_words bs"
| "file_words _ = []"

text \<open>The loop over the words, with the position after the word that is read.\<close>

fun words_match :: "int \<Rightarrow> int \<Rightarrow> u16 list \<Rightarrow> u16 list \<Rightarrow> bool" where
  "words_match file_size1 pos (a # as) (b # bs) =
     (let tempt1 = (if pos \<le> file_size1 - 8 then bit_swap a else a) in
      tempt1 = b \<and> words_match file_size1 (pos + 2) as bs)"
| "words_match file_size1 pos _ _ = True"

text \<open>A file that cannot be opened is reported, and the null pointer is then used.\<close>

definition compare_file_order :: "(string \<Rightarrow> u8 list option) \<Rightarrow> string \<Rightarrow> string \<Rightarrow> int res" where
  "compare_file_order files path1 path2 = (case (files path1, files path2) of
       (Some f1, Some f2) \<Rightarrow>
         (if length f1 \<noteq> length f2 then Ok (- 1)
          else if length f1 mod 2 \<noteq> 0 then Ok (- 1)
          else if words_match (int (length f1)) 2 (file_words f1) (file_words f2) then Ok 0 else Ok (- 1))
     | _ \<Rightarrow> Fault)"

section \<open>Reversing the bits of a word\<close>

lemma bit_swap_bit:
  assumes "i < 16" and "j < 16"
  shows "bit (ucast (swap_bit x i) :: u16) j \<longleftrightarrow> j = 15 - i \<and> bit x i"
proof (cases "i < 8")
  case True
  with assms show ?thesis by (auto simp: swap_bit_def bit_simps)
next
  case False
  with assms show ?thesis by (auto simp: swap_bit_def bit_simps)
qed

lemma bit_fold_or:
  "bit (fold (\<lambda>i d. d OR f i) is (d :: 'a::len word)) j \<longleftrightarrow> bit d j \<or> (\<exists>i \<in> set is. bit (f i) j)"
  by (induction "is" arbitrary: d) (auto simp: bit_or_iff)

lemma bit_bit_swap: "j < 16 \<Longrightarrow> bit (bit_swap x) j \<longleftrightarrow> bit x (15 - j)"
proof -
  assume j: "j < 16"
  have "bit (bit_swap x) j \<longleftrightarrow> (\<exists>i \<in> {0..<16}. j = 15 - i \<and> bit x i)"
    using j by (auto simp: bit_swap_def bit_fold_or bit_swap_bit)
  also have "\<dots> \<longleftrightarrow> bit x (15 - j)"
  proof
    assume "\<exists>i \<in> {0..<16}. j = 15 - i \<and> bit x i"
    then obtain i where i: "i < 16" "j = 15 - i" "bit x i" by auto
    then have "15 - j = i" by simp
    with i(3) show "bit x (15 - j)" by simp
  next
    assume "bit x (15 - j)"
    with j show "\<exists>i \<in> {0..<16}. j = 15 - i \<and> bit x i" by (intro bexI [of _ "15 - j"]) auto
  qed
  finally show ?thesis .
qed

text \<open>
  \<open>bit_swap\<close> reverses the 16 bits of a word: bit \<open>i\<close> of the result is bit 15 - \<open>i\<close> of
  the argument. So it is its own inverse, and no two words have the same image.
\<close>

theorem bit_swap_reverses:
  "map (bit (bit_swap x)) [0..<16] = rev (map (bit x) [0..<16]) \<and> bit_swap (bit_swap x) = x"
proof
  show "bit_swap (bit_swap x) = x"
    by (rule bit_word_eqI) (auto simp: bit_bit_swap)
  show "map (bit (bit_swap x)) [0..<16] = rev (map (bit x) [0..<16])"
    by (rule nth_equalityI) (simp_all add: bit_bit_swap rev_nth)
qed

section \<open>Comparing files\<close>

lemma length_file_words: "length (file_words bs) = length bs div 2"
  by (induction bs rule: file_words.induct) auto

lemma words_match_iff:
  "length as = length bs \<Longrightarrow> words_match n pos as bs \<longleftrightarrow>
     (\<forall>k < length as. (if pos + 2 * int k \<le> n - 8 then bit_swap (as ! k) else as ! k) = bs ! k)"
proof (induction n pos as bs rule: words_match.induct)
  case (1 n pos a as b bs)
  have "pos + 2 + 2 * int k = pos + 2 * int (Suc k)" for k by simp
  with 1 show ?case by (simp add: Let_def All_less_Suc2)
qed auto

text \<open>
  \<open>compare_file_order\<close> answers 0 exactly if the two files have the same even number of
  bytes and each word of the first is, with its bits reversed, the corresponding word of the
  second, except the last four words, which are the same in both; otherwise -1. If one of the
  files cannot be opened a null pointer is used.
\<close>

theorem compare_accepts:
  "compare_file_order files p1 p2 = (case (files p1, files p2) of
      (Some f1, Some f2) \<Rightarrow> Ok (if length f1 = length f2 \<and> even (length f1) \<and>
         file_words f2 = map (\<lambda>k. if k + 4 < length f1 div 2 then bit_swap (file_words f1 ! k) else file_words f1 ! k)
           [0..<length f1 div 2] then 0 else - 1)
    | _ \<Rightarrow> Fault)"
proof (cases "files p1"; cases "files p2")
  fix f1 f2
  assume f: "files p1 = Some f1" "files p2 = Some f2"
  show ?thesis
  proof (cases "length f1 = length f2 \<and> even (length f1)")
    case True
    then obtain m where m: "length f1 = 2 * m" "length f2 = 2 * m" by (metis evenE)
    have "words_match (int (length f1)) 2 (file_words f1) (file_words f2) \<longleftrightarrow>
       (\<forall>k < m. (if k + 4 < m then bit_swap (file_words f1 ! k) else file_words f1 ! k) = file_words f2 ! k)"
    proof -
      have "2 + 2 * int k \<le> int (length f1) - 8 \<longleftrightarrow> k + 4 < m" for k using m by auto
      then show ?thesis using m by (simp add: words_match_iff length_file_words)
    qed
    also have "\<dots> \<longleftrightarrow> file_words f2 =
       map (\<lambda>k. if k + 4 < m then bit_swap (file_words f1 ! k) else file_words f1 ! k) [0..<m]"
      using m by (auto simp: list_eq_iff_nth_eq length_file_words)
    finally show ?thesis using f m by (simp add: compare_file_order_def)
  qed (use f in \<open>auto simp: compare_file_order_def\<close>)
qed (simp_all add: compare_file_order_def)

end
