(* ===== verification/FlashBus.thy ===== *)
theory FlashBus
  imports Flash
begin

text \<open>
  What the remote update of lib/nacapi.c does to the flash chip. A first interpreter recovers
  the cycles of the flash bus from the history of the two registers, and rejects a write that
  is not preceded by a free controller and a read of data that were not reported valid. A
  second one, after the command set of the chip, recovers from the cycles what was erased,
  programmed and read, and rejects a command that is not carried through.
\<close>

section \<open>The controller\<close>

datatype cycle = FW u32 u16 | FR u32 u16

record flash_ctl =
  free :: bool
  dat :: u16
  asked :: "u32 option"
  valid :: bool

fun fl_event :: "int \<Rightarrow> event \<Rightarrow> flash_ctl \<Rightarrow> (flash_ctl \<times> cycle list) option" where
  "fl_event fd (RegRd f a v) c =
     (if f = fd \<and> a = FLASH_ADDR then Some (c\<lparr>free := v = 0, valid := bit v 0\<rparr>, [])
      else if f = fd \<and> a = FLASH_DATA then (case asked c of
          Some x \<Rightarrow> if valid c then Some (c\<lparr>asked := None\<rparr>, [FR x (ucast v)]) else None
        | None \<Rightarrow> None)
      else Some (c, []))"
| "fl_event fd (RegWr f a v) c =
     (if f = fd \<and> a = FLASH_DATA then (if free c then Some (c\<lparr>dat := ucast v\<rparr>, []) else None)
      else if f = fd \<and> a = FLASH_ADDR then
        (if bit v 31 then (if free c then Some (c\<lparr>free := False\<rparr>, [FW (v AND mask 31) (dat c)]) else None)
         else Some (c\<lparr>free := False, asked := Some v, valid := False\<rparr>, []))
      else Some (c, []))"
| "fl_event fd e c = Some (c, [])"

text \<open>From \<open>s\<close> to \<open>t\<close> nothing changed but the history, which shows these cycles.\<close>

definition flash_log :: "int \<Rightarrow> mach \<Rightarrow> mach \<Rightarrow> cycle list \<Rightarrow> bool" where
  "flash_log fd s t a \<longleftrightarrow> herd t = herd s \<and> vmap t = vmap s \<and> ram t = ram s \<and>
     (\<exists>evs. trace t = trace s @ evs \<and> (\<forall>c. \<exists>c'. interp (fl_event fd) evs c = Some (c', a)))"

lemma flash_log_refl: "flash_log fd s s []"
  by (auto simp: flash_log_def)

lemma flash_log_trans: "flash_log fd s t a \<Longrightarrow> flash_log fd t u b \<Longrightarrow> flash_log fd s u (a @ b)"
  unfolding flash_log_def by (metis append.assoc interp_append)

lemma flash_log_mapped: "flash_log fd s t a \<Longrightarrow> mapped fd t = mapped fd s"
  by (simp add: flash_log_def mapped_def)

text \<open>Polling the address register shows its last value and changes nothing else.\<close>

definition polled :: "int \<Rightarrow> u32 \<Rightarrow> mach \<Rightarrow> mach \<Rightarrow> bool" where
  "polled fd v s t \<longleftrightarrow> (\<exists>evs. t = s\<lparr>trace := trace s @ evs\<rparr> \<and>
     (\<forall>c. interp (fl_event fd) evs c = Some (c\<lparr>free := v = 0, valid := bit v 0\<rparr>, [])))"

lemma polled_once:
  assumes "mapped fd s"
  shows "\<exists>v t. reg_read E fd FLASH_ADDR s = Some (Ok v, t) \<and> polled fd v s t"
proof -
  let ?v = "dev E (trace s) fd FLASH_ADDR"
  have "reg_read E fd FLASH_ADDR s = Some (Ok ?v, s\<lparr>trace := trace s @ [RegRd fd FLASH_ADDR ?v]\<rparr>)"
    using assms by (simp add: reg_read_mapped)
  moreover have "polled fd ?v s (s\<lparr>trace := trace s @ [RegRd fd FLASH_ADDR ?v]\<rparr>)"
    unfolding polled_def by (rule exI [where x = "[RegRd fd FLASH_ADDR ?v]"]) simp
  ultimately show ?thesis by blast
qed

lemma polled_again:
  assumes "polled fd v s t" and "mapped fd s"
  shows "\<exists>v' u. reg_read E fd FLASH_ADDR t = Some (Ok v', u) \<and> polled fd v' s u"
proof -
  from assms(1) obtain evs where t: "t = s\<lparr>trace := trace s @ evs\<rparr>"
    and evs: "interp (fl_event fd) evs c = Some (c\<lparr>free := v = 0, valid := bit v 0\<rparr>, [])" for c
    by (auto simp: polled_def)
  let ?v = "dev E (trace t) fd FLASH_ADDR"
  have "interp (fl_event fd) (evs @ [RegRd fd FLASH_ADDR ?v]) c =
      Some (c\<lparr>free := ?v = 0, valid := bit ?v 0\<rparr>, [])" for c
    using interp_append [OF evs, where ys = "[RegRd fd FLASH_ADDR ?v]"] by simp
  moreover have "reg_read E fd FLASH_ADDR t = Some (Ok ?v, s\<lparr>trace := trace s @ evs @ [RegRd fd FLASH_ADDR ?v]\<rparr>)"
    using assms(2) by (simp add: reg_read_mapped t)
  ultimately show ?thesis unfolding polled_def by blast
qed

text \<open>A loop that polls until the value is accepted.\<close>

lemma poll_loop:
  assumes run: "iterate body v0 s0 = Some (r, t)"
    and body: "\<And>v. body v = (if go v then bnd (reg_read E fd FLASH_ADDR) (\<lambda>v'. ret (Inl v')) else ret (Inr ()))"
    and s0: "polled fd v0 s s0" and m: "mapped fd s"
  shows "\<exists>v. r = Ok () \<and> \<not> go v \<and> polled fd v s t"
proof -
  have b: "(\<not> go v \<and> body v u = Some (Ok (Inr ()), u)) \<or>
      (\<exists>v' u'. body v u = Some (Ok (Inl v'), u') \<and> polled fd v' s u')" if "polled fd v s u" for v u
    using polled_again [OF that m, of E] by (auto simp: body)
  have "(\<lambda>(r, t). \<exists>v. r = Ok () \<and> \<not> go v \<and> polled fd v s t) (r, t)"
    by (rule iterate_invariant [where I = "\<lambda>v u. polled fd v s u", OF run s0])
      (use b in fastforce)+
  then show ?thesis by simp
qed

section \<open>Runs and the cycles they make\<close>

definition flash_runs :: "int \<Rightarrow> (u64 \<Rightarrow> cell) \<times> (cell \<Rightarrow> u8) \<Rightarrow> 'a nac \<Rightarrow> ('a res \<Rightarrow> cycle list \<Rightarrow> bool) \<Rightarrow> bool" where
  "flash_runs fd M m Q \<longleftrightarrow> (\<forall>s r t. mapped fd s \<longrightarrow> (vmap s, ram s) = M \<longrightarrow> m s = Some (r, t) \<longrightarrow>
     (\<exists>a. flash_log fd s t a \<and> Q r a))"

lemma flash_runsI:
  assumes "\<And>s r t. mapped fd s \<Longrightarrow> (vmap s, ram s) = M \<Longrightarrow> m s = Some (r, t) \<Longrightarrow> \<exists>a. flash_log fd s t a \<and> Q r a"
  shows "flash_runs fd M m Q"
  using assms unfolding flash_runs_def by blast

lemma flash_runsD:
  assumes "flash_runs fd M m Q" and "mapped fd s" and "(vmap s, ram s) = M" and "m s = Some (r, t)"
  obtains a where "flash_log fd s t a" and "Q r a"
  using assms unfolding flash_runs_def by blast

lemma flash_log_next:
  "flash_log fd s t a \<Longrightarrow> mapped fd s \<Longrightarrow> (vmap s, ram s) = M \<Longrightarrow> mapped fd t \<and> (vmap t, ram t) = M"
  by (simp add: flash_log_def mapped_def)

lemma flash_bnd:
  assumes m: "flash_runs fd M m P"
    and ok: "\<And>v a. P (Ok v) a \<Longrightarrow> flash_runs fd M (f v) (\<lambda>r b. Q r (a @ b))"
    and ex: "\<And>n a. P (Exited n) a \<Longrightarrow> Q (Exited n) a"
    and fl: "\<And>a. P Fault a \<Longrightarrow> Q Fault a"
  shows "flash_runs fd M (bnd m f) Q"
proof (rule flash_runsI)
  fix s r t
  assume s: "mapped fd s" "(vmap s, ram s) = M" and run: "bnd m f s = Some (r, t)"
  from run show "\<exists>a. flash_log fd s t a \<and> Q r a"
  proof (cases rule: bnd_SomeE)
    case (ok x s1)
    obtain a where a: "flash_log fd s s1 a" "P (Ok x) a" by (rule flash_runsD [OF m s ok(1)])
    from flash_log_next [OF a(1) s] have s1: "mapped fd s1" "(vmap s1, ram s1) = M" by auto
    obtain b where "flash_log fd s1 t b" "Q r (a @ b)"
      by (rule flash_runsD [OF assms(2) [OF a(2)] s1 ok(2)])
    with flash_log_trans [OF a(1)] show ?thesis by blast
  next
    case (exited n)
    then show ?thesis using flash_runsD [OF m s exited(1)] ex by metis
  next
    case fault
    then show ?thesis using flash_runsD [OF m s fault(1)] fl by metis
  qed
qed

lemma flash_ret: "Q (Ok v) [] \<Longrightarrow> flash_runs fd M (ret v) Q"
  by (rule flash_runsI) (auto intro: flash_log_refl)

lemma flash_exit: "Q (Exited n) [] \<Longrightarrow> flash_runs fd M (exit_with n) Q"
  by (rule flash_runsI) (auto intro: flash_log_refl)

lemma flash_mono:
  assumes "flash_runs fd M m Q" and "\<And>r a. Q r a \<Longrightarrow> Q' r a"
  shows "flash_runs fd M m Q'"
  using assms unfolding flash_runs_def by blast

text \<open>A loop, by an invariant over its variables and the cycles so far.\<close>

lemma flash_iterate:
  assumes body: "\<And>x a. J x a \<Longrightarrow> flash_runs fd M (body x) (\<lambda>r b. case r of
        Ok (Inl x') \<Rightarrow> J x' (a @ b) | Ok (Inr y) \<Rightarrow> Q (Ok y) (a @ b)
      | Exited n \<Rightarrow> Q (Exited n) (a @ b) | Fault \<Rightarrow> Q Fault (a @ b))"
    and start: "J x []"
  shows "flash_runs fd M (iterate body x) Q"
proof (rule flash_runsI)
  fix s r t
  assume s: "mapped fd s" "(vmap s, ram s) = M" and run: "iterate body x s = Some (r, t)"
  let ?I = "\<lambda>x u. \<exists>a. flash_log fd s u a \<and> J x a"
  have b: "\<exists>a. flash_log fd s u' a \<and> (case r' of Ok (Inl x') \<Rightarrow> J x' a | Ok (Inr y) \<Rightarrow> Q (Ok y) a
      | Exited n \<Rightarrow> Q (Exited n) a | Fault \<Rightarrow> Q Fault a)" if "?I x u" "body x u = Some (r', u')" for x u r' u'
  proof -
    from that(1) obtain a where a: "flash_log fd s u a" "J x a" by blast
    from flash_log_next [OF a(1) s] have u: "mapped fd u" "(vmap u, ram u) = M" by auto
    show ?thesis by (rule flash_runsD [OF body [OF a(2)] u that(2)]) (use flash_log_trans [OF a(1)] in blast)
  qed
  have "(\<lambda>(r, t). \<exists>a. flash_log fd s t a \<and> Q r a) (r, t)"
    by (rule iterate_invariant [where I = ?I, OF run])
      (use b flash_log_refl start in \<open>fastforce split: res.splits sum.splits\<close>)+
  then show "\<exists>a. flash_log fd s t a \<and> Q r a" by simp
qed

section \<open>The two cycles\<close>

lemma addr_word:
  assumes "addr \<le> 0x7FFFFF"
  shows "bit (0x80000000 + addr :: u32) 31" and "(0x80000000 + addr) AND mask 31 = addr" and "\<not> bit addr 31"
proof -
  have u: "uint addr \<le> 0x7FFFFF" "0 \<le> uint addr" using assms by (simp_all add: word_le_def)
  then have w: "uint (0x80000000 + addr) = 0x80000000 + uint addr" by (simp add: uint_word_ariths)
  have top: "bit v 31 \<longleftrightarrow> odd (uint v div 2 ^ 31)" for v :: u32
  proof -
    have "bit v 31 \<longleftrightarrow> bit (uint v) 31" by (simp add: bit_uint_iff)
    then show ?thesis by (simp only: bit_iff_odd)
  qed
  have "(0x80000000 + uint addr) div 2 ^ 31 = 1" "uint addr div 2 ^ 31 = 0"
    using u by (simp_all add: int_div_pos_eq [of _ _ 1 "uint addr"])
  then show "bit (0x80000000 + addr :: u32) 31" "\<not> bit addr 31" unfolding top w by simp_all
  show "(0x80000000 + addr) AND mask 31 = addr"
  proof -
    have "uint (take_bit 31 (0x80000000 + addr)) = take_bit 31 (uint (0x80000000 + addr))"
      by (rule unsigned_take_bit_eq)
    also have "\<dots> = (0x80000000 + uint addr) mod 2 ^ 31" by (simp only: w take_bit_eq_mod)
    also have "\<dots> = uint addr" using u by simp
    finally show ?thesis by (simp only: word_uint_eq_iff take_bit_eq_mask)
  qed
qed

lemma write_cycle:
  assumes "addr \<le> 0x7FFFFF"
  shows "flash_runs fd M (flash_write E fd addr data) (\<lambda>r a. r = Ok () \<and> a = [FW addr data])"
proof (rule flash_runsI)
  fix s r t
  assume s: "mapped fd s" and run: "flash_write E fd addr data s = Some (r, t)"
  obtain v0 s0 where v0: "reg_read E fd FLASH_ADDR s = Some (Ok v0, s0)" "polled fd v0 s s0"
    using polled_once [OF s] by blast
  let ?rest = "\<lambda>_. bnd (reg_write fd FLASH_DATA (ucast data)) (\<lambda>_. reg_write fd FLASH_ADDR (0x80000000 + addr))"
  have "bnd (iterate (flash_busy_round E fd) v0) ?rest s0 = Some (r, t)"
    using run v0(1) assms by (simp add: flash_write_def flash_idle_def bnd_assoc leD)
  then obtain r1 s1 where it: "iterate (flash_busy_round E fd) v0 s0 = Some (r1, s1)"
    and rest: "bnd (\<lambda>_. Some (r1, s1)) ?rest s0 = Some (r, t)"
    by (cases "iterate (flash_busy_round E fd) v0 s0") (auto simp: bnd_def)
  from poll_loop [OF it flash_busy_round_def v0(2) s] obtain v where v: "r1 = Ok ()" "v = 0" "polled fd v s s1"
    by auto
  then obtain evs where evs: "s1 = s\<lparr>trace := trace s @ evs\<rparr>"
    "\<And>c. interp (fl_event fd) evs c = Some (c\<lparr>free := True, valid := False\<rparr>, [])"
    by (auto simp: polled_def)
  let ?w = "[RegWr fd FLASH_DATA (ucast data), RegWr fd FLASH_ADDR (0x80000000 + addr)]"
  have t: "r = Ok ()" "t = s\<lparr>trace := trace s @ evs @ ?w\<rparr>"
    using rest v(1) s by (simp_all add: evs(1) reg_write_mapped)
  have "(ucast (ucast data :: u32) :: u16) = data" by (rule bit_word_eqI) (auto simp: bit_simps)
  then have "\<exists>c'. interp (fl_event fd) (evs @ ?w) c = Some (c', [FW addr data])" for c
    using interp_append [OF evs(2), where ys = ?w] addr_word [OF assms]
    by (simp add: reg_addr_defs)
  with t show "\<exists>a. flash_log fd s t a \<and> r = Ok () \<and> a = [FW addr data]"
    by (simp add: flash_log_def)
qed

lemma read_cycle:
  assumes "addr \<le> 0x7FFFFF"
  shows "flash_runs fd M (flash_read E fd addr) (\<lambda>r a. \<exists>v. r = Ok v \<and> a = [FR addr v])"
proof (rule flash_runsI)
  fix s r t
  assume s: "mapped fd s" and run: "flash_read E fd addr s = Some (r, t)"
  let ?s = "s\<lparr>trace := trace s @ [RegWr fd FLASH_ADDR addr]\<rparr>"
  have ms: "mapped fd ?s" using s by simp
  obtain v0 s0 where v0: "reg_read E fd FLASH_ADDR ?s = Some (Ok v0, s0)" "polled fd v0 ?s s0"
    using polled_once [OF ms] by blast
  let ?rest = "\<lambda>_. bnd (reg_read E fd FLASH_DATA) (\<lambda>w. ret (ucast w))"
  have "bnd (iterate (flash_valid_round E fd) v0) ?rest s0 = Some (r, t)"
    using run v0(1) assms s by (simp add: flash_read_def leD reg_write_mapped)
  then obtain r1 s1 where it: "iterate (flash_valid_round E fd) v0 s0 = Some (r1, s1)"
    and rest: "bnd (\<lambda>_. Some (r1, s1)) ?rest s0 = Some (r, t)"
    by (cases "iterate (flash_valid_round E fd) v0 s0") (auto simp: bnd_def)
  from poll_loop [OF it flash_valid_round_def v0(2) ms] obtain v where v: "r1 = Ok ()" "v AND 1 \<noteq> 0" "polled fd v ?s s1"
    by auto
  have "bit v 0" using v(2) by (simp add: bit_0 and_one_eq mod_2_eq_odd split: if_splits)
  with v(3) obtain evs where evs: "s1 = s\<lparr>trace := trace s @ RegWr fd FLASH_ADDR addr # evs\<rparr>"
    "\<And>c. interp (fl_event fd) evs c = Some (c\<lparr>free := v = 0, valid := True\<rparr>, [])"
    by (auto simp: polled_def)
  let ?w = "dev E (trace s1) fd FLASH_DATA"
  have t: "r = Ok (ucast ?w)" "t = s\<lparr>trace := trace s @ RegWr fd FLASH_ADDR addr # evs @ [RegRd fd FLASH_DATA ?w]\<rparr>"
    using rest v(1) s by (simp_all add: evs(1) reg_read_mapped)
  have "\<exists>c'. interp (fl_event fd) (RegWr fd FLASH_ADDR addr # evs @ [RegRd fd FLASH_DATA ?w]) c = Some (c', [FR addr (ucast ?w)])" for c
    using interp_append [OF evs(2), where ys = "[RegRd fd FLASH_DATA ?w]"] addr_word [OF assms]
    by (simp add: reg_addr_defs)
  with t show "\<exists>a. flash_log fd s t a \<and> (\<exists>v. r = Ok v \<and> a = [FR addr v])"
    by (simp add: flash_log_def)
qed

section \<open>The chip\<close>

text \<open>
  The command set of the chip, as far as the library uses it to erase, program, lock and read.
  \<open>Shown\<close>: a word read while the chip shows its array. A buffer is granted by the status after
  its request; then come the count less one, that many words and one more, and a confirmation.
\<close>

datatype mode = Array | Ident | Status

datatype chip = Idle mode | Setup u16 | Asked u32 | Granted u32 | Filling u32 nat "(u32 \<times> u16) list"

datatype flash_act = Erased u32 | Programmed u32 u16 | Shown u32 u16

fun chip_step :: "cycle \<Rightarrow> chip \<Rightarrow> (chip \<times> flash_act list) option" where
  "chip_step (FR a v) c = (case c of
       Idle m \<Rightarrow> Some (c, if m = Array then [Shown a v] else [])
     | Asked b \<Rightarrow> if a = b \<and> SR_bit 7 v then Some (Granted b, []) else Some (Idle Status, [])
     | _ \<Rightarrow> None)"
| "chip_step (FW a d) c = (case c of
       Idle m \<Rightarrow>
         if d = 0xE8 then Some (Asked a, [])
         else if d = 0x40 \<or> d = 0x20 \<or> d = 0x60 then Some (Setup d, [])
         else if d = 0xFF then Some (Idle Array, [])
         else if d = 0x90 then Some (Idle Ident, [])
         else if d = 0x50 then Some (c, [])
         else None
     | Setup k \<Rightarrow>
         if k = 0x40 then Some (Idle Status, [Programmed a d])
         else if k = 0x20 then (if d = 0xD0 then Some (Idle Status, [Erased a]) else None)
         else Some (Idle Status, [])
     | Asked b \<Rightarrow> None
     | Granted b \<Rightarrow> if a = b then Some (Filling b (Suc (unat d)) [], []) else None
     | Filling b n ws \<Rightarrow> (case n of
           Suc k \<Rightarrow> Some (Filling b k (ws @ [(a, d)]), [])
         | 0 \<Rightarrow> if a = b \<and> d = 0xD0 then Some (Idle Status, map (\<lambda>(x, y). Programmed x y) ws) else None))"

text \<open>
  From the chip state \<open>c\<close>, the cycles of every run of \<open>m\<close> that ends are commands carried
  through, and the outcome, the chip's new state and the actions satisfy \<open>Q\<close>.
\<close>

definition chip_runs :: "int \<Rightarrow> (u64 \<Rightarrow> cell) \<times> (cell \<Rightarrow> u8) \<Rightarrow> chip \<Rightarrow> 'a nac \<Rightarrow>
    ('a res \<Rightarrow> chip \<Rightarrow> flash_act list \<Rightarrow> bool) \<Rightarrow> bool" where
  "chip_runs fd M c m Q \<longleftrightarrow> flash_runs fd M m (\<lambda>r a. \<exists>c' d. interp chip_step a c = Some (c', d) \<and> Q r c' d)"

lemma chip_bnd:
  assumes m: "chip_runs fd M c m P"
    and ok: "\<And>v c' d. P (Ok v) c' d \<Longrightarrow> chip_runs fd M c' (f v) (\<lambda>r c'' e. Q r c'' (d @ e))"
    and ex: "\<And>n c' d. P (Exited n) c' d \<Longrightarrow> Q (Exited n) c' d"
    and fl: "\<And>c' d. P Fault c' d \<Longrightarrow> Q Fault c' d"
  shows "chip_runs fd M c (bnd m f) Q"
  unfolding chip_runs_def
proof (rule flash_bnd [OF m [unfolded chip_runs_def]])
  fix v a
  assume "\<exists>c' d. interp chip_step a c = Some (c', d) \<and> P (Ok v) c' d"
  then obtain c' d where c': "interp chip_step a c = Some (c', d)" "P (Ok v) c' d" by blast
  show "flash_runs fd M (f v) (\<lambda>r b. \<exists>c' d. interp chip_step (a @ b) c = Some (c', d) \<and> Q r c' d)"
    by (rule flash_mono [OF ok [OF c'(2), unfolded chip_runs_def]]) (use interp_append [OF c'(1)] in blast)
qed (use ex fl in blast)+

lemma chip_mono:
  "chip_runs fd M c m Q \<Longrightarrow> (\<And>r c' d. Q r c' d \<Longrightarrow> Q' r c' d) \<Longrightarrow> chip_runs fd M c m Q'"
  unfolding chip_runs_def by (rule flash_mono) blast+

lemma chip_ret: "Q (Ok v) c [] \<Longrightarrow> chip_runs fd M c (ret v) Q"
  unfolding chip_runs_def by (rule flash_ret) simp

lemma chip_exit: "Q (Exited n) c [] \<Longrightarrow> chip_runs fd M c (exit_with n) Q"
  unfolding chip_runs_def by (rule flash_exit) simp

lemma chip_write:
  assumes "addr \<le> 0x7FFFFF" and "chip_step (FW addr data) c = Some (c', d)" and "Q (Ok ()) c' d"
  shows "chip_runs fd M c (flash_write E fd addr data) Q"
  unfolding chip_runs_def by (rule flash_mono [OF write_cycle [OF assms(1)]]) (use assms(2,3) in simp)

lemma chip_read:
  assumes "addr \<le> 0x7FFFFF" and "\<And>v. \<exists>c' d. chip_step (FR addr v) c = Some (c', d) \<and> Q (Ok v) c' d"
  shows "chip_runs fd M c (flash_read E fd addr) Q"
  unfolding chip_runs_def
proof (rule flash_mono [OF read_cycle [OF assms(1)]])
  fix r a
  assume "\<exists>v. r = Ok v \<and> a = [FR addr v]"
  then obtain v where v: "r = Ok v" "a = [FR addr v]" by blast
  from assms(2) [of v] v show "\<exists>c' d. interp chip_step a c = Some (c', d) \<and> Q r c' d" by auto
qed

text \<open>The status poll: the words it rejected, then the one it accepted.\<close>

lemma status_cycles:
  assumes "addr \<le> 0x7FFFFF"
  shows "flash_runs fd M (status_until E fd addr ok)
     (\<lambda>r a. \<exists>vs v. r = Ok v \<and> a = map (FR addr) (vs @ [v]) \<and> ok v \<and> (\<forall>x \<in> set vs. \<not> ok x))"
  unfolding status_until_def
proof (rule flash_iterate [where J = "\<lambda>_ a. \<exists>vs. a = map (FR addr) vs \<and> (\<forall>x \<in> set vs. \<not> ok x)"])
  fix x :: unit and a
  assume "\<exists>vs. a = map (FR addr) vs \<and> (\<forall>x \<in> set vs. \<not> ok x)"
  then obtain vs where vs: "a = map (FR addr) vs" "\<forall>x \<in> set vs. \<not> ok x" by blast
  have again: "\<exists>ws. a @ [FR addr v] = map (FR addr) ws \<and> (\<forall>x \<in> set ws. \<not> ok x)" if "\<not> ok v" for v
    by (rule exI [where x = "vs @ [v]"]) (use vs that in auto)
  have fin: "\<exists>ws w. v = w \<and> a @ [FR addr v] = map (FR addr) (ws @ [w]) \<and> ok w \<and> (\<forall>x \<in> set ws. \<not> ok x)" if "ok v" for v
    by (rule exI [where x = vs]) (use vs that in auto)
  show "flash_runs fd M (status_round E fd addr ok x) (\<lambda>r b. case r of
        Ok (Inl x') \<Rightarrow> \<exists>vs. a @ b = map (FR addr) vs \<and> (\<forall>x \<in> set vs. \<not> ok x)
      | Ok (Inr y) \<Rightarrow> \<exists>vs v. Ok y = Ok v \<and> a @ b = map (FR addr) (vs @ [v]) \<and> ok v \<and> (\<forall>x \<in> set vs. \<not> ok x)
      | Exited n \<Rightarrow> \<exists>vs v. Exited n = Ok v \<and> a @ b = map (FR addr) (vs @ [v]) \<and> ok v \<and> (\<forall>x \<in> set vs. \<not> ok x)
      | Fault \<Rightarrow> \<exists>vs v. Fault = Ok v \<and> a @ b = map (FR addr) (vs @ [v]) \<and> ok v \<and> (\<forall>x \<in> set vs. \<not> ok x))"
    unfolding status_round_def
    by (rule flash_bnd [OF read_cycle [OF assms]]) (use again fin in \<open>auto intro!: flash_ret split: sum.split\<close>)
qed simp

lemma chip_status:
  assumes "addr \<le> 0x7FFFFF" and "\<And>v. ok v \<Longrightarrow> Q (Ok v) (Idle Status) []"
  shows "chip_runs fd M (Idle Status) (status_until E fd addr ok) Q"
proof -
  have "interp chip_step (map (FR addr) vs) (Idle Status) = Some (Idle Status, [])" for vs
    by (induction vs) simp_all
  note i = this
  show ?thesis
    unfolding chip_runs_def
  proof (rule flash_mono [OF status_cycles [OF assms(1)]])
    fix r a
    assume "\<exists>vs v. r = Ok v \<and> a = map (FR addr) (vs @ [v]) \<and> ok v \<and> (\<forall>x \<in> set vs. \<not> ok x)"
    then obtain vs v where "r = Ok v" "a = map (FR addr) (vs @ [v])" "ok v" by blast
    with assms(2) i [of "vs @ [v]"] show "\<exists>c' d. interp chip_step a (Idle Status) = Some (c', d) \<and> Q r c' d" by auto
  qed
qed

section \<open>Commands\<close>

lemma program_status_chip:
  "chip_runs fd M c (program_status v) (\<lambda>r c' d. c' = c \<and> d = [] \<and> r \<noteq> Fault)"
  by (auto simp: program_status_def intro: chip_exit chip_ret)

lemma erase_status_chip:
  "chip_runs fd M c (erase_status v) (\<lambda>r c' d. c' = c \<and> d = [] \<and> r \<noteq> Fault)"
  by (auto simp: erase_status_def intro: chip_exit chip_ret)

lemma word_program_chip:
  assumes "addr \<le> 0x7FFFFF"
  shows "chip_runs fd M (Idle m) (word_program E fd addr data)
     (\<lambda>r c d. c = Idle Status \<and> d = [Programmed addr data] \<and> r \<noteq> Fault)"
proof -
  have *: "chip_runs fd M (Idle Status) (bnd (status_until E fd addr (SR_bit 7)) program_status)
     (\<lambda>r c d. c = Idle Status \<and> d = [] \<and> r \<noteq> Fault)"
    by (rule chip_bnd [where P = "\<lambda>r c d. r \<noteq> Fault \<and> (\<exists>v. r = Ok v) \<and> c = Idle Status \<and> d = []"])
      (auto intro: chip_status assms chip_mono [OF program_status_chip])
  show ?thesis
    unfolding word_program_def
    by (rule chip_bnd [OF chip_write [OF assms, where Q = "\<lambda>r c d. r = Ok () \<and> c = Setup 0x40 \<and> d = []"]], simp, simp,
        rule chip_bnd [OF chip_write [OF assms, where Q = "\<lambda>r c d. r = Ok () \<and> c = Idle Status \<and> d = [Programmed addr data]"]])
      (auto intro: chip_mono [OF *])
qed

lemma block_erase_chip:
  assumes "ucast bank * 0x80000 \<le> (0x7FFFFF :: u32)" and "block_addr bank block \<le> 0x7FFFFF"
  shows "chip_runs fd M (Idle m) (block_erase E fd bank block)
     (\<lambda>r c d. c = Idle Status \<and> d = [Erased (block_addr bank block)] \<and> r \<noteq> Fault)"
proof -
  have *: "chip_runs fd M (Idle Status) (bnd (status_until E fd (ucast bank * 0x80000) (SR_bit 7)) erase_status)
     (\<lambda>r c d. c = Idle Status \<and> d = [] \<and> r \<noteq> Fault)"
    by (rule chip_bnd [where P = "\<lambda>r c d. r \<noteq> Fault \<and> (\<exists>v. r = Ok v) \<and> c = Idle Status \<and> d = []"])
      (auto intro: chip_status assms chip_mono [OF erase_status_chip])
  show ?thesis
    unfolding block_erase_def
    by (rule chip_bnd [OF chip_write [OF assms(1), where Q = "\<lambda>r c d. r = Ok () \<and> c = Setup 0x20 \<and> d = []"]], simp, simp,
        rule chip_bnd [OF chip_write [OF assms(2), where Q = "\<lambda>r c d. r = Ok () \<and> c = Idle Status \<and> d = [Erased (block_addr bank block)]"]])
      (auto intro: chip_mono [OF *])
qed

lemma block_unlock_chip:
  assumes "ucast bank * 0x80000 \<le> (0x7FFFFF :: u32)" and "block_addr bank block \<le> 0x7FFFFF"
    and "block_addr bank block + 2 \<le> 0x7FFFFF"
  shows "chip_runs fd M (Idle m) (block_unlock E fd bank block) (\<lambda>r c d. c = Idle Ident \<and> d = [] \<and> r \<noteq> Fault)"
proof -
  have *: "chip_runs fd M (Idle Ident) (bnd (flash_read E fd (block_addr bank block + 2))
      (\<lambda>result16. if result16 \<noteq> 0 then exit_with 1 else ret ())) (\<lambda>r c d. c = Idle Ident \<and> d = [] \<and> r \<noteq> Fault)"
    by (rule chip_bnd [OF chip_read [OF assms(3), where Q = "\<lambda>r c d. (\<exists>v. r = Ok v) \<and> c = Idle Ident \<and> d = []"]])
      (auto intro: chip_exit chip_ret)
  show ?thesis
    unfolding block_unlock_def
    by (rule chip_bnd [OF chip_write [OF assms(1), where Q = "\<lambda>r c d. r = Ok () \<and> c = Setup 0x60 \<and> d = []"]], simp, simp,
        rule chip_bnd [OF chip_write [OF assms(2), where Q = "\<lambda>r c d. r = Ok () \<and> c = Idle Status \<and> d = []"]], simp, simp,
        rule chip_bnd [OF chip_write [OF assms(1), where Q = "\<lambda>r c d. r = Ok () \<and> c = Idle Ident \<and> d = []"]])
      (auto intro: chip_mono [OF *])
qed

section \<open>Buffers, blocks and banks\<close>

text \<open>A word of the process's private memory, and an array of them.\<close>

definition half_at :: "(u64 \<Rightarrow> cell) \<times> (cell \<Rightarrow> u8) \<Rightarrow> u64 \<Rightarrow> u16 option" where
  "half_at M a = (case (fst M a, fst M (a + 1)) of
       (Priv x, Priv y) \<Rightarrow> Some (ucast (snd M (Priv y)) * 256 + ucast (snd M (Priv x))) | _ \<Rightarrow> None)"

definition data_at :: "(u64 \<Rightarrow> cell) \<times> (cell \<Rightarrow> u8) \<Rightarrow> u64 \<Rightarrow> u16 list \<Rightarrow> bool" where
  "data_at M p ws \<longleftrightarrow> (\<forall>k < length ws. half_at M (p + 2 * of_nat k) = Some (ws ! k))"

lemma read_half_chip:
  assumes "half_at M a = Some w"
  shows "chip_runs fd M c (read_half E a) (\<lambda>r c' d. r = Ok w \<and> c' = c \<and> d = [])"
proof -
  from assms obtain x y where xy: "fst M a = Priv x" "fst M (a + 1) = Priv y"
    "w = ucast (snd M (Priv y)) * 256 + ucast (snd M (Priv x))"
    by (auto simp: half_at_def split: cell.splits)
  have "read_half E a s = Some (Ok w, s)" if "(vmap s, ram s) = M" for s
    using xy that by (auto simp: read_half_def read_byte_def bnd_def)
  then show ?thesis
    unfolding chip_runs_def by (intro flash_runsI exI [of _ "[]"]) (auto simp: flash_log_refl)
qed

lemma fill_chip:
  assumes "\<And>k. k \<in> set ks \<Longrightarrow> half_at M (p + 2 * of_nat k) = Some (w k) \<and> a + of_nat k \<le> 0x7FFFFF"
  shows "chip_runs fd M (Filling b (length ks) ws) (for_each ks (buffer_word E fd a p))
     (\<lambda>r c d. r = Ok () \<and> c = Filling b 0 (ws @ map (\<lambda>k. (a + of_nat k, bit_swap (w k))) ks) \<and> d = [])"
  using assms
proof (induction ks arbitrary: ws)
  case (Cons k ks)
  from Cons.prems have k: "half_at M (p + 2 * of_nat k) = Some (w k)" "a + of_nat k \<le> 0x7FFFFF" by auto
  have "chip_runs fd M (Filling b (length (k # ks)) ws) (buffer_word E fd a p k)
     (\<lambda>r c d. r = Ok () \<and> c = Filling b (length ks) (ws @ [(a + of_nat k, bit_swap (w k))]) \<and> d = [])"
    unfolding buffer_word_def
    by (rule chip_bnd [OF read_half_chip [OF k(1)]]) (auto intro: chip_write k(2))
  note first = this
  have "chip_runs fd M (Filling b (length ks) (ws @ [(a + of_nat k, bit_swap (w k))])) (for_each ks (buffer_word E fd a p))
     (\<lambda>r c d. r = Ok () \<and> c = Filling b 0 (ws @ map (\<lambda>k. (a + of_nat k, bit_swap (w k))) (k # ks)) \<and> d = [])"
    using Cons.IH [of "ws @ [(a + of_nat k, bit_swap (w k))]"] Cons.prems by simp
  note rest = this
  show ?case
    unfolding for_each.simps by (rule chip_bnd [OF first]) (use rest in auto)
qed (simp add: chip_ret)

lemma request_chip:
  assumes "a \<le> 0x7FFFFF"
  shows "chip_runs fd M (Idle m) (iterate (buffer_request_round E fd a) ())
     (\<lambda>r c d. r = Ok () \<and> c = Granted a \<and> d = [])"
  unfolding chip_runs_def
proof (rule flash_iterate [where J = "\<lambda>_ b. \<exists>m'. interp chip_step b (Idle m) = Some (Idle m', [])"])
  fix x :: unit and b
  assume "\<exists>m'. interp chip_step b (Idle m) = Some (Idle m', [])"
  then obtain m' where m': "interp chip_step b (Idle m) = Some (Idle m', [])" by blast
  have "chip_runs fd M (Idle m') (buffer_request_round E fd a x)
      (\<lambda>r c d. d = [] \<and> (r = Ok (Inl ()) \<and> c = Idle Status \<or> r = Ok (Inr ()) \<and> c = Granted a))"
    unfolding buffer_request_round_def
    by (rule chip_bnd [OF chip_write [OF assms, where Q = "\<lambda>r c d. r = Ok () \<and> c = Asked a \<and> d = []"]], simp, simp,
        rule chip_bnd [OF chip_read [OF assms, where Q = "\<lambda>r c d. d = [] \<and>
          (\<exists>v. r = Ok v \<and> c = (if SR_bit 7 v then Granted a else Idle Status))"]])
      (auto intro!: chip_ret)
  then show "flash_runs fd M (buffer_request_round E fd a x) (\<lambda>r b'. case r of
        Ok (Inl x') \<Rightarrow> \<exists>m'. interp chip_step (b @ b') (Idle m) = Some (Idle m', [])
      | Ok (Inr y) \<Rightarrow> \<exists>c' d. interp chip_step (b @ b') (Idle m) = Some (c', d) \<and> Ok y = Ok () \<and> c' = Granted a \<and> d = []
      | Exited n \<Rightarrow> \<exists>c' d. interp chip_step (b @ b') (Idle m) = Some (c', d) \<and> Exited n = Ok () \<and> c' = Granted a \<and> d = []
      | Fault \<Rightarrow> \<exists>c' d. interp chip_step (b @ b') (Idle m) = Some (c', d) \<and> Fault = Ok () \<and> c' = Granted a \<and> d = [])"
    unfolding chip_runs_def
    by (rule flash_mono) (use interp_append [OF m'] in fastforce)
qed simp

lemma buffer_program_chip:
  assumes n: "0 \<le> n" "n \<le> 31" and addr: "uint a + n \<le> 0x7FFFFF"
    and data: "\<And>k. k \<le> nat n \<Longrightarrow> half_at M (p + 2 * of_nat k) = Some (w k)"
  shows "chip_runs fd M (Idle m) (buffer_program E fd a n p)
     (\<lambda>r c d. c = Idle Status \<and> d = map (\<lambda>k. Programmed (a + of_nat k) (bit_swap (w k))) [0..<Suc (nat n)] \<and> r \<noteq> Fault)"
proof -
  have a0: "a \<le> 0x7FFFFF" using addr n by (simp add: word_le_def)
  have ak: "a + of_nat k \<le> 0x7FFFFF" if "k \<le> nat n" for k
  proof -
    have k: "int k \<le> n" using that n by linarith
    then have "uint (of_nat k :: u32) = int k" using n uint_of_small [of "int k"] by simp
    then have "uint (a + of_nat k) = uint a + int k" using addr k n by (subst uint_add_small) simp_all
    then show ?thesis using addr k by (simp add: word_le_def)
  qed
  have cnt: "unat (word_of_int n :: u16) = nat n"
    using n by (simp add: unat_eq_nat_uint uint_word_of_int)
  have status: "chip_runs fd M (Idle Status) (bnd (status_until E fd a (SR_bit 7)) program_status)
     (\<lambda>r c d. c = Idle Status \<and> d = [] \<and> r \<noteq> Fault)"
    by (rule chip_bnd [where P = "\<lambda>r c d. r \<noteq> Fault \<and> (\<exists>v. r = Ok v) \<and> c = Idle Status \<and> d = []"])
      (auto intro: chip_status a0 chip_mono [OF program_status_chip])
  define ks where "ks = [0..<Suc (nat n)]"
  have ks: "length ks = Suc (nat n)" "k \<in> set ks \<longleftrightarrow> k \<le> nat n" for k by (auto simp: ks_def)
  let ?ws = "map (\<lambda>k. (a + of_nat k, bit_swap (w k))) ks"
  have fill: "chip_runs fd M (Filling a (Suc (nat n)) []) (for_each ks (buffer_word E fd a p))
     (\<lambda>r c d. r = Ok () \<and> c = Filling a 0 ?ws \<and> d = [])"
    using fill_chip [of ks M p w a fd a "[]" E] data ak ks by simp
  have rest: "chip_runs fd M (Filling a 0 ?ws) (bnd (flash_write E fd a 0xD0)
      (\<lambda>_. bnd (status_until E fd a (SR_bit 7)) program_status))
     (\<lambda>r c d. c = Idle Status \<and> d = map (\<lambda>(x, y). Programmed x y) ?ws \<and> r \<noteq> Fault)"
    by (rule chip_bnd [OF chip_write [OF a0, where Q = "\<lambda>r c d. r = Ok () \<and> c = Idle Status \<and> d = map (\<lambda>(x, y). Programmed x y) ?ws"]])
      (auto intro: chip_mono [OF status])
  have filled: "chip_runs fd M (Filling a (Suc (nat n)) []) (bnd (for_each ks (buffer_word E fd a p))
      (\<lambda>_. bnd (flash_write E fd a 0xD0) (\<lambda>_. bnd (status_until E fd a (SR_bit 7)) program_status)))
     (\<lambda>r c d. c = Idle Status \<and> d = map (\<lambda>(x, y). Programmed x y) ?ws \<and> r \<noteq> Fault)"
    by (rule chip_bnd [OF fill]) (auto intro: chip_mono [OF rest])
  have counted: "chip_runs fd M (Granted a) (bnd (flash_write E fd a (word_of_int n)) (\<lambda>_. bnd (for_each ks (buffer_word E fd a p))
      (\<lambda>_. bnd (flash_write E fd a 0xD0) (\<lambda>_. bnd (status_until E fd a (SR_bit 7)) program_status))))
     (\<lambda>r c d. c = Idle Status \<and> d = map (\<lambda>(x, y). Programmed x y) ?ws \<and> r \<noteq> Fault)"
    by (rule chip_bnd [OF chip_write [OF a0, where Q = "\<lambda>r c d. r = Ok () \<and> c = Filling a (Suc (nat n)) [] \<and> d = []"]])
      (auto simp: cnt intro: chip_mono [OF filled])
  have "chip_runs fd M (Idle m) (buffer_program E fd a n p)
     (\<lambda>r c d. c = Idle Status \<and> d = map (\<lambda>(x, y). Programmed x y) ?ws \<and> r \<noteq> Fault)"
    unfolding buffer_program_def ks_def [symmetric]
    by (simp only: not_less [THEN iffD2, OF n(1)] not_less [THEN iffD2, OF n(2)] if_False simp_thms,
        rule chip_bnd [OF request_chip [OF a0]]) (auto intro: chip_mono [OF counted])
  then show ?thesis unfolding ks_def [symmetric] by (simp add: comp_def)
qed

text \<open>
  A program that, from any idle mode, programs the words of \<open>acts\<close> in order: all of them when
  it returns, the first ones of them when the process ends on a status error.
\<close>

definition programs :: "int \<Rightarrow> (u64 \<Rightarrow> cell) \<times> (cell \<Rightarrow> u8) \<Rightarrow> unit nac \<Rightarrow> flash_act list \<Rightarrow> bool" where
  "programs fd M p acts \<longleftrightarrow> (\<forall>m. chip_runs fd M (Idle m) p (\<lambda>r c d. (\<exists>m'. c = Idle m') \<and> r \<noteq> Fault \<and>
     (\<exists>later. acts = d @ later \<and> (r = Ok () \<longrightarrow> later = []))))"

lemma programs_bnd:
  assumes "programs fd M p xs" and "programs fd M q ys"
  shows "programs fd M (bnd p (\<lambda>_. q)) (xs @ ys)"
  unfolding programs_def
proof
  fix m
  show "chip_runs fd M (Idle m) (bnd p (\<lambda>_. q)) (\<lambda>r c d. (\<exists>m'. c = Idle m') \<and> r \<noteq> Fault \<and>
     (\<exists>later. xs @ ys = d @ later \<and> (r = Ok () \<longrightarrow> later = [])))"
  proof (rule chip_bnd [OF assms(1) [unfolded programs_def, rule_format]], goal_cases)
    case (1 v c' d)
    then obtain m' where "c' = Idle m'" "d = xs" by auto
    then show ?case
      using assms(2) [unfolded programs_def, rule_format] by (auto intro: chip_mono)
  qed auto
qed

lemma programs_each:
  "(\<And>x. x \<in> set xs \<Longrightarrow> programs fd M (f x) (acts x)) \<Longrightarrow> programs fd M (for_each xs f) (concat (map acts xs))"
proof (induction xs)
  case Nil
  show ?case unfolding programs_def for_each.simps by (auto intro!: chip_ret)
next
  case (Cons x xs)
  then show ?case by (simp add: programs_bnd)
qed

lemma concat_chunks:
  "concat (map (\<lambda>i. map (\<lambda>k. f (c * i + k)) [0..<c]) [0..<q]) @ map (\<lambda>k. f (c * q + k)) [0..<l] = map f [0..<c * q + l]"
proof -
  have shift: "map (\<lambda>k. f (a + k)) [0..<b] = map f [a..<a + b]" for a b
    by (rule nth_equalityI) simp_all
  have "concat (map (\<lambda>i. map f [c * i..<c * i + c]) [0..<q]) = map f [0..<c * q]" for q
  proof (induction q)
    case (Suc q)
    have "[0..<c * q + c] = [0..<c * q] @ [c * q..<c * q + c]" by (rule upt_add_eq_append) simp
    then show ?case using Suc by (simp add: add.commute)
  qed simp
  then show ?thesis unfolding shift by (simp add: upt_add_eq_append [of 0 "c * q" l])
qed

lemma parts_split:
  assumes "w \<noteq> 0" and "1 < unat c" and "parts w c = (q, l)"
  shows "unat w = unat c * unat (q - 1) + unat l \<and> 0 < unat l \<and> unat l \<le> unat c \<and> unat q = Suc (unat (q - 1))"
proof -
  have w: "0 < unat w" using assms(1) by (simp add: unat_gt_0)
  have dm: "unat (w div c) = unat w div unat c" "unat (w mod c) = unat w mod unat c"
    by (simp_all add: unat_div unat_mod)
  have sum: "unat w = unat c * (unat w div unat c) + unat w mod unat c" by simp
  have pred: "unat (q - 1) = unat q - 1" if "0 < unat q" for q :: u32
    using that unat_minus_one [of q] by (cases "q = 0") simp_all
  show ?thesis
  proof (cases "w mod c = 0")
    case True
    then have z: "unat w mod unat c = 0" using dm(2) by simp
    then have d: "0 < unat w div unat c" using w sum by (metis add_0_right mult_0_right neq0_conv)
    have ql: "q = w div c" "l = c" using assms(3) True by (auto simp: parts_def)
    have "unat w = unat c * (unat w div unat c - 1) + unat c"
      using sum z d by (cases "unat w div unat c") (simp_all add: algebra_simps)
    then show ?thesis using pred [of q] d assms(2) dm ql by simp
  next
    case False
    then have z: "0 < unat w mod unat c" using dm(2) by (metis unat_eq_zero neq0_conv)
    have ql: "q = w div c + 1" "l = w mod c" using assms(3) False by (auto simp: parts_def)
    have "unat w div unat c \<le> unat w div 2" using assms(2) by (intro div_le_mono2) simp_all
    moreover have "unat w < 2 ^ LENGTH(32)" by (rule unsigned_less)
    ultimately have "unat w div unat c + 1 < 2 ^ 32" by simp
    then have "unat q = unat w div unat c + 1"
      unfolding ql using dm by (simp add: unat_word_ariths)
    moreover have "unat w mod unat c < unat c" using assms(2) by simp
    ultimately show ?thesis using pred [of q] z sum dm ql by simp
  qed
qed

lemma uint_add_of_nat: "uint (a :: u32) + int k < 2 ^ 32 \<Longrightarrow> uint (a + of_nat k) = uint a + int k"
proof -
  assume a: "uint a + int k < 2 ^ 32"
  then have "int k < 2 ^ 32" using uint_ge_0 [of a] by linarith
  then have "uint (of_nat k :: u32) = int k" using uint_of_small [of "int k"] by simp
  with a show "uint (a + of_nat k) = uint a + int k" by (subst uint_add_small) simp_all
qed

abbreviation prog_words :: "u32 \<Rightarrow> (nat \<Rightarrow> u16) \<Rightarrow> nat \<Rightarrow> flash_act list" where
  "prog_words a w n \<equiv> map (\<lambda>k. Programmed (a + of_nat k) (bit_swap (w k))) [0..<n]"

lemma buffer_programs:
  assumes "0 < n" "n \<le> 32" and "uint a + int n \<le> 0x800000"
    and "\<And>k. k < n \<Longrightarrow> half_at M (p + 2 * of_nat k) = Some (w k)"
  shows "programs fd M (buffer_program E fd a (int n - 1) p) (prog_words a w n)"
proof -
  have n: "Suc (nat (int n - 1)) = n" using assms(1) by simp
  have "chip_runs fd M (Idle m) (buffer_program E fd a (int n - 1) p)
      (\<lambda>r c d. c = Idle Status \<and> d = prog_words a w n \<and> r \<noteq> Fault)" for m
    using buffer_program_chip [where n = "int n - 1" and a = a and M = M and p = p and w = w] assms(1-3) assms(4)
    unfolding n by fastforce
  then show ?thesis unfolding programs_def by (auto intro: chip_mono)
qed

lemma block_programs:
  assumes "w_size \<noteq> 0" and "uint (block_addr bank block) + uint w_size \<le> 0x800000"
    and "\<And>k. k < unat w_size \<Longrightarrow> half_at M (p + 2 * of_nat k) = Some (w k)"
  shows "programs fd M (block_program E fd bank block w_size p) (prog_words (block_addr bank block) w (unat w_size))"
proof -
  obtain nb l where nb: "parts w_size 32 = (nb, l)" by (cases "parts w_size 32")
  define q where "q = unat (nb - 1)"
  define a where "a = block_addr bank block"
  have sp: "unat w_size = 32 * q + unat l" "0 < unat l" "unat l \<le> 32"
    using parts_split [OF assms(1) _ nb] by (simp_all add: q_def)
  have sz: "uint w_size = 32 * int q + int (unat l)" using sp(1) by (metis uint_nat of_nat_add of_nat_mult of_nat_numeral)
  have at: "uint (a + of_nat (32 * i)) = uint a + 32 * int i" if "i \<le> q" for i
  proof -
    have "int i \<le> int q" using that by simp
    with assms(2) [folded a_def] sz have "uint a + 32 * int i < 4294967296" by linarith
    then show ?thesis using uint_add_of_nat [of a "32 * i"] by simp
  qed
  have addr: "p + 64 * of_nat i + 2 * of_nat k = p + 2 * of_nat (32 * i + k)" for i k
    by (simp add: algebra_simps)
  have bound: "i < q \<Longrightarrow> uint (a + of_nat (32 * i)) + 32 \<le> 0x800000" "uint (a + of_nat (32 * q)) + int (unat l) \<le> 0x800000" for i
    using at [of i] at [of q] assms(2) [folded a_def] sz by linarith+
  have half: "half_at M (p + 64 * of_nat i + 2 * of_nat k) = Some (w (32 * i + k))" if "32 * i + k < unat w_size" for i k
    unfolding addr by (rule assms(3)) (rule that)
  have chunk: "programs fd M (buffer_program E fd (a + of_nat (32 * i)) 31 (p + 64 * of_nat i))
      (map (\<lambda>k. Programmed (a + of_nat (32 * i + k)) (bit_swap (w (32 * i + k)))) [0..<32])" if "i < q" for i
  proof -
    have "programs fd M (buffer_program E fd (a + of_nat (32 * i)) (int 32 - 1) (p + 64 * of_nat i))
        (prog_words (a + of_nat (32 * i)) (\<lambda>k. w (32 * i + k)) 32)"
      by (rule buffer_programs) (use bound(1) [OF that] half that sp in simp_all)
    then show ?thesis by (simp add: add.assoc)
  qed
  have last: "programs fd M (buffer_program E fd (a + of_nat (32 * q)) (uint l - 1) (p + 64 * of_nat q))
      (map (\<lambda>k. Programmed (a + of_nat (32 * q + k)) (bit_swap (w (32 * q + k)))) [0..<unat l])"
  proof -
    have "programs fd M (buffer_program E fd (a + of_nat (32 * q)) (int (unat l) - 1) (p + 64 * of_nat q))
        (prog_words (a + of_nat (32 * q)) (\<lambda>k. w (32 * q + k)) (unat l))"
      by (rule buffer_programs) (use bound(2) half sp in simp_all)
    then show ?thesis by (simp add: add.assoc)
  qed
  have eq: "block_program E fd bank block w_size p =
      bnd (for_each [0..<q] (\<lambda>i. buffer_program E fd (a + of_nat (32 * i)) 31 (p + 64 * of_nat i)))
        (\<lambda>_. buffer_program E fd (a + of_nat (32 * q)) (uint l - 1) (p + 64 * of_nat q))"
    using assms(1) nb by (simp add: block_program_def a_def q_def Let_def)
  have "programs fd M (block_program E fd bank block w_size p)
     (concat (map (\<lambda>i. map (\<lambda>k. Programmed (a + of_nat (32 * i + k)) (bit_swap (w (32 * i + k)))) [0..<32]) [0..<q]) @
      map (\<lambda>k. Programmed (a + of_nat (32 * q + k)) (bit_swap (w (32 * q + k)))) [0..<unat l])"
    unfolding eq by (intro programs_bnd programs_each last) (use chunk in simp)
  then show ?thesis
    unfolding sp(1) a_def [symmetric] by (simp only: concat_chunks [where f = "\<lambda>k. Programmed (a + of_nat k) (bit_swap (w k))"])
qed

lemma block_addr_of_nat:
  "i < 256 \<Longrightarrow> block_addr bank (of_nat i) = ucast bank * 0x80000 + of_nat (65536 * i)"
proof -
  assume i: "i < 256"
  have "(ucast (of_nat i :: u8) :: u32) = of_nat i"
    using i by (simp add: word_unat_eq_iff unsigned_ucast_eq unat_of_nat take_bit_eq_mod)
  then show ?thesis by (simp add: block_addr_def)
qed

lemma bank_programs:
  assumes "bank < 16" and "0 < n" and "n \<le> 512 * 1024"
    and data: "\<And>k. k < n \<Longrightarrow> half_at M (p + 2 * of_nat k) = Some (w k)"
  shows "programs fd M (bank_program E fd bank (of_nat n) p) (prog_words (ucast bank * 0x80000) w n)"
proof -
  define a where "a = (ucast bank * 0x80000 :: u32)"
  have un: "unat (of_nat n :: u32) = n" using assms(3) by (simp add: unat_of_nat)
  obtain nb l where nb: "parts (of_nat n) BLOCK_SIZE_W = (nb, l)" by (cases "parts (of_nat n) BLOCK_SIZE_W")
  define q where "q = unat (nb - 1)"
  have C: "unat BLOCK_SIZE_W = 65536" "uint BLOCK_SIZE_W = 65536" "2 * ucast BLOCK_SIZE_W = (131072 :: u64)"
    by (simp_all add: BLOCK_SIZE_W_def)
  have n0: "(of_nat n :: u32) \<noteq> 0" using un assms(2) by (metis unat_0 less_irrefl)
  from parts_split [OF n0 _ nb] have sp: "n = 65536 * q + unat l" "0 < unat l" "unat l \<le> 65536" "unat nb = Suc q"
    using un C by (simp_all add: q_def)
  have q8: "q < 8" using sp(1,2) assms(3) by linarith
  have nb8: "unat (ucast nb :: u8) = Suc q" "ucast nb - 1 = (of_nat q :: u8)"
  proof -
    show 1: "unat (ucast nb :: u8) = Suc q" using sp(4) q8 by (simp add: unsigned_ucast_eq take_bit_eq_mod)
    have "ucast nb = (of_nat (Suc q) :: u8)" unfolding 1 [symmetric] by simp
    then show "ucast nb - 1 = (of_nat q :: u8)" by simp
  qed
  have bank: "uint a \<le> 15 * 0x80000"
  proof -
    have "uint bank \<le> 15" using assms(1) by (simp add: word_less_def)
    moreover have "uint (ucast bank :: u32) = uint bank" by (simp add: uint_up_ucast is_up)
    ultimately show ?thesis unfolding a_def by (subst uint_mult_small) simp_all
  qed
  have at: "block_addr bank (of_nat i) = a + of_nat (65536 * i)" "uint (a + of_nat (65536 * i)) = uint a + 65536 * int i" if "i \<le> q" for i
    using that q8 bank uint_add_of_nat [of a "65536 * i"] block_addr_of_nat [of i bank] by (simp_all add: a_def)
  have addr: "p + 131072 * of_nat i + 2 * of_nat k = p + 2 * of_nat (65536 * i + k)" for i k
    by (simp add: algebra_simps)
  have half: "half_at M (p + 131072 * of_nat i + 2 * of_nat k) = Some (w (65536 * i + k))" if "65536 * i + k < n" for i k
    unfolding addr by (rule data) (rule that)
  have chunk: "programs fd M (block_program E fd bank (of_nat i) BLOCK_SIZE_W (p + 131072 * of_nat i))
      (map (\<lambda>k. Programmed (a + of_nat (65536 * i + k)) (bit_swap (w (65536 * i + k)))) [0..<65536])" if "i < q" for i
  proof -
    have "programs fd M (block_program E fd bank (of_nat i) BLOCK_SIZE_W (p + 131072 * of_nat i))
        (prog_words (block_addr bank (of_nat i)) (\<lambda>k. w (65536 * i + k)) (unat BLOCK_SIZE_W))"
    proof (rule block_programs)
      show "BLOCK_SIZE_W \<noteq> 0" by (simp add: BLOCK_SIZE_W_def)
      have "int i \<le> 6" using that q8 by linarith
      then show "uint (block_addr bank (of_nat i)) + uint BLOCK_SIZE_W \<le> 0x800000"
        using at [of i] that bank C(2) by simp
    next
      fix k
      assume "k < unat BLOCK_SIZE_W"
      with that sp C show "half_at M (p + 131072 * of_nat i + 2 * of_nat k) = Some (w (65536 * i + k))"
        by (intro half) linarith
    qed
    then show ?thesis using at(1) [of i] that C by (simp add: add.assoc)
  qed
  have last: "programs fd M (block_program E fd bank (of_nat q) l (p + 131072 * of_nat q))
      (map (\<lambda>k. Programmed (a + of_nat (65536 * q + k)) (bit_swap (w (65536 * q + k)))) [0..<unat l])"
  proof -
    have "programs fd M (block_program E fd bank (of_nat q) l (p + 131072 * of_nat q))
        (prog_words (block_addr bank (of_nat q)) (\<lambda>k. w (65536 * q + k)) (unat l))"
    proof (rule block_programs)
      show "l \<noteq> 0" using sp(2) by auto
      have "int q \<le> 7" "uint l \<le> 65536" using q8 sp(3) by (linarith, metis uint_nat of_nat_le_iff of_nat_numeral)
      then show "uint (block_addr bank (of_nat q)) + uint l \<le> 0x800000"
        using at [of q] bank by simp
    next
      fix k
      assume "k < unat l"
      with sp show "half_at M (p + 131072 * of_nat q + 2 * of_nat k) = Some (w (65536 * q + k))"
        by (intro half) linarith
    qed
    then show ?thesis using at(1) [of q] by (simp add: add.assoc)
  qed
  have eq: "bank_program E fd bank (of_nat n) p =
      bnd (for_each [0..<q] (\<lambda>i. block_program E fd bank (of_nat i) BLOCK_SIZE_W (p + 131072 * of_nat i)))
        (\<lambda>_. block_program E fd bank (of_nat q) l (p + 131072 * of_nat q))"
    using n0 nb nb8 unfolding bank_program_def C(3) by (simp add: Let_def)
  have "programs fd M (bank_program E fd bank (of_nat n) p)
     (concat (map (\<lambda>i. map (\<lambda>k. Programmed (a + of_nat (65536 * i + k)) (bit_swap (w (65536 * i + k)))) [0..<65536]) [0..<q]) @
      map (\<lambda>k. Programmed (a + of_nat (65536 * q + k)) (bit_swap (w (65536 * q + k)))) [0..<unat l])"
    unfolding eq by (intro programs_bnd programs_each last) (use chunk in simp)
  then show ?thesis
    unfolding sp(1) a_def [symmetric] by (simp only: concat_chunks [where f = "\<lambda>k. Programmed (a + of_nat k) (bit_swap (w k))"])
qed

text \<open>
  C35. For an array of words in private memory and a bank below 16: \<open>bank_program\<close> with a
  size of 1 word to 512 K words makes a history that is, for the flash controller and the chip,
  a sequence of complete commands (no write to a busy controller, no data read before they are
  valid, every buffer requested, granted, counted, filled and confirmed). If it returns, the
  chip was told to program exactly the words of the array, each bit-reversed, at consecutive
  addresses from the start of the bank, in order and each once, whatever the split into blocks
  and buffers; if the process ends on a status error, a first part of them.
\<close>

theorem bank_program_exact:
  assumes "mapped fd s" and "bank < 16" and "0 < length ws" and "length ws \<le> 512 * 1024"
    and "data_at (vmap s, ram s) p ws"
    and "bank_program E fd bank (of_nat (length ws)) p s = Some (r, t)"
  shows "\<exists>cycles m d later. flash_log fd s t cycles \<and> interp chip_step cycles (Idle Array) = Some (Idle m, d) \<and>
     map (\<lambda>k. Programmed (ucast bank * 0x80000 + of_nat k) (bit_swap (ws ! k))) [0..<length ws] = d @ later \<and>
     r \<noteq> Fault \<and> (r = Ok () \<longrightarrow> later = [])"
proof -
  have p: "programs fd (vmap s, ram s) (bank_program E fd bank (of_nat (length ws)) p)
      (prog_words (ucast bank * 0x80000) (\<lambda>k. ws ! k) (length ws))"
    using bank_programs [OF assms(2-4), of "(vmap s, ram s)" p "\<lambda>k. ws ! k" fd E] assms(5) by (simp add: data_at_def)
  note run = p [unfolded programs_def chip_runs_def, rule_format, of Array]
  obtain cycles where "flash_log fd s t cycles" and "\<exists>c' d. interp chip_step cycles (Idle Array) = Some (c', d) \<and>
      (\<exists>m'. c' = Idle m') \<and> r \<noteq> Fault \<and> (\<exists>later. prog_words (ucast bank * 0x80000) (\<lambda>k. ws ! k) (length ws) = d @ later \<and>
        (r = Ok () \<longrightarrow> later = []))"
    by (rule flash_runsD [OF run assms(1) refl assms(6)])
  then show ?thesis by metis
qed

section \<open>A concrete chip\<close>

text \<open>
  A controller that is always free, with valid data right after each request: what \<open>f\<close> makes of
  the last command.
\<close>

fun last_data :: "event list \<Rightarrow> u32" where
  "last_data (RegWr f r v # es) = (if r = FLASH_DATA then v else last_data es)"
| "last_data (e # es) = last_data es"
| "last_data [] = 0"

fun asks :: "event list \<Rightarrow> bool" where
  "asks (RegWr f r v # es) = (r = FLASH_ADDR \<and> \<not> bit v 31)"
| "asks _ = False"

definition chip_env :: "(u32 \<Rightarrow> u32) \<Rightarrow> env" where
  "chip_env f = demo_env\<lparr>dev := (\<lambda>h fd a. if a = FLASH_DATA then f (last_data (rev h))
       else if asks (rev h) then 1 else 0)\<rparr>"

text \<open>Zero words after the commands 0x90 and 0xFF, a ready status after all others.\<close>

definition ready :: "u32 \<Rightarrow> u32" where
  ready_def [simp]: "ready d = (if d = 0x90 \<or> d = 0xFF then 0 else 0x80)"

abbreviation flash_env :: env where
  "flash_env \<equiv> chip_env ready"

text \<open>On it, \<open>m\<close> returns \<open>v\<close>, and the last command changes from \<open>d\<close> to \<open>d'\<close>.\<close>

definition does :: "u32 \<Rightarrow> 'a nac \<Rightarrow> 'a \<Rightarrow> u32 \<Rightarrow> bool" where
  "does d m v d' \<longleftrightarrow> (\<forall>s. mapped 3 s \<and> vmap s = Priv \<and> ram s = (\<lambda>_. 0) \<and> \<not> asks (rev (trace s)) \<and> last_data (rev (trace s)) = d \<longrightarrow>
     (\<exists>t. m s = Some (Ok v, t) \<and> mapped 3 t \<and> vmap t = Priv \<and> ram t = (\<lambda>_. 0) \<and> \<not> asks (rev (trace t)) \<and> last_data (rev (trace t)) = d'))"

named_theorems does_intros

lemma does_bnd [does_intros]: "does d m v d1 \<Longrightarrow> does d1 (f v) w d2 \<Longrightarrow> does d (bnd m f) w d2"
proof (unfold does_def, intro allI impI, elim conjE)
  fix s
  let ?ok = "\<lambda>d s. mapped 3 s \<and> vmap s = Priv \<and> ram s = (\<lambda>_. 0) \<and> \<not> asks (rev (trace s)) \<and> last_data (rev (trace s)) = d"
  assume m: "\<forall>s. ?ok d s \<longrightarrow> (\<exists>t. m s = Some (Ok v, t) \<and> ?ok d1 t)"
    and f: "\<forall>s. ?ok d1 s \<longrightarrow> (\<exists>t. f v s = Some (Ok w, t) \<and> ?ok d2 t)"
    and s: "mapped 3 s" "vmap s = Priv" "ram s = (\<lambda>_. 0)" "\<not> asks (rev (trace s))" "last_data (rev (trace s)) = d"
  from m s obtain t where t: "m s = Some (Ok v, t)" "?ok d1 t" by blast
  from f t(2) obtain u where "f v t = Some (Ok w, u)" "?ok d2 u" by blast
  with t(1) show "\<exists>t. bnd m f s = Some (Ok w, t) \<and> ?ok d2 t" by auto
qed

lemma does_ret [does_intros]: "does d (ret v) v d"
  by (simp add: does_def)

lemma does_write [does_intros]: "addr \<le> 0x7FFFFF \<Longrightarrow> d' = ucast data \<Longrightarrow> does d (flash_write (chip_env g) 3 addr data) () d'"
  using addr_word [of addr]
  by (simp add: does_def flash_write_def flash_idle_def flash_busy_round_def iterate_leave mapped_runs chip_env_def reg_addr_defs leD)

lemma does_read [does_intros]: "addr \<le> 0x7FFFFF \<Longrightarrow> does d (flash_read (chip_env g) 3 addr) (ucast (g d)) d"
  using addr_word [of addr]
  by (auto simp: does_def flash_read_def flash_valid_round_def iterate_leave mapped_runs chip_env_def reg_addr_defs leD)

lemma does_status [does_intros]:
  assumes "addr \<le> 0x7FFFFF" "v = ucast (g d)" "ok v"
  shows "does d (status_until (chip_env g) 3 addr ok) v d"
  using does_read [OF assms(1), of d g] assms(2-3)
  by (fastforce simp: does_def status_until_def status_round_def iterate_leave)

lemma does_each: "xs \<noteq> [] \<Longrightarrow> (\<And>x d. x \<in> set xs \<Longrightarrow> does d (f x) () d') \<Longrightarrow> does d (for_each xs f) () d'"
proof (induction xs arbitrary: d)
  case (Cons x xs)
  then show ?case by (cases "xs = []") (auto intro: does_bnd does_ret simp del: ret_apply)
qed simp

lemma does_half [does_intros]: "does d (read_half E a) 0 d"
  by (simp add: does_def read_half_def read_byte_def)

lemma does_demo: "does 0 m v d' \<Longrightarrow> \<exists>t. m demo_mach = Some (Ok v, t)"
  using demo_mapped by (auto simp: does_def demo_mach_def)

lemma does_program [does_intros]: "does d (program_status 0x80) () d"
  by (simp add: program_status_def SR_bit_def bit_iff_odd does_def)

lemma does_erase [does_intros]: "does d (erase_status 0x80) () d"
  by (simp add: erase_status_def SR_bit_def bit_iff_odd does_def)

lemma bank_program_demo: "does d0 (bank_program flash_env 3 0 1 p) () 0xD0"
proof -
  have "does d (buffer_request_round flash_env 3 0 ()) (Inr ()) 0xE8" for d
    unfolding buffer_request_round_def
    by (rule does_bnd [OF does_write], simp, simp, rule does_bnd [OF does_read]) (simp_all add: SR_bit_def bit_iff_odd does_ret)
  then have request: "does d (iterate (buffer_request_round flash_env 3 0) ()) () 0xE8" for d
    unfolding does_def using iterate_leave by fastforce
  have "does d0 (buffer_program flash_env 3 0 0 p) () 0xD0"
    unfolding buffer_program_def buffer_word_def
    by (simp, rule does_bnd [OF request]) (rule does_intros | simp add: SR_bit_def bit_iff_odd)+
  then show ?thesis
    by (simp add: bank_program_def block_program_def parts_def BLOCK_SIZE_W_def block_addr_def)
qed

lemma bank_program_exact_witness:
  "\<exists>t cycles m. bank_program flash_env 3 0 1 0x1000 demo_mach = Some (Ok (), t) \<and> flash_log 3 demo_mach t cycles \<and>
     interp chip_step cycles (Idle Array) = Some (Idle m, [Programmed 0 0])"
proof -
  obtain t where t: "bank_program flash_env 3 0 (of_nat (length [0 :: u16])) 0x1000 demo_mach = Some (Ok (), t)"
    using does_demo [OF bank_program_demo] by auto
  have "data_at (vmap demo_mach, ram demo_mach) 0x1000 [0]"
    by (simp add: data_at_def half_at_def demo_mach_def)
  have zero: "bit_swap 0 = 0" by (rule bit_word_eqI) (simp add: bit_bit_swap)
  from bank_program_exact [OF demo_mapped _ _ _ \<open>data_at _ _ _\<close> t] t show ?thesis
    by (auto simp: zero)
qed

end
