(* ===== verification/FlashOps.thy ===== *)
theory FlashOps
  imports FlashBus
begin

text \<open>
  What the commands of the remote update in lib/nacapi.c promise their callers: the serial
  numbers, the outcome of a command by the chip's status, the waits for the controller, and
  the data the factory command really sends.
\<close>

section \<open>Serial numbers\<close>

text \<open>Between \<open>s\<close> and \<open>t\<close> the block at \<open>a\<close> was erased and the number programmed into its first words.\<close>

definition num_written :: "int \<Rightarrow> u32 \<Rightarrow> u64 \<Rightarrow> mach \<Rightarrow> mach \<Rightarrow> bool" where
  "num_written fd a sn s t \<longleftrightarrow> (\<exists>cycles m. flash_log fd s t cycles \<and> interp chip_step cycles (Idle Array) =
     Some (Idle m, Erased a # map2 Programmed [a, a + 1, a + 2, a + 3] (sn_words sn)))"

text \<open>Between \<open>s\<close> and \<open>t\<close> the chip showed the words \<open>ws\<close> of its array from \<open>a\<close> on, and nothing was changed.\<close>

definition words_shown :: "int \<Rightarrow> u32 \<Rightarrow> u16 list \<Rightarrow> mach \<Rightarrow> mach \<Rightarrow> bool" where
  "words_shown fd a ws s t \<longleftrightarrow> length ws = 4 \<and> (\<exists>cycles m. flash_log fd s t cycles \<and>
     interp chip_step cycles (Idle Array) = Some (Idle m, map2 Shown [a, a + 1, a + 2, a + 3] ws))"

definition sn_join :: "u16 \<Rightarrow> u16 \<Rightarrow> u16 \<Rightarrow> u16 \<Rightarrow> u64" where
  "sn_join w0 w1 w2 w3 = push_bit 48 (ucast w0) OR push_bit 32 (ucast w1) OR push_bit 16 (ucast w2) OR ucast w3"

lemma sn_words_join: "sn_words sn = [w0, w1, w2, w3] \<Longrightarrow> sn_join w0 w1 w2 w3 = sn"
proof -
  have m: "(0xffff000000000000 :: u64) = push_bit 48 (mask 16)" "(0x0000ffff00000000 :: u64) = push_bit 32 (mask 16)"
    "(0x00000000ffff0000 :: u64) = push_bit 16 (mask 16)" "(0x000000000000ffff :: u64) = mask 16"
    by (simp_all add: mask_eq_exp_minus_1)
  assume "sn_words sn = [w0, w1, w2, w3]"
  then have w: "w0 = ucast (drop_bit 48 (sn AND push_bit 48 (mask 16)))" "w1 = ucast (drop_bit 32 (sn AND push_bit 32 (mask 16)))"
    "w2 = ucast (drop_bit 16 (sn AND push_bit 16 (mask 16)))" "w3 = ucast (sn AND mask 16)"
    unfolding sn_words_def m by simp_all
  show ?thesis
    unfolding sn_join_def w
  proof (rule bit_word_eqI, goal_cases)
    case (1 n)
    then consider "n < 16" | "16 \<le> n" "n < 32" | "32 \<le> n" "n < 48" | "48 \<le> n" "n < 64" by fastforce
    then show ?case by cases (auto simp: bit_simps)
  qed
qed

text \<open>Where it returns, \<open>p\<close> takes the chip from \<open>c\<close> to \<open>c'\<close> with the actions \<open>d\<close>.\<close>

definition chip_does :: "int \<Rightarrow> (u64 \<Rightarrow> cell) \<times> (cell \<Rightarrow> u8) \<Rightarrow> chip \<Rightarrow> unit nac \<Rightarrow> chip \<Rightarrow> flash_act list \<Rightarrow> bool" where
  "chip_does fd M c p c' d \<longleftrightarrow> chip_runs fd M c p (\<lambda>r c2 e. r = Ok () \<longrightarrow> c2 = c' \<and> e = d)"

lemma chip_does_bnd:
  assumes p: "chip_does fd M c p c1 d1" and q: "chip_does fd M c1 q c2 d2"
  shows "chip_does fd M c (bnd p (\<lambda>_. q)) c2 (d1 @ d2)"
  unfolding chip_does_def
  by (rule chip_bnd [OF p [unfolded chip_does_def]]) (auto intro: chip_mono [OF q [unfolded chip_does_def]])

lemma chip_does_ret: "chip_does fd M c (ret ()) c []"
  by (simp add: chip_does_def chip_ret del: ret_apply)

lemma chip_does_write:
  "addr \<le> 0x7FFFFF \<Longrightarrow> chip_step (FW addr data) c = Some (c', d) \<Longrightarrow> chip_does fd M c (flash_write E fd addr data) c' d"
  unfolding chip_does_def by (rule chip_write) auto

lemma chip_does_mono:
  "chip_runs fd M c p (\<lambda>r c2 e. c2 = c' \<and> e = d \<and> r \<noteq> Fault) \<Longrightarrow> chip_does fd M c p c' d"
  unfolding chip_does_def by (erule chip_mono) auto

lemma config_chip: "chip_does fd M (Idle m) (set_config_register E fd 0xBDDF) (Idle Status) []"
proof -
  have "chip_does fd M (Idle m) (set_config_register E fd 0xBDDF) (Idle Status) ([] @ [] @ [])"
    unfolding set_config_register_def steps.simps
    by (rule chip_does_bnd [OF chip_does_write [where c' = "Setup 0x60"]], simp, simp,
        rule chip_does_bnd [OF chip_does_write chip_does_ret]) simp_all
  then show ?thesis by simp
qed

lemma clear_chip: "chip_does fd M (Idle m) (clear_stats_regs E fd) (Idle m) []"
  unfolding clear_stats_regs_def by (rule chip_does_write) simp_all

lemma num_block: "block = 0 \<or> block = 1 \<Longrightarrow> 14 * BANK_SIZE_W + ucast block * 0x10000 = block_addr 14 block \<and>
    (block_addr 14 block = 0x700000 \<or> block_addr 14 block = 0x710000)"
  by (auto simp: block_addr_def BANK_SIZE_W_def)

lemma program_num_chip:
  assumes "block = 0 \<or> block = 1" and "a = block_addr 14 block"
  shows "chip_does fd M (Idle m) (program_num E fd block sn) (Idle Status)
     (Erased a # map2 Programmed [a, a + 1, a + 2, a + 3] (sn_words sn))"
proof -
  have al: "a \<le> 0x7FFFFF" "a + 1 \<le> 0x7FFFFF" "a + 2 \<le> 0x7FFFFF" "a + 3 \<le> 0x7FFFFF"
    using num_block [OF assms(1)] assms(2) by auto
  obtain w0 w1 w2 w3 where w: "sn_words sn = [w0, w1, w2, w3]" by (simp add: sn_words_def)
  then have nths: "sn_words sn ! 0 = w0" "sn_words sn ! 1 = w1" "sn_words sn ! 2 = w2" "sn_words sn ! 3 = w3" by simp_all
  have unlock: "chip_does fd M (Idle m) (block_unlock E fd 14 block) (Idle Ident) []" for m
    using al by (intro chip_does_mono block_unlock_chip) (simp_all add: assms(2))
  have erase: "chip_does fd M (Idle m) (block_erase E fd 14 block) (Idle Status) [Erased a]" for m
    unfolding assms(2) using al by (intro chip_does_mono block_erase_chip) (simp_all add: assms(2))
  have word: "addr \<le> 0x7FFFFF \<Longrightarrow> chip_does fd M (Idle m) (word_program E fd addr w) (Idle Status) [Programmed addr w]" for addr m w
    by (intro chip_does_mono word_program_chip)
  have "chip_does fd M (Idle m) (program_num E fd block sn) (Idle Status)
     ([] @ [] @ [] @ [Erased a] @ [Programmed a w0] @ [Programmed (a + 1) w1] @ [Programmed (a + 2) w2] @ [Programmed (a + 3) w3] @ [])"
    unfolding program_num_def num_block [OF assms(1), THEN conjunct1, folded assms(2)] Let_def steps.simps nths
    by (rule chip_does_bnd [OF config_chip], rule chip_does_bnd [OF clear_chip], rule chip_does_bnd [OF unlock],
        rule chip_does_bnd [OF erase], rule chip_does_bnd [OF word [OF al(1)]], rule chip_does_bnd [OF word [OF al(2)]],
        rule chip_does_bnd [OF word [OF al(3)]], rule chip_does_bnd [OF word [OF al(4)]], rule chip_does_ret)
  then show ?thesis by (simp add: w)
qed

lemma chip_next:
  assumes "chip_runs fd M c m (\<lambda>r c1 d1. r = Ok v \<and> c1 = k \<and> d1 = e)"
    and "chip_runs fd M k (f v) (\<lambda>r c2 e2. Q r c2 (e @ e2))"
  shows "chip_runs fd M c (bnd m f) Q"
  by (rule chip_bnd [OF assms(1)]) (use assms(2) in auto)

lemma chip_get:
  assumes "addr \<le> 0x7FFFFF" and "\<And>w. chip_runs fd M (Idle Array) (f w) (\<lambda>r c2 e2. Q r c2 (Shown addr w # e2))"
  shows "chip_runs fd M (Idle Array) (bnd (flash_read E fd addr) f) Q"
  by (rule chip_bnd [OF chip_read [OF assms(1), where Q = "\<lambda>r c d. \<exists>w. r = Ok w \<and> c = Idle Array \<and> d = [Shown addr w]"]])
    (use assms(2) in auto)

lemma fetch_num_chip:
  assumes "block = 0 \<or> block = 1" and "a = block_addr 14 block"
  shows "chip_runs fd M (Idle m) (fetch_num E fd block) (\<lambda>r c d. \<exists>w0 w1 w2 w3. r = Ok (sn_join w0 w1 w2 w3) \<and>
     c = Idle Array \<and> d = [Shown a w0, Shown (a + 1) w1, Shown (a + 2) w2, Shown (a + 3) w3])"
proof -
  have al: "a \<le> 0x7FFFFF" "a + 1 \<le> 0x7FFFFF" "a + 2 \<le> 0x7FFFFF" "a + 3 \<le> 0x7FFFFF" "14 * BANK_SIZE_W \<le> 0x7FFFFF"
    using num_block [OF assms(1)] assms(2) by (auto simp: BANK_SIZE_W_def)
  have config: "chip_runs fd M (Idle m) (set_config_register E fd 0xBDDF) (\<lambda>r c d. r = Ok () \<and> c = Idle Status \<and> d = [])"
    unfolding set_config_register_def steps.simps
    by (rule chip_next [OF chip_write [where c' = "Setup 0x60"]], simp_all,
        rule chip_next [OF chip_write [where c' = "Idle Status"]], simp_all, rule chip_ret, simp)
  have clear: "chip_runs fd M (Idle Status) (clear_stats_regs E fd) (\<lambda>r c d. r = Ok () \<and> c = Idle Status \<and> d = [])"
    unfolding clear_stats_regs_def by (rule chip_write) simp_all
  have array: "chip_runs fd M (Idle Status) (flash_write E fd (14 * BANK_SIZE_W) 0xff) (\<lambda>r c d. r = Ok () \<and> c = Idle Array \<and> d = [])"
    by (rule chip_write) (simp_all add: al)
  show ?thesis
    unfolding fetch_num_def num_block [OF assms(1), THEN conjunct1, folded assms(2)] Let_def
    by (rule chip_next [OF config], rule chip_next [OF clear], rule chip_next [OF array], rule chip_get [OF al(1)],
        rule chip_get [OF al(2)], rule chip_get [OF al(3)], rule chip_get [OF al(4)], rule chip_ret) (auto simp: sn_join_def)
qed

lemma num_written:
  assumes "block = 0 \<or> block = 1" and "mapped fd s" and "program_num E fd block sn s = Some (Ok (), t)"
  shows "num_written fd (block_addr 14 block) sn s t"
  unfolding num_written_def
  by (rule flash_runsD [OF program_num_chip [OF assms(1) refl, of fd "(vmap s, ram s)" Array, unfolded chip_does_def chip_runs_def]
      assms(2) refl assms(3)]) auto

lemma num_fetched:
  assumes "block = 0 \<or> block = 1" and "mapped fd s" and "fetch_num E fd block s = Some (r, t)"
  shows "\<exists>ws. words_shown fd (block_addr 14 block) ws s t \<and> r = Ok (sn_join (ws ! 0) (ws ! 1) (ws ! 2) (ws ! 3)) \<and>
     (\<forall>sn. ws = sn_words sn \<longrightarrow> r = Ok sn)"
proof (rule flash_runsD [OF fetch_num_chip [OF assms(1) refl, of fd "(vmap s, ram s)" Array, unfolded chip_runs_def] assms(2) refl assms(3)])
  fix cycles
  let ?a = "block_addr 14 block"
  assume c: "flash_log fd s t cycles" and "\<exists>c' d. interp chip_step cycles (Idle Array) = Some (c', d) \<and>
     (\<exists>w0 w1 w2 w3. r = Ok (sn_join w0 w1 w2 w3) \<and> c' = Idle Array \<and>
        d = [Shown ?a w0, Shown (?a + 1) w1, Shown (?a + 2) w2, Shown (?a + 3) w3])"
  then obtain w0 w1 w2 w3 where w: "r = Ok (sn_join w0 w1 w2 w3)"
    "interp chip_step cycles (Idle Array) = Some (Idle Array, [Shown ?a w0, Shown (?a + 1) w1, Shown (?a + 2) w2, Shown (?a + 3) w3])"
    by blast
  then have "words_shown fd ?a [w0, w1, w2, w3] s t" using c by (auto simp: words_shown_def)
  with w(1) sn_words_join show ?thesis by (intro exI [of _ "[w0, w1, w2, w3]"]) (auto simp: eval_nat_numeral)
qed

text \<open>
  C36. On a mapped card: when \<open>set_logic_num\<close> or \<open>set_hardware_num\<close> returns, block 0 or block 1
  of bank 14 was erased and then exactly its first four words were programmed, with the 16 bit
  parts of the number from the highest to the lowest. When \<open>read_logic_num\<close> or
  \<open>read_hardware_num\<close> returns, it changed nothing in the chip, the chip showed four words from
  the same address on, and the result is made of them; if they are the words a number was
  stored as, the result is that number.
\<close>

theorem serial_roundtrip:
  assumes "mapped fd s"
  shows "(set_logic_num E fd sn s = Some (Ok (), t) \<longrightarrow> num_written fd 0x700000 sn s t) \<and>
     (set_hardware_num E fd sn s = Some (Ok (), t) \<longrightarrow> num_written fd 0x710000 sn s t) \<and>
     (read_logic_num E fd s = Some (r, t) \<longrightarrow>
        (\<exists>ws. words_shown fd 0x700000 ws s t \<and> r = Ok (sn_join (ws ! 0) (ws ! 1) (ws ! 2) (ws ! 3)) \<and>
           (ws = sn_words sn \<longrightarrow> r = Ok sn))) \<and>
     (read_hardware_num E fd s = Some (r, t) \<longrightarrow>
        (\<exists>ws. words_shown fd 0x710000 ws s t \<and> r = Ok (sn_join (ws ! 0) (ws ! 1) (ws ! 2) (ws ! 3)) \<and>
           (ws = sn_words sn \<longrightarrow> r = Ok sn)))"
proof -
  have a: "block_addr 14 0 = 0x700000" "block_addr 14 1 = 0x710000" by (simp_all add: block_addr_def)
  show ?thesis
    using num_written [of 0 fd s E sn t] num_written [of 1 fd s E sn t] num_fetched [of 0 fd s E r t] num_fetched [of 1 fd s E r t] assms
    unfolding set_logic_num_def set_hardware_num_def read_logic_num_def read_hardware_num_def a by blast
qed

lemma set_logic_num_demo: "does d0 (set_logic_num flash_env 3 0) () 0"
proof -
  have sn: "sn_words 0 = [0, 0, 0, 0]" by (simp add: sn_words_def)
  have word: "w = 0 \<Longrightarrow> addr \<le> 0x7FFFFF \<Longrightarrow> does d (word_program flash_env 3 addr w) () 0" for addr d w
    unfolding word_program_def by (rule does_intros | simp add: SR_bit_def bit_iff_odd)+
  have unlock: "does d (block_unlock flash_env 3 14 0) () 0x90" for d
    unfolding block_unlock_def
    by (rule does_bnd [OF does_write], simp, simp, rule does_bnd [OF does_write], simp add: block_addr_def, simp,
        rule does_bnd [OF does_write], simp, simp, rule does_bnd [OF does_read]) (simp_all add: block_addr_def does_ret del: ret_apply)
  have erase: "does d (block_erase flash_env 3 14 0) () 0xD0" for d
    unfolding block_erase_def by (rule does_intros | simp add: SR_bit_def bit_iff_odd block_addr_def)+
  have config: "does d (set_config_register flash_env 3 0xBDDF) () 3" for d
    unfolding set_config_register_def steps.simps by (rule does_intros | simp)+
  have clear: "does d (clear_stats_regs flash_env 3) () 0x50" for d
    unfolding clear_stats_regs_def by (rule does_intros | simp)+
  show ?thesis
    unfolding set_logic_num_def program_num_def steps.simps sn Let_def BANK_SIZE_W_def
    by (rule does_bnd [OF config], rule does_bnd [OF clear], rule does_bnd [OF unlock], rule does_bnd [OF erase])
      (rule does_bnd [OF word] does_ret | simp)+
qed

lemma serial_roundtrip_witness:
  "\<exists>t. set_logic_num flash_env 3 0 demo_mach = Some (Ok (), t) \<and> num_written 3 0x700000 0 demo_mach t"
proof -
  from does_demo [OF set_logic_num_demo] obtain t where t: "set_logic_num flash_env 3 0 demo_mach = Some (Ok (), t)" by blast
  with serial_roundtrip [OF demo_mapped, of flash_env 0 t] show ?thesis by blast
qed

section \<open>The outcome of a command\<close>

text \<open>The status words read: not ready, not ready, \<dots>, ready.\<close>

definition status_reads :: "u32 \<Rightarrow> u16 \<Rightarrow> cycle list \<Rightarrow> bool" where
  "status_reads addr v a \<longleftrightarrow> (\<exists>vs. a = map (FR addr) (vs @ [v]) \<and> SR_bit 7 v \<and> (\<forall>x \<in> set vs. \<not> SR_bit 7 x))"

definition program_outcome :: "u16 \<Rightarrow> unit res" where
  "program_outcome v = (if SR_bit 3 v then Exited 1 else if SR_bit 4 v then Exited 2
     else if SR_bit 1 v then Exited 3 else Ok ())"

definition erase_outcome :: "u16 \<Rightarrow> unit res" where
  "erase_outcome v = (if SR_bit 3 v then Exited 1 else if SR_bit 4 v \<and> SR_bit 5 v then Exited 2
     else if SR_bit 5 v then Exited 3 else if SR_bit 1 v then Exited 4 else Ok ())"

lemma two_cycle_command:
  assumes "a1 \<le> 0x7FFFFF" "a2 \<le> 0x7FFFFF" "a3 \<le> 0x7FFFFF" and f: "\<And>v s. f v s = Some (g v, s)"
  shows "flash_runs fd M (bnd (flash_write E fd a1 d1) (\<lambda>_. bnd (flash_write E fd a2 d2) (\<lambda>_.
       bnd (status_until E fd a3 (SR_bit 7)) f)))
     (\<lambda>r a. \<exists>v b. a = FW a1 d1 # FW a2 d2 # b \<and> status_reads a3 v b \<and> r = g v)"
proof -
  have f': "flash_runs fd M (f v) (\<lambda>r a. r = g v \<and> a = [])" for v
    by (rule flash_runsI) (auto simp: f intro: flash_log_refl)
  have s: "flash_runs fd M (bnd (status_until E fd a3 (SR_bit 7)) f) (\<lambda>r b. \<exists>v. status_reads a3 v b \<and> r = g v)"
    by (rule flash_bnd [OF status_cycles [OF assms(3)]]) (auto simp: status_reads_def intro!: flash_mono [OF f'])
  show ?thesis
    by (rule flash_bnd [OF write_cycle [OF assms(1)]], simp_all, rule flash_bnd [OF write_cycle [OF assms(2)]])
      (auto intro: flash_mono [OF s])
qed

text \<open>
  C39. A word program or a block erase gives the chip its two command cycles and then reads the
  status until bit 7 is set, and this last status decides: VPP (bit 3), program (bit 4) and
  protection (bit 1) errors end the process with 1, 2 and 3, for an erase VPP, sequence (bits
  4 and 5), erase (bit 5) and protection errors with 1 to 4, in this order of precedence, and
  the function returns only without them. A write or a command out of range is dropped.
\<close>

theorem status_decides:
  assumes "mapped fd s"
  shows "(addr \<le> 0x7FFFFF \<longrightarrow> word_program E fd addr data s = Some (r, t) \<longrightarrow>
       (\<exists>v b. flash_log fd s t (FW addr 0x40 # FW addr data # b) \<and> status_reads addr v b \<and> r = program_outcome v)) \<and>
     (bank < 16 \<longrightarrow> block < 8 \<longrightarrow> block_erase E fd bank block s = Some (r, t) \<longrightarrow>
       (\<exists>v b. flash_log fd s t (FW (ucast bank * 0x80000) 0x20 # FW (block_addr bank block) 0xD0 # b) \<and>
          status_reads (ucast bank * 0x80000) v b \<and> r = erase_outcome v)) \<and>
     (0x7FFFFF < addr \<longrightarrow> flash_write E fd addr data s = Some (Ok (), s))"
proof (intro conjI impI)
  assume a: "addr \<le> 0x7FFFFF" and run: "word_program E fd addr data s = Some (r, t)"
  have f: "program_status v s = Some (program_outcome v, s)" for v s
    by (simp add: program_status_def program_outcome_def)
  show "\<exists>v b. flash_log fd s t (FW addr 0x40 # FW addr data # b) \<and> status_reads addr v b \<and> r = program_outcome v"
    by (rule flash_runsD [OF two_cycle_command [OF a a a f] assms refl run [unfolded word_program_def]]) blast
next
  assume "bank < 16" "block < 8" and run: "block_erase E fd bank block s = Some (r, t)"
  have f: "erase_status v s = Some (erase_outcome v, s)" for v s
    by (simp add: erase_status_def erase_outcome_def)
  have "uint bank \<le> 15" "uint block \<le> 7" using \<open>bank < 16\<close> \<open>block < 8\<close> by (simp_all add: word_less_def)
  moreover have u: "uint (ucast bank :: u32) = uint bank" "uint (ucast block :: u32) = uint block"
    by (simp_all add: uint_up_ucast is_up)
  moreover have "uint (ucast bank * 0x80000 :: u32) = uint bank * 0x80000" "uint (ucast block * 0x10000 :: u32) = uint block * 0x10000"
    using calculation by (simp_all add: uint_mult_small)
  moreover have "uint (block_addr bank block) = uint bank * 0x80000 + uint block * 0x10000"
    using calculation by (simp add: block_addr_def uint_add_small)
  ultimately have a: "ucast bank * 0x80000 \<le> (0x7FFFFF :: u32)" "block_addr bank block \<le> 0x7FFFFF"
    by (simp_all add: word_le_def)
  show "\<exists>v b. flash_log fd s t (FW (ucast bank * 0x80000) 0x20 # FW (block_addr bank block) 0xD0 # b) \<and>
          status_reads (ucast bank * 0x80000) v b \<and> r = erase_outcome v"
    by (rule flash_runsD [OF two_cycle_command [OF a(1) a(2) a(1) f] assms refl run [unfolded block_erase_def]]) blast
qed (simp add: flash_write_def)

lemma status_decides_witness:
  "\<exists>t v b. word_program flash_env 3 7 0 demo_mach = Some (program_outcome v, t) \<and>
     flash_log 3 demo_mach t (FW 7 0x40 # FW 7 0 # b) \<and> status_reads 7 v b"
proof -
  have "does 0 (word_program flash_env 3 7 0) () 0"
    unfolding word_program_def by (rule does_intros | simp add: SR_bit_def bit_iff_odd)+
  from does_demo [OF this] obtain t where t: "word_program flash_env 3 7 0 demo_mach = Some (Ok (), t)" by blast
  with status_decides [OF demo_mapped, of 7 flash_env 0 "Ok ()" t, THEN conjunct1]
  obtain v b where "flash_log 3 demo_mach t (FW 7 0x40 # FW 7 0 # b)" "status_reads 7 v b" "Ok () = program_outcome v" by auto
  with t show ?thesis by metis
qed

section \<open>Waiting for the controller\<close>

lemma flash_idle_returns:
  assumes "mapped fd s"
    and idle: "\<And>evs. k \<le> length evs \<Longrightarrow> \<forall>e \<in> set evs. \<exists>v. e = RegRd fd FLASH_ADDR v \<Longrightarrow>
      dev E (trace s @ evs) fd FLASH_ADDR = 0"
  shows "\<exists>t. flash_idle E fd s = Some (Ok (), t) \<and> mapped fd t"
proof -
  let ?I = "\<lambda>v u. \<exists>evs. u = s\<lparr>trace := trace s @ evs @ [RegRd fd FLASH_ADDR v]\<rparr> \<and>
    (\<forall>e \<in> set evs. \<exists>v. e = RegRd fd FLASH_ADDR v) \<and> v = dev E (trace s @ evs) fd FLASH_ADDR"
  define v0 where "v0 = dev E (trace s) fd FLASH_ADDR"
  define s0 where "s0 = s\<lparr>trace := trace s @ [RegRd fd FLASH_ADDR v0]\<rparr>"
  have "\<exists>r t. iterate (flash_busy_round E fd) v0 s0 = Some (Ok r, t) \<and> mapped fd t"
  proof (rule iterate_total [where I = ?I and \<mu> = "\<lambda>v u. k + length (trace s) + 1 - length (trace u)"])
    show "?I v0 s0" by (rule exI [where x = "[]"]) (simp add: s0_def v0_def)
  next
    fix v u
    assume "?I v u"
    then obtain evs where u: "u = s\<lparr>trace := trace s @ evs @ [RegRd fd FLASH_ADDR v]\<rparr>"
      "\<forall>e \<in> set evs. \<exists>v. e = RegRd fd FLASH_ADDR v" "v = dev E (trace s @ evs) fd FLASH_ADDR" by blast
    show "(\<exists>v' u'. flash_busy_round E fd v u = Some (Ok (Inl v'), u') \<and> ?I v' u' \<and>
          k + length (trace s) + 1 - length (trace u') < k + length (trace s) + 1 - length (trace u)) \<or>
        (\<exists>r t. flash_busy_round E fd v u = Some (Ok (Inr r), t) \<and> mapped fd t)"
    proof (cases "v = 0")
      case True
      then show ?thesis using assms(1) u(1) by (simp add: flash_busy_round_def)
    next
      case False
      then have n: "length evs < k" using idle [of evs] u(2,3) by (cases "k \<le> length evs") auto
      define v' where "v' = dev E (trace u) fd FLASH_ADDR"
      have "flash_busy_round E fd v u = Some (Ok (Inl v'), u\<lparr>trace := trace u @ [RegRd fd FLASH_ADDR v']\<rparr>)"
        using False assms(1) u(1) by (simp add: flash_busy_round_def reg_read_mapped v'_def)
      moreover have "?I v' (u\<lparr>trace := trace u @ [RegRd fd FLASH_ADDR v']\<rparr>)"
        by (rule exI [where x = "evs @ [RegRd fd FLASH_ADDR v]"]) (use u in \<open>auto simp: v'_def\<close>)
      ultimately show ?thesis using n u(1) by auto
    qed
  qed
  then show ?thesis using assms(1) by (auto simp: flash_idle_def reg_read_mapped v0_def s0_def)
qed

text \<open>
  \<open>flash_write\<close> waits as long as the controller is busy and no longer: if after at most
  \<open>k\<close> polls the address register reads 0, it returns and has made exactly the one write cycle;
  if the register never reads 0 it never returns. \<open>flash_read\<close> never returns if bit 0 of the
  register is never set: there is no time limit in either.
\<close>

theorem flash_cycle_waits:
  assumes "mapped fd s" and "addr \<le> 0x7FFFFF"
  shows "((\<forall>evs. k \<le> length evs \<and> (\<forall>e \<in> set evs. \<exists>v. e = RegRd fd FLASH_ADDR v) \<longrightarrow>
        dev E (trace s @ evs) fd FLASH_ADDR = 0) \<longrightarrow>
      (\<exists>t. flash_write E fd addr data s = Some (Ok (), t) \<and> flash_log fd s t [FW addr data])) \<and>
    ((\<forall>h. dev E h fd FLASH_ADDR \<noteq> 0) \<longrightarrow> flash_write E fd addr data s = None) \<and>
    ((\<forall>h. \<not> bit (dev E h fd FLASH_ADDR) 0) \<longrightarrow> flash_read E fd addr s = None)"
proof (intro conjI impI)
  assume "\<forall>evs. k \<le> length evs \<and> (\<forall>e \<in> set evs. \<exists>v. e = RegRd fd FLASH_ADDR v) \<longrightarrow>
        dev E (trace s @ evs) fd FLASH_ADDR = 0"
  then obtain t where "flash_idle E fd s = Some (Ok (), t)" "mapped fd t"
    using flash_idle_returns [OF assms(1), of k E] by blast
  then obtain u where u: "flash_write E fd addr data s = Some (Ok (), u)"
    using assms(2) by (simp add: flash_write_def reg_write_mapped leD)
  show "\<exists>t. flash_write E fd addr data s = Some (Ok (), t) \<and> flash_log fd s t [FW addr data]"
    by (rule flash_runsD [OF write_cycle [OF assms(2)] assms(1) refl u]) (use u in blast)
next
  assume busy: "\<forall>h. dev E h fd FLASH_ADDR \<noteq> 0"
  have "iterate (flash_busy_round E fd) v u = None" if "v \<noteq> 0" "mapped fd u" for v u
    by (rule iterate_hangs [where I = "\<lambda>v u. v \<noteq> 0 \<and> mapped fd u"])
      (use that busy in \<open>auto simp: flash_busy_round_def reg_read_mapped\<close>)
  then show "flash_write E fd addr data s = None"
    using assms busy by (simp add: flash_write_def flash_idle_def reg_read_mapped leD bnd_assoc)
next
  assume never: "\<forall>h. \<not> bit (dev E h fd FLASH_ADDR) 0"
  have one: "v AND 1 = 0 \<longleftrightarrow> \<not> bit v 0" for v :: u32
    by (simp add: bit_0 and_one_eq mod_2_eq_odd)
  have "iterate (flash_valid_round E fd) v u = None" if "\<not> bit v 0" "mapped fd u" for v u
    by (rule iterate_hangs [where I = "\<lambda>v u. \<not> bit v 0 \<and> mapped fd u"])
      (use that never in \<open>auto simp: flash_valid_round_def one reg_read_mapped\<close>)
  then show "flash_read E fd addr s = None"
    using assms never by (simp add: flash_read_def mapped_runs leD)
qed

lemma flash_cycle_waits_witness: "flash_read demo_env 3 5 demo_mach = None"
  using flash_cycle_waits [OF demo_mapped, of 5 0 demo_env 0] by (simp add: demo_env_def)

section \<open>The factory command\<close>

fun written :: "cycle list \<Rightarrow> u16 list" where
  "written [] = []"
| "written (FW a d # cs) = d # written cs"
| "written (FR a v # cs) = written cs"

lemma written_append [simp]: "written (xs @ ys) = written xs @ written ys"
  by (induction xs rule: written.induct) auto

lemma written_reads [simp]: "written (map (FR a) vs) = []"
  by (induction vs) auto

text \<open>Runs of \<open>p\<close> that return write these words.\<close>

definition sends :: "int \<Rightarrow> (u64 \<Rightarrow> cell) \<times> (cell \<Rightarrow> u8) \<Rightarrow> 'a nac \<Rightarrow> u16 list \<Rightarrow> bool" where
  "sends fd M p ws \<longleftrightarrow> flash_runs fd M p (\<lambda>r a. \<forall>v. r = Ok v \<longrightarrow> written a = ws)"

lemma sends_bnd:
  assumes "sends fd M p xs" and f: "\<And>v. sends fd M (f v) ys"
  shows "sends fd M (bnd p f) (xs @ ys)"
  unfolding sends_def
proof (rule flash_bnd [OF assms(1) [unfolded sends_def]])
  show "flash_runs fd M (f v) (\<lambda>r b. \<forall>w. r = Ok w \<longrightarrow> written (a @ b) = xs @ ys)"
    if "\<forall>w. Ok v = Ok w \<longrightarrow> written a = xs" for v a
    using that by (intro flash_mono [OF f [unfolded sends_def]]) simp
qed simp_all

lemma sends_ret: "sends fd M (ret v) []"
  unfolding sends_def by (rule flash_ret) simp

lemma sends_write: "addr \<le> 0x7FFFFF \<Longrightarrow> sends fd M (flash_write E fd addr d) [d]"
  unfolding sends_def by (rule flash_mono [OF write_cycle]) auto

lemma sends_status: "addr \<le> 0x7FFFFF \<Longrightarrow> sends fd M (status_until E fd addr ok) []"
  unfolding sends_def by (rule flash_mono [OF status_cycles]) auto

lemma sends_each: "(\<And>x. x \<in> set xs \<Longrightarrow> sends fd M (f x) (g x)) \<Longrightarrow> sends fd M (for_each xs f) (concat (map g xs))"
  by (induction xs) (auto intro: sends_bnd sends_ret simp del: ret_apply)

lemma sends_half:
  assumes "half_at M a = Some w" and "sends fd M (f w) ws"
  shows "sends fd M (bnd (read_half E a) f) ws"
proof -
  from assms(1) obtain x y where xy: "fst M a = Priv x" "fst M (a + 1) = Priv y"
    "w = ucast (snd M (Priv y)) * 256 + ucast (snd M (Priv x))"
    by (auto simp: half_at_def split: cell.splits)
  have "bnd (read_half E a) f s = f w s" if "(vmap s, ram s) = M" for s
    using xy that by (auto simp: read_half_def read_byte_def bnd_def)
  then show ?thesis
    using assms(2) unfolding sends_def flash_runs_def by metis
qed

text \<open>
  \<open>buffer_enhanced_factory_program_command\<close> does not program the array it is given: for a
  multiple of 32 words at an address of the chip, if it returns, the words it sent between its
  set-up (0x80, 0xD0) and its exit (0xFFFF) are the first 32 words of the array, count / 32 times;
  so for 64 words or more all words from the 33rd on are never sent. Other counts send nothing.
\<close>

theorem factory_program_repeats:
  assumes "mapped fd s" and "a \<le> 0x7FFFFF" and "data_at (vmap s, ram s) p ws"
    and "length ws = 32 * n" and "n < 2 ^ 27"
    and "buffer_enhanced_factory_program_command E fd a (of_nat (length ws)) p s = Some (Ok (), t)"
  shows "\<exists>cycles. flash_log fd s t cycles \<and>
     written cycles = [0x80, 0xD0] @ concat (replicate n (take 32 ws)) @ [0xFFFF]"
proof -
  let ?M = "(vmap s, ram s)"
  have u: "unat (of_nat (length ws) :: u32) = 32 * n" 
  proof -
    have "length ws < 2 ^ 32" using assms(4,5) by simp
    then show ?thesis by (simp only: unat_of_nat assms(4)) simp
  qed
  have m: "of_nat (length ws) mod 32 = (0 :: u32)" "unat (of_nat (length ws) div 32 :: u32) = n"
    using u by (simp_all add: word_unat_eq_iff unat_mod unat_div)
  have round: "sends fd ?M (factory_round E fd a p) (take 32 ws)" if "0 < n"
  proof -
    have l: "32 \<le> length ws" using assms(4) that by simp
    have "sends fd ?M (for_each [0..<32] (\<lambda>i. bnd (read_half E (p + 2 * of_nat i)) (flash_write E fd a))) (concat (map (\<lambda>i. [ws ! i]) [0..<32]))"
    proof (rule sends_each)
      fix i :: nat
      assume "i \<in> set [0..<32]"
      then have "half_at ?M (p + 2 * of_nat i) = Some (ws ! i)" using assms(3) l by (auto simp: data_at_def)
      then show "sends fd ?M (bnd (read_half E (p + 2 * of_nat i)) (flash_write E fd a)) [ws ! i]"
        by (rule sends_half) (rule sends_write [OF assms(2)])
    qed
    moreover have "concat (map (\<lambda>i. [ws ! i]) [0..<32]) = take 32 ws"
      using l by (simp add: concat_map_singleton list_eq_iff_nth_eq)
    ultimately show ?thesis
      unfolding factory_round_def using sends_bnd [OF _ sends_bnd [OF sends_status [OF assms(2)] sends_ret]] by fastforce
  qed
  have "sends fd ?M (for_each [0..<n] (\<lambda>_. factory_round E fd a p)) (concat (map (\<lambda>_. take 32 ws) [0..<n]))"
    by (rule sends_each) (use round in auto)
  then have rounds: "sends fd ?M (for_each [0..<n] (\<lambda>_. factory_round E fd a p)) (concat (replicate n (take 32 ws)))"
    by (simp add: map_replicate_const)
  have p: "sends fd ?M (buffer_enhanced_factory_program_command E fd a (of_nat (length ws)) p)
      ([0x80] @ [0xD0] @ [] @ concat (replicate n (take 32 ws)) @ [0xFFFF] @ [] @ [])"
    unfolding buffer_enhanced_factory_program_command_def m
    by (simp only: simp_thms if_False, intro sends_bnd sends_write sends_status sends_ret rounds assms(2))
  show ?thesis
    by (rule flash_runsD [OF p [unfolded sends_def] assms(1) refl assms(6)]) auto
qed

lemma factory_demo:
  "does 0 (buffer_enhanced_factory_program_command (chip_env (\<lambda>d. if d = 0xFFFF then 0x80 else 0)) 3 0 64 p) () 0xFFFF"
proof -
  let ?E = "chip_env (\<lambda>d. if d = 0xFFFF then 0x80 else 0)"
  have words: "does d (for_each [0..<32] (\<lambda>i. bnd (read_half ?E (p + 2 * of_nat i)) (flash_write ?E 3 0))) () 0" for d
    by (rule does_each, simp, rule does_bnd [OF does_half], rule does_write) simp_all
  have "does d (factory_round ?E 3 0 p) () 0" for d
    unfolding factory_round_def
    by (rule does_bnd [OF words], rule does_bnd [OF does_status [where v = 0]]) (auto simp: SR_bit_def intro: does_ret simp del: ret_apply)
  then have rounds: "does d (for_each [0..<2] (\<lambda>_. factory_round ?E 3 0 p)) () 0" for d
    by (intro does_each) simp_all
  have two: "unat ((64 :: u32) div 32) = 2" "(64 :: u32) mod 32 = 0" by simp_all
  show ?thesis
    unfolding buffer_enhanced_factory_program_command_def two
    by (simp only: simp_thms if_False, rule does_bnd [OF does_write], simp, simp, rule does_bnd [OF does_write], simp, simp,
        rule does_bnd [OF does_status]) (rule does_bnd [OF rounds] does_intros | simp add: SR_bit_def bit_iff_odd)+
qed

lemma factory_program_repeats_witness:
  "\<exists>E t cycles. buffer_enhanced_factory_program_command E 3 0 64 0x1000 demo_mach = Some (Ok (), t) \<and>
     flash_log 3 demo_mach t cycles \<and> written cycles = [0x80, 0xD0] @ replicate 64 0 @ [0xFFFF]"
proof -
  let ?E = "chip_env (\<lambda>d. if d = 0xFFFF then 0x80 else 0)"
  obtain t where t: "buffer_enhanced_factory_program_command ?E 3 0 64 0x1000 demo_mach = Some (Ok (), t)"
    using does_demo [OF factory_demo] by blast
  then have t': "buffer_enhanced_factory_program_command ?E 3 0 (of_nat (length (replicate 64 (0 :: u16)))) 0x1000 demo_mach = Some (Ok (), t)"
    by simp
  have d: "data_at (vmap demo_mach, ram demo_mach) 0x1000 (replicate 64 0)"
    by (simp add: data_at_def half_at_def demo_mach_def)
  have r: "concat (replicate 2 (take 32 (replicate 64 (0 :: u16)))) = replicate 64 0"
    by (simp add: numeral_2_eq_2 flip: replicate_add)
  from factory_program_repeats [OF demo_mapped _ d _ _ t', of 2]
  have "\<exists>cycles. flash_log 3 demo_mach t cycles \<and> written cycles = [0x80, 0xD0] @ replicate 64 0 @ [0xFFFF]"
    unfolding r by simp
  with t show ?thesis by blast
qed

end
