(* ===== verification/Session.thy ===== *)
theory Session
  imports Machine
begin

text \<open>
  Opening and closing a card (lib/nacapi.c, and \<open>nac_proc_close\<close> of lib/nac_stream.c): the
  herd is allocated at the first open, the I/O memory device of the card is opened next to
  the card's own device and mapped, and the entry of the herd is zeroed again on the way out.
\<close>

section \<open>System calls\<close>

definition sys_open :: "env \<Rightarrow> string \<Rightarrow> int nac" where
  "sys_open E path = bnd (read_st (\<lambda>s. open_at E (trace s) path)) (\<lambda>r.
     bnd (log_event (SysOpen path r)) (\<lambda>_.
     case r of None \<Rightarrow> fail_with ESYS (- 1) | Some fd \<Rightarrow> ret fd))"

definition sys_close :: "env \<Rightarrow> int \<Rightarrow> int nac" where
  "sys_close E fd = bnd (read_st (\<lambda>s. close_at E (trace s) fd)) (\<lambda>r.
     bnd (log_event (SysClose fd)) (\<lambda>_. ret r))"

text \<open>\<open>ioctl(fd, NACIOCINFO, \<dots>)\<close>: the driver's description of the card, or failure.\<close>

definition ioctl_info :: "env \<Rightarrow> int \<Rightarrow> nacinf_t option nac" where
  "ioctl_info E fd = bnd (read_st (\<lambda>s. ioctl_at E (trace s) fd)) (\<lambda>r.
     bnd (log_event (SysIoctl fd r)) (\<lambda>_.
     case r of None \<Rightarrow> fail_with ESYS None | Some i \<Rightarrow> ret (Some i)))"

lemma sys_open_run [simp]:
  "sys_open E path s = (case open_at E (trace s) path of
      None \<Rightarrow> Some (Ok (- 1), s\<lparr>trace := trace s @ [SysOpen path None], errno := ESYS\<rparr>)
    | Some fd \<Rightarrow> Some (Ok fd, s\<lparr>trace := trace s @ [SysOpen path (Some fd)]\<rparr>))"
  by (simp add: sys_open_def split: option.splits)

lemma sys_close_run [simp]:
  "sys_close E fd s = Some (Ok (close_at E (trace s) fd), s\<lparr>trace := trace s @ [SysClose fd]\<rparr>)"
  by (simp add: sys_close_def)

lemma ioctl_info_run [simp]:
  "ioctl_info E fd s = (case ioctl_at E (trace s) fd of
      None \<Rightarrow> Some (Ok None, s\<lparr>trace := trace s @ [SysIoctl fd None], errno := ESYS\<rparr>)
    | Some i \<Rightarrow> Some (Ok (Some i), s\<lparr>trace := trace s @ [SysIoctl fd (Some i)]\<rparr>))"
  by (simp add: ioctl_info_def split: option.splits)

section \<open>The card's description\<close>

text \<open>\<open>None\<close> is the null pointer; otherwise the structure the pointer leads to.\<close>

definition nac_info :: "int \<Rightarrow> nacinf_t option nac" where
  "nac_info nacfd = bnd (get_sheep nacfd) (\<lambda>h.
     if \<not> opened h then fail_with EBADF None else ret (Some (nacinf h)))"

text \<open>\<open>info->\<dots>\<close>\<close>

definition follow :: "'a option \<Rightarrow> 'a nac" where
  "follow p = (case p of None \<Rightarrow> fault | Some x \<Rightarrow> ret x)"

lemma follow_simps [simp]: "follow None = fault" "follow (Some x) = ret x"
  by (simp_all add: follow_def)

lemma nac_info_run [simp]:
  "herd s fd = Some h \<Longrightarrow> nac_info fd s =
     (if opened h then Some (Ok (Some (nacinf h)), s) else Some (Ok None, s\<lparr>errno := EBADF\<rparr>))"
  by (simp add: nac_info_def)

section \<open>Finding the device nodes of a card\<close>

definition is_digit :: "char \<Rightarrow> bool" where
  "is_digit c = (c \<in> set ''0123456789'')"

text \<open>
  The expression \<open>/dev/nac(iom|mem)*[0-9]\<close>. After \<open>/dev/nac\<close> there is only one way to match
  the rest: the groups and the digits start with different characters. The function yields
  the digit, the character before \<open>match.rm_eo\<close>.
\<close>

function match_units :: "string \<Rightarrow> char option" where
  "match_units xs =
     (if take 3 xs = ''iom'' \<or> take 3 xs = ''mem'' then match_units (drop 3 xs)
      else case xs of [] \<Rightarrow> None | c # _ \<Rightarrow> if is_digit c then Some c else None)"
  by pat_completeness auto
termination
proof (relation "measure length")
  fix xs :: string
  assume "take 3 xs = ''iom'' \<or> take 3 xs = ''mem''"
  then have "xs \<noteq> []" by auto
  then show "(drop 3 xs, xs) \<in> measure length" by (cases xs) auto
qed simp

declare match_units.simps [simp del]

fun regexec_nac :: "string \<Rightarrow> char option" where
  "regexec_nac [] = None"
| "regexec_nac (c # cs) =
     (if take 8 (c # cs) = ''/dev/nac'' \<and> match_units (drop 8 (c # cs)) \<noteq> None
      then match_units (drop 8 (c # cs)) else regexec_nac cs)"

definition NACMINOR_IOM :: int where
  "NACMINOR_IOM = 2"

definition NACMINOR_MAX :: int where
  "NACMINOR_MAX = 4"

text \<open>The table has four entries, of which the last is a null pointer.\<close>

definition minor_fmt :: "int \<Rightarrow> string option" where
  "minor_fmt minor = (if minor = 0 then Some ''/dev/nac'' else if minor = 1 then Some ''/dev/nacmem''
     else if minor = 2 then Some ''/dev/naciom'' else None)"

definition nac_clone :: "env \<Rightarrow> int \<Rightarrow> int \<Rightarrow> int nac" where
  "nac_clone E nacfd minor =
     (if NACMINOR_MAX \<le> minor then fail_with ENODEV (- 1)
      else bnd (get_sheep nacfd) (\<lambda>h.
        case regexec_nac (nacname h) of
          None \<Rightarrow> fail_with ENODEV (- 1)
        | Some c \<Rightarrow> bnd (follow (minor_fmt minor)) (\<lambda>fmt. sys_open E (fmt @ [c]))))"

section \<open>Open\<close>

text \<open>
  The array of the herd covers the descriptors 0 to \<open>open_max\<close> - 1, so its entry 0 exists
  exactly when it has been allocated.
\<close>

definition herd_null :: "mach \<Rightarrow> bool" where
  "herd_null s = (herd s 0 = None)"

definition init_herd :: "env \<Rightarrow> unit nac" where
  "init_herd E = modify (\<lambda>s. s\<lparr>herd := (\<lambda>i. if 0 \<le> i \<and> i < open_max E
     then Some (zero_sheep\<lparr>naciom := - 1\<rparr>) else None)\<rparr>)"

text \<open>The common exit \<open>fail:\<close>.\<close>

definition open_fail :: "int \<Rightarrow> int nac" where
  "open_fail nacfd =
     (if 0 < nacfd then bnd (put_sheep nacfd (\<lambda>_. zero_sheep)) (\<lambda>_. ret (- 1)) else ret (- 1))"

text \<open>\<open>strcpy\<close> into the 32 bytes of \<open>nacname\<close>.\<close>

definition strcpy_nacname :: "int \<Rightarrow> string \<Rightarrow> unit nac" where
  "strcpy_nacname nacfd name =
     (if 32 \<le> length name then fault else put_sheep nacfd (\<lambda>h. h\<lparr>nacname := name\<rparr>))"

definition nac_open_entry :: "env \<Rightarrow> int \<Rightarrow> string \<Rightarrow> int nac" where
  "nac_open_entry E nacfd name =
     bnd (strcpy_nacname nacfd name) (\<lambda>_.
     bnd (nac_clone E nacfd NACMINOR_IOM) (\<lambda>io.
     bnd (put_sheep nacfd (\<lambda>h. h\<lparr>naciom := io\<rparr>)) (\<lambda>_.
     if io < 0 then open_fail nacfd
     else bnd (ioctl_info E nacfd) (\<lambda>inf.
       case inf of None \<Rightarrow> open_fail nacfd
       | Some i \<Rightarrow>
         bnd (put_sheep nacfd (\<lambda>h. h\<lparr>nacinf := i, opened := True\<rparr>)) (\<lambda>_.
         bnd (nac_info nacfd) (\<lambda>p.
         case p of None \<Rightarrow> open_fail nacfd
         | Some nacfd_info \<Rightarrow>
           bnd (mmap E io 0 (ucast (iom_size nacfd_info)) 0) (\<lambda>m.
           case m of
             None \<Rightarrow> bnd (put_sheep nacfd (\<lambda>h. h\<lparr>iom := - 1\<rparr>)) (\<lambda>_. open_fail nacfd)
           | Some a \<Rightarrow> bnd (put_sheep nacfd (\<lambda>h. h\<lparr>iom := a\<rparr>)) (\<lambda>_. ret nacfd))))))))"

definition nac_open :: "env \<Rightarrow> string \<Rightarrow> int nac" where
  "nac_open E name =
     bnd (sys_open E name) (\<lambda>nacfd.
     if nacfd < 0 then open_fail nacfd
     else bnd (read_st herd_null) (\<lambda>null.
       bnd (if null then bnd (malloc E) (\<lambda>ok. if ok then bnd (init_herd E) (\<lambda>_. ret True)
                                         else fail_with ESYS False)
            else ret True) (\<lambda>have_herd.
       if \<not> have_herd then open_fail nacfd
       else if open_max E \<le> nacfd then bnd (set_errno ENFILE) (\<lambda>_. open_fail nacfd)
       else nac_open_entry E nacfd name)))"

section \<open>Close\<close>

text \<open>The part \<open>nac_close\<close> and \<open>nac_proc_close\<close> share.\<close>

definition release_card :: "env \<Rightarrow> int \<Rightarrow> u32 nac \<Rightarrow> int nac" where
  "release_card E nacfd size_of =
     bnd (get_sheep nacfd) (\<lambda>h.
     bnd (sys_close E (naciom h)) (\<lambda>_.
     bnd (if iom h \<noteq> 0 then bnd size_of (\<lambda>len. bnd (munmap (iom h) (ucast len)) (\<lambda>_.
            put_sheep nacfd (\<lambda>h. h\<lparr>iom := 0\<rparr>))) else ret ()) (\<lambda>_.
     bnd (put_sheep nacfd (\<lambda>_. zero_sheep)) (\<lambda>_.
     bnd (put_sheep nacfd (\<lambda>h. h\<lparr>naciom := - 1\<rparr>)) (\<lambda>_.
     sys_close E nacfd)))))"

definition nac_close :: "env \<Rightarrow> int \<Rightarrow> int nac" where
  "nac_close E nacfd =
     bnd (get_sheep nacfd) (\<lambda>h.
     if \<not> opened h then fail_with EBADF (- 1)
     else release_card E nacfd (bnd (nac_info nacfd) (\<lambda>p. bnd (follow p) (\<lambda>i. ret (iom_size i)))))"

text \<open>
  \<open>nac_proc_close\<close> has no check: it asks for the description first and follows the pointer
  only if there is a mapping to undo.
\<close>

definition nac_proc_close :: "env \<Rightarrow> int \<Rightarrow> int nac" where
  "nac_proc_close E nacfd =
     bnd (nac_info nacfd) (\<lambda>info.
     release_card E nacfd (bnd (follow info) (\<lambda>i. ret (iom_size i))))"

definition nac_link_config :: "int \<Rightarrow> u32 \<Rightarrow> int nac" where
  "nac_link_config nacfd n = bnd (put_sheep nacfd (\<lambda>h. h\<lparr>num_stream := n\<rparr>)) (\<lambda>_. ret 0)"

section \<open>What the expression matches\<close>

definition nac_match :: "string \<Rightarrow> char \<Rightarrow> bool" where
  "nac_match xs d \<longleftrightarrow> (\<exists>us post. set us \<subseteq> {''iom'', ''mem''} \<and> is_digit d \<and>
     xs = ''/dev/nac'' @ concat us @ d # post)"

lemma not_digit: "\<not> is_digit (CHR ''i'')" "\<not> is_digit (CHR ''m'')"
  by (simp_all add: is_digit_def)

lemma match_units_iff:
  "match_units xs = Some d \<longleftrightarrow>
     (\<exists>us post. set us \<subseteq> {''iom'', ''mem''} \<and> is_digit d \<and> xs = concat us @ d # post)"
  (is "_ \<longleftrightarrow> ?M xs")
proof (induction xs rule: match_units.induct)
  case (1 xs)
  show ?case
  proof (cases "take 3 xs = ''iom'' \<or> take 3 xs = ''mem''")
    case True
    then obtain u where u: "u \<in> {''iom'', ''mem''}" "xs = u @ drop 3 xs"
      by (metis append_take_drop_id insertCI)
    have "?M xs \<longleftrightarrow> ?M (drop 3 xs)"
    proof
      assume "?M xs"
      then obtain us post where us: "set us \<subseteq> {''iom'', ''mem''}" "is_digit d"
        "xs = concat us @ d # post" by blast
      then have "us \<noteq> []" using True not_digit by auto
      then obtain v vs where "us = v # vs" by (cases us) auto
      with us show "?M (drop 3 xs)" by auto
    next
      assume "?M (drop 3 xs)"
      then obtain us post where "set us \<subseteq> {''iom'', ''mem''}" "is_digit d"
        "drop 3 xs = concat us @ d # post" by blast
      with u show "?M xs" by (intro exI [of _ "u # us"] exI [of _ post]) auto
    qed
    with True show ?thesis using 1 by (simp add: match_units.simps [of xs])
  next
    case False
    have "?M xs \<longleftrightarrow> (\<exists>post. is_digit d \<and> xs = d # post)"
    proof
      assume "?M xs"
      then obtain us post where us: "set us \<subseteq> {''iom'', ''mem''}" "is_digit d"
        "xs = concat us @ d # post" by blast
      then have "us = []" using False by (cases us) auto
      with us show "\<exists>post. is_digit d \<and> xs = d # post" by auto
    qed (auto intro: exI [of _ "[]"])
    with False show ?thesis by (auto simp: match_units.simps [of xs] split: list.splits)
  qed
qed

lemma nac_match_iff:
  "nac_match xs d \<longleftrightarrow> take 8 xs = ''/dev/nac'' \<and> match_units (drop 8 xs) = Some d"
proof -
  have "xs = ''/dev/nac'' @ ys \<longleftrightarrow> take 8 xs = ''/dev/nac'' \<and> drop 8 xs = ys" for ys
    by (rule append_eq_take_drop) simp
  then show ?thesis unfolding nac_match_def match_units_iff by blast
qed

text \<open>
  The leftmost match in the name ends in \<open>d\<close>: some suffix of the name begins with a match that
  ends in \<open>d\<close>, and no longer suffix begins with any.
\<close>

definition leftmost_unit :: "string \<Rightarrow> char \<Rightarrow> bool" where
  "leftmost_unit xs d \<longleftrightarrow>
     (\<exists>i \<le> length xs. nac_match (drop i xs) d \<and> (\<forall>j < i. \<not> (\<exists>e. nac_match (drop j xs) e)))"

lemma regexec_leftmost: "regexec_nac xs = Some d \<longleftrightarrow> leftmost_unit xs d"
  unfolding leftmost_unit_def
proof (induction xs)
  case Nil
  show ?case by (simp add: nac_match_def)
next
  case (Cons c cs)
  show ?case
    unfolding first_suffix_Cons [of c cs "\<lambda>ys. nac_match ys d" "\<lambda>ys. \<exists>e. nac_match ys e"]
      Cons.IH [symmetric] by (auto simp: nac_match_iff)
qed

lemma regexec_none: "regexec_nac xs = None \<longleftrightarrow> \<not> (\<exists>d. leftmost_unit xs d)"
  by (simp flip: regexec_leftmost)

text \<open>
  C34. \<open>nac_clone\<close> opens the sibling node of the unit that the entry's name ends in. When the
  name contains a match of \<open>/dev/nac(iom|mem)*[0-9]\<close> and the leftmost one ends in the digit \<open>d\<close>, it
  opens \<open>/dev/nac\<close>, \<open>/dev/nacmem\<close> or \<open>/dev/naciom\<close> with this digit, does nothing else, and returns what
  the kernel answers, or -1; when there is no match, or the kind is 4 or more, it returns -1
  with ENODEV and opens nothing. For the kind 3, which the table of formats has room for but no
  text, it passes a null pointer on.
\<close>

theorem clone_opens_node:
  assumes "herd s fd = Some h"
  shows "(NACMINOR_MAX \<le> minor \<or> \<not> (\<exists>d. leftmost_unit (nacname h) d) \<longrightarrow>
       nac_clone E fd minor s = Some (Ok (- 1), s\<lparr>errno := ENODEV\<rparr>)) \<and>
     (\<forall>d. leftmost_unit (nacname h) d \<longrightarrow>
       (\<forall>(k, node) \<in> {(0, ''/dev/nac''), (1, ''/dev/nacmem''), (2, ''/dev/naciom'')}. minor = k \<longrightarrow>
          nac_clone E fd minor s = (case open_at E (trace s) (node @ [d]) of
             None \<Rightarrow> Some (Ok (- 1), s\<lparr>trace := trace s @ [SysOpen (node @ [d]) None], errno := ESYS\<rparr>)
           | Some r \<Rightarrow> Some (Ok r, s\<lparr>trace := trace s @ [SysOpen (node @ [d]) (Some r)]\<rparr>))) \<and>
       (minor = 3 \<longrightarrow> nac_clone E fd minor s = Some (Fault, s)))"
proof (intro conjI impI allI)
  assume "NACMINOR_MAX \<le> minor \<or> \<not> (\<exists>d. leftmost_unit (nacname h) d)"
  then have "NACMINOR_MAX \<le> minor \<or> regexec_nac (nacname h) = None" by (simp only: regexec_none)
  then show "nac_clone E fd minor s = Some (Ok (- 1), s\<lparr>errno := ENODEV\<rparr>)"
    using assms by (auto simp: nac_clone_def)
next
  fix d
  assume "leftmost_unit (nacname h) d"
  then have d: "regexec_nac (nacname h) = Some d" by (simp only: regexec_leftmost)
  show "\<forall>(k, node) \<in> {(0, ''/dev/nac''), (1, ''/dev/nacmem''), (2, ''/dev/naciom'')}. minor = k \<longrightarrow>
          nac_clone E fd minor s = (case open_at E (trace s) (node @ [d]) of
             None \<Rightarrow> Some (Ok (- 1), s\<lparr>trace := trace s @ [SysOpen (node @ [d]) None], errno := ESYS\<rparr>)
           | Some r \<Rightarrow> Some (Ok r, s\<lparr>trace := trace s @ [SysOpen (node @ [d]) (Some r)]\<rparr>))"
    using assms d by (auto simp: nac_clone_def NACMINOR_MAX_def minor_fmt_def split: option.split)
  show "nac_clone E fd minor s = Some (Fault, s)" if "minor = 3"
    using assms d that by (simp add: nac_clone_def NACMINOR_MAX_def minor_fmt_def)
qed

text \<open>The name of the memory node of unit 3 leads to the register node of unit 3.\<close>

lemma clone_opens_node_witness:
  "nac_clone demo_env 3 NACMINOR_IOM (demo_mach\<lparr>herd := [3 \<mapsto> zero_sheep\<lparr>nacname := ''/dev/nacmem3''\<rparr>]\<rparr>) =
     Some (Ok 3, demo_mach\<lparr>herd := [3 \<mapsto> zero_sheep\<lparr>nacname := ''/dev/nacmem3''\<rparr>],
       trace := [SysOpen ''/dev/naciom3'' (Some 3)]\<rparr>)"
proof -
  let ?h = "zero_sheep\<lparr>nacname := ''/dev/nacmem3''\<rparr>"
  have "regexec_nac ''/dev/nacmem3'' = Some (CHR ''3'')" by code_simp
  then have "leftmost_unit (nacname ?h) (CHR ''3'')" by (simp add: regexec_leftmost del: regexec_nac.simps)
  then show ?thesis
    using clone_opens_node [of "demo_mach\<lparr>herd := [3 \<mapsto> ?h]\<rparr>" 3 ?h NACMINOR_IOM demo_env]
    by (auto simp: NACMINOR_IOM_def demo_env_def demo_mach_def)
qed

section \<open>Outcomes of open and close\<close>

lemma open_fail_run:
  "herd s fd = Some h \<Longrightarrow> open_fail fd s =
     Some (Ok (- 1), if 0 < fd then s\<lparr>herd := (herd s)(fd \<mapsto> zero_sheep)\<rparr> else s)"
  by (simp add: open_fail_def)

lemma not_opened_zero: "\<not> opened zero_sheep"
  by (simp add: zero_sheep_def)

lemma mmap_Ok:
  assumes "mmap E fd a len off s = Some (r, t)"
  obtains x where "r = Ok x" and "herd t = herd s"
    and "x = mmap_at E (trace s)" and "trace t = trace s @ [MMap fd a len off x]"
  using assms by (auto simp: mmap_def bnd_def split: option.splits if_splits)

lemma nac_clone_frame:
  assumes "nac_clone E fd m s = Some (Ok io, t)" shows "herd t = herd s"
  using assms by (auto simp: nac_clone_def bnd_def get_sheep_def follow_def
      split: if_splits option.splits)

text \<open>
  The end of the history of a card that was just opened: the register node of the unit in the
  card's name was opened, the card described itself, and as many bytes of the node as the
  description says were mapped; the entry of the herd records all three answers.
\<close>

definition card_opened :: "int \<Rightarrow> sheep_t \<Rightarrow> history \<Rightarrow> bool" where
  "card_opened fd h hist \<longleftrightarrow> (\<exists>d pre. leftmost_unit (nacname h) d \<and> 0 \<le> naciom h \<and> hist = pre @
     [SysOpen (''/dev/naciom'' @ [d]) (Some (naciom h)), SysIoctl fd (Some (nacinf h)),
      MMap (naciom h) 0 (ucast (iom_size (nacinf h))) 0 (Some (iom h))])"

lemma card_openedI:
  "leftmost_unit (nacname h) d \<Longrightarrow> 0 \<le> naciom h \<Longrightarrow> hist = pre @
     [SysOpen (''/dev/naciom'' @ [d]) (Some (naciom h)), SysIoctl fd (Some (nacinf h)),
      MMap (naciom h) 0 (ucast (iom_size (nacinf h))) 0 (Some (iom h))] \<Longrightarrow> card_opened fd h hist"
  unfolding card_opened_def by blast

lemma nac_clone_Ok:
  assumes "nac_clone E fd NACMINOR_IOM s = Some (Ok io, t)" and "herd s fd = Some h" and "\<not> io < 0"
  obtains d where "leftmost_unit (nacname h) d"
    and "t = s\<lparr>trace := trace s @ [SysOpen (''/dev/naciom'' @ [d]) (Some io)]\<rparr>"
  using assms by (auto simp: nac_clone_def NACMINOR_IOM_def NACMINOR_MAX_def minor_fmt_def regexec_leftmost
      split: option.splits)

lemma nac_open_entry_outcome:
  assumes run: "nac_open_entry E f name s = Some (Ok r, t)" and f: "0 < f"
  shows "(r = - 1 \<and> herd t = (herd s)(f \<mapsto> zero_sheep)) \<or>
    (r = f \<and> (\<exists>h. herd t = (herd s)(f \<mapsto> h) \<and> opened h \<and> nacname h = name \<and> card_opened f h (trace t)))"
proof -
  from run obtain h where len: "length name < 32" and h: "herd s f = Some h"
    by (cases "herd s f") (auto simp: nac_open_entry_def strcpy_nacname_def put_sheep_def bnd_def
        split: if_splits)
  define s1 where "s1 = s\<lparr>herd := (herd s)(f \<mapsto> h\<lparr>nacname := name\<rparr>)\<rparr>"
  have st: "strcpy_nacname f name s = Some (Ok (), s1)"
    using len h by (simp add: strcpy_nacname_def s1_def)
  from run st obtain io s2 where cl: "nac_clone E f NACMINOR_IOM s1 = Some (Ok io, s2)"
    unfolding nac_open_entry_def by (auto elim!: bnd_OkE)
  have h2: "herd s2 = herd s1" using cl by (rule nac_clone_frame)
  show ?thesis
  proof (cases "io < 0 \<or> ioctl_at E (trace s2) f = None")
    case True
    then show ?thesis
      using run f st cl h2 unfolding nac_open_entry_def
      by (auto simp: s1_def open_fail_run split: if_splits)
  next
    case False
    then obtain i where i: "\<not> io < 0" "ioctl_at E (trace s2) f = Some i" by auto
    then have "io \<noteq> - 1" by simp
    have "herd s1 f = Some (h\<lparr>nacname := name\<rparr>)" by (simp add: s1_def)
    from cl this i(1) obtain d where d: "leftmost_unit (nacname (h\<lparr>nacname := name\<rparr>)) d"
      "s2 = s1\<lparr>trace := trace s1 @ [SysOpen (''/dev/naciom'' @ [d]) (Some io)]\<rparr>"
      by (rule nac_clone_Ok)
    show ?thesis
    proof (cases "mmap_at E (trace s2 @ [SysIoctl f (Some i)])")
      case None
      then show ?thesis
        using run f st cl h2 i \<open>io \<noteq> - 1\<close> unfolding nac_open_entry_def
        by (auto simp: s1_def open_fail_run mmap_fails)
    next
      case (Some a)
      define g where "g = h\<lparr>nacname := name, naciom := io, nacinf := i, opened := True, iom := a\<rparr>"
      have "r = f \<and> herd t = (herd s)(f \<mapsto> g) \<and> trace t = trace s2 @
          [SysIoctl f (Some i), MMap io 0 (ucast (iom_size i)) 0 (Some a)]"
        using run f st cl h2 i \<open>io \<noteq> - 1\<close> Some unfolding nac_open_entry_def
        by (auto simp: s1_def mmap_hole_run g_def)
      moreover have "card_opened f g (trace t)" if "trace t = trace s2 @
          [SysIoctl f (Some i), MMap io 0 (ucast (iom_size i)) 0 (Some a)]"
        by (rule card_openedI [of g d _ "trace s1"]) (use that d i(1) in \<open>simp_all add: g_def\<close>)
      ultimately show ?thesis by (auto simp: g_def)
    qed
  qed
qed

lemma nac_open_cases:
  assumes run: "nac_open E name s = Some (Ok r, t)" and "open_at E (trace s) name = Some f" "0 < f"
  obtains s' where "herd s' = herd s \<or> (\<forall>fd h. herd s' fd = Some h \<longrightarrow> \<not> opened h)"
    and "open_fail f s' = Some (Ok r, t) \<or> nac_open_entry E f name s' = Some (Ok r, t)"
proof -
  have z: "\<not> opened (zero_sheep\<lparr>naciom := i\<rparr>)" for i by (simp add: zero_sheep_def)
  define s1 where "s1 = s\<lparr>trace := trace s @ [SysOpen name (Some f)]\<rparr>"
  define s2 where "s2 = s1\<lparr>trace := trace s1 @ [Alloc False], errno := ESYS\<rparr>"
  define s3 where "s3 = s1\<lparr>trace := trace s1 @ [Alloc True], herd := (\<lambda>i. if 0 \<le> i \<and> i < open_max E
     then Some (zero_sheep\<lparr>naciom := - 1\<rparr>) else None)\<rparr>"
  have h: "herd s1 = herd s" "herd s2 = herd s" "\<And>e. herd (s1\<lparr>errno := e\<rparr>) = herd s"
    "\<forall>fd h. herd s3 fd = Some h \<longrightarrow> \<not> opened h"
    "\<And>e. \<forall>fd h. herd (s3\<lparr>errno := e\<rparr>) fd = Some h \<longrightarrow> \<not> opened h"
    by (auto simp: s1_def s2_def s3_def z)
  have open1: "sys_open E name s = Some (Ok f, s1)"
    using assms(2) by (simp add: s1_def)
  have alloc: "bnd (malloc E) (\<lambda>ok. if ok then bnd (init_herd E) (\<lambda>_. ret True)
      else fail_with ESYS False) s1 = (if malloc_ok E (trace s1) then Some (Ok True, s3) else Some (Ok False, s2))"
    by (simp add: init_herd_def s2_def s3_def)
  show thesis
    using run assms(3) open1 alloc h that [of s1] that [of s2] that [of s3]
      that [of "s1\<lparr>errno := ENFILE\<rparr>"] that [of "s3\<lparr>errno := ENFILE\<rparr>"]
    by (cases "herd_null s1"; cases "malloc_ok E (trace s1)"; cases "open_max E \<le> f")
      (auto simp: nac_open_def)
qed

lemma demo_opens: "\<exists>t. nac_open demo_env ''/dev/nac0'' (demo_mach\<lparr>herd := Map.empty\<rparr>) = Some (Ok 3, t)"
  by (simp add: nac_open_def nac_open_entry_def strcpy_nacname_def nac_clone_def
      NACMINOR_IOM_def NACMINOR_MAX_def minor_fmt_def is_digit_def match_units.simps
      init_herd_def herd_null_def demo_mach_def demo_env_def mmap_def zero_sheep_def)

text \<open>
  C33. If \<open>nac_open\<close> returns, then either it returned a negative number, or the descriptor the
  kernel gave, whose entry is then open under the given name and was filled by the last three
  system calls, in this order: the register node of the unit in the name was opened (\<open>naciom\<close>), the
  driver described the card (\<open>nacinf\<close>), and the register window was mapped at the size the
  description gives, its address being the one the registers are reached through (\<open>iom\<close>). In
  both cases no other entry has become open or, if open, has changed. (Descriptor 0 is
  excluded: the cleanup skips it.)
\<close>

theorem nac_open_outcome:
  assumes run: "nac_open E name s = Some (Ok r, t)" and "open_at E (trace s) name \<noteq> Some 0"
  shows "(\<forall>fd h. fd \<noteq> r \<longrightarrow> herd t fd = Some h \<longrightarrow> opened h \<longrightarrow> herd s fd = Some h) \<and>
    (r < 0 \<or> (open_at E (trace s) name = Some r \<and>
       (\<exists>h. herd t r = Some h \<and> opened h \<and> nacname h = name \<and> card_opened r h (trace t))))"
proof (cases "open_at E (trace s) name")
  case None
  then show ?thesis using run by (auto simp: nac_open_def open_fail_def)
next
  case (Some f)
  show ?thesis
  proof (cases "f < 0")
    case True
    then show ?thesis using run Some by (auto simp: nac_open_def open_fail_def)
  next
    case False
    with Some assms(2) have f: "0 < f" by (cases "f = 0") auto
    from run Some f obtain s' where s': "herd s' = herd s \<or> (\<forall>fd h. herd s' fd = Some h \<longrightarrow> \<not> opened h)"
      "open_fail f s' = Some (Ok r, t) \<or> nac_open_entry E f name s' = Some (Ok r, t)"
      by (rule nac_open_cases)
    from s'(2) show ?thesis
    proof
      assume "open_fail f s' = Some (Ok r, t)"
      then have "r = - 1" "herd t = (herd s')(f \<mapsto> zero_sheep)"
        using f by (auto simp: open_fail_def put_sheep_def bnd_def split: option.splits)
      then show ?thesis using s'(1) not_opened_zero by (auto split: if_splits)
    next
      assume "nac_open_entry E f name s' = Some (Ok r, t)"
      from nac_open_entry_outcome [OF this f] show ?thesis
        using s'(1) not_opened_zero Some by (auto split: if_splits)
    qed
  qed
qed

lemma nac_open_outcome_witness:
  "\<exists>r t. nac_open demo_env ''/dev/nac0'' (demo_mach\<lparr>herd := Map.empty\<rparr>) = Some (Ok r, t) \<and>
     open_at demo_env [] ''/dev/nac0'' = Some r \<and> (\<exists>h. herd t r = Some h \<and> opened h \<and> card_opened r h (trace t))"
proof -
  obtain t where run: "nac_open demo_env ''/dev/nac0'' (demo_mach\<lparr>herd := Map.empty\<rparr>) = Some (Ok 3, t)" using demo_opens by blast
  show ?thesis
    using nac_open_outcome [OF run] run by (auto simp: demo_env_def demo_mach_def)
qed

text \<open>
  \<open>nac_close\<close> of an open card closes the I/O memory descriptor, unmaps the register window
  at its full size if it is mapped, closes the card and resets its entry, so that a second
  close is refused with EBADF and touches nothing; no other entry changes.
\<close>

theorem nac_close_outcome:
  assumes "herd s fd = Some h" and "opened h"
  shows "\<exists>r t. nac_close E fd s = Some (Ok r, t) \<and>
     herd t = (herd s)(fd \<mapsto> zero_sheep\<lparr>naciom := - 1\<rparr>) \<and>
     trace t = trace s @ SysClose (naciom h) #
       (if iom h = 0 then [] else [MUnmap (iom h) (ucast (iom_size (nacinf h)))]) @ [SysClose fd] \<and>
     nac_close E fd t = Some (Ok (- 1), t\<lparr>errno := EBADF\<rparr>)"
proof -
  have z: "\<not> opened (zero_sheep\<lparr>naciom := - 1\<rparr>)" by (simp add: zero_sheep_def)
  show ?thesis
    using assms by (auto simp: nac_close_def release_card_def z)
qed

lemma nac_close_outcome_witness:
  "\<exists>r t. nac_close demo_env 3 demo_mach = Some (Ok r, t) \<and>
     nac_close demo_env 3 t = Some (Ok (- 1), t\<lparr>errno := EBADF\<rparr>)"
  using nac_close_outcome [of demo_mach 3 demo_card demo_env]
  by (auto simp: demo_mach_def demo_card_def)

end
