(* ===== verification/Buses.thy ===== *)
theory Buses
  imports Board
begin

text \<open>
  The slow buses behind the card's registers (lib/nacapi.c): the I2C master with its
  Wishbone registers and the module identification over it, the MAC and PCS registers, the
  control and status operations of the PHYs, and MDIO. A \<open>return;\<close> without a value in a
  function that has one is undefined for the callers, all of which use the value: a fault.
\<close>

section \<open>The I2C master\<close>

definition PRER_LO :: u8 where "PRER_LO = 0x00"
definition PRER_HI :: u8 where "PRER_HI = 0x01"
definition CTR :: u8 where "CTR = 0x02"
definition TXR :: u8 where "TXR = 0x03"
definition CR :: u8 where "CR = 0x04"
definition RXR :: u8 where "RXR = 0x03"
definition SR :: u8 where "SR = 0x04"
definition RD :: u8 where "RD = 0x1"
definition WR :: u8 where "WR = 0x0"

text \<open>The ports are wired crosswise: \<open>port = (port < 2) ? (port + 2) : (port - 2)\<close>.\<close>

definition wb_reg :: "u8 \<Rightarrow> u32" where
  "wb_reg port = I2C_BASEADDR + ucast (if port < 2 then port + 2 else port - 2) * 4"

definition nac_wb_write :: "int \<Rightarrow> u8 \<Rightarrow> u8 \<Rightarrow> u8 \<Rightarrow> unit nac" where
  "nac_wb_write nacfd port addr data =
     (if 4 < addr \<or> 3 < port then ret ()
      else bnd (reg_write nacfd (wb_reg port) (0x80000000 + ucast addr * 256 + ucast data)) (\<lambda>_. usleep 100))"

definition nac_wb_read :: "env \<Rightarrow> int \<Rightarrow> u8 \<Rightarrow> u8 \<Rightarrow> u8 nac" where
  "nac_wb_read E nacfd port addr =
     (if 4 < addr \<or> 3 < port then fault
      else bnd (reg_write nacfd (wb_reg port) (ucast addr * 256)) (\<lambda>_.
           bnd (usleep 100) (\<lambda>_.
           bnd (reg_read E nacfd (wb_reg port)) (\<lambda>v. ret (ucast v)))))"

text \<open>Polling the bit \<open>transfer in progress\<close>.\<close>

definition tip_round :: "env \<Rightarrow> int \<Rightarrow> u8 \<Rightarrow> u8 \<Rightarrow> (u8 + unit) nac" where
  "tip_round E nacfd port q = (if q AND 0x2 \<noteq> 0 then bnd (nac_wb_read E nacfd port SR) (\<lambda>q'. ret (Inl q'))
     else ret (Inr ()))"

definition nac_wait_trans_done :: "env \<Rightarrow> int \<Rightarrow> u8 \<Rightarrow> unit nac" where
  "nac_wait_trans_done E nacfd port =
     (if 3 < port then ret ()
      else bnd (nac_wb_read E nacfd port SR) (\<lambda>q. iterate (tip_round E nacfd port) q))"

definition nac_i2c_init :: "int \<Rightarrow> u8 \<Rightarrow> unit nac" where
  "nac_i2c_init nacfd port =
     (if 3 < port then ret ()
      else steps [nac_wb_write nacfd port CTR 0x0, nac_wb_write nacfd port PRER_LO 0xC7,
                  nac_wb_write nacfd port PRER_HI 0x00, nac_wb_write nacfd port CTR 0x80])"

text \<open>A byte into the transmit register, a command, and the wait for its end.\<close>

definition i2c_send :: "env \<Rightarrow> int \<Rightarrow> u8 \<Rightarrow> u8 \<Rightarrow> u8 \<Rightarrow> unit nac" where
  "i2c_send E nacfd port data cmd = steps
     [nac_wb_write nacfd port TXR data, nac_wb_write nacfd port CR cmd, nac_wait_trans_done E nacfd port]"

text \<open>Addressing a byte of a slave, as every transfer begins.\<close>

definition i2c_address :: "env \<Rightarrow> int \<Rightarrow> u8 \<Rightarrow> u8 \<Rightarrow> u8 \<Rightarrow> unit nac" where
  "i2c_address E nacfd port slave_addr mem_addr = steps
     [i2c_send E nacfd port (slave_addr + WR) 0x90, i2c_send E nacfd port mem_addr 0x10]"

definition nac_i2c_random_read8 :: "env \<Rightarrow> int \<Rightarrow> u8 \<Rightarrow> u8 \<Rightarrow> u8 \<Rightarrow> u8 nac" where
  "nac_i2c_random_read8 E nacfd port slave_addr mem_addr =
     (if 3 < port then fault
      else bnd (i2c_address E nacfd port slave_addr mem_addr) (\<lambda>_.
        bnd (i2c_send E nacfd port (slave_addr + RD) 0x90) (\<lambda>_.
        bnd (nac_wb_write nacfd port CR 0x28) (\<lambda>_.
        bnd (nac_wait_trans_done E nacfd port) (\<lambda>_.
        bnd (nac_wb_read E nacfd port RXR) (\<lambda>result.
        bnd (nac_wb_write nacfd port CR 0x40) (\<lambda>_.
        bnd (usleep 1) (\<lambda>_. ret result))))))))"

text \<open>One byte of a sequential read: command 0x20 acknowledges, 0x28 ends the transfer.\<close>

definition i2c_receive :: "env \<Rightarrow> int \<Rightarrow> u8 \<Rightarrow> u8 \<Rightarrow> u8 nac" where
  "i2c_receive E nacfd port cmd =
     bnd (nac_wb_write nacfd port CR cmd) (\<lambda>_.
     bnd (nac_wait_trans_done E nacfd port) (\<lambda>_. nac_wb_read E nacfd port RXR))"

fun i2c_receive_all :: "env \<Rightarrow> int \<Rightarrow> u8 \<Rightarrow> (int \<Rightarrow> u8 \<Rightarrow> unit nac) \<Rightarrow> int list \<Rightarrow> u8 list nac" where
  "i2c_receive_all E nacfd port store [] = ret []"
| "i2c_receive_all E nacfd port store (i # is) =
     bnd (i2c_receive E nacfd port 0x20) (\<lambda>b. bnd (store i b) (\<lambda>_.
     bnd (i2c_receive_all E nacfd port store is) (\<lambda>bs. ret (b # bs))))"

text \<open>
  The transfer with the store of byte \<open>i\<close> as an argument: into the caller's buffer, or into a
  local array. It answers the bytes in order. For \<open>count = 0\<close> the last byte goes to index -1.
\<close>

definition i2c_sequential :: "env \<Rightarrow> int \<Rightarrow> u8 \<Rightarrow> u8 \<Rightarrow> u8 \<Rightarrow> (int \<Rightarrow> u8 \<Rightarrow> unit nac) \<Rightarrow> u8 \<Rightarrow> u8 list nac" where
  "i2c_sequential E nacfd port slave_addr base_addr store count =
     bnd (i2c_address E nacfd port slave_addr base_addr) (\<lambda>_.
     bnd (i2c_send E nacfd port (slave_addr + RD) 0x90) (\<lambda>_.
     bnd (i2c_receive_all E nacfd port store [0..uint count - 2]) (\<lambda>bs.
     bnd (i2c_receive E nacfd port 0x28) (\<lambda>b.
     bnd (store (uint count - 1) b) (\<lambda>_.
     bnd (nac_wb_write nacfd port CR 0x40) (\<lambda>_.
     bnd (usleep 1) (\<lambda>_. ret (bs @ [b]))))))))"

definition nac_i2c_sequential_read :: "env \<Rightarrow> int \<Rightarrow> u8 \<Rightarrow> u8 \<Rightarrow> u8 \<Rightarrow> u64 \<Rightarrow> u8 \<Rightarrow> unit nac" where
  "nac_i2c_sequential_read E nacfd port slave_addr base_addr pdata count =
     (if 3 < port then ret ()
      else bnd (i2c_sequential E nacfd port slave_addr base_addr
                  (\<lambda>i b. write_byte (pdata + word_of_int i) b) count) (\<lambda>_. ret ()))"

definition nac_i2c_random_read16 :: "env \<Rightarrow> int \<Rightarrow> u8 \<Rightarrow> u8 \<Rightarrow> u8 \<Rightarrow> u16 nac" where
  "nac_i2c_random_read16 E nacfd port slave_addr mem_addr =
     (if 3 < port then fault
      else bnd (i2c_sequential E nacfd port slave_addr mem_addr (\<lambda>_ _. ret ()) 2) (\<lambda>data.
           ret (ucast (data ! 0) * 256 + ucast (data ! 1))))"

definition nac_i2c_random_write16 :: "env \<Rightarrow> int \<Rightarrow> u8 \<Rightarrow> u8 \<Rightarrow> u8 \<Rightarrow> u16 \<Rightarrow> unit nac" where
  "nac_i2c_random_write16 E nacfd port slave_addr mem_addr data =
     (if 3 < port then ret ()
      else steps
        [i2c_address E nacfd port slave_addr mem_addr,
         i2c_send E nacfd port (ucast (drop_bit 8 (data AND 0xFF00))) 0x10,
         i2c_send E nacfd port (ucast (data AND 0x00FF)) 0x50,
         usleep 1])"

section \<open>The modules' identification\<close>

definition SFP_MSA_E2PROM :: u8 where
  "SFP_MSA_E2PROM = 0xA0"

text \<open>The texts printed for the known identifiers are left out.\<close>

definition phy_get_module_id :: "env \<Rightarrow> int \<Rightarrow> u8 \<Rightarrow> u8 nac" where
  "phy_get_module_id E nacfd port = nac_i2c_random_read8 E nacfd port SFP_MSA_E2PROM 0"

definition phy_get_connector_id :: "env \<Rightarrow> int \<Rightarrow> u8 \<Rightarrow> u8 nac" where
  "phy_get_connector_id E nacfd port = nac_i2c_random_read8 E nacfd port SFP_MSA_E2PROM 2"

fun read_bytes :: "env \<Rightarrow> int \<Rightarrow> u8 \<Rightarrow> u8 \<Rightarrow> nat \<Rightarrow> u8 list nac" where
  "read_bytes E nacfd port addr 0 = ret []"
| "read_bytes E nacfd port addr (Suc k) =
     bnd (nac_i2c_random_read8 E nacfd port SFP_MSA_E2PROM addr) (\<lambda>b.
     bnd (read_bytes E nacfd port (addr + 1) k) (\<lambda>bs. ret (b # bs)))"

text \<open>The bytes that are printed; \<open>None\<close> stands for the placeholder of an absent module.\<close>

definition phy_get_vendor_id :: "env \<Rightarrow> int \<Rightarrow> u8 \<Rightarrow> u8 list option nac" where
  "phy_get_vendor_id E nacfd port =
     bnd (read_bytes E nacfd port 20 16) (\<lambda>vendor_name.
     ret (if hd vendor_name = - 1 then None else Some (takeWhile (\<lambda>b. b \<noteq> 0) vendor_name)))"

section \<open>MAC and PCS registers\<close>

definition mac_data_reg :: "u8 \<Rightarrow> u32" where
  "mac_data_reg mac = (if mac < 2 then MAC0_DATA else MAC1_DATA)"

text \<open>The address register of a MAC and the word that selects its register \<open>addr\<close>.\<close>

definition mac_addr_reg :: "u8 \<Rightarrow> u32" where
  "mac_addr_reg mac = (if mac = 0 \<or> mac = 1 then MAC0_ADDR else MAC1_ADDR)"

definition mac_select :: "u8 \<Rightarrow> u16 \<Rightarrow> u32" where
  "mac_select mac addr = (if mac = 0 \<or> mac = 2 then ucast addr else push_bit 10 1 + ucast addr)"

definition nac_mac_write :: "int \<Rightarrow> u8 \<Rightarrow> u16 \<Rightarrow> u32 \<Rightarrow> unit nac" where
  "nac_mac_write nacfd mac addr data =
     (if 1023 < addr then ret ()
      else if 3 < mac then ret ()
      else bnd (reg_write nacfd (mac_data_reg mac) data) (\<lambda>_.
           bnd (reg_write nacfd (mac_addr_reg mac) (0x80000000 + mac_select mac addr)) (\<lambda>_.
           usleep 100)))"

definition nac_mac_read :: "env \<Rightarrow> int \<Rightarrow> u8 \<Rightarrow> u16 \<Rightarrow> u32 nac" where
  "nac_mac_read E nacfd mac addr =
     (if 1023 < addr then ret (- 1)
      else if 3 < mac then ret (- 1)
      else bnd (reg_write nacfd (mac_addr_reg mac) (mac_select mac addr)) (\<lambda>_.
           bnd (usleep 100) (\<lambda>_. reg_read E nacfd (mac_data_reg mac))))"

definition nac_mdio_init :: "int \<Rightarrow> u8 \<Rightarrow> unit nac" where
  "nac_mdio_init nacfd mac = nac_mac_write nacfd mac 0x340 0x58"

text \<open>The PCS of a MAC is reached through its neighbour.\<close>

definition pcs_swap :: "u8 \<Rightarrow> u8" where
  "pcs_swap mac = (if mac = 0 then 1 else if mac = 1 then 0 else if mac = 2 then 3 else 2)"

definition pcs_select :: "u8 \<Rightarrow> u8 \<Rightarrow> u32" where
  "pcs_select mac addr =
     (if mac = 0 \<or> mac = 2 then push_bit 5 1 + ucast addr
      else push_bit 10 1 + push_bit 5 2 + ucast addr)"

definition nac_pcs_write :: "int \<Rightarrow> u8 \<Rightarrow> u8 \<Rightarrow> u32 \<Rightarrow> unit nac" where
  "nac_pcs_write nacfd mac0 addr data =
     (if 31 < addr then ret ()
      else if 3 < mac0 then ret ()
      else let mac = pcs_swap mac0 in
        bnd (reg_write nacfd (mac_data_reg mac) data) (\<lambda>_.
        bnd (reg_write nacfd (mac_addr_reg mac) (0x80000000 + pcs_select mac addr)) (\<lambda>_.
        usleep 100)))"

definition nac_pcs_read :: "env \<Rightarrow> int \<Rightarrow> u8 \<Rightarrow> u8 \<Rightarrow> u32 nac" where
  "nac_pcs_read E nacfd mac0 addr =
     (if 31 < addr then ret (- 1)
      else if 3 < mac0 then ret (- 1)
      else let mac = pcs_swap mac0 in
        bnd (reg_write nacfd (mac_addr_reg mac) (pcs_select mac addr)) (\<lambda>_.
        bnd (usleep 100) (\<lambda>_. reg_read E nacfd (mac_data_reg mac))))"

section \<open>Control and status of the PHYs\<close>

text \<open>Reading register 0, changing it and writing it back.\<close>

definition pcs_update :: "env \<Rightarrow> int \<Rightarrow> u8 \<Rightarrow> (u32 \<Rightarrow> u32) \<Rightarrow> int nac" where
  "pcs_update E nacfd mac f =
     (if 3 < mac then ret (- 1)
      else bnd (rmw (nac_pcs_read E nacfd mac 0) (nac_pcs_write nacfd mac 0) f) (\<lambda>_. ret 0))"

definition nac_set_pcs_reset :: "env \<Rightarrow> int \<Rightarrow> u8 \<Rightarrow> int nac" where
  "nac_set_pcs_reset E nacfd mac = pcs_update E nacfd mac (\<lambda>tmp. tmp OR 0x8000)"

definition nac_set_pcs_loopback :: "env \<Rightarrow> int \<Rightarrow> u8 \<Rightarrow> u8 \<Rightarrow> int nac" where
  "nac_set_pcs_loopback E nacfd mac enable =
     pcs_update E nacfd mac (\<lambda>tmp. if enable \<noteq> 0 then tmp OR 0x4000 else tmp AND 0xBFFF)"

definition nac_set_autoneg_enable :: "env \<Rightarrow> int \<Rightarrow> u8 \<Rightarrow> u8 \<Rightarrow> int nac" where
  "nac_set_autoneg_enable E nacfd mac enable =
     pcs_update E nacfd mac (\<lambda>tmp. if enable \<noteq> 0 then tmp OR 0x1000 else tmp AND 0xEFFF)"

definition nac_set_phy_powerdown :: "env \<Rightarrow> int \<Rightarrow> u8 \<Rightarrow> int nac" where
  "nac_set_phy_powerdown E nacfd mac = pcs_update E nacfd mac (\<lambda>tmp. tmp OR 0x0800)"

definition nac_set_phy_isolate :: "env \<Rightarrow> int \<Rightarrow> u8 \<Rightarrow> int nac" where
  "nac_set_phy_isolate E nacfd mac = pcs_update E nacfd mac (\<lambda>tmp. tmp OR 0x0400)"

definition nac_set_autoneg_restart :: "env \<Rightarrow> int \<Rightarrow> u8 \<Rightarrow> int nac" where
  "nac_set_autoneg_restart E nacfd mac = pcs_update E nacfd mac (\<lambda>tmp. tmp OR 0x0200)"

text \<open>0 when one of the bits of the mask is set in the register, -1 otherwise.\<close>

definition pcs_test :: "env \<Rightarrow> int \<Rightarrow> u8 \<Rightarrow> u8 \<Rightarrow> u32 \<Rightarrow> int nac" where
  "pcs_test E nacfd mac addr msk =
     (if 3 < mac then ret (- 1)
      else bnd (nac_pcs_read E nacfd mac addr) (\<lambda>tmp. ret (if tmp AND msk \<noteq> 0 then 0 else - 1)))"

definition nac_get_autoneg_enable_status :: "env \<Rightarrow> int \<Rightarrow> u8 \<Rightarrow> int nac" where
  "nac_get_autoneg_enable_status E nacfd mac = pcs_test E nacfd mac 0 0x1000"

definition nac_get_autoneg_status :: "env \<Rightarrow> int \<Rightarrow> u8 \<Rightarrow> int nac" where
  "nac_get_autoneg_status E nacfd mac = pcs_test E nacfd mac 1 0x20"

definition nac_get_remote_status :: "env \<Rightarrow> int \<Rightarrow> u8 \<Rightarrow> int nac" where
  "nac_get_remote_status E nacfd mac = pcs_test E nacfd mac 1 0x10"

definition nac_get_link_status :: "env \<Rightarrow> int \<Rightarrow> u8 \<Rightarrow> int nac" where
  "nac_get_link_status E nacfd mac = pcs_test E nacfd mac 1 0x4"

definition nac_get_remote_partner_autoneg_status :: "env \<Rightarrow> int \<Rightarrow> u8 \<Rightarrow> int nac" where
  "nac_get_remote_partner_autoneg_status E nacfd mac =
     (if 3 < mac then ret (- 1)
      else bnd (nac_pcs_read E nacfd mac 5) (\<lambda>v.
        let tmp = drop_bit 12 (v AND 0x3000) in
        ret (if tmp = 0 then 0 else if tmp = 1 then 1 else if tmp = 2 then 2
             else if tmp = 3 then 3 else - 1)))"

section \<open>MDIO\<close>

definition mdio_reg :: "u8 \<Rightarrow> u32" where
  "mdio_reg port = MDIO_BASE_ADDR + ucast (3 - port) * 4"

definition mdio_word :: "u32 \<Rightarrow> u8 \<Rightarrow> u8 \<Rightarrow> u16 \<Rightarrow> u32" where
  "mdio_word op port regad data = push_bit 28 1 + push_bit 26 op + push_bit 21 (ucast (3 - port)) +
     push_bit 16 (ucast regad) + ucast data"

definition ge_mdio_random_write :: "int \<Rightarrow> u8 \<Rightarrow> u8 \<Rightarrow> u16 \<Rightarrow> unit nac" where
  "ge_mdio_random_write nacfd port regad data =
     (if 31 < regad then ret ()
      else if 3 < port then ret ()
      else bnd (reg_write nacfd (mdio_reg port) (mdio_word 1 port regad data)) (\<lambda>_. usleep 100))"

definition ge_mdio_random_read :: "env \<Rightarrow> int \<Rightarrow> u8 \<Rightarrow> u8 \<Rightarrow> u16 nac" where
  "ge_mdio_random_read E nacfd port regad =
     (if 31 < regad then fault
      else if 3 < port then fault
      else bnd (reg_write nacfd (mdio_reg port) (mdio_word 2 port regad 0)) (\<lambda>_.
           bnd (usleep 100) (\<lambda>_.
           bnd (reg_read E nacfd (mdio_reg port)) (\<lambda>v. ret (ucast v)))))"

section \<open>The PCS registers as ports\<close>

text \<open>The history a read of a PCS register has before it reads the data register.\<close>

definition pcs_asked :: "int \<Rightarrow> u8 \<Rightarrow> u8 \<Rightarrow> event list" where
  "pcs_asked fd mac addr = [RegWr fd (mac_addr_reg (pcs_swap mac)) (pcs_select (pcs_swap mac) addr), Delay 100]"

definition pcs_value :: "env \<Rightarrow> int \<Rightarrow> u8 \<Rightarrow> u8 \<Rightarrow> history \<Rightarrow> u32" where
  "pcs_value E fd mac addr hist = dev E (hist @ pcs_asked fd mac addr) fd (mac_data_reg (pcs_swap mac))"

definition pcs_written :: "int \<Rightarrow> u8 \<Rightarrow> u8 \<Rightarrow> u32 \<Rightarrow> event list" where
  "pcs_written fd mac addr v = [RegWr fd (mac_data_reg (pcs_swap mac)) v,
     RegWr fd (mac_addr_reg (pcs_swap mac)) (0x80000000 + pcs_select (pcs_swap mac) addr), Delay 100]"

interpretation pcs: rw_port "nac_pcs_read E fd mac addr" "nac_pcs_write fd mac addr"
    "\<lambda>s. mapped fd s \<and> mac \<le> 3 \<and> addr \<le> 31" "pcs_value E fd mac addr"
    "\<lambda>hist. pcs_asked fd mac addr @ [RegRd fd (mac_data_reg (pcs_swap mac)) (pcs_value E fd mac addr hist)]"
    "pcs_written fd mac addr"
  for E fd mac addr
  by unfold_locales (simp_all add: nac_pcs_read_def nac_pcs_write_def pcs_value_def pcs_asked_def pcs_written_def
      mapped_runs leD Let_def)

lemma pcs_update_run:
  assumes "mapped fd s" and "mac \<le> 3"
  shows "pcs_update E fd mac f s = Some (Ok 0, s\<lparr>trace := trace s @ pcs_asked fd mac 0 @
     [RegRd fd (mac_data_reg (pcs_swap mac)) (pcs_value E fd mac 0 (trace s))] @
     pcs_written fd mac 0 (f (pcs_value E fd mac 0 (trace s)))\<rparr>)"
  using pcs.rmw_ret [of fd s mac 0 E f 0] assms by (simp add: pcs_update_def leD)

text \<open>
  The operation \<open>m\<close> reads register 0 of the PHY, sets bit \<open>k\<close> of the value to \<open>b\<close>, keeps the
  other 15 bits, writes the result back, does nothing else and returns 0.
\<close>

definition sets_bit :: "env \<Rightarrow> int \<Rightarrow> u8 \<Rightarrow> mach \<Rightarrow> int nac \<Rightarrow> nat \<Rightarrow> bool \<Rightarrow> bool" where
  "sets_bit E fd mac s m k b \<longleftrightarrow> (\<exists>w. m s = Some (Ok 0, s\<lparr>trace := trace s @ pcs_asked fd mac 0 @
       [RegRd fd (mac_data_reg (pcs_swap mac)) (pcs_value E fd mac 0 (trace s))] @ pcs_written fd mac 0 w\<rparr>) \<and>
     (\<forall>n < 16. bit w n = (if n = k then b else bit (pcs_value E fd mac 0 (trace s)) n)))"

lemma sets_bitI:
  assumes "mapped fd s" and "mac \<le> 3" and "\<And>v n. n < 16 \<Longrightarrow> bit (f v) n = (if n = k then b else bit v n)"
  shows "sets_bit E fd mac s (pcs_update E fd mac f) k b"
  unfolding sets_bit_def
  by (intro exI [of _ "f (pcs_value E fd mac 0 (trace s))"] conjI pcs_update_run [OF assms(1,2)] allI impI assms(3))

lemma bit_or_single: "k < 32 \<Longrightarrow> bit (v OR push_bit k 1 :: u32) n \<longleftrightarrow> (n = k \<or> bit v n)"
  by (auto simp: bit_simps)

lemma bit_clear_16:
  "n < 16 \<Longrightarrow> bit (v AND (mask 16 AND NOT (push_bit k 1)) :: u32) n \<longleftrightarrow> (n \<noteq> k \<and> bit v n)"
  by (auto simp: bit_simps)

text \<open>
  The six control operations on a PHY of the card each read register 0 of that PHY and
  write it back with one bit changed: reset sets bit 15, loopback sets or clears bit 14,
  auto-negotiation bit 12, power-down sets bit 11, isolate bit 10, restart of the
  auto-negotiation bit 9; the other bits stay. For a MAC number above 3 all answer -1 and
  touch nothing.
\<close>

theorem phy_setters:
  assumes "mapped fd s"
  shows "(mac \<le> 3 \<longrightarrow>
       sets_bit E fd mac s (nac_set_pcs_reset E fd mac) 15 True \<and>
       sets_bit E fd mac s (nac_set_pcs_loopback E fd mac enable) 14 (enable \<noteq> 0) \<and>
       sets_bit E fd mac s (nac_set_autoneg_enable E fd mac enable) 12 (enable \<noteq> 0) \<and>
       sets_bit E fd mac s (nac_set_phy_powerdown E fd mac) 11 True \<and>
       sets_bit E fd mac s (nac_set_phy_isolate E fd mac) 10 True \<and>
       sets_bit E fd mac s (nac_set_autoneg_restart E fd mac) 9 True) \<and>
     (3 < mac \<longrightarrow> (\<forall>m \<in> {nac_set_pcs_reset E fd mac, nac_set_pcs_loopback E fd mac enable,
        nac_set_autoneg_enable E fd mac enable, nac_set_phy_powerdown E fd mac, nac_set_phy_isolate E fd mac,
        nac_set_autoneg_restart E fd mac}. m s = Some (Ok (- 1), s)))"
proof (intro conjI impI)
  have c: "(0x8000 :: u32) = push_bit 15 1" "(0x4000 :: u32) = push_bit 14 1" "(0x1000 :: u32) = push_bit 12 1"
    "(0x0800 :: u32) = push_bit 11 1" "(0x0400 :: u32) = push_bit 10 1" "(0x0200 :: u32) = push_bit 9 1"
    "(0xBFFF :: u32) = mask 16 AND NOT (push_bit 14 1)" "(0xEFFF :: u32) = mask 16 AND NOT (push_bit 12 1)"
    by (simp_all add: mask_eq_exp_minus_1)
  assume mac: "mac \<le> 3"
  note I = sets_bitI [OF assms mac]
  show "sets_bit E fd mac s (nac_set_pcs_reset E fd mac) 15 True"
    unfolding nac_set_pcs_reset_def c by (rule I) (subst bit_or_single, auto)
  show "sets_bit E fd mac s (nac_set_phy_powerdown E fd mac) 11 True"
    unfolding nac_set_phy_powerdown_def c by (rule I) (subst bit_or_single, auto)
  show "sets_bit E fd mac s (nac_set_phy_isolate E fd mac) 10 True"
    unfolding nac_set_phy_isolate_def c by (rule I) (subst bit_or_single, auto)
  show "sets_bit E fd mac s (nac_set_autoneg_restart E fd mac) 9 True"
    unfolding nac_set_autoneg_restart_def c by (rule I) (subst bit_or_single, auto)
  show "sets_bit E fd mac s (nac_set_pcs_loopback E fd mac enable) 14 (enable \<noteq> 0)"
    unfolding nac_set_pcs_loopback_def c
    by (rule I, cases "enable = 0") (simp_all only: if_False if_True simp_thms bit_clear_16 bit_or_single, auto)
  show "sets_bit E fd mac s (nac_set_autoneg_enable E fd mac enable) 12 (enable \<noteq> 0)"
    unfolding nac_set_autoneg_enable_def c
    by (rule I, cases "enable = 0") (simp_all only: if_False if_True simp_thms bit_clear_16 bit_or_single, auto)
next
  assume "3 < mac"
  then show "\<forall>m \<in> {nac_set_pcs_reset E fd mac, nac_set_pcs_loopback E fd mac enable,
        nac_set_autoneg_enable E fd mac enable, nac_set_phy_powerdown E fd mac, nac_set_phy_isolate E fd mac,
        nac_set_autoneg_restart E fd mac}. m s = Some (Ok (- 1), s)"
    by (simp add: nac_set_pcs_reset_def nac_set_pcs_loopback_def nac_set_autoneg_enable_def
        nac_set_phy_powerdown_def nac_set_phy_isolate_def nac_set_autoneg_restart_def pcs_update_def)
qed

lemma phy_setters_witness: "sets_bit demo_env 3 2 demo_mach (nac_set_pcs_loopback demo_env 3 2 0) 14 False"
  using phy_setters [OF demo_mapped, of 2 demo_env 0] by simp

text \<open>
  The PCS registers of a MAC are registers of its neighbour: with \<open>mac'\<close> the neighbour
  (0 and 1, 2 and 3 change places), reading or writing PCS register \<open>addr\<close> of \<open>mac\<close> is
  reading or writing register 32 + \<open>addr\<close> (even \<open>mac'\<close>) or 64 + \<open>addr\<close> (odd \<open>mac'\<close>) of
  \<open>mac'\<close>. Out-of-range arguments are refused by both, a read of them answering -1.
\<close>

theorem pcs_is_mac:
  assumes "reg' = (if pcs_swap mac = 0 \<or> pcs_swap mac = 2 then 32 else 64) + ucast addr"
  shows "(addr \<le> 31 \<and> mac \<le> 3 \<longrightarrow>
       nac_pcs_read E fd mac addr = nac_mac_read E fd (pcs_swap mac) reg' \<and>
       nac_pcs_write fd mac addr data = nac_mac_write fd (pcs_swap mac) reg' data \<and>
       pcs_swap mac \<le> 3 \<and> pcs_swap (pcs_swap mac) = mac) \<and>
     (\<not> (addr \<le> 31 \<and> mac \<le> 3) \<longrightarrow>
       nac_pcs_read E fd mac addr = ret (- 1) \<and> nac_pcs_write fd mac addr data = ret ())"
proof (intro conjI impI)
  assume ok: "addr \<le> 31 \<and> mac \<le> 3"
  have "mac = 0 \<or> mac = 1 \<or> mac = 2 \<or> mac = 3" using ok by unat_arith
  then show sw: "pcs_swap mac \<le> 3" "pcs_swap (pcs_swap mac) = mac" by (auto simp: pcs_swap_def)
  have a: "uint (ucast addr :: u16) = uint addr" "uint (ucast addr :: u32) = uint addr"
    by (simp_all add: uint_up_ucast is_up)
  have l: "uint addr \<le> 31" using ok by (simp add: word_le_def)
  have r: "uint reg' = (if pcs_swap mac = 0 \<or> pcs_swap mac = 2 then 32 else 64) + uint addr"
    using l uint_ge_0 [of addr] by (simp add: assms uint_word_ariths a)
  then have small: "\<not> 1023 < reg'" using l by (simp add: word_less_def)
  have "(ucast reg' :: u32) = (if pcs_swap mac = 0 \<or> pcs_swap mac = 2 then 32 else 64) + ucast addr"
    using l uint_ge_0 [of addr] by (simp add: word_uint_eq_iff uint_up_ucast is_up r uint_word_ariths)
  then have sel: "mac_select (pcs_swap mac) reg' = pcs_select (pcs_swap mac) addr"
    by (simp add: mac_select_def pcs_select_def)
  show "nac_pcs_read E fd mac addr = nac_mac_read E fd (pcs_swap mac) reg'"
    using ok sw small by (simp add: nac_pcs_read_def nac_mac_read_def sel leD Let_def)
  show "nac_pcs_write fd mac addr data = nac_mac_write fd (pcs_swap mac) reg' data"
    using ok sw small by (simp add: nac_pcs_write_def nac_mac_write_def sel leD Let_def)
qed (auto simp: nac_pcs_read_def nac_pcs_write_def not_le)

lemma pcs_is_mac_witness: "nac_pcs_read demo_env 3 1 4 = nac_mac_read demo_env 3 0 36"
  using pcs_is_mac [of 36 1 4 demo_env 3 0] by (simp add: pcs_swap_def)

end
