(* ===== verification/StreamConfig.thy ===== *)
theory StreamConfig
  imports Session Board
begin

text \<open>
  Dividing the card's memory hole into the rings of the streams and programming the DMA
  engines with them (lib/nac_stream.c): the one-process configuration, its split into a
  per-card and a per-process part, and the configuration for inline forwarding with receive
  and transmit rings. Sizes and bus addresses are 32 bit words, as in the source; an
  \<open>int\<close> that holds a size is the word with the same bits (two's complement).
\<close>

section \<open>Building blocks\<close>

definition RFT_SIZE :: u32 where
  "RFT_SIZE = 8 * (1 * 1024 * 1024)"

definition OVERLAP_FWD :: int where
  "OVERLAP_FWD = 0"

text \<open>The register of stream \<open>i\<close>: every stream's block lies 0x40 after the one before.\<close>

definition stream_reg :: "u32 \<Rightarrow> int \<Rightarrow> u32" where
  "stream_reg r i = r + word_of_int i * STREAM_REG_DIFF_0x40"

definition rx_pbm :: "int \<Rightarrow> nacpbm_stream_t" where
  "rx_pbm i = \<lparr>dma_buf_start = stream_reg HOST_ADDR_LO_REG i,
     dma_buf_end = stream_reg BUF_BOTTOM_LO_REG i, record_ptr = stream_reg RECORD_PTR_LO_REG i,
     limit_ptr = stream_reg LIMIT_PTR_LO_REG i, drop_cnt = Some (stream_reg DROP_CNT_REG i),
     dma_ctl_reg = stream_reg DMA_CTL_REG i\<rparr>"

definition tx_pbm :: "int \<Rightarrow> nacpbm_stream_t" where
  "tx_pbm i = \<lparr>dma_buf_start = stream_reg TX_HOST_ADDR_LO_REG i,
     dma_buf_end = stream_reg TX_BUF_BOTTOM_LO_REG i, record_ptr = stream_reg TX_RECORD_PTR_LO_REG i,
     limit_ptr = stream_reg TX_LIMIT_PTR_LO_REG i, drop_cnt = None,
     dma_ctl_reg = stream_reg TX_DMA_CTL_REG i\<rparr>"

definition rft_pbm :: nacpbm_stream_t where
  "rft_pbm = \<lparr>dma_buf_start = RFT_HOST_ADDR_LO_REG, dma_buf_end = RFT_BUF_BOTTOM_LO_REG,
     record_ptr = RFT_RECORD_PTR_LO_REG, limit_ptr = RFT_LIMIT_PTR_LO_REG, drop_cnt = None,
     dma_ctl_reg = RFT_DMA_CTL_REG\<rparr>"

text \<open>
  \<open>stream[n].pbm = malloc(\<dots>)\<close> with the assignments to its fields and to the stream's size
  that follow when it succeeds.
\<close>

definition new_pbm :: "env \<Rightarrow> int \<Rightarrow> int \<Rightarrow> nacpbm_stream_t \<Rightarrow> u32 \<Rightarrow> bool nac" where
  "new_pbm E nacfd n blk bufsize = bnd (malloc E) (\<lambda>ok.
     if ok then bnd (put_stream nacfd n (\<lambda>st. st\<lparr>pbm := PTo blk, stream_size := bufsize\<rparr>)) (\<lambda>_. ret True)
     else bnd (put_stream nacfd n (\<lambda>st. st\<lparr>pbm := PNull\<rparr>)) (\<lambda>_. ret False))"

definition clear_card_buf :: "env \<Rightarrow> int \<Rightarrow> int \<Rightarrow> int nac" where
  "clear_card_buf E nacfd n =
     (if NUM_STREAM \<le> n then ret (- 1)
      else bnd (rmw (reg_read E nacfd (stream_reg DMA_CTL_REG n))
                    (reg_write nacfd (stream_reg DMA_CTL_REG n)) (\<lambda>tmp. tmp OR 0x4)) (\<lambda>_. ret 0))"

definition nac_get_bufsize :: "int \<Rightarrow> int \<Rightarrow> u32 nac" where
  "nac_get_bufsize nacfd n = bnd (get_stream nacfd n) (\<lambda>st. ret (stream_size st))"

text \<open>An offset that was never set is indeterminate.\<close>

definition nac_get_drop_cnt :: "env \<Rightarrow> int \<Rightarrow> int \<Rightarrow> u32 nac" where
  "nac_get_drop_cnt E nacfd n =
     bnd (get_pbm nacfd n) (\<lambda>p. bnd (follow (drop_cnt p)) (\<lambda>a. reg_read E nacfd a))"

text \<open>The two stores of the error exit for a wrong number of streams.\<close>

definition bad_stream_count :: "int \<Rightarrow> unit nac" where
  "bad_stream_count nacfd = put_sheep nacfd (\<lambda>h. h\<lparr>msu_config := False, num_stream := 1\<rparr>)"

text \<open>A division whose divisor is an argument.\<close>

definition div_by :: "u32 \<Rightarrow> int \<Rightarrow> u32 nac" where
  "div_by a n = (if (word_of_int n :: u32) = 0 then fault else ret (a div word_of_int n))"

section \<open>Capture by one process\<close>

definition msu_setup_rx :: "env \<Rightarrow> int \<Rightarrow> nacinf_t \<Rightarrow> u32 \<Rightarrow> int \<Rightarrow> bool nac" where
  "msu_setup_rx E nacfd info bufsize i =
     bnd (new_pbm E nacfd i (rx_pbm i) bufsize) (\<lambda>ok.
     if \<not> ok then ret False
     else bnd (steps
       [reg_write nacfd (dma_buf_start (rx_pbm i)) (phy_addr info + word_of_int i * bufsize),
        show_reg E nacfd (dma_buf_start (rx_pbm i)),
        reg_write nacfd (dma_buf_end (rx_pbm i)) (phy_addr info + bufsize + word_of_int i * bufsize),
        show_reg E nacfd (dma_buf_end (rx_pbm i)),
        reg_write nacfd (nacpbm_stream_t.dma_ctl_reg (rx_pbm i))
          (set_dma_pause_n 0 (set_status_clear 1 (set_addr_load 1 0)))]) (\<lambda>_. ret True))"

text \<open>Stop the flow-table engine, load its window, move the limit to its top, start it.\<close>

definition rft_program :: "env \<Rightarrow> int \<Rightarrow> nacinf_t \<Rightarrow> u32 \<Rightarrow> u32 \<Rightarrow> unit nac" where
  "rft_program E nacfd info rft_num bufsize = steps
     [reg_write nacfd RFT_DMA_CTL_REG (set_dma_pause_n 0 0),
      reg_write nacfd RFT_DMA_CTL_REG (set_addr_load 1 0),
      reg_write nacfd RFT_HOST_ADDR_LO_REG (phy_addr info + rft_num * bufsize),
      reg_write nacfd RFT_BUF_BOTTOM_LO_REG (phy_addr info + rft_num * bufsize + RFT_SIZE),
      show_reg E nacfd RFT_HOST_ADDR_LO_REG,
      show_reg E nacfd RFT_BUF_BOTTOM_LO_REG,
      reg_write nacfd RFT_LIMIT_PTR_LO_REG (phy_addr info + rft_num * bufsize),
      reg_write nacfd RFT_DMA_CTL_REG (set_dma_pause_n 1 0)]"

definition nac_msu_configure :: "env \<Rightarrow> int \<Rightarrow> int \<Rightarrow> int nac" where
  "nac_msu_configure E nacfd n =
     (if n \<le> 0 \<or> 8 < n \<or> n = 3 then bnd (bad_stream_count nacfd) (\<lambda>_. ret (- 1))
      else bnd (nac_info nacfd) (\<lambda>p.
        bnd (capture_stop E nacfd) (\<lambda>_.
        bnd (follow p) (\<lambda>info.
        bnd (div_by (nacinf_t.buf_size info - RFT_SIZE) n) (\<lambda>bufsize.
        bnd (for_ok [0..n - 1] (msu_setup_rx E nacfd info bufsize)) (\<lambda>ok.
        if \<not> ok then ret (- 1)
        else bnd (new_pbm E nacfd n rft_pbm RFT_SIZE) (\<lambda>ok2.
        if \<not> ok2 then ret (- 1)
        else bnd (rft_program E nacfd info (word_of_int n) bufsize) (\<lambda>_.
             bnd (put_sheep nacfd (\<lambda>h. h\<lparr>num_stream := word_of_int n, msu_config := True\<rparr>)) (\<lambda>_.
             ret 0)))))))))"

section \<open>Capture by several processes\<close>

definition proc_setup_rx :: "env \<Rightarrow> int \<Rightarrow> nacinf_t \<Rightarrow> u32 \<Rightarrow> int \<Rightarrow> unit nac" where
  "proc_setup_rx E nacfd info bufsize i = steps
     [reg_write nacfd (stream_reg HOST_ADDR_LO_REG i) (phy_addr info + word_of_int i * bufsize),
      show_reg E nacfd (stream_reg HOST_ADDR_LO_REG i),
      reg_write nacfd (stream_reg BUF_BOTTOM_LO_REG i) (phy_addr info + bufsize + word_of_int i * bufsize),
      show_reg E nacfd (stream_reg BUF_BOTTOM_LO_REG i),
      reg_write nacfd (stream_reg DMA_CTL_REG i)
        (set_dma_pause_n 0 (set_status_clear 1 (set_addr_load 1 0)))]"

text \<open>The flow table's index is the constant 8 here, whatever the number of streams.\<close>

definition nac_proc_init :: "env \<Rightarrow> int \<Rightarrow> int \<Rightarrow> int nac" where
  "nac_proc_init E nacfd n =
     bnd (nac_info nacfd) (\<lambda>p.
     if n \<le> 0 \<or> NUM_STREAM < n \<or> n = 3 then bnd (bad_stream_count nacfd) (\<lambda>_. ret (- 1))
     else bnd (capture_stop E nacfd) (\<lambda>_.
       bnd (for_each [0..n - 1] (\<lambda>i. bnd (clear_card_buf E nacfd i) (\<lambda>_. ret ()))) (\<lambda>_.
       bnd (follow p) (\<lambda>info.
       bnd (div_by (nacinf_t.buf_size info - RFT_SIZE) n) (\<lambda>bufsize.
       bnd (for_each [0..n - 1] (proc_setup_rx E nacfd info bufsize)) (\<lambda>_.
       bnd (rft_program E nacfd info (word_of_int NUM_STREAM) bufsize) (\<lambda>_.
       bnd (for_each [0..n - 1] (\<lambda>i. bnd (clear_card_buf E nacfd i) (\<lambda>_. ret ()))) (\<lambda>_.
       bnd (put_sheep nacfd (\<lambda>h. h\<lparr>num_stream := word_of_int n\<rparr>)) (\<lambda>_. ret 0)))))))))"

definition nac_proc_config :: "env \<Rightarrow> int \<Rightarrow> int \<Rightarrow> int \<Rightarrow> int nac" where
  "nac_proc_config E nacfd n i =
     bnd (nac_info nacfd) (\<lambda>p.
     bnd (follow p) (\<lambda>info.
     bnd (div_by (nacinf_t.buf_size info - RFT_SIZE) n) (\<lambda>bufsize.
     bnd (new_pbm E nacfd i (rx_pbm i) bufsize) (\<lambda>ok.
     if \<not> ok then ret (- 1)
     else bnd (reg_write nacfd (nacpbm_stream_t.dma_ctl_reg (rx_pbm i))
            (set_dma_pause_n 0 (set_status_clear 1 (set_addr_load 1 0)))) (\<lambda>_. ret 0)))))"

definition nac_proc_rft_config :: "env \<Rightarrow> int \<Rightarrow> int \<Rightarrow> int nac" where
  "nac_proc_rft_config E nacfd n =
     bnd (nac_info nacfd) (\<lambda>p.
     bnd (follow p) (\<lambda>info.
     bnd (div_by (nacinf_t.buf_size info - RFT_SIZE) n) (\<lambda>_.
     bnd (new_pbm E nacfd n rft_pbm RFT_SIZE) (\<lambda>ok. ret (if ok then 0 else - 1)))))"

section \<open>Polling\<close>

text \<open>\<open>NAC_TIMEVAL_TO_TIMESPEC\<close>\<close>

definition timeval_to_timespec :: "timeval \<Rightarrow> timespec" where
  "timeval_to_timespec tv = (fst tv, snd tv * 1000)"

definition nac_set_stream_poll :: "int \<Rightarrow> int \<Rightarrow> u32 \<Rightarrow> timeval \<Rightarrow> timeval \<Rightarrow> int nac" where
  "nac_set_stream_poll nacfd n min_data max_wait poll_tv =
     bnd (get_sheep nacfd) (\<lambda>h.
     if \<not> opened h then fail_with EBADF (- 1)
     else bnd (get_stream nacfd n) (\<lambda>st.
       if \<not> attached st then fail_with EINVAL (- 1)
       else bnd (put_stream nacfd n (\<lambda>st. st\<lparr>mindata := min_data, maxwait := max_wait,
               poll := timeval_to_timespec poll_tv\<rparr>)) (\<lambda>_. ret 0)))"

section \<open>Inline forwarding\<close>

definition inline_setup_rx :: "env \<Rightarrow> int \<Rightarrow> nacinf_t \<Rightarrow> u32 \<Rightarrow> int \<Rightarrow> bool nac" where
  "inline_setup_rx E nacfd info bufsize i =
     bnd (new_pbm E nacfd i (rx_pbm i) bufsize) (\<lambda>ok.
     if \<not> ok then ret False
     else bnd (steps
       [reg_write nacfd (nacpbm_stream_t.dma_ctl_reg (rx_pbm i)) 0,
        usleep 100,
        reg_write nacfd (dma_buf_start (rx_pbm i)) (phy_addr info + word_of_int i * bufsize),
        show_reg E nacfd (dma_buf_start (rx_pbm i)),
        reg_write nacfd (dma_buf_end (rx_pbm i)) (phy_addr info + bufsize + word_of_int i * bufsize),
        show_reg E nacfd (dma_buf_end (rx_pbm i)),
        reg_write nacfd (nacpbm_stream_t.dma_ctl_reg (rx_pbm i))
          (set_status_clear 1 (set_addr_load 1 0))]) (\<lambda>_. ret True))"

text \<open>
  In the overlap mode the end address goes to the register of the receive stream \<open>i\<close>, as the
  source has it, while the start address goes to the transmit stream.
\<close>

definition inline_setup_tx :: "env \<Rightarrow> int \<Rightarrow> nacinf_t \<Rightarrow> u32 \<Rightarrow> int \<Rightarrow> int \<Rightarrow> bool nac" where
  "inline_setup_tx E nacfd info bufsize flags i =
     bnd (new_pbm E nacfd (i + NUM_STREAM) (tx_pbm i) bufsize) (\<lambda>ok.
     if \<not> ok then ret False
     else bnd (steps
       [reg_write nacfd (nacpbm_stream_t.dma_ctl_reg (tx_pbm i)) 0,
        usleep 100]) (\<lambda>_.
     bnd (if flags = OVERLAP_FWD then
       bnd (get_pbm nacfd i) (\<lambda>rx. steps
         [reg_write nacfd (dma_buf_start (tx_pbm i)) (phy_addr info + word_of_int i * bufsize),
          show_reg E nacfd (dma_buf_start (tx_pbm i)),
          reg_write nacfd (dma_buf_end rx) (phy_addr info + bufsize + word_of_int i * bufsize),
          show_reg E nacfd (dma_buf_end (tx_pbm i))])
      else steps
         [reg_write nacfd (dma_buf_start (tx_pbm i))
            (phy_addr info + word_of_int (i + NUM_STREAM) * bufsize),
          show_reg E nacfd (dma_buf_start (tx_pbm i)),
          reg_write nacfd (dma_buf_end (tx_pbm i))
            (phy_addr info + bufsize + word_of_int (i + NUM_STREAM) * bufsize),
          show_reg E nacfd (dma_buf_end (tx_pbm i))]) (\<lambda>_.
     bnd (reg_write nacfd (nacpbm_stream_t.dma_ctl_reg (tx_pbm i))
       (set_status_clear 1 (set_addr_load 1 0))) (\<lambda>_. ret True))))"

definition nac_inline_msu_configure :: "env \<Rightarrow> int \<Rightarrow> int \<Rightarrow> int \<Rightarrow> int nac" where
  "nac_inline_msu_configure E nacfd n flags =
     (if n \<le> 0 \<or> NUM_STREAM < n then bnd (bad_stream_count nacfd) (\<lambda>_. exit_with (- 1))
      else bnd (nac_info nacfd) (\<lambda>p.
        bnd (follow p) (\<lambda>info.
        bnd (div_by (nacinf_t.buf_size info)
               (if flags = OVERLAP_FWD then NUM_STREAM else NUM_STREAM * 2)) (\<lambda>bufsize.
        bnd (capture_stop E nacfd) (\<lambda>_.
        bnd (for_ok [0..n - 1] (inline_setup_rx E nacfd info bufsize)) (\<lambda>ok.
        if \<not> ok then exit_with (- 1)
        else bnd (for_ok [0..n - 1] (inline_setup_tx E nacfd info bufsize flags)) (\<lambda>ok2.
        if \<not> ok2 then exit_with (- 1) else ret 0)))))))"

section \<open>Register windows\<close>

lemmas window_reg_defs = RFT_DMA_CTL_REG_def RFT_HOST_ADDR_LO_REG_def
  RFT_BUF_BOTTOM_LO_REG_def RFT_LIMIT_PTR_LO_REG_def DMA_CTL_REG_def HOST_ADDR_LO_REG_def
  BUF_BOTTOM_LO_REG_def TX_DMA_CTL_REG_def TX_HOST_ADDR_LO_REG_def TX_BUF_BOTTOM_LO_REG_def
  BYPASS_EN_AND_CAP_START_def

lemma uint_stream_reg:
  assumes "uint r < 0x100000" and "0 \<le> i" and "i < 16"
  shows "uint (stream_reg r i) = uint r + 64 * i"
proof -
  have i: "uint (word_of_int i :: u32) = i"
    using assms(2,3) by (simp add: uint_word_of_int)
  have "uint (word_of_int i * STREAM_REG_DIFF_0x40) = i * 64"
    using assms(2,3) by (simp add: uint_word_ariths i STREAM_REG_DIFF_0x40_def)
  then show ?thesis
    using assms uint_ge_0 [of r] by (simp add: stream_reg_def uint_word_ariths)
qed

text \<open>
  After the writes \<open>ws\<close> the pair of registers \<open>lo\<close>, \<open>hi\<close> holds the window from \<open>a\<close> to \<open>b\<close>.
\<close>

definition window :: "(u32 \<times> u32) list \<Rightarrow> u32 \<Rightarrow> u32 \<Rightarrow> int \<Rightarrow> int \<Rightarrow> bool" where
  "window ws lo hi a b \<longleftrightarrow> (\<exists>v w. last_write lo ws = Some v \<and> last_write hi ws = Some w \<and>
     uint v = a \<and> uint w = b)"

text \<open>The streams \<open>b\<close> to \<open>b + k - 1\<close> with fresh blocks and their size set.\<close>

definition with_pbms :: "int \<Rightarrow> nat \<Rightarrow> (int \<Rightarrow> nacpbm_stream_t) \<Rightarrow> u32 \<Rightarrow> sheep_t \<Rightarrow> sheep_t" where
  "with_pbms b k mk bufsize h = h\<lparr>stream := (\<lambda>i. if b \<le> i \<and> i < b + int k
     then (stream h i)\<lparr>pbm := PTo (mk (i - b)), stream_size := bufsize\<rparr> else stream h i)\<rparr>"

lemma with_pbms_0 [simp]: "with_pbms b 0 mk z h = h"
proof -
  have "(\<lambda>i. if b \<le> i \<and> i < b + int 0 then (stream h i)\<lparr>pbm := PTo (mk (i - b)), stream_size := z\<rparr>
    else stream h i) = stream h" by (rule ext) auto
  then show ?thesis by (simp add: with_pbms_def)
qed

lemma with_pbms_fields [simp]:
  "opened (with_pbms b k mk z h) = opened h" "iom (with_pbms b k mk z h) = iom h"
  "nacinf (with_pbms b k mk z h) = nacinf h"
  by (simp_all add: with_pbms_def)

lemma with_pbms_at:
  "b \<le> i \<Longrightarrow> i < b + int k \<Longrightarrow> stream (with_pbms b k mk z h) i =
     (stream h i)\<lparr>pbm := PTo (mk (i - b)), stream_size := z\<rparr>"
  "i < b \<or> b + int k \<le> i \<Longrightarrow> stream (with_pbms b k mk z h) i = stream h i"
  by (auto simp: with_pbms_def)

lemma upto_nth: "0 \<le> n \<Longrightarrow> k < length [0..n - 1] \<Longrightarrow> [0..n - 1] ! k = int k"
  by (simp add: nth_upto)

text \<open>The writes of one round of the loop of \<open>nac_msu_configure\<close>.\<close>

definition rx_writes :: "nacinf_t \<Rightarrow> u32 \<Rightarrow> int \<Rightarrow> (u32 \<times> u32) list" where
  "rx_writes info z i =
     [(stream_reg HOST_ADDR_LO_REG i, phy_addr info + word_of_int i * z),
      (stream_reg BUF_BOTTOM_LO_REG i, phy_addr info + z + word_of_int i * z),
      (stream_reg DMA_CTL_REG i, 6)]"

definition rft_writes :: "nacinf_t \<Rightarrow> u32 \<Rightarrow> u32 \<Rightarrow> (u32 \<times> u32) list" where
  "rft_writes info m z =
     [(RFT_DMA_CTL_REG, 0), (RFT_DMA_CTL_REG, 2), (RFT_HOST_ADDR_LO_REG, phy_addr info + m * z),
      (RFT_BUF_BOTTOM_LO_REG, phy_addr info + m * z + RFT_SIZE),
      (RFT_LIMIT_PTR_LO_REG, phy_addr info + m * z), (RFT_DMA_CTL_REG, 8)]"

lemma new_pbm_run:
  "herd s fd = Some h \<Longrightarrow> malloc_ok E (trace s) \<Longrightarrow> 0 \<le> n \<Longrightarrow> n < NAC_STREAM_MAX \<Longrightarrow>
   new_pbm E fd n blk z s = Some (Ok True, s\<lparr>trace := trace s @ [Alloc True],
     herd := (herd s)(fd \<mapsto> h\<lparr>stream := (stream h)(n :=
       (stream h n)\<lparr>pbm := PTo blk, stream_size := z\<rparr>)\<rparr>)\<rparr>)"
  by (simp add: new_pbm_def)

lemma rft_program_run:
  assumes "herd s fd = Some h" and "iom h \<noteq> 0"
  shows "\<exists>t. rft_program E fd info m z s = Some (Ok (), t) \<and> effect fd h (rft_writes info m z) s t"
  by (intro exI conjI, rule trans, simp add: assms rft_program_def show_reg_def, rule refl)
    (simp add: effect_def fun_upd_idem assms rft_writes_def dma_ctl_values)

lemma capture_stop_effect:
  assumes "herd s fd = Some h" and "iom h \<noteq> 0"
  shows "\<exists>t v. capture_stop E fd s = Some (Ok 0, t) \<and>
     effect fd h [(BYPASS_EN_AND_CAP_START, v)] s t"
proof -
  have "mapped fd s" using assms by auto
  from capture_stop_run [OF this] show ?thesis
    by (intro exI conjI) (assumption, simp add: effect_def fun_upd_idem assms)
qed

definition set_up :: "sheep_t \<Rightarrow> int \<Rightarrow> nacpbm_stream_t \<Rightarrow> u32 \<Rightarrow> sheep_t" where
  "set_up h n blk z = h\<lparr>stream := (stream h)(n := (stream h n)\<lparr>pbm := PTo blk, stream_size := z\<rparr>)\<rparr>"

lemma set_up_fields [simp]: "iom (set_up h n blk z) = iom h" "opened (set_up h n blk z) = opened h"
  by (simp_all add: set_up_def)

lemma msu_setup_rx_run:
  assumes "herd s fd = Some h" and "iom h \<noteq> 0" and "malloc_ok E (trace s)"
    and "0 \<le> i" and "i < NAC_STREAM_MAX"
  shows "\<exists>t. msu_setup_rx E fd info z i s = Some (Ok True, t) \<and>
     effect fd (set_up h i (rx_pbm i) z) (rx_writes info z i) s t"
  by (intro exI conjI, rule trans, simp add: assms msu_setup_rx_def new_pbm_run show_reg_def,
      rule refl)
    (simp add: effect_def set_up_def rx_writes_def rx_pbm_def dma_ctl_values)

lemma with_pbms_Suc: "set_up (with_pbms 0 k mk z h) (int k) (mk (int k)) z = with_pbms 0 (Suc k) mk z h"
  by (auto simp: with_pbms_def set_up_def fun_eq_iff)

lemma msu_rx_loop:
  assumes h: "herd s fd = Some h" "iom h \<noteq> 0" and ok: "\<And>hist. malloc_ok E hist"
    and n: "0 \<le> n" "n \<le> 8"
  shows "\<exists>t. for_ok [0..n - 1] (msu_setup_rx E fd info z) s = Some (Ok True, t) \<and>
     effect fd (with_pbms 0 (nat n) rx_pbm z h) (concat (map (rx_writes info z) (map int [0..<nat n]))) s t"
proof -
  define I where "I k t \<longleftrightarrow> effect fd (with_pbms 0 k rx_pbm z h)
     (concat (map (rx_writes info z) (map int [0..<k]))) s t" for k t
  have "\<exists>t. for_ok [0..n - 1] (msu_setup_rx E fd info z) s = Some (Ok True, t) \<and> I (length [0..n - 1]) t"
  proof (rule for_ok_runs)
    show "I 0 s" using h by (simp add: I_def effect_refl)
  next
    fix k t
    assume k: "k < length [0..n - 1]" and I: "I k t"
    have "herd t fd = Some (with_pbms 0 k rx_pbm z h)" using I by (simp add: I_def effect_herd)
    moreover have "int k < NAC_STREAM_MAX" using k n by (simp add: NAC_STREAM_MAX_def)
    ultimately obtain u where u: "msu_setup_rx E fd info z (int k) t = Some (Ok True, u)"
      "effect fd (set_up (with_pbms 0 k rx_pbm z h) (int k) (rx_pbm (int k)) z) (rx_writes info z (int k)) t u"
      using msu_setup_rx_run [of t fd _ E "int k" info z] h ok by auto
    have "I (Suc k) u"
      using effect_trans [OF I [unfolded I_def] u(2)] by (simp add: I_def with_pbms_Suc)
    then show "\<exists>u. msu_setup_rx E fd info z ([0..n - 1] ! k) t = Some (Ok True, u) \<and> I (Suc k) u"
      using u(1) k n(1) by (simp only: upto_nth) blast
  qed
  then show ?thesis by (simp add: I_def)
qed

lemma msu_configure_run:
  assumes h: "herd s fd = Some h" "opened h" "iom h \<noteq> 0" and ok: "\<And>hist. malloc_ok E hist"
    and n: "0 < n" "n \<le> 8" "n \<noteq> 3"
    and z: "z = (nacinf_t.buf_size (nacinf h) - RFT_SIZE) div word_of_int n"
  shows "\<exists>t v. nac_msu_configure E fd n s = Some (Ok 0, t) \<and>
     effect fd ((set_up (with_pbms 0 (nat n) rx_pbm z h) n rft_pbm RFT_SIZE)
         \<lparr>num_stream := word_of_int n, msu_config := True\<rparr>)
       ((BYPASS_EN_AND_CAP_START, v) #
        concat (map (rx_writes (nacinf h) z) (map int [0..<nat n])) @
        rft_writes (nacinf h) (word_of_int n) z) s t"
proof -
  have wn: "(word_of_int n :: u32) \<noteq> 0"
    using uint_of_small [of n] n by auto
  let ?h1 = "with_pbms 0 (nat n) rx_pbm z h" and ?ws = "concat (map (rx_writes (nacinf h) z) (map int [0..<nat n]))"
  obtain s1 v where s1: "capture_stop E fd s = Some (Ok 0, s1)"
    "effect fd h [(BYPASS_EN_AND_CAP_START, v)] s s1"
    using capture_stop_effect h by blast
  obtain s2 where s2: "for_ok [0..n - 1] (msu_setup_rx E fd (nacinf h) z) s1 = Some (Ok True, s2)"
    "effect fd ?h1 ?ws s1 s2"
    using msu_rx_loop [OF effect_herd [OF s1(2)] h(3) ok, of n "nacinf h" z] n by auto
  let ?h2 = "set_up ?h1 n rft_pbm RFT_SIZE"
  obtain s3 where s3: "new_pbm E fd n rft_pbm RFT_SIZE s2 = Some (Ok True, s3)"
    "effect fd ?h2 [] s2 s3"
    using new_pbm_run [OF effect_herd [OF s2(2)] ok, of n rft_pbm RFT_SIZE] n
    by (simp add: NAC_STREAM_MAX_def effect_def set_up_def)
  obtain s4 where s4: "rft_program E fd (nacinf h) (word_of_int n) z s3 = Some (Ok (), s4)"
    "effect fd ?h2 (rft_writes (nacinf h) (word_of_int n) z) s3 s4"
    using rft_program_run [OF effect_herd [OF s3(2)], of E "nacinf h" "word_of_int n" z] h(3) by auto
  have e: "effect fd ?h2 ((BYPASS_EN_AND_CAP_START, v) # ?ws @ rft_writes (nacinf h) (word_of_int n) z) s s4"
    using effect_trans [OF effect_trans [OF effect_trans [OF s1(2) s2(2)] s3(2)] s4(2)] by simp
  then show ?thesis
    using h n wn s1(1) s2(1) s3(1) s4(1) effect_herd [OF e] unfolding effect_def
    by (simp add: nac_msu_configure_def div_by_def z [symmetric])
qed

section \<open>Where the windows lie\<close>

text \<open>The size of one ring in unbounded arithmetic: the hole less 8 MB, divided by the streams.\<close>

definition ring_size :: "nacinf_t \<Rightarrow> int \<Rightarrow> int" where
  "ring_size info n = (uint (nacinf_t.buf_size info) - 8388608) div n"

text \<open>A hole that holds the flow table and does not reach the end of the 32 bit bus space.\<close>

definition hole_ok :: "nacinf_t \<Rightarrow> bool" where
  "hole_ok info \<longleftrightarrow> 8388608 \<le> uint (nacinf_t.buf_size info) \<and>
     uint (phy_addr info) + uint (nacinf_t.buf_size info) < 2 ^ 32"

lemma uint_RFT_SIZE: "uint RFT_SIZE = 8388608"
  by (simp add: RFT_SIZE_def)

lemma ring_size_bounds:
  assumes "hole_ok info" and "0 < n"
  shows "0 \<le> ring_size info n"
    and "n * ring_size info n \<le> uint (nacinf_t.buf_size info) - 8388608"
  using assms by (auto simp: hole_ok_def ring_size_def pos_imp_zdiv_nonneg_iff
      intro: order_trans [OF _ eq_imp_le [OF mult_div_mod_eq]])
    (metis Euclidean_Rings.pos_mod_sign add_le_same_cancel1 le_add_same_cancel1 minus_mod_eq_mult_div
      diff_ge_0_iff_ge diff_left_mono diff_0_right)

lemma uint_ring:
  assumes "hole_ok info" and "0 < n" and "n \<le> 8"
  shows "uint ((nacinf_t.buf_size info - RFT_SIZE) div word_of_int n) = ring_size info n"
proof -
  have "uint (nacinf_t.buf_size info - RFT_SIZE) = uint (nacinf_t.buf_size info) - 8388608"
    using assms(1) uint_RFT_SIZE by (simp add: hole_ok_def uint_sub_if')
  then show ?thesis
    using assms(2,3) by (simp add: ring_size_def uint_div uint_of_small)
qed

text \<open>The bus address a multiple of the ring size above the hole's base, without wrapping.\<close>

lemma uint_ring_addr:
  assumes ok: "hole_ok info" and n: "0 < n" "n \<le> 8" and z: "uint z = ring_size info n"
    and i: "0 \<le> i" "i \<le> n"
  shows "uint (phy_addr info + word_of_int i * z) = uint (phy_addr info) + i * ring_size info n"
proof -
  have iz: "i * ring_size info n \<le> n * ring_size info n"
    using i ring_size_bounds(1) [OF ok n(1)] by (simp add: mult_right_mono)
  have w: "uint (word_of_int i :: u32) = i" using i n by (simp add: uint_of_small)
  have lt: "uint (phy_addr info) + i * ring_size info n < 2 ^ 32"
    using iz ring_size_bounds(2) [OF ok n(1)] ok unfolding hole_ok_def by linarith
  have p: "uint (word_of_int i :: u32) * uint z = i * ring_size info n" by (simp only: w z)
  have "uint (word_of_int i * z) = i * ring_size info n"
    using uint_mult_small [of "word_of_int i" z, unfolded p] lt uint_ge_0 [of "phy_addr info"]
    by linarith
  then show ?thesis
    using lt by (subst uint_add_small) simp_all
qed

lemma windowI:
  assumes "(lo, v) \<in> set ws" and "\<And>x. (lo, x) \<in> set ws \<Longrightarrow> x = v"
    and "(hi, w) \<in> set ws" and "\<And>x. (hi, x) \<in> set ws \<Longrightarrow> x = w"
    and "uint v = a" and "uint w = b"
  shows "window ws lo hi a b"
  using last_write_unique [OF assms(1,2)] last_write_unique [OF assms(3,4)] assms(5,6)
  by (simp add: window_def)

text \<open>The registers one pass over the streams writes, and that no two of them coincide.\<close>

lemma in_rx_writes:
  "(a, x) \<in> set (concat (map (rx_writes info z) (map int [0..<nat n]))) \<longleftrightarrow>
     (\<exists>j. 0 \<le> j \<and> j < n \<and> (a, x) \<in> set (rx_writes info z j))"
proof -
  have "set (map int [0..<nat n]) = {j. 0 \<le> j \<and> j < n}"
    by (auto intro!: image_eqI [where x = "nat j" for j])
  then have "(a, x) \<in> (\<Union>j \<in> set (map int [0..<nat n]). set (rx_writes info z j)) \<longleftrightarrow>
      (\<exists>j. 0 \<le> j \<and> j < n \<and> (a, x) \<in> set (rx_writes info z j))" by blast
  then show ?thesis by simp
qed

lemma stream_reg_eq:
  assumes "uint r < 0x100000" and "uint q < 0x100000" and "0 \<le> i" and "i < 16" and "0 \<le> j" and "j < 16"
  shows "stream_reg r i = stream_reg q j \<longleftrightarrow> uint r + 64 * i = uint q + 64 * j"
  using assms by (simp add: word_uint_eq_iff uint_stream_reg)

lemma stream_reg_const:
  assumes "uint r < 0x100000" and "0 \<le> i" and "i < 16"
  shows "stream_reg r i = a \<longleftrightarrow> uint r + 64 * i = uint a"
  using assms by (simp add: word_uint_eq_iff uint_stream_reg)

text \<open>Writes that touch no window: to the capture register and the control registers.\<close>

definition only_ctl :: "int \<Rightarrow> (u32 \<times> u32) list \<Rightarrow> bool" where
  "only_ctl n ws \<longleftrightarrow> (\<forall>(a, x) \<in> set ws. a = BYPASS_EN_AND_CAP_START \<or>
     (\<exists>j. 0 \<le> j \<and> j < n \<and> a = stream_reg DMA_CTL_REG j))"

lemma only_ctl_simps: "only_ctl n [(BYPASS_EN_AND_CAP_START, v)]" "only_ctl n []"
  "only_ctl n (xs @ ys) \<longleftrightarrow> only_ctl n xs \<and> only_ctl n ys"
  "only_ctl n ((BYPASS_EN_AND_CAP_START, v) # xs) \<longleftrightarrow> only_ctl n xs"
  by (auto simp: only_ctl_def)

lemma only_ctlD:
  "only_ctl n ws \<Longrightarrow> (a, x) \<in> set ws \<Longrightarrow> a = BYPASS_EN_AND_CAP_START \<or>
     (\<exists>j. 0 \<le> j \<and> j < n \<and> a = stream_reg DMA_CTL_REG j)"
  by (auto simp: only_ctl_def)

lemma only_ctl_regs:
  assumes "only_ctl n ws" and "n \<le> 8"
  shows "0 \<le> i \<Longrightarrow> i < 8 \<Longrightarrow> (stream_reg HOST_ADDR_LO_REG i, x) \<notin> set ws"
    and "0 \<le> i \<Longrightarrow> i < 8 \<Longrightarrow> (stream_reg BUF_BOTTOM_LO_REG i, x) \<notin> set ws"
    and "(RFT_HOST_ADDR_LO_REG, x) \<notin> set ws" and "(RFT_BUF_BOTTOM_LO_REG, x) \<notin> set ws"
  using assms(2)
  by (auto dest!: only_ctlD [OF assms(1)]
      simp: stream_reg_eq uint_stream_reg word_uint_eq_iff window_reg_defs) presburger+

lemma rx_window_unique:
  assumes n: "n \<le> 8" and i: "0 \<le> i" "i < n"
    and ws: "ws = pre @ concat (map (rx_writes info z) (map int [0..<nat n])) @
        rft_writes info m z @ post" "only_ctl n (pre @ post)"
    and a: "uint (phy_addr info + word_of_int i * z) = a"
    and b: "uint (phy_addr info + z + word_of_int i * z) = b"
  shows "window ws (stream_reg HOST_ADDR_LO_REG i) (stream_reg BUF_BOTTOM_LO_REG i) a b"
proof (rule windowI [OF _ _ _ _ a b])
  show "(stream_reg HOST_ADDR_LO_REG i, phy_addr info + word_of_int i * z) \<in> set ws"
    "(stream_reg BUF_BOTTOM_LO_REG i, phy_addr info + z + word_of_int i * z) \<in> set ws"
    using i unfolding ws(1) set_append Un_iff in_rx_writes
    by (auto simp: rx_writes_def)
next
  fix x
  assume "(stream_reg HOST_ADDR_LO_REG i, x) \<in> set ws"
  then show "x = phy_addr info + word_of_int i * z"
    using i n only_ctl_regs(1,2) [OF ws(2) n, of i x] unfolding ws(1) set_append Un_iff in_rx_writes
    by (auto simp: rx_writes_def rft_writes_def stream_reg_eq uint_stream_reg
        stream_reg_const window_reg_defs) presburger+
next
  fix x
  assume "(stream_reg BUF_BOTTOM_LO_REG i, x) \<in> set ws"
  then show "x = phy_addr info + z + word_of_int i * z"
    using i n only_ctl_regs(1,2) [OF ws(2) n, of i x] unfolding ws(1) set_append Un_iff in_rx_writes
    by (auto simp: rx_writes_def rft_writes_def stream_reg_eq uint_stream_reg
        stream_reg_const window_reg_defs) presburger+
qed

lemma rft_window_unique:
  assumes n: "n \<le> 8"
    and ws: "ws = pre @ concat (map (rx_writes info z) (map int [0..<nat n])) @
        rft_writes info m z @ post" "only_ctl n (pre @ post)"
    and a: "uint (phy_addr info + m * z) = a" and b: "uint (phy_addr info + m * z + RFT_SIZE) = b"
  shows "window ws RFT_HOST_ADDR_LO_REG RFT_BUF_BOTTOM_LO_REG a b"
proof (rule windowI [OF _ _ _ _ a b])
  show "(RFT_HOST_ADDR_LO_REG, phy_addr info + m * z) \<in> set ws"
    "(RFT_BUF_BOTTOM_LO_REG, phy_addr info + m * z + RFT_SIZE) \<in> set ws"
    by (simp_all add: ws(1) rft_writes_def)
next
  fix x
  assume "(RFT_HOST_ADDR_LO_REG, x) \<in> set ws"
  then show "x = phy_addr info + m * z"
    using n only_ctl_regs(3,4) [OF ws(2) n, of x] unfolding ws(1) set_append Un_iff in_rx_writes
    by (auto simp: rx_writes_def rft_writes_def 
        uint_stream_reg word_uint_eq_iff window_reg_defs)
next
  fix x
  assume "(RFT_BUF_BOTTOM_LO_REG, x) \<in> set ws"
  then show "x = phy_addr info + m * z + RFT_SIZE"
    using n only_ctl_regs(3,4) [OF ws(2) n, of x] unfolding ws(1) set_append Un_iff in_rx_writes
    by (auto simp: rx_writes_def rft_writes_def uint_stream_reg word_uint_eq_iff window_reg_defs)
qed

lemma msu_windows:
  assumes "herd s fd = Some h" and "opened h" and "iom h \<noteq> 0" and "\<And>hist. malloc_ok E hist"
    and "0 < n" and "n \<le> 8" and "n \<noteq> 3" and "hole_ok (nacinf h)"
  shows "\<exists>t h' ws. nac_msu_configure E fd n s = Some (Ok 0, t) \<and> herd t fd = Some h' \<and>
     opened h' \<and> iom h' = iom h \<and> nacinf h' = nacinf h \<and> (\<forall>i. n < i \<longrightarrow> stream h' i = stream h i) \<and>
     reg_writes fd (trace t) = reg_writes fd (trace s) @ ws \<and>
     msu_config h' \<and> uint (num_stream h') = n \<and>
     (\<forall>i. 0 \<le> i \<longrightarrow> i < n \<longrightarrow> pbm (stream h' i) = PTo (rx_pbm i) \<and>
        uint (stream_size (stream h' i)) = ring_size (nacinf h) n \<and>
        window ws (stream_reg HOST_ADDR_LO_REG i) (stream_reg BUF_BOTTOM_LO_REG i)
          (uint (phy_addr (nacinf h)) + i * ring_size (nacinf h) n)
          (uint (phy_addr (nacinf h)) + (i + 1) * ring_size (nacinf h) n)) \<and>
     window ws RFT_HOST_ADDR_LO_REG RFT_BUF_BOTTOM_LO_REG
       (uint (phy_addr (nacinf h)) + n * ring_size (nacinf h) n)
       (uint (phy_addr (nacinf h)) + n * ring_size (nacinf h) n + 8388608) \<and>
     n * ring_size (nacinf h) n + 8388608 \<le> uint (nacinf_t.buf_size (nacinf h))"
proof -
  define z where "z = (nacinf_t.buf_size (nacinf h) - RFT_SIZE) div word_of_int n"
  have z: "uint z = ring_size (nacinf h) n" using uint_ring assms(5,6,8) by (simp add: z_def)
  note addr = uint_ring_addr [OF assms(8,5,6) z]
  have end_in: "n * ring_size (nacinf h) n + 8388608 \<le> uint (nacinf_t.buf_size (nacinf h))"
    using ring_size_bounds(2) [OF assms(8,5)] by simp
  obtain t v where t: "nac_msu_configure E fd n s = Some (Ok 0, t)"
    "effect fd ((set_up (with_pbms 0 (nat n) rx_pbm z h) n rft_pbm RFT_SIZE)
         \<lparr>num_stream := word_of_int n, msu_config := True\<rparr>)
       ((BYPASS_EN_AND_CAP_START, v) #
        concat (map (rx_writes (nacinf h) z) (map int [0..<nat n])) @
        rft_writes (nacinf h) (word_of_int n) z) s t"
    using msu_configure_run [OF assms(1-7) z_def] by blast
  have step: "phy_addr (nacinf h) + z + word_of_int i * z = phy_addr (nacinf h) + word_of_int (i + 1) * z"
    for i by (simp add: algebra_simps)
  have rft_end: "uint (phy_addr (nacinf h) + word_of_int n * z + RFT_SIZE) =
      uint (phy_addr (nacinf h)) + n * ring_size (nacinf h) n + 8388608"
    using addr [of n] assms(5,8) end_in by (subst uint_add_small) (auto simp: uint_RFT_SIZE hole_ok_def)
  define ws where "ws = [(BYPASS_EN_AND_CAP_START, v)] @
      concat (map (rx_writes (nacinf h) z) (map int [0..<nat n])) @
      rft_writes (nacinf h) (word_of_int n) z @ []"
  have only: "only_ctl n ([(BYPASS_EN_AND_CAP_START, v)] @ [])" by (simp add: only_ctl_simps)
  have wins: "window ws (stream_reg HOST_ADDR_LO_REG i) (stream_reg BUF_BOTTOM_LO_REG i)
      (uint (phy_addr (nacinf h)) + i * ring_size (nacinf h) n)
      (uint (phy_addr (nacinf h)) + (i + 1) * ring_size (nacinf h) n)" if "0 \<le> i" "i < n" for i
    using that addr [of i] addr [of "i + 1"]
    by (intro rx_window_unique [OF assms(6) that ws_def only]) (simp_all add: step)
  have rft: "window ws RFT_HOST_ADDR_LO_REG RFT_BUF_BOTTOM_LO_REG
      (uint (phy_addr (nacinf h)) + n * ring_size (nacinf h) n)
      (uint (phy_addr (nacinf h)) + n * ring_size (nacinf h) n + 8388608)"
    using addr [of n] assms(5) rft_end by (intro rft_window_unique [OF assms(6) ws_def only]) simp_all
  have "uint (word_of_int n :: u32) = n" using assms(5,6) by (simp add: uint_of_small)
  note un = this
  let ?h = "(set_up (with_pbms 0 (nat n) rx_pbm z h) n rft_pbm RFT_SIZE)\<lparr>num_stream := word_of_int n, msu_config := True\<rparr>"
  have hi: "opened ?h" "iom ?h = iom h" "nacinf ?h = nacinf h" "msu_config ?h" "uint (num_stream ?h) = n"
    using un assms(2) by (simp_all add: set_up_def)
  have others: "\<forall>i. n < i \<longrightarrow> stream ?h i = stream h i"
    using assms(5) by (simp add: set_up_def with_pbms_at)
  have ours: "\<forall>i. 0 \<le> i \<longrightarrow> i < n \<longrightarrow> pbm (stream ?h i) = PTo (rx_pbm i) \<and> uint (stream_size (stream ?h i)) = ring_size (nacinf h) n"
    by (simp add: set_up_def with_pbms_at z)
  note e = t(2) [folded ws_def [simplified append_Cons append_Nil append_Nil2]]
  have tr: "reg_writes fd (trace t) = reg_writes fd (trace s) @ ws" using e by (simp add: effect_def)
  show ?thesis
    using t(1) effect_herd [OF e] hi others ours wins rft end_in tr by blast
qed

text \<open>
  C1. On an open, mapped card whose memory hole holds the flow table and does not wrap, and
  with memory available, \<open>nac_msu_configure\<close> for a legal number \<open>n\<close> of streams returns 0;
  every stream gets its register block and the ring size (hole - 8 MB) / n, the registers of
  stream \<open>i\<close> hold the window of that size at i * ring from the hole's base, so that the
  windows of consecutive streams touch and none overlap, and the flow table's 8 MB window
  follows the last ring and ends within the hole.
\<close>

theorem msu_configure_windows:
  assumes "herd s fd = Some h" and "opened h" and "iom h \<noteq> 0" and "\<And>hist. malloc_ok E hist"
    and "0 < n" and "n \<le> 8" and "n \<noteq> 3" and "hole_ok (nacinf h)"
  shows "\<exists>t h' ws. nac_msu_configure E fd n s = Some (Ok 0, t) \<and> herd t fd = Some h' \<and>
     reg_writes fd (trace t) = reg_writes fd (trace s) @ ws \<and>
     msu_config h' \<and> uint (num_stream h') = n \<and>
     (\<forall>i. 0 \<le> i \<longrightarrow> i < n \<longrightarrow> pbm (stream h' i) = PTo (rx_pbm i) \<and>
        uint (stream_size (stream h' i)) = ring_size (nacinf h) n \<and>
        window ws (stream_reg HOST_ADDR_LO_REG i) (stream_reg BUF_BOTTOM_LO_REG i)
          (uint (phy_addr (nacinf h)) + i * ring_size (nacinf h) n)
          (uint (phy_addr (nacinf h)) + (i + 1) * ring_size (nacinf h) n)) \<and>
     window ws RFT_HOST_ADDR_LO_REG RFT_BUF_BOTTOM_LO_REG
       (uint (phy_addr (nacinf h)) + n * ring_size (nacinf h) n)
       (uint (phy_addr (nacinf h)) + n * ring_size (nacinf h) n + 8388608) \<and>
     n * ring_size (nacinf h) n + 8388608 \<le> uint (nacinf_t.buf_size (nacinf h))"
  using msu_windows [OF assms] by blast

text \<open>\<open>demo_card\<close> has a hole of 128 MB at 0x20000000.\<close>

lemma msu_configure_windows_witness:
  "\<exists>t. nac_msu_configure demo_env 3 8 demo_mach = Some (Ok 0, t) \<and>
     ring_size (nacinf demo_card) 8 = 15728640"
proof -
  have "hole_ok (nacinf demo_card)" and "ring_size (nacinf demo_card) 8 = 15728640"
    by (simp_all add: hole_ok_def ring_size_def demo_simps)
  then show ?thesis
    using msu_configure_windows [of demo_mach 3 demo_card demo_env 8] by (auto simp: demo_simps)
qed

section \<open>The per-card part of the configuration for several processes\<close>

lemma proc_setup_rx_run:
  assumes "herd s fd = Some h" and "iom h \<noteq> 0"
  shows "\<exists>t. proc_setup_rx E fd info z i s = Some (Ok (), t) \<and> effect fd h (rx_writes info z i) s t"
  by (intro exI conjI, rule trans, simp add: assms proc_setup_rx_def show_reg_def, rule refl)
    (simp add: effect_def fun_upd_idem assms rx_writes_def dma_ctl_values)

lemma clear_card_buf_run:
  assumes "herd s fd = Some h" and "iom h \<noteq> 0" and "i < NUM_STREAM"
  shows "\<exists>t v. clear_card_buf E fd i s = Some (Ok 0, t) \<and> effect fd h [(stream_reg DMA_CTL_REG i, v)] s t"
proof -
  have n: "\<not> NUM_STREAM \<le> i" using assms(3) by simp
  show ?thesis
    by (intro exI conjI, rule trans, simp add: assms(1,2) n clear_card_buf_def rmw_def, rule refl)
      (simp add: effect_def fun_upd_idem assms)
qed

lemma proc_rx_loop:
  assumes h: "herd s fd = Some h" "iom h \<noteq> 0" and n: "0 \<le> n"
  shows "\<exists>t. for_each [0..n - 1] (proc_setup_rx E fd info z) s = Some (Ok (), t) \<and>
     effect fd h (concat (map (rx_writes info z) (map int [0..<nat n]))) s t"
proof -
  define I where "I k t \<longleftrightarrow> effect fd h (concat (map (rx_writes info z) (map int [0..<k]))) s t" for k t
  have "\<exists>t. for_each [0..n - 1] (proc_setup_rx E fd info z) s = Some (Ok (), t) \<and> I (length [0..n - 1]) t"
  proof (rule for_each_runs)
    show "I 0 s" using h by (simp add: I_def effect_refl)
  next
    fix k t
    assume k: "k < length [0..n - 1]" and I: "I k t"
    obtain u where u: "proc_setup_rx E fd info z (int k) t = Some (Ok (), u)"
      "effect fd h (rx_writes info z (int k)) t u"
      using proc_setup_rx_run [OF effect_herd [OF I [unfolded I_def]] h(2)] by blast
    have "I (Suc k) u" using effect_trans [OF I [unfolded I_def] u(2)] by (simp add: I_def)
    then show "\<exists>u. proc_setup_rx E fd info z ([0..n - 1] ! k) t = Some (Ok (), u) \<and> I (Suc k) u"
      using u(1) k n(1) by (simp only: upto_nth) blast
  qed
  then show ?thesis by (simp add: I_def)
qed

lemma clear_loop:
  assumes h: "herd s fd = Some h" "iom h \<noteq> 0" and n: "0 \<le> n" "n \<le> 8"
  shows "\<exists>t ws. for_each [0..n - 1] (\<lambda>i. bnd (clear_card_buf E fd i) (\<lambda>_. ret ())) s = Some (Ok (), t) \<and>
     effect fd h ws s t \<and> only_ctl n ws"
proof -
  define I where "I k t \<longleftrightarrow> (\<exists>ws. effect fd h ws s t \<and> only_ctl n ws)" for k :: nat and t
  have "\<exists>t. for_each [0..n - 1] (\<lambda>i. bnd (clear_card_buf E fd i) (\<lambda>_. ret ())) s = Some (Ok (), t) \<and>
      I (length [0..n - 1]) t"
  proof (rule for_each_runs)
    show "I 0 s" using effect_refl [of s fd h] h by (auto simp: I_def only_ctl_def)
  next
    fix k t
    assume k: "k < length [0..n - 1]" and "I k t"
    then obtain ws where ws: "effect fd h ws s t" "only_ctl n ws" by (auto simp: I_def)
    have kn: "int k < n" using k by simp
    then obtain u v where u: "clear_card_buf E fd (int k) t = Some (Ok 0, u)"
      "effect fd h [(stream_reg DMA_CTL_REG (int k), v)] t u"
      using clear_card_buf_run [OF effect_herd [OF ws(1)] h(2), of "int k" E] n
      by (auto simp: NUM_STREAM_def)
    have "only_ctl n (ws @ [(stream_reg DMA_CTL_REG (int k), v)])"
      using ws(2) kn by (auto simp: only_ctl_def intro!: exI [where x = "int k"])
    with effect_trans [OF ws(1) u(2)] have "I (Suc k) u" by (auto simp: I_def)
    then show "\<exists>u. bnd (clear_card_buf E fd ([0..n - 1] ! k)) (\<lambda>_. ret ()) t = Some (Ok (), u) \<and> I (Suc k) u"
      using u(1) k n(1) by (simp add: upto_nth)
  qed
  then show ?thesis by (auto simp: I_def)
qed

lemma proc_init_run:
  assumes h: "herd s fd = Some h" "opened h" "iom h \<noteq> 0"
    and n: "0 < n" "n \<le> 8" "n \<noteq> 3"
    and z: "z = (nacinf_t.buf_size (nacinf h) - RFT_SIZE) div word_of_int n"
  shows "\<exists>t pre post. nac_proc_init E fd n s = Some (Ok 0, t) \<and> only_ctl n (pre @ post) \<and>
     effect fd (h\<lparr>num_stream := word_of_int n\<rparr>)
       (pre @ concat (map (rx_writes (nacinf h) z) (map int [0..<nat n])) @
        rft_writes (nacinf h) 8 z @ post) s t"
proof -
  have wn: "(word_of_int n :: u32) \<noteq> 0" using uint_of_small [of n] n by auto
  have n0: "0 \<le> n" using n by simp
  let ?ws = "concat (map (rx_writes (nacinf h) z) (map int [0..<nat n]))"
  obtain s1 v where s1: "capture_stop E fd s = Some (Ok 0, s1)"
    "effect fd h [(BYPASS_EN_AND_CAP_START, v)] s s1"
    using capture_stop_effect h by blast
  note clr = clear_loop [OF _ h(3) n0 n(2), of _ fd E]
  obtain s2 w where s2: "for_each [0..n - 1] (\<lambda>i. bnd (clear_card_buf E fd i) (\<lambda>_. ret ())) s1 = Some (Ok (), s2)"
    "effect fd h w s1 s2" "only_ctl n w"
    using clr [OF effect_herd [OF s1(2)]] by blast
  obtain s3 where s3: "for_each [0..n - 1] (proc_setup_rx E fd (nacinf h) z) s2 = Some (Ok (), s3)"
    "effect fd h ?ws s2 s3"
    using proc_rx_loop [OF effect_herd [OF s2(2)] h(3) n0] by blast
  obtain s4 where s4: "rft_program E fd (nacinf h) 8 z s3 = Some (Ok (), s4)"
    "effect fd h (rft_writes (nacinf h) 8 z) s3 s4"
    using rft_program_run [OF effect_herd [OF s3(2)] h(3)] by blast
  obtain s5 w' where s5: "for_each [0..n - 1] (\<lambda>i. bnd (clear_card_buf E fd i) (\<lambda>_. ret ())) s4 = Some (Ok (), s5)"
    "effect fd h w' s4 s5" "only_ctl n w'"
    using clr [OF effect_herd [OF s4(2)]] by blast
  define s6 where "s6 = s5\<lparr>herd := (herd s5)(fd \<mapsto> h\<lparr>num_stream := word_of_int n\<rparr>)\<rparr>"
  have "nac_proc_init E fd n s = Some (Ok 0, s6)"
    using h n wn s1(1) s2(1) s3(1) s4(1) s5(1) effect_herd [OF s5(2)]
    by (simp add: nac_proc_init_def div_by_def z [symmetric] NUM_STREAM_def s6_def)
  moreover have "only_ctl n (([(BYPASS_EN_AND_CAP_START, v)] @ w) @ w')"
    using s2(3) s5(3) by (simp add: only_ctl_simps)
  moreover have "effect fd h ((([(BYPASS_EN_AND_CAP_START, v)] @ w) @ ?ws @ rft_writes (nacinf h) 8 z) @ w') s s5"
    using effect_trans [OF effect_trans [OF effect_trans [OF effect_trans [OF s1(2) s2(2)] s3(2)] s4(2)] s5(2)]
    by simp
  then have "effect fd (h\<lparr>num_stream := word_of_int n\<rparr>) (([(BYPASS_EN_AND_CAP_START, v)] @ w) @ ?ws @ rft_writes (nacinf h) 8 z @ w') s s6"
    by (simp add: effect_def s6_def)
  ultimately show ?thesis by blast
qed

text \<open>
  \<open>nac_proc_init\<close> puts the flow table's 8 MB window at 8 rings from the hole's base
  whatever the number of streams, so the window ends inside the hole exactly when all eight
  streams are configured: with 1, 2, 4, 5, 6 or 7 streams (and a ring of at least 64 bytes
  for each) the flow-table engine is programmed with memory beyond the hole.
\<close>

theorem proc_init_rft_window:
  assumes "herd s fd = Some h" and "opened h" and "iom h \<noteq> 0"
    and "0 < n" and "n \<le> 8" and "n \<noteq> 3" and "hole_ok (nacinf h)"
    and room: "8 * ring_size (nacinf h) n + uint (phy_addr (nacinf h)) + 8388608 < 2 ^ 32"
    and large: "8388608 + 512 \<le> uint (nacinf_t.buf_size (nacinf h))"
  shows "\<exists>t ws. nac_proc_init E fd n s = Some (Ok 0, t) \<and>
     reg_writes fd (trace t) = reg_writes fd (trace s) @ ws \<and>
     window ws RFT_HOST_ADDR_LO_REG RFT_BUF_BOTTOM_LO_REG
       (uint (phy_addr (nacinf h)) + 8 * ring_size (nacinf h) n)
       (uint (phy_addr (nacinf h)) + 8 * ring_size (nacinf h) n + 8388608) \<and>
     (8 * ring_size (nacinf h) n + 8388608 \<le> uint (nacinf_t.buf_size (nacinf h)) \<longleftrightarrow> n = 8)"
proof -
  define z where "z = (nacinf_t.buf_size (nacinf h) - RFT_SIZE) div word_of_int n"
  have z: "uint z = ring_size (nacinf h) n" using uint_ring assms(4,5,7) by (simp add: z_def)
  obtain t pre post where t: "nac_proc_init E fd n s = Some (Ok 0, t)" "only_ctl n (pre @ post)"
    "effect fd (h\<lparr>num_stream := word_of_int n\<rparr>)
       (pre @ concat (map (rx_writes (nacinf h) z) (map int [0..<nat n])) @
        rft_writes (nacinf h) 8 z @ post) s t"
    using proc_init_run [OF assms(1-6) z_def] by blast
  have lo: "uint (8 * z) = 8 * ring_size (nacinf h) n"
  proof -
    have "ring_size (nacinf h) n < 536870912"
      using room [simplified] uint_ge_0 [of "phy_addr (nacinf h)"] by linarith
    then show ?thesis using uint_mult_small [of 8 z] z by simp
  qed
  have mid: "uint (phy_addr (nacinf h) + 8 * z) = uint (phy_addr (nacinf h)) + 8 * ring_size (nacinf h) n"
    using room lo by (subst uint_add_small) simp_all
  have hi: "uint (phy_addr (nacinf h) + 8 * z + RFT_SIZE) =
      uint (phy_addr (nacinf h)) + 8 * ring_size (nacinf h) n + 8388608"
    using room mid by (subst uint_add_small) (simp_all add: uint_RFT_SIZE)
  have "8 * ring_size (nacinf h) n + 8388608 \<le> uint (nacinf_t.buf_size (nacinf h)) \<longleftrightarrow> n = 8"
  proof -
    define b where "b = uint (nacinf_t.buf_size (nacinf h)) - 8388608"
    have "512 \<le> b" using large by (simp add: b_def)
    then have "8 * (b div n) \<le> b \<longleftrightarrow> n = 8" if "n \<in> {1, 2, 4, 5, 6, 7, 8}"
      using that by auto
    moreover have "n \<in> {1, 2, 4, 5, 6, 7, 8}" using assms(4-6) by auto
    ultimately show ?thesis by (simp add: ring_size_def b_def) linarith
  qed
  moreover note rft_window_unique [OF assms(5) refl t(2) mid hi]
  ultimately show ?thesis using t(1,3) unfolding effect_def by blast
qed

lemma proc_init_rft_window_witness:
  "\<exists>t ws. nac_proc_init demo_env 3 4 demo_mach = Some (Ok 0, t) \<and>
     window ws RFT_HOST_ADDR_LO_REG RFT_BUF_BOTTOM_LO_REG 788529152 796917760 \<and>
     \<not> 8 * ring_size (nacinf demo_card) 4 + 8388608 \<le> 134217728"
proof -
  have "hole_ok (nacinf demo_card)" and "ring_size (nacinf demo_card) 4 = 31457280"
    by (simp_all add: hole_ok_def ring_size_def demo_simps)
  then show ?thesis
    using proc_init_rft_window [of demo_mach 3 demo_card 4 demo_env] by (auto simp: demo_simps)
qed

end
