(* ===== verification/NacTool.thy ===== *)
theory NacTool
  imports ToolArgs FlashOps Session Buses StreamConfig
begin

text \<open>
  The commands of nactool (src/nactool/nactool.c): the status report of the ports, the setting
  of autonegotiation and speed, the statistics, the menus that read and write registers, the
  serial numbers and the update of the card's flash. \<open>copper\<close> tells whether the file is built
  with \<open>COPPER\<close>. Of what the tool prints, the values and verdicts are modelled and the banners,
  questions and time stamps are left out.
\<close>

section \<open>The process\<close>

text \<open>
  What the tool prints: a word, a number, or a rate, given by the number of bytes or bits and
  the microseconds by which they are divided as floating point numbers.
\<close>

datatype item = Msg string | Num u64 | ByteRate u64 u64 | BitRate u64 u64

text \<open>
  The library's state, the numbers that will be typed, up to the end of the input or to the
  first text that is not a number, the files, and what was printed.
\<close>

record tool_st =
  mc :: mach
  stdin :: "u64 list"
  fs :: "string \<Rightarrow> u8 list option"
  out :: "item list"

type_synonym 'a tool = "(tool_st, 'a) prog"

definition lib :: "'a nac \<Rightarrow> 'a tool" where
  "lib m = (\<lambda>s. case m (mc s) of None \<Rightarrow> None | Some (r, t) \<Rightarrow> Some (r, s\<lparr>mc := t\<rparr>))"

definition say :: "item \<Rightarrow> unit tool" where
  "say x = modify (\<lambda>s. s\<lparr>out := out s @ [x]\<rparr>)"

text \<open>A variable that may not have been set yet; to use it then is undefined.\<close>

definition use_var :: "'a option \<Rightarrow> 'a tool" where
  "use_var v = (case v of None \<Rightarrow> fault | Some x \<Rightarrow> ret x)"

text \<open>\<open>scanf\<close> of one number: at the end of the input the variable keeps its value.\<close>

definition scanf :: "(u64 \<Rightarrow> 'a) \<Rightarrow> 'a option \<Rightarrow> 'a option tool" where
  "scanf conv v = (\<lambda>s. case stdin s of
       [] \<Rightarrow> Some (Ok v, s)
     | x # xs \<Rightarrow> Some (Ok (Some (conv x)), s\<lparr>stdin := xs\<rparr>))"

text \<open>A loop that keeps the results of its rounds.\<close>

fun gather :: "'x list \<Rightarrow> ('x \<Rightarrow> ('s, 'b) prog) \<Rightarrow> ('s, 'b list) prog" where
  "gather [] f = ret []"
| "gather (x # xs) f = bnd (f x) (\<lambda>y. bnd (gather xs f) (\<lambda>ys. ret (y # ys)))"

text \<open>Further ways in which a system call may fail.\<close>

record file_env =
  fstat_ok :: bool
  create_ok :: bool
  append_ok :: bool

section \<open>The state of the ports\<close>

definition get_phy_autonegEN :: "env \<Rightarrow> int \<Rightarrow> u8 \<Rightarrow> int nac" where
  "get_phy_autonegEN E fd port = bnd (ge_mdio_random_read E fd port 0) (\<lambda>value.
     ret (if value AND 0x1000 \<noteq> 0 then 1 else 0))"

definition get_phy_autonegCMPL :: "env \<Rightarrow> int \<Rightarrow> u8 \<Rightarrow> int nac" where
  "get_phy_autonegCMPL E fd port = bnd (ge_mdio_random_read E fd port 1) (\<lambda>value.
     ret (if value AND 0x0020 \<noteq> 0 then 1 else 0))"

text \<open>\<open>result16 = nac_pcs_read(\<dots>)\<close> keeps the low half.\<close>

definition pcs16 :: "env \<Rightarrow> int \<Rightarrow> u8 \<Rightarrow> u8 \<Rightarrow> u16 tool" where
  "pcs16 E fd i r = lib (bnd (nac_pcs_read E fd i r) (\<lambda>v. ret (ucast v)))"

definition four_ports :: "u8 list" where
  "four_ports = [0, 1, 2, 3]"

definition show_autoneg :: "bool \<Rightarrow> env \<Rightarrow> int \<Rightarrow> u8 \<Rightarrow> unit tool" where
  "show_autoneg copper E fd i =
     (if \<not> copper
      then bnd (pcs16 E fd i 0) (\<lambda>result16.
        say (Msg (if result16 = 0xffff then ''*'' else if result16 AND 0x1000 \<noteq> 0 then ''On'' else ''Off'')))
      else bnd (lib (get_phy_autonegEN E fd i)) (\<lambda>b. say (Msg (if b \<noteq> 0 then ''On'' else ''Off''))))"

definition show_complete :: "bool \<Rightarrow> env \<Rightarrow> int \<Rightarrow> u8 \<Rightarrow> unit tool" where
  "show_complete copper E fd i =
     (if \<not> copper
      then bnd (pcs16 E fd i 1) (\<lambda>result16.
        say (Msg (if result16 = 0xffff then ''*'' else if result16 AND 0x0020 \<noteq> 0 then ''Completed'' else ''Not completed'')))
      else bnd (lib (get_phy_autonegCMPL E fd i)) (\<lambda>b. say (Msg (if b \<noteq> 0 then ''Completed'' else ''Not completed''))))"

text \<open>The link of a port, kept in \<open>link_status[i]\<close>.\<close>

definition show_link :: "bool \<Rightarrow> env \<Rightarrow> int \<Rightarrow> u8 \<Rightarrow> bool tool" where
  "show_link copper E fd i =
     bnd (pcs16 E fd i (if copper then 5 else 1)) (\<lambda>result16.
     if result16 = 0xffff then bnd (say (Msg ''*'')) (\<lambda>_. ret False)
     else if result16 AND (if copper then 0x8000 else 0x4) \<noteq> 0 then bnd (say (Msg ''Up'')) (\<lambda>_. ret True)
     else bnd (say (Msg ''Down'')) (\<lambda>_. ret False))"

definition show_speed :: "bool \<Rightarrow> env \<Rightarrow> int \<Rightarrow> u8 \<times> bool \<Rightarrow> unit tool" where
  "show_speed copper E fd = (\<lambda>(i, link_status).
     if copper
     then bnd (pcs16 E fd i 5) (\<lambda>result16.
       if result16 = 0xffff then say (Msg ''*'')
       else let result16 = drop_bit 10 (result16 AND 0x0C00) in
         say (Msg (if \<not> link_status then ''*'' else if result16 = 0 then ''10Mbps'' else if result16 = 1 then ''100Mbps''
           else if result16 = 2 then ''1000Mbps'' else ''Reserved'')))
     else say (Msg (if \<not> link_status then ''*'' else ''1000Mbps'')))"

definition show_duplex :: "bool \<Rightarrow> env \<Rightarrow> int \<Rightarrow> u8 \<times> bool \<Rightarrow> unit tool" where
  "show_duplex copper E fd = (\<lambda>(i, link_status).
     if copper
     then bnd (pcs16 E fd i 5) (\<lambda>result16.
       say (Msg (if \<not> link_status then ''*'' else if result16 = 0xffff then ''*''
         else if result16 AND 0x1000 \<noteq> 0 then ''Full'' else ''Half'')))
     else say (Msg (if \<not> link_status then ''*'' else ''Full'')))"

definition show_bypass :: "env \<Rightarrow> int \<Rightarrow> unit tool" where
  "show_bypass E fd = bnd (lib (reg_read E fd BYPASS_CRL)) (\<lambda>v.
     let result16 = (ucast v :: u16) in
     for_each four_ports (\<lambda>_. say (Msg (if result16 AND 0x0001 \<noteq> 0 then ''Off'' else ''On''))))"

definition do_gset :: "bool \<Rightarrow> env \<Rightarrow> int \<Rightarrow> int tool" where
  "do_gset copper E fd =
     bnd (for_each four_ports (show_autoneg copper E fd)) (\<lambda>_.
     bnd (for_each four_ports (show_complete copper E fd)) (\<lambda>_.
     bnd (gather four_ports (show_link copper E fd)) (\<lambda>link_status.
     bnd (for_each (zip four_ports link_status) (show_speed copper E fd)) (\<lambda>_.
     bnd (for_each (zip four_ports link_status) (show_duplex copper E fd)) (\<lambda>_.
     bnd (if copper then show_bypass E fd else ret ()) (\<lambda>_.
     bnd (lib (nac_close E fd)) (\<lambda>_. ret 0)))))))"

section \<open>Setting a port\<close>

definition AUTONEG_VALUE :: u16 where "AUTONEG_VALUE = 0x1300"
definition SPEED1000_FULL :: u16 where "SPEED1000_FULL = 0x0140"
definition SPEED100_FULL :: u16 where "SPEED100_FULL = 0x2100"
definition SPEED100_HALF :: u16 where "SPEED100_HALF = 0x2000"
definition SPEED10_FULL :: u16 where "SPEED10_FULL = 0x0100"
definition SPEED10_HALF :: u16 where "SPEED10_HALF = 0x0000"
definition RESET_PHY :: u16 where "RESET_PHY = 0x8000"

text \<open>The PHY's control register of the port.\<close>

definition phy_control :: "int \<Rightarrow> options \<Rightarrow> u16 \<Rightarrow> unit tool" where
  "phy_control fd opts w = lib (ge_mdio_random_write fd (word_of_int (port_wanted opts)) 0 w)"

definition set_autoneg :: "int \<Rightarrow> options \<Rightarrow> unit tool" where
  "set_autoneg fd opts =
     (if autoneg_wanted opts \<noteq> - 1
      then if autoneg_wanted opts = AUTONEG_ENABLE then phy_control fd opts AUTONEG_VALUE
        else if autoneg_wanted opts = AUTONEG_DISABLE then phy_control fd opts SPEED1000_FULL
        else exit_with 1
      else ret ())"

definition set_speed :: "int \<Rightarrow> options \<Rightarrow> unit tool" where
  "set_speed fd opts =
     bnd (phy_control fd opts RESET_PHY) (\<lambda>_.
     bnd (lib (usleep 10)) (\<lambda>_.
     let is = (\<lambda>s d. speed_wanted opts = s \<and> duplex_wanted opts = d) in
     if is SPEED_1000 FULL then say (Msg ''force speed 1000M and duplex full is not supported'')
     else if is SPEED_1000 HALF then say (Msg ''force speed 1000M and duplex half is not supported'')
     else if is SPEED_100 FULL then phy_control fd opts SPEED100_FULL
     else if is SPEED_100 HALF then phy_control fd opts SPEED100_HALF
     else if is SPEED_10 FULL then phy_control fd opts SPEED10_FULL
     else if is SPEED_10 HALF then phy_control fd opts SPEED10_HALF
     else exit_with 1))"

definition do_sset :: "bool \<Rightarrow> env \<Rightarrow> int \<Rightarrow> options \<Rightarrow> int tool" where
  "do_sset copper E fd opts =
     bnd (if neg_changed opts \<and> copper then set_autoneg fd opts else ret ()) (\<lambda>_.
     bnd (if copper \<and> mode_changed opts then set_speed fd opts else ret ()) (\<lambda>_.
     bnd (lib (nac_close E fd)) (\<lambda>_. ret 0)))"

definition do_bypass :: "int \<Rightarrow> options \<Rightarrow> int tool" where
  "do_bypass fd opts =
     bnd (if bypass_wanted opts = BYPASS_ENABLE then lib (bypass_switch_on fd)
          else if bypass_wanted opts = BYPASS_DISABLE then lib (bypass_switch_off fd) else ret 0) (\<lambda>_. ret 0)"

section \<open>Statistics\<close>

definition read_tx_bytes :: "env \<Rightarrow> int \<Rightarrow> u8 \<Rightarrow> u64 nac" where
  "read_tx_bytes E fd port =
     bnd (reg_read E fd (PORT0_TX_BYTE_HIGH + ucast port * PORT_OFFSET_60)) (\<lambda>h.
     bnd (reg_read E fd (PORT0_TX_BYTE_LOW + ucast port * PORT_OFFSET_60)) (\<lambda>l.
     ret (push_bit 32 (ucast h) + ucast l)))"

definition read_rx_bytes :: "env \<Rightarrow> int \<Rightarrow> u8 \<Rightarrow> u64 nac" where
  "read_rx_bytes E fd port =
     bnd (reg_read E fd (PORT0_RX_BYTE_HIGH + ucast port * PORT_OFFSET_60)) (\<lambda>h.
     bnd (reg_read E fd (PORT0_RX_BYTE_LOW + ucast port * PORT_OFFSET_60)) (\<lambda>l.
     ret (push_bit 32 (ucast h) + ucast l)))"

definition read_bytes_of :: "env \<Rightarrow> int \<Rightarrow> u8 \<Rightarrow> (u64 \<times> u64) nac" where
  "read_bytes_of E fd i = bnd (read_rx_bytes E fd i) (\<lambda>r. bnd (read_tx_bytes E fd i) (\<lambda>t. ret (r, t)))"

text \<open>\<open>timeuse\<close>, in microseconds.\<close>

definition microseconds :: "timeval \<Rightarrow> timeval \<Rightarrow> u64" where
  "microseconds start end = word_of_int (1000000 * (fst end - fst start) + snd end - snd start)"

definition do_gstats :: "env \<Rightarrow> int \<Rightarrow> int tool" where
  "do_gstats E fd =
     bnd (lib (gettimeofday E)) (\<lambda>start.
     bnd (lib (gather four_ports (read_bytes_of E fd))) (\<lambda>pre.
     bnd (lib (usleep 2000000)) (\<lambda>_.
     bnd (lib (gettimeofday E)) (\<lambda>end.
     bnd (lib (gather four_ports (read_bytes_of E fd))) (\<lambda>now.
     let timeuse = microseconds start end;
         rx = map2 (\<lambda>n p. fst n - fst p) now pre; tx = map2 (\<lambda>n p. snd n - snd p) now pre in
     bnd (for_each tx (\<lambda>d. say (Num d))) (\<lambda>_.
     bnd (for_each rx (\<lambda>d. say (Num d))) (\<lambda>_.
     bnd (for_each tx (\<lambda>d. say (ByteRate d timeuse))) (\<lambda>_.
     bnd (for_each rx (\<lambda>d. say (ByteRate d timeuse))) (\<lambda>_.
     bnd (lib (sys_close E fd)) (\<lambda>_. ret 0))))))))))"

text \<open>The bandwidth of the eight streams, from how far the card's record pointers move.\<close>

definition record_pointers :: "env \<Rightarrow> int \<Rightarrow> u64 list nac" where
  "record_pointers E fd = gather [0..<nat NUM_STREAM] (\<lambda>i.
     bnd (reg_read E fd (RECORD_PTR_LO_REG + of_nat i * STREAM_REG_DIFF_0x40)) (\<lambda>v. ret (ucast v)))"

definition moved :: "u32 \<Rightarrow> u64 \<Rightarrow> u64 \<Rightarrow> u64" where
  "moved sz s e = (if e < s then e + ucast sz else e) - s"

definition rxbw_round :: "env \<Rightarrow> int \<Rightarrow> u32 \<Rightarrow> unit tool" where
  "rxbw_round E fd sz =
     bnd (lib (gettimeofday E)) (\<lambda>start.
     bnd (lib (record_pointers E fd)) (\<lambda>rcd_s.
     bnd (lib (usleep 100000)) (\<lambda>_.
     bnd (lib (gettimeofday E)) (\<lambda>end.
     bnd (lib (record_pointers E fd)) (\<lambda>rcd_e.
     let timeuse = microseconds start end in
     bnd (for_each (map2 (moved sz) rcd_s rcd_e) (\<lambda>d. say (BitRate (8 * d) timeuse))) (\<lambda>_.
     lib (usleep 2000000)))))))"

definition rxbw_Report :: "env \<Rightarrow> int \<Rightarrow> int tool" where
  "rxbw_Report E fd = bnd (lib (ioctl_info E fd)) (\<lambda>r. case r of
       None \<Rightarrow> ret (- 1)
     | Some i \<Rightarrow> let sz = (buf_size i - RFT_SIZE) div word_of_int NUM_STREAM in
         iterate (\<lambda>_. bnd (rxbw_round E fd sz) (\<lambda>_. ret (Inl ()))) ())"

definition do_rxbw :: "env \<Rightarrow> int \<Rightarrow> int tool" where
  "do_rxbw E fd = rxbw_Report E fd"

section \<open>The menus\<close>

text \<open>
  Three of the four menus ask for a port, and all go round with the variables of the last round.
  \<open>rd\<close> and \<open>wr\<close> are the operations on the register of a port at an address.
\<close>

record menu_vars =
  menu :: "u32 option"
  addr :: "u32 option"
  val :: "u32 option"
  port :: "u32 option"

definition unset :: menu_vars where
  "unset = \<lparr>menu = None, addr = None, val = None, port = None\<rparr>"

definition menu_write :: "bool \<Rightarrow> (u32 \<Rightarrow> u32 \<Rightarrow> u32 \<Rightarrow> unit nac) \<Rightarrow> (u32 \<Rightarrow> u32 \<Rightarrow> u32 nac) \<Rightarrow> menu_vars \<Rightarrow> menu_vars tool" where
  "menu_write ported wr rd v =
     bnd (scanf ucast (addr v)) (\<lambda>a.
     bnd (scanf ucast (val v)) (\<lambda>x.
     bnd (if ported then scanf ucast (port v) else ret (Some 0)) (\<lambda>p.
     bnd (use_var a) (\<lambda>a'. bnd (use_var x) (\<lambda>x'. bnd (use_var p) (\<lambda>p'.
     bnd (lib (wr p' a' x')) (\<lambda>_.
     bnd (lib (rd p' a')) (\<lambda>y.
     bnd (say (Num (ucast y))) (\<lambda>_.
     ret (v\<lparr>addr := a, val := Some y, port := p\<rparr>))))))))))"

definition menu_read :: "bool \<Rightarrow> (u32 \<Rightarrow> u32 \<Rightarrow> u32 nac) \<Rightarrow> menu_vars \<Rightarrow> menu_vars tool" where
  "menu_read ported rd v =
     bnd (scanf ucast (addr v)) (\<lambda>a.
     bnd (if ported then scanf ucast (port v) else ret (Some 0)) (\<lambda>p.
     bnd (use_var a) (\<lambda>a'. bnd (use_var p) (\<lambda>p'.
     bnd (lib (rd p' a')) (\<lambda>y.
     bnd (say (Num (ucast y))) (\<lambda>_.
     ret (v\<lparr>addr := a, val := Some y, port := p\<rparr>)))))))"

definition menu_round :: "bool \<Rightarrow> (u32 \<Rightarrow> u32 \<Rightarrow> u32 \<Rightarrow> unit nac) \<Rightarrow> (u32 \<Rightarrow> u32 \<Rightarrow> u32 nac) \<Rightarrow> menu_vars \<Rightarrow> (menu_vars + unit) tool" where
  "menu_round ported wr rd v =
     bnd (scanf ucast (menu v)) (\<lambda>choice.
     bnd (use_var choice) (\<lambda>m.
     if m = 3 then ret (Inr ())
     else bnd (if m = 1 then menu_write ported wr rd v else if m = 2 then menu_read ported rd v else ret v) (\<lambda>v.
       ret (Inl (v\<lparr>menu := Some 0\<rparr>)))))"

definition do_menu :: "env \<Rightarrow> int \<Rightarrow> bool \<Rightarrow> (u32 \<Rightarrow> u32 \<Rightarrow> u32 \<Rightarrow> unit nac) \<Rightarrow> (u32 \<Rightarrow> u32 \<Rightarrow> u32 nac) \<Rightarrow> int tool" where
  "do_menu E fd ported wr rd =
     bnd (iterate (menu_round ported wr rd) unset) (\<lambda>_.
     bnd (lib (sys_close E fd)) (\<lambda>_. ret 0))"

definition do_testreg :: "env \<Rightarrow> int \<Rightarrow> int tool" where
  "do_testreg E fd = do_menu E fd False (\<lambda>_ a x. reg_write fd a x) (\<lambda>_ a. reg_read E fd a)"

definition do_phyreg :: "env \<Rightarrow> int \<Rightarrow> int tool" where
  "do_phyreg E fd = do_menu E fd True (\<lambda>p a x. ge_mdio_random_write fd (ucast p) (ucast a) (ucast x))
     (\<lambda>p a. bnd (ge_mdio_random_read E fd (ucast p) (ucast a)) (\<lambda>v. ret (ucast v)))"

definition do_pcsreg :: "env \<Rightarrow> int \<Rightarrow> int tool" where
  "do_pcsreg E fd = do_menu E fd True (\<lambda>p a x. nac_pcs_write fd (ucast p) (ucast a) x)
     (\<lambda>p a. nac_pcs_read E fd (ucast p) (ucast a))"

definition do_macreg :: "env \<Rightarrow> int \<Rightarrow> int tool" where
  "do_macreg E fd = do_menu E fd True (\<lambda>p a x. nac_mac_write fd (ucast p) (ucast a) x)
     (\<lambda>p a. nac_mac_read E fd (ucast p) (ucast a))"

section \<open>Serial numbers\<close>

definition do_dsn :: "env \<Rightarrow> int \<Rightarrow> int tool" where
  "do_dsn E fd =
     bnd (lib (read_hardware_num E fd)) (\<lambda>sn_hw.
     bnd (say (Num sn_hw)) (\<lambda>_.
     bnd (lib (read_logic_num E fd)) (\<lambda>sn_logic.
     bnd (say (Num sn_logic)) (\<lambda>_.
     bnd (lib (nac_close E fd)) (\<lambda>_. ret 0)))))"

text \<open>\<open>open\<close> of a file that must exist; a null pointer for its name fails.\<close>

definition open_file :: "env \<Rightarrow> string option \<Rightarrow> (int \<times> string \<times> u8 list) option tool" where
  "open_file E name = (case name of None \<Rightarrow> ret None
     | Some path \<Rightarrow> bnd (lib (sys_open E path)) (\<lambda>f.
         bnd (read_st fs) (\<lambda>files. case files path of
             None \<Rightarrow> ret None
           | Some bytes \<Rightarrow> ret (if f < 0 then None else Some (f, path, bytes)))))"

text \<open>The eight bytes of a number, the lowest first.\<close>

definition le64 :: "u64 \<Rightarrow> u8 list" where
  "le64 x = map (\<lambda>i. ucast (drop_bit (8 * i) x)) [0..<8]"

definition gsn_round :: "u64 \<times> u64 \<Rightarrow> (u64 \<times> u64 + u64) tool" where
  "gsn_round = (\<lambda>(sn, sn1).
     bnd (scanf id (Some sn)) (\<lambda>a. bnd (scanf id (Some sn1)) (\<lambda>b.
     bnd (use_var a) (\<lambda>sn. bnd (use_var b) (\<lambda>sn1.
     if sn \<noteq> sn1 then bnd (say (Msg ''sn is error, please re-input'')) (\<lambda>_. ret (Inl (sn, sn1)))
     else ret (Inr sn))))))"

definition do_gsn :: "env \<Rightarrow> file_env \<Rightarrow> int \<Rightarrow> string option \<Rightarrow> int tool" where
  "do_gsn E F fd name =
     bnd (open_file E name) (\<lambda>r. case r of
       None \<Rightarrow> ret (- 1)
     | Some (binfd, path, bytes) \<Rightarrow>
         bnd (iterate gsn_round (- 1, - 1)) (\<lambda>sn.
         if \<not> append_ok F then ret (- 1)
         else bnd (modify (\<lambda>s. s\<lparr>fs := (fs s)(path \<mapsto> bytes @ le64 sn)\<rparr>)) (\<lambda>_.
              bnd (lib (sys_close E binfd)) (\<lambda>_.
              bnd (lib (nac_close E fd)) (\<lambda>_. ret 0)))))"

section \<open>The update of the flash\<close>

text \<open>A private mapping of a file, which the kernel refuses if the file is empty.\<close>

definition mmap_file :: "env \<Rightarrow> int \<Rightarrow> u8 list \<Rightarrow> u64 option nac" where
  "mmap_file E f bytes = (let len = of_nat (length bytes) in
     bnd (read_st (\<lambda>s. if bytes = [] then None else mmap_at E (trace s))) (\<lambda>r.
     bnd (log_event (MMap f 0 len 0 r)) (\<lambda>_.
     case r of None \<Rightarrow> ret None
     | Some a \<Rightarrow> bnd (modify (\<lambda>s. s\<lparr>vmap := map_range a len (\<lambda>i. Priv (a + i)) (vmap s),
           ram := (\<lambda>c. case c of Priv x \<Rightarrow> if x - a < len then bytes ! unat (x - a) else ram s c | _ \<Rightarrow> ram s c)\<rparr>)) (\<lambda>_.
         ret (Some a)))))"

definition read_dword :: "env \<Rightarrow> u64 \<Rightarrow> u64 nac" where
  "read_dword E a =
     bnd (read_half E a) (\<lambda>w0. bnd (read_half E (a + 2)) (\<lambda>w1.
     bnd (read_half E (a + 4)) (\<lambda>w2. bnd (read_half E (a + 6)) (\<lambda>w3.
     ret (push_bit 48 (ucast w3) OR push_bit 32 (ucast w2) OR push_bit 16 (ucast w1) OR ucast w0)))))"

text \<open>Steps 1 to 3: unlock and erase the banks, program them, and store the logic number.\<close>

definition isp_program :: "env \<Rightarrow> int \<Rightarrow> u32 \<Rightarrow> u8 \<Rightarrow> u32 \<Rightarrow> u64 \<Rightarrow> u64 nac" where
  "isp_program E fd file_size_w need_bank last_words sm =
     bnd (set_config_register E fd 0xBDDF) (\<lambda>_.
     bnd (clear_stats_regs E fd) (\<lambda>_.
     bnd (for_each [0..<unat need_bank] (\<lambda>i. bank_unlock E fd (of_nat i))) (\<lambda>_.
     bnd (gettimeofday E) (\<lambda>_.
     bnd (for_each [0..<unat need_bank] (\<lambda>i. bank_erase E fd (of_nat i))) (\<lambda>_.
     bnd (gettimeofday E) (\<lambda>_.
     bnd (gettimeofday E) (\<lambda>_.
     bnd (for_each [0..<unat need_bank - 1] (\<lambda>i. bank_program E fd (of_nat i) BANK_SIZE_W (sm + 2 * ucast BANK_SIZE_W * of_nat i))) (\<lambda>_.
     bnd (bank_program E fd (need_bank - 1) last_words (sm + 2 * ucast BANK_SIZE_W * of_nat (unat need_bank - 1))) (\<lambda>_.
     bnd (gettimeofday E) (\<lambda>_.
     bnd (read_dword E (sm + 2 * ucast file_size_w)) (\<lambda>sn_logic.
     bnd (set_logic_num E fd sn_logic) (\<lambda>_.
     read_logic_num E fd))))))))))))"

text \<open>\<open>fwrite\<close> of what was just read, through a pointer that is null if the file was not created.\<close>

definition fread_word :: "env \<Rightarrow> int \<Rightarrow> bool \<Rightarrow> nat \<Rightarrow> u16 nac" where
  "fread_word E fd fp i = bnd (flash_read E fd (of_nat i)) (\<lambda>result16. if fp then ret result16 else fault)"

definition read_back_bank :: "env \<Rightarrow> int \<Rightarrow> bool \<Rightarrow> nat \<Rightarrow> nat \<Rightarrow> u16 list nac" where
  "read_back_bank E fd fp j lim = (let B = unat BANK_SIZE_W in
     bnd (flash_write E fd (of_nat (j * B)) 0xff) (\<lambda>_. gather [j * B..<lim] (fread_word E fd fp)))"

text \<open>Step 4: the words of the banks, and the logic number. The last bank is counted in a \<open>uint8_t\<close>.\<close>

definition read_back :: "env \<Rightarrow> int \<Rightarrow> bool \<Rightarrow> u8 \<Rightarrow> u32 \<Rightarrow> (u16 list \<times> u64) nac" where
  "read_back E fd fp need_bank last_words =
     (let B = unat BANK_SIZE_W; q = unat need_bank - 1 in
      bnd (gather [0..<q] (\<lambda>j. read_back_bank E fd fp j (j * B + B))) (\<lambda>banks.
      bnd (read_back_bank E fd fp (unat (need_bank - 1)) (q * B + unat last_words)) (\<lambda>last.
      bnd (read_logic_num E fd) (\<lambda>sn_logic.
      if fp then ret (concat banks @ last, sn_logic) else fault))))"

definition word_bytes :: "u16 list \<Rightarrow> u8 list" where
  "word_bytes ws = concat (map (\<lambda>w. [ucast w, ucast (drop_bit 8 w)]) ws)"

text \<open>Step 5: only after \<open>compare_file_order\<close> has accepted what was read.\<close>

definition isp_verify :: "env \<Rightarrow> int \<Rightarrow> string \<Rightarrow> unit tool" where
  "isp_verify E fd path = bnd (read_st fs) (\<lambda>files.
     case compare_file_order files path ''read_flash'' of
       Ok r \<Rightarrow> if r = 0
         then bnd (say (Msg ''Verify successful!'')) (\<lambda>_.
              bnd (lib (set_config_register E fd 0x3DDF)) (\<lambda>_.
              bnd (lib (reconfig E fd)) (\<lambda>_.
              bnd (lib (gettimeofday E)) (\<lambda>_.
              say (Msg ''Reconfigure successful, please reboot!'')))))
         else say (Msg ''Verify Error, please reconfig!'')
     | Exited n \<Rightarrow> exit_with n
     | Fault \<Rightarrow> fault)"

definition isp_update :: "env \<Rightarrow> file_env \<Rightarrow> int \<Rightarrow> int \<Rightarrow> string \<Rightarrow> u32 \<Rightarrow> u8 \<Rightarrow> u32 \<Rightarrow> u64 \<Rightarrow> int tool" where
  "isp_update E F fd binfd path file_size_w need_bank last_words sm =
     bnd (lib (isp_program E fd file_size_w need_bank last_words sm)) (\<lambda>sn_logic.
     bnd (say (Num sn_logic)) (\<lambda>_.
     bnd (lib (sys_close E binfd)) (\<lambda>_.
     bnd (modify (\<lambda>s. if create_ok F then s\<lparr>fs := (fs s)(''read_flash'' \<mapsto> [])\<rparr> else s)) (\<lambda>_.
     bnd (lib (read_back E fd (create_ok F) need_bank last_words)) (\<lambda>(ws, sn_logic).
     bnd (modify (\<lambda>s. s\<lparr>fs := (fs s)(''read_flash'' \<mapsto> word_bytes ws @ le64 sn_logic)\<rparr>)) (\<lambda>_.
     bnd (isp_verify E fd path) (\<lambda>_.
     bnd (lib (sys_close E fd)) (\<lambda>_. ret 0))))))))"

definition isp_file :: "env \<Rightarrow> file_env \<Rightarrow> int \<Rightarrow> int \<Rightarrow> string \<Rightarrow> u8 list \<Rightarrow> int tool" where
  "isp_file E F fd binfd path bytes =
     (if \<not> fstat_ok F then exit_with 1
      else let file_size = (of_nat (length bytes) :: u32) in
        if file_size mod 2 \<noteq> 0 then ret (- 1)
        else let file_size_w = (file_size - 8) div 2; (need, last_words) = parts file_size_w BANK_SIZE_W in
          bnd (lib (mmap_file E binfd bytes)) (\<lambda>m. case m of
            None \<Rightarrow> exit_with 1
          | Some sm \<Rightarrow> isp_update E F fd binfd path file_size_w (ucast need) last_words sm))"

definition do_isp :: "env \<Rightarrow> file_env \<Rightarrow> int \<Rightarrow> string option \<Rightarrow> int tool" where
  "do_isp E F fd name =
     bnd (lib (gettimeofday E)) (\<lambda>_.
     bnd (open_file E name) (\<lambda>r. case r of
       None \<Rightarrow> ret (- 1)
     | Some (binfd, path, bytes) \<Rightarrow> isp_file E F fd binfd path bytes))"

section \<open>The tool\<close>

text \<open>What \<open>doit\<close> does with the open card.\<close>

definition command :: "bool \<Rightarrow> env \<Rightarrow> file_env \<Rightarrow> options \<Rightarrow> int \<Rightarrow> int tool" where
  "command copper E F opts fd = (case mode opts of
         MODE_GSET \<Rightarrow> do_gset copper E fd
       | MODE_SSET \<Rightarrow> do_sset copper E fd opts
       | MODE_ISP \<Rightarrow> do_isp E F fd (sn_file opts)
       | MODE_DSN \<Rightarrow> do_dsn E fd
       | MODE_TR \<Rightarrow> do_testreg E fd
       | MODE_GSN \<Rightarrow> do_gsn E F fd (bin_file opts)
       | MODE_GSTATS \<Rightarrow> do_gstats E fd
       | MODE_PHY \<Rightarrow> do_phyreg E fd
       | MODE_PCS \<Rightarrow> do_pcsreg E fd
       | MODE_MAC \<Rightarrow> do_macreg E fd
       | MODE_RXBW \<Rightarrow> do_rxbw E fd
       | MODE_BYPASS \<Rightarrow> do_bypass fd opts
       | MODE_HELP \<Rightarrow> ret 1
       | _ \<Rightarrow> ret 0)"

definition doit :: "bool \<Rightarrow> env \<Rightarrow> file_env \<Rightarrow> options \<Rightarrow> int tool" where
  "doit copper E F opts =
     bnd (use_var (devname opts)) (\<lambda>name.
     bnd (lib (nac_open E (''/dev/'' @ name))) (\<lambda>fd.
     if fd < 0 then exit_with 1 else command copper E F opts fd))"

definition nactool :: "bool \<Rightarrow> env \<Rightarrow> file_env \<Rightarrow> string list \<Rightarrow> int tool" where
  "nactool copper E F argp = (case parse_cmdline copper argp of
       Inl n \<Rightarrow> exit_with n
     | Inr opts \<Rightarrow> doit copper E F opts)"

end
