(* ===== verification/NacIsp.thy ===== *)
theory NacIsp
  imports NacTool
begin

text \<open>
  What the update of the flash (\<open>do_isp\<close> of nactool) does to the chip, from the history of the
  whole run: what was erased, programmed and read back, and when the new configuration is
  loaded. With \<open>do_gsn\<close>, which puts the serial number into the image.
\<close>

section \<open>Programs between idle states of the chip\<close>

text \<open>
  From any idle mode, \<open>m\<close> goes through complete commands; where it returns \<open>v\<close>, the chip is
  idle again and the actions \<open>d\<close> satisfy \<open>Q v d\<close>.
\<close>

definition yields :: "int \<Rightarrow> (u64 \<Rightarrow> cell) \<times> (cell \<Rightarrow> u8) \<Rightarrow> 'a nac \<Rightarrow> ('a \<Rightarrow> flash_act list \<Rightarrow> bool) \<Rightarrow> bool" where
  "yields fd M m Q \<longleftrightarrow> (\<forall>k. chip_runs fd M (Idle k) m (\<lambda>r c d. \<forall>v. r = Ok v \<longrightarrow> (\<exists>k'. c = Idle k') \<and> Q v d))"

lemma yields_bnd:
  assumes "yields fd M m P" and "\<And>v d. P v d \<Longrightarrow> yields fd M (f v) (\<lambda>w e. Q w (d @ e))"
  shows "yields fd M (bnd m f) Q"
  unfolding yields_def
proof
  fix k
  show "chip_runs fd M (Idle k) (bnd m f) (\<lambda>r c d. \<forall>v. r = Ok v \<longrightarrow> (\<exists>k'. c = Idle k') \<and> Q v d)"
  proof (rule chip_bnd [OF assms(1) [unfolded yields_def, rule_format]], goal_cases)
    case (1 v c' d)
    then obtain k' where k': "c' = Idle k'" "P v d" by auto
    show ?case unfolding k'(1) by (rule assms(2) [OF k'(2), unfolded yields_def, rule_format])
  qed auto
qed

lemma yields_mono: "yields fd M m P \<Longrightarrow> (\<And>v d. P v d \<Longrightarrow> Q v d) \<Longrightarrow> yields fd M m Q"
  unfolding yields_def by (blast intro: chip_mono)

lemma yields_ret: "Q v [] \<Longrightarrow> yields fd M (ret v) Q"
  unfolding yields_def by (auto intro: chip_ret simp del: ret_apply)

text \<open>Programs whose result is not used, with fixed actions.\<close>

abbreviation acts :: "int \<Rightarrow> (u64 \<Rightarrow> cell) \<times> (cell \<Rightarrow> u8) \<Rightarrow> 'a nac \<Rightarrow> flash_act list \<Rightarrow> bool" where
  "acts fd M m a \<equiv> yields fd M m (\<lambda>_ d. d = a)"

lemma acts_then: "acts fd M m a \<Longrightarrow> (\<And>v. yields fd M (f v) (\<lambda>w e. Q w (a @ e))) \<Longrightarrow> yields fd M (bnd m f) Q"
  by (rule yields_bnd [where P = "\<lambda>_ d. d = a"]) simp_all

lemma acts_each: "(\<And>x. x \<in> set xs \<Longrightarrow> acts fd M (f x) (g x)) \<Longrightarrow> acts fd M (for_each xs f) (concat (map g xs))"
proof (induction xs)
  case (Cons x xs)
  show ?case
    unfolding for_each.simps
    by (rule acts_then [where a = "g x"]) (use Cons in \<open>auto intro: yields_mono\<close>)
qed (simp add: yields_ret del: ret_apply)

lemma acts_of_does:
  assumes "\<And>k. chip_does fd M (Idle k) p (Idle k') a"
  shows "acts fd M p a"
  unfolding yields_def
proof
  fix k
  show "chip_runs fd M (Idle k) p (\<lambda>r c d. \<forall>v. r = Ok v \<longrightarrow> (\<exists>k'. c = Idle k') \<and> d = a)"
    by (rule chip_mono [OF assms [of k, unfolded chip_does_def]]) auto
qed

lemma acts_of_programs:
  assumes "programs fd M p a"
  shows "acts fd M p a"
  unfolding yields_def
proof
  fix k
  show "chip_runs fd M (Idle k) p (\<lambda>r c d. \<forall>v. r = Ok v \<longrightarrow> (\<exists>k'. c = Idle k') \<and> d = a)"
    by (rule chip_mono [OF assms [unfolded programs_def, rule_format, of k]]) auto
qed

lemma chip_fault: "Q Fault c [] \<Longrightarrow> chip_runs fd M c fault Q"
  unfolding chip_runs_def flash_runs_def by (auto intro!: exI [of _ "[]"] flash_log_refl)

lemma yields_fault: "yields fd M fault Q"
  unfolding yields_def by (auto intro: chip_fault simp del: fault_apply)

lemma acts_clock: "acts fd M (gettimeofday E) []"
  unfolding yields_def chip_runs_def
proof (intro allI flash_runsI)
  fix k s r t
  assume "gettimeofday E s = Some (r, t)"
  then have t: "t = s\<lparr>trace := trace s @ [Clock (clock_at E (trace s))]\<rparr>" by (simp add: gettimeofday_def)
  show "\<exists>a. flash_log fd s t a \<and> (\<exists>c d. interp chip_step a (Idle k) = Some (c, d) \<and> (\<forall>v. r = Ok v \<longrightarrow> (\<exists>k'. c = Idle k') \<and> d = []))"
    by (rule exI [of _ "[]"]) (simp add: flash_log_def t)
qed

lemma acts_half: "half_at M a = Some w \<Longrightarrow> yields fd M (read_half E a) (\<lambda>v d. v = w \<and> d = [])"
  unfolding yields_def by (auto intro: chip_mono [OF read_half_chip])

lemma acts_config: "acts fd M (set_config_register E fd 0xBDDF) []"
  by (rule acts_of_does) (rule config_chip)

lemma acts_clear: "acts fd M (clear_stats_regs E fd) []"
  unfolding yields_def
proof
  fix k
  show "chip_runs fd M (Idle k) (clear_stats_regs E fd) (\<lambda>r c d. \<forall>v. r = Ok v \<longrightarrow> (\<exists>k'. c = Idle k') \<and> d = [])"
    by (rule chip_mono [OF clear_chip [unfolded chip_does_def]]) auto
qed

section \<open>Banks\<close>

lemma bank_word: "i < 16 \<Longrightarrow> (ucast (of_nat i :: u8) :: u32) * 0x80000 = of_nat (524288 * i)"
proof -
  assume "i < 16"
  then have "(ucast (of_nat i :: u8) :: u32) = of_nat i"
    by (simp add: word_unat_eq_iff unsigned_ucast_eq unat_of_nat take_bit_eq_mod)
  then show ?thesis by simp
qed

lemma block_word: "i < 16 \<Longrightarrow> j < 8 \<Longrightarrow> block_addr (of_nat i) (of_nat j) = of_nat (524288 * i + 65536 * j)"
  unfolding block_addr_of_nat [of j, simplified] by (simp add: block_addr_of_nat bank_word)

lemma flash_range: "n \<le> 0x7FFFFF \<Longrightarrow> (of_nat n :: u32) \<le> 0x7FFFFF"
  by (simp add: word_le_nat_alt unat_of_nat)

lemma acts_unlock: "i < 16 \<Longrightarrow> acts fd M (bank_unlock E fd (of_nat i)) []"
proof -
  assume i: "i < 16"
  have block: "acts fd M (block_unlock E fd (of_nat i) (of_nat j)) []" if "j < 8" for j
  proof -
    have 1: "(ucast (of_nat i :: u8) :: u32) * 0x80000 \<le> 0x7FFFFF" unfolding bank_word [OF i] by (rule flash_range) (use i in simp)
    have 2: "block_addr (of_nat i) (of_nat j) \<le> 0x7FFFFF" unfolding block_word [OF i that] by (rule flash_range) (use i that in simp)
    have "block_addr (of_nat i) (of_nat j) + 2 = of_nat (524288 * i + 65536 * j + 2)" unfolding block_word [OF i that] by simp
    also have "\<dots> \<le> 0x7FFFFF" by (rule flash_range) (use i that in simp)
    finally show ?thesis by (intro acts_of_does chip_does_mono) (rule block_unlock_chip [OF 1 2])
  qed
  have "acts fd M (bank_unlock E fd (of_nat i)) (concat (map (\<lambda>_. []) [0..<8]))"
    unfolding bank_unlock_def by (rule acts_each) (use block in simp)
  moreover have "concat (map (\<lambda>_. []) [0..<8 :: nat]) = ([] :: flash_act list)" by simp
  ultimately show ?thesis by (simp only:)
qed

lemma acts_erase:
  "i < 16 \<Longrightarrow> acts fd M (bank_erase E fd (of_nat i)) (map (\<lambda>j. Erased (of_nat (65536 * (8 * i + j)))) [0..<8])"
proof -
  assume i: "i < 16"
  have block: "acts fd M (block_erase E fd (of_nat i) (of_nat j)) [Erased (of_nat (65536 * (8 * i + j)))]" if "j < 8" for j
  proof -
    have 1: "(ucast (of_nat i :: u8) :: u32) * 0x80000 \<le> 0x7FFFFF" unfolding bank_word [OF i] by (rule flash_range) (use i in simp)
    have 2: "block_addr (of_nat i) (of_nat j) \<le> 0x7FFFFF" unfolding block_word [OF i that] by (rule flash_range) (use i that in simp)
    have "acts fd M (block_erase E fd (of_nat i) (of_nat j)) [Erased (block_addr (of_nat i) (of_nat j))]"
      by (intro acts_of_does chip_does_mono) (rule block_erase_chip [OF 1 2])
    moreover have "524288 * i + 65536 * j = 65536 * (8 * i + j)" by simp
    ultimately show ?thesis unfolding block_word [OF i that] by (simp only:)
  qed
  have "acts fd M (bank_erase E fd (of_nat i)) (concat (map (\<lambda>j. [Erased (of_nat (65536 * (8 * i + j)))]) [0..<8]))"
    unfolding bank_erase_def by (rule acts_each) (use block in simp)
  then show ?thesis by (simp only: concat_map_singleton)
qed

text \<open>The parts of an image: \<open>q\<close> whole banks and a last one of \<open>l\<close> words.\<close>

lemma image_parts:
  assumes "0 < n" and "n \<le> 14 * 524288" and "parts (of_nat n) BANK_SIZE_W = (need, l)"
  obtains q where "n = 524288 * q + unat l" and "0 < unat l" and "unat l \<le> 524288" and "q < 14"
    and "unat (ucast need :: u8) = Suc q" and "ucast need - 1 = (of_nat q :: u8)" and "Suc q = (n + 524287) div 524288"
proof -
  have un: "unat (of_nat n :: u32) = n" using assms(2) by (simp add: unat_of_nat)
  have n0: "(of_nat n :: u32) \<noteq> 0" using un assms(1) by (metis unat_0 less_irrefl)
  have C: "unat BANK_SIZE_W = 524288" by (simp add: BANK_SIZE_W_def)
  define q where "q = unat (need - 1)"
  have sp: "n = 524288 * q + unat l" "0 < unat l" "unat l \<le> 524288" "unat need = Suc q"
    using parts_split [OF n0 _ assms(3)] un C by (simp_all add: q_def)
  have q: "q < 14" using sp(1,2) assms(2) by linarith
  have 1: "unat (ucast need :: u8) = Suc q" using sp(4) q by (simp add: unsigned_ucast_eq take_bit_eq_mod)
  have "ucast need = (of_nat (Suc q) :: u8)" unfolding 1 [symmetric] by simp
  then have 2: "ucast need - 1 = (of_nat q :: u8)" by simp
  have "Suc q = (n + 524287) div 524288" using sp(1-3) by (simp add: div_nat_eqI)
  with sp q 1 2 show thesis by (intro that)
qed

lemma acts_erase_all:
  "nb \<le> 14 \<Longrightarrow> acts fd M (for_each [0..<nb] (\<lambda>i. bank_erase E fd (of_nat i))) (map (\<lambda>i. Erased (of_nat (65536 * i))) [0..<8 * nb])"
proof -
  assume "nb \<le> 14"
  then have "acts fd M (for_each [0..<nb] (\<lambda>i. bank_erase E fd (of_nat i)))
      (concat (map (\<lambda>i. map (\<lambda>j. Erased (of_nat (65536 * (8 * i + j)))) [0..<8]) [0..<nb]))"
    by (intro acts_each acts_erase) simp
  then show ?thesis using concat_chunks [where f = "\<lambda>i. Erased (of_nat (65536 * i))" and c = 8 and q = nb and l = 0] by simp
qed

lemma acts_unlock_all: "nb \<le> 14 \<Longrightarrow> acts fd M (for_each [0..<nb] (\<lambda>i. bank_unlock E fd (of_nat i))) []"
proof -
  assume "nb \<le> 14"
  then have "acts fd M (for_each [0..<nb] (\<lambda>i. bank_unlock E fd (of_nat i))) (concat (map (\<lambda>i. []) [0..<nb]))"
    by (intro acts_each acts_unlock) simp
  moreover have "concat (map (\<lambda>i. []) [0..<nb]) = ([] :: flash_act list)" by simp
  ultimately show ?thesis by (simp only:)
qed

section \<open>Programming the image\<close>

lemma acts_program_all:
  assumes "n = 524288 * q + unat l" and "0 < unat l" and "unat l \<le> 524288" and "q < 14"
    and data: "\<And>k. k < n \<Longrightarrow> half_at M (sm + 2 * of_nat k) = Some (w k)"
  shows "acts fd M (bnd (for_each [0..<q] (\<lambda>i. bank_program E fd (of_nat i) BANK_SIZE_W (sm + 2 * ucast BANK_SIZE_W * of_nat i)))
      (\<lambda>_. bank_program E fd (of_nat q) l (sm + 2 * ucast BANK_SIZE_W * of_nat q)))
    (map (\<lambda>k. Programmed (of_nat k) (bit_swap (w k))) [0..<n])"
proof -
  have B: "2 * ucast BANK_SIZE_W = (1048576 :: u64)" "BANK_SIZE_W = of_nat 524288" by (simp_all add: BANK_SIZE_W_def)
  have half: "half_at M (sm + 1048576 * of_nat i + 2 * of_nat k) = Some (w (524288 * i + k))" if "524288 * i + k < n" for i k
  proof -
    have "sm + 1048576 * of_nat i + 2 * of_nat k = sm + 2 * of_nat (524288 * i + k)" by (simp add: algebra_simps)
    then show ?thesis using data [OF that] by (simp only:)
  qed
  have bank: "acts fd M (bank_program E fd (of_nat i) (of_nat m) (sm + 1048576 * of_nat i))
      (map (\<lambda>k. Programmed (of_nat (524288 * i + k)) (bit_swap (w (524288 * i + k)))) [0..<m])"
    if "i \<le> q" "0 < m" "m \<le> 524288" "524288 * i + m \<le> n" for i m
  proof -
    have i: "i < 16" using that(1) assms(4) by simp
    have "programs fd M (bank_program E fd (of_nat i) (of_nat m) (sm + 1048576 * of_nat i))
        (prog_words (ucast (of_nat i :: u8) * 0x80000) (\<lambda>k. w (524288 * i + k)) m)"
      by (rule bank_programs) (use that i half in \<open>simp_all add: word_less_nat_alt unat_of_nat\<close>)
    then show ?thesis unfolding bank_word [OF i] by (simp add: acts_of_programs)
  qed
  have "l = of_nat (unat l)" by simp
  then have last: "acts fd M (bank_program E fd (of_nat q) l (sm + 1048576 * of_nat q))
      (map (\<lambda>k. Programmed (of_nat (524288 * q + k)) (bit_swap (w (524288 * q + k)))) [0..<unat l])"
    using bank [of q "unat l"] assms by simp
  have each: "acts fd M (for_each [0..<q] (\<lambda>i. bank_program E fd (of_nat i) (of_nat 524288) (sm + 1048576 * of_nat i)))
      (concat (map (\<lambda>i. map (\<lambda>k. Programmed (of_nat (524288 * i + k)) (bit_swap (w (524288 * i + k)))) [0..<524288]) [0..<q]))"
    by (rule acts_each, rule bank) (use assms in auto)
  have "acts fd M (bnd (for_each [0..<q] (\<lambda>i. bank_program E fd (of_nat i) (of_nat 524288) (sm + 1048576 * of_nat i)))
      (\<lambda>_. bank_program E fd (of_nat q) l (sm + 1048576 * of_nat q)))
     (concat (map (\<lambda>i. map (\<lambda>k. Programmed (of_nat (524288 * i + k)) (bit_swap (w (524288 * i + k)))) [0..<524288]) [0..<q]) @
      map (\<lambda>k. Programmed (of_nat (524288 * q + k)) (bit_swap (w (524288 * q + k)))) [0..<unat l])"
    by (rule acts_then [OF each], rule yields_mono [OF last]) simp
  then show ?thesis
    unfolding B(1) unfolding B(2) assms(1) by (simp only: concat_chunks [where f = "\<lambda>k. Programmed (of_nat k) (bit_swap (w k))"])
qed

section \<open>Serial numbers\<close>

definition logic_words :: "u32 list" where
  "logic_words = [0x700000, 0x700001, 0x700002, 0x700003]"

lemma no_bit16: "16 \<le> k \<Longrightarrow> \<not> bit (w :: u16) k"
  using bit_imp_le_length [of w k] by auto

lemma sn_words_of_join: "sn_words (sn_join w0 w1 w2 w3) = [w0, w1, w2, w3]"
proof -
  have m: "(0xffff000000000000 :: u64) = push_bit 48 (mask 16)" "(0x0000ffff00000000 :: u64) = push_bit 32 (mask 16)"
    "(0x00000000ffff0000 :: u64) = push_bit 16 (mask 16)" "(0x000000000000ffff :: u64) = mask 16"
    by (simp_all add: mask_eq_exp_minus_1)
  show ?thesis
    unfolding sn_words_def sn_join_def m by (auto intro!: bit_word_eqI simp: bit_simps no_bit16)
qed

lemma acts_set_logic: "acts fd M (set_logic_num E fd sn) (Erased 0x700000 # map2 Programmed logic_words (sn_words sn))"
proof -
  have a: "block_addr 14 0 = 0x700000" by (simp add: block_addr_def)
  show ?thesis
    unfolding set_logic_num_def logic_words_def
    by (rule acts_of_does) (use program_num_chip [of 0 "0x700000" fd M _ E sn] a in simp)
qed

lemma yields_logic: "yields fd M (read_logic_num E fd) (\<lambda>sn d. d = map2 Shown logic_words (sn_words sn))"
  unfolding yields_def
proof
  fix k
  have a: "block_addr 14 0 = 0x700000" by (simp add: block_addr_def)
  show "chip_runs fd M (Idle k) (read_logic_num E fd) (\<lambda>r c d. \<forall>v. r = Ok v \<longrightarrow> (\<exists>k'. c = Idle k') \<and> d = map2 Shown logic_words (sn_words v))"
    unfolding read_logic_num_def
    by (rule chip_mono [OF fetch_num_chip [of 0 "0x700000"]]) (use a in \<open>auto simp: sn_words_of_join logic_words_def\<close>)
qed

section \<open>Reading back\<close>

fun shown :: "nat \<Rightarrow> u16 list \<Rightarrow> flash_act list" where
  "shown a [] = []"
| "shown a (w # ws) = Shown (of_nat a) w # shown (Suc a) ws"

lemma shown_append: "shown a (xs @ ys) = shown a xs @ shown (a + length xs) ys"
  by (induction xs arbitrary: a) simp_all

lemma bnd_fault [simp]: "bnd fault f = fault"
  by (rule ext) simp

lemma gather_words:
  assumes "lim \<le> 0x800000"
  shows "chip_runs fd M (Idle Array) (gather [a..<lim] (fread_word E fd fp))
     (\<lambda>r c d. \<forall>ws. r = Ok ws \<longrightarrow> c = Idle Array \<and> length ws = lim - a \<and> d = shown a ws)"
proof (induction "lim - a" arbitrary: a)
  case 0
  then show ?case by (simp add: chip_ret del: ret_apply)
next
  case (Suc n)
  have up: "[a..<lim] = a # [Suc a..<lim]" using Suc.hyps(2) by (simp add: upt_conv_Cons)
  have addr: "(of_nat a :: u32) \<le> 0x7FFFFF" by (rule flash_range) (use Suc.hyps(2) assms in simp)
  have rest: "chip_runs fd M (Idle Array) (bnd (gather [Suc a..<lim] (fread_word E fd fp)) (\<lambda>ys. ret (w # ys)))
     (\<lambda>r c d. \<forall>ws. r = Ok ws \<longrightarrow> c = Idle Array \<and> length ws = lim - a \<and> Shown (of_nat a) w # d = shown a ws)" for w
  proof (rule chip_bnd [OF Suc.hyps(1)])
    show "n = lim - Suc a" using Suc.hyps(2) by simp
    fix v c' d
    assume v: "\<forall>ws. Ok v = Ok ws \<longrightarrow> c' = Idle Array \<and> length ws = lim - Suc a \<and> d = shown (Suc a) ws"
    show "chip_runs fd M c' (ret (w # v)) (\<lambda>r c'' e. \<forall>ws. r = Ok ws \<longrightarrow> c'' = Idle Array \<and> length ws = lim - a \<and> Shown (of_nat a) w # (d @ e) = shown a ws)"
      by (rule chip_ret) (use v Suc.hyps(2) in \<open>auto\<close>)
  qed auto
  show ?case
    unfolding up gather.simps fread_word_def [of E fd fp a] bnd_assoc
  proof (rule chip_get [OF addr])
    fix w
    show "chip_runs fd M (Idle Array) (bnd (if fp then ret w else fault) (\<lambda>y. bnd (gather [Suc a..<lim] (fread_word E fd fp)) (\<lambda>ys. ret (y # ys))))
       (\<lambda>r c2 e2. \<forall>ws. r = Ok ws \<longrightarrow> c2 = Idle Array \<and> length ws = lim - a \<and> Shown (of_nat a) w # e2 = shown a ws)"
      using rest [of w] by (cases "fp = True") (simp_all add: chip_fault del: fault_apply)
  qed
qed

lemma yields_bank:
  assumes "j < 16" and "lim \<le> 0x800000"
  shows "yields fd M (read_back_bank E fd fp j lim) (\<lambda>ws d. length ws = lim - 524288 * j \<and> d = shown (524288 * j) ws)"
  unfolding yields_def
proof
  fix k
  have B: "j * unat BANK_SIZE_W = 524288 * j" by (simp add: BANK_SIZE_W_def)
  have addr: "(of_nat (524288 * j) :: u32) \<le> 0x7FFFFF" by (rule flash_range) (use assms(1) in simp)
  show "chip_runs fd M (Idle k) (read_back_bank E fd fp j lim)
      (\<lambda>r c d. \<forall>v. r = Ok v \<longrightarrow> (\<exists>k'. c = Idle k') \<and> length v = lim - 524288 * j \<and> d = shown (524288 * j) v)"
    unfolding read_back_bank_def Let_def B
    by (rule chip_bnd [OF chip_write [OF addr, where Q = "\<lambda>r c d. r = Ok () \<and> c = Idle Array \<and> d = []"]])
      (auto intro: chip_mono [OF gather_words [OF assms(2)]])
qed

lemma yields_banks:
  assumes "q \<le> 14"
  shows "yields fd M (gather [j..<q] (\<lambda>j. read_back_bank E fd fp j (j * unat BANK_SIZE_W + unat BANK_SIZE_W)))
     (\<lambda>banks d. length (concat banks) = 524288 * (q - j) \<and> d = shown (524288 * j) (concat banks))"
proof (induction "q - j" arbitrary: j)
  case 0
  then show ?case by (simp add: yields_ret del: ret_apply)
next
  case (Suc n)
  have up: "[j..<q] = j # [Suc j..<q]" using Suc.hyps(2) by (simp add: upt_conv_Cons)
  have B: "j * unat BANK_SIZE_W + unat BANK_SIZE_W = 524288 * Suc j" by (simp add: BANK_SIZE_W_def)
  have bank: "yields fd M (read_back_bank E fd fp j (524288 * Suc j)) (\<lambda>ws d. length ws = 524288 \<and> d = shown (524288 * j) ws)"
    by (rule yields_mono [OF yields_bank]) (use Suc.hyps(2) assms in auto)
  have n: "n = q - Suc j" "q - j = Suc (q - Suc j)" using Suc.hyps(2) by auto
  show ?case
    unfolding up gather.simps B
    by (rule yields_bnd [OF bank], rule yields_bnd [OF Suc.hyps(1) [OF n(1)]], rule yields_ret)
      (auto simp: n(2) shown_append add.commute)
qed

lemma yields_read_back:
  assumes "n = 524288 * q + unat l" and "unat l \<le> 524288" and "q < 14"
    and need: "unat need_bank = Suc q" "need_bank - 1 = of_nat q"
  shows "yields fd M (read_back E fd fp need_bank l) (\<lambda>r d. length (fst r) = n \<and>
     d = shown 0 (fst r) @ map2 Shown logic_words (sn_words (snd r)))"
proof -
  have B: "q * unat BANK_SIZE_W = 524288 * q" by (simp add: BANK_SIZE_W_def)
  have q: "unat (of_nat q :: u8) = q" "Suc q - 1 = q" using assms(3) by (simp_all add: unat_of_nat)
  have last: "yields fd M (read_back_bank E fd fp q (524288 * q + unat l)) (\<lambda>ws d. length ws = unat l \<and> d = shown (524288 * q) ws)"
    by (rule yields_mono [OF yields_bank]) (use assms in auto)
  have rest: "yields fd M (bnd (read_back_bank E fd fp q (524288 * q + unat l)) (\<lambda>last. bnd (read_logic_num E fd) (\<lambda>sn.
      if fp then ret (concat banks @ last, sn) else fault)))
     (\<lambda>r e. length (fst r) = n \<and> shown 0 (concat banks) @ e = shown 0 (fst r) @ map2 Shown logic_words (sn_words (snd r)))"
    (is "yields _ _ _ ?Q") if "length (concat banks) = 524288 * q" for banks
  proof (rule yields_bnd [OF last], elim conjE, rule yields_bnd [OF yields_logic])
    fix v d sn d'
    assume "length v = unat l" "d = shown (524288 * q) v" "d' = map2 Shown logic_words (sn_words sn)"
    then show "yields fd M (if fp then ret (concat banks @ v, sn) else fault) (\<lambda>r e. ?Q r (d @ d' @ e))"
      using that assms(1)
      by (cases fp) (auto intro!: yields_ret yields_fault simp: shown_append simp del: ret_apply fault_apply)
  qed
  show ?thesis
    unfolding read_back_def Let_def need q B
    by (rule yields_bnd [OF yields_banks]) (use assms(3) rest in auto)
qed

section \<open>The image in memory\<close>

lemma file_words_nth:
  "2 * k + 1 < length bs \<Longrightarrow> file_words bs ! k = ucast (bs ! (2 * k + 1)) * 256 + ucast (bs ! (2 * k))"
proof (induction bs arbitrary: k rule: file_words.induct)
  case (1 lo hi bs)
  then show ?case by (cases k) simp_all
qed simp_all

lemma mmap_file_run:
  assumes "mmap_file E f bytes s = Some (Ok (Some sm), t)" and "length bytes < 2 ^ 32"
  shows "herd t = herd s" and "trace t = trace s @ [MMap f 0 (of_nat (length bytes)) 0 (Some sm)]"
    and "k < length bytes div 2 \<Longrightarrow> half_at (vmap t, ram t) (sm + 2 * of_nat k) = Some (file_words bytes ! k)"
proof -
  let ?len = "of_nat (length bytes) :: u64"
  have t: "herd t = herd s" "trace t = trace s @ [MMap f 0 ?len 0 (Some sm)]" "vmap t = map_range sm ?len (\<lambda>i. Priv (sm + i)) (vmap s)"
      "\<And>x. ram t (Priv x) = (if x - sm < ?len then bytes ! unat (x - sm) else ram s (Priv x))"
    using assms(1) by (auto simp: mmap_file_def Let_def split: if_splits option.splits)
  show "herd t = herd s" "trace t = trace s @ [MMap f 0 ?len 0 (Some sm)]" by (simp_all add: t)
  have byte: "vmap t (sm + of_nat j) = Priv (sm + of_nat j)" "ram t (Priv (sm + of_nat j)) = bytes ! j" if "j < length bytes" for j
  proof -
    have "unat (of_nat j :: u64) = j" "unat ?len = length bytes" using that assms(2) by (simp_all add: unat_of_nat)
    then have "(of_nat j :: u64) < ?len" "unat (of_nat j :: u64) = j" using that by (simp_all add: word_less_nat_alt)
    then show "vmap t (sm + of_nat j) = Priv (sm + of_nat j)" "ram t (Priv (sm + of_nat j)) = bytes ! j"
      by (simp_all add: t map_range_def)
  qed
  assume k: "k < length bytes div 2"
  then have k2: "2 * k < length bytes" "2 * k + 1 < length bytes" by linarith+
  have a: "sm + 2 * of_nat k = sm + of_nat (2 * k)" "sm + of_nat (2 * k) + 1 = sm + of_nat (2 * k + 1)" by simp_all
  show "half_at (vmap t, ram t) (sm + 2 * of_nat k) = Some (file_words bytes ! k)"
    unfolding half_at_def fst_conv snd_conv a byte(1) [OF k2(1)] byte(1) [OF k2(2)] prod.case cell.case byte(2) [OF k2(1)]
      byte(2) [OF k2(2)] file_words_nth [OF k2(2)] ..
qed

lemma yields_dword:
  assumes "half_at M a = Some w0" and "half_at M (a + 2) = Some w1" and "half_at M (a + 4) = Some w2" and "half_at M (a + 6) = Some w3"
  shows "yields fd M (read_dword E a) (\<lambda>v d. v = sn_join w3 w2 w1 w0 \<and> d = [])"
  unfolding read_dword_def
  by (rule yields_bnd [OF acts_half [OF assms(1)]], rule yields_bnd [OF acts_half [OF assms(2)]],
      rule yields_bnd [OF acts_half [OF assms(3)]], rule yields_bnd [OF acts_half [OF assms(4)]], rule yields_ret)
    (auto simp: sn_join_def)

lemma acts_then2:
  assumes "acts fd M (bnd p (\<lambda>_. q)) a" and "\<And>v. yields fd M (f v) (\<lambda>w e. Q w (a @ e))"
  shows "yields fd M (bnd p (\<lambda>_. bnd q f)) Q"
  using acts_then [OF assms] by (simp add: bnd_assoc)

text \<open>All that steps 1 to 3 do to the chip.\<close>

definition isp_actions :: "nat \<Rightarrow> (nat \<Rightarrow> u16) \<Rightarrow> u64 \<Rightarrow> flash_act list" where
  "isp_actions n w sn = map (\<lambda>i. Erased (of_nat (65536 * i))) [0..<8 * ((n + 524287) div 524288)] @
     map (\<lambda>k. Programmed (of_nat k) (bit_swap (w k))) [0..<n] @ Erased 0x700000 # map2 Programmed logic_words (sn_words sn)"

lemma yields_isp_program:
  assumes n: "n = 524288 * q + unat l" "0 < unat l" "unat l \<le> 524288" "q < 14"
    and need: "unat need_bank = Suc q" "need_bank - 1 = of_nat q" and nb: "Suc q = (n + 524287) div 524288"
    and data: "\<And>k. k < n + 4 \<Longrightarrow> half_at M (sm + 2 * of_nat k) = Some (w k)"
  shows "yields fd M (isp_program E fd (of_nat n) need_bank l sm) (\<lambda>x d.
     d = isp_actions n w (sn_join (w (n + 3)) (w (n + 2)) (w (n + 1)) (w n)) @ map2 Shown logic_words (sn_words x))"
proof -
  have q: "Suc q - 1 = q" "Suc q \<le> 14" using n(4) by simp_all
  have "n \<le> 14 * 524288" using n by linarith
  then have n32: "n < 2 ^ 32" by simp
  then have "unat (of_nat n :: u32) = n" by (simp add: unat_of_nat)
  then have u: "(ucast (of_nat n :: u32) :: u64) = of_nat n"
    using n32 by (simp add: word_unat_eq_iff unat_of_nat unsigned_ucast_eq take_bit_eq_mod)
  have dword: "yields fd M (read_dword E (sm + 2 * of_nat n)) (\<lambda>v d. v = sn_join (w (n + 3)) (w (n + 2)) (w (n + 1)) (w n) \<and> d = [])"
    using data [of n] data [of "n + 1"] data [of "n + 2"] data [of "n + 3"]
    by (intro yields_dword) (simp_all add: algebra_simps)
  have prog: "acts fd M (bnd (for_each [0..<q] (\<lambda>i. bank_program E fd (of_nat i) BANK_SIZE_W (sm + 2 * ucast BANK_SIZE_W * of_nat i)))
      (\<lambda>_. bank_program E fd (of_nat q) l (sm + 2 * ucast BANK_SIZE_W * of_nat q)))
    (map (\<lambda>k. Programmed (of_nat k) (bit_swap (w k))) [0..<n])"
    by (rule acts_program_all [OF n]) (use data in simp)
  show ?thesis
    unfolding isp_program_def need q u
    by (rule acts_then [OF acts_config], rule acts_then [OF acts_clear], rule acts_then [OF acts_unlock_all [OF q(2)]],
        rule acts_then [OF acts_clock], rule acts_then [OF acts_erase_all [OF q(2)]], rule acts_then [OF acts_clock],
        rule acts_then [OF acts_clock], rule acts_then2 [OF prog], rule acts_then [OF acts_clock], rule yields_bnd [OF dword],
        elim conjE, rule acts_then [OF acts_set_logic], rule yields_mono [OF yields_logic])
      (simp add: isp_actions_def nb)
qed

section \<open>The history of a run\<close>

text \<open>
  From history \<open>h\<close> to \<open>h'\<close>: the controller saw complete cycles, whatever its state before, and
  the chip went from the idle mode \<open>k\<close> to \<open>k'\<close> with the actions \<open>d\<close>.
\<close>

definition chip_log :: "int \<Rightarrow> history \<Rightarrow> history \<Rightarrow> mode \<Rightarrow> mode \<Rightarrow> flash_act list \<Rightarrow> bool" where
  "chip_log fd h h' k k' d \<longleftrightarrow> (\<exists>evs cycles. h' = h @ evs \<and> (\<forall>c. \<exists>c'. interp (fl_event fd) evs c = Some (c', cycles)) \<and>
     interp chip_step cycles (Idle k) = Some (Idle k', d))"

lemma chip_log_trans:
  assumes "chip_log fd h h1 k k1 d1" and "chip_log fd h1 h2 k1 k2 d2"
  shows "chip_log fd h h2 k k2 (d1 @ d2)"
proof -
  obtain e1 a1 where 1: "h1 = h @ e1" "\<forall>c. \<exists>c'. interp (fl_event fd) e1 c = Some (c', a1)" "interp chip_step a1 (Idle k) = Some (Idle k1, d1)"
    using assms(1) by (auto simp: chip_log_def)
  obtain e2 a2 where 2: "h2 = h1 @ e2" "\<forall>c. \<exists>c'. interp (fl_event fd) e2 c = Some (c', a2)" "interp chip_step a2 (Idle k1) = Some (Idle k2, d2)"
    using assms(2) by (auto simp: chip_log_def)
  have "\<exists>c'. interp (fl_event fd) (e1 @ e2) c = Some (c', a1 @ a2)" for c
  proof -
    from 1(2) obtain c1 where c1: "interp (fl_event fd) e1 c = Some (c1, a1)" by blast
    from 2(2) obtain c2 where c2: "interp (fl_event fd) e2 c1 = Some (c2, a2)" by blast
    from interp_append [OF c1 c2] show ?thesis by blast
  qed
  moreover have "interp chip_step (a1 @ a2) (Idle k) = Some (Idle k2, d1 @ d2)" by (rule interp_append [OF 1(3) 2(3)])
  ultimately show ?thesis unfolding chip_log_def 1(1) 2(1) by auto
qed

lemma chip_log_silent: "(\<And>c. fl_event fd e c = Some (c, [])) \<Longrightarrow> chip_log fd h (h @ [e]) k k []"
  unfolding chip_log_def by (rule exI [of _ "[e]"], rule exI [of _ "[]"]) simp

lemma yields_run:
  assumes "yields fd (vmap s, ram s) m Q" and "mapped fd s" and "m s = Some (Ok v, t)"
  shows "\<exists>k' d. chip_log fd (trace s) (trace t) k k' d \<and> Q v d \<and> mapped fd t \<and> vmap t = vmap s \<and> ram t = ram s"
proof (rule flash_runsD [OF assms(1) [unfolded yields_def chip_runs_def, rule_format, of k] assms(2) refl assms(3)])
  fix a
  assume a: "flash_log fd s t a" and "\<exists>c d. interp chip_step a (Idle k) = Some (c, d) \<and> (\<forall>w. Ok v = Ok w \<longrightarrow> (\<exists>k'. c = Idle k') \<and> Q w d)"
  then obtain k' d where d: "interp chip_step a (Idle k) = Some (Idle k', d)" "Q v d" by auto
  have "chip_log fd (trace s) (trace t) k k' d" using a d(1) by (auto simp: flash_log_def chip_log_def)
  moreover have "mapped fd t" "vmap t = vmap s" "ram t = ram s" using a assms(2) by (simp_all add: flash_log_def mapped_def)
  ultimately show ?thesis using d(2) by blast
qed

text \<open>The word that makes the card load its new configuration.\<close>

abbreviation reconfigures :: "int \<Rightarrow> event" where
  "reconfigures fd \<equiv> RegWr fd FLASH_DATA 0xC0000000"

text \<open>Programs that never write it.\<close>

definition reload_free :: "int \<Rightarrow> 'a nac \<Rightarrow> bool" where
  "reload_free fd m \<longleftrightarrow> (\<forall>s r t. m s = Some (r, t) \<longrightarrow> (\<exists>evs. trace t = trace s @ evs \<and> reconfigures fd \<notin> set evs))"

named_theorems reload_free_intros

lemma reload_freeD: "reload_free fd m \<Longrightarrow> m s = Some (r, t) \<Longrightarrow> \<exists>evs. trace t = trace s @ evs \<and> reconfigures fd \<notin> set evs"
  by (simp add: reload_free_def)

lemma reload_free_bnd [reload_free_intros]:
  assumes "reload_free fd m" and "\<And>x. reload_free fd (f x)"
  shows "reload_free fd (bnd m f)"
  unfolding reload_free_def
proof (intro allI impI)
  fix s r t
  assume "bnd m f s = Some (r, t)"
  then show "\<exists>evs. trace t = trace s @ evs \<and> reconfigures fd \<notin> set evs"
  proof (cases rule: bnd_SomeE)
    case (ok x s1)
    obtain a b where "trace s1 = trace s @ a" "reconfigures fd \<notin> set a" "trace t = trace s1 @ b" "reconfigures fd \<notin> set b"
      using reload_freeD [OF assms(1) ok(1)] reload_freeD [OF assms(2) ok(2)] by blast
    then show ?thesis by auto
  qed (use reload_freeD [OF assms(1)] in blast)+
qed

lemma reload_free_basic [reload_free_intros]:
  "reload_free fd (ret x)" "reload_free fd fault" "reload_free fd (exit_with n)" "reload_free fd (read_st g)" "reload_free fd (get_sheep f)"
  "reload_free fd (read_byte E a)"
  by (auto simp: reload_free_def get_sheep_def read_byte_def split: option.splits cell.splits)

lemma reload_free_log [reload_free_intros]: "e \<noteq> reconfigures fd \<Longrightarrow> reload_free fd (log_event e)"
  by (auto simp: reload_free_def)

lemma reload_free_if [reload_free_intros]: "reload_free fd a \<Longrightarrow> reload_free fd b \<Longrightarrow> reload_free fd (if c then a else b)"
  by simp

lemma reload_free_each [reload_free_intros]: "(\<And>x. reload_free fd (f x)) \<Longrightarrow> reload_free fd (for_each xs f)"
  by (induction xs) (auto intro!: reload_free_intros)

lemma reload_free_gather [reload_free_intros]: "(\<And>x. reload_free fd (f x)) \<Longrightarrow> reload_free fd (gather xs f)"
  by (induction xs) (auto intro!: reload_free_intros)

lemma reload_free_iterate [reload_free_intros]:
  assumes "\<And>x. reload_free fd (body x)"
  shows "reload_free fd (iterate body x)"
  unfolding reload_free_def
proof (intro allI impI)
  fix s r t
  assume run: "iterate body x s = Some (r, t)"
  let ?I = "\<lambda>u. \<exists>evs. trace u = trace s @ evs \<and> reconfigures fd \<notin> set evs"
  have b: "?I u'" if u: "?I u" and go: "body x u = Some (r', u')" for x u r' u'
  proof -
    from u obtain a where "trace u = trace s @ a" "reconfigures fd \<notin> set a" by blast
    moreover obtain c where "trace u' = trace u @ c" "reconfigures fd \<notin> set c" using reload_freeD [OF assms go] by blast
    ultimately show ?thesis by (auto intro!: exI [of _ "a @ c"])
  qed
  have "(\<lambda>(r, t). ?I t) (r, t)"
    by (rule iterate_invariant [where I = "\<lambda>_. ?I", OF run]) (use b in \<open>simp, blast+\<close>)
  then show "?I t" by simp
qed

lemma reload_free_read [reload_free_intros]: "reload_free fd (reg_read E f a)"
  unfolding reg_read_def by (intro reload_free_intros) simp

lemma reload_free_write: "a \<noteq> FLASH_DATA \<or> v \<noteq> 0xC0000000 \<Longrightarrow> reload_free fd (reg_write f a v)"
  unfolding reg_write_def by (intro reload_free_intros) auto

lemma reload_free_flash_write [reload_free_intros]: "reload_free fd (flash_write E f a d)"
proof -
  have "uint (ucast d :: u32) < 2 ^ 16" using uint_lt2p [of d] by (simp add: uint_up_ucast is_up)
  then have "(ucast d :: u32) \<noteq> 0xC0000000" by auto
  then show ?thesis
    unfolding flash_write_def flash_idle_def flash_busy_round_def
    by (intro reload_free_intros reload_free_write) (simp_all add: reg_addr_defs)
qed

lemma reload_free_flash_read [reload_free_intros]: "reload_free fd (flash_read E f a)"
  unfolding flash_read_def flash_valid_round_def by (intro reload_free_intros reload_free_write) (simp_all add: reg_addr_defs)

lemma reload_free_commands [reload_free_intros]:
  "reload_free fd (status_until E f a ok)" "reload_free fd (program_status v)" "reload_free fd (erase_status v)"
  "reload_free fd (set_config_register E f d)" "reload_free fd (clear_stats_regs E f)" "reload_free fd (gettimeofday E)" "reload_free fd (read_half E p)"
  unfolding status_until_def status_round_def program_status_def erase_status_def set_config_register_def steps.simps
    clear_stats_regs_def gettimeofday_def read_half_def
  by (intro reload_free_intros; simp)+

lemma reload_free_banks [reload_free_intros]:
  "reload_free fd (bank_unlock E f b)" "reload_free fd (bank_erase E f b)" "reload_free fd (bank_program E f b w p)"
  unfolding bank_unlock_def block_unlock_def bank_erase_def block_erase_def bank_program_def block_program_def buffer_program_def
    buffer_request_round_def buffer_word_def Let_def case_prod_beta
  by (intro reload_free_intros)+

lemma reload_free_numbers [reload_free_intros]: "reload_free fd (set_logic_num E f sn)" "reload_free fd (read_logic_num E f)" "reload_free fd (read_dword E p)"
  unfolding set_logic_num_def program_num_def block_unlock_def block_erase_def word_program_def steps.simps read_logic_num_def
    fetch_num_def read_dword_def Let_def
  by (intro reload_free_intros)+

lemma reload_free_isp: "reload_free fd (isp_program E f w nb l sm)" "reload_free fd (read_back E f fp nb l)"
  unfolding isp_program_def read_back_def read_back_bank_def fread_word_def Let_def by (intro reload_free_intros)+

lemma acts_sync_read: "acts fd M (set_config_register E fd 0x3DDF) []"
proof (rule acts_of_does [where k' = Status])
  fix k
  have "chip_does fd M (Idle k) (set_config_register E fd 0x3DDF) (Idle Status) ([] @ [] @ [])"
    unfolding set_config_register_def steps.simps
    by (rule chip_does_bnd [OF chip_does_write [where c' = "Setup 0x60"]], simp, simp,
        rule chip_does_bnd [OF chip_does_write chip_does_ret]) simp_all
  then show "chip_does fd M (Idle k) (set_config_register E fd 0x3DDF) (Idle Status) []" by simp
qed

lemma reconfig_run:
  assumes "reconfig E fd s = Some (Ok u, t)" and s: "mapped fd s"
  shows "chip_log fd (trace s) (trace t) k k []" and "\<exists>evs. trace t = trace s @ evs @ [reconfigures fd]" and "mapped fd t"
proof -
  obtain v0 s0 where v0: "reg_read E fd FLASH_ADDR s = Some (Ok v0, s0)" "polled fd v0 s s0" using polled_once [OF s] by blast
  obtain r1 s1 where it: "iterate (flash_busy_round E fd) v0 s0 = Some (r1, s1)"
    and rest: "bnd (\<lambda>_. Some (r1, s1)) (\<lambda>_. reg_write fd FLASH_DATA 0xC0000000) s0 = Some (Ok u, t)"
    using assms(1) v0(1) by (cases "iterate (flash_busy_round E fd) v0 s0") (auto simp: reconfig_def flash_idle_def bnd_assoc bnd_def)
  from poll_loop [OF it flash_busy_round_def v0(2) s] obtain v where v: "r1 = Ok ()" "v = 0" "polled fd v s s1" by auto
  then obtain evs where evs: "s1 = s\<lparr>trace := trace s @ evs\<rparr>"
    "\<And>c. interp (fl_event fd) evs c = Some (c\<lparr>free := True, valid := False\<rparr>, [])"
    by (auto simp: polled_def)
  have t: "t = s\<lparr>trace := trace s @ evs @ [reconfigures fd]\<rparr>" using rest v(1) s by (simp add: evs(1) reg_write_mapped)
  have "\<exists>c'. interp (fl_event fd) (evs @ [reconfigures fd]) c = Some (c', [])" for c
    using interp_append [OF evs(2), where ys = "[reconfigures fd]"] by simp
  then have "(\<forall>c. \<exists>c'. interp (fl_event fd) (evs @ [reconfigures fd]) c = Some (c', [])) \<and> interp chip_step [] (Idle k) = Some (Idle k, [])"
    by simp
  moreover have "trace t = trace s @ (evs @ [reconfigures fd])" by (simp add: t)
  ultimately show "chip_log fd (trace s) (trace t) k k []" unfolding chip_log_def by blast
  show "\<exists>evs. trace t = trace s @ evs @ [reconfigures fd]" by (rule exI [of _ evs]) (simp add: t)
  show "mapped fd t" using s by (simp add: t)
qed

section \<open>The comparison\<close>

lemma join_bytes: "(ucast (ucast (drop_bit 8 w) :: u8) * 256 + ucast (ucast w :: u8) :: u16) = w"
proof (rule word_uint_eqI)
  have w: "0 \<le> uint w" "uint w < 65536" using uint_lt2p [of w] by simp_all
  then have "0 \<le> uint w div 256" "uint w div 256 < 256" by (simp_all add: pos_imp_zdiv_nonneg_iff)
  then have d: "uint w div 256 mod 256 = uint w div 256" by (rule mod_pos_pos_trivial)
  have "uint (ucast (ucast (drop_bit 8 w) :: u8) :: u16) = uint w div 256" "uint (ucast (ucast w :: u8) :: u16) = uint w mod 256"
    using w by (simp_all add: uint_up_ucast is_up unsigned_ucast_eq unsigned_drop_bit_eq take_bit_eq_mod drop_bit_eq_div
        uint_div_distrib uint_mod_distrib d)
  then show "uint (ucast (ucast (drop_bit 8 w) :: u8) * 256 + ucast (ucast w :: u8) :: u16) = uint w"
    using w by (simp add: uint_word_ariths mod_add_left_eq div_mult_mod_eq)
qed

lemma word_bytes_words: "file_words (word_bytes ws @ bs) = ws @ file_words bs"
  by (induction ws) (simp_all add: word_bytes_def join_bytes)

lemma le64_words: "file_words (le64 x) = rev (sn_words x)"
proof -
  have m: "(0xffff000000000000 :: u64) = push_bit 48 (mask 16)" "(0x0000ffff00000000 :: u64) = push_bit 32 (mask 16)"
    "(0x00000000ffff0000 :: u64) = push_bit 16 (mask 16)" "(0x000000000000ffff :: u64) = mask 16"
    by (simp_all add: mask_eq_exp_minus_1)
  have half: "(ucast (ucast (drop_bit (8 + k) x) :: u8) * 256 + ucast (ucast (drop_bit k x) :: u8) :: u16) = ucast (drop_bit k x)" for k
  proof -
    have "(ucast (drop_bit (8 + k) x) :: u8) = ucast (drop_bit 8 (ucast (drop_bit k x) :: u16))"
      "(ucast (drop_bit k x) :: u8) = ucast (ucast (drop_bit k x) :: u16)"
      by (rule bit_word_eqI, simp add: bit_simps add.left_commute add.commute)+
    then show ?thesis using join_bytes [of "ucast (drop_bit k x)"] by simp
  qed
  have "file_words (le64 x) = [ucast x, ucast (drop_bit 16 x), ucast (drop_bit 32 x), ucast (drop_bit 48 x)]"
    using half [of 0] half [of 16] half [of 32] half [of 48] by (simp add: le64_def eval_nat_numeral)
  also have "\<dots> = rev (sn_words x)"
    unfolding sn_words_def m by (auto intro!: bit_word_eqI simp: bit_simps)
  finally show ?thesis .
qed

lemma length_word_bytes: "length (word_bytes ws) = 2 * length ws" "length (le64 x) = 8"
  by (induction ws) (simp_all add: word_bytes_def le64_def)

lemma sn_words_eq: "sn_words y = [w0, w1, w2, w3] \<longleftrightarrow> y = sn_join w0 w1 w2 w3"
  using sn_words_join [of y w0 w1 w2 w3] sn_words_of_join [of w0 w1 w2 w3] by auto

text \<open>The number at the end of an image of \<open>n\<close> words.\<close>

definition image_sn :: "nat \<Rightarrow> u8 list \<Rightarrow> u64" where
  "image_sn n bytes = (let w = file_words bytes in sn_join (w ! (n + 3)) (w ! (n + 2)) (w ! (n + 1)) (w ! n))"

lemma comparison:
  assumes "files path = Some bytes" and "length bytes = 2 * n + 8" and "length ws = n"
    and "files copy = Some (word_bytes ws @ le64 y)"
  shows "compare_file_order files path copy =
     Ok (if ws = map (\<lambda>k. bit_swap (file_words bytes ! k)) [0..<n] \<and> y = image_sn n bytes then 0 else - 1)"
proof -
  let ?w = "file_words bytes"
  let ?f = "\<lambda>k. if k + 4 < n + 4 then bit_swap (?w ! k) else ?w ! k"
  have len: "length (word_bytes ws @ le64 y) = 2 * n + 8" using assms(3) by (simp add: length_word_bytes)
  have split: "map ?f [0..<n + 4] = map (\<lambda>k. bit_swap (?w ! k)) [0..<n] @ [?w ! n, ?w ! (n + 1), ?w ! (n + 2), ?w ! (n + 3)]"
  proof -
    have "[0..<n + 4] = [0..<n] @ [n, n + 1, n + 2, n + 3]" by (simp add: eval_nat_numeral)
    then show ?thesis by simp
  qed
  obtain a b c d where sn: "sn_words y = [a, b, c, d]" by (simp add: sn_words_def)
  have "file_words (word_bytes ws @ le64 y) = map ?f [0..<n + 4] \<longleftrightarrow>
      ws @ rev (sn_words y) = map (\<lambda>k. bit_swap (?w ! k)) [0..<n] @ [?w ! n, ?w ! (n + 1), ?w ! (n + 2), ?w ! (n + 3)]"
    by (simp only: word_bytes_words le64_words split)
  also have "\<dots> \<longleftrightarrow> ws = map (\<lambda>k. bit_swap (?w ! k)) [0..<n] \<and> sn_words y = [?w ! (n + 3), ?w ! (n + 2), ?w ! (n + 1), ?w ! n]"
    using assms(3) by (auto simp: sn)
  also have "\<dots> \<longleftrightarrow> ws = map (\<lambda>k. bit_swap (?w ! k)) [0..<n] \<and> y = image_sn n bytes"
    unfolding sn_words_eq image_sn_def Let_def ..
  finally have key: "file_words (word_bytes ws @ le64 y) = map ?f [0..<n + 4] \<longleftrightarrow>
      ws = map (\<lambda>k. bit_swap (?w ! k)) [0..<n] \<and> y = image_sn n bytes" .
  have "length bytes div 2 = n + 4" using assms(2) by simp
  then show ?thesis
    using compare_accepts [of files path copy] assms(1,2,4) len key by simp
qed

section \<open>The whole update\<close>

lemma lib_Ok: "lib m s = Some (Ok v, t) \<longleftrightarrow> (\<exists>u. m (mc s) = Some (Ok v, u) \<and> t = s\<lparr>mc := u\<rparr>)"
  by (auto simp: lib_def split: option.splits)

lemma say_run [simp]: "say x s = Some (Ok (), s\<lparr>out := out s @ [x]\<rparr>)"
  by (simp add: say_def)

lemma isp_verify_run:
  assumes "isp_verify E fd path s = Some (Ok u, t)" and "fs s path = Some bytes" and "length bytes = 2 * n + 8"
    and "length ws = n" and "fs s ''read_flash'' = Some (word_bytes ws @ le64 y)" and m: "mapped fd (mc s)"
  shows "\<exists>k' evs. chip_log fd (trace (mc s)) (trace (mc t)) k k' [] \<and> trace (mc t) = trace (mc s) @ evs \<and>
     (reconfigures fd \<in> set evs \<longleftrightarrow> ws = map (\<lambda>k. bit_swap (file_words bytes ! k)) [0..<n] \<and> y = image_sn n bytes)"
proof (cases "ws = map (\<lambda>k. bit_swap (file_words bytes ! k)) [0..<n] \<and> y = image_sn n bytes")
  case False
  then have "t = s\<lparr>out := out s @ [Msg ''Verify Error, please reconfig!'']\<rparr>"
    using assms(1) comparison [OF assms(2-5)] by (auto simp: isp_verify_def)
  then have "chip_log fd (trace (mc s)) (trace (mc t)) k k [] \<and> trace (mc t) = trace (mc s) @ []"
    by (auto simp: chip_log_def intro!: exI [of _ "[]"])
  with False show ?thesis by fastforce
next
  case True
  obtain s1 s2 s3 where
    s1: "set_config_register E fd 0x3DDF (mc s) = Some (Ok (), s1)" and
    s2: "reconfig E fd s1 = Some (Ok (), s2)" and s3: "mc t = s2\<lparr>trace := trace s2 @ [Clock (clock_at E (trace s2))]\<rparr>"
    using assms(1) comparison [OF assms(2-5)] True
    by (fastforce simp: isp_verify_def bnd_Ok_iff lib_Ok gettimeofday_def)
  obtain k1 where k1: "chip_log fd (trace (mc s)) (trace s1) k k1 []" "mapped fd s1"
    using yields_run [OF acts_sync_read m s1, of k] by blast
  note r = reconfig_run [OF s2 k1(2)]
  have c: "chip_log fd (trace s2) (trace (mc t)) k1 k1 []" unfolding s3 by (simp add: chip_log_silent)
  obtain e1 where e1: "trace s1 = trace (mc s) @ e1" using reload_freeD [OF reload_free_commands(4) s1] by blast
  obtain e2 where e2: "trace s2 = trace s1 @ e2 @ [reconfigures fd]" using r(2) by blast
  have "trace (mc t) = trace (mc s) @ (e1 @ e2 @ [reconfigures fd, Clock (clock_at E (trace s2))])" unfolding s3 using e1 e2 by simp
  moreover have "chip_log fd (trace (mc s)) (trace (mc t)) k k1 []"
    using chip_log_trans [OF chip_log_trans [OF k1(1) r(1)] c] by simp
  ultimately show ?thesis using True by (intro exI [of _ k1] exI [of _ "e1 @ e2 @ [reconfigures fd, Clock (clock_at E (trace s2))]"]) auto
qed

lemma open_file_run:
  assumes "open_file E (Some path) s = Some (Ok (Some (f, p, bytes)), t)"
  shows "t = s\<lparr>mc := (mc s)\<lparr>trace := trace (mc s) @ [SysOpen path (Some f)]\<rparr>\<rparr>" and "p = path" and "fs s path = Some bytes"
  using assms by (auto simp: open_file_def bnd_Ok_iff lib_Ok split: option.splits if_splits)

lemma isp_update_steps:
  assumes "isp_update E F fd f path w nb l sm s = Some (Ok v, t)"
  obtains m1 x ws y m2 s4 s5 u where "v = 0" and "isp_program E fd w nb l sm (mc s) = Some (Ok x, m1)"
    and "read_back E fd (create_ok F) nb l (m1\<lparr>trace := trace m1 @ [SysClose f]\<rparr>) = Some (Ok (ws, y), m2)"
    and "mc s4 = m2" and "fs s4 = (if create_ok F then (fs s)(''read_flash'' \<mapsto> []) else fs s)(''read_flash'' \<mapsto> word_bytes ws @ le64 y)"
    and "isp_verify E fd path s4 = Some (Ok u, s5)" and "mc t = (mc s5)\<lparr>trace := trace (mc s5) @ [SysClose fd]\<rparr>"
proof -
  obtain x s1 where 1: "lib (isp_program E fd w nb l sm) s = Some (Ok x, s1)" and
    go: "bnd (say (Num x)) (\<lambda>_.
     bnd (lib (sys_close E f)) (\<lambda>_.
     bnd (modify (\<lambda>s. if create_ok F then s\<lparr>fs := (fs s)(''read_flash'' \<mapsto> [])\<rparr> else s)) (\<lambda>_.
     bnd (lib (read_back E fd (create_ok F) nb l)) (\<lambda>(ws, sn_logic).
     bnd (modify (\<lambda>s. s\<lparr>fs := (fs s)(''read_flash'' \<mapsto> word_bytes ws @ le64 sn_logic)\<rparr>)) (\<lambda>_.
     bnd (isp_verify E fd path) (\<lambda>_.
     bnd (lib (sys_close E fd)) (\<lambda>_. ret 0))))))) s1 = Some (Ok v, t)"
    using assms unfolding isp_update_def by (rule bnd_OkE) (rule that)
  obtain m1 where m1: "isp_program E fd w nb l sm (mc s) = Some (Ok x, m1)" "s1 = s\<lparr>mc := m1\<rparr>" using 1 by (auto simp: lib_Ok)
  define s2 where "s2 = (let u = s\<lparr>out := out s @ [Num x], mc := m1\<lparr>trace := trace m1 @ [SysClose f]\<rparr>\<rparr>
    in if create_ok F then u\<lparr>fs := (fs u)(''read_flash'' \<mapsto> [])\<rparr> else u)"
  have "bnd (lib (read_back E fd (create_ok F) nb l)) (\<lambda>(ws, sn_logic).
     bnd (modify (\<lambda>s. s\<lparr>fs := (fs s)(''read_flash'' \<mapsto> word_bytes ws @ le64 sn_logic)\<rparr>)) (\<lambda>_.
     bnd (isp_verify E fd path) (\<lambda>_.
     bnd (lib (sys_close E fd)) (\<lambda>_. ret 0)))) s2 = Some (Ok v, t)"
    using go by (cases "create_ok F") (simp_all add: m1(2) lib_def s2_def Let_def)
  then obtain r s3 where 3: "lib (read_back E fd (create_ok F) nb l) s2 = Some (Ok r, s3)" and
    go2: "(case r of (ws, sn_logic) \<Rightarrow> bnd (modify (\<lambda>s. s\<lparr>fs := (fs s)(''read_flash'' \<mapsto> word_bytes ws @ le64 sn_logic)\<rparr>)) (\<lambda>_.
     bnd (isp_verify E fd path) (\<lambda>_. bnd (lib (sys_close E fd)) (\<lambda>_. ret 0)))) s3 = Some (Ok v, t)"
    by (rule bnd_OkE) (rule that)
  obtain ws y where r: "r = (ws, y)" by (cases r)
  obtain m2 where m2: "read_back E fd (create_ok F) nb l (mc s2) = Some (Ok (ws, y), m2)" "s3 = s2\<lparr>mc := m2\<rparr>"
    using 3 by (auto simp: lib_Ok r)
  define s4 where "s4 = s3\<lparr>fs := (fs s3)(''read_flash'' \<mapsto> word_bytes ws @ le64 y)\<rparr>"
  have "bnd (isp_verify E fd path) (\<lambda>_. bnd (lib (sys_close E fd)) (\<lambda>_. ret 0)) s4 = Some (Ok v, t)"
    using go2 by (simp add: r s4_def)
  then obtain u s5 where 5: "isp_verify E fd path s4 = Some (Ok u, s5)" "bnd (lib (sys_close E fd)) (\<lambda>_. ret 0) s5 = Some (Ok v, t)"
    by (rule bnd_OkE) (rule that)
  have "v = 0" "mc t = (mc s5)\<lparr>trace := trace (mc s5) @ [SysClose fd]\<rparr>" using 5(2) by (auto simp: lib_def)
  then show thesis
    using that [of x m1 ws y m2 s4 u s5] m1(1) m2 5(1) by (cases "create_ok F") (simp_all add: s4_def s2_def Let_def)
qed

lemma do_isp_steps:
  assumes run: "do_isp E F fd (Some path) s = Some (Ok 0, t)" and bytes: "fs s path = Some bytes"
    and len: "length bytes = 2 * n + 8" and n: "n \<le> 14 * 524288"
  obtains need l f sm m1 where "parts (of_nat n) BANK_SIZE_W = (need, l)"
    and "mmap_file E f bytes ((mc s)\<lparr>trace := trace (mc s) @ [Clock (clock_at E (trace (mc s))), SysOpen path (Some f)]\<rparr>) = Some (Ok (Some sm), m1)"
    and "isp_update E F fd f path (of_nat n) (ucast need) l sm (s\<lparr>mc := m1\<rparr>) = Some (Ok 0, t)"
proof -
  let ?fs = "of_nat (length bytes) :: u32"
  have "length bytes < 2 ^ 32" using len n by simp
  then have "unat ?fs = length bytes" by (simp add: unat_of_nat)
  then have fsz: "unat ?fs = 2 * n + 8" by (simp only: len)
  have even: "?fs mod 2 = 0" using fsz by (simp add: word_unat_eq_iff unat_mod)
  have "?fs - 8 = of_nat (2 * n)" unfolding len by simp
  moreover have "unat (of_nat (2 * n) :: u32) = 2 * n" using n by (simp add: unat_of_nat del: of_nat_mult)
  moreover have "unat (of_nat n :: u32) = n" using n by (simp add: unat_of_nat)
  ultimately have w: "(?fs - 8) div 2 = of_nat n" by (simp add: word_unat_eq_iff unat_div del: of_nat_mult)
  obtain need l where parts: "parts (of_nat n) BANK_SIZE_W = (need, l)" by fastforce
  let ?s1 = "s\<lparr>mc := (mc s)\<lparr>trace := trace (mc s) @ [Clock (clock_at E (trace (mc s)))]\<rparr>\<rparr>"
  have clock: "lib (gettimeofday E) s = Some (Ok (clock_at E (trace (mc s))), ?s1)" by (simp add: lib_def gettimeofday_def)
  obtain r s2 where r: "open_file E (Some path) ?s1 = Some (Ok r, s2)" and
    go: "(case r of None \<Rightarrow> ret (- 1) | Some (binfd, path, bytes) \<Rightarrow> isp_file E F fd binfd path bytes) s2 = Some (Ok 0, t)"
    using run unfolding do_isp_def bnd_Ok [where m = "lib (gettimeofday E)", OF clock] by (rule bnd_OkE) (rule that)
  from go obtain f p b where r': "r = Some (f, p, b)" by (cases r) auto
  note op = open_file_run [OF r [unfolded r']]
  have pb: "p = path" "b = bytes" using op(2,3) bytes by simp_all
  have "isp_file E F fd f path bytes s2 = Some (Ok 0, t)" using go by (simp add: r' pb)
  then have "bnd (lib (mmap_file E f bytes)) (\<lambda>m. case m of None \<Rightarrow> exit_with 1
      | Some sm \<Rightarrow> isp_update E F fd f path (of_nat n) (ucast need) l sm) s2 = Some (Ok 0, t)"
    by (simp add: isp_file_def Let_def even w parts split: if_splits)
  then obtain m s3 where m: "lib (mmap_file E f bytes) s2 = Some (Ok m, s3)" and
    go2: "(case m of None \<Rightarrow> exit_with 1 | Some sm \<Rightarrow> isp_update E F fd f path (of_nat n) (ucast need) l sm) s3 = Some (Ok 0, t)"
    by (rule bnd_OkE) (rule that)
  from go2 obtain sm where sm: "m = Some sm" by (cases m) auto
  obtain m1 where "mmap_file E f bytes (mc s2) = Some (Ok (Some sm), m1)" "s3 = s2\<lparr>mc := m1\<rparr>" using m by (auto simp: lib_Ok sm)
  then show thesis using that [OF parts, of f sm m1] go2 op(1) by (simp add: sm)
qed

lemma append_events: "h1 = h @ a \<Longrightarrow> x \<notin> set a \<Longrightarrow> h2 = h1 @ b \<Longrightarrow> x \<notin> set b \<Longrightarrow> \<exists>e. h2 = h @ e \<and> x \<notin> set e"
  by auto

text \<open>Everything before the verification, from the state \<open>m1\<close> in which the image is mapped.\<close>

lemma isp_flash_run:
  assumes n: "0 < n" "n \<le> 14 * 524288" and parts: "parts (of_nat n) BANK_SIZE_W = (need, l)"
    and m: "mapped fd m1" and data: "\<And>k. k < n + 4 \<Longrightarrow> half_at (vmap m1, ram m1) (sm + 2 * of_nat k) = Some (w k)"
    and prog: "isp_program E fd (of_nat n) (ucast need) l sm m1 = Some (Ok x, m2)"
    and reads: "read_back E fd ok (ucast need) l (m2\<lparr>trace := trace m2 @ [SysClose f]\<rparr>) = Some (Ok (ws, y), m3)"
  shows "\<exists>k. chip_log fd (trace m1) (trace m3) Array k (isp_actions n w (sn_join (w (n + 3)) (w (n + 2)) (w (n + 1)) (w n)) @
       map2 Shown logic_words (sn_words x) @ shown 0 ws @ map2 Shown logic_words (sn_words y))"
    and "length ws = n" and "mapped fd m3" and "\<exists>e. trace m3 = trace m1 @ e \<and> reconfigures fd \<notin> set e"
proof -
  obtain q where q: "n = 524288 * q + unat l" "0 < unat l" "unat l \<le> 524288" "q < 14"
    "unat (ucast need :: u8) = Suc q" "ucast need - 1 = (of_nat q :: u8)" "Suc q = (n + 524287) div 524288"
    using image_parts [OF n parts] by metis
  let ?m = "m2\<lparr>trace := trace m2 @ [SysClose f]\<rparr>"
  obtain k1 d1 where 1: "chip_log fd (trace m1) (trace m2) Array k1 d1"
    "d1 = isp_actions n w (sn_join (w (n + 3)) (w (n + 2)) (w (n + 1)) (w n)) @ map2 Shown logic_words (sn_words x)" "mapped fd m2"
    using yields_run [OF yields_isp_program [OF q data] m prog] by blast
  have m': "mapped fd ?m" using 1(3) by simp
  have c: "chip_log fd (trace m2) (trace ?m) k1 k1 []" by (simp add: chip_log_silent)
  obtain k2 d2 where 2: "chip_log fd (trace ?m) (trace m3) k1 k2 d2" "length ws = n"
    "d2 = shown 0 ws @ map2 Shown logic_words (sn_words y)" "mapped fd m3"
    using yields_run [OF yields_read_back [OF q(1,3-6)] m' reads, of k1] by auto
  have "chip_log fd (trace m1) (trace m3) Array k2 ((d1 @ []) @ d2)"
    by (rule chip_log_trans [OF chip_log_trans [OF 1(1) c] 2(1)])
  then show "\<exists>k. chip_log fd (trace m1) (trace m3) Array k (isp_actions n w (sn_join (w (n + 3)) (w (n + 2)) (w (n + 1)) (w n)) @
       map2 Shown logic_words (sn_words x) @ shown 0 ws @ map2 Shown logic_words (sn_words y))"
    unfolding 1(2) 2(3) by (intro exI [of _ k2]) simp
  show "length ws = n" "mapped fd m3" by (fact 2)+
  obtain e1 where e1: "trace m2 = trace m1 @ e1" "reconfigures fd \<notin> set e1" using reload_freeD [OF reload_free_isp(1) prog] by blast
  obtain e2 where "trace m3 = trace ?m @ e2" "reconfigures fd \<notin> set e2" using reload_freeD [OF reload_free_isp(2) reads] by blast
  with e1 show "\<exists>e. trace m3 = trace m1 @ e \<and> reconfigures fd \<notin> set e" by auto
qed

text \<open>
  C7. The update of the flash reports nothing that it has not read back. On a mapped card, for
  an image of \<open>n\<close> words and the eight bytes of a number: if \<open>do_isp\<close> returns 0, then the chip,
  starting idle, received complete commands that erased the blocks of the banks, programmed the
  image word for word, with its bits swapped, and then the number into bank 14, showed the number
  \<open>x\<close>, and then, in order, the words \<open>ws\<close> of the whole image area and the number \<open>y\<close>. And the
  word that makes the card load the new configuration was written if and only if what was shown
  is exactly what the file holds.
\<close>

theorem isp_verified:
  assumes "mapped fd (mc s)" and "fs s path = Some bytes" and "path \<noteq> ''read_flash''"
    and "length bytes = 2 * n + 8" and "0 < n" and "n \<le> 14 * 524288"
    and "do_isp E F fd (Some path) s = Some (Ok 0, t)"
  shows "\<exists>evs cycles m x ws y. trace (mc t) = trace (mc s) @ evs \<and>
     (\<forall>c. \<exists>c'. interp (fl_event fd) evs c = Some (c', cycles)) \<and>
     interp chip_step cycles (Idle Array) = Some (Idle m,
       isp_actions n (\<lambda>k. file_words bytes ! k) (image_sn n bytes) @ map2 Shown logic_words (sn_words x) @
       shown 0 ws @ map2 Shown logic_words (sn_words y)) \<and>
     length ws = n \<and>
     (RegWr fd FLASH_DATA 0xC0000000 \<in> set evs \<longleftrightarrow>
        ws = map (\<lambda>k. bit_swap (file_words bytes ! k)) [0..<n] \<and> y = image_sn n bytes)"
proof -
  obtain need l f sm m1 where parts: "parts (of_nat n) BANK_SIZE_W = (need, l)"
    and mm: "mmap_file E f bytes ((mc s)\<lparr>trace := trace (mc s) @ [Clock (clock_at E (trace (mc s))), SysOpen path (Some f)]\<rparr>) = Some (Ok (Some sm), m1)"
    and upd: "isp_update E F fd f path (of_nat n) (ucast need) l sm (s\<lparr>mc := m1\<rparr>) = Some (Ok 0, t)"
    by (rule do_isp_steps [OF assms(7,2,4,6)])
  obtain x m2 ws y m3 s4 s5 u where
    prog: "isp_program E fd (of_nat n) (ucast need) l sm m1 = Some (Ok x, m2)" and
    reads: "read_back E fd (create_ok F) (ucast need) l (m2\<lparr>trace := trace m2 @ [SysClose f]\<rparr>) = Some (Ok (ws, y), m3)" and
    s4: "mc s4 = m3" "fs s4 = (if create_ok F then (fs s)(''read_flash'' \<mapsto> []) else fs s)(''read_flash'' \<mapsto> word_bytes ws @ le64 y)" and
    ver: "isp_verify E fd path s4 = Some (Ok u, s5)" and t: "mc t = (mc s5)\<lparr>trace := trace (mc s5) @ [SysClose fd]\<rparr>"
    by (rule isp_update_steps [OF upd]) simp
  have len: "length bytes < 2 ^ 32" using assms(4,6) by simp
  note mr = mmap_file_run [OF mm len]
  have m1: "mapped fd m1" using assms(1) mr(1) by (simp add: mapped_def)
  have "n + 4 = length bytes div 2" using assms(4) by simp
  then have data: "k < n + 4 \<Longrightarrow> half_at (vmap m1, ram m1) (sm + 2 * of_nat k) = Some (file_words bytes ! k)" for k
    using mr(3) by simp
  note fl = isp_flash_run [OF assms(5,6) parts m1 data prog reads]
  have files: "fs s4 path = Some bytes" "fs s4 ''read_flash'' = Some (word_bytes ws @ le64 y)"
    using assms(2,3) by (simp_all add: s4(2))
  obtain k1 where k1: "chip_log fd (trace m1) (trace m3) Array k1 (isp_actions n (\<lambda>k. file_words bytes ! k) (image_sn n bytes) @
       map2 Shown logic_words (sn_words x) @ shown 0 ws @ map2 Shown logic_words (sn_words y))"
    using fl(1) unfolding image_sn_def Let_def by blast
  obtain k2 ev where k2: "chip_log fd (trace m3) (trace (mc s5)) k1 k2 []" "trace (mc s5) = trace m3 @ ev"
    "reconfigures fd \<in> set ev \<longleftrightarrow> ws = map (\<lambda>k. bit_swap (file_words bytes ! k)) [0..<n] \<and> y = image_sn n bytes"
    using isp_verify_run [OF ver files(1) assms(4) fl(2) files(2), of k1] fl(3) unfolding s4(1) by blast
  let ?e0 = "[Clock (clock_at E (trace (mc s))), SysOpen path (Some f), MMap f 0 (of_nat (length bytes)) 0 (Some sm)]"
  have h1: "trace m1 = trace (mc s) @ ?e0" using mr(2) by simp
  have 0: "chip_log fd (trace (mc s)) (trace m1) Array Array []"
    unfolding chip_log_def by (rule exI [of _ ?e0], rule exI [of _ "[]"]) (simp add: h1)
  have 3: "chip_log fd (trace (mc s5)) (trace (mc t)) k2 k2 []" by (simp add: t chip_log_silent)
  note all = chip_log_trans [OF chip_log_trans [OF chip_log_trans [OF 0 k1] k2(1)] 3]
  obtain e where e: "trace m3 = trace m1 @ e" "reconfigures fd \<notin> set e" using fl(4) by blast
  from all obtain evs cycles where a: "trace (mc t) = trace (mc s) @ evs"
    "\<forall>c. \<exists>c'. interp (fl_event fd) evs c = Some (c', cycles)"
    "interp chip_step cycles (Idle Array) = Some (Idle k2, (([] @ (isp_actions n (\<lambda>k. file_words bytes ! k) (image_sn n bytes) @
       map2 Shown logic_words (sn_words x) @ shown 0 ws @ map2 Shown logic_words (sn_words y))) @ []) @ [])"
    unfolding chip_log_def by blast
  have "evs = ?e0 @ e @ ev @ [SysClose fd]" using a(1) by (simp add: t k2(2) e(1) h1)
  then have "reconfigures fd \<in> set evs \<longleftrightarrow> reconfigures fd \<in> set ev" using e(2) by auto
  then have iff: "reconfigures fd \<in> set evs \<longleftrightarrow> ws = map (\<lambda>k. bit_swap (file_words bytes ! k)) [0..<n] \<and> y = image_sn n bytes"
    using k2(3) by simp
  show ?thesis
    by (rule exI [of _ evs], rule exI [of _ cycles], rule exI [of _ k2], rule exI [of _ x], rule exI [of _ ws], rule exI [of _ y])
      (use a iff fl(2) in simp)
qed

text \<open>The update of a card with the concrete chip, from a file of one zero word and the number 0.\<close>

lemma does_clock: "(\<And>v. does d (f v) w d2) \<Longrightarrow> does d (bnd (gettimeofday E) f) w d2"
  by (simp add: does_def gettimeofday_def)

lemma does_config: "does d (set_config_register (chip_env g) 3 0xBDDF) () 3" "does d (set_config_register (chip_env g) 3 0x3DDF) () 3"
  unfolding set_config_register_def steps.simps by (rule does_intros | simp)+

lemma does_clear: "does d (clear_stats_regs (chip_env g) 3) () 0x50"
  unfolding clear_stats_regs_def by (rule does_intros | simp)+


lemma first_blocks: "i < 8 \<Longrightarrow> block_addr 0 (of_nat i) \<le> 0x7FFFFF \<and> block_addr 0 (of_nat i) + 2 \<le> 0x7FFFFF"
proof -
  assume "i < 8"
  then have "i \<in> {0, 1, 2, 3, 4, 5, 6, 7}" by auto
  then show ?thesis by (auto simp: block_addr_def)
qed

lemma does_unlock: "does d (bank_unlock flash_env 3 0) () 0x90"
proof -
  have "does d (block_unlock flash_env 3 0 (of_nat i)) () 0x90" if "i < 8" for i d
    unfolding block_unlock_def using first_blocks [OF that]
    by (intro does_bnd [OF does_write] does_bnd [OF does_read]) (auto simp: does_ret simp del: ret_apply)
  then show ?thesis unfolding bank_unlock_def by (intro does_each) auto
qed

lemma does_erase_bank: "does d (bank_erase flash_env 3 0) () 0xD0"
proof -
  have "does d (block_erase flash_env 3 0 (of_nat i)) () 0xD0" if "i < 8" for i d
    unfolding block_erase_def
    by (rule does_bnd [OF does_write], simp, simp, rule does_bnd [OF does_write], simp add: first_blocks [OF that], simp,
        rule does_bnd [OF does_status [where v = "0x80"]], simp, simp, simp add: SR_bit_def bit_iff_odd, rule does_erase)
  then show ?thesis unfolding bank_erase_def by (intro does_each) auto
qed

lemma does_logic: "does d (read_logic_num flash_env 3) 0 0xFF"
proof -
  have z: "sn_join 0 0 0 0 = 0" by (simp add: sn_join_def)
  show ?thesis
    unfolding read_logic_num_def fetch_num_def Let_def BANK_SIZE_W_def
    by (rule does_bnd [OF does_config(1)], rule does_bnd [OF does_clear], rule does_bnd [OF does_write], simp, simp,
        (rule does_bnd [OF does_read], simp)+) (simp add: z does_ret del: ret_apply)
qed

lemma does_isp_program: "does d (isp_program flash_env 3 1 1 1 p) 0 0xFF"
proof -
  have one: "unat (1 :: u8) = 1" "[0..<1] = [0]" "(1 :: u8) - 1 = 0" by simp_all
  have dword: "does d (read_dword flash_env q) 0 d" for d q
    unfolding read_dword_def by (rule does_intros | simp)+
  have unlock: "does d (for_each [0..<1] (\<lambda>i. bank_unlock flash_env 3 (of_nat i))) () 0x90" for d
    using does_unlock by (intro does_each) auto
  have erase: "does d (for_each [0..<1] (\<lambda>i. bank_erase flash_env 3 (of_nat i))) () 0xD0" for d
    using does_erase_bank by (intro does_each) auto
  have none: "does d (for_each [0..<1 - 1] f) () d" for d and f :: "nat \<Rightarrow> unit nac" by (simp add: does_ret del: ret_apply)
  show ?thesis
    unfolding isp_program_def one(1,3)
    by (rule does_bnd [OF does_config(1)], rule does_bnd [OF does_clear], rule does_bnd [OF unlock], rule does_clock,
        rule does_bnd [OF erase], rule does_clock, rule does_clock, rule does_bnd [OF none],
        rule does_bnd [OF bank_program_demo], rule does_clock, rule does_bnd [OF dword], rule does_bnd [OF set_logic_num_demo],
        rule does_logic)
qed

lemma does_read_back: "does d (read_back flash_env 3 True 1 1) ([0], 0) 0xFF"
proof -
  have one: "unat (1 :: u8) = 1" "unat (1 :: u32) = 1" "(1 :: u8) - 1 = 0" by simp_all
  have bank: "does d (read_back_bank flash_env 3 True 0 (Suc 0)) [0] 0xFF" for d
    unfolding read_back_bank_def Let_def fread_word_def
    by (simp add: BANK_SIZE_W_def bnd_assoc del: ret_apply) (rule does_intros | simp del: ret_apply)+
  show ?thesis
    unfolding read_back_def Let_def one
    by (simp add: BANK_SIZE_W_def) (rule does_bnd [OF bank], rule does_bnd [OF does_logic], simp add: does_ret del: ret_apply)
qed

lemma does_reconfig: "does d (reconfig flash_env 3) () 0xC0000000"
  by (simp add: does_def reconfig_def flash_idle_def flash_busy_round_def iterate_leave mapped_runs chip_env_def reg_addr_defs)


lemma does_at:
  assumes "does d m v d'" and "mapped 3 s" "vmap s = Priv" "ram s = (\<lambda>_. 0)" "\<not> asks (rev (trace s))" "last_data (rev (trace s)) = d"
  obtains t where "m s = Some (Ok v, t)" "mapped 3 t" "vmap t = Priv" "ram t = (\<lambda>_. 0)" "\<not> asks (rev (trace t))" "last_data (rev (trace t)) = d'"
  using assms unfolding does_def by blast

definition demo_tool :: tool_st where
  "demo_tool = \<lparr>mc = demo_mach, stdin = [], fs = [''image'' \<mapsto> replicate 10 0], out = []\<rparr>"

abbreviation all_fine :: file_env where
  "all_fine \<equiv> \<lparr>fstat_ok = True, create_ok = True, append_ok = True\<rparr>"

lemma isp_demo: "\<exists>t. do_isp flash_env all_fine 3 (Some ''image'') demo_tool = Some (Ok 0, t)"
proof -
  let ?m0 = "demo_mach\<lparr>trace := [Clock (0, 0), SysOpen ''image'' (Some 3), MMap 3 0 10 0 (Some 0x7f1000000000)],
    vmap := map_range 0x7f1000000000 10 (\<lambda>i. Priv (0x7f1000000000 + i)) Priv\<rparr>"
  have v: "map_range a n (\<lambda>i. Priv (a + i)) Priv = Priv" for a n by (auto simp: map_range_def)
  have zero: "x - a < 10 \<Longrightarrow> replicate 10 (0 :: u8) ! unat (x - a) = 0" for x a :: u64
    by (rule nth_replicate) (simp add: word_less_nat_alt)
  have map: "mmap_file flash_env 3 (replicate 10 0) (demo_mach\<lparr>trace := [Clock (0, 0), SysOpen ''image'' (Some 3)]\<rparr>) =
      Some (Ok (Some 0x7f1000000000), ?m0)"
    unfolding mmap_file_def Let_def
    by (simp add: chip_env_def demo_env_def demo_mach_def fun_eq_iff zero split: cell.split)
  obtain m1 where m1: "isp_program flash_env 3 1 1 1 0x7f1000000000 ?m0 = Some (Ok 0, m1)" "mapped 3 m1" "vmap m1 = Priv"
    "ram m1 = (\<lambda>_. 0)" "\<not> asks (rev (trace m1))" "last_data (rev (trace m1)) = 0xFF"
    by (rule does_at [OF does_isp_program, where s = "?m0"]) (use demo_mapped in \<open>auto simp: v demo_mach_def mapped_def\<close>)
  let ?m1 = "m1\<lparr>trace := trace m1 @ [SysClose 3]\<rparr>"
  obtain m2 where m2: "read_back flash_env 3 True 1 1 ?m1 = Some (Ok ([0], 0), m2)" "mapped 3 m2" "vmap m2 = Priv"
    "ram m2 = (\<lambda>_. 0)" "\<not> asks (rev (trace m2))" "last_data (rev (trace m2)) = 0xFF"
    by (rule does_at [OF does_read_back, where s = "?m1"]) (use m1 in \<open>auto simp: mapped_def\<close>)
  obtain m3 where m3: "set_config_register flash_env 3 0x3DDF m2 = Some (Ok (), m3)" "mapped 3 m3" "vmap m3 = Priv"
    "ram m3 = (\<lambda>_. 0)" "\<not> asks (rev (trace m3))" "last_data (rev (trace m3)) = 3"
    by (rule does_at [OF does_config(2), where s = m2]) (use m2 in auto)
  obtain m4 where m4: "reconfig flash_env 3 m3 = Some (Ok (), m4)"
    by (rule does_at [OF does_reconfig, where s = m3]) (use m3 in auto)
  let ?s1 = "demo_tool\<lparr>mc := demo_mach\<lparr>trace := [Clock (0, 0), SysOpen ''image'' (Some 3)]\<rparr>\<rparr>"
  have parts1: "parts 1 BANK_SIZE_W = (1, 1)" by (simp add: parts_def BANK_SIZE_W_def)
  have ten: "replicate 10 (0 :: u8) = [0, 0, 0, 0, 0, 0, 0, 0, 0, 0]" by (simp add: eval_nat_numeral)
  have zero_word: "bit_swap 0 = 0" by (rule bit_word_eqI) (simp add: bit_bit_swap)
  let ?files = "(fs demo_tool)(''read_flash'' \<mapsto> word_bytes [0] @ le64 0)"
  have cmp: "compare_file_order ?files ''image'' ''read_flash'' = Ok 0"
    using comparison [of ?files "''image''" "replicate 10 0" 1 "[0]" "''read_flash''" 0]
    by (simp add: demo_tool_def image_sn_def ten sn_join_def zero_word)
  have upd: "\<exists>t. isp_update flash_env all_fine 3 3 ''image'' 1 1 1 0x7f1000000000 (demo_tool\<lparr>mc := ?m0\<rparr>) = Some (Ok 0, t)"
    using m1(1) m2(1) m3(1) m4 cmp
    by (simp add: isp_update_def isp_verify_def lib_def gettimeofday_def)
  then have run: "\<exists>t. isp_file flash_env all_fine 3 3 ''image'' (replicate 10 0) ?s1 = Some (Ok 0, t)"
    by (simp add: isp_file_def Let_def parts1 lib_def map)
  have "open_file flash_env (Some ''image'') (demo_tool\<lparr>mc := demo_mach\<lparr>trace := [Clock (0, 0)]\<rparr>\<rparr>) =
      Some (Ok (Some (3, ''image'', replicate 10 0)), ?s1)"
    by (simp add: open_file_def lib_def demo_tool_def demo_mach_def chip_env_def demo_env_def)
  then show ?thesis using run
    by (simp add: do_isp_def lib_def demo_tool_def demo_mach_def chip_env_def demo_env_def gettimeofday_def)
qed


lemma isp_verified_witness:
  "\<exists>t. do_isp flash_env all_fine 3 (Some ''image'') demo_tool = Some (Ok 0, t) \<and>
     (\<exists>evs cycles m x ws y. trace (mc t) = trace (mc demo_tool) @ evs \<and>
       (\<forall>c. \<exists>c'. interp (fl_event 3) evs c = Some (c', cycles)) \<and>
       interp chip_step cycles (Idle Array) = Some (Idle m,
         isp_actions 1 (\<lambda>k. file_words (replicate 10 0) ! k) (image_sn 1 (replicate 10 0)) @ map2 Shown logic_words (sn_words x) @
         shown 0 ws @ map2 Shown logic_words (sn_words y)) \<and>
       length ws = 1 \<and>
       (RegWr 3 FLASH_DATA 0xC0000000 \<in> set evs \<longleftrightarrow>
          ws = map (\<lambda>k. bit_swap (file_words (replicate 10 0) ! k)) [0..<1] \<and> y = image_sn 1 (replicate 10 0)))"
proof -
  obtain t where t: "do_isp flash_env all_fine 3 (Some ''image'') demo_tool = Some (Ok 0, t)" using isp_demo by blast
  have "mapped 3 (mc demo_tool)" "fs demo_tool ''image'' = Some (replicate 10 0)"
    using demo_mapped by (simp_all add: demo_tool_def)
  then show ?thesis by (intro exI [of _ t] conjI [OF t] isp_verified [OF _ _ _ _ _ _ t]) simp_all
qed

end
