(* ===== verification/ToolRuns.thy ===== *)
theory ToolRuns
  imports NacIsp
begin

text \<open>
  Sessions of nactool with what is typed: a dialogue with one of the menus is the sequence of
  the register operations typed, and the number that \<open>do_gsn\<close> takes is the one that \<open>do_isp\<close>
  reads from the same file.
\<close>

section \<open>The menus\<close>

datatype menu_cmd = Write u32 u32 u32 | Read u32 u32 | Other u32

text \<open>What is typed for a command; the register file of the FPGA has no ports.\<close>

fun typed :: "bool \<Rightarrow> menu_cmd \<Rightarrow> u64 list" where
  "typed ported (Write p a x) = [1, ucast a, ucast x] @ (if ported then [ucast p] else [])"
| "typed ported (Read p a) = [2, ucast a] @ (if ported then [ucast p] else [])"
| "typed ported (Other m) = [ucast m]"

text \<open>What the command does.\<close>

fun perform :: "(u32 \<Rightarrow> u32 \<Rightarrow> u32 \<Rightarrow> unit nac) \<Rightarrow> (u32 \<Rightarrow> u32 \<Rightarrow> u32 nac) \<Rightarrow> menu_cmd \<Rightarrow> unit tool" where
  "perform wr rd (Write p a x) = bnd (lib (wr p a x)) (\<lambda>_. bnd (lib (rd p a)) (\<lambda>y. say (Num (ucast y))))"
| "perform wr rd (Read p a) = bnd (lib (rd p a)) (\<lambda>y. say (Num (ucast y)))"
| "perform wr rd (Other m) = ret ()"

text \<open>The choices that the menu does not know, and the port 0 where none is asked for.\<close>

fun well_typed :: "bool \<Rightarrow> menu_cmd \<Rightarrow> bool" where
  "well_typed ported (Write p a x) \<longleftrightarrow> ported \<or> p = 0"
| "well_typed ported (Read p a) \<longleftrightarrow> ported \<or> p = 0"
| "well_typed ported (Other m) \<longleftrightarrow> m \<notin> {1, 2, 3}"

text \<open>Programs that do not look at the input.\<close>

definition offline :: "'a tool \<Rightarrow> bool" where
  "offline m \<longleftrightarrow> (\<forall>s xs. m (s\<lparr>stdin := xs\<rparr>) = (case m s of None \<Rightarrow> None | Some (r, t) \<Rightarrow> Some (r, t\<lparr>stdin := xs\<rparr>)))"

lemma offlineD: "offline m \<Longrightarrow> m (s\<lparr>stdin := xs\<rparr>) = (case m s of None \<Rightarrow> None | Some (r, t) \<Rightarrow> Some (r, t\<lparr>stdin := xs\<rparr>))"
  by (simp add: offline_def)

lemma offline_basic: "offline (lib m)" "offline (say x)" "offline (ret v)"
  by (simp_all add: offline_def lib_def say_def split: option.split prod.split)

lemma offline_bnd: "offline m \<Longrightarrow> (\<And>x. offline (f x)) \<Longrightarrow> offline (bnd m f)"
  by (auto simp: offline_def bnd_def split: option.splits res.splits)

lemma offline_perform: "offline (perform wr rd c)"
  by (cases c) (auto intro!: offline_bnd offline_basic simp del: ret_apply)

lemma offline_perform_all: "offline (for_each cs (perform wr rd))"
  by (induction cs) (auto intro!: offline_bnd offline_perform offline_basic simp del: ret_apply)

text \<open>What a run does, without the input that is left by one that was broken off.\<close>

definition settled :: "('a res \<times> tool_st) option \<Rightarrow> ('a res \<times> tool_st) option" where
  "settled x = (case x of None \<Rightarrow> None | Some (r, t) \<Rightarrow>
     (case r of Ok v \<Rightarrow> Some (r, t) | _ \<Rightarrow> Some (r, t\<lparr>stdin := []\<rparr>)))"

lemma settled_first:
  "offline p \<Longrightarrow> settled (bnd p (\<lambda>_. K) (s\<lparr>stdin := xs\<rparr>)) = settled (bnd p (\<lambda>_ t. K (t\<lparr>stdin := xs\<rparr>)) s)"
  by (auto simp: bnd_def settled_def offlineD split: option.split res.split)

text \<open>One round takes what is typed for a command, and does what the command does.\<close>

definition follows :: "(menu_vars + unit) tool \<Rightarrow> unit tool \<Rightarrow> tool_st \<Rightarrow> u64 list \<Rightarrow> bool" where
  "follows m p s xs \<longleftrightarrow> (case p s of None \<Rightarrow> m s = None | Some (r, t) \<Rightarrow> (case r of
       Ok _ \<Rightarrow> \<exists>v. menu v = Some 0 \<and> m s = Some (Ok (Inl v), t\<lparr>stdin := xs\<rparr>)
     | Exited n \<Rightarrow> m s = Some (Exited n, t\<lparr>stdin := xs\<rparr>)
     | Fault \<Rightarrow> m s = Some (Fault, t\<lparr>stdin := xs\<rparr>)))"

lemma typed_number [simp]: "ucast (ucast (x :: u32) :: u64) = x"
  by (rule bit_word_eqI) (simp add: bit_simps)

lemma menu_round_typed:
  assumes "well_typed ported c" and "stdin s = typed ported c @ xs"
  shows "follows (menu_round ported wr rd v) (perform wr rd c) s xs"
proof (cases c)
  case (Write p a x)
  show ?thesis
    using assms
    by (cases ported) (auto simp: Write follows_def menu_round_def scanf_def use_var_def menu_write_def lib_def bnd_def split: option.split res.split)
next
  case (Read p a)
  show ?thesis
    using assms
    by (cases ported) (auto simp: Read follows_def menu_round_def scanf_def use_var_def menu_read_def lib_def bnd_def split: option.split res.split)
next
  case (Other m)
  show ?thesis
    using assms by (auto simp: Other follows_def menu_round_def scanf_def use_var_def)
qed

lemma menu_loop:
  fixes f :: "unit \<Rightarrow> int tool"
  assumes tail: "\<And>v t. (ks = [] \<longrightarrow> menu v = Some 0) \<Longrightarrow> stdin t = ks \<Longrightarrow> bnd (iterate (menu_round ported wr rd) v) f t = K t"
    and "\<forall>c \<in> set cs. well_typed ported c" and "stdin s = concat (map (typed ported) cs) @ ks"
    and "cs = [] \<Longrightarrow> ks = [] \<longrightarrow> menu v = Some 0"
  shows "settled (bnd (iterate (menu_round ported wr rd) v) f s) = settled (bnd (for_each cs (perform wr rd)) (\<lambda>_. K) (s\<lparr>stdin := ks\<rparr>))"
  using assms(2-)
proof (induction cs arbitrary: s v)
  case Nil
  then have s: "s\<lparr>stdin := ks\<rparr> = s" by (cases s) simp
  show ?case using Nil by (simp add: s tail)
next
  case (Cons c cs)
  let ?xs = "concat (map (typed ported) cs) @ ks"
  have f: "follows (menu_round ported wr rd v) (perform wr rd c) s ?xs"
    by (rule menu_round_typed) (use Cons.prems in auto)
  have IH: "settled (bnd (iterate (menu_round ported wr rd) w) f (t\<lparr>stdin := ?xs\<rparr>)) =
      settled (bnd (for_each cs (perform wr rd)) (\<lambda>_. K) (t\<lparr>stdin := ks\<rparr>))" if "menu w = Some 0" for w t
    using Cons.IH [of "t\<lparr>stdin := ?xs\<rparr>" w] Cons.prems(1) that by simp
  note off = offlineD [OF offline_perform [of wr rd c], where s = s and xs = ks]
  show ?case
  proof (cases "perform wr rd c s")
    case None
    then show ?thesis using f off by (simp add: follows_def iterate.simps [of _ v s] bnd_def)
  next
    case (Some rt)
    then obtain r t where p: "perform wr rd c s = Some (r, t)" by (cases rt) simp
    show ?thesis
    proof (cases r)
      case (Ok u)
      then obtain w where w: "menu w = Some 0" "menu_round ported wr rd v s = Some (Ok (Inl w), t\<lparr>stdin := ?xs\<rparr>)"
        using f p by (auto simp: follows_def)
      have "bnd (iterate (menu_round ported wr rd) v) f s = bnd (iterate (menu_round ported wr rd) w) f (t\<lparr>stdin := ?xs\<rparr>)"
        using iterate_step [of "menu_round ported wr rd", OF w(2)] by (simp add: bnd_def)
      then show ?thesis using IH [OF w(1)] off by (simp add: p Ok bnd_assoc)
    qed (use f off p in \<open>auto simp: follows_def iterate.simps [of _ v s] bnd_def settled_def\<close>)
  qed
qed

text \<open>At the end of the input the choice stays 0, and the loop goes round for ever.\<close>

lemma menu_at_end:
  assumes "menu v = Some 0" and "stdin s = []"
  shows "iterate (menu_round ported wr rd) v s = None"
  by (rule iterate_hangs [where I = "\<lambda>v s. menu v = Some 0 \<and> stdin s = []"])
    (use assms in \<open>auto simp: menu_round_def scanf_def use_var_def\<close>)

text \<open>
  C25. A session with the menu of \<open>do_testreg\<close>, \<open>do_phyreg\<close>, \<open>do_pcsreg\<close> or \<open>do_macreg\<close>: if writes,
  reads and unknown choices are typed and then 3, the menu carries out exactly the typed register
  operations, in order and each write followed by a read of the same register, prints what was
  read, closes the card and returns 0, with the rest of the input left. If the input ends after
  at least one choice, it carries out the same operations and then never returns. An operation
  that breaks the process off does so in both.
\<close>

theorem menu_session:
  assumes "\<forall>c \<in> set cs. well_typed ported c"
  shows "settled (do_menu E fd ported wr rd (s\<lparr>stdin := concat (map (typed ported) cs) @ 3 # rest\<rparr>)) =
      settled (bnd (for_each cs (perform wr rd)) (\<lambda>_. bnd (lib (sys_close E fd)) (\<lambda>_. ret 0)) (s\<lparr>stdin := rest\<rparr>)) \<and>
    (cs \<noteq> [] \<longrightarrow> settled (do_menu E fd ported wr rd (s\<lparr>stdin := concat (map (typed ported) cs)\<rparr>)) =
      settled (bnd (for_each cs (perform wr rd)) (\<lambda>_ _. None) (s\<lparr>stdin := []\<rparr>)))"
proof -
  let ?T = "concat (map (typed ported) cs)" and ?p = "for_each cs (perform wr rd)"
    and ?close = "\<lambda>_ :: unit. bnd (lib (sys_close E fd)) (\<lambda>_. ret (0 :: int))"
  have "settled (do_menu E fd ported wr rd (s\<lparr>stdin := ?T @ 3 # rest\<rparr>)) =
      settled (bnd ?p (\<lambda>_ t. ?close () (t\<lparr>stdin := rest\<rparr>)) (s\<lparr>stdin := 3 # rest\<rparr>))"
    using menu_loop [of "3 # rest" ported wr rd ?close "\<lambda>t. ?close () (t\<lparr>stdin := rest\<rparr>)" cs "s\<lparr>stdin := ?T @ 3 # rest\<rparr>" unset] assms
    by (simp add: do_menu_def bnd_def iterate_leave menu_round_def scanf_def use_var_def)
  also have "\<dots> = settled (bnd ?p ?close (s\<lparr>stdin := rest\<rparr>))"
    by (simp add: settled_first [OF offline_perform_all])
  finally have 1: "settled (do_menu E fd ported wr rd (s\<lparr>stdin := ?T @ 3 # rest\<rparr>)) = settled (bnd ?p ?close (s\<lparr>stdin := rest\<rparr>))" .
  have "settled (do_menu E fd ported wr rd (s\<lparr>stdin := ?T\<rparr>)) = settled (bnd ?p (\<lambda>_ _. None) (s\<lparr>stdin := []\<rparr>))" if "cs \<noteq> []"
    using menu_loop [of "[]" ported wr rd ?close "\<lambda>_. None" cs "s\<lparr>stdin := ?T\<rparr>" unset] assms that
    by (simp add: do_menu_def menu_at_end bnd_def)
  with 1 show ?thesis by simp
qed


text \<open>On the demonstration card: an FPGA register is written, another one is read, and 3.\<close>

lemma settled_same: "settled a = settled b \<Longrightarrow> b = Some (Ok v, t) \<Longrightarrow> a = Some (Ok v, t)"
  by (auto simp: settled_def split: option.splits res.splits)

lemma demo_reads: "dev demo_env h d a = 0" "close_at demo_env h d = 0"
  by (simp_all add: demo_env_def)

lemma menu_session_witness:
  "\<exists>t. do_testreg demo_env 3 (demo_tool\<lparr>stdin := [1, 0x40, 7, 9, 2, 0x44, 3, 5]\<rparr>) = Some (Ok 0, t) \<and>
     stdin t = [5] \<and> out t = [Num 0, Num 0] \<and>
     trace (mc t) = [RegWr 3 0x40 7, RegRd 3 0x40 0, RegRd 3 0x44 0, SysClose 3]"
proof -
  let ?cs = "[Write 0 0x40 7, Other 9, Read 0 0x44]"
  let ?p = "bnd (for_each ?cs (perform (\<lambda>_ a x. reg_write 3 a x) (\<lambda>_ a. reg_read demo_env 3 a)))
      (\<lambda>_. bnd (lib (sys_close demo_env 3)) (\<lambda>_. ret 0)) (demo_tool\<lparr>stdin := [5]\<rparr>)"
  have same: "settled (do_testreg demo_env 3 (demo_tool\<lparr>stdin := [1, 0x40, 7, 9, 2, 0x44, 3, 5]\<rparr>)) = settled ?p"
    using menu_session [of ?cs False demo_env 3 "\<lambda>_ a x. reg_write 3 a x" "\<lambda>_ a. reg_read demo_env 3 a" "[5]" demo_tool]
    by (simp add: do_testreg_def)
  have "\<exists>t. ?p = Some (Ok 0, t) \<and> stdin t = [5] \<and> out t = [Num 0, Num 0] \<and>
     trace (mc t) = [RegWr 3 0x40 7, RegRd 3 0x40 0, RegRd 3 0x44 0, SysClose 3]"
    using demo_mapped by (simp add: bnd_assoc lib_def mapped_runs demo_tool_def demo_simps demo_reads del: ret_apply) simp
  then show ?thesis using settled_same [OF same] by blast
qed

section \<open>The number of a card\<close>

definition tries :: "(u64 \<times> u64) list \<Rightarrow> u64 list" where
  "tries ps = concat (map (\<lambda>(a, b). [a, b]) ps)"

lemma gsn_loop:
  assumes "\<forall>(a, b) \<in> set ps. a \<noteq> b" and "stdin s = tries ps @ [sn, sn] @ rest"
  shows "iterate gsn_round p s = Some (Ok sn, s\<lparr>stdin := rest,
     out := out s @ replicate (length ps) (Msg ''sn is error, please re-input'')\<rparr>)"
  using assms
proof (induction ps arbitrary: s p)
  case Nil
  then show ?case
    by (cases p) (simp add: tries_def iterate_leave gsn_round_def scanf_def use_var_def)
next
  case (Cons ab ps)
  obtain a b where ab: "ab = (a, b)" by (cases ab)
  let ?s = "s\<lparr>stdin := tries ps @ [sn, sn] @ rest, out := out s @ [Msg ''sn is error, please re-input'']\<rparr>"
  have "gsn_round p s = Some (Ok (Inl (a, b)), ?s)"
    using Cons.prems by (cases p) (simp add: tries_def ab gsn_round_def scanf_def use_var_def)
  then show ?case using Cons.IH [of ?s "(a, b)"] Cons.prems(1) by (simp add: iterate_step)
qed

lemma file_words_append:
  "length bs = 2 * n \<Longrightarrow> file_words (bs @ cs) = file_words bs @ file_words cs \<and> length (file_words bs) = n"
proof (induction n arbitrary: bs)
  case (Suc n)
  then obtain a b bs' where "bs = a # b # bs'" "length bs' = 2 * n" by (auto simp: length_Suc_conv)
  with Suc.IH show ?case by simp
qed simp

lemma numbered_image:
  assumes "length bs = 2 * n"
  shows "image_sn n (bs @ le64 sn) = sn" and "k < n \<Longrightarrow> file_words (bs @ le64 sn) ! k = file_words bs ! k"
proof -
  have w: "file_words (bs @ le64 sn) = file_words bs @ rev (sn_words sn)" "length (file_words bs) = n"
    using file_words_append [OF assms] by (simp_all add: le64_words)
  obtain w0 w1 w2 w3 where sn: "sn_words sn = [w0, w1, w2, w3]" by (simp add: sn_words_def)
  show "image_sn n (bs @ le64 sn) = sn"
    using sn_words_eq [THEN iffD1, OF sn, symmetric] w(2)
    by (simp add: image_sn_def Let_def w(1) sn nth_append)
  show "k < n \<Longrightarrow> file_words (bs @ le64 sn) ! k = file_words bs ! k" by (simp add: w nth_append)
qed

text \<open>
  C24. \<open>do_gsn\<close> stores the number of a card behind the image of its file so that \<open>do_isp\<close> finds it.
  On an open session, with a file that can be opened and appended to: whatever unequal pairs are
  typed first, each is refused with a message; the first number typed twice in a row is appended
  to the file and nothing else of the files changes; the tool returns 0 with the card closed and
  the rest of the input left. If the file was an image of \<open>n\<close> words, then it is now what \<open>do_isp\<close>
  takes: the same \<open>n\<close> words, and exactly this number behind them. The image is changed in place:
  the usage text (\<open>.bin to .bin.sn\<close>) and a comment of nactool.h promise a second file with the
  ending \<open>.bin.sn\<close>, but no other file is made and the given one is no longer the plain image.
\<close>

theorem gsn_roundtrip:
  assumes "fs s path = Some bytes" and "append_ok F" and "open_at E (trace (mc s)) path = Some f" and "0 \<le> f"
    and "herd (mc s) fd = Some h" and "opened h"
    and "\<forall>(a, b) \<in> set ps. a \<noteq> b" and "stdin s = tries ps @ [sn, sn] @ rest"
  shows "\<exists>t. do_gsn E F fd (Some path) s = Some (Ok 0, t) \<and> stdin t = rest \<and>
     fs t = (fs s)(path \<mapsto> bytes @ le64 sn) \<and>
     out t = out s @ replicate (length ps) (Msg ''sn is error, please re-input'') \<and>
     herd (mc t) fd = Some (zero_sheep\<lparr>naciom := - 1\<rparr>) \<and>
     (\<forall>n. length bytes = 2 * n \<longrightarrow> image_sn n (bytes @ le64 sn) = sn \<and>
        (\<forall>k < n. file_words (bytes @ le64 sn) ! k = file_words bytes ! k))"
proof -
  let ?m = "(mc s)\<lparr>trace := trace (mc s) @ [SysOpen path (Some f)]\<rparr>"
  let ?s1 = "s\<lparr>mc := ?m\<rparr>"
  let ?s2 = "s\<lparr>mc := ?m, stdin := rest, out := out s @ replicate (length ps) (Msg ''sn is error, please re-input'')\<rparr>"
  have "open_file E (Some path) s = Some (Ok (Some (f, path, bytes)), ?s1)"
    using assms(1,3,4) by (simp add: open_file_def lib_def sys_open_def)
  moreover have "iterate gsn_round (- 1, - 1) ?s1 = Some (Ok sn, ?s2)"
    using gsn_loop [of ps ?s1 sn rest "(- 1, - 1)"] assms(7,8) by simp
  moreover obtain r u where u: "nac_close E fd (?m\<lparr>trace := trace ?m @ [SysClose f]\<rparr>) = Some (Ok r, u)"
    "herd u = (herd (mc s))(fd \<mapsto> zero_sheep\<lparr>naciom := - 1\<rparr>)"
    using nac_close_outcome [of "?m\<lparr>trace := trace ?m @ [SysClose f]\<rparr>" fd h E] assms(5,6) by auto
  ultimately have "do_gsn E F fd (Some path) s = Some (Ok 0, ?s2\<lparr>fs := (fs s)(path \<mapsto> bytes @ le64 sn), mc := u\<rparr>)"
    using assms(2) by (simp add: do_gsn_def lib_def)
  then show ?thesis using u(2) numbered_image by (intro exI conjI) auto
qed


lemma gsn_roundtrip_witness:
  "\<exists>t. do_gsn demo_env all_fine 3 (Some ''image'') (demo_tool\<lparr>stdin := [7, 8, 9, 9, 5]\<rparr>) = Some (Ok 0, t) \<and> stdin t = [5] \<and>
     fs t ''image'' = Some (replicate 10 0 @ le64 9) \<and> out t = [Msg ''sn is error, please re-input''] \<and>
     image_sn 5 (replicate 10 0 @ le64 9) = 9"
  using gsn_roundtrip [of "demo_tool\<lparr>stdin := [7, 8, 9, 9, 5]\<rparr>" "''image''" "replicate 10 0" all_fine demo_env 3 3 demo_card "[(7, 8)]" 9 "[5]"]
  by (auto simp: demo_tool_def demo_mach_def demo_card_def demo_env_def tries_def)

end
