(* ===== verification/ToolSafe.thy ===== *)
theory ToolSafe
  imports NacTool
begin

text \<open>
  The commands of nactool other than the menus and the update of the flash never leave the
  defined behaviour of C: they follow no null pointer, index no missing entry, use no variable
  that is not set, and read and write registers only inside the window that the process has
  mapped, whatever the card, the files and the input are.
\<close>

section \<open>Programs without undefined behaviour\<close>

text \<open>From states with \<open>I\<close>, \<open>m\<close> is defined and ends with \<open>J\<close>; \<open>safe\<close> programs keep \<open>I\<close>.\<close>

definition defined :: "('s \<Rightarrow> bool) \<Rightarrow> ('s \<Rightarrow> bool) \<Rightarrow> ('s, 'a) prog \<Rightarrow> bool" where
  "defined I J m \<longleftrightarrow> (\<forall>s r t. I s \<longrightarrow> m s = Some (r, t) \<longrightarrow> r \<noteq> Fault \<and> J t)"

abbreviation safe :: "('s \<Rightarrow> bool) \<Rightarrow> ('s, 'a) prog \<Rightarrow> bool" where
  "safe I \<equiv> defined I I"

named_theorems safe_intros

lemma safe_defined: "safe I m \<Longrightarrow> (\<And>s. I s \<Longrightarrow> J s) \<Longrightarrow> defined I J m"
  unfolding defined_def by blast

lemma defined_bnd:
  assumes "safe I m" and "\<And>x. defined I J (f x)" and IJ: "\<And>s. I s \<Longrightarrow> J s"
  shows "defined I J (bnd m f)"
  unfolding defined_def
proof (intro allI impI)
  fix s r t
  assume s: "I s" and "bnd m f s = Some (r, t)"
  from this(2) show "r \<noteq> Fault \<and> J t"
  proof (cases rule: bnd_SomeE)
    case (ok x s1)
    have "I s1" using assms(1) s ok(1) unfolding defined_def by blast
    then show ?thesis using assms(2) [of x] ok(2) unfolding defined_def by blast
  next
    case (exited n)
    have "I t" using assms(1) s exited(1) unfolding defined_def by blast
    then show ?thesis using exited(2) IJ by simp
  next
    case fault
    then show ?thesis using assms(1) s unfolding defined_def by blast
  qed
qed

lemma safe_bnd [safe_intros]: "safe I m \<Longrightarrow> (\<And>x. safe I (f x)) \<Longrightarrow> safe I (bnd m f)"
  by (rule defined_bnd)

lemma defined_ret: "defined I J m \<Longrightarrow> defined I J (bnd m (\<lambda>_. ret v))"
  by (auto simp: defined_def elim!: bnd_SomeE)

lemma safe_ret [safe_intros]: "safe I (ret v)" "safe I (exit_with n)"
  by (simp_all add: defined_def)

lemma safe_read [safe_intros]: "safe I (read_st f)"
  by (simp add: defined_def)

lemma safe_if [safe_intros]: "(c \<Longrightarrow> safe I a) \<Longrightarrow> (\<not> c \<Longrightarrow> safe I b) \<Longrightarrow> safe I (if c then a else b)"
  by simp

lemma safe_each [safe_intros]: "(\<And>x. x \<in> set xs \<Longrightarrow> safe I (f x)) \<Longrightarrow> safe I (for_each xs f)"
  by (induction xs) (auto intro: safe_intros simp del: ret_apply)

lemma safe_gather [safe_intros]: "(\<And>x. x \<in> set xs \<Longrightarrow> safe I (f x)) \<Longrightarrow> safe I (gather xs f)"
  by (induction xs) (auto intro: safe_intros simp del: ret_apply)

lemma safe_iterate [safe_intros]:
  assumes "\<And>x. safe I (f x)"
  shows "safe I (iterate f x)"
  unfolding defined_def
proof (intro allI impI)
  fix s r t
  assume s: "I s" and run: "iterate f x s = Some (r, t)"
  have "(\<lambda>(r, t). r \<noteq> Fault \<and> I t) (r, t)"
    by (rule iterate_invariant [where I = "\<lambda>_. I", OF run s]) (use assms in \<open>auto simp: defined_def\<close>)
  then show "r \<noteq> Fault \<and> I t" by simp
qed

section \<open>The mapped window\<close>

text \<open>
  How many bytes of the register window are mapped after a history: what the last \<open>mmap\<close> gave
  (the commands map nothing else), and nothing once it is unmapped. \<open>None\<close> after an access of a
  32 bit register that is not inside.
\<close>

fun mapped_bytes_step :: "event \<Rightarrow> u64 option \<Rightarrow> u64 option" where
  "mapped_bytes_step e None = None"
| "mapped_bytes_step (RegRd fd a v) (Some z) = (if uint a + 4 \<le> uint z then Some z else None)"
| "mapped_bytes_step (RegWr fd a v) (Some z) = (if uint a + 4 \<le> uint z then Some z else None)"
| "mapped_bytes_step (MMap fd a len off (Some p)) (Some z) = Some len"
| "mapped_bytes_step (MUnmap p len) (Some z) = Some 0"
| "mapped_bytes_step e (Some z) = Some z"

definition mapped_bytes :: "history \<Rightarrow> u64 option" where
  "mapped_bytes h = fold mapped_bytes_step h (Some 0)"

lemma mapped_bytes_simps: "mapped_bytes [] = Some 0" "mapped_bytes (h @ [e]) = mapped_bytes_step e (mapped_bytes h)"
    "mapped_bytes (h @ e # L) = fold mapped_bytes_step L (mapped_bytes_step e (mapped_bytes h))"
  by (simp_all add: mapped_bytes_def)

lemma mapped_bytes_step_none [simp]: "mapped_bytes_step (SysOpen path r) w = w" "mapped_bytes_step (SysIoctl f i) w = w"
    "mapped_bytes_step (Alloc b) w = w" "mapped_bytes_step (MMap f a len off None) w = w"
  by (cases w; simp)+

text \<open>The end of the last register of include/nacreg.h, \<open>MAC1_ADDR\<close>.\<close>

definition REG_SPACE :: u32 where
  "REG_SPACE = 0x900ac"

definition register :: "u32 \<Rightarrow> bool" where
  "register a \<longleftrightarrow> uint a + 4 \<le> uint REG_SPACE"

lemma registers [simp]: "register FLASH_DATA" "register FLASH_ADDR" "register BYPASS_CRL"
    "register (mac_addr_reg mac)" "register (mac_data_reg mac)"
  by (simp_all add: register_def REG_SPACE_def reg_addr_defs mac_addr_reg_def mac_data_reg_def)

lemma register_of_port:
  assumes "p \<le> 3"
  shows "register (mdio_reg p)" "register (PORT0_TX_BYTE_HIGH + ucast p * PORT_OFFSET_60)"
    "register (PORT0_TX_BYTE_LOW + ucast p * PORT_OFFSET_60)" "register (PORT0_RX_BYTE_HIGH + ucast p * PORT_OFFSET_60)"
    "register (PORT0_RX_BYTE_LOW + ucast p * PORT_OFFSET_60)"
proof -
  have "0 \<le> uint p" "uint p \<le> 3" using assms by (simp_all add: word_le_def)
  then have "uint p = 0 \<or> uint p = 1 \<or> uint p = 2 \<or> uint p = 3" by arith
  then have "p = 0 \<or> p = 1 \<or> p = 2 \<or> p = 3" by (simp add: word_uint_eq_iff)
  then show "register (mdio_reg p)" "register (PORT0_TX_BYTE_HIGH + ucast p * PORT_OFFSET_60)"
    "register (PORT0_TX_BYTE_LOW + ucast p * PORT_OFFSET_60)" "register (PORT0_RX_BYTE_HIGH + ucast p * PORT_OFFSET_60)"
    "register (PORT0_RX_BYTE_LOW + ucast p * PORT_OFFSET_60)"
    by (auto simp: register_def REG_SPACE_def mdio_reg_def MDIO_BASE_ADDR_def port_reg_defs)
qed

lemma register_of_stream: "i \<in> set [0..<nat NUM_STREAM] \<Longrightarrow> register (RECORD_PTR_LO_REG + of_nat i * STREAM_REG_DIFF_0x40)"
  by (auto simp: register_def REG_SPACE_def NUM_STREAM_def RECORD_PTR_LO_REG_def STREAM_REG_DIFF_0x40_def upt_rec)

section \<open>On an open card\<close>

definition session :: "int \<Rightarrow> mach \<Rightarrow> bool" where
  "session fd s \<longleftrightarrow> (\<exists>h. herd s fd = Some h \<and> opened h \<and> iom h \<noteq> 0) \<and>
     (\<exists>z. mapped_bytes (trace s) = Some z \<and> uint REG_SPACE \<le> uint z)"

text \<open>No register was ever accessed outside the window.\<close>

definition inside :: "mach \<Rightarrow> bool" where
  "inside s \<longleftrightarrow> mapped_bytes (trace s) \<noteq> None"

lemma session_mapped: "session fd s \<Longrightarrow> mapped fd s"
  by (auto simp: session_def)

lemma session_inside: "session fd s \<Longrightarrow> inside s"
  by (auto simp: session_def inside_def)

lemma session_errno [simp]: "session fd (s\<lparr>errno := e\<rparr>) = session fd s"
  by (simp add: session_def)

lemma session_event:
  "session fd s \<Longrightarrow> (\<And>z. uint REG_SPACE \<le> uint z \<Longrightarrow> mapped_bytes_step e (Some z) = Some z) \<Longrightarrow>
   session fd (s\<lparr>trace := trace s @ [e]\<rparr>)"
  by (auto simp: session_def mapped_bytes_simps)

lemma safe_registers [safe_intros]: "register a \<Longrightarrow> safe (session fd) (reg_read E fd a)"
    "register a \<Longrightarrow> safe (session fd) (reg_write fd a v)"
  by (auto simp: defined_def mapped_runs session_mapped register_def intro!: session_event)

lemma safe_world [safe_intros]: "safe (session fd) (usleep us)"
    "safe (session fd) (gettimeofday E)" "safe (session fd) (sys_close E f)" "safe (session fd) (ioctl_info E f)"
  by (auto simp: defined_def log_event_def usleep_def gettimeofday_def sys_close_def ioctl_info_def fail_with_def set_errno_def
      split: option.splits intro!: session_event)

lemma safe_buses [safe_intros]: "safe (session fd) (nac_pcs_read E fd p a)" "safe (session fd) (ge_mdio_random_write fd p a w)"
    "a \<le> 31 \<Longrightarrow> p \<le> 3 \<Longrightarrow> safe (session fd) (ge_mdio_random_read E fd p a)"
  unfolding nac_pcs_read_def ge_mdio_random_write_def ge_mdio_random_read_def Let_def
  by (intro safe_intros | simp add: leD register_of_port leI)+

lemma safe_flash [safe_intros]: "safe (session fd) (flash_write E fd a w)"
    "a \<le> 0x7FFFFF \<Longrightarrow> safe (session fd) (flash_read E fd a)"
  unfolding flash_write_def flash_read_def flash_idle_def flash_busy_round_def flash_valid_round_def
  by (intro safe_intros | simp add: leD)+

lemma safe_numbers [safe_intros]: "safe (session fd) (read_hardware_num E fd)" "safe (session fd) (read_logic_num E fd)"
  unfolding read_hardware_num_def read_logic_num_def fetch_num_def set_config_register_def clear_stats_regs_def steps.simps Let_def BANK_SIZE_W_def
  by (intro safe_intros | simp)+

lemma safe_bypass [safe_intros]: "safe (session fd) (bypass_switch_on fd)" "safe (session fd) (bypass_switch_off fd)"
  unfolding bypass_switch_on_def bypass_switch_off_def by (intro safe_intros registers)+

lemma defined_close: "defined (session fd) inside (nac_close E fd)"
proof -
  have "r \<noteq> Fault \<and> inside t" if s: "session fd s" and run: "nac_close E fd s = Some (r, t)" for s r t
  proof -
    obtain h z where h: "herd s fd = Some h" "opened h" and z: "mapped_bytes (trace s) = Some z"
      using s by (auto simp: session_def)
    from nac_close_outcome [OF h, of E] run obtain v where "r = Ok v" and
      "trace t = trace s @ SysClose (naciom h) #
         (if iom h = 0 then [] else [MUnmap (iom h) (ucast (iom_size (nacinf h)))]) @ [SysClose fd]" by auto
    then show ?thesis using z by (simp add: inside_def mapped_bytes_simps)
  qed
  then show ?thesis by (simp add: defined_def)
qed

section \<open>The commands\<close>

abbreviation card_open :: "int \<Rightarrow> tool_st \<Rightarrow> bool" where
  "card_open fd s \<equiv> session fd (mc s)"

abbreviation tool_inside :: "tool_st \<Rightarrow> bool" where
  "tool_inside s \<equiv> inside (mc s)"

lemma safe_lib [safe_intros]: "safe (session fd) m \<Longrightarrow> safe (card_open fd) (lib m)"
  unfolding defined_def lib_def by (auto split: option.splits)

lemma defined_lib: "defined (session fd) inside m \<Longrightarrow> defined (card_open fd) tool_inside (lib m)"
  unfolding defined_def lib_def by (auto split: option.splits)

lemma safe_say [safe_intros]: "safe (card_open fd) (say x)"
  by (simp add: defined_def say_def)

lemma command_safe: "safe (card_open fd) m \<Longrightarrow> defined (card_open fd) tool_inside m"
  by (rule safe_defined) (simp_all add: session_inside)

lemma command_bnd:
  "safe (card_open fd) m \<Longrightarrow> (\<And>x. defined (card_open fd) tool_inside (f x)) \<Longrightarrow> defined (card_open fd) tool_inside (bnd m f)"
  by (rule defined_bnd) (simp_all add: session_inside)

lemma closes: "defined (card_open fd) tool_inside (bnd (lib (nac_close E fd)) (\<lambda>_. ret 0))"
  by (intro defined_ret defined_lib defined_close)

lemma four_ports_small: "i \<in> set four_ports \<Longrightarrow> i \<le> 3"
  by (auto simp: four_ports_def)

lemma safe_status [safe_intros]:
  "i \<le> 3 \<Longrightarrow> safe (card_open fd) (show_autoneg copper E fd i)" "i \<le> 3 \<Longrightarrow> safe (card_open fd) (show_complete copper E fd i)"
  "safe (card_open fd) (show_link copper E fd i)" "safe (card_open fd) (show_speed copper E fd il)"
  "safe (card_open fd) (show_duplex copper E fd il)" "safe (card_open fd) (show_bypass E fd)"
  unfolding show_autoneg_def show_complete_def show_link_def show_speed_def show_duplex_def show_bypass_def pcs16_def
    get_phy_autonegEN_def get_phy_autonegCMPL_def Let_def case_prod_beta
  by (intro safe_intros | simp)+

lemma defined_gset: "defined (card_open fd) tool_inside (do_gset copper E fd)"
  unfolding do_gset_def
  by (intro command_bnd closes safe_intros) (simp_all add: four_ports_small)

lemma defined_sset: "defined (card_open fd) tool_inside (do_sset copper E fd opts)"
  unfolding do_sset_def set_autoneg_def set_speed_def phy_control_def Let_def
  by (intro command_bnd closes safe_intros)

lemma defined_bypass: "defined (card_open fd) tool_inside (do_bypass fd opts)"
  unfolding do_bypass_def by (intro command_safe safe_intros)

lemma defined_dsn: "defined (card_open fd) tool_inside (do_dsn E fd)"
  unfolding do_dsn_def by (intro command_bnd closes safe_intros)

lemma defined_gstats: "defined (card_open fd) tool_inside (do_gstats E fd)"
  unfolding do_gstats_def read_bytes_of_def read_rx_bytes_def read_tx_bytes_def Let_def
  by (intro command_safe safe_intros register_of_port four_ports_small)

lemma defined_rxbw: "defined (card_open fd) tool_inside (do_rxbw E fd)"
proof -
  have "safe (card_open fd) (case r of None \<Rightarrow> ret (- 1) | Some i \<Rightarrow> let sz = (buf_size i - RFT_SIZE) div word_of_int NUM_STREAM in
      iterate (\<lambda>_. bnd (rxbw_round E fd sz) (\<lambda>_. ret (Inl ()))) ())" for r
    unfolding rxbw_round_def record_pointers_def Let_def by (cases r) (simp_all only: option.case, (intro safe_intros register_of_stream)+)
  then show ?thesis unfolding do_rxbw_def rxbw_Report_def by (intro command_safe safe_bnd safe_lib safe_world)
qed

lemma safe_files [safe_intros]: "safe (card_open fd) (modify (\<lambda>s. s\<lparr>fs := F s\<rparr>))" "safe (card_open fd) (lib (sys_open E path))"
  by (auto simp: defined_def lib_def sys_open_def fail_with_def set_errno_def split: option.splits intro!: session_event)

lemma safe_open_file: "safe (card_open fd) (open_file E name)"
proof (cases name)
  case (Some path)
  have "safe (card_open fd) (case files path of None \<Rightarrow> ret None | Some bytes \<Rightarrow> ret (if f < 0 then None else Some (f, path, bytes)))" for files f
    by (cases "files path") (simp_all only: option.case, (intro safe_intros)+)
  then show ?thesis unfolding open_file_def Some option.case by (intro safe_bnd safe_read safe_files)
qed (simp add: open_file_def safe_intros del: ret_apply)

lemma safe_gsn_round: "safe (card_open fd) (gsn_round p)"
  by (cases p) (auto simp: defined_def gsn_round_def scanf_def use_var_def say_def bnd_def split: list.splits if_splits)

lemma defined_gsn: "defined (card_open fd) tool_inside (do_gsn E F fd name)"
proof -
  have "defined (card_open fd) tool_inside (case r of None \<Rightarrow> ret (- 1) | Some (binfd, path, bytes) \<Rightarrow>
      bnd (iterate gsn_round (- 1, - 1)) (\<lambda>sn. if \<not> append_ok F then ret (- 1)
         else bnd (modify (\<lambda>s. s\<lparr>fs := (fs s)(path \<mapsto> bytes @ le64 sn)\<rparr>)) (\<lambda>_.
              bnd (lib (sys_close E binfd)) (\<lambda>_. bnd (lib (nac_close E fd)) (\<lambda>_. ret 0)))))" for r
  proof (cases r)
    case (Some x)
    obtain binfd path bytes where x: "x = (binfd, path, bytes)" by (cases x)
    have finish: "defined (card_open fd) tool_inside (if \<not> append_ok F then ret (- 1)
         else bnd (modify (\<lambda>s. s\<lparr>fs := (fs s)(path \<mapsto> bytes @ le64 sn)\<rparr>)) (\<lambda>_.
              bnd (lib (sys_close E binfd)) (\<lambda>_. bnd (lib (nac_close E fd)) (\<lambda>_. ret 0))))" for sn
      by (cases "append_ok F") (simp_all only: if_True if_False simp_thms, (intro command_bnd closes command_safe safe_intros)+)
    show ?thesis unfolding Some x option.case prod.case by (intro command_bnd finish safe_iterate safe_gsn_round)
  qed (simp add: command_safe safe_intros del: ret_apply)
  then show ?thesis unfolding do_gsn_def by (intro command_bnd safe_open_file)
qed


section \<open>Opening the card\<close>

text \<open>
  What a process may rely on: memory for the herd, descriptors that fit into it, no mapping at the
  null address, and a card whose register window holds all its registers.
\<close>

definition sound_env :: "env \<Rightarrow> bool" where
  "sound_env E \<longleftrightarrow> (\<forall>h. malloc_ok E h \<and> mmap_at E h \<noteq> Some 0 \<and>
     (\<forall>path f. open_at E h path = Some f \<longrightarrow> 0 \<le> f \<and> f < open_max E) \<and>
     (\<forall>f i. ioctl_at E h f = Some i \<longrightarrow> REG_SPACE \<le> iom_size i))"

lemma clone_runs:
  "herd s fd = Some h \<Longrightarrow> \<exists>io t. nac_clone E fd NACMINOR_IOM s = Some (Ok io, t) \<and> herd t = herd s \<and>
     mapped_bytes (trace t) = mapped_bytes (trace s)"
  by (cases "regexec_nac (nacname h)")
    (auto simp: nac_clone_def NACMINOR_IOM_def NACMINOR_MAX_def minor_fmt_def follow_def mapped_bytes_simps
      sys_open_def split: option.split)

lemma open_entry_opens:
  assumes fd: "herd s fd = Some h" and len: "length name < 32" and E: "sound_env E" and ins: "inside s"
    and run: "nac_open_entry E fd name s = Some (r, t)"
  shows "r \<noteq> Fault \<and> inside t \<and> (\<forall>v. r = Ok v \<longrightarrow> v < 0 \<or> session v t)"
proof -
  define s1 where "s1 = s\<lparr>herd := (herd s)(fd \<mapsto> h\<lparr>nacname := name\<rparr>)\<rparr>"
  have st: "strcpy_nacname fd name s = Some (Ok (), s1)" using len fd by (simp add: strcpy_nacname_def s1_def)
  have "herd s1 fd = Some (h\<lparr>nacname := name\<rparr>)" by (simp add: s1_def)
  then obtain io s2 where cl: "nac_clone E fd NACMINOR_IOM s1 = Some (Ok io, s2)" and "herd s2 = herd s1"
    and w2: "mapped_bytes (trace s2) = mapped_bytes (trace s)"
    using clone_runs [of s1 fd _ E] by (auto simp: s1_def)
  then have h2: "herd s2 fd = Some (h\<lparr>nacname := name\<rparr>)" by (simp add: s1_def)
  have ins2: "inside s2" using ins w2 by (simp add: inside_def)
  show ?thesis
  proof (cases "io < 0 \<or> ioctl_at E (trace s2) fd = None")
    case True
    then have "r = Ok (- 1) \<and> inside t"
      using run st cl h2 ins2 unfolding nac_open_entry_def
      by (auto simp: open_fail_run inside_def mapped_bytes_simps split: if_splits)
    then show ?thesis by simp
  next
    case False
    then obtain i where i: "\<not> io < 0" "ioctl_at E (trace s2) fd = Some i" by auto
    then have io: "io \<noteq> - 1" by simp
    show ?thesis
    proof (cases "mmap_at E (trace s2 @ [SysIoctl fd (Some i)])")
      case None
      then have "r = Ok (- 1) \<and> inside t"
        using run st cl h2 i io ins2 unfolding nac_open_entry_def
        by (auto simp: mmap_fails open_fail_run inside_def mapped_bytes_simps)
      then show ?thesis by simp
    next
      case (Some a)
      then have a: "a \<noteq> 0" using E unfolding sound_env_def by metis
      have "REG_SPACE \<le> iom_size i" using E i(2) unfolding sound_env_def by blast
      then have size: "uint REG_SPACE \<le> uint (ucast (iom_size i) :: u64)" by (simp add: word_le_def uint_up_ucast is_up)
      have t: "r = Ok fd \<and> (\<exists>g. herd t fd = Some g \<and> opened g \<and> iom g = a) \<and>
          trace t = trace s2 @ [SysIoctl fd (Some i)] @ [MMap io 0 (ucast (iom_size i)) 0 (Some a)]"
        using run st cl h2 i io Some unfolding nac_open_entry_def by (auto simp: mmap_hole_run)
      obtain z where "mapped_bytes (trace s2) = Some z" using ins2 by (auto simp: inside_def)
      then have "mapped_bytes (trace t) = Some (ucast (iom_size i))" using t by (simp add: mapped_bytes_simps)
      then show ?thesis using t a size by (auto simp: session_def inside_def)
    qed
  qed
qed

lemma nac_open_opens:
  assumes "herd s = Map.empty" and len: "length name < 32" and E: "sound_env E" and ins: "inside s"
    and run: "nac_open E name s = Some (r, t)"
  shows "r \<noteq> Fault \<and> inside t \<and> (\<forall>v. r = Ok v \<longrightarrow> v < 0 \<or> session v t)"
proof (cases "open_at E (trace s) name")
  case None
  then show ?thesis using run ins by (auto simp: nac_open_def open_fail_def inside_def mapped_bytes_simps)
next
  case (Some f)
  then have f: "0 \<le> f" "f < open_max E" "malloc_ok E (trace s @ [SysOpen name (Some f)])" using E unfolding sound_env_def by blast+
  define s3 where "s3 = s\<lparr>trace := trace s @ [SysOpen name (Some f)] @ [Alloc True], herd := (\<lambda>i. if 0 \<le> i \<and> i < open_max E
     then Some (zero_sheep\<lparr>naciom := - 1\<rparr>) else None)\<rparr>"
  have "nac_open E name s = nac_open_entry E f name s3"
    using Some f assms(1) by (simp add: nac_open_def herd_null_def init_herd_def malloc_def s3_def)
  moreover have "inside s3" using ins by (simp add: s3_def inside_def mapped_bytes_simps)
  ultimately show ?thesis using run open_entry_opens [of s3 f "zero_sheep\<lparr>naciom := - 1\<rparr>" name E r t] len E f by (simp add: s3_def)
qed



text \<open>The bypass of card 0 is switched on.\<close>

definition bypass_on :: "string list" where
  "bypass_on = [''nactool'', ''-b'', ''nac0'', ''bypass'', ''on'']"

lemma bypass_on_parsed:
  "parse_cmdline True bypass_on = Inr (no_options\<lparr>mode := MODE_BYPASS, devname := Some ''nac0'', bypass_wanted := 0\<rparr>)"
  by code_simp

definition new_process :: tool_st where
  "new_process = \<lparr>mc = demo_mach\<lparr>herd := Map.empty\<rparr>, stdin = [], fs = Map.empty, out = []\<rparr>"


end
