(* ===== verification/StreamLife.thy ===== *)
theory StreamLife
  imports StreamConfig
begin

text \<open>
  The life of a stream (lib/nac_stream.c): attach maps its ring twice in a row, start and stop
  switch its DMA engine, detach undoes the mapping. Receive and transmit streams have their
  own operations; both follow the same protocol, which the locale at the end states.
\<close>

section \<open>Attach\<close>

text \<open>\<open>nacapi_mindata\<close>, \<open>nacapi_maxwait\<close>, \<open>nacapi_poll\<close>\<close>

definition nac_record_size :: u32 where
  "nac_record_size = 16"

definition set_poll_defaults :: "stream_t \<Rightarrow> stream_t" where
  "set_poll_defaults st = st\<lparr>mindata := nac_record_size, maxwait := (0, 0), poll := (0, 1 * 1000 * 1000)\<rparr>"

text \<open>\<open>if (extra_window_size == 0) extra_window_size = buf_size;\<close>\<close>

definition default_window :: "u32 \<Rightarrow> u32 \<Rightarrow> u32" where
  "default_window extra bufsize = (if extra = 0 then bufsize else extra)"

text \<open>
  The three calls of \<open>mmap\<close>: reserve room for both rounds, then map the stream's part of
  the hole over the first and again over the second. The length is a 32 bit sum; the offset
  \<open>buf_size * stream_num\<close> is an \<open>int\<close>, extended with its sign. \<open>None\<close> when a call fails.
\<close>

definition map_twice :: "env \<Rightarrow> int \<Rightarrow> int \<Rightarrow> u32 \<Rightarrow> u32 \<Rightarrow> u64 option nac" where
  "map_twice E nacfd n bufsize extra =
     bnd (mmap E (- 1) 0 (ucast (bufsize + extra)) 0) (\<lambda>sp.
     case sp of None \<Rightarrow> ret None
     | Some sp \<Rightarrow>
       bnd (mmap E nacfd sp (scast bufsize) (scast (bufsize * word_of_int n))) (\<lambda>p.
       case p of None \<Rightarrow> ret None
       | Some p \<Rightarrow>
         bnd (mmap E nacfd (sp + scast bufsize) (ucast extra) (scast (bufsize * word_of_int n))) (\<lambda>ep.
         case ep of None \<Rightarrow> ret None | Some _ \<Rightarrow> ret (Some p))))"

definition nac_attach_stream :: "env \<Rightarrow> int \<Rightarrow> int \<Rightarrow> int \<Rightarrow> u32 \<Rightarrow> int nac" where
  "nac_attach_stream E nacfd n flags extra0 =
     bnd (nac_info nacfd) (\<lambda>info.
     bnd (get_sheep nacfd) (\<lambda>h.
     if \<not> opened h then fail_with EBADF (- 1)
     else bnd (get_stream nacfd n) (\<lambda>st0.
       let bufsize = stream_size st0; extra = default_window extra0 bufsize in
       bnd (put_stream nacfd n set_poll_defaults) (\<lambda>_.
       if bufsize <s extra then fail_with EINVAL (- 1)
       else bnd (map_twice E nacfd n bufsize extra) (\<lambda>m.
         case m of None \<Rightarrow> ret (- 1)
         | Some p \<Rightarrow> bnd (follow info) (\<lambda>i.
             bnd (put_stream nacfd n (\<lambda>st. st\<lparr>extra_window_size := extra, buf := p, offset := 0,
               free_space := 0, is_first_time := True,
               phyaddr := phy_addr i + word_of_int n * bufsize,
               attached := True, started := False\<rparr>)) (\<lambda>_. ret 0)))))))"

definition nac_tx_attach_stream :: "env \<Rightarrow> int \<Rightarrow> int \<Rightarrow> int \<Rightarrow> u32 \<Rightarrow> int nac" where
  "nac_tx_attach_stream E nacfd n flags extra0 =
     bnd (nac_info nacfd) (\<lambda>info.
     bnd (get_sheep nacfd) (\<lambda>h.
     if \<not> opened h then fail_with EBADF (- 1)
     else if n < NUM_STREAM then ret (- 1)
     else bnd (get_stream nacfd n) (\<lambda>st0.
       let bufsize = stream_size st0; extra = default_window extra0 bufsize in
       bnd (put_stream nacfd n set_poll_defaults) (\<lambda>_.
       if bufsize <s extra then fail_with EINVAL (- 1)
       else bnd (if flags = OVERLAP_FWD
          then bnd (put_stream nacfd n (\<lambda>st. st\<lparr>extra_window_size := extra\<rparr>)) (\<lambda>_. ret True)
          else bnd (map_twice E nacfd n bufsize extra) (\<lambda>m.
            case m of None \<Rightarrow> ret False
            | Some p \<Rightarrow> bnd (follow info) (\<lambda>i.
                bnd (put_stream nacfd n (\<lambda>st. st\<lparr>extra_window_size := extra,
                  phyaddr := phy_addr i + word_of_int n * bufsize, buf := p\<rparr>)) (\<lambda>_. ret True)))) (\<lambda>ok.
         if \<not> ok then ret (- 1)
         else bnd (put_stream nacfd n (\<lambda>st. st\<lparr>offset := 0, free_space := 0,
               is_first_time := True, attached := True, started := False\<rparr>)) (\<lambda>_. ret 0))))))"

section \<open>Start and stop\<close>

definition nac_clear_buf :: "int \<Rightarrow> int \<Rightarrow> unit nac" where
  "nac_clear_buf nacfd n =
     bnd (get_pbm nacfd n) (\<lambda>p. steps
       [reg_write nacfd (nacpbm_stream_t.dma_ctl_reg p) 0, usleep 1000000,
        reg_write nacfd (nacpbm_stream_t.dma_ctl_reg p) (set_status_clear 1 0), usleep 1000000,
        reg_write nacfd (nacpbm_stream_t.dma_ctl_reg p) 0])"

text \<open>The checks on the state of the stream, in the order of the source.\<close>

definition check_startable :: "int \<Rightarrow> int \<Rightarrow> errno_t option nac" where
  "check_startable nacfd n =
     bnd (get_sheep nacfd) (\<lambda>h.
     if \<not> opened h then ret (Some EBADF)
     else bnd (get_stream nacfd n) (\<lambda>st.
       ret (if \<not> attached st then Some EINVAL else if started st then Some EBUSY else None)))"

definition check_started :: "int \<Rightarrow> int \<Rightarrow> errno_t option nac" where
  "check_started nacfd n =
     bnd (get_sheep nacfd) (\<lambda>h.
     if \<not> opened h then ret (Some EBADF)
     else bnd (get_stream nacfd n) (\<lambda>st.
       ret (if \<not> attached st then Some EINVAL else if \<not> started st then Some EINVAL else None)))"

text \<open>Both start functions read the register block before any check.\<close>

definition nac_start_stream :: "env \<Rightarrow> int \<Rightarrow> int \<Rightarrow> int nac" where
  "nac_start_stream E nacfd n =
     bnd (get_stream nacfd n) (\<lambda>st.
     bnd (deref_pbm (pbm st)) (\<lambda>p.
     bnd (check_startable nacfd n) (\<lambda>e.
     case e of Some err \<Rightarrow> fail_with err (- 1)
     | None \<Rightarrow> bnd (steps
         [reg_write nacfd (limit_ptr p) (phyaddr st + stream_size st),
          show_reg E nacfd (limit_ptr p), show_reg E nacfd (record_ptr p),
          reg_write nacfd (nacpbm_stream_t.dma_ctl_reg p) (set_dma_pause_n 1 0),
          put_stream nacfd n (\<lambda>st. st\<lparr>started := True\<rparr>)]) (\<lambda>_. ret 0))))"

text \<open>Clearing \<open>dma_pause_n\<close> in the control register.\<close>

definition dma_pause :: "env \<Rightarrow> int \<Rightarrow> nacpbm_stream_t \<Rightarrow> unit nac" where
  "dma_pause E nacfd p = rmw (reg_read E nacfd (nacpbm_stream_t.dma_ctl_reg p))
     (reg_write nacfd (nacpbm_stream_t.dma_ctl_reg p)) (set_dma_pause_n 0)"

definition nac_stop_stream :: "env \<Rightarrow> int \<Rightarrow> int \<Rightarrow> int nac" where
  "nac_stop_stream E nacfd n =
     bnd (check_started nacfd n) (\<lambda>e.
     case e of Some err \<Rightarrow> fail_with err (- 1)
     | None \<Rightarrow> bnd (get_pbm nacfd n) (\<lambda>p.
         bnd (dma_pause E nacfd p) (\<lambda>_.
         bnd (put_stream nacfd n (\<lambda>st. st\<lparr>started := False\<rparr>)) (\<lambda>_. ret 0))))"

definition nac_tx_start_stream :: "env \<Rightarrow> int \<Rightarrow> int \<Rightarrow> int nac" where
  "nac_tx_start_stream E nacfd n =
     bnd (get_stream nacfd n) (\<lambda>st.
     bnd (deref_pbm (pbm st)) (\<lambda>p.
     bnd (check_startable nacfd n) (\<lambda>e.
     case e of Some err \<Rightarrow> fail_with err (- 1)
     | None \<Rightarrow> if n < NUM_STREAM then ret (- 1)
       else bnd (steps
         [reg_write nacfd (limit_ptr p) (phyaddr st),
          show_reg E nacfd (limit_ptr p), show_reg E nacfd (record_ptr p),
          reg_write nacfd (nacpbm_stream_t.dma_ctl_reg p) (set_dma_pause_n 1 0),
          put_stream nacfd n (\<lambda>st. st\<lparr>started := True\<rparr>)]) (\<lambda>_. ret 0))))"

text \<open>Waiting until the record pointer reaches the limit that was read once.\<close>

definition drain_round :: "env \<Rightarrow> int \<Rightarrow> nacpbm_stream_t \<Rightarrow> u32 \<Rightarrow> u32 \<Rightarrow> (u32 + unit) nac" where
  "drain_round E nacfd p limit rcd =
     (if rcd = limit then ret (Inr ())
      else bnd (reg_read E nacfd (record_ptr p)) (\<lambda>r. bnd (usleep 1000000) (\<lambda>_. ret (Inl r))))"

definition wait_drained :: "env \<Rightarrow> int \<Rightarrow> nacpbm_stream_t \<Rightarrow> u32 \<Rightarrow> u32 \<Rightarrow> unit nac" where
  "wait_drained E nacfd p limit = iterate (drain_round E nacfd p limit)"

definition nac_tx_stop_stream :: "env \<Rightarrow> int \<Rightarrow> int \<Rightarrow> int nac" where
  "nac_tx_stop_stream E nacfd n =
     bnd (check_started nacfd n) (\<lambda>e.
     case e of Some err \<Rightarrow> fail_with err (- 1)
     | None \<Rightarrow> if n < NUM_STREAM then ret (- 1)
       else bnd (get_pbm nacfd n) (\<lambda>p.
         bnd (reg_read E nacfd (record_ptr p)) (\<lambda>rcd.
         bnd (reg_read E nacfd (limit_ptr p)) (\<lambda>limit.
         bnd (wait_drained E nacfd p limit rcd) (\<lambda>_.
         bnd (dma_pause E nacfd p) (\<lambda>_.
         bnd (put_stream nacfd n (\<lambda>st. st\<lparr>started := False\<rparr>)) (\<lambda>_. ret 0)))))))"

section \<open>Detach\<close>

text \<open>\<open>free(p)\<close> of a dangling pointer is undefined; of a null pointer it does nothing.\<close>

definition free_pbm :: "int \<Rightarrow> int \<Rightarrow> unit nac" where
  "free_pbm nacfd n = bnd (get_stream nacfd n) (\<lambda>st.
     case pbm st of PNull \<Rightarrow> ret () | PFreed \<Rightarrow> fault
     | PTo _ \<Rightarrow> put_stream nacfd n (\<lambda>st. st\<lparr>pbm := PFreed\<rparr>))"

text \<open>\<open>unmap\<close> is false for a transmit stream in the overlap mode.\<close>

definition detach_body :: "env \<Rightarrow> int \<Rightarrow> int \<Rightarrow> bool \<Rightarrow> int nac" where
  "detach_body E nacfd n unmap =
     bnd (get_stream nacfd n) (\<lambda>st.
     bnd (if buf st \<noteq> 0
          then bnd (deref_pbm (pbm st)) (\<lambda>p.
               bnd (dma_pause E nacfd p) (\<lambda>_.
               bnd (free_pbm nacfd n) (\<lambda>_.
               if unmap then munmap (buf st) (ucast (stream_size st + extra_window_size st))
               else ret ())))
          else ret ()) (\<lambda>_.
     bnd (put_stream nacfd n (\<lambda>st. st\<lparr>started := False, attached := False\<rparr>)) (\<lambda>_. ret 0)))"

definition nac_detach_stream :: "env \<Rightarrow> int \<Rightarrow> int \<Rightarrow> int nac" where
  "nac_detach_stream E nacfd n =
     bnd (get_sheep nacfd) (\<lambda>h.
     if \<not> opened h then fail_with EBADF (- 1) else detach_body E nacfd n True)"

definition nac_tx_detach_stream :: "env \<Rightarrow> int \<Rightarrow> int \<Rightarrow> int \<Rightarrow> int nac" where
  "nac_tx_detach_stream E nacfd n flags =
     bnd (get_sheep nacfd) (\<lambda>h.
     if \<not> opened h then fail_with EBADF (- 1)
     else if n < NUM_STREAM then ret (- 1)
     else detach_body E nacfd n (flags \<noteq> OVERLAP_FWD))"

definition nac_tx_set_stream_poll :: "int \<Rightarrow> int \<Rightarrow> u32 \<Rightarrow> timeval \<Rightarrow> timeval \<Rightarrow> int nac" where
  "nac_tx_set_stream_poll nacfd n min_data max_wait poll_tv =
     bnd (get_sheep nacfd) (\<lambda>h.
     if \<not> opened h then fail_with EBADF (- 1)
     else bnd (get_stream nacfd n) (\<lambda>st.
       if \<not> attached st then fail_with EINVAL (- 1)
       else if n < NUM_STREAM then ret (- 1)
       else bnd (put_stream nacfd n (\<lambda>st. st\<lparr>mindata := min_data, maxwait := max_wait,
               poll := timeval_to_timespec poll_tv\<rparr>)) (\<lambda>_. ret 0)))"

section \<open>The protocol\<close>

text \<open>How far a stream has come.\<close>

datatype phase = Closed | Detached | Attached | Running

fun level :: "phase \<Rightarrow> nat" where
  "level Closed = 0"
| "level Detached = 1"
| "level Attached = 2"
| "level Running = 3"

lemma level_inject: "level p = level q \<Longrightarrow> p = q"
  by (cases p; cases q) simp_all

instantiation phase :: linorder
begin

definition less_eq_phase :: "phase \<Rightarrow> phase \<Rightarrow> bool" where
  "p \<le> q \<longleftrightarrow> level p \<le> level q"

definition less_phase :: "phase \<Rightarrow> phase \<Rightarrow> bool" where
  "p < q \<longleftrightarrow> level p < level q"

instance
  by standard (auto simp: less_eq_phase_def less_phase_def intro: level_inject)

end

lemmas phase_order = less_eq_phase_def less_phase_def

lemma Closed_less: "Closed < p \<longleftrightarrow> p \<noteq> Closed"
  by (cases p) (simp_all add: phase_order)

definition phase_of :: "int \<Rightarrow> int \<Rightarrow> mach \<Rightarrow> phase" where
  "phase_of fd n s = (case herd s fd of None \<Rightarrow> Closed
     | Some h \<Rightarrow> if \<not> opened h then Closed else if \<not> attached (stream h n) then Detached
         else if started (stream h n) then Running else Attached)"

datatype life_op = OAttach | OStart | OStop | ODetach

text \<open>
  What decides about the calls on a stream: its phase, whether \<open>buf\<close> is set, whether \<open>pbm\<close> points to
  a block (it is null before the configuration and dangles after a detach), and whether the size
  asked for at the attach fits.
\<close>

record life =
  life_phase :: phase
  life_ring :: bool
  life_block :: bool
  life_fits :: bool

definition stream_of :: "int \<Rightarrow> int \<Rightarrow> mach \<Rightarrow> stream_t" where
  "stream_of fd n s = (case herd s fd of None \<Rightarrow> zero_stream | Some h \<Rightarrow> stream h n)"

definition life_of :: "int \<Rightarrow> int \<Rightarrow> u32 \<Rightarrow> mach \<Rightarrow> life" where
  "life_of fd n extra s = (let st = stream_of fd n s in
     \<lparr>life_phase = phase_of fd n s, life_ring = (buf st \<noteq> 0), life_block = (\<exists>b. pbm st = PTo b),
      life_fits = (\<not> stream_size st <s default_window extra (stream_size st))\<rparr>)"

text \<open>No \<open>mmap\<close> among these events was refused.\<close>

definition granted :: "history \<Rightarrow> bool" where
  "granted L \<longleftrightarrow> (\<forall>fd a len off. MMap fd a len off None \<notin> set L)"

text \<open>
  One call: its result and what becomes of the stream, or \<open>None\<close> where the call follows a null or
  dangling pointer. \<open>ovl\<close> is the overlap mode of transmit streams, whose attach maps nothing; \<open>ok\<close>
  says that the kernel granted the mappings. The code does not mind an attach of a stream that is
  attached or running already, nor a detach of one that is not attached.
\<close>

fun life_call :: "bool \<Rightarrow> bool \<Rightarrow> life \<Rightarrow> life_op \<Rightarrow> (int \<times> life) option" where
  "life_call ovl ok l OAttach = Some (if Closed < life_phase l \<and> life_fits l \<and> (ovl \<or> ok)
     then (0, l\<lparr>life_phase := Attached, life_ring := life_ring l \<or> \<not> ovl\<rparr>) else (- 1, l))"
| "life_call ovl ok l OStart = (if \<not> life_block l then None
     else Some (if life_phase l = Attached then (0, l\<lparr>life_phase := Running\<rparr>) else (- 1, l)))"
| "life_call ovl ok l OStop = (if life_phase l \<noteq> Running then Some (- 1, l)
     else if \<not> life_block l then None else Some (0, l\<lparr>life_phase := Attached\<rparr>))"
| "life_call ovl ok l ODetach = (if life_phase l = Closed then Some (- 1, l)
     else if \<not> life_ring l then Some (0, l\<lparr>life_phase := Detached\<rparr>)
     else if \<not> life_block l then None else Some (0, l\<lparr>life_phase := Detached, life_block := False\<rparr>))"

lemma life_call_ok: "op \<noteq> OAttach \<Longrightarrow> life_call ovl ok l op = life_call ovl True l op"
  by (cases op) simp_all

lemma life_call_None: "life_call ovl ok l op = None \<Longrightarrow> life_call ovl True l op = None"
  by (cases op) simp_all

text \<open>A list of calls, each with the events it caused, and the results.\<close>

fun life_run :: "bool \<Rightarrow> life \<Rightarrow> (life_op \<times> history) list \<Rightarrow> (int list \<times> life) option" where
  "life_run ovl l [] = Some ([], l)"
| "life_run ovl l ((op, L) # xs) = (case life_call ovl (granted L) l op of None \<Rightarrow> None
     | Some (r, l1) \<Rightarrow> map_option (\<lambda>(rs, l2). (r # rs, l2)) (life_run ovl l1 xs))"

text \<open>The same calls on the machine: every call's result and the events it caused.\<close>

fun run_calls :: "(life_op \<Rightarrow> int nac) \<Rightarrow> life_op list \<Rightarrow> (int \<times> history) list nac" where
  "run_calls call [] = ret []"
| "run_calls call (op # ops) = bnd (read_st trace) (\<lambda>h0. bnd (call op) (\<lambda>r.
     bnd (read_st (\<lambda>t. drop (length h0) (trace t))) (\<lambda>L.
     bnd (run_calls call ops) (\<lambda>xs. ret ((r, L) # xs)))))"

text \<open>A call on the machine does what \<open>life_call\<close> says.\<close>

definition obeys :: "bool \<Rightarrow> life \<Rightarrow> life_op \<Rightarrow> history \<Rightarrow> int res \<Rightarrow> life \<Rightarrow> bool" where
  "obeys ovl l op L r l1 \<longleftrightarrow> (case life_call ovl (granted L) l op of None \<Rightarrow> r = Fault
     | Some (v, l2) \<Rightarrow> r = Ok v \<and> l1 = l2)"

lemma run_calls_first:
  assumes "call op s = Some (Ok r, u)" and "trace u = trace s @ L"
  shows "run_calls call (op # ops) s = bnd (run_calls call ops) (\<lambda>xs. ret ((r, L) # xs)) u"
proof -
  have "drop (length (trace s)) (trace u) = L" by (simp add: assms(2))
  then show ?thesis by (simp add: assms(1))
qed

locale stream_protocol =
  fixes call :: "life_op \<Rightarrow> int nac"
    and ovl :: bool
    and life :: "mach \<Rightarrow> life"
    and ready :: "mach \<Rightarrow> bool"
  assumes simulates: "ready s \<Longrightarrow> call op s = Some (r, t) \<Longrightarrow>
      ready t \<and> (\<exists>L. trace t = trace s @ L \<and> obeys ovl (life s) op L r (life t))"
    and waits: "ready s \<Longrightarrow> call op s = None \<Longrightarrow> op = OStop \<and> life_phase (life s) = Running"
begin

text \<open>
  A list of calls either returns, with the results and the stream that \<open>life_run\<close> says, or stops at
  one call: one that follows a bad pointer, or a stop that waits for ever.
\<close>

lemma calls_follow:
  "ready s \<Longrightarrow> (case run_calls call ops s of
     Some (Ok xs, t) \<Rightarrow> ready t \<and> length xs = length ops \<and>
       life_run ovl (life s) (zip ops (map snd xs)) = Some (map fst xs, life t)
   | Some (Fault, t) \<Rightarrow> \<exists>k < length ops. \<exists>xs u. run_calls call (take k ops) s = Some (Ok xs, u) \<and> ready u \<and>
       call (ops ! k) u = Some (Fault, t) \<and> life_call ovl True (life u) (ops ! k) = None
   | Some (Exited n, t) \<Rightarrow> False
   | None \<Rightarrow> \<exists>k < length ops. \<exists>xs u. run_calls call (take k ops) s = Some (Ok xs, u) \<and> ready u \<and>
       call (ops ! k) u = None \<and> ops ! k = OStop \<and> life_phase (life u) = Running)"
proof (induction ops arbitrary: s)
  case (Cons op ops)
  show ?case
  proof (cases "call op s")
    case None
    then have "run_calls call (op # ops) s = None" by (simp add: bnd_def)
    then show ?thesis using waits [OF Cons.prems None] None Cons.prems by (auto intro!: exI [of _ 0])
  next
    case (Some out)
    obtain r u where out: "out = (r, u)" by (cases out)
    note call = Some [unfolded out]
    obtain L where L: "ready u" "trace u = trace s @ L" "obeys ovl (life s) op L r (life u)"
      using simulates [OF Cons.prems call] by blast
    show ?thesis
    proof (cases "life_call ovl (granted L) (life s) op")
      case None
      then have r: "r = Fault" using L(3) by (simp add: obeys_def)
      then have "run_calls call (op # ops) s = Some (Fault, u)" using call by (simp add: bnd_def)
      then show ?thesis using life_call_None [OF None] call r Cons.prems by (auto intro!: exI [of _ 0])
    next
      case (Some p)
      then obtain v where p: "p = (v, life u)" "r = Ok v" using L(3) by (cases p) (simp add: obeys_def)
      have first: "run_calls call (op # ks) s = bnd (run_calls call ks) (\<lambda>xs. ret ((v, L) # xs)) u" for ks
        using run_calls_first [of call op s v u L ks] call L(2) p(2) by simp
      note IH = Cons.IH [OF L(1)]
      show ?thesis
      proof (cases "run_calls call ops u")
        case None
        then obtain k xs w where "k < length ops" "run_calls call (take k ops) u = Some (Ok xs, w)" "ready w"
          "call (ops ! k) w = None" "ops ! k = OStop" "life_phase (life w) = Running" using IH by auto
        then show ?thesis using None by (auto simp: first simp del: run_calls.simps intro!: exI [of _ "Suc k"])
      next
        case rest: (Some q)
        obtain r2 t where q: "q = (r2, t)" by (cases q)
        show ?thesis
        proof (cases r2)
          case (Ok xs)
          then show ?thesis using IH rest q Some p by (simp add: first del: run_calls.simps)
        next
          case Fault
          then obtain k xs w where "k < length ops" "run_calls call (take k ops) u = Some (Ok xs, w)" "ready w"
            "call (ops ! k) w = Some (Fault, t)" "life_call ovl True (life w) (ops ! k) = None" using IH rest q by auto
          then show ?thesis using rest q Fault by (auto simp: first simp del: run_calls.simps intro!: exI [of _ "Suc k"])
        next
          case (Exited n)
          then show ?thesis using IH rest q by simp
        qed
      qed
    qed
  qed
qed simp

text \<open>A stop undoes a start.\<close>

lemma start_stop:
  assumes "ready s" and "run_calls call [OStart, OStop] s = Some (Ok xs, t)" and "life_phase (life s) = Attached"
  shows "map fst xs = [0, 0]" and "life t = life s"
proof -
  have "length xs = 2" and run: "life_run ovl (life s) (zip [OStart, OStop] (map snd xs)) = Some (map fst xs, life t)"
    using calls_follow [OF assms(1), of "[OStart, OStop]"] unfolding assms(2) by simp_all
  then obtain a b where xs: "xs = [a, b]" by (auto simp: numeral_2_eq_2 length_Suc_conv)
  have "life_block (life s)" using run by (cases "life_block (life s)") (simp_all add: xs)
  then show "map fst xs = [0, 0]" and "life t = life s"
    using run assms(3) by (cases "life s"; simp add: xs)+
qed

end

section \<open>The two kinds of streams follow the protocol\<close>

fun rx_call :: "env \<Rightarrow> int \<Rightarrow> int \<Rightarrow> int \<Rightarrow> u32 \<Rightarrow> life_op \<Rightarrow> int nac" where
  "rx_call E fd n flags extra OAttach = nac_attach_stream E fd n flags extra"
| "rx_call E fd n flags extra OStart = nac_start_stream E fd n"
| "rx_call E fd n flags extra OStop = nac_stop_stream E fd n"
| "rx_call E fd n flags extra ODetach = nac_detach_stream E fd n"

fun tx_call :: "env \<Rightarrow> int \<Rightarrow> int \<Rightarrow> int \<Rightarrow> u32 \<Rightarrow> life_op \<Rightarrow> int nac" where
  "tx_call E fd n flags extra OAttach = nac_tx_attach_stream E fd n flags extra"
| "tx_call E fd n flags extra OStart = nac_tx_start_stream E fd n"
| "tx_call E fd n flags extra OStop = nac_tx_stop_stream E fd n"
| "tx_call E fd n flags extra ODetach = nac_tx_detach_stream E fd n flags"

text \<open>An open herd entry, a stream number in the array, and a kernel that maps nothing at the null address.\<close>

definition stream_ready :: "env \<Rightarrow> int \<Rightarrow> int \<Rightarrow> mach \<Rightarrow> bool" where
  "stream_ready E fd n s \<longleftrightarrow> mapped fd s \<and> 0 \<le> n \<and> n < NAC_STREAM_MAX \<and> (\<forall>hist. mmap_at E hist \<noteq> Some 0)"

lemma stream_readyE:
  assumes "stream_ready E fd n s"
  obtains h where "herd s fd = Some h" and "iom h \<noteq> 0" and "0 \<le> n" and "n < NAC_STREAM_MAX"
    and "\<forall>hist. mmap_at E hist \<noteq> Some 0"
proof -
  have s: "mapped fd s" "0 \<le> n" "n < NAC_STREAM_MAX" "\<forall>hist. mmap_at E hist \<noteq> Some 0"
    using assms by (simp_all add: stream_ready_def)
  from s(1) show thesis by (rule mappedE) (rule that, use s in auto)
qed

lemma stream_readyI:
  "herd s fd = Some h \<Longrightarrow> iom h \<noteq> 0 \<Longrightarrow> 0 \<le> n \<Longrightarrow> n < NAC_STREAM_MAX \<Longrightarrow> \<forall>hist. mmap_at E hist \<noteq> Some 0 \<Longrightarrow>
   stream_ready E fd n s"
  by (auto simp: stream_ready_def)

lemma phase_ofs:
  "herd s fd = Some h \<Longrightarrow> phase_of fd n s = (if \<not> opened h then Closed
     else if \<not> attached (stream h n) then Detached
     else if started (stream h n) then Running else Attached)"
  by (simp add: phase_of_def)

lemma life_ofs:
  "herd s fd = Some h \<Longrightarrow> life_of fd n extra s = \<lparr>life_phase = phase_of fd n s, life_ring = (buf (stream h n) \<noteq> 0),
     life_block = (\<exists>b. pbm (stream h n) = PTo b),
     life_fits = (\<not> stream_size (stream h n) <s default_window extra (stream_size (stream h n)))\<rparr>"
  by (simp add: life_of_def stream_of_def Let_def)

lemma granted_simps [simp]:
  "granted []" "granted (MMap fd a len off (Some r) # L) = granted L" "\<not> granted (MMap fd a len off None # L)"
  "granted (RegRd fd x v # L) = granted L" "granted (RegWr fd x v # L) = granted L" "granted (MUnmap b len # L) = granted L"
  "granted (Delay k # L) = granted L"
  by (auto simp: granted_def)

text \<open>The result of one call, with what it leaves of the state.\<close>

definition does_life :: "bool \<Rightarrow> env \<Rightarrow> int \<Rightarrow> int \<Rightarrow> u32 \<Rightarrow> life_op \<Rightarrow> int nac \<Rightarrow> mach \<Rightarrow> bool" where
  "does_life ovl E fd n extra op m s \<longleftrightarrow> (\<exists>r t L. m s = Some (r, t) \<and> stream_ready E fd n t \<and> trace t = trace s @ L \<and>
     obeys ovl (life_of fd n extra s) op L r (life_of fd n extra t))"

lemma doesI:
  "m s = Some (r, t) \<Longrightarrow> stream_ready E fd n t \<Longrightarrow> trace t = trace s @ L \<Longrightarrow>
   obeys ovl (life_of fd n extra s) op L r (life_of fd n extra t) \<Longrightarrow> does_life ovl E fd n extra op m s"
  unfolding does_life_def by blast

lemmas life_sims = obeys_def life_ofs phase_ofs Closed_less show_reg_def dma_pause_def rmw_def

lemma rx_start_does:
  assumes "stream_ready E fd n s"
  shows "does_life ovl E fd n extra OStart (nac_start_stream E fd n) s"
proof -
  obtain h where h: "herd s fd = Some h" "iom h \<noteq> 0" "0 \<le> n" "n < NAC_STREAM_MAX" and E: "\<forall>hist. mmap_at E hist \<noteq> Some 0"
    using assms by (rule stream_readyE)
  show ?thesis
    unfolding does_life_def stream_ready_def
    using h E by (cases "pbm (stream h n)")
      (auto simp: nac_start_stream_def check_startable_def life_sims)
qed

lemma tx_start_does:
  assumes "stream_ready E fd n s" and "NUM_STREAM \<le> n"
  shows "does_life ovl E fd n extra OStart (nac_tx_start_stream E fd n) s"
proof -
  obtain h where h: "herd s fd = Some h" "iom h \<noteq> 0" "0 \<le> n" "n < NAC_STREAM_MAX" and E: "\<forall>hist. mmap_at E hist \<noteq> Some 0"
    using assms(1) by (rule stream_readyE)
  show ?thesis
    unfolding does_life_def stream_ready_def
    using h E assms(2) by (cases "pbm (stream h n)")
      (auto simp: nac_tx_start_stream_def check_startable_def life_sims)
qed

lemma rx_stop_does:
  assumes "stream_ready E fd n s"
  shows "does_life ovl E fd n extra OStop (nac_stop_stream E fd n) s"
proof -
  obtain h where h: "herd s fd = Some h" "iom h \<noteq> 0" "0 \<le> n" "n < NAC_STREAM_MAX" and E: "\<forall>hist. mmap_at E hist \<noteq> Some 0"
    using assms by (rule stream_readyE)
  show ?thesis
    unfolding does_life_def stream_ready_def
    using h E by (cases "pbm (stream h n)")
      (auto simp: nac_stop_stream_def check_started_def life_sims)
qed

lemma detach_does:
  assumes h: "herd s fd = Some h" "iom h \<noteq> 0" "0 \<le> n" "n < NAC_STREAM_MAX" and E: "\<forall>hist. mmap_at E hist \<noteq> Some 0"
    and op: "opened h"
  shows "does_life ovl E fd n extra ODetach (detach_body E fd n unmap) s"
  unfolding does_life_def stream_ready_def
  using h E op by (cases "pbm (stream h n)")
    (auto simp: detach_body_def free_pbm_def life_sims)

lemma rx_detach_does:
  assumes "stream_ready E fd n s"
  shows "does_life ovl E fd n extra ODetach (nac_detach_stream E fd n) s"
proof -
  obtain h where h: "herd s fd = Some h" "iom h \<noteq> 0" "0 \<le> n" "n < NAC_STREAM_MAX" and E: "\<forall>hist. mmap_at E hist \<noteq> Some 0"
    using assms by (rule stream_readyE)
  show ?thesis
  proof (cases "opened h")
    case True
    then have "nac_detach_stream E fd n s = detach_body E fd n True s" using h by (simp add: nac_detach_stream_def)
    then show ?thesis using detach_does [OF h E True] by (simp add: does_life_def)
  next
    case False
    then show ?thesis
      unfolding does_life_def stream_ready_def using h E by (auto simp: nac_detach_stream_def life_sims)
  qed
qed

lemma tx_detach_does:
  assumes "stream_ready E fd n s" and "NUM_STREAM \<le> n"
  shows "does_life ovl E fd n extra ODetach (nac_tx_detach_stream E fd n flags) s"
proof -
  obtain h where h: "herd s fd = Some h" "iom h \<noteq> 0" "0 \<le> n" "n < NAC_STREAM_MAX" and E: "\<forall>hist. mmap_at E hist \<noteq> Some 0"
    using assms(1) by (rule stream_readyE)
  show ?thesis
  proof (cases "opened h")
    case True
    then have "nac_tx_detach_stream E fd n flags s = detach_body E fd n (flags \<noteq> OVERLAP_FWD) s"
      using h assms(2) by (simp add: nac_tx_detach_stream_def)
    then show ?thesis using detach_does [OF h E True] by (simp add: does_life_def)
  next
    case False
    then show ?thesis
      unfolding does_life_def stream_ready_def using h E by (auto simp: nac_tx_detach_stream_def life_sims)
  qed
qed

lemma mmap_any:
  "\<exists>u. mmap E fd a len off s = Some (Ok (mmap_at E (trace s)), u) \<and> herd u = herd s \<and>
     trace u = trace s @ [MMap fd a len off (mmap_at E (trace s))]"
  by (cases "mmap_at E (trace s)") (simp_all add: mmap_def)

lemma map_twice_outcome:
  assumes "\<forall>hist. mmap_at E hist \<noteq> Some 0"
  shows "\<exists>m u L. map_twice E fd n z x s = Some (Ok m, u) \<and> herd u = herd s \<and> trace u = trace s @ L \<and>
     (granted L \<longleftrightarrow> m \<noteq> None) \<and> m \<noteq> Some 0"
proof -
  let ?off = "scast (z * word_of_int n) :: u64"
  obtain u1 where u1: "mmap E (- 1) 0 (ucast (z + x)) 0 s = Some (Ok (mmap_at E (trace s)), u1)"
    "herd u1 = herd s" "trace u1 = trace s @ [MMap (- 1) 0 (ucast (z + x)) 0 (mmap_at E (trace s))]"
    using mmap_any by blast
  show ?thesis
  proof (cases "mmap_at E (trace s)")
    case None
    then show ?thesis using u1 by (simp add: map_twice_def)
  next
    case sp: (Some sp)
    obtain u2 where u2: "mmap E fd sp (scast z) ?off u1 = Some (Ok (mmap_at E (trace u1)), u2)"
      "herd u2 = herd u1" "trace u2 = trace u1 @ [MMap fd sp (scast z) ?off (mmap_at E (trace u1))]"
      using mmap_any by blast
    show ?thesis
    proof (cases "mmap_at E (trace u1)")
      case None
      then show ?thesis using u1 u2 sp by (simp add: map_twice_def)
    next
      case p: (Some p)
      obtain u3 where u3: "mmap E fd (sp + scast z) (ucast x) ?off u2 = Some (Ok (mmap_at E (trace u2)), u3)"
        "herd u3 = herd u2" "trace u3 = trace u2 @ [MMap fd (sp + scast z) (ucast x) ?off (mmap_at E (trace u2))]"
        using mmap_any by blast
      show ?thesis
        using u1 u2 u3 sp p assms by (cases "mmap_at E (trace u2)") (auto simp: map_twice_def)
    qed
  qed
qed

lemma set_poll_defaults_fields [simp]:
  "attached (set_poll_defaults st) = attached st" "started (set_poll_defaults st) = started st"
  "stream_size (set_poll_defaults st) = stream_size st" "pbm (set_poll_defaults st) = pbm st"
  "buf (set_poll_defaults st) = buf st" "phyaddr (set_poll_defaults st) = phyaddr st"
  by (simp_all add: set_poll_defaults_def)

lemma rx_attach_does:
  assumes "stream_ready E fd n s"
  shows "does_life False E fd n extra OAttach (nac_attach_stream E fd n flags extra) s"
proof -
  obtain h where h: "herd s fd = Some h" "iom h \<noteq> 0" "0 \<le> n" "n < NAC_STREAM_MAX" and E: "\<forall>hist. mmap_at E hist \<noteq> Some 0"
    using assms by (rule stream_readyE)
  let ?z = "stream_size (stream h n)"
  let ?x = "default_window extra ?z"
  show ?thesis
  proof (cases "opened h \<and> \<not> ?z <s ?x")
    case False
    then show ?thesis
      unfolding does_life_def stream_ready_def using h E
      by (cases "opened h") (auto simp: nac_attach_stream_def Let_def life_sims)
  next
    case True
    define s1 where "s1 = s\<lparr>herd := (herd s)(fd \<mapsto>
      h\<lparr>stream := (stream h)(n := set_poll_defaults (stream h n))\<rparr>)\<rparr>"
    obtain m u L where m: "map_twice E fd n ?z ?x s1 = Some (Ok m, u)" "herd u = herd s1" "trace u = trace s1 @ L"
      "granted L \<longleftrightarrow> m \<noteq> None" "m \<noteq> Some 0" using map_twice_outcome [OF E] by blast
    note m1 = m(1) [unfolded s1_def]
    show ?thesis
    proof (cases m)
      case None
      then have "nac_attach_stream E fd n flags extra s = Some (Ok (- 1), u)"
        using True h m1 by (simp add: nac_attach_stream_def Let_def)
      then show ?thesis
        by (rule doesI) (use None True h E m in \<open>auto simp: s1_def stream_ready_def life_sims\<close>)
    next
      case (Some p)
      have "\<exists>t. nac_attach_stream E fd n flags extra s = Some (Ok 0, t) \<and> trace t = trace u \<and>
          herd t = (herd u)(fd \<mapsto> h\<lparr>stream := (stream h)(n := (set_poll_defaults (stream h n))\<lparr>extra_window_size := ?x,
            buf := p, offset := 0, free_space := 0, is_first_time := True,
            phyaddr := phy_addr (nacinf h) + word_of_int n * ?z, attached := True, started := False\<rparr>)\<rparr>)"
        using True h m1 m(2) Some by (simp add: nac_attach_stream_def Let_def s1_def)
      then obtain t where t: "nac_attach_stream E fd n flags extra s = Some (Ok 0, t)" "trace t = trace u"
          "herd t = (herd u)(fd \<mapsto> h\<lparr>stream := (stream h)(n := (set_poll_defaults (stream h n))\<lparr>extra_window_size := ?x,
            buf := p, offset := 0, free_space := 0, is_first_time := True,
            phyaddr := phy_addr (nacinf h) + word_of_int n * ?z, attached := True, started := False\<rparr>)\<rparr>)"
        by blast
      show ?thesis
        by (rule doesI, rule t(1)) (use t(2,3) Some True h E m in \<open>auto simp: s1_def stream_ready_def life_sims\<close>)
    qed
  qed
qed

lemma tx_attach_does:
  assumes "stream_ready E fd n s" and tx: "NUM_STREAM \<le> n"
  shows "does_life (flags = OVERLAP_FWD) E fd n extra OAttach (nac_tx_attach_stream E fd n flags extra) s"
proof -
  obtain h where h: "herd s fd = Some h" "iom h \<noteq> 0" "0 \<le> n" "n < NAC_STREAM_MAX" and E: "\<forall>hist. mmap_at E hist \<noteq> Some 0"
    using assms(1) by (rule stream_readyE)
  let ?z = "stream_size (stream h n)"
  let ?x = "default_window extra ?z"
  show ?thesis
  proof (cases "opened h \<and> \<not> ?z <s ?x \<and> flags \<noteq> OVERLAP_FWD")
    case False
    then show ?thesis
      unfolding does_life_def stream_ready_def using h E tx
      by (cases "opened h"; cases "?z <s ?x") (auto simp: nac_tx_attach_stream_def Let_def life_sims)
  next
    case True
    define s1 where "s1 = s\<lparr>herd := (herd s)(fd \<mapsto>
      h\<lparr>stream := (stream h)(n := set_poll_defaults (stream h n))\<rparr>)\<rparr>"
    obtain m u L where m: "map_twice E fd n ?z ?x s1 = Some (Ok m, u)" "herd u = herd s1" "trace u = trace s1 @ L"
      "granted L \<longleftrightarrow> m \<noteq> None" "m \<noteq> Some 0" using map_twice_outcome [OF E] by blast
    note m1 = m(1) [unfolded s1_def]
    show ?thesis
    proof (cases m)
      case None
      then have "nac_tx_attach_stream E fd n flags extra s = Some (Ok (- 1), u)"
        using True h m1 tx by (simp add: nac_tx_attach_stream_def Let_def bnd_assoc)
      then show ?thesis
        by (rule doesI) (use None True h E m in \<open>auto simp: s1_def stream_ready_def life_sims\<close>)
    next
      case (Some p)
      have "\<exists>t. nac_tx_attach_stream E fd n flags extra s = Some (Ok 0, t) \<and> trace t = trace u \<and>
          herd t = (herd u)(fd \<mapsto> h\<lparr>stream := (stream h)(n := (set_poll_defaults (stream h n))\<lparr>extra_window_size := ?x,
            phyaddr := phy_addr (nacinf h) + word_of_int n * ?z, buf := p, offset := 0, free_space := 0,
            is_first_time := True, attached := True, started := False\<rparr>)\<rparr>)"
        using True h m1 m(2) Some tx by (simp add: nac_tx_attach_stream_def Let_def s1_def bnd_assoc)
      then obtain t where t: "nac_tx_attach_stream E fd n flags extra s = Some (Ok 0, t)" "trace t = trace u"
          "herd t = (herd u)(fd \<mapsto> h\<lparr>stream := (stream h)(n := (set_poll_defaults (stream h n))\<lparr>extra_window_size := ?x,
            phyaddr := phy_addr (nacinf h) + word_of_int n * ?z, buf := p, offset := 0, free_space := 0,
            is_first_time := True, attached := True, started := False\<rparr>)\<rparr>)"
        by blast
      show ?thesis
        by (rule doesI, rule t(1)) (use t(2,3) Some True h E m in \<open>auto simp: s1_def stream_ready_def life_sims\<close>)
    qed
  qed
qed

text \<open>Waiting for the ring to drain either never ends or changes nothing but the trace.\<close>

lemma granted_append: "granted (L @ M) \<longleftrightarrow> granted L \<and> granted M"
  by (auto simp: granted_def)

lemma wait_drained_outcome:
  assumes "mapped fd s"
  shows "wait_drained E fd p limit rcd s = None \<or> (\<exists>t L. wait_drained E fd p limit rcd s = Some (Ok (), t) \<and>
     herd t = herd s \<and> trace t = trace s @ L)"
proof (cases "wait_drained E fd p limit rcd s")
  case (Some out)
  have "fst out = Ok () \<and> herd (snd out) = herd s \<and> (\<exists>L. trace (snd out) = trace s @ L)"
    using Some [unfolded wait_drained_def]
    by (rule iterate_invariant [where I = "\<lambda>x t. mapped fd t \<and> herd t = herd s \<and> (\<exists>L. trace t = trace s @ L)"])
      (use assms in \<open>auto simp: drain_round_def reg_read_mapped split: if_splits\<close>)
  then show ?thesis using Some by (cases out) auto
qed simp

lemma tx_stop_does:
  assumes "stream_ready E fd n s" and tx: "NUM_STREAM \<le> n"
  shows "does_life ovl E fd n extra OStop (nac_tx_stop_stream E fd n) s \<or>
     nac_tx_stop_stream E fd n s = None \<and> phase_of fd n s = Running"
proof -
  obtain h where h: "herd s fd = Some h" "iom h \<noteq> 0" "0 \<le> n" "n < NAC_STREAM_MAX" and E: "\<forall>hist. mmap_at E hist \<noteq> Some 0"
    using assms(1) by (rule stream_readyE)
  show ?thesis
  proof (cases "phase_of fd n s = Running \<and> (\<exists>p. pbm (stream h n) = PTo p)")
    case False
    then have "does_life ovl E fd n extra OStop (nac_tx_stop_stream E fd n) s"
      unfolding does_life_def stream_ready_def using h E tx
      by (cases "pbm (stream h n)") (auto simp: nac_tx_stop_stream_def check_started_def life_sims split: if_splits)
    then show ?thesis ..
  next
    case True
    then obtain p where p: "pbm (stream h n) = PTo p" by blast
    have ph: "opened h" "attached (stream h n)" "started (stream h n)"
      using True h by (auto simp: phase_ofs split: if_splits)
    define rcd where "rcd = dev E (trace s) fd (record_ptr p)"
    define limit where "limit = dev E (trace s @ [RegRd fd (record_ptr p) rcd]) fd (limit_ptr p)"
    define s1 where "s1 = s\<lparr>trace := trace s @ [RegRd fd (record_ptr p) rcd, RegRd fd (limit_ptr p) limit]\<rparr>"
    have m: "mapped fd s1" using h by (auto simp: s1_def)
    have run: "nac_tx_stop_stream E fd n s = bnd (wait_drained E fd p limit rcd) (\<lambda>_.
        bnd (dma_pause E fd p) (\<lambda>_. bnd (put_stream fd n (\<lambda>st. st\<lparr>started := False\<rparr>)) (\<lambda>_. ret 0))) s1"
      using h p ph tx by (simp add: nac_tx_stop_stream_def check_started_def rcd_def s1_def limit_def)
    from wait_drained_outcome [OF m, of E p limit rcd] show ?thesis
    proof (elim disjE exE conjE)
      assume "wait_drained E fd p limit rcd s1 = None"
      then show ?thesis using run True by (simp add: bnd_def)
    next
      fix t L
      assume t: "wait_drained E fd p limit rcd s1 = Some (Ok (), t)" "herd t = herd s1" "trace t = trace s1 @ L"
      have "does_life ovl E fd n extra OStop (nac_tx_stop_stream E fd n) s"
        unfolding does_life_def stream_ready_def run
        using t h E p ph by (auto simp: s1_def life_sims)
      then show ?thesis ..
    qed
  qed
qed

lemma doesE:
  assumes "does_life ovl E fd n extra op m s" and "m s = Some (r, t)"
  obtains L where "stream_ready E fd n t" and "trace t = trace s @ L"
    and "obeys ovl (life_of fd n extra s) op L r (life_of fd n extra t)"
  using assms by (auto simp: does_life_def)

lemma does_returns: "does_life ovl E fd n extra op m s \<Longrightarrow> m s \<noteq> None"
  by (auto simp: does_life_def)

lemma rx_does:
  "stream_ready E fd n s \<Longrightarrow> does_life False E fd n extra op (rx_call E fd n flags extra op) s"
  by (cases op) (simp_all add: rx_attach_does rx_start_does rx_stop_does rx_detach_does)

lemma tx_does:
  "stream_ready E fd n s \<Longrightarrow> NUM_STREAM \<le> n \<Longrightarrow>
   does_life (flags = OVERLAP_FWD) E fd n extra op (tx_call E fd n flags extra op) s \<or>
   tx_call E fd n flags extra op s = None \<and> op = OStop \<and> phase_of fd n s = Running"
  using tx_stop_does by (cases op) (simp_all add: tx_attach_does tx_start_does tx_detach_does)

lemma life_phase_of [simp]: "life_phase (life_of fd n extra s) = phase_of fd n s"
  by (simp add: life_of_def Let_def)

interpretation rx: stream_protocol "rx_call E fd n flags extra" False "life_of fd n extra" "stream_ready E fd n"
  for E fd n flags extra
proof
  fix s op r t
  assume "stream_ready E fd n s" "rx_call E fd n flags extra op s = Some (r, t)"
  then show "stream_ready E fd n t \<and> (\<exists>L. trace t = trace s @ L \<and>
      obeys False (life_of fd n extra s) op L r (life_of fd n extra t))"
    using doesE [OF rx_does] by metis
next
  fix s op
  assume "stream_ready E fd n s" "rx_call E fd n flags extra op s = None"
  then show "op = OStop \<and> life_phase (life_of fd n extra s) = Running"
    using does_returns [OF rx_does] by blast
qed

text \<open>Transmit streams have the numbers from 8 on.\<close>

interpretation tx: stream_protocol "tx_call E fd n flags extra" "flags = OVERLAP_FWD" "life_of fd n extra"
    "\<lambda>s. stream_ready E fd n s \<and> NUM_STREAM \<le> n"
  for E fd n flags extra
proof
  fix s op r t
  assume s: "stream_ready E fd n s \<and> NUM_STREAM \<le> n" and r: "tx_call E fd n flags extra op s = Some (r, t)"
  then have "does_life (flags = OVERLAP_FWD) E fd n extra op (tx_call E fd n flags extra op) s"
    using tx_does [of E fd n s flags extra op] by auto
  from this r show "(stream_ready E fd n t \<and> NUM_STREAM \<le> n) \<and> (\<exists>L. trace t = trace s @ L \<and>
      obeys (flags = OVERLAP_FWD) (life_of fd n extra s) op L r (life_of fd n extra t))"
    using s by (elim doesE) auto
next
  fix s op
  assume "stream_ready E fd n s \<and> NUM_STREAM \<le> n" "tx_call E fd n flags extra op s = None"
  then show "op = OStop \<and> life_phase (life_of fd n extra s) = Running"
    using tx_does [of E fd n s flags extra op] by (auto dest: does_returns)
qed

lemma free_pbm_Ok:
  "bnd (free_pbm fd n) f s = Some (Ok r, t) \<longleftrightarrow> (\<exists>h. herd s fd = Some h \<and> 0 \<le> n \<and> n < NAC_STREAM_MAX \<and>
     ((pbm (stream h n) = PNull \<and> f () s = Some (Ok r, t)) \<or>
      (\<exists>b. pbm (stream h n) = PTo b \<and> f () (s\<lparr>herd := (herd s)(fd \<mapsto>
         h\<lparr>stream := (stream h)(n := (stream h n)\<lparr>pbm := PFreed\<rparr>)\<rparr>)\<rparr>) = Some (Ok r, t))))"
  by (cases "herd s fd"; cases "0 \<le> n \<and> n < NAC_STREAM_MAX"; cases "pbm (stream (the (herd s fd)) n)")
    (auto simp: free_pbm_def bnd_def get_stream_def put_stream_def)

text \<open>
  C5. The life of a receive stream is that of a small machine, whatever calls of attach, start,
  stop and detach are made, in any order, on an open herd entry. Where the calls return, their
  results and what becomes of the stream are exactly those of \<open>life_run\<close>: an attach succeeds
  if and only if the card is open, the window asked for fits and the kernel grants the mappings,
  a start if and only if the stream is attached and not running, a stop if and only if it is
  running, a detach if and only if the card is open; a successful call brings the stream to the
  phase it names and a failed one, with -1, leaves it. If one of them is undefined behaviour,
  the calls before it return and \<open>life_call\<close> says so of that call: it follows a register block
  that is null or freed. Every sequence ends in one of these two ways. The kernel maps nothing at
  the null address.
\<close>

theorem rx_calls_follow_protocol:
  assumes "mapped fd s" and "0 \<le> n" and "n < NAC_STREAM_MAX" and "\<forall>hist. mmap_at E hist \<noteq> Some 0"
  shows "case run_calls (rx_call E fd n flags extra) ops s of
      Some (Ok xs, t) \<Rightarrow> length xs = length ops \<and> life_run False (life_of fd n extra s) (zip ops (map snd xs)) =
        Some (map fst xs, life_of fd n extra t)
    | Some (Fault, t) \<Rightarrow> \<exists>k < length ops. \<exists>xs u. run_calls (rx_call E fd n flags extra) (take k ops) s = Some (Ok xs, u) \<and>
        rx_call E fd n flags extra (ops ! k) u = Some (Fault, t) \<and> life_call False True (life_of fd n extra u) (ops ! k) = None
    | Some (Exited c, t) \<Rightarrow> False
    | None \<Rightarrow> False"
proof -
  have s: "stream_ready E fd n s" using assms by (simp add: stream_ready_def)
  note fol = rx.calls_follow [OF s, where flags = flags and extra = extra and ops = ops]
  show ?thesis
  proof (cases "run_calls (rx_call E fd n flags extra) ops s")
    case None
    then obtain k u where "stream_ready E fd n u" "rx_call E fd n flags extra (ops ! k) u = None"
      using fol by auto
    then show ?thesis using does_returns [OF rx_does, of E fd n u flags extra "ops ! k"] by simp
  next
    case (Some out)
    obtain r t where "out = (r, t)" by (cases out)
    then show ?thesis using fol Some by (cases r) auto
  qed
qed

text \<open>
  C6. The life of a transmit stream (numbers from 8 on) is that of the same machine, except that
  in the overlap mode an attach maps nothing, so that the kernel has no say in it and the ring
  stays what it was, and that a sequence may also not return: then the call that does not is a
  stop of a running stream, which waits for the card to drain the ring.
\<close>

theorem tx_calls_follow_protocol:
  assumes "mapped fd s" and "NUM_STREAM \<le> n" and "n < NAC_STREAM_MAX" and "\<forall>hist. mmap_at E hist \<noteq> Some 0"
  shows "case run_calls (tx_call E fd n flags extra) ops s of
      Some (Ok xs, t) \<Rightarrow> length xs = length ops \<and>
        life_run (flags = OVERLAP_FWD) (life_of fd n extra s) (zip ops (map snd xs)) =
          Some (map fst xs, life_of fd n extra t)
    | Some (Fault, t) \<Rightarrow> \<exists>k < length ops. \<exists>xs u. run_calls (tx_call E fd n flags extra) (take k ops) s = Some (Ok xs, u) \<and>
        tx_call E fd n flags extra (ops ! k) u = Some (Fault, t) \<and>
        life_call (flags = OVERLAP_FWD) True (life_of fd n extra u) (ops ! k) = None
    | Some (Exited c, t) \<Rightarrow> False
    | None \<Rightarrow> \<exists>k < length ops. \<exists>xs u. run_calls (tx_call E fd n flags extra) (take k ops) s = Some (Ok xs, u) \<and>
        tx_call E fd n flags extra (ops ! k) u = None \<and> ops ! k = OStop \<and> phase_of fd n u = Running"
proof -
  have s: "stream_ready E fd n s \<and> NUM_STREAM \<le> n" using assms by (simp add: stream_ready_def NUM_STREAM_def)
  note fol = tx.calls_follow [OF s, where flags = flags and extra = extra and ops = ops]
  show ?thesis
  proof (cases "run_calls (tx_call E fd n flags extra) ops s")
    case None
    then show ?thesis using fol by auto
  next
    case (Some out)
    obtain r t where "out = (r, t)" by (cases out)
    then show ?thesis using fol Some by (cases r) auto
  qed
qed

section \<open>The ring mapped twice\<close>

text \<open>
  \<open>mmap\<close> with \<open>MAP_FIXED\<close> answers the address it was asked for: stated for the two calls
  that follow the reservation at \<open>sp\<close>.
\<close>

definition fixed_maps :: "env \<Rightarrow> int \<Rightarrow> history \<Rightarrow> u64 \<Rightarrow> u64 \<Rightarrow> u64 \<Rightarrow> u64 \<Rightarrow> bool" where
  "fixed_maps E fd hist whole sp z off \<longleftrightarrow> mmap_at E hist = Some sp \<and>
     mmap_at E (hist @ [MMap (- 1) 0 whole 0 (Some sp)]) = Some sp \<and>
     mmap_at E (hist @ [MMap (- 1) 0 whole 0 (Some sp), MMap fd sp z off (Some sp)]) = Some (sp + z)"

text \<open>Where the process sees the ring of \<open>z\<close> bytes at the hole's offset \<open>off\<close>, and again.\<close>

definition double_mapped :: "(u64 \<Rightarrow> cell) \<Rightarrow> int \<Rightarrow> u64 \<Rightarrow> u64 \<Rightarrow> u64 \<Rightarrow> u64 \<Rightarrow> bool" where
  "double_mapped vm fd b z x off \<longleftrightarrow>
     (\<forall>i. i < z \<longrightarrow> vm (b + i) = Hole fd (off + i)) \<and> (\<forall>i. i < x \<longrightarrow> vm (b + z + i) = Hole fd (off + i))"

lemma double_mappedI:
  assumes "uint z + uint x \<le> 2 ^ 64"
  shows "double_mapped (map_range (b + z) x (\<lambda>i. Hole fd (off + i))
     (map_range b z (\<lambda>i. Hole fd (off + i)) vm)) fd b z x off"
proof -
  have "b + i - (b + z) = i - z" for i by simp
  then show ?thesis
    using below_not_in_next [OF _ assms] by (simp add: double_mapped_def map_range_def)
qed

lemma map_twice_run:
  assumes "fixed_maps E fd (trace s) (ucast (z + x)) sp (scast z) (scast (z * word_of_int n))"
    and "fd \<noteq> - 1" and "uint z < 2 ^ 31" and "uint x < 2 ^ 32"
  shows "\<exists>t. map_twice E fd n z x s = Some (Ok (Some sp), t) \<and> herd t = herd s \<and>
     double_mapped (vmap t) fd sp (ucast z) (ucast x) (scast (z * word_of_int n)) \<and>
     reg_writes fd (trace t) = reg_writes fd (trace s)"
proof -
  have "uint (ucast z :: u64) + uint (ucast x :: u64) \<le> 2 ^ 64"
    using assms(3,4) by (simp add: uint_up_ucast is_up)
  note dm = double_mappedI [OF this]
  note m = assms(1) [unfolded fixed_maps_def]
  have run: "\<exists>t. mmap E (- 1) 0 (ucast (z + x)) 0 s = Some (Ok (Some sp), t) \<and> herd t = herd s \<and>
      trace t = trace s @ [MMap (- 1) 0 (ucast (z + x)) 0 (Some sp)]"
    using m by (simp add: mmap_def)
  then obtain t1 where t1: "mmap E (- 1) 0 (ucast (z + x)) 0 s = Some (Ok (Some sp), t1)"
    "herd t1 = herd s" "trace t1 = trace s @ [MMap (- 1) 0 (ucast (z + x)) 0 (Some sp)]" by blast
  show ?thesis
    using t1 m dm assms(2) by (simp add: map_twice_def mmap_hole_run scast_small [OF assms(3)])
qed

lemma attach_run:
  assumes "herd s fd = Some h" and "opened h" and "0 \<le> n" and "n < NAC_STREAM_MAX" and "fd \<noteq> - 1"
    and "z = stream_size (stream h n)" and "uint z < 2 ^ 31"
    and "x = default_window extra z" and "\<not> z <s x"
    and "fixed_maps E fd (trace s) (ucast (z + x)) sp (scast z) (scast (z * word_of_int n))"
  shows "\<exists>t h'. nac_attach_stream E fd n flags extra s = Some (Ok 0, t) \<and> herd t fd = Some h' \<and>
     h' = h\<lparr>stream := (stream h)(n := stream h' n)\<rparr> \<and> pbm (stream h' n) = pbm (stream h n) \<and>
     stream_size (stream h' n) = z \<and> reg_writes fd (trace t) = reg_writes fd (trace s) \<and>
     phase_of fd n t = Attached \<and> buf (stream h' n) = sp \<and>
     phyaddr (stream h' n) = phy_addr (nacinf h) + word_of_int n * z \<and>
     double_mapped (vmap t) fd sp (ucast z) (ucast x) (scast (z * word_of_int n))"
proof -
  have x: "uint x < 2 ^ 32" using uint_lt2p [of x] by simp
  define s1 where "s1 = s\<lparr>herd := (herd s)(fd \<mapsto>
    h\<lparr>stream := (stream h)(n := set_poll_defaults (stream h n))\<rparr>)\<rparr>"
  have "fixed_maps E fd (trace s1) (ucast (z + x)) sp (scast z) (scast (z * word_of_int n))"
    using assms(10) by (simp add: s1_def)
  from map_twice_run [OF this assms(5,7) x] obtain t where t:
    "map_twice E fd n z x s1 = Some (Ok (Some sp), t)" "herd t = herd s1"
    "double_mapped (vmap t) fd sp (ucast z) (ucast x) (scast (z * word_of_int n))"
    "reg_writes fd (trace t) = reg_writes fd (trace s1)" by blast
  show ?thesis
    using assms(1-4,9) t(2-4) t(1) [unfolded s1_def] unfolding assms(6,8)
    by (simp add: nac_attach_stream_def Let_def s1_def phase_of_def)
qed

text \<open>
  Attaching a receive stream of \<open>z\<close> bytes (below 2 GB) whose window \<open>x\<close> is at most \<open>z\<close>
  returns 0 and leaves the stream attached and stopped, with its bus address at n * z from the
  hole's base, and with the ring visible twice in a row: byte \<open>i\<close> of the buffer and byte
  \<open>z + i\<close> are the same byte of the card's hole for every \<open>i\<close> below \<open>x\<close>, so that a record that
  runs over the end of the ring can be read in one piece.
\<close>

theorem attach_maps_twice:
  assumes "herd s fd = Some h" and "opened h" and "0 \<le> n" and "n < NAC_STREAM_MAX" and "fd \<noteq> - 1"
    and "z = stream_size (stream h n)" and "uint z < 2 ^ 31"
    and "x = default_window extra z" and "\<not> z <s x"
    and "fixed_maps E fd (trace s) (ucast (z + x)) sp (scast z) (scast (z * word_of_int n))"
  shows "\<exists>t h'. nac_attach_stream E fd n flags extra s = Some (Ok 0, t) \<and> herd t fd = Some h' \<and>
     phase_of fd n t = Attached \<and> buf (stream h' n) = sp \<and>
     phyaddr (stream h' n) = phy_addr (nacinf h) + word_of_int n * z \<and>
     double_mapped (vmap t) fd sp (ucast z) (ucast x) (scast (z * word_of_int n))"
  using attach_run [OF assms] by blast

section \<open>A stream to try it on\<close>

text \<open>Card 3 with stream \<open>n\<close> configured with the register block \<open>blk\<close> and attached.\<close>

definition demo_stream :: "nacpbm_stream_t \<Rightarrow> stream_t" where
  "demo_stream blk = zero_stream\<lparr>pbm := PTo blk, stream_size := 0x100000, buf := 0x7f2000000000,
     phyaddr := 0x20000000, poll := (0, 1000000), mindata := 16, extra_window_size := 0x100000,
     is_first_time := True, attached := True\<rparr>"

definition demo_with :: "int \<Rightarrow> stream_t \<Rightarrow> mach" where
  "demo_with n st = demo_mach\<lparr>herd := [3 \<mapsto> demo_card\<lparr>stream := (stream demo_card)(n := st)\<rparr>]\<rparr>"

lemma demo_with_simps:
  "herd (demo_with n st) 3 = Some (demo_card\<lparr>stream := (stream demo_card)(n := st)\<rparr>)"
  "trace (demo_with n st) = []" "mapped 3 (demo_with n st)"
  by (simp_all add: demo_with_def demo_simps mapped_def demo_mach_def)

lemma demo_with_maps: "\<forall>hist. mmap_at demo_env hist \<noteq> Some 0"
  by (simp add: demo_env_def)

lemma demo_with_life:
  "life_of 3 n 0 (demo_with n (demo_stream blk)) = \<lparr>life_phase = Attached, life_ring = True, life_block = True, life_fits = True\<rparr>"
  by (simp add: life_of_def stream_of_def phase_of_def demo_with_simps demo_simps demo_stream_def zero_stream_def default_window_def Let_def)

lemma rx_calls_follow_protocol_witness:
  "\<exists>xs t. run_calls (rx_call demo_env 3 0 0 0) [OStart, OStart, OStop] (demo_with 0 (demo_stream (rx_pbm 0))) =
     Some (Ok xs, t) \<and> map fst xs = [0, - 1, 0] \<and> phase_of 3 0 t = Attached"
proof -
  let ?ops = "[OStart, OStart, OStop]"
  let ?s = "demo_with 0 (demo_stream (rx_pbm 0))"
  obtain xs t where t: "run_calls (rx_call demo_env 3 0 0 0) ?ops ?s = Some (Ok xs, t)"
    by (simp add: nac_start_stream_def nac_stop_stream_def check_startable_def check_started_def
        demo_with_simps demo_simps demo_stream_def zero_stream_def show_reg_def dma_pause_def rmw_def NAC_STREAM_MAX_def)
  have "length xs = length ?ops \<and>
      life_run False (life_of 3 0 0 ?s) (zip ?ops (map snd xs)) = Some (map fst xs, life_of 3 0 0 t)"
    using rx_calls_follow_protocol [where fd = 3 and s = ?s and n = 0 and E = demo_env and flags = 0 and extra = 0 and ops = ?ops] demo_with_maps
    by (simp add: t demo_with_simps NAC_STREAM_MAX_def del: run_calls.simps)
  moreover from this obtain a b c where "xs = [a, b, c]" by (auto simp: length_Suc_conv)
  ultimately have "map fst xs = [0, - 1, 0]" "life_phase (life_of 3 0 0 t) = Attached"
    by (auto simp: demo_with_life simp del: life_phase_of dest: arg_cong [of _ _ life_phase])
  with t show ?thesis by auto
qed

lemma tx_calls_follow_protocol_witness:
  "\<exists>xs t. run_calls (tx_call demo_env 3 8 0 0) [OStart, ODetach] (demo_with 8 (demo_stream (tx_pbm 0))) =
     Some (Ok xs, t) \<and> map fst xs = [0, 0] \<and> phase_of 3 8 t = Detached"
proof -
  let ?ops = "[OStart, ODetach]"
  let ?s = "demo_with 8 (demo_stream (tx_pbm 0))"
  obtain xs t where t: "run_calls (tx_call demo_env 3 8 0 0) ?ops ?s = Some (Ok xs, t)"
    by (simp add: nac_tx_start_stream_def nac_tx_detach_stream_def check_startable_def detach_body_def
        demo_with_simps demo_simps demo_stream_def zero_stream_def show_reg_def dma_pause_def rmw_def NAC_STREAM_MAX_def
        NUM_STREAM_def free_pbm_def OVERLAP_FWD_def)
  have "length xs = length ?ops \<and>
      life_run (0 = OVERLAP_FWD) (life_of 3 8 0 ?s) (zip ?ops (map snd xs)) = Some (map fst xs, life_of 3 8 0 t)"
    using tx_calls_follow_protocol [where fd = 3 and s = ?s and n = 8 and E = demo_env and flags = 0 and extra = 0 and ops = ?ops] demo_with_maps
    by (simp add: t demo_with_simps NAC_STREAM_MAX_def NUM_STREAM_def del: run_calls.simps)
  moreover from this obtain a b where "xs = [a, b]" by (auto simp: length_Suc_conv)
  ultimately have "map fst xs = [0, 0]" "life_phase (life_of 3 8 0 t) = Detached"
    by (auto simp: demo_with_life simp del: life_phase_of dest: arg_cong [of _ _ life_phase])
  with t show ?thesis by auto
qed

text \<open>An \<open>mmap\<close> that answers the next address after a mapping it has just made.\<close>

definition map_env :: env where
  "map_env = demo_env\<lparr>mmap_at := (\<lambda>hist. case rev hist of
       MMap f a l off (Some r) # _ \<Rightarrow> if f = - 1 then Some r else Some (r + l)
     | _ \<Rightarrow> Some 0x7f3000000000)\<rparr>"

lemma attach_maps_twice_witness:
  "\<exists>t. nac_attach_stream map_env 3 2 0 0 (demo_with 2 (demo_stream (rx_pbm 2))) = Some (Ok 0, t) \<and>
     double_mapped (vmap t) 3 0x7f3000000000 0x100000 0x100000 0x200000"
proof -
  let ?s = "demo_with 2 (demo_stream (rx_pbm 2))"
  let ?h = "demo_card\<lparr>stream := (stream demo_card)(2 := demo_stream (rx_pbm 2))\<rparr>"
  have z: "stream_size (stream ?h 2) = 0x100000" by (simp add: demo_stream_def)
  have sc: "(scast (0x100000 :: u32) :: u64) = 0x100000" "(scast (0x200000 :: u32) :: u64) = 0x200000"
    "(ucast (0x100000 :: u32) :: u64) = 0x100000" by simp_all
  have dw: "default_window 0 0x100000 = 0x100000" by (simp add: default_window_def)
  have "fixed_maps map_env 3 (trace ?s) (ucast (0x100000 + 0x100000 :: u32)) 0x7f3000000000
      (scast (0x100000 :: u32)) (scast (0x100000 * word_of_int 2 :: u32))"
    by (simp add: fixed_maps_def map_env_def demo_with_simps)
  from attach_maps_twice [of ?s 3 ?h 2 "0x100000" "0x100000" 0 map_env "0x7f3000000000" 0,
      OF demo_with_simps(1) _ _ _ _ z [symmetric] _ dw [symmetric] _ this]
  show ?thesis by (auto simp: demo_simps NAC_STREAM_MAX_def sc)
qed

section \<open>What start and stop do to the card\<close>

lemma start_run:
  assumes "herd s fd = Some h" and "iom h \<noteq> 0" and "0 \<le> n" and "n < NAC_STREAM_MAX"
    and "pbm (stream h n) = PTo p" and "phase_of fd n s = Attached"
  shows "\<exists>t. nac_start_stream E fd n s = Some (Ok 0, t) \<and> phase_of fd n t = Running \<and> vmap t = vmap s \<and>
     herd t fd = Some (h\<lparr>stream := (stream h)(n := (stream h n)\<lparr>started := True\<rparr>)\<rparr>) \<and>
     reg_writes fd (trace t) = reg_writes fd (trace s) @
       [(limit_ptr p, phyaddr (stream h n) + stream_size (stream h n)), (nacpbm_stream_t.dma_ctl_reg p, 8)]"
  using assms by (auto simp: nac_start_stream_def check_startable_def phase_ofs show_reg_def
      dma_ctl_values split: if_splits)

text \<open>
  Starting an attached, stopped receive stream writes two registers: the limit pointer,
  with the bus address of the ring's end, and then the control register, with the pause bit
  released and every other bit 0. Stopping a running stream writes the control register once,
  with the value read and the pause bit (bit 3) cleared, the other bits kept.
\<close>

theorem start_stop_registers:
  assumes "herd s fd = Some h" and "iom h \<noteq> 0" and "0 \<le> n" and "n < NAC_STREAM_MAX"
    and "pbm (stream h n) = PTo p"
  shows "(phase_of fd n s = Attached \<longrightarrow> (\<exists>t. nac_start_stream E fd n s = Some (Ok 0, t) \<and>
       phase_of fd n t = Running \<and> reg_writes fd (trace t) = reg_writes fd (trace s) @
         [(limit_ptr p, phyaddr (stream h n) + stream_size (stream h n)),
          (nacpbm_stream_t.dma_ctl_reg p, 8)])) \<and>
     (phase_of fd n s = Running \<longrightarrow> (\<exists>t. nac_stop_stream E fd n s = Some (Ok 0, t) \<and>
       phase_of fd n t = Attached \<and> reg_writes fd (trace t) = reg_writes fd (trace s) @
         [(nacpbm_stream_t.dma_ctl_reg p,
           dev E (trace s) fd (nacpbm_stream_t.dma_ctl_reg p) AND NOT 8)]))"
proof (intro conjI impI)
  assume "phase_of fd n s = Attached"
  then show "\<exists>t. nac_start_stream E fd n s = Some (Ok 0, t) \<and> phase_of fd n t = Running \<and>
      reg_writes fd (trace t) = reg_writes fd (trace s) @
         [(limit_ptr p, phyaddr (stream h n) + stream_size (stream h n)),
          (nacpbm_stream_t.dma_ctl_reg p, 8)]"
    using start_run [OF assms] by blast
next
  assume "phase_of fd n s = Running"
  then show "\<exists>t. nac_stop_stream E fd n s = Some (Ok 0, t) \<and> phase_of fd n t = Attached \<and>
      reg_writes fd (trace t) = reg_writes fd (trace s) @ [(nacpbm_stream_t.dma_ctl_reg p,
           dev E (trace s) fd (nacpbm_stream_t.dma_ctl_reg p) AND NOT 8)]"
    using assms by (auto simp: nac_stop_stream_def check_started_def phase_ofs dma_pause_def rmw_def
        set_dma_pause_n_0 split: if_splits)
qed

lemma start_stop_registers_witness:
  "\<exists>t. nac_start_stream demo_env 3 0 (demo_with 0 (demo_stream (rx_pbm 0))) = Some (Ok 0, t) \<and>
     phase_of 3 0 t = Running"
proof -
  have "phase_of 3 0 (demo_with 0 (demo_stream (rx_pbm 0))) = Attached"
    by (simp add: phase_of_def demo_with_simps demo_simps demo_stream_def zero_stream_def)
  then show ?thesis
    using start_stop_registers [of "demo_with 0 (demo_stream (rx_pbm 0))" 3 _ 0 "rx_pbm 0" demo_env,
      OF demo_with_simps(1)]
    by (auto simp: demo_simps demo_stream_def NAC_STREAM_MAX_def)
qed

text \<open>
  \<open>nac_detach_stream\<close> frees the register block and unmaps the ring but leaves both
  pointers in place: when it has returned for a stream with a buffer and a block, calling it
  again follows the dangling block, undefined behaviour instead of an error code.
\<close>

theorem second_detach_faults:
  assumes "nac_detach_stream E fd n s = Some (Ok 0, t)" and "herd s fd = Some h"
    and "buf (stream h n) \<noteq> 0"
  shows "nac_detach_stream E fd n t = Some (Fault, t)"
proof -
  have "opened h" using assms(1,2) by (auto simp: nac_detach_stream_def run_iffs split: if_splits)
  then have "\<exists>h' b. herd t fd = Some h' \<and> opened h' \<and> 0 \<le> n \<and> n < NAC_STREAM_MAX \<and>
      pbm (stream h' n) = PFreed \<and> buf (stream h' n) \<noteq> 0"
    using assms
    by (auto simp: nac_detach_stream_def detach_body_def run_iffs dma_pause_def rmw_def free_pbm_Ok)
  then show ?thesis by (auto simp: nac_detach_stream_def detach_body_def)
qed

lemma second_detach_faults_witness:
  "\<exists>t. nac_detach_stream demo_env 3 0 (demo_with 0 (demo_stream (rx_pbm 0))) = Some (Ok 0, t) \<and>
     nac_detach_stream demo_env 3 0 t = Some (Fault, t)"
proof -
  obtain t where t: "nac_detach_stream demo_env 3 0 (demo_with 0 (demo_stream (rx_pbm 0))) = Some (Ok 0, t)"
    by (simp add: nac_detach_stream_def detach_body_def demo_with_simps demo_simps demo_stream_def
        zero_stream_def dma_pause_def rmw_def NAC_STREAM_MAX_def free_pbm_def)
  from second_detach_faults [OF t demo_with_simps(1)] t show ?thesis by (auto simp: demo_stream_def)
qed

text \<open>
  Both start functions follow the stream's block before they look at any state: on a
  stream that was never configured, or was detached, they run into undefined behaviour instead
  of reporting that the stream is not attached (or the card not open).
\<close>

theorem start_without_block_faults:
  assumes "herd s fd = Some h" and "0 \<le> n" and "n < NAC_STREAM_MAX"
    and "pbm (stream h n) = PNull \<or> pbm (stream h n) = PFreed"
  shows "nac_start_stream E fd n s = Some (Fault, s) \<and> nac_tx_start_stream E fd n s = Some (Fault, s)"
  using assms by (auto simp: nac_start_stream_def nac_tx_start_stream_def)

lemma start_without_block_faults_witness:
  "nac_start_stream demo_env 3 5 demo_mach = Some (Fault, demo_mach)"
  using start_without_block_faults [of demo_mach 3 demo_card 5 demo_env]
  by (simp add: demo_simps NAC_STREAM_MAX_def) (simp add: demo_card_def zero_sheep_def zero_stream_def)

section \<open>Waiting for the ring to drain\<close>

lemma wait_drained_never:
  assumes "mapped fd s" and "rcd \<noteq> limit" and "\<And>hist. dev E hist fd (record_ptr p) \<noteq> limit"
  shows "wait_drained E fd p limit rcd s = None"
  unfolding wait_drained_def
  by (rule iterate_hangs [where I = "\<lambda>rcd s. mapped fd s \<and> rcd \<noteq> limit"])
    (use assms in \<open>auto simp: reg_read_mapped drain_round_def\<close>)

lemma wait_drained_ends:
  assumes "mapped fd s"
    and "\<And>hist. K \<le> length hist \<Longrightarrow> dev E hist fd (record_ptr p) = limit"
  shows "\<exists>r t. wait_drained E fd p limit rcd s = Some (Ok r, t) \<and> herd t = herd s \<and>
     reg_writes fd (trace t) = reg_writes fd (trace s)"
  unfolding wait_drained_def
proof (rule iterate_total [where I = "\<lambda>rcd u. mapped fd u \<and> herd u = herd s \<and>
      reg_writes fd (trace u) = reg_writes fd (trace s)"
      and \<mu> = "\<lambda>rcd u. if rcd = limit then 0 else Suc (K - length (trace u))"])
  show "mapped fd s \<and> herd s = herd s \<and> reg_writes fd (trace s) = reg_writes fd (trace s)"
    using assms(1) by simp
next
  fix rcd :: u32 and u :: mach
  assume u: "mapped fd u \<and> herd u = herd s \<and> reg_writes fd (trace u) = reg_writes fd (trace s)"
  show "(\<exists>x' s'. drain_round E fd p limit rcd u = Some (Ok (Inl x'), s') \<and>
      (mapped fd s' \<and> herd s' = herd s \<and> reg_writes fd (trace s') = reg_writes fd (trace s)) \<and>
      (if x' = limit then 0 else Suc (K - length (trace s'))) <
      (if rcd = limit then 0 else Suc (K - length (trace u)))) \<or>
    (\<exists>r s'. drain_round E fd p limit rcd u = Some (Ok (Inr r), s') \<and>
      herd s' = herd s \<and> reg_writes fd (trace s') = reg_writes fd (trace s))"
    using u assms(2) [of "trace u"]
    by (cases "K \<le> length (trace u)") (auto simp: reg_read_mapped drain_round_def)
qed

text \<open>
  \<open>nac_tx_stop_stream\<close> of a running transmit stream waits for the record pointer to reach
  the limit it read at the beginning. If the card's record pointer settles at that limit, it
  returns 0 with the stream stopped; if the record pointer never takes that value, the call
  never returns.
\<close>

theorem tx_stop_waits:
  assumes "herd s fd = Some h" and "iom h \<noteq> 0" and "NUM_STREAM \<le> n" and "n < NAC_STREAM_MAX"
    and "pbm (stream h n) = PTo p" and "phase_of fd n s = Running"
    and "limit = dev E (trace s @ [RegRd fd (record_ptr p) (dev E (trace s) fd (record_ptr p))]) fd (limit_ptr p)"
  shows "(\<forall>K. (\<forall>hist. K \<le> length hist \<longrightarrow> dev E hist fd (record_ptr p) = limit) \<longrightarrow>
       (\<exists>t. nac_tx_stop_stream E fd n s = Some (Ok 0, t) \<and> phase_of fd n t = Attached)) \<and>
     ((\<forall>hist. dev E hist fd (record_ptr p) \<noteq> limit) \<longrightarrow> nac_tx_stop_stream E fd n s = None)"
proof -
  have op: "opened h" "attached (stream h n)" "started (stream h n)"
    using assms(1,6) by (auto simp: phase_ofs split: if_splits)
  have n: "0 \<le> n" "\<not> n < NUM_STREAM" using assms(3) by (auto simp: NUM_STREAM_def)
  define rcd where "rcd = dev E (trace s) fd (record_ptr p)"
  define s1 where "s1 = s\<lparr>trace := trace s @ [RegRd fd (record_ptr p) rcd, RegRd fd (limit_ptr p) limit]\<rparr>"
  have m: "mapped fd s1" using assms(1,2) by (auto simp: s1_def)
  have run: "nac_tx_stop_stream E fd n s = bnd (wait_drained E fd p limit rcd) (\<lambda>_.
      bnd (dma_pause E fd p) (\<lambda>_. bnd (put_stream fd n (\<lambda>st. st\<lparr>started := False\<rparr>)) (\<lambda>_. ret 0))) s1"
    using assms(1,2,4,5) op n by (simp add: nac_tx_stop_stream_def check_started_def rcd_def s1_def assms(7))
  show ?thesis
  proof (intro conjI allI impI)
    fix K
    assume "\<forall>hist. K \<le> length hist \<longrightarrow> dev E hist fd (record_ptr p) = limit"
    then obtain t where "wait_drained E fd p limit rcd s1 = Some (Ok (), t)" "herd t = herd s1"
      using wait_drained_ends [OF m, of K E p limit rcd] by auto
    then show "\<exists>t. nac_tx_stop_stream E fd n s = Some (Ok 0, t) \<and> phase_of fd n t = Attached"
      using run assms(1,2,4) op n by (simp add: s1_def dma_pause_def rmw_def phase_of_def)
  next
    assume never: "\<forall>hist. dev E hist fd (record_ptr p) \<noteq> limit"
    then have "rcd \<noteq> limit" by (simp add: rcd_def)
    from wait_drained_never [OF m this] never have "wait_drained E fd p limit rcd s1 = None" by blast
    then show "nac_tx_stop_stream E fd n s = None" using run by simp
  qed
qed

lemma tx_stop_waits_witness:
  "\<exists>t. nac_tx_stop_stream demo_env 3 8 (demo_with 8 ((demo_stream (tx_pbm 0))\<lparr>started := True\<rparr>)) = Some (Ok 0, t)"
proof -
  let ?st = "(demo_stream (tx_pbm 0))\<lparr>started := True\<rparr>"
  have "phase_of 3 8 (demo_with 8 ?st) = Running"
    by (simp add: phase_of_def demo_with_simps demo_simps demo_stream_def)
  moreover have "dev demo_env hist fd a = 0" for hist fd a by (simp add: demo_env_def)
  ultimately show ?thesis
    using tx_stop_waits [of "demo_with 8 ?st" 3 _ 8 "tx_pbm 0" 0 demo_env, OF demo_with_simps(1)]
    by (auto simp: demo_simps demo_stream_def NAC_STREAM_MAX_def NUM_STREAM_def)
qed

end
