(* ===== verification/StreamRx.thy ===== *)
theory StreamRx
  imports StreamLife
begin

text \<open>
  Reading a receive stream (lib/nac_stream.c): handing the consumed part of the ring back to
  the card and waiting for new data (\<open>nac_advance_stream\<close>, and \<open>nac_inline_advance_stream\<close>,
  which hands back only what the transmit stream has sent), and cutting single records out of
  what has arrived (\<open>nac_get_next_record\<close>). Pointers are 64 bit words (the build defines
  \<open>platform_64\<close>), bus addresses and sizes 32 bit words; a pointer difference is the 64 bit
  word with the same bits.
\<close>

section \<open>Time\<close>

definition timerisset :: "timeval \<Rightarrow> bool" where
  "timerisset tv \<longleftrightarrow> fst tv \<noteq> 0 \<or> snd tv \<noteq> 0"

definition timeradd :: "timeval \<Rightarrow> timeval \<Rightarrow> timeval" where
  "timeradd a b = (let sec = fst a + fst b; us = snd a + snd b in
     if 1000000 \<le> us then (sec + 1, us - 1000000) else (sec, us))"

definition timer_gt :: "timeval \<Rightarrow> timeval \<Rightarrow> bool" where
  "timer_gt a b \<longleftrightarrow> (if fst a = fst b then snd b < snd a else fst b < fst a)"

definition nanosleep :: "timespec \<Rightarrow> unit nac" where
  "nanosleep ts = usleep (nat (fst ts * 1000000 + snd ts div 1000))"

section \<open>Ring arithmetic\<close>

definition SAFETY_WINDOW :: u64 where
  "SAFETY_WINDOW = 128"

text \<open>\<open>WRSAFE\<close>: the comparison is of signed 64 bit numbers.\<close>

definition WRSAFE :: "u32 \<Rightarrow> u64 \<Rightarrow> u64" where
  "WRSAFE bufsize x = (if x - SAFETY_WINDOW \<le>s 0 then ucast bufsize else x - SAFETY_WINDOW)"

text \<open>A pointer rounded down to a multiple of 128.\<close>

definition align128 :: "u64 \<Rightarrow> u64" where
  "align128 a = a AND 0xffffffffffffff80"

text \<open>The bytes from \<open>from\<close> up to \<open>off\<close>, around the end of the ring if need be.\<close>

definition avail :: "u64 \<Rightarrow> u64 \<Rightarrow> u32 \<Rightarrow> u32" where
  "avail off from bufsize =
     (if from \<le> off then ucast (off - from) else ucast (ucast bufsize - from + off))"

text \<open>
  The pointer for a value of the record pointer register: the first reading subtracts 32 bit
  numbers, the later ones 64 bit pointers.
\<close>

definition first_offset :: "u64 \<Rightarrow> u32 \<Rightarrow> u32 \<Rightarrow> u64" where
  "first_offset b phys v = b + ucast (v - phys)"

definition next_offset :: "u64 \<Rightarrow> u32 \<Rightarrow> u32 \<Rightarrow> u64" where
  "next_offset b phys v = ucast v - ucast phys + b"

section \<open>Waiting for data\<close>

text \<open>
  One round of \<open>while (available < mindata)\<close>, counting from \<open>from\<close>; the loop variables are
  the offset and the time last read.
\<close>

definition mindata_round ::
    "env \<Rightarrow> int \<Rightarrow> stream_t \<Rightarrow> nacpbm_stream_t \<Rightarrow> u64 \<Rightarrow> timeval \<Rightarrow> u64 \<times> timeval \<Rightarrow>
     ((u64 \<times> timeval) + u64) nac" where
  "mindata_round E nacfd st p from expire x = (case x of (off, now) \<Rightarrow>
     if mindata st \<le> avail off from (stream_size st) then ret (Inr off)
     else if timerisset (maxwait st) \<and> timer_gt now expire then ret (Inr off)
     else bnd (if poll st \<noteq> (0, 0) then nanosleep (poll st) else ret ()) (\<lambda>_.
       bnd (reg_read E nacfd (record_ptr p)) (\<lambda>v.
       bnd (if timerisset (maxwait st) then gettimeofday E else ret now) (\<lambda>now'.
       ret (Inl (next_offset (buf st) (phyaddr st) v, now'))))))"

definition wait_mindata ::
    "env \<Rightarrow> int \<Rightarrow> stream_t \<Rightarrow> nacpbm_stream_t \<Rightarrow> u64 \<Rightarrow> timeval \<Rightarrow> u64 \<times> timeval \<Rightarrow> u64 nac" where
  "wait_mindata E nacfd st p from expire = iterate (mindata_round E nacfd st p from expire)"

text \<open>\<open>now\<close> and \<open>expire\<close> as set before the wait; \<open>now\<close> stays unset without a time limit.\<close>

definition set_timer :: "env \<Rightarrow> stream_t \<Rightarrow> (timeval \<times> timeval) nac" where
  "set_timer E st =
     (if timerisset (maxwait st)
      then bnd (gettimeofday E) (\<lambda>now. ret (now, timeradd now (maxwait st)))
      else ret ((0, 0), (0, 0)))"

text \<open>The caller's pointer: null means the start, beyond the first round means one round back.\<close>

definition fix_bottom :: "stream_t \<Rightarrow> u64 \<Rightarrow> u64" where
  "fix_bottom st bottom =
     (let b = (if bottom = 0 then buf st else bottom) in
      if buf st + ucast (stream_size st) < b then b - ucast (stream_size st) else b)"

text \<open>Pause the engine, move the limit to just behind \<open>from\<close>, release the pause.\<close>

definition move_limit :: "env \<Rightarrow> int \<Rightarrow> stream_t \<Rightarrow> nacpbm_stream_t \<Rightarrow> u64 \<Rightarrow> unit nac" where
  "move_limit E nacfd st p from =
     bnd (reg_read E nacfd (nacpbm_stream_t.dma_ctl_reg p)) (\<lambda>ctl. steps
       [reg_write nacfd (nacpbm_stream_t.dma_ctl_reg p) (set_dma_pause_n 0 ctl),
        reg_write nacfd (limit_ptr p)
          (ucast (ucast (phyaddr st) + WRSAFE (stream_size st) (from - buf st))),
        reg_write nacfd (nacpbm_stream_t.dma_ctl_reg p) (set_dma_pause_n 1 (set_dma_pause_n 0 ctl))])"

text \<open>The two corrections of the offset after the wait.\<close>

definition wrap_offset :: "stream_t \<Rightarrow> u64 \<Rightarrow> u64 \<Rightarrow> u64" where
  "wrap_offset st from off =
     (let o1 = (if off < from then off + ucast (stream_size st) else off);
          tp = buf st + ucast (stream_size st) + ucast (extra_window_size st) in
      if tp < o1 then tp else o1)"

section \<open>nac_advance_stream\<close>

text \<open>
  The result and the new value of the caller's pointer \<open>*bottom\<close>; 0 is the null pointer.
\<close>

definition nac_advance_stream :: "env \<Rightarrow> int \<Rightarrow> int \<Rightarrow> u64 \<Rightarrow> (u64 \<times> u64) nac" where
  "nac_advance_stream E nacfd n bottom0 =
     bnd (get_stream nacfd n) (\<lambda>st.
     bnd (get_sheep nacfd) (\<lambda>h.
     if \<not> opened h then fail_with EBADF (0, bottom0)
     else if \<not> attached st then fail_with EINVAL (0, bottom0)
     else bnd (set_timer E st) (\<lambda>(now, expire).
       let bottom = fix_bottom st bottom0; bottom_align = align128 bottom in
       bnd (deref_pbm (pbm st)) (\<lambda>p.
       bnd (reg_read E nacfd (record_ptr p)) (\<lambda>v.
       bnd (move_limit E nacfd st p bottom_align) (\<lambda>_.
       bnd (wait_mindata E nacfd st p bottom_align expire
              (first_offset (buf st) (phyaddr st) v, now)) (\<lambda>off.
       let o2 = wrap_offset st bottom_align off in
       ret (if SAFETY_WINDOW \<le>s o2 - bottom_align then o2 - SAFETY_WINDOW else o2, bottom))))))))"

section \<open>nac_inline_advance_stream\<close>

text \<open>
  The transmit stream's record pointer is read before any check. The limit follows that
  pointer; the wait counts from the caller's pointer.
\<close>

definition nac_inline_advance_stream :: "env \<Rightarrow> int \<Rightarrow> int \<Rightarrow> u64 \<Rightarrow> (u64 \<times> u64) nac" where
  "nac_inline_advance_stream E nacfd n bottom0 =
     bnd (get_stream nacfd n) (\<lambda>st.
     bnd (get_pbm nacfd (n + NUM_STREAM)) (\<lambda>txp.
     bnd (reg_read E nacfd (record_ptr txp)) (\<lambda>txv.
     if NUM_STREAM \<le> n then ret (0, bottom0)
     else bnd (get_sheep nacfd) (\<lambda>h.
     if \<not> opened h then fail_with EBADF (0, bottom0)
     else if \<not> attached st then fail_with EINVAL (0, bottom0)
     else bnd (set_timer E st) (\<lambda>(now, expire).
       let bottom = fix_bottom st bottom0;
           tx_align = align128 (first_offset (buf st) (phyaddr st) txv) in
       bnd (deref_pbm (pbm st)) (\<lambda>p.
       bnd (reg_read E nacfd (record_ptr p)) (\<lambda>v.
       bnd (move_limit E nacfd st p tx_align) (\<lambda>_.
       bnd (wait_mindata E nacfd st p bottom expire
              (first_offset (buf st) (phyaddr st) v, now)) (\<lambda>off.
       ret (wrap_offset st bottom off, bottom))))))))))"

section \<open>nac_get_next_record\<close>

text \<open>\<open>ntohs(((erf_record_t * )next_record)->rlen)\<close>: bytes 10 and 11, the first is the high one.\<close>

definition read_rlen :: "env \<Rightarrow> u64 \<Rightarrow> u32 nac" where
  "read_rlen E a = bnd (read_byte E (a + 10)) (\<lambda>hi. bnd (read_byte E (a + 11)) (\<lambda>lo.
     ret (ucast hi * 256 + ucast lo)))"

text \<open>
  Advancing within \<open>nac_get_next_record\<close>: \<open>None\<close> when the function has to return the null
  pointer, otherwise the new position. \<open>short\<close> is the comparison the caller makes of the
  new free space.
\<close>

definition refill :: "env \<Rightarrow> int \<Rightarrow> int \<Rightarrow> u64 \<Rightarrow> (i32 \<Rightarrow> bool) \<Rightarrow> u64 option nac" where
  "refill E nacfd n next_record short =
     bnd (nac_advance_stream E nacfd n next_record) (\<lambda>(tp, next').
     if tp = 0 then ret None
     else bnd (put_stream nacfd n (\<lambda>st. st\<lparr>processed := 0, free_space := ucast (tp - next')\<rparr>)) (\<lambda>_.
          if short (ucast (tp - next')) then fail_with EAGAIN None else ret (Some next')))"

text \<open>
  The first check compares the free space with the \<open>int\<close> 16, as signed numbers; the second
  with the unsigned \<open>rlen\<close>, as unsigned numbers.
\<close>

definition nac_get_next_record :: "env \<Rightarrow> int \<Rightarrow> int \<Rightarrow> u64 nac" where
  "nac_get_next_record E nacfd n =
     bnd (get_stream nacfd n) (\<lambda>st0.
     bnd (get_sheep nacfd) (\<lambda>h.
     if \<not> opened h then fail_with EBADF 0
     else if \<not> attached st0 then fail_with EINVAL 0
     else
       bnd (if is_first_time st0
            then put_stream nacfd n (\<lambda>st. st\<lparr>offset := 0, is_first_time := False,
                   free_space := 0, processed := 0\<rparr>)
            else ret ()) (\<lambda>_.
       bnd (get_stream nacfd n) (\<lambda>st.
       bnd (if free_space st <s nac_record_size \<or>
               extra_window_size st < processed st + nac_record_size
            then refill E nacfd n (buf st0 + ucast (offset st)) (\<lambda>f. f <s nac_record_size)
            else ret (Some (buf st0 + ucast (offset st)))) (\<lambda>m.
       case m of None \<Rightarrow> ret 0
       | Some next1 \<Rightarrow>
         bnd (read_rlen E next1) (\<lambda>rlen.
         bnd (get_stream nacfd n) (\<lambda>st1.
         bnd (if free_space st1 < rlen \<or> extra_window_size st1 < processed st1 + rlen
              then refill E nacfd n next1 (\<lambda>f. f < rlen)
              else ret (Some next1)) (\<lambda>m2.
         case m2 of None \<Rightarrow> ret 0
         | Some next2 \<Rightarrow>
           bnd (put_stream nacfd n (\<lambda>st. st\<lparr>offset := ucast (next2 + ucast rlen - buf st0),
              free_space := free_space st - rlen, processed := processed st + rlen\<rparr>)) (\<lambda>_.
           ret next2)))))))))"

section \<open>Where the pointers may lie\<close>

text \<open>
  A ring as attach sets it up: page aligned (so 128 byte aligned), below 2 GB, and neither the
  mapping nor the bus window wraps around.
\<close>

definition ring_wf :: "stream_t \<Rightarrow> bool" where
  "ring_wf st \<longleftrightarrow> 0 < uint (buf st) \<and> uint (buf st) mod 128 = 0 \<and> 0 < uint (stream_size st) \<and>
     uint (stream_size st) < 2 ^ 31 \<and>
     uint (buf st) + 2 * uint (stream_size st) + uint (extra_window_size st) < 2 ^ 64 \<and>
     uint (phyaddr st) + uint (stream_size st) < 2 ^ 32"

text \<open>The card keeps its record pointer within the window it was given.\<close>

definition record_in_ring :: "env \<Rightarrow> int \<Rightarrow> stream_t \<Rightarrow> nacpbm_stream_t \<Rightarrow> bool" where
  "record_in_ring E fd st p \<longleftrightarrow> (\<forall>hist. uint (phyaddr st) \<le> uint (dev E hist fd (record_ptr p)) \<and>
     uint (dev E hist fd (record_ptr p)) \<le> uint (phyaddr st) + uint (stream_size st))"

definition in_ring :: "stream_t \<Rightarrow> u64 \<Rightarrow> bool" where
  "in_ring st a \<longleftrightarrow> uint (buf st) \<le> uint a \<and> uint a \<le> uint (buf st) + uint (stream_size st)"

lemma ring_wf_bounds:
  assumes "ring_wf st"
  shows "uint (buf st) + uint (stream_size st) < 2 ^ 64"
    and "uint (buf st) + uint (stream_size st) + uint (stream_size st) < 2 ^ 64"
    and "uint (buf st) + uint (stream_size st) + uint (extra_window_size st) < 2 ^ 64"
  using assms [unfolded ring_wf_def] uint_ge_0 [of "stream_size st"] uint_ge_0 [of "extra_window_size st"]
  by linarith+

lemma uint_ucast64 [simp]: "uint (ucast (a :: u32) :: u64) = uint a"
  by (simp add: uint_up_ucast is_up)

lemma uint_add64: "uint a + uint b < 2 ^ 64 \<Longrightarrow> uint (a + b :: u64) = uint a + uint b"
  by (simp add: uint_word_ariths)

lemma uint_sub64: "uint b \<le> uint a \<Longrightarrow> uint (a - b :: u64) = uint a - uint b"
  by (simp add: uint_sub_if')

lemma uint_sub32: "uint b \<le> uint a \<Longrightarrow> uint (a - b :: u32) = uint a - uint b"
  by (simp add: uint_sub_if')

lemma uint_align128: "uint (align128 a) = uint a - uint a mod 128"
proof -
  have c: "(0xffffffffffffff80 :: u64) = NOT (mask 7)" by (simp add: mask_eq_exp_minus_1)
  have m: "uint (a AND mask 7) = uint a mod 128"
    by (simp only: take_bit_eq_mask [symmetric] unsigned_take_bit_eq) (simp add: take_bit_eq_mod)
  have s: "(a AND mask 7) + (a AND NOT (mask 7)) = a"
  proof -
    have "(a AND mask 7) + (a AND NOT (mask 7)) = (a AND mask 7) OR (a AND NOT (mask 7))"
      by (rule disjunctive_add) (auto simp: bit_and_iff bit_not_iff)
    also have "\<dots> = a" by (rule bit_word_eqI) (auto simp: bit_or_iff bit_and_iff bit_not_iff)
    finally show ?thesis .
  qed
  have "a AND NOT (mask 7) = a - (a AND mask 7)" using s by (simp add: algebra_simps)
  moreover have "uint (a - (a AND mask 7)) = uint a - uint a mod 128"
    using m by (subst uint_sub64) (simp_all add: zmod_le_nonneg_dividend)
  ultimately show ?thesis by (simp only: align128_def c)
qed

lemma offset_in_ring:
  assumes "ring_wf st" and "uint (phyaddr st) \<le> uint v"
    and "uint v \<le> uint (phyaddr st) + uint (stream_size st)"
  shows "uint (first_offset (buf st) (phyaddr st) v) = uint (buf st) + (uint v - uint (phyaddr st))"
    and "next_offset (buf st) (phyaddr st) v = first_offset (buf st) (phyaddr st) v"
    and "in_ring st (first_offset (buf st) (phyaddr st) v)"
proof -
  have s: "uint (v - phyaddr st) = uint v - uint (phyaddr st)"
    using assms(2) by (rule uint_sub32)
  have wf: "uint (buf st) + (uint v - uint (phyaddr st)) < 2 ^ 64"
    using assms uint_ge_0 [of "stream_size st"] uint_ge_0 [of "extra_window_size st"]
    unfolding ring_wf_def by linarith
  show f: "uint (first_offset (buf st) (phyaddr st) v) = uint (buf st) + (uint v - uint (phyaddr st))"
    using wf by (simp add: first_offset_def uint_add64 s)
  have d: "(ucast v :: u64) - ucast (phyaddr st) = ucast (v - phyaddr st)"
    using assms(2) by (simp add: word_uint_eq_iff uint_sub64 s)
  show "next_offset (buf st) (phyaddr st) v = first_offset (buf st) (phyaddr st) v"
    by (simp add: next_offset_def first_offset_def d add.commute)
  show "in_ring st (first_offset (buf st) (phyaddr st) v)"
    using f assms(2,3) by (simp add: in_ring_def)
qed

lemma fix_bottom_in_ring:
  assumes "ring_wf st" and "b = 0 \<or> uint (buf st) \<le> uint b \<and> uint b \<le> uint (buf st) + 2 * uint (stream_size st)"
  shows "in_ring st (fix_bottom st b)"
proof -
  have tp: "uint (buf st + ucast (stream_size st)) = uint (buf st) + uint (stream_size st)"
    using ring_wf_bounds(1) [OF assms(1)] by (subst uint_add64) simp_all
  have sub: "uint (b - ucast (stream_size st)) = uint b - uint (stream_size st)"
    if "uint (buf st) + uint (stream_size st) < uint b"
  proof -
    have "uint (ucast (stream_size st) :: u64) \<le> uint b"
      using that uint_ge_0 [of "buf st"] unfolding uint_ucast64 by linarith
    from uint_sub64 [OF this] show ?thesis by simp
  qed
  show ?thesis
    using assms tp sub
    by (auto simp: fix_bottom_def in_ring_def Let_def word_less_def ring_wf_def)
qed

lemma align_in_ring:
  assumes "ring_wf st" and "in_ring st b"
  shows "uint (align128 b) = uint (buf st) + 128 * ((uint b - uint (buf st)) div 128)"
    and "in_ring st (align128 b)" and "uint (align128 b) \<le> uint b"
proof -
  have m: "uint b mod 128 = (uint b - uint (buf st)) mod 128"
    using assms(1) unfolding ring_wf_def by (metis diff_zero mod_diff_right_eq)
  show e: "uint (align128 b) = uint (buf st) + 128 * ((uint b - uint (buf st)) div 128)"
    unfolding uint_align128 m by (simp add: minus_mod_eq_mult_div [symmetric] algebra_simps)
  have "0 \<le> 128 * ((uint b - uint (buf st)) div 128)"
    using assms(2) by (simp add: in_ring_def pos_imp_zdiv_nonneg_iff)
  moreover show le: "uint (align128 b) \<le> uint b" by (simp add: uint_align128)
  ultimately show "in_ring st (align128 b)" using e assms(2) by (simp add: in_ring_def)
qed

lemma wrap_offset_bounds:
  assumes wf: "ring_wf st" and "in_ring st off" and "in_ring st from"
  shows "uint from \<le> uint (wrap_offset st from off)"
    and "uint (wrap_offset st from off) \<le> uint (buf st) + uint (stream_size st) + uint (extra_window_size st)"
proof -
  have a: "uint (off + ucast (stream_size st)) = uint off + uint (stream_size st)"
    using ring_wf_bounds(2) [OF wf] assms(2) by (subst uint_add64) (simp_all add: in_ring_def)
  have b: "uint (buf st + ucast (stream_size st) + ucast (extra_window_size st)) =
      uint (buf st) + uint (stream_size st) + uint (extra_window_size st)"
    using ring_wf_bounds(1,3) [OF wf] by (subst uint_add64; subst uint_add64) simp_all
  have x: "uint from \<le> uint (buf st) + uint (stream_size st) + uint (extra_window_size st)"
    using assms(3) uint_ge_0 [of "extra_window_size st"] unfolding in_ring_def by linarith
  show "uint from \<le> uint (wrap_offset st from off)"
    and "uint (wrap_offset st from off) \<le> uint (buf st) + uint (stream_size st) + uint (extra_window_size st)"
    using assms(2,3) a b x by (auto simp: wrap_offset_def Let_def word_less_def in_ring_def)
qed

text \<open>The position the limit is set to, counted from the start of the ring.\<close>

definition limit_pos :: "stream_t \<Rightarrow> u64 \<Rightarrow> int" where
  "limit_pos st a = (if uint a - uint (buf st) \<le> 128 then uint (stream_size st)
     else uint a - uint (buf st) - 128)"

lemma sint_small64: "uint (a :: u64) < 2 ^ 63 \<Longrightarrow> sint a = uint a"
  by (simp add: sint_uint signed_take_bit_int_eq_self order_trans [OF _ uint_ge_0])

lemma sint_big64: "2 ^ 63 \<le> uint (a :: u64) \<Longrightarrow> sint a = uint a - 2 ^ 64"
proof -
  assume a: "2 ^ 63 \<le> uint a"
  have "sint a = (uint a + 2 ^ 63) mod 2 ^ 64 - 2 ^ 63"
    by (simp add: sint_uint signed_take_bit_eq_take_bit_shift take_bit_eq_mod add.commute)
  also have "(uint a + 2 ^ 63) mod 2 ^ 64 = uint a - 2 ^ 63"
    using a uint_lt2p [of a] by (subst mod_pos_geq) simp_all
  finally show ?thesis by simp
qed

lemma uint_limit:
  assumes wf: "ring_wf st" and a: "in_ring st a"
  shows "uint (ucast (ucast (phyaddr st) + WRSAFE (stream_size st) (a - buf st)) :: u32) =
      uint (phyaddr st) + limit_pos st a"
    and "0 < limit_pos st a" and "limit_pos st a \<le> uint (stream_size st)"
proof -
  let ?x = "uint a - uint (buf st)"
  have x: "0 \<le> ?x" "?x \<le> uint (stream_size st)" using a by (auto simp: in_ring_def)
  have ux: "uint (a - buf st) = ?x" using a by (simp add: in_ring_def uint_sub64)
  have size: "0 < uint (stream_size st)" "uint (stream_size st) < 2 ^ 31"
    using wf by (simp_all add: ring_wf_def)
  show pos: "0 < limit_pos st a" "limit_pos st a \<le> uint (stream_size st)"
    using x size by (auto simp: limit_pos_def)
  have "uint (WRSAFE (stream_size st) (a - buf st)) = limit_pos st a"
  proof (cases "128 \<le> ?x")
    case True
    have d: "uint (a - buf st - SAFETY_WINDOW) = ?x - 128"
      using True ux by (subst uint_sub64) (simp_all add: SAFETY_WINDOW_def)
    then have "sint (a - buf st - SAFETY_WINDOW) = ?x - 128"
      using x size by (subst sint_small64) simp_all
    with True d show ?thesis by (auto simp: WRSAFE_def limit_pos_def word_sle_eq)
  next
    case False
    have "uint (a - buf st - SAFETY_WINDOW) = ?x - 128 + 2 ^ 64"
      using False ux by (simp add: uint_sub_if' SAFETY_WINDOW_def)
    then have "sint (a - buf st - SAFETY_WINDOW) = ?x - 128"
      using x by (subst sint_big64) simp_all
    with False show ?thesis by (simp add: WRSAFE_def limit_pos_def word_sle_eq)
  qed
  moreover have "uint (phyaddr st) + limit_pos st a < 2 ^ 32"
    using pos wf by (simp add: ring_wf_def)
  ultimately show "uint (ucast (ucast (phyaddr st) + WRSAFE (stream_size st) (a - buf st)) :: u32) =
      uint (phyaddr st) + limit_pos st a"
    using pos by (simp add: unsigned_ucast_eq take_bit_eq_mod uint_add64)
qed

lemma set_timer_run:
  "\<exists>now expire t. set_timer E st s = Some (Ok (now, expire), t) \<and> quiet fd s t"
  by (simp add: set_timer_def quiet_def)

lemma mindata_round_cases:
  assumes "mapped fd s"
  obtains (done_) "mindata_round E fd st p from expire (off, now) s = Some (Ok (Inr off), s)"
      and "mindata st \<le> avail off from (stream_size st) \<or> timerisset (maxwait st) \<and> timer_gt now expire"
    | (again) v now' t hist hist' where "mindata_round E fd st p from expire (off, now) s =
        Some (Ok (Inl (next_offset (buf st) (phyaddr st) v, now')), t)"
      and "quiet fd s t" and "v = dev E hist fd (record_ptr p)"
      and "length (trace s) \<le> length hist" and "length hist < length (trace t)"
      and "now' = (if timerisset (maxwait st) then clock_at E hist' else now)"
      and "length (trace s) \<le> length hist'"
      and "\<not> mindata st \<le> avail off from (stream_size st)"
      and "\<not> (timerisset (maxwait st) \<and> timer_gt now expire)"
proof (cases "mindata st \<le> avail off from (stream_size st) \<or> timerisset (maxwait st) \<and> timer_gt now expire")
  case True
  then show thesis by (intro done_) (auto simp: mindata_round_def)
next
  case False
  define s1 where "s1 = (if poll st \<noteq> (0, 0) then s\<lparr>trace := trace s @
     [Delay (nat (fst (poll st) * 1000000 + snd (poll st) div 1000))]\<rparr> else s)"
  define v where "v = dev E (trace s1) fd (record_ptr p)"
  define s2 where "s2 = s1\<lparr>trace := trace s1 @ [RegRd fd (record_ptr p) v]\<rparr>"
  define now' where "now' = (if timerisset (maxwait st) then clock_at E (trace s2) else now)"
  define s3 where "s3 = (if timerisset (maxwait st) then s2\<lparr>trace := trace s2 @ [Clock now']\<rparr> else s2)"
  have p: "(if poll st \<noteq> (0, 0) then nanosleep (poll st) else ret ()) s = Some (Ok (), s1)"
    by (simp add: s1_def nanosleep_def)
  have m: "mapped fd s1" using assms by (simp add: s1_def)
  have rd: "reg_read E fd (record_ptr p) s1 = Some (Ok v, s2)"
    using m by (simp add: reg_read_mapped s2_def v_def)
  have clk: "(if timerisset (maxwait st) then gettimeofday E else ret now) s2 = Some (Ok now', s3)"
    by (simp add: s3_def now'_def)
  have "mindata_round E fd st p from expire (off, now) s =
      Some (Ok (Inl (next_offset (buf st) (phyaddr st) v, now')), s3)"
    using False p rd clk by (auto simp: mindata_round_def)
  moreover have "quiet fd s s3" by (simp add: quiet_def s1_def s2_def s3_def)
  ultimately show thesis
    using False
    by (intro again [of v now' s3 "trace s1" "trace s2"])
      (simp_all add: v_def now'_def s1_def s2_def s3_def)
qed

lemma mindata_round_leaves:
  assumes "mapped fd s" and "mindata_round E fd st p from expire x s = Some (r, t)"
  shows "(\<exists>y. r = Ok (Inl y)) \<or> r = Ok (Inr (fst x)) \<and> t = s"
proof (rule mindata_round_cases [OF assms(1), of E st p "from" expire "fst x" "snd x"])
qed (use assms(2) in simp_all)

lemma wait_mindata_ring:
  assumes run: "wait_mindata E fd st p from expire (off, now) s = Some out"
    and "mapped fd s" and wf: "ring_wf st" and rec: "record_in_ring E fd st p" and "in_ring st off"
  shows "\<exists>off' t. out = (Ok off', t) \<and> in_ring st off' \<and> quiet fd s t"
proof -
  let ?I = "\<lambda>x u. mapped fd u \<and> in_ring st (fst x) \<and> quiet fd s u"
  show ?thesis
  proof (rule iterate_invariant [OF run [unfolded wait_mindata_def], of ?I])
    show "?I (off, now) s" using assms by simp
  next
    fix x u x' u'
    assume I: "?I x u" and st: "mindata_round E fd st p from expire x u = Some (Ok (Inl x'), u')"
    obtain o1 n1 where x: "x = (o1, n1)" by (cases x)
    show "?I x' u'"
    proof (rule mindata_round_cases [of fd u E st p "from" expire o1 n1])
      show "mapped fd u" using I by simp
    next
      fix v now' t hist
      assume r: "mindata_round E fd st p from expire (o1, n1) u =
          Some (Ok (Inl (next_offset (buf st) (phyaddr st) v, now')), t)"
        and q: "quiet fd u t" and v: "v = dev E hist fd (record_ptr p)"
      have "in_ring st (next_offset (buf st) (phyaddr st) v)"
        using offset_in_ring [OF wf, of v] rec v unfolding record_in_ring_def by simp
      with r st x q I show "?I x' u'" using quiet_trans [of fd s u t] quiet_mapped [OF q] by auto
    qed (use st x in simp)
  qed (auto dest!: mindata_round_leaves)
qed

lemma move_limit_run:
  assumes "mapped fd s"
  shows "\<exists>t ctl. move_limit E fd st p a s = Some (Ok (), t) \<and>
     herd t = herd s \<and> errno t = errno s \<and> vmap t = vmap s \<and> ram t = ram s \<and>
     reg_writes fd (trace t) = reg_writes fd (trace s) @
       [(nacpbm_stream_t.dma_ctl_reg p, ctl AND NOT 8),
        (limit_ptr p, ucast (ucast (phyaddr st) + WRSAFE (stream_size st) (a - buf st))),
        (nacpbm_stream_t.dma_ctl_reg p, ctl OR 8)]"
  by (rule exI, rule exI [where x = "dev E (trace s) fd (nacpbm_stream_t.dma_ctl_reg p)"],
      intro conjI, rule trans, simp add: assms move_limit_def mapped_runs, rule refl)
    (simp_all add: set_dma_pause_n_0 set_dma_pause_n_1 clear_set_8)

text \<open>What the caller of an advance may rely on, once it has returned.\<close>

definition advance_result :: "int \<Rightarrow> stream_t \<Rightarrow> nacpbm_stream_t \<Rightarrow> mach \<Rightarrow> mach \<Rightarrow> u64 \<Rightarrow> u64 \<Rightarrow> u64 \<Rightarrow> bool" where
  "advance_result fd st p s t behind from tp \<longleftrightarrow>
     uint from \<le> uint tp \<and>
     uint tp \<le> uint (buf st) + uint (stream_size st) + uint (extra_window_size st) \<and>
     herd t = herd s \<and> errno t = errno s \<and> vmap t = vmap s \<and> ram t = ram s \<and>
     (\<exists>ctl limit. reg_writes fd (trace t) = reg_writes fd (trace s) @
        [(nacpbm_stream_t.dma_ctl_reg p, ctl AND NOT 8), (limit_ptr p, limit),
         (nacpbm_stream_t.dma_ctl_reg p, ctl OR 8)] \<and>
        uint limit = uint (phyaddr st) + limit_pos st behind \<and>
        uint (phyaddr st) < uint limit \<and> uint limit \<le> uint (phyaddr st) + uint (stream_size st))"

text \<open>The part both advance functions share, from reading the record pointer on.\<close>

lemma advance_core:
  assumes run: "bnd (reg_read E fd (record_ptr p)) (\<lambda>v. bnd (move_limit E fd st p behind) (\<lambda>_.
      bnd (wait_mindata E fd st p from expire (first_offset (buf st) (phyaddr st) v, now)) f)) s = Some (r, t)"
    and m: "mapped fd s" and wf: "ring_wf st" and rec: "record_in_ring E fd st p"
    and behind: "in_ring st behind" and "from": "in_ring st from"
  obtains off u where "f off u = Some (r, t)" and "in_ring st off"
    and "\<And>tp. uint from \<le> uint tp \<Longrightarrow>
      uint tp \<le> uint (buf st) + uint (stream_size st) + uint (extra_window_size st) \<Longrightarrow>
      advance_result fd st p s u behind from tp"
proof -
  define v where "v = dev E (trace s) fd (record_ptr p)"
  define s1 where "s1 = s\<lparr>trace := trace s @ [RegRd fd (record_ptr p) v]\<rparr>"
  have s1: "reg_read E fd (record_ptr p) s = Some (Ok v, s1)" "mapped fd s1"
    using m by (simp_all add: reg_read_mapped s1_def v_def)
  obtain s2 ctl where s2: "move_limit E fd st p behind s1 = Some (Ok (), s2)"
    "herd s2 = herd s1" "errno s2 = errno s1" "vmap s2 = vmap s1" "ram s2 = ram s1"
    "reg_writes fd (trace s2) = reg_writes fd (trace s1) @
       [(nacpbm_stream_t.dma_ctl_reg p, ctl AND NOT 8),
        (limit_ptr p, ucast (ucast (phyaddr st) + WRSAFE (stream_size st) (behind - buf st))),
        (nacpbm_stream_t.dma_ctl_reg p, ctl OR 8)]"
    using move_limit_run [OF s1(2)] by blast
  have m2: "mapped fd s2" using s1(2) s2(2) by (simp add: mapped_def)
  have o: "in_ring st (first_offset (buf st) (phyaddr st) v)"
    using offset_in_ring(3) [OF wf] rec by (simp add: record_in_ring_def v_def)
  have run2: "bnd (wait_mindata E fd st p from expire (first_offset (buf st) (phyaddr st) v, now)) f s2 = Some (r, t)"
    using run s1(1) s2(1) by simp
  then obtain out where w: "wait_mindata E fd st p from expire (first_offset (buf st) (phyaddr st) v, now) s2 = Some out"
    by (cases "wait_mindata E fd st p from expire (first_offset (buf st) (phyaddr st) v, now) s2") auto
  from wait_mindata_ring [OF w m2 wf rec o] obtain off u where
    u: "out = (Ok off, u)" "in_ring st off" "quiet fd s2 u" by blast
  show thesis
  proof (rule that [OF _ u(2)])
    show "f off u = Some (r, t)" using run2 w u(1) by simp
    show "advance_result fd st p s u behind from tp" if "uint from \<le> uint tp"
      "uint tp \<le> uint (buf st) + uint (stream_size st) + uint (extra_window_size st)" for tp
      using that u(3) s2(2-6) uint_limit [OF wf behind]
      unfolding advance_result_def quiet_def s1_def by (auto intro!: exI)
  qed
qed

text \<open>
  C3. Whenever \<open>nac_advance_stream\<close> returns on an attached stream whose card keeps its record
  pointer inside the ring, it returns a top pointer that lies at or after the caller's bottom
  (rounded down to 128) and never beyond the double mapping, it brings the caller's bottom
  into the first round of the ring, and it moves the card's limit to a place inside the
  stream's window: 128 bytes behind the bottom, or the ring's end for a bottom in the first
  128 bytes. The engine is paused around the move and released after it, the other control
  bits keep the value read. No other state changes.
\<close>

theorem advance_stream_safe:
  assumes "herd s fd = Some h" and "opened h" and "iom h \<noteq> 0" and "0 \<le> n" and "n < NAC_STREAM_MAX"
    and "st = stream h n" and "attached st" and "pbm st = PTo p"
    and wf: "ring_wf st" and rec: "record_in_ring E fd st p"
    and b: "b = 0 \<or> uint (buf st) \<le> uint b \<and> uint b \<le> uint (buf st) + 2 * uint (stream_size st)"
    and run: "nac_advance_stream E fd n b s = Some (r, t)"
  shows "\<exists>tp bottom. r = Ok (tp, bottom) \<and> bottom = fix_bottom st b \<and> in_ring st bottom \<and>
     advance_result fd st p s t (align128 bottom) (align128 bottom) tp"
proof -
  define bottom where "bottom = fix_bottom st b"
  have bot: "in_ring st bottom" using fix_bottom_in_ring [OF wf b] by (simp add: bottom_def)
  note al = align_in_ring [OF wf bot]
  obtain now expire s1 where tm: "set_timer E st s = Some (Ok (now, expire), s1)" "quiet fd s s1"
    using set_timer_run by blast
  have m: "mapped fd s1" using quiet_mapped [OF tm(2)] assms(1,3) by auto
  have "bnd (reg_read E fd (record_ptr p)) (\<lambda>v. bnd (move_limit E fd st p (align128 bottom)) (\<lambda>_.
      bnd (wait_mindata E fd st p (align128 bottom) expire (first_offset (buf st) (phyaddr st) v, now))
       (\<lambda>off. let o2 = wrap_offset st (align128 bottom) off in
          ret (if SAFETY_WINDOW \<le>s o2 - align128 bottom then o2 - SAFETY_WINDOW else o2, bottom)))) s1 = Some (r, t)"
    using run assms(1,2,4-8) tm(1) by (simp add: nac_advance_stream_def bottom_def Let_def)
  then obtain off where off: "in_ring st off"
    "(let o2 = wrap_offset st (align128 bottom) off in ret (if SAFETY_WINDOW \<le>s o2 - align128 bottom
        then o2 - SAFETY_WINDOW else o2, bottom)) t = Some (r, t)"
    "\<And>tp. uint (align128 bottom) \<le> uint tp \<Longrightarrow>
      uint tp \<le> uint (buf st) + uint (stream_size st) + uint (extra_window_size st) \<Longrightarrow>
      advance_result fd st p s1 t (align128 bottom) (align128 bottom) tp"
    by (rule advance_core [OF _ m wf rec al(2,2)]) (auto simp: Let_def)
  define o2 where "o2 = wrap_offset st (align128 bottom) off"
  define tp where "tp = (if SAFETY_WINDOW \<le>s o2 - align128 bottom then o2 - SAFETY_WINDOW else o2)"
  have r: "r = Ok (tp, bottom)" using off(2) by (auto simp: Let_def tp_def o2_def)
  note o2 = wrap_offset_bounds [OF wf off(1) al(2), folded o2_def]
  have "uint (align128 bottom) \<le> uint tp \<and> uint tp \<le> uint o2"
  proof (cases "SAFETY_WINDOW \<le>s o2 - align128 bottom")
    case True
    then have d: "128 \<le> sint (o2 - align128 bottom)" by (simp add: word_sle_eq SAFETY_WINDOW_def)
    then have "uint (o2 - align128 bottom) = sint (o2 - align128 bottom)"
      using sint_lt [of "o2 - align128 bottom"] by (simp only: uint_sint) (simp add: take_bit_int_eq_self)
    then have "128 \<le> uint (o2 - align128 bottom)" using d by simp
    then have "uint (align128 bottom) + 128 \<le> uint o2" using uint_sub64 [OF o2(1)] by simp
    moreover from this have "128 \<le> uint o2" using uint_ge_0 [of "align128 bottom"] by linarith
    then have "uint (o2 - SAFETY_WINDOW) = uint o2 - 128"
      using uint_sub64 [of SAFETY_WINDOW o2] by (simp add: SAFETY_WINDOW_def)
    ultimately show ?thesis using True by (simp add: tp_def)
  qed (simp add: tp_def o2(1))
  then have "advance_result fd st p s1 t (align128 bottom) (align128 bottom) tp"
    using o2(2) by (intro off(3)) linarith+
  then show ?thesis using r bot tm(2) by (auto simp: advance_result_def quiet_def bottom_def)
qed

section \<open>Returning and waiting for ever\<close>

lemma wait_mindata_returns:
  assumes m: "mapped fd s"
    and settled: "\<And>hist hist'. K \<le> length hist \<Longrightarrow> K \<le> length hist' \<Longrightarrow>
      mindata st \<le> avail (next_offset (buf st) (phyaddr st) (dev E hist fd (record_ptr p))) from (stream_size st) \<or>
      timerisset (maxwait st) \<and> timer_gt (clock_at E hist') expire"
  shows "\<exists>off t. wait_mindata E fd st p from expire x s = Some (Ok off, t)"
proof -
  let ?leave = "\<lambda>x. mindata st \<le> avail (fst x) from (stream_size st) \<or>
    timerisset (maxwait st) \<and> timer_gt (snd x) expire"
  have "\<exists>r t. wait_mindata E fd st p from expire x s = Some (Ok r, t) \<and> True"
    unfolding wait_mindata_def
  proof (rule iterate_total [where I = "\<lambda>x u. mapped fd u"
        and \<mu> = "\<lambda>x u. if ?leave x then 0 else Suc (K - length (trace u))"])
    show "mapped fd s" by (rule m)
  next
    fix x :: "u64 \<times> timeval" and u :: mach
    assume u: "mapped fd u"
    obtain off now where x: "x = (off, now)" by (cases x)
    from u show "(\<exists>x' u'. mindata_round E fd st p from expire x u = Some (Ok (Inl x'), u') \<and> mapped fd u' \<and>
        (if ?leave x' then 0 else Suc (K - length (trace u'))) < (if ?leave x then 0 else Suc (K - length (trace u)))) \<or>
      (\<exists>r u'. mindata_round E fd st p from expire x u = Some (Ok (Inr r), u') \<and> True)"
    proof (cases rule: mindata_round_cases [of fd u E st p "from" expire off now])
      case done_
      then show ?thesis using x by auto
    next
      case (again v now' t hist hist')
      have "?leave (next_offset (buf st) (phyaddr st) v, now')" if "K \<le> length (trace u)"
        using settled [of hist hist'] again(3-8) that by auto
      then show ?thesis
        using again(1,2,4,5,8,9) x u quiet_mapped [OF again(2)]
        by (cases "K \<le> length (trace u)") (auto intro!: disjI1)
    qed
  qed
  then show ?thesis by simp
qed

lemma wait_mindata_hangs:
  assumes m: "mapped fd s" and "\<not> timerisset (maxwait st)"
    and "\<not> mindata st \<le> avail off from (stream_size st)"
    and never: "\<And>hist. \<not> mindata st \<le>
      avail (next_offset (buf st) (phyaddr st) (dev E hist fd (record_ptr p))) from (stream_size st)"
  shows "wait_mindata E fd st p from expire (off, now) s = None"
  unfolding wait_mindata_def
proof (rule iterate_hangs [where I = "\<lambda>x u. mapped fd u \<and> \<not> mindata st \<le> avail (fst x) from (stream_size st)"])
  show "mapped fd s \<and> \<not> mindata st \<le> avail (fst (off, now)) from (stream_size st)" using assms by simp
next
  fix x :: "u64 \<times> timeval" and u :: mach
  assume u: "mapped fd u \<and> \<not> mindata st \<le> avail (fst x) from (stream_size st)"
  obtain off now where x: "x = (off, now)" by (cases x)
  from u have "mapped fd u" by simp
  then show "\<exists>x' u'. mindata_round E fd st p from expire x u = Some (Ok (Inl x'), u') \<and>
      mapped fd u' \<and> \<not> mindata st \<le> avail (fst x') from (stream_size st)"
  proof (cases rule: mindata_round_cases [of fd u E st p "from" expire off now])
    case done_
    then show ?thesis using u x assms(2) by simp
  next
    case (again v now' t hist hist')
    then show ?thesis using x never [of hist] u quiet_mapped [OF again(2)] by auto
  qed
qed

text \<open>
  C29. \<open>nac_advance_stream\<close> on an attached stream returns if the card's record pointer settles
  where at least \<open>mindata\<close> bytes are available, and also if a time limit is set and the clock
  advances without bound; with the default of no time limit, a card that never offers
  \<open>mindata\<close> bytes keeps it from ever returning.
\<close>

theorem advance_returns_or_hangs:
  assumes "herd s fd = Some h" and "opened h" and "iom h \<noteq> 0" and "0 \<le> n" and "n < NAC_STREAM_MAX"
    and "st = stream h n" and "attached st" and "pbm st = PTo p"
    and wf: "ring_wf st" and rec: "record_in_ring E fd st p"
    and "enough = (\<lambda>hist. mindata st \<le> avail (first_offset (buf st) (phyaddr st)
        (dev E hist fd (record_ptr p))) (align128 (fix_bottom st b)) (stream_size st))"
  shows "((\<exists>K. \<forall>hist. K \<le> length hist \<longrightarrow> enough hist) \<or>
       (timerisset (maxwait st) \<and> (\<forall>T. \<exists>K. \<forall>hist. K \<le> length hist \<longrightarrow> T < fst (clock_at E hist))) \<longrightarrow>
       (\<exists>x t. nac_advance_stream E fd n b s = Some (Ok x, t))) \<and>
     (\<not> timerisset (maxwait st) \<and> (\<forall>hist. \<not> enough hist) \<longrightarrow> nac_advance_stream E fd n b s = None)"
proof -
  have off: "next_offset (buf st) (phyaddr st) (dev E hist fd (record_ptr p)) =
      first_offset (buf st) (phyaddr st) (dev E hist fd (record_ptr p))" for hist
    using offset_in_ring(2) [OF wf] rec by (simp add: record_in_ring_def)
  let ?ba = "align128 (fix_bottom st b)"
  obtain now expire s1 where tm: "set_timer E st s = Some (Ok (now, expire), s1)" "quiet fd s s1"
    using set_timer_run by blast
  have m1: "mapped fd s1" using quiet_mapped [OF tm(2)] assms(1,3) by auto
  define v where "v = dev E (trace s1) fd (record_ptr p)"
  define s2 where "s2 = s1\<lparr>trace := trace s1 @ [RegRd fd (record_ptr p) v]\<rparr>"
  have m2: "mapped fd s2" using m1 by (simp add: s2_def)
  obtain s3 where s3: "move_limit E fd st p ?ba s2 = Some (Ok (), s3)" "herd s3 = herd s2"
    using move_limit_run [OF m2] by blast
  have m3: "mapped fd s3" using m2 s3(2) by (simp add: mapped_def)
  obtain f where run: "nac_advance_stream E fd n b s =
      bnd (wait_mindata E fd st p ?ba expire (first_offset (buf st) (phyaddr st) v, now)) (\<lambda>off. ret (f off)) s3"
  proof (rule that)
    show "nac_advance_stream E fd n b s =
      bnd (wait_mindata E fd st p ?ba expire (first_offset (buf st) (phyaddr st) v, now)) (\<lambda>off. ret
       ((\<lambda>off. (if SAFETY_WINDOW \<le>s wrap_offset st ?ba off - ?ba then wrap_offset st ?ba off - SAFETY_WINDOW
          else wrap_offset st ?ba off, fix_bottom st b)) off)) s3"
      using assms(1,2,4,5,7,8) tm(1) m1 s3(1)
      by (simp add: nac_advance_stream_def assms(6) [symmetric] reg_read_mapped v_def s2_def Let_def)
  qed
  have returns: "\<exists>x t. nac_advance_stream E fd n b s = Some (Ok x, t)"
    if "\<exists>off t. wait_mindata E fd st p ?ba expire (first_offset (buf st) (phyaddr st) v, now) s3 = Some (Ok off, t)"
    using that run by auto
  show ?thesis
  proof (intro conjI impI, elim disjE conjE exE)
    fix K
    assume "\<forall>hist. K \<le> length hist \<longrightarrow> enough hist"
    then show "\<exists>x t. nac_advance_stream E fd n b s = Some (Ok x, t)"
      by (intro returns wait_mindata_returns [OF m3, of K]) (simp add: assms(11) off)
  next
    assume ts: "timerisset (maxwait st)" and "\<forall>T. \<exists>K. \<forall>hist. K \<le> length hist \<longrightarrow> T < fst (clock_at E hist)"
    then obtain K where "\<And>hist. K \<le> length hist \<Longrightarrow> fst expire < fst (clock_at E hist)" by blast
    then show "\<exists>x t. nac_advance_stream E fd n b s = Some (Ok x, t)"
      by (intro returns wait_mindata_returns [OF m3, of K]) (use ts in \<open>force simp: timer_gt_def\<close>)
  next
    assume "\<not> timerisset (maxwait st) \<and> (\<forall>hist. \<not> enough hist)"
    then have "wait_mindata E fd st p ?ba expire (first_offset (buf st) (phyaddr st) v, now) s3 = None"
      by (intro wait_mindata_hangs [OF m3]) (auto simp: assms(11) off v_def)
    then show "nac_advance_stream E fd n b s = None" using run by simp
  qed
qed

text \<open>A card whose record pointer stands 1024 bytes into stream 0's ring.\<close>

definition rx_env :: env where
  "rx_env = demo_env\<lparr>dev := (\<lambda>_ _ a. if a = record_ptr (rx_pbm 0) then 0x20000400 else 0)\<rparr>"

lemma demo_stream_wf:
  "ring_wf (demo_stream blk)" "attached (demo_stream blk)" "pbm (demo_stream blk) = PTo blk"
  "record_in_ring rx_env 3 (demo_stream (rx_pbm 0)) (rx_pbm 0)"
  by (simp_all add: ring_wf_def demo_stream_def record_in_ring_def rx_env_def)

lemma advance_returns_or_hangs_witness:
  "\<exists>x t. nac_advance_stream rx_env 3 0 0 (demo_with 0 (demo_stream (rx_pbm 0))) = Some (Ok x, t)"
proof -
  have "mindata (demo_stream (rx_pbm 0)) \<le> avail (first_offset (buf (demo_stream (rx_pbm 0)))
      (phyaddr (demo_stream (rx_pbm 0))) (dev rx_env hist 3 (record_ptr (rx_pbm 0))))
      (align128 (fix_bottom (demo_stream (rx_pbm 0)) 0)) (stream_size (demo_stream (rx_pbm 0)))" for hist
    by (simp add: demo_stream_def rx_env_def first_offset_def fix_bottom_def align128_def avail_def)
  then show ?thesis
    using advance_returns_or_hangs [where n = 0 and b = 0, OF demo_with_simps(1) _ _ _ _ _ demo_stream_wf(2,3,1,4) refl]
    by (auto simp: demo_simps NAC_STREAM_MAX_def)
qed

lemma advance_stream_safe_witness:
  "\<exists>tp bottom t. nac_advance_stream rx_env 3 0 0 (demo_with 0 (demo_stream (rx_pbm 0))) = Some (Ok (tp, bottom), t) \<and>
     in_ring (demo_stream (rx_pbm 0)) bottom"
proof -
  obtain x t where run: "nac_advance_stream rx_env 3 0 0 (demo_with 0 (demo_stream (rx_pbm 0))) = Some (Ok x, t)"
    by (simp add: nac_advance_stream_def demo_with_simps demo_simps NAC_STREAM_MAX_def
        demo_stream_wf set_timer_def move_limit_def wait_mindata_def Let_def
        iterate_leave mindata_round_def demo_stream_def zero_stream_def timerisset_def
        rx_env_def first_offset_def fix_bottom_def align128_def avail_def)
  show ?thesis
    using advance_stream_safe [OF demo_with_simps(1) _ _ _ _ _ demo_stream_wf(2,3,1,4) _ run] run
    by (auto simp: demo_simps NAC_STREAM_MAX_def)
qed

section \<open>Walking through the records\<close>

text \<open>The positions of records of the given lengths, one after the other.\<close>

fun positions :: "u64 \<Rightarrow> u32 list \<Rightarrow> u64 list" where
  "positions a [] = []"
| "positions a (l # ls) = a # positions (a + ucast l) ls"

text \<open>The headers at those positions carry those lengths, whoever reads this memory.\<close>

fun laid_out :: "env \<Rightarrow> mach \<Rightarrow> u64 \<Rightarrow> u32 list \<Rightarrow> bool" where
  "laid_out E s a [] \<longleftrightarrow> True"
| "laid_out E s a (l # ls) \<longleftrightarrow> read_rlen E a s = Some (Ok l, s) \<and> laid_out E s (a + ucast l) ls"

fun get_records :: "env \<Rightarrow> int \<Rightarrow> int \<Rightarrow> nat \<Rightarrow> u64 list nac" where
  "get_records E fd n 0 = ret []"
| "get_records E fd n (Suc k) = bnd (nac_get_next_record E fd n) (\<lambda>a.
     bnd (get_records E fd n k) (\<lambda>as. ret (a # as)))"

text \<open>One record that is there in full: no register is touched.\<close>

lemma get_next_record_fast:
  assumes "herd s fd = Some h" and "opened h" and "0 \<le> n" and "n < NAC_STREAM_MAX"
    and "st = stream h n" and "attached st" and "\<not> is_first_time st"
    and "read_rlen E (buf st + ucast (offset st)) s = Some (Ok l, s)"
    and "16 \<le> l" and "uint l \<le> uint (free_space st)" and "uint (free_space st) < 2 ^ 31"
    and "uint (processed st) + uint l \<le> uint (extra_window_size st)"
  shows "nac_get_next_record E fd n s = Some (Ok (buf st + ucast (offset st)), s\<lparr>herd := (herd s)(fd \<mapsto>
     h\<lparr>stream := (stream h)(n := st\<lparr>offset := offset st + l, free_space := free_space st - l,
       processed := processed st + l\<rparr>)\<rparr>)\<rparr>)"
proof -
  have l: "16 \<le> uint l" using assms(9) by (simp add: word_le_def)
  have x: "uint (extra_window_size st) < 2 ^ 32" using uint_lt2p [of "extra_window_size st"] by simp
  have "uint (processed st + l) = uint (processed st) + uint l"
    using assms(12) x by (intro uint_add_small) linarith
  then have p: "\<not> extra_window_size st < processed st + l" using assms(12) by (simp add: word_less_def)
  have "uint (processed st + nac_record_size) = uint (processed st) + 16"
    using assms(12) x l by (subst uint_add_small) (simp_all add: nac_record_size_def)
  then have q: "\<not> extra_window_size st < processed st + nac_record_size"
    using assms(12) l by (simp add: word_less_def)
  have f: "\<not> free_space st <s nac_record_size" "\<not> free_space st < l"
    using assms(10,11) l sint_small [of "free_space st"]
    by (simp_all add: word_sless_alt word_less_def nac_record_size_def)
  have o: "ucast (buf st + ucast (offset st) + ucast l - buf st) = offset st + l"
  proof -
    have "buf st + ucast (offset st) + ucast l - buf st = ucast (offset st) + (ucast l :: u64)" by simp
    then show ?thesis
      by (simp add: word_uint_eq_iff unsigned_ucast_eq uint_word_ariths take_bit_eq_mod mod_mod_cancel)
  qed
  show ?thesis
    using assms(1-4,6-8) f p q o
    by (simp add: nac_get_next_record_def assms(5) [symmetric] fun_upd_idem)
qed

lemma laid_out_herd [simp]: "laid_out E (s\<lparr>herd := g\<rparr>) a ls = laid_out E s a ls"
proof (induction ls arbitrary: a)
  case (Cons l ls)
  have "read_byte E b (s\<lparr>herd := g\<rparr>) = (case read_byte E b s of Some (r, u) \<Rightarrow> Some (r, u\<lparr>herd := g\<rparr>) | None \<Rightarrow> None)"
    for b by (simp add: read_byte_def split: cell.splits)
  then have "read_rlen E a (s\<lparr>herd := g\<rparr>) = Some (Ok l, s\<lparr>herd := g\<rparr>) \<longleftrightarrow> read_rlen E a s = Some (Ok l, s)"
    by (simp add: read_rlen_def read_byte_def bnd_def split: cell.splits)
  with Cons.IH show ?case by simp
qed simp

definition sum_len :: "u32 list \<Rightarrow> int" where
  "sum_len ls = sum_list (map uint ls)"

lemma sum_len_simps: "sum_len [] = 0" "sum_len (l # ls) = uint l + sum_len ls"
  by (simp_all add: sum_len_def)

lemma sum_len_nonneg: "0 \<le> sum_len ls"
  by (induction ls) (simp_all add: sum_len_simps)

text \<open>
  C4. While the records that have arrived last, \<open>nac_get_next_record\<close> walks through them:
  \<open>k\<close> calls return the positions of the \<open>k\<close> consecutive records that lie from the current
  offset on (each of at least 16 bytes, together within the free space and the window, the
  offset not wrapping), advance the offset, the free space and the processed count by their
  total length, and neither touch a register nor change anything else.
\<close>

theorem get_records_walk:
  assumes "herd s fd = Some h" and "opened h" and "0 \<le> n" and "n < NAC_STREAM_MAX"
    and "st = stream h n" and "attached st" and "\<not> is_first_time st"
    and "laid_out E s (buf st + ucast (offset st)) ls" and "\<forall>l \<in> set ls. 16 \<le> l"
    and "sum_len ls \<le> uint (free_space st)" and "uint (free_space st) < 2 ^ 31"
    and "uint (processed st) + sum_len ls \<le> uint (extra_window_size st)"
    and "uint (offset st) + sum_len ls < 2 ^ 32"
  shows "get_records E fd n (length ls) s = Some (Ok (positions (buf st + ucast (offset st)) ls),
     s\<lparr>herd := (herd s)(fd \<mapsto> h\<lparr>stream := (stream h)(n :=
       st\<lparr>offset := offset st + sum_list ls, free_space := free_space st - sum_list ls,
          processed := processed st + sum_list ls\<rparr>)\<rparr>)\<rparr>)"
  using assms
proof (induction ls arbitrary: s h st)
  case Nil
  then show ?case by (simp add: fun_upd_idem)
next
  case (Cons l ls)
  note P = Cons.prems
  have nn: "0 \<le> sum_len ls" by (rule sum_len_nonneg)
  have le: "uint l \<le> uint (free_space st)" "uint (processed st) + uint l \<le> uint (extra_window_size st)"
    "uint (offset st) + uint l < 2 ^ 32"
    using P(10,12,13) nn unfolding sum_len_simps by linarith+
  define st' where "st' = st\<lparr>offset := offset st + l, free_space := free_space st - l, processed := processed st + l\<rparr>"
  define h' where "h' = h\<lparr>stream := (stream h)(n := st')\<rparr>"
  define s' where "s' = s\<lparr>herd := (herd s)(fd \<mapsto> h')\<rparr>"
  have step: "nac_get_next_record E fd n s = Some (Ok (buf st + ucast (offset st)), s')"
    using get_next_record_fast [OF P(1-7) _ _ le(1) P(11) le(2)] P(8,9)
    by (simp add: s'_def h'_def st'_def)
  have u: "uint (offset st + l) = uint (offset st) + uint l" "uint (free_space st - l) = uint (free_space st) - uint l"
    using le(1,3) by (simp_all add: uint_add_small uint_sub32)
  have x: "uint (extra_window_size st) < 2 ^ 32" using uint_lt2p [of "extra_window_size st"] by simp
  have up: "uint (processed st + l) = uint (processed st) + uint l"
    using le(2) x by (intro uint_add_small) linarith
  have pos: "buf st + ucast (offset st) + ucast l = buf st + (ucast (offset st + l) :: u64)"
    using u(1) by (simp add: word_uint_eq_iff uint_word_ariths mod_add_eq) (simp add: ac_simps mod_simps)
  have "get_records E fd n (length ls) s' = Some (Ok (positions (buf st' + ucast (offset st')) ls),
     s'\<lparr>herd := (herd s')(fd \<mapsto> h'\<lparr>stream := (stream h')(n :=
       st'\<lparr>offset := offset st' + sum_list ls, free_space := free_space st' - sum_list ls,
          processed := processed st' + sum_list ls\<rparr>)\<rparr>)\<rparr>)"
  proof (rule Cons.IH)
    show "laid_out E s' (buf st' + ucast (offset st')) ls" using P(8) pos by (simp add: s'_def st'_def)
    show "sum_len ls \<le> uint (free_space st')" using P(10) u by (simp add: st'_def sum_len_simps)
    have "uint (free_space st - l) < 2 ^ 31" using P(11) u(2) uint_ge_0 [of l] by linarith
    then show "uint (free_space st') < 2 ^ 31" by (simp add: st'_def)
    show "uint (processed st') + sum_len ls \<le> uint (extra_window_size st')" "uint (offset st') + sum_len ls < 2 ^ 32"
      using P(12,13) u up by (simp_all add: st'_def sum_len_simps)
  qed (use P in \<open>simp_all add: s'_def h'_def st'_def\<close>)
  moreover have "s'\<lparr>herd := (herd s')(fd \<mapsto> h'\<lparr>stream := (stream h')(n := X)\<rparr>)\<rparr> =
      s\<lparr>herd := (herd s)(fd \<mapsto> h\<lparr>stream := (stream h)(n := X)\<rparr>)\<rparr>" for X
    by (simp add: s'_def h'_def)
  moreover have "st'\<lparr>offset := offset st' + sum_list ls, free_space := free_space st' - sum_list ls,
      processed := processed st' + sum_list ls\<rparr> = st\<lparr>offset := offset st + sum_list (l # ls),
      free_space := free_space st - sum_list (l # ls), processed := processed st + sum_list (l # ls)\<rparr>"
    by (simp add: st'_def algebra_simps)
  moreover have "positions (buf st + ucast (offset st)) (l # ls) =
      (buf st + ucast (offset st)) # positions (buf st' + ucast (offset st')) ls"
    by (simp only: positions.simps(2) pos) (simp add: st'_def)
  ultimately show ?case using step by (simp, simp add: fun_upd_def)
qed

text \<open>Two records of 64 bytes at the start of stream 0's buffer.\<close>

definition records_mach :: mach where
  "records_mach = (demo_with 0 ((demo_stream (rx_pbm 0))\<lparr>is_first_time := False, free_space := 200\<rparr>))
     \<lparr>ram := (\<lambda>c. if c = Priv (0x7f2000000000 + 11) \<or> c = Priv (0x7f2000000000 + 75) then 64 else 0)\<rparr>"

lemma get_records_walk_witness:
  "\<exists>t. get_records rx_env 3 0 2 records_mach = Some (Ok [0x7f2000000000, 0x7f2000000040], t)"
proof -
  let ?st = "(demo_stream (rx_pbm 0))\<lparr>is_first_time := False, free_space := 200\<rparr>"
  have h: "herd records_mach 3 = Some (demo_card\<lparr>stream := (stream demo_card)(0 := ?st)\<rparr>)"
    by (simp add: records_mach_def demo_with_simps)
  have st: "buf ?st = 0x7f2000000000" "offset ?st = 0" "processed ?st = 0" "extra_window_size ?st = 0x100000"
    "free_space ?st = 200" "attached ?st" "\<not> is_first_time ?st"
    by (simp_all add: demo_stream_def zero_stream_def)
  have "laid_out rx_env records_mach 0x7f2000000000 [64, 64]"
    by (simp add: read_rlen_def read_byte_def records_mach_def demo_with_def demo_mach_def)
  then show ?thesis
    unfolding numeral_2_eq_2
    using get_records_walk [where E = rx_env and ls = "[64, 64]" and n = 0, OF h _ _ _ refl] st
    by (simp add: demo_simps NAC_STREAM_MAX_def sum_len_simps del: get_records.simps)
qed

section \<open>A record handed out before it has arrived\<close>

text \<open>
  When the header at the current position announces a record longer than the free space,
  and the advance this provokes answers a top pointer before the position (which it may, since
  it counts from the position rounded down and then steps back 128 bytes), then the free space
  is negative; it is compared with the length as an unsigned number, so
  \<open>nac_get_next_record\<close> hands the record out although it has not arrived.
\<close>

theorem negative_space_accepted:
  assumes "herd s fd = Some h" and "opened h" and "0 \<le> n" and "n < NAC_STREAM_MAX"
    and "st = stream h n" and "attached st" and "\<not> is_first_time st"
    and "read_rlen E (buf st + ucast (offset st)) s = Some (Ok l, s)"
    and "16 \<le> uint (free_space st)" and "uint (free_space st) < uint l" and "uint l < 2 ^ 31"
    and "uint (processed st) + 16 \<le> uint (extra_window_size st)"
    and adv: "nac_advance_stream E fd n (buf st + ucast (offset st)) s = Some (Ok (tp, pos), t)"
    and "herd t = herd s" and "tp \<noteq> 0" and "uint tp < uint pos" and "uint pos < uint tp + 2 ^ 31"
  shows "\<exists>t'. nac_get_next_record E fd n s = Some (Ok pos, t')"
proof -
  have x: "uint (extra_window_size st) < 2 ^ 32" using uint_lt2p [of "extra_window_size st"] by simp
  have "uint (processed st + nac_record_size) = uint (processed st) + 16"
    using assms(12) x by (subst uint_add_small) (simp_all add: nac_record_size_def)
  then have q: "\<not> extra_window_size st < processed st + nac_record_size"
    using assms(12) by (simp add: word_less_def)
  have f: "\<not> free_space st <s nac_record_size" "free_space st < l"
    using assms(9-11) sint_small [of "free_space st"]
    by (simp_all add: word_sless_alt word_less_def nac_record_size_def)
  have "uint (tp - pos) = uint tp - uint pos + 2 ^ 64"
    using assms(16) by (simp add: uint_sub_if')
  then have "uint (ucast (tp - pos) :: u32) = (uint tp - uint pos + 2 ^ 64) mod 2 ^ 32"
    by (simp add: unsigned_ucast_eq take_bit_eq_mod)
  also have "\<dots> = uint tp - uint pos + 2 ^ 32"
  proof -
    have "(uint tp - uint pos + 2 ^ 64) mod 2 ^ 32 = (uint tp - uint pos + 2 ^ 32) mod 2 ^ 32"
      by (rule mod_eq_dvd_iff [THEN iffD2]) simp
    also have "\<dots> = uint tp - uint pos + 2 ^ 32"
      using assms(16,17) by (intro mod_pos_pos_trivial) simp_all
    finally show ?thesis .
  qed
  finally have g: "\<not> (ucast (tp - pos) :: u32) < l"
    using assms(11,17) by (simp add: word_less_def)
  show ?thesis
    using assms(1-4,6-8,14,15) adv f q g
    by (simp add: nac_get_next_record_def refill_def assms(5) [symmetric])
qed

text \<open>
  The ring after 120 bytes have been reported and a first record of 100 bytes been taken; the
  card has written 130 bytes by now, and the next header announces 64.
\<close>

definition short_env :: env where
  "short_env = demo_env\<lparr>dev := (\<lambda>_ _ a. if a = record_ptr (rx_pbm 0) then 0x20000000 + 130 else 0)\<rparr>"

definition short_mach :: mach where
  "short_mach = (demo_with 0 ((demo_stream (rx_pbm 0))
       \<lparr>is_first_time := False, offset := 100, free_space := 20, processed := 100\<rparr>))
     \<lparr>ram := (\<lambda>c. if c = Priv (0x7f2000000000 + 111) then 64 else 0)\<rparr>"

lemma negative_space_accepted_witness:
  "\<exists>t. nac_get_next_record short_env 3 0 short_mach = Some (Ok (0x7f2000000000 + 100), t)"
proof -
  let ?st = "(demo_stream (rx_pbm 0))\<lparr>is_first_time := False, offset := 100, free_space := 20, processed := 100\<rparr>"
  have h: "herd short_mach 3 = Some (demo_card\<lparr>stream := (stream demo_card)(0 := ?st)\<rparr>)"
    by (simp add: short_mach_def demo_with_simps)
  have st: "buf ?st = 0x7f2000000000" "offset ?st = 100" "processed ?st = 100" "extra_window_size ?st = 0x100000"
    "free_space ?st = 20" "attached ?st" "\<not> is_first_time ?st"
    by (simp_all add: demo_stream_def zero_stream_def)
  have rl: "read_rlen short_env (0x7f2000000000 + 100) short_mach = Some (Ok 64, short_mach)"
    by (simp add: read_rlen_def read_byte_def short_mach_def demo_with_def demo_mach_def)
  obtain t where t: "nac_advance_stream short_env 3 0 (0x7f2000000000 + 100) short_mach =
      Some (Ok (0x7f2000000000 + 2, 0x7f2000000000 + 100), t)" "herd t = herd short_mach"
    by (simp add: nac_advance_stream_def short_mach_def demo_with_simps demo_simps NAC_STREAM_MAX_def
        demo_stream_wf set_timer_def move_limit_def wait_mindata_def Let_def wrap_offset_def
        iterate_leave mindata_round_def demo_stream_def zero_stream_def timerisset_def SAFETY_WINDOW_def
        short_env_def first_offset_def fix_bottom_def align128_def avail_def mapped_runs)
  show ?thesis
    using negative_space_accepted [where n = 0 and E = short_env and l = 64, OF h _ _ _ refl] st rl t
    by (simp add: demo_simps NAC_STREAM_MAX_def)
qed

end
