(* ===== verification/StreamTx.thy ===== *)
theory StreamTx
  imports StreamRx
begin

text \<open>
  Filling a transmit stream (lib/nac_stream.c): copying bytes into the ring
  (\<open>nac_tx_stream_copy_bytes\<close>), the zero-copy pair \<open>nac_tx_get_stream_space\<close> and
  \<open>nac_tx_stream_commit_bytes\<close>, and \<open>nac_tx_memcpy\<close>, which copies one packet and sets its
  output port. Transmit streams have the numbers 8 to 15.
\<close>

section \<open>Checks and waits\<close>

text \<open>The check that the stream is a write stream.\<close>

definition is_tx_stream :: "int \<Rightarrow> bool" where
  "is_tx_stream n \<longleftrightarrow> \<not> (n < NUM_STREAM \<or> NUM_STREAM * 2 - 1 < n)"

text \<open>
  One round of the wait of \<open>nac_tx_stream_copy_bytes\<close>: the free space is the distance from 128
  bytes behind the limit to the record pointer, plus the ring's size if that is negative.
\<close>

definition copy_space :: "u32 \<Rightarrow> u32 \<Rightarrow> u32 \<Rightarrow> u32" where
  "copy_space bufsize tp bottom =
     (let f = tp - (bottom + 128) in if f <s 0 then f + bufsize else f)"

definition copy_round :: "env \<Rightarrow> int \<Rightarrow> int \<Rightarrow> u32 \<Rightarrow> unit \<Rightarrow> (unit + unit) nac" where
  "copy_round E nacfd n len u =
     bnd (get_stream nacfd n) (\<lambda>st.
     if \<not> (free_space st <s len) then ret (Inr ())
     else bnd (deref_pbm (pbm st)) (\<lambda>p.
       bnd (reg_read E nacfd (record_ptr p)) (\<lambda>tp.
       bnd (reg_read E nacfd (limit_ptr p)) (\<lambda>bottom.
       bnd (put_stream nacfd n (\<lambda>st. st\<lparr>last_bus_top := tp, last_bus_bottom := bottom,
              free_space := copy_space (stream_size st) tp bottom\<rparr>)) (\<lambda>_.
       bnd (nanosleep (poll st)) (\<lambda>_. ret (Inl ())))))))"

text \<open>
  \<open>nac_tx_get_stream_space\<close> reads the limit once before its loop, and adds the ring's size also
  when the distance is 0.
\<close>

definition space_free :: "u32 \<Rightarrow> u32 \<Rightarrow> u32 \<Rightarrow> u32" where
  "space_free bufsize tp bottom = (let f = tp - bottom in if f \<le>s 0 then f + bufsize else f)"

definition space_round :: "env \<Rightarrow> int \<Rightarrow> int \<Rightarrow> u32 \<Rightarrow> unit \<Rightarrow> (unit + unit) nac" where
  "space_round E nacfd n len u =
     bnd (get_stream nacfd n) (\<lambda>st.
     if \<not> (free_space st <s len + 2048) then ret (Inr ())
     else bnd (deref_pbm (pbm st)) (\<lambda>p.
       bnd (reg_read E nacfd (record_ptr p)) (\<lambda>tp.
       bnd (put_stream nacfd n (\<lambda>st. st\<lparr>last_bus_top := tp,
              free_space := space_free (stream_size st) tp (last_bus_bottom st)\<rparr>)) (\<lambda>_.
       bnd (nanosleep (poll st)) (\<lambda>_. ret (Inl ()))))))"

section \<open>Advancing the write offset\<close>

text \<open>\<open>nac_tx_stream_copy_bytes\<close> wraps at the ring's size, the commit only beyond it.\<close>

definition copy_advance :: "u32 \<Rightarrow> u32 \<Rightarrow> u32 \<Rightarrow> u32" where
  "copy_advance bufsize off len = (let o1 = off + len in if bufsize \<le> o1 then o1 - bufsize else o1)"

definition commit_advance :: "u32 \<Rightarrow> u32 \<Rightarrow> u32 \<Rightarrow> u32" where
  "commit_advance bufsize off len = (let o1 = off + len in if bufsize < o1 then o1 - bufsize else o1)"

section \<open>The three operations\<close>

text \<open>
  The copy itself, in one piece or around the end of the ring. Both lengths are of type \<open>int\<close>:
  a negative one would be taken by \<open>memcpy\<close> as a length beyond the address space.
\<close>

definition ring_copy :: "env \<Rightarrow> stream_t \<Rightarrow> u64 \<Rightarrow> u32 \<Rightarrow> unit nac" where
  "ring_copy E st orig len =
     (let remaining = stream_size st - offset st in
      if len \<le>s remaining then
        if len <s 0 then fault else memcpy E (buf st + ucast (offset st)) orig (unat len)
      else if remaining <s 0 then fault
      else bnd (memcpy E (buf st + ucast (offset st)) orig (unat remaining)) (\<lambda>_.
           memcpy E (buf st) (orig + ucast remaining) (unat (len - remaining))))"

definition nac_tx_stream_copy_bytes :: "env \<Rightarrow> int \<Rightarrow> int \<Rightarrow> u64 \<Rightarrow> u32 \<Rightarrow> i32 nac" where
  "nac_tx_stream_copy_bytes E nacfd n orig0 len =
     bnd (get_stream nacfd n) (\<lambda>st0.
     bnd (get_sheep nacfd) (\<lambda>h.
     if \<not> opened h then fail_with EBADF (- 1)
     else if \<not> attached st0 then fail_with EINVAL (- 1)
     else if stream_size st0 < len then fail_with EINVAL (- 1)
     else if \<not> is_tx_stream n then fail_with ENOTTY (- 1)
     else bnd (if orig0 = 0 then bnd (get_stream nacfd (n - NUM_STREAM)) (\<lambda>rx. ret (buf rx))
               else ret orig0) (\<lambda>orig.
       bnd (iterate (copy_round E nacfd n len) ()) (\<lambda>_.
       bnd (put_stream nacfd n (\<lambda>st. st\<lparr>free_space := free_space st - len\<rparr>)) (\<lambda>_.
       bnd (get_stream nacfd n) (\<lambda>st.
       bnd (ring_copy E st orig len) (\<lambda>_.
       let off = copy_advance (stream_size st) (offset st) len; bottom = phyaddr st + off in
       bnd (put_stream nacfd n (\<lambda>st. st\<lparr>offset := off, last_bus_bottom := bottom\<rparr>)) (\<lambda>_.
       bnd (deref_pbm (pbm st)) (\<lambda>p.
       bnd (reg_write nacfd (limit_ptr p) bottom) (\<lambda>_. ret len))))))))))"

definition nac_tx_get_stream_space :: "env \<Rightarrow> int \<Rightarrow> int \<Rightarrow> u32 \<Rightarrow> u64 nac" where
  "nac_tx_get_stream_space E nacfd n len =
     bnd (get_stream nacfd n) (\<lambda>st0.
     bnd (get_sheep nacfd) (\<lambda>h.
     if \<not> opened h then fail_with EBADF 0
     else if \<not> attached st0 then fail_with EINVAL 0
     else if len = 0 then fail_with EINVAL 0
     else if \<not> is_tx_stream n then fail_with ENOTTY 0
     else bnd (deref_pbm (pbm st0)) (\<lambda>p.
       bnd (reg_read E nacfd (limit_ptr p)) (\<lambda>bottom.
       bnd (put_stream nacfd n (\<lambda>st. st\<lparr>last_bus_bottom := bottom\<rparr>)) (\<lambda>_.
       bnd (iterate (space_round E nacfd n len) ()) (\<lambda>_.
       bnd (put_stream nacfd n (\<lambda>st. st\<lparr>free_space := free_space st - len\<rparr>)) (\<lambda>_.
       bnd (get_stream nacfd n) (\<lambda>st. ret (buf st + ucast (offset st))))))))))"

definition nac_tx_stream_commit_bytes :: "int \<Rightarrow> int \<Rightarrow> u32 \<Rightarrow> u64 nac" where
  "nac_tx_stream_commit_bytes nacfd n len =
     bnd (get_stream nacfd n) (\<lambda>st0.
     bnd (get_sheep nacfd) (\<lambda>h.
     if \<not> opened h then fail_with EBADF 0
     else if \<not> attached st0 then fail_with EINVAL 0
     else if stream_size st0 < len then fail_with EINVAL 0
     else if \<not> is_tx_stream n then fail_with ENOTTY 0
     else
       let off = commit_advance (stream_size st0) (offset st0) len; bottom = phyaddr st0 + off in
       bnd (put_stream nacfd n (\<lambda>st. st\<lparr>offset := off, last_bus_bottom := bottom\<rparr>)) (\<lambda>_.
       bnd (deref_pbm (pbm st0)) (\<lambda>p.
       bnd (reg_write nacfd (limit_ptr p) bottom) (\<lambda>_.
       ret (buf st0 + ucast off))))))"

text \<open>
  \<open>nac_tx_memcpy\<close> copies the packet at \<open>bottom\<close> to the place \<open>*orig_ptr\<close>; the result is the
  place after it, stored in \<open>*orig_ptr\<close> as well (0 leaves it as it is). The output port goes
  into bits 4 and 5 of byte 15 of the packet itself.
\<close>

definition nac_tx_memcpy :: "env \<Rightarrow> u64 \<Rightarrow> u64 \<Rightarrow> u8 \<Rightarrow> u64 nac" where
  "nac_tx_memcpy E cp_org p number =
     (if p = 0 \<or> cp_org = 0 then ret 0
      else if 3 < number then ret 0
      else bnd (read_rlen E p) (\<lambda>rlen.
        bnd (read_byte E (p + 15)) (\<lambda>b1.
        bnd (write_byte (p + 15) (b1 AND 0xCF)) (\<lambda>_.
        bnd (read_byte E (p + 15)) (\<lambda>b2.
        bnd (write_byte (p + 15) (b2 OR push_bit 4 number)) (\<lambda>_.
        bnd (memcpy E cp_org p (unat rlen)) (\<lambda>_.
        ret (cp_org + ucast rlen))))))))"

section \<open>The write offset as a counter modulo the ring\<close>

text \<open>
  What both ways of advancing promise, over unbounded numbers: the offset stays within the
  ring (its end included) and is the sum of what was written, modulo the ring's size.
\<close>

locale ring_counter =
  fixes adv :: "int \<Rightarrow> int \<Rightarrow> int \<Rightarrow> int"
  assumes adv_range: "0 < z \<Longrightarrow> 0 \<le> a \<Longrightarrow> a \<le> z \<Longrightarrow> 0 \<le> k \<Longrightarrow> k \<le> z \<Longrightarrow> 0 \<le> adv z a k \<and> adv z a k \<le> z"
    and adv_mod: "0 < z \<Longrightarrow> 0 \<le> a \<Longrightarrow> a \<le> z \<Longrightarrow> 0 \<le> k \<Longrightarrow> k \<le> z \<Longrightarrow> adv z a k mod z = (a + k) mod z"
begin

lemma advances:
  "0 < z \<Longrightarrow> 0 \<le> a \<Longrightarrow> a \<le> z \<Longrightarrow> \<forall>k \<in> set ks. 0 \<le> k \<and> k \<le> z \<Longrightarrow>
     0 \<le> foldl (adv z) a ks \<and> foldl (adv z) a ks \<le> z \<and>
     foldl (adv z) a ks mod z = (a + sum_list ks) mod z"
proof (induction ks arbitrary: a)
  case (Cons k ks)
  then have r: "0 \<le> adv z a k" "adv z a k \<le> z" using adv_range [of z a k] by auto
  have "(adv z a k + sum_list ks) mod z = (a + (k + sum_list ks)) mod z"
    using adv_mod [of z a k] Cons.prems by (metis (no_types, lifting) add.assoc list.set_intros(1) mod_add_left_eq)
  with Cons.IH [OF Cons.prems(1) r] Cons.prems(4) show ?case by simp
qed simp

end

definition int_copy_advance :: "int \<Rightarrow> int \<Rightarrow> int \<Rightarrow> int" where
  "int_copy_advance z a k = (if z \<le> a + k then a + k - z else a + k)"

definition int_commit_advance :: "int \<Rightarrow> int \<Rightarrow> int \<Rightarrow> int" where
  "int_commit_advance z a k = (if z < a + k then a + k - z else a + k)"

interpretation copy_counter: ring_counter int_copy_advance
  by unfold_locales (auto simp: int_copy_advance_def mod_diff_right_eq)

interpretation commit_counter: ring_counter int_commit_advance
  by unfold_locales (auto simp: int_commit_advance_def)

text \<open>
  Where the commits leave the offset when \<open>x\<close> bytes were written in all: the end of the ring is
  named \<open>z\<close>, not 0, and 0 only ever means that nothing was written.
\<close>

definition commit_place :: "int \<Rightarrow> int \<Rightarrow> int" where
  "commit_place z x = (if x = 0 then 0 else (x - 1) mod z + 1)"

lemma commit_place_small: "0 \<le> x \<Longrightarrow> x \<le> z \<Longrightarrow> commit_place z x = x"
  by (simp add: commit_place_def)

lemma commit_place_advance:
  assumes "0 < z" and "0 \<le> x" and "0 \<le> k" and "k \<le> z"
  shows "int_commit_advance z (commit_place z x) k = commit_place z (x + k)"
proof (cases "x = 0")
  case False
  define q where "q = (x - 1) mod z"
  have q: "0 \<le> q" "q < z" using assms(1) by (simp_all add: q_def)
  have "(x + k - 1) mod z = (q + k) mod z"
    using mod_add_left_eq [of "x - 1" z k] by (simp only: q_def) (simp add: algebra_simps)
  also have "\<dots> = (if q + k < z then q + k else q + k - z)"
  proof (cases "q + k < z")
    case ge: False
    then have "0 \<le> q + k - z" "q + k - z < z" using q assms(4) by simp_all
    then have "(q + k - z) mod z = q + k - z" by (rule mod_pos_pos_trivial)
    then show ?thesis using ge by (simp only: minus_mod_self2 if_False)
  qed (use q assms(3) in simp)
  finally show ?thesis
    using False assms(2,3) by (simp add: commit_place_def int_commit_advance_def q_def [symmetric])
qed (use assms in \<open>simp add: int_commit_advance_def commit_place_small commit_place_def [of z 0]\<close>)

lemma commit_places:
  "0 < z \<Longrightarrow> 0 \<le> x \<Longrightarrow> \<forall>k \<in> set ks. 0 \<le> k \<and> k \<le> z \<Longrightarrow>
     foldl (int_commit_advance z) (commit_place z x) ks = commit_place z (x + sum_list ks)"
proof (induction ks arbitrary: x)
  case (Cons k ks)
  then show ?case using Cons.IH [of "x + k"] by (simp add: commit_place_advance add.assoc)
qed simp

lemma advance_uint:
  assumes "uint a \<le> uint z" and "uint k \<le> uint z" and "uint z < 2 ^ 31"
  shows "uint (copy_advance z a k) = int_copy_advance (uint z) (uint a) (uint k)"
    and "uint (commit_advance z a k) = int_commit_advance (uint z) (uint a) (uint k)"
proof -
  have s: "uint (a + k) = uint a + uint k" using assms by (intro uint_add_small) simp
  show "uint (copy_advance z a k) = int_copy_advance (uint z) (uint a) (uint k)"
    and "uint (commit_advance z a k) = int_commit_advance (uint z) (uint a) (uint k)"
    by (auto simp: copy_advance_def commit_advance_def int_copy_advance_def int_commit_advance_def
        Let_def word_le_def word_less_def s uint_sub32)
qed

section \<open>Copying into the ring\<close>

lemma memcpy_run:
  assumes "\<And>i. i < n \<Longrightarrow> vmap s (src + of_nat i) = Priv (g i)"
    and "\<And>i. i < n \<Longrightarrow> vmap s (dst + of_nat i) = Hole fd (d + of_nat i)" and "n \<le> 2 ^ 32"
  shows "\<exists>m. memcpy E dst src n s = Some (Ok (), s\<lparr>ram := m\<rparr>) \<and>
     (\<forall>i < n. m (Hole fd (d + of_nat i)) = ram s (Priv (g i))) \<and>
     (\<forall>c. (\<forall>i < n. c \<noteq> Hole fd (d + of_nat i)) \<longrightarrow> m c = ram s c)"
  using assms
proof (induction n arbitrary: src dst d g s)
  case (Suc n)
  define s1 where "s1 = s\<lparr>ram := (ram s)(Hole fd d := ram s (Priv (g 0)))\<rparr>"
  have v0: "vmap s src = Priv (g 0)" "vmap s dst = Hole fd d"
    using Suc.prems(1,2) [of 0] by simp_all
  have "\<exists>m. memcpy E (dst + 1) (src + 1) n s1 = Some (Ok (), s1\<lparr>ram := m\<rparr>) \<and>
     (\<forall>i < n. m (Hole fd (d + 1 + of_nat i)) = ram s1 (Priv (g (Suc i)))) \<and>
     (\<forall>c. (\<forall>i < n. c \<noteq> Hole fd (d + 1 + of_nat i)) \<longrightarrow> m c = ram s1 c)"
    using Suc.prems(1) [of "Suc i" for i] Suc.prems(2) [of "Suc i" for i] Suc.prems(3)
    by (intro Suc.IH) (simp_all add: s1_def algebra_simps)
  then obtain m where m: "memcpy E (dst + 1) (src + 1) n s1 = Some (Ok (), s1\<lparr>ram := m\<rparr>)"
    "\<forall>i < n. m (Hole fd (d + 1 + of_nat i)) = ram s (Priv (g (Suc i)))"
    "\<forall>c. (\<forall>i < n. c \<noteq> Hole fd (d + 1 + of_nat i)) \<longrightarrow> m c = ram s1 c" by (auto simp: s1_def)
  have ne: "d \<noteq> d + 1 + of_nat i" if "i < n" for i
  proof
    assume "d = d + 1 + of_nat i"
    then have "d + 0 = d + of_nat (Suc i)" by (simp add: algebra_simps)
    then have "(0 :: u64) = of_nat (Suc i)" by (simp only: add_left_cancel)
    then have "unat (of_nat (Suc i) :: u64) = 0" by simp
    moreover have "unat (of_nat (Suc i) :: u64) = Suc i"
      using that Suc.prems(3) by (simp add: unat_of_nat del: of_nat_Suc)
    ultimately show False by simp
  qed
  have run: "memcpy E dst src (Suc n) s = Some (Ok (), s\<lparr>ram := m\<rparr>)"
    using v0 m(1) by (simp add: read_byte_def write_byte_def bnd_def s1_def)
  have "m (Hole fd (d + of_nat i)) = ram s (Priv (g i))" if "i < Suc n" for i
  proof (cases i)
    case 0
    have "m (Hole fd d) = ram s1 (Hole fd d)" using m(3) ne by blast
    with 0 show ?thesis by (simp add: s1_def)
  next
    case (Suc j)
    with m(2) that show ?thesis by (simp add: algebra_simps)
  qed
  moreover have "m c = ram s c" if c: "\<forall>i < Suc n. c \<noteq> Hole fd (d + of_nat i)" for c
  proof -
    have "\<forall>i < n. c \<noteq> Hole fd (d + 1 + of_nat i)"
      using c by (auto simp: algebra_simps dest: spec [where x = "Suc i" for i])
    moreover have "c \<noteq> Hole fd d" using c [rule_format, of 0] by simp
    ultimately show ?thesis using m(3) by (simp add: s1_def)
  qed
  ultimately show ?case using run by blast
next
  case 0
  show ?case by (rule exI [where x = "ram s"]) simp
qed

text \<open>The cell of the ring that byte \<open>k\<close> of a copy at offset \<open>off\<close> goes to.\<close>

definition ring_cell :: "int \<Rightarrow> u64 \<Rightarrow> u32 \<Rightarrow> u32 \<Rightarrow> nat \<Rightarrow> cell" where
  "ring_cell fd hole z off k = Hole fd (hole + of_nat ((unat off + k) mod unat z))"

lemma unat_lt_uint: "unat (a :: u32) < unat b \<longleftrightarrow> uint a < uint b"
  and unat_le_uint: "unat (a :: u32) \<le> unat b \<longleftrightarrow> uint a \<le> uint b"
  and unat_small_uint: "unat (a :: u32) < 2 ^ 31 \<longleftrightarrow> uint a < 2 ^ 31"
proof -
  show "unat a < unat b \<longleftrightarrow> uint a < uint b" by (simp only: uint_nat of_nat_less_iff)
  show "unat a \<le> unat b \<longleftrightarrow> uint a \<le> uint b" by (simp only: uint_nat of_nat_le_iff)
  show "unat a < 2 ^ 31 \<longleftrightarrow> uint a < 2 ^ 31" 
    by (simp only: uint_nat of_nat_less_numeral_power_cancel_iff)
qed

lemma unat_lt_signed: "unat (a :: u32) < 2 ^ 31 \<Longrightarrow> sint a = int (unat a)"
proof -
  assume "unat a < 2 ^ 31"
  then have "int (unat a) < int (2 ^ 31)" by (simp only: of_nat_less_iff)
  then have "uint a < 2 ^ 31" by simp
  then show ?thesis by (simp add: sint_small)
qed

lemma of_nat_inj64: "(of_nat a :: u64) = of_nat b \<Longrightarrow> a < 2 ^ 64 \<Longrightarrow> b < 2 ^ 64 \<Longrightarrow> a = b"
proof -
  assume e: "(of_nat a :: u64) = of_nat b" and l: "a < 2 ^ 64" "b < 2 ^ 64"
  have "unat (of_nat a :: u64) = a" "unat (of_nat b :: u64) = b"
    using l by (simp_all only: unat_of_nat len_of_numeral_defs mod_less) simp_all
  with e show "a = b" by metis
qed

lemma ring_copy_run:
  assumes z: "z = stream_size st" and off: "unat (offset st) \<le> unat z" and len: "unat len \<le> unat z"
    and small: "unat z < 2 ^ 31"
    and ring: "\<And>i. i < unat z \<Longrightarrow> vmap s (buf st + of_nat i) = Hole fd (hole + of_nat i)"
    and src: "\<And>i. i < unat len \<Longrightarrow> vmap s (orig + of_nat i) = Priv (orig + of_nat i)"
  shows "\<exists>m. ring_copy E st orig len s = Some (Ok (), s\<lparr>ram := m\<rparr>) \<and>
     (\<forall>k < unat len. m (ring_cell fd hole z (offset st) k) = ram s (Priv (orig + of_nat k))) \<and>
     (\<forall>c. (\<forall>k < unat len. c \<noteq> ring_cell fd hole z (offset st) k) \<longrightarrow> m c = ram s c)"
proof -
  define r where "r = z - offset st"
  have ur: "unat r = unat z - unat (offset st)" using off by (simp add: r_def unat_sub_if')
  have sr: "sint r = int (unat r)" "sint len = int (unat len)"
    using ur len small by (intro unat_lt_signed; simp)+
  show ?thesis
  proof (cases "unat len \<le> unat r")
    case True
    then have "len \<le>s r" "\<not> len <s 0" by (simp_all only: word_sle_eq word_sless_alt sr of_nat_le_iff sint_0)
    then have eq: "ring_copy E st orig len s = memcpy E (buf st + of_nat (unat (offset st))) orig (unat len) s"
      by (simp add: ring_copy_def Let_def z [symmetric] r_def [symmetric])
    have "\<exists>m. memcpy E (buf st + of_nat (unat (offset st))) orig (unat len) s = Some (Ok (), s\<lparr>ram := m\<rparr>) \<and>
      (\<forall>i < unat len. m (Hole fd (hole + of_nat (unat (offset st)) + of_nat i)) = ram s (Priv (orig + of_nat i))) \<and>
      (\<forall>c. (\<forall>i < unat len. c \<noteq> Hole fd (hole + of_nat (unat (offset st)) + of_nat i)) \<longrightarrow> m c = ram s c)"
    proof (rule memcpy_run [OF src])
      fix i
      assume "i < unat len"
      then show "vmap s (buf st + of_nat (unat (offset st)) + of_nat i) = Hole fd (hole + of_nat (unat (offset st)) + of_nat i)"
        using True ur ring [of "unat (offset st) + i"] by (simp add: algebra_simps)
    qed (use len small in auto)
    moreover have "ring_cell fd hole z (offset st) i = Hole fd (hole + of_nat (unat (offset st)) + of_nat i)"
      if "i < unat len" for i
      using that True ur by (simp add: ring_cell_def algebra_simps)
    ultimately show ?thesis unfolding eq by auto
  next
    case False
    define q where "q = unat len - unat r"
    have uq: "unat (len - r) = q" using False by (simp add: q_def unat_sub_if')
    have neg: "\<not> len \<le>s r" "\<not> r <s 0" using False
      by (simp_all only: word_sle_eq word_sless_alt sr of_nat_le_iff sint_0) simp_all
    obtain m1 where m1: "memcpy E (buf st + of_nat (unat (offset st))) orig (unat r) s = Some (Ok (), s\<lparr>ram := m1\<rparr>)"
      "\<forall>i < unat r. m1 (Hole fd (hole + of_nat (unat (offset st)) + of_nat i)) = ram s (Priv (orig + of_nat i))"
      "\<forall>c. (\<forall>i < unat r. c \<noteq> Hole fd (hole + of_nat (unat (offset st)) + of_nat i)) \<longrightarrow> m1 c = ram s c"
    proof -
      have "\<exists>m. memcpy E (buf st + of_nat (unat (offset st))) orig (unat r) s = Some (Ok (), s\<lparr>ram := m\<rparr>) \<and>
        (\<forall>i < unat r. m (Hole fd (hole + of_nat (unat (offset st)) + of_nat i)) = ram s (Priv (orig + of_nat i))) \<and>
        (\<forall>c. (\<forall>i < unat r. c \<noteq> Hole fd (hole + of_nat (unat (offset st)) + of_nat i)) \<longrightarrow> m c = ram s c)"
      proof (rule memcpy_run [OF src])
        fix i
        assume "i < unat r"
        then show "vmap s (buf st + of_nat (unat (offset st)) + of_nat i) = Hole fd (hole + of_nat (unat (offset st)) + of_nat i)"
          using ur ring [of "unat (offset st) + i"] by (simp add: algebra_simps)
      qed (use False ur small in auto)
      then show thesis using that by blast
    qed
    have q: "q \<le> unat (offset st)" "unat r + q = unat len" using False ur len off by (auto simp: q_def)
    obtain m2 where m2: "memcpy E (buf st) (orig + of_nat (unat r)) q (s\<lparr>ram := m1\<rparr>) = Some (Ok (), s\<lparr>ram := m2\<rparr>)"
      "\<forall>i < q. m2 (Hole fd (hole + of_nat i)) = ram s (Priv (orig + of_nat (unat r + i)))"
      "\<forall>c. (\<forall>i < q. c \<noteq> Hole fd (hole + of_nat i)) \<longrightarrow> m2 c = m1 c"
    proof -
      have "\<exists>m. memcpy E (buf st) (orig + of_nat (unat r)) q (s\<lparr>ram := m1\<rparr>) = Some (Ok (), (s\<lparr>ram := m1\<rparr>)\<lparr>ram := m\<rparr>) \<and>
        (\<forall>i < q. m (Hole fd (hole + of_nat i)) = ram (s\<lparr>ram := m1\<rparr>) (Priv (orig + of_nat (unat r + i)))) \<and>
        (\<forall>c. (\<forall>i < q. c \<noteq> Hole fd (hole + of_nat i)) \<longrightarrow> m c = ram (s\<lparr>ram := m1\<rparr>) c)"
        using src [of "unat r + i" for i] ring q off small
        by (intro memcpy_run) (simp_all add: algebra_simps)
      moreover have "m1 (Priv x) = ram s (Priv x)" for x using m1(3) by simp
      ultimately show thesis using that by auto
    qed
    have run: "ring_copy E st orig len s = Some (Ok (), s\<lparr>ram := m2\<rparr>)"
      using neg m1(1) m2(1) by (simp add: ring_copy_def Let_def z [symmetric] r_def [symmetric] uq)
    have far: "Hole fd (hole + of_nat (unat (offset st)) + of_nat i) \<noteq> Hole fd (hole + of_nat j)"
      if "i < unat r" "j < q" for i j
    proof
      assume "Hole fd (hole + of_nat (unat (offset st)) + of_nat i) = Hole fd (hole + of_nat j)"
      then have "(of_nat (unat (offset st) + i) :: u64) = of_nat j" by (simp add: add.assoc)
      moreover have "unat (offset st) + i < 2 ^ 64" "j < 2 ^ 64" using that ur q(1) off small by auto
      ultimately have "unat (offset st) + i = j" by (rule of_nat_inj64)
      with that q(1) show False by simp
    qed
    have cell1: "ring_cell fd hole z (offset st) k = Hole fd (hole + of_nat (unat (offset st)) + of_nat k)"
      if "k < unat r" for k using that ur by (simp add: ring_cell_def algebra_simps)
    have cell2: "ring_cell fd hole z (offset st) k = Hole fd (hole + of_nat (k - unat r))"
      if "unat r \<le> k" "k < unat len" for k
    proof -
      have "unat (offset st) + k = unat z + (k - unat r)" using that ur off by simp
      moreover have "k - unat r < unat z" using that q len off by auto
      ultimately show ?thesis by (simp add: ring_cell_def)
    qed
    have "m2 (ring_cell fd hole z (offset st) k) = ram s (Priv (orig + of_nat k))" if k: "k < unat len" for k
    proof (cases "k < unat r")
      case True
      then have "m2 (ring_cell fd hole z (offset st) k) = m1 (ring_cell fd hole z (offset st) k)"
        using m2(3) far cell1 by simp
      with True m1(2) cell1 show ?thesis by simp
    next
      case False
      obtain i where i: "k = unat r + i" using False by (metis linorder_not_less le_Suc_ex)
      with k q have "i < q" by simp
      moreover have "ring_cell fd hole z (offset st) k = Hole fd (hole + of_nat i)"
        using cell2 [of k] False k i by (metis add_diff_cancel_left' linorder_not_less)
      ultimately show ?thesis using m2(2) i by (simp only:)
    qed
    moreover have "m2 c = ram s c" if c: "\<forall>k < unat len. c \<noteq> ring_cell fd hole z (offset st) k" for c
    proof -
      have "c \<noteq> Hole fd (hole + of_nat i)" if "i < q" for i
        using c [rule_format, of "unat r + i"] cell2 [of "unat r + i"] that q by auto
      moreover have "c \<noteq> Hole fd (hole + of_nat (unat (offset st)) + of_nat i)" if "i < unat r" for i
        using c [rule_format, of i] cell1 [of i] that q by auto
      ultimately show ?thesis using m1(3) m2(3) by simp
    qed
    ultimately show ?thesis using run by blast
  qed
qed

lemma copy_no_wait:
  assumes "herd s fd = Some h" and "0 \<le> n" and "n < NAC_STREAM_MAX" and "\<not> free_space (stream h n) <s len"
  shows "iterate (copy_round E fd n len) () s = Some (Ok (), s)"
  using assms by (intro iterate_leave) (simp add: copy_round_def)

lemma is_tx_range: "is_tx_stream n \<longleftrightarrow> 8 \<le> n \<and> n \<le> 15"
  by (auto simp: is_tx_stream_def NUM_STREAM_def)

text \<open>
  C26. Copying \<open>len\<close> bytes (at most the ring's size, which is below 2 GB) from private memory
  into an attached transmit stream with at least that much free space returns \<open>len\<close>; byte
  \<open>k\<close> goes to the ring cell (offset + k) mod size for every \<open>k\<close> below \<open>len\<close>, around the end of
  the ring where need be, and no other byte of memory changes; the new offset is the sum
  modulo the size, the free space falls by \<open>len\<close>, and the limit pointer, the only register
  written, becomes the bus address of the new offset. (This is the path without a wait; a
  stream with less free space first polls the card.)
\<close>

theorem copy_bytes_ring:
  assumes "herd s fd = Some h" and "opened h" and "iom h \<noteq> 0" and "is_tx_stream n"
    and "st = stream h n" and "attached st" and "pbm st = PTo p" and "z = stream_size st"
    and off: "unat (offset st) < unat z" and len: "unat len \<le> unat z" and small: "unat z < 2 ^ 31"
    and space: "\<not> free_space st <s len" and "orig \<noteq> 0"
    and ring: "\<And>i. i < unat z \<Longrightarrow> vmap s (buf st + of_nat i) = Hole fd (hole + of_nat i)"
    and src: "\<And>i. i < unat len \<Longrightarrow> vmap s (orig + of_nat i) = Priv (orig + of_nat i)"
  shows "\<exists>t st'. nac_tx_stream_copy_bytes E fd n orig len s = Some (Ok len, t) \<and>
     herd t fd = Some (h\<lparr>stream := (stream h)(n := st')\<rparr>) \<and>
     uint (offset st') = (uint (offset st) + uint len) mod uint z \<and>
     free_space st' = free_space st - len \<and>
     reg_writes fd (trace t) = reg_writes fd (trace s) @ [(limit_ptr p, phyaddr st + offset st')] \<and>
     (\<forall>k < unat len. ram t (ring_cell fd hole z (offset st) k) = ram s (Priv (orig + of_nat k))) \<and>
     (\<forall>c. (\<forall>k < unat len. c \<noteq> ring_cell fd hole z (offset st) k) \<longrightarrow> ram t c = ram s c)"
proof -
  have n: "0 \<le> n" "n < NAC_STREAM_MAX" using assms(4) by (simp_all add: is_tx_range NAC_STREAM_MAX_def)
  define st1 where "st1 = st\<lparr>free_space := free_space st - len\<rparr>"
  define s1 where "s1 = s\<lparr>herd := (herd s)(fd \<mapsto> h\<lparr>stream := (stream h)(n := st1)\<rparr>)\<rparr>"
  have le: "\<not> z < len" using len by (simp add: word_less_nat_alt)
  obtain m where m: "ring_copy E st1 orig len s1 = Some (Ok (), s1\<lparr>ram := m\<rparr>)"
    "\<forall>k < unat len. m (ring_cell fd hole z (offset st) k) = ram s (Priv (orig + of_nat k))"
    "\<forall>c. (\<forall>k < unat len. c \<noteq> ring_cell fd hole z (offset st) k) \<longrightarrow> m c = ram s c"
    using ring_copy_run [of z st1 len s1 fd hole orig E] off len small ring src
    by (auto simp: st1_def s1_def assms(8))
  have nw: "iterate (copy_round E fd n len) () s = Some (Ok (), s)"
    using copy_no_wait [OF assms(1) n] space assms(5) by simp
  define off' where "off' = copy_advance z (offset st) len"
  define t where "t = s1\<lparr>ram := m, herd := (herd s)(fd \<mapsto> h\<lparr>stream := (stream h)(n :=
     st1\<lparr>offset := off', last_bus_bottom := phyaddr st + off'\<rparr>)\<rparr>),
     trace := trace s @ [RegWr fd (limit_ptr p) (phyaddr st + off')]\<rparr>"
  have gs: "get_stream fd n s = Some (Ok st, s)" using assms(1,5) n by simp
  have ps: "put_stream fd n (\<lambda>st. st\<lparr>free_space := free_space st - len\<rparr>) s = Some (Ok (), s1)"
    using assms(1,5) n by (simp add: s1_def st1_def)
  have h1: "herd s1 fd = Some (h\<lparr>stream := (stream h)(n := st1)\<rparr>)" by (simp add: s1_def)
  have gs1: "get_stream fd n s1 = Some (Ok st1, s1)" using h1 n by simp
  have st1: "stream_size st1 = z" "offset st1 = offset st" "phyaddr st1 = phyaddr st" "pbm st1 = PTo p"
    using assms(7,8) by (simp_all add: st1_def)
  have off'_eq: "copy_advance (stream_size st1) (offset st1) len = off'" by (simp add: st1 off'_def)
  let ?g = "\<lambda>st. st\<lparr>offset := off', last_bus_bottom := phyaddr st1 + off'\<rparr>"
  have ps2: "put_stream fd n ?g (s1\<lparr>ram := m\<rparr>) = Some (Ok (), s1\<lparr>ram := m,
     herd := (herd s)(fd \<mapsto> h\<lparr>stream := (stream h)(n := ?g st1)\<rparr>)\<rparr>)"
    using h1 n by (simp add: s1_def)
  have tail: "bnd (put_stream fd n ?g) (\<lambda>_. bnd (deref_pbm (pbm st1)) (\<lambda>p.
       bnd (reg_write fd (limit_ptr p) (phyaddr st1 + off')) (\<lambda>_. ret len))) (s1\<lparr>ram := m\<rparr>) = Some (Ok len, t)"
    by (subst bnd_Ok, rule ps2) (use assms(3) in \<open>simp add: st1 t_def; simp add: s1_def\<close>)
  have le': "\<not> stream_size st < len" using le assms(8) by simp
  have run: "nac_tx_stream_copy_bytes E fd n orig len s = Some (Ok len, t)"
    unfolding nac_tx_stream_copy_bytes_def
    apply (rule bnd_step, rule gs, rule bnd_step, rule get_sheep_run, rule assms(1))
    apply (simp only: assms(2,4,6,13) le' simp_thms if_False bnd_ret)
    apply (rule bnd_step, rule nw, rule bnd_step, rule ps, rule bnd_step, rule gs1, rule bnd_step, rule m(1))
    unfolding Let_def off'_eq by (rule tail)
  have u: "uint (offset st) < uint z" "uint len \<le> uint z" "uint z < 2 ^ 31"
    using off len small by (simp_all only: unat_lt_uint unat_le_uint unat_small_uint)
  have "uint off' = (uint (offset st) + uint len) mod uint z"
  proof -
    have e: "uint off' = int_copy_advance (uint z) (uint (offset st)) (uint len)"
      using advance_uint(1) [of "offset st" z len] u by (simp add: off'_def)
    then have "uint off' mod uint z = (uint (offset st) + uint len) mod uint z"
      using copy_counter.adv_mod [of "uint z" "uint (offset st)" "uint len"] u uint_ge_0 [of "offset st"] by simp
    moreover have "uint off' < uint z" using e u by (simp add: int_copy_advance_def split: if_splits)
    ultimately show ?thesis by simp
  qed
  with run m(2,3) show ?thesis
    by (intro exI [of _ t] exI [of _ "st1\<lparr>offset := off', last_bus_bottom := phyaddr st + off'\<rparr>"])
      (simp add: t_def s1_def st1_def)
qed

text \<open>Transmit stream 8 with a ring of 8 bytes in the card's hole, the offset 6 bytes into it.\<close>

definition tx_demo :: stream_t where
  "tx_demo = (demo_stream (tx_pbm 0))\<lparr>stream_size := 8, offset := 6, free_space := 8\<rparr>"

definition tx_mach :: mach where
  "tx_mach = (demo_with 8 tx_demo)\<lparr>vmap := (\<lambda>x. if x - 0x7f2000000000 < 8
     then Hole 3 (0x1000 + (x - 0x7f2000000000)) else Priv x)\<rparr>"

lemma tx_mach_simps:
  "herd tx_mach 3 = Some (demo_card\<lparr>stream := (stream demo_card)(8 := tx_demo)\<rparr>)" "trace tx_mach = []"
  "attached tx_demo" "pbm tx_demo = PTo (tx_pbm 0)" "stream_size tx_demo = 8" "offset tx_demo = 6"
  "free_space tx_demo = 8" "buf tx_demo = 0x7f2000000000" "phyaddr tx_demo = 0x20000000"
  by (simp_all add: tx_mach_def demo_with_simps tx_demo_def demo_stream_def)

lemma copy_bytes_ring_witness:
  "\<exists>t st'. nac_tx_stream_copy_bytes demo_env 3 8 0x5000 4 tx_mach = Some (Ok 4, t) \<and>
     reg_writes 3 (trace t) = [(limit_ptr (tx_pbm 0), 0x20000000 + st')] \<and> uint st' = 2"
proof -
  have ring: "vmap tx_mach (buf tx_demo + of_nat i) = Hole 3 (0x1000 + of_nat i)" if "i < unat (8 :: u32)" for i
  proof -
    have "i \<in> {0, 1, 2, 3, 4, 5, 6, 7}" using that by auto
    then show ?thesis by (auto simp: tx_mach_def tx_mach_simps)
  qed
  have src: "vmap tx_mach (0x5000 + of_nat i) = Priv (0x5000 + of_nat i)" if "i < unat (4 :: u32)" for i
  proof -
    have "i \<in> {0, 1, 2, 3}" using that by auto
    then show ?thesis by (auto simp: tx_mach_def)
  qed
  show ?thesis
    using copy_bytes_ring [where n = 8 and st = tx_demo and z = 8 and len = 4 and orig = "0x5000" and E = demo_env
        and hole = "0x1000", OF tx_mach_simps(1) _ _ _ _ tx_mach_simps(3,4) _ _ _ _ _ _ ring src]
    by (auto simp: tx_mach_simps demo_simps is_tx_range)
qed

section \<open>Waiting for space\<close>

lemma space_round_done:
  assumes "herd s fd = Some h" and "0 \<le> n" and "n < NAC_STREAM_MAX" and "\<not> free_space (stream h n) <s len + 2048"
  shows "space_round E fd n len u s = Some (Ok (Inr ()), s)"
  using assms by (simp add: space_round_def)

text \<open>The states of the wait: only the two remembered fields of the stream have changed.\<close>

definition waiting :: "int \<Rightarrow> sheep_t \<Rightarrow> int \<Rightarrow> stream_t \<Rightarrow> mach \<Rightarrow> i32 \<Rightarrow> u32 \<Rightarrow> mach \<Rightarrow> bool" where
  "waiting fd h n st s0 f tp t \<longleftrightarrow>
     herd t fd = Some (h\<lparr>stream := (stream h)(n := st\<lparr>last_bus_top := tp, free_space := f\<rparr>)\<rparr>) \<and>
     reg_writes fd (trace t) = reg_writes fd (trace s0) \<and> ram t = ram s0"

lemma space_round_again:
  assumes w: "waiting fd h n st s0 f tp t" and "iom h \<noteq> 0" and "0 \<le> n" and "n < NAC_STREAM_MAX"
    and "pbm st = PTo p" and "f <s len + 2048"
  shows "\<exists>t' hist. space_round E fd n len u t = Some (Ok (Inl ()), t') \<and> hist = trace t \<and>
     waiting fd h n st s0 (space_free (stream_size st) (dev E hist fd (record_ptr p)) (last_bus_bottom st))
       (dev E hist fd (record_ptr p)) t' \<and> length (trace t') = length (trace t) + 2"
  using assms by (auto simp: waiting_def space_round_def nanosleep_def)

lemma space_wait_hangs:
  assumes w: "waiting fd h n st s0 f tp s" and "iom h \<noteq> 0" and "0 \<le> n" and "n < NAC_STREAM_MAX"
    and "pbm st = PTo p" and "f <s len + 2048"
    and never: "\<And>hist. space_free (stream_size st) (dev E hist fd (record_ptr p)) (last_bus_bottom st) <s len + 2048"
  shows "iterate (space_round E fd n len) () s = None"
proof (rule iterate_hangs [where I = "\<lambda>_ u. \<exists>f tp. waiting fd h n st s0 f tp u \<and> f <s len + 2048"])
  show "\<exists>f tp. waiting fd h n st s0 f tp s \<and> f <s len + 2048" using w assms(6) by blast
next
  fix x and u :: mach
  assume "\<exists>f tp. waiting fd h n st s0 f tp u \<and> f <s len + 2048"
  then obtain f tp where "waiting fd h n st s0 f tp u" "f <s len + 2048" by blast
  from space_round_again [OF this(1) assms(2-5) this(2), of E x]
  show "\<exists>x' u'. space_round E fd n len x u = Some (Ok (Inl x'), u') \<and>
      (\<exists>f tp. waiting fd h n st s0 f tp u' \<and> f <s len + 2048)"
    using never by (auto simp: waiting_def)
qed

lemma space_wait_returns:
  assumes w: "waiting fd h n st s0 f tp s" and "iom h \<noteq> 0" and "0 \<le> n" and "n < NAC_STREAM_MAX"
    and "pbm st = PTo p"
    and enough: "\<And>hist. K \<le> length hist \<Longrightarrow>
      \<not> space_free (stream_size st) (dev E hist fd (record_ptr p)) (last_bus_bottom st) <s len + 2048"
  shows "\<exists>t. iterate (space_round E fd n len) () s = Some (Ok (), t)"
proof -
  have "\<exists>r t. iterate (space_round E fd n len) () s = Some (Ok r, t) \<and> True"
  proof (rule iterate_total [where I = "\<lambda>_ u. \<exists>f tp. waiting fd h n st s0 f tp u" and
        \<mu> = "\<lambda>_ u. case herd u fd of None \<Rightarrow> 0 | Some k \<Rightarrow>
          if free_space (stream k n) <s len + 2048 then Suc (K - length (trace u)) else 0"])
    show "\<exists>f tp. waiting fd h n st s0 f tp s" using w by blast
  next
    fix x and u :: mach
    assume "\<exists>f tp. waiting fd h n st s0 f tp u"
    then obtain f tp where u: "waiting fd h n st s0 f tp u" by blast
    let ?mu = "\<lambda>u. case herd u fd of None \<Rightarrow> 0 | Some k \<Rightarrow>
          if free_space (stream k n) <s len + 2048 then Suc (K - length (trace u)) else 0"
    show "(\<exists>x' s'. space_round E fd n len x u = Some (Ok (Inl x'), s') \<and> (\<exists>f tp. waiting fd h n st s0 f tp s') \<and>
        ?mu s' < ?mu u) \<or> (\<exists>r s'. space_round E fd n len x u = Some (Ok (Inr r), s') \<and> True)"
    proof (cases "f <s len + 2048")
      case True
      from space_round_again [OF u assms(2-5) True, of E x] obtain t' where t':
        "space_round E fd n len x u = Some (Ok (Inl ()), t')"
        "waiting fd h n st s0 (space_free (stream_size st) (dev E (trace u) fd (record_ptr p)) (last_bus_bottom st))
           (dev E (trace u) fd (record_ptr p)) t'" "length (trace t') = length (trace u) + 2" by blast
      have "?mu t' < ?mu u"
        using t'(2,3) u True enough [of "trace u"] by (cases "K \<le> length (trace u)") (auto simp: waiting_def)
      moreover have "\<exists>f tp. waiting fd h n st s0 f tp t'" using t'(2) by (auto simp: waiting_def)
      ultimately show ?thesis using t'(1) by blast
    next
      case False
      then show ?thesis using space_round_done [of u fd _ n len E x] u assms(3,4) by (auto simp: waiting_def)
    qed
  qed
  then show ?thesis by auto
qed

lemma space_wait_safe:
  assumes run: "iterate (space_round E fd n len) () s = Some (r, t)"
    and w: "waiting fd h n st s0 f tp s" and "iom h \<noteq> 0" and "0 \<le> n" and "n < NAC_STREAM_MAX" and "pbm st = PTo p"
  shows "r = Ok () \<and> (\<exists>f tp. waiting fd h n st s0 f tp t \<and> \<not> f <s len + 2048)"
proof -
  let ?I = "\<lambda>u. \<exists>f tp. waiting fd h n st s0 f tp u"
  have out: "(\<exists>t'. out = (Ok (Inl ()), t') \<and> ?I t') \<or> (out = (Ok (Inr ()), u) \<and> (\<exists>f tp. waiting fd h n st s0 f tp u \<and> \<not> f <s len + 2048))"
    if "?I u" "space_round E fd n len x u = Some out" for x u out
  proof -
    from that(1) obtain f tp where u: "waiting fd h n st s0 f tp u" by blast
    show ?thesis
    proof (cases "f <s len + 2048")
      case True
      from space_round_again [OF u assms(3-6) True, of E x] that(2) show ?thesis by auto
    next
      case False
      then have "space_round E fd n len x u = Some (Ok (Inr ()), u)"
        using space_round_done [of u fd _ n len E x] u assms(4,5) by (auto simp: waiting_def)
      then show ?thesis using that(2) u False by auto
    qed
  qed
  have "(\<lambda>(r, t). r = Ok () \<and> (\<exists>f tp. waiting fd h n st s0 f tp t \<and> \<not> f <s len + 2048)) (r, t)"
    by (rule iterate_invariant [where I = "\<lambda>_ u. ?I u", OF run]) (use w in blast, (drule (1) out, force)+)
  then show ?thesis by simp
qed

lemma sint_arith_small:
  "- (2 ^ 31) \<le> sint a - sint b \<Longrightarrow> sint a - sint b < 2 ^ 31 \<Longrightarrow> sint (a - b :: u32) = sint a - sint b"
  "- (2 ^ 31) \<le> sint a + sint b \<Longrightarrow> sint a + sint b < 2 ^ 31 \<Longrightarrow> sint (a + b :: u32) = sint a + sint b"
  by (simp_all add: sint_word_ariths signed_take_bit_int_eq_self)

text \<open>The register value \<open>v\<close> is a bus address of the stream's ring, its end included.\<close>

definition in_span :: "stream_t \<Rightarrow> u32 \<Rightarrow> bool" where
  "in_span st v \<longleftrightarrow> uint (v - phyaddr st) \<le> uint (stream_size st)"

lemma space_free_range:
  assumes "in_span st tp" and "in_span st b" and "uint (stream_size st) < 2 ^ 31"
  shows "0 \<le> sint (space_free (stream_size st) tp b) \<and> sint (space_free (stream_size st) tp b) \<le> uint (stream_size st)"
proof -
  let ?x = "tp - phyaddr st" and ?y = "b - phyaddr st" and ?z = "stream_size st"
  have u: "uint ?x \<le> uint ?z" "uint ?y \<le> uint ?z" using assms by (simp_all add: in_span_def)
  then have s: "sint ?x = uint ?x" "sint ?y = uint ?y" "sint ?z = uint ?z"
    using assms(3) by (simp_all only: sint_small)
  note nn = uint_ge_0 [of ?x] uint_ge_0 [of ?y] uint_ge_0 [of ?z]
  have "sint (tp - b) = sint (?x - ?y)" by simp
  then have d: "sint (tp - b) = uint ?x - uint ?y"
    using sint_arith_small(1) [of ?x ?y] u nn assms(3) unfolding s by linarith
  show ?thesis
  proof (cases "sint (tp - b) \<le> 0")
    case True
    have e: "sint (space_free ?z tp b) = sint (tp - b + ?z)"
      using True by (simp add: space_free_def Let_def word_sle_eq)
    have "sint (tp - b + ?z) = uint ?x - uint ?y + uint ?z"
      using sint_arith_small(2) [of "tp - b" ?z] True u nn assms(3) unfolding s d by linarith
    then show ?thesis using True u nn unfolding e d by linarith
  next
    case False
    then have e: "sint (space_free ?z tp b) = uint ?x - uint ?y"
      using d by (simp add: space_free_def Let_def word_sle_eq)
    show ?thesis using False u nn unfolding e d by linarith
  qed
qed

text \<open>
  C28. \<open>nac_tx_get_stream_space\<close> for \<open>len > 0\<close> bytes of an attached transmit stream, with the
  hardware pointers inside the ring: it returns if from some point on the card has freed
  \<open>len + 2048\<close> bytes. Whenever it returns, it returns the ring address of the write offset,
  which does not move, 2048 bytes or more stay in reserve after the \<open>len\<close> ones are taken off
  the free space, and no register and no memory was written. But if \<open>len + 2048\<close> exceeds the
  ring's size and the free space at hand, it never returns, whatever the card does.
\<close>

theorem get_space_waits:
  assumes "herd s fd = Some h" and "opened h" and "iom h \<noteq> 0" and "is_tx_stream n"
    and "st = stream h n" and "attached st" and "pbm st = PTo p" and "len \<noteq> 0"
    and z: "uint (stream_size st) < 2 ^ 31" and len: "uint len + 2048 < 2 ^ 31"
    and span: "\<And>hist. in_span st (dev E hist fd (record_ptr p))" "\<And>hist. in_span st (dev E hist fd (limit_ptr p))"
  shows "((\<exists>K. \<forall>hist. K \<le> length hist \<longrightarrow> sint (len + 2048) \<le> sint (space_free (stream_size st)
           (dev E hist fd (record_ptr p)) (dev E (trace s) fd (limit_ptr p)))) \<longrightarrow>
         (\<exists>a t. nac_tx_get_stream_space E fd n len s = Some (Ok a, t))) \<and>
     (uint (stream_size st) < uint len + 2048 \<and> sint (free_space st) < uint len + 2048 \<longrightarrow>
         nac_tx_get_stream_space E fd n len s = None) \<and>
     (\<forall>r t. nac_tx_get_stream_space E fd n len s = Some (r, t) \<longrightarrow>
         r = Ok (buf st + ucast (offset st)) \<and> ram t = ram s \<and> reg_writes fd (trace t) = reg_writes fd (trace s) \<and>
         (\<exists>st'. herd t fd = Some (h\<lparr>stream := (stream h)(n := st')\<rparr>) \<and> offset st' = offset st \<and>
            2048 \<le> sint (free_space st')))"
proof -
  have n: "0 \<le> n" "n < NAC_STREAM_MAX" using assms(4) by (simp_all add: is_tx_range NAC_STREAM_MAX_def)
  define b where "b = dev E (trace s) fd (limit_ptr p)"
  define st1 where "st1 = st\<lparr>last_bus_bottom := b\<rparr>"
  define s1 where "s1 = s\<lparr>trace := trace s @ [RegRd fd (limit_ptr p) b],
    herd := (herd s)(fd \<mapsto> h\<lparr>stream := (stream h)(n := st1)\<rparr>)\<rparr>"
  have st1: "stream_size st1 = stream_size st" "last_bus_bottom st1 = b" "pbm st1 = PTo p" "buf st1 = buf st"
    "offset st1 = offset st" "st1\<lparr>last_bus_top := last_bus_top st, free_space := free_space st\<rparr> = st1"
    using assms(7) by (simp_all add: st1_def)
  have w: "waiting fd h n st1 s (free_space st) (last_bus_top st) s1"
    by (simp only: waiting_def st1) (simp add: s1_def)
  have sl: "sint (len + 2048) = uint len + 2048"
    using sint_small [of "len + 2048"] uint_add_small [of len 2048] len by simp
  have run: "nac_tx_get_stream_space E fd n len s = bnd (iterate (space_round E fd n len) ()) (\<lambda>_.
      bnd (put_stream fd n (\<lambda>st. st\<lparr>free_space := free_space st - len\<rparr>)) (\<lambda>_.
      bnd (get_stream fd n) (\<lambda>st. ret (buf st + ucast (offset st))))) s1"
    using assms(1,2,3,4,6,7,8) n
    by (simp add: nac_tx_get_stream_space_def assms(5) [symmetric] s1_def st1_def b_def fun_upd_def)
  let ?it = "iterate (space_round E fd n len) () s1"
  have safe: "r = Ok () \<and> (\<exists>f tp. waiting fd h n st1 s f tp u \<and> \<not> f <s len + 2048)" if "?it = Some (r, u)" for r u
    using space_wait_safe [OF that w assms(3) n st1(3)] .
  have tail: "\<exists>t. nac_tx_get_stream_space E fd n len s = Some (Ok (buf st + ucast (offset st)), t) \<and>
      ram t = ram s \<and> reg_writes fd (trace t) = reg_writes fd (trace s) \<and>
      (\<exists>st'. herd t fd = Some (h\<lparr>stream := (stream h)(n := st')\<rparr>) \<and> offset st' = offset st \<and> 2048 \<le> sint (free_space st'))"
    if it: "?it = Some (Ok (), u)" for u
  proof -
    from safe [OF it] obtain f tp where u: "herd u fd = Some (h\<lparr>stream := (stream h)(n := st1\<lparr>last_bus_top := tp, free_space := f\<rparr>)\<rparr>)"
      "reg_writes fd (trace u) = reg_writes fd (trace s)" "ram u = ram s" and f: "\<not> f <s len + 2048"
      by (auto simp: waiting_def)
    have "uint len + 2048 \<le> sint f" using f by (simp add: word_sless_alt sl)
    moreover have "sint len = uint len" using len by (simp add: sint_small)
    moreover have "sint f < 2 ^ 31" using sint_lt [of f] by simp
    ultimately have "2048 \<le> sint (f - len)" using sint_arith_small(1) [of f len] uint_ge_0 [of len] by linarith
    with it u n show ?thesis
      by (simp add: run st1) (intro exI [of _ "st1\<lparr>last_bus_top := tp, free_space := f - len\<rparr>"], simp add: st1)
  qed
  show ?thesis
  proof (intro conjI impI allI)
    assume "\<exists>K. \<forall>hist. K \<le> length hist \<longrightarrow> sint (len + 2048) \<le> sint (space_free (stream_size st)
           (dev E hist fd (record_ptr p)) (dev E (trace s) fd (limit_ptr p)))"
    then obtain K where "\<And>hist. K \<le> length hist \<Longrightarrow>
        \<not> space_free (stream_size st1) (dev E hist fd (record_ptr p)) (last_bus_bottom st1) <s len + 2048"
      by (auto simp: st1 b_def word_sless_alt not_less)
    from space_wait_returns [OF w assms(3) n st1(3) this] tail
    show "\<exists>a t. nac_tx_get_stream_space E fd n len s = Some (Ok a, t)" by blast
  next
    assume a: "uint (stream_size st) < uint len + 2048 \<and> sint (free_space st) < uint len + 2048"
    have "space_free (stream_size st1) (dev E hist fd (record_ptr p)) (last_bus_bottom st1) <s len + 2048" for hist
      using space_free_range [OF span(1) span(2) z, of hist "trace s"] a by (simp add: st1 b_def word_sless_alt sl)
    then have "?it = None"
      using a by (intro space_wait_hangs [OF w assms(3) n st1(3)]) (simp_all add: word_sless_alt sl)
    then show "nac_tx_get_stream_space E fd n len s = None" by (simp add: run)
  next
    fix r t
    assume rt: "nac_tx_get_stream_space E fd n len s = Some (r, t)"
    then obtain r0 u where it: "?it = Some (r0, u)" by (cases ?it) (auto simp: run)
    with safe have "?it = Some (Ok (), u)" by blast
    from tail [OF this] rt show "r = Ok (buf st + ucast (offset st))" "ram t = ram s"
      "reg_writes fd (trace t) = reg_writes fd (trace s)" "\<exists>st'. herd t fd = Some (h\<lparr>stream := (stream h)(n := st')\<rparr>) \<and>
       offset st' = offset st \<and> 2048 \<le> sint (free_space st')" by auto
  qed
qed

text \<open>Here the card frees everything up to byte 4000 of a ring of 8192 bytes.\<close>

definition space_env :: env where
  "space_env = demo_env\<lparr>dev := (\<lambda>_ _ a. if a = record_ptr (tx_pbm 0) then 0x20001000 else 0x20000000)\<rparr>"

lemma get_space_waits_witness:
  "(\<exists>a t. nac_tx_get_stream_space space_env 3 8 64 (demo_with 8 (tx_demo\<lparr>stream_size := 8192, free_space := 0\<rparr>)) = Some (Ok a, t)) \<and>
   nac_tx_get_stream_space space_env 3 8 6145 (demo_with 8 (tx_demo\<lparr>stream_size := 8192, free_space := 0\<rparr>)) = None"
proof -
  let ?st = "tx_demo\<lparr>stream_size := 8192, free_space := 0\<rparr>"
  have span: "in_span ?st (dev space_env hist 3 (record_ptr (tx_pbm 0)))"
    "in_span ?st (dev space_env hist 3 (limit_ptr (tx_pbm 0)))" for hist
    by (simp_all add: in_span_def space_env_def tx_mach_simps)
  have nw: "limit_ptr (tx_pbm 0) \<noteq> record_ptr (tx_pbm 0)" by (simp add: tx_pbm_def stream_reg_def TX_LIMIT_PTR_LO_REG_def TX_RECORD_PTR_LO_REG_def)
  have at: "attached ?st" "pbm ?st = PTo (tx_pbm 0)" by (simp_all add: tx_mach_simps)
  note ex = get_space_waits [where n = 8 and st = ?st and E = space_env, OF demo_with_simps(1) _ _ _ _ at _ _ _ span]
  have "\<exists>a t. nac_tx_get_stream_space space_env 3 8 64 (demo_with 8 ?st) = Some (Ok a, t)"
    using ex [where len = 64] nw by (auto simp: demo_simps is_tx_range space_env_def space_free_def)
  moreover have "nac_tx_get_stream_space space_env 3 8 6145 (demo_with 8 ?st) = None"
    using ex [where len = 6145] by (auto simp: demo_simps is_tx_range)
  ultimately show ?thesis by blast
qed

section \<open>Committing\<close>

text \<open>One commit after the other, with the addresses they answer.\<close>

fun commit_all :: "int \<Rightarrow> int \<Rightarrow> u32 list \<Rightarrow> u64 list nac" where
  "commit_all nacfd n [] = ret []"
| "commit_all nacfd n (k # ks) = bnd (nac_tx_stream_commit_bytes nacfd n k) (\<lambda>a.
     bnd (commit_all nacfd n ks) (\<lambda>as. ret (a # as)))"

fun commit_offsets :: "u32 \<Rightarrow> u32 \<Rightarrow> u32 list \<Rightarrow> u32 list" where
  "commit_offsets z a [] = []"
| "commit_offsets z a (k # ks) = commit_advance z a k # commit_offsets z (commit_advance z a k) ks"

lemma commit_run:
  assumes "herd s fd = Some h" and "opened h" and "iom h \<noteq> 0" and "is_tx_stream n" and "st = stream h n"
    and "attached st" and "pbm st = PTo p" and "k \<le> stream_size st" and "o1 = commit_advance (stream_size st) (offset st) k"
  shows "nac_tx_stream_commit_bytes fd n k s = Some (Ok (buf st + ucast o1),
     s\<lparr>herd := (herd s)(fd \<mapsto> h\<lparr>stream := (stream h)(n := st\<lparr>offset := o1, last_bus_bottom := phyaddr st + o1\<rparr>)\<rparr>),
       trace := trace s @ [RegWr fd (limit_ptr p) (phyaddr st + o1)]\<rparr>)"
  using assms by (simp add: nac_tx_stream_commit_bytes_def is_tx_range NAC_STREAM_MAX_def Let_def leD)

lemma commit_all_run:
  assumes "herd s fd = Some h" and "opened h" and "iom h \<noteq> 0" and "is_tx_stream n" and "attached (stream h n)"
    and "pbm (stream h n) = PTo p" and "\<forall>k \<in> set ks. k \<le> stream_size (stream h n)"
    and "offs = commit_offsets (stream_size (stream h n)) (offset (stream h n)) ks"
  shows "\<exists>t st'. commit_all fd n ks s = Some (Ok (map (\<lambda>o1. buf (stream h n) + ucast o1) offs), t) \<and>
     herd t fd = Some (h\<lparr>stream := (stream h)(n := st')\<rparr>) \<and> offset st' = last (offset (stream h n) # offs) \<and>
     stream_size st' = stream_size (stream h n) \<and>
     reg_writes fd (trace t) = reg_writes fd (trace s) @ map (\<lambda>o1. (limit_ptr p, phyaddr (stream h n) + o1)) offs"
  using assms
proof (induction ks arbitrary: s h offs)
  case Nil
  then show ?case by (intro exI [of _ s] exI [of _ "stream h n"]) simp
next
  case (Cons k ks)
  let ?st = "stream h n"
  define o1 where "o1 = commit_advance (stream_size ?st) (offset ?st) k"
  define h1 where "h1 = h\<lparr>stream := (stream h)(n := ?st\<lparr>offset := o1, last_bus_bottom := phyaddr ?st + o1\<rparr>)\<rparr>"
  define s1 where "s1 = s\<lparr>herd := (herd s)(fd \<mapsto> h1), trace := trace s @ [RegWr fd (limit_ptr p) (phyaddr ?st + o1)]\<rparr>"
  have c: "nac_tx_stream_commit_bytes fd n k s = Some (Ok (buf ?st + ucast o1), s1)"
    using commit_run [OF Cons.prems(1-4) refl Cons.prems(5,6) _ o1_def] Cons.prems(7) by (simp add: s1_def h1_def)
  have h1: "herd s1 fd = Some h1" "opened h1" "iom h1 \<noteq> 0" "attached (stream h1 n)" "pbm (stream h1 n) = PTo p"
    "stream_size (stream h1 n) = stream_size ?st" "offset (stream h1 n) = o1" "buf (stream h1 n) = buf ?st"
    "phyaddr (stream h1 n) = phyaddr ?st" "reg_writes fd (trace s1) = reg_writes fd (trace s) @ [(limit_ptr p, phyaddr ?st + o1)]"
    using Cons.prems by (simp_all add: s1_def h1_def)
  have ks: "\<forall>k \<in> set ks. k \<le> stream_size (stream h1 n)" using Cons.prems(7) h1(6) by simp
  from Cons.IH [OF h1(1-3) Cons.prems(4) h1(4,5) ks refl] obtain t st' where t:
    "commit_all fd n ks s1 = Some (Ok (map (\<lambda>o1. buf ?st + ucast o1) (commit_offsets (stream_size ?st) o1 ks)), t)"
    "herd t fd = Some (h1\<lparr>stream := (stream h1)(n := st')\<rparr>)"
    "offset st' = last (o1 # commit_offsets (stream_size ?st) o1 ks)" "stream_size st' = stream_size ?st"
    "reg_writes fd (trace t) = reg_writes fd (trace s) @ (limit_ptr p, phyaddr ?st + o1) #
       map (\<lambda>o1. (limit_ptr p, phyaddr ?st + o1)) (commit_offsets (stream_size ?st) o1 ks)"
    unfolding h1(6-10) append_assoc append_Cons append_Nil by blast
  have "h1\<lparr>stream := (stream h1)(n := st')\<rparr> = h\<lparr>stream := (stream h)(n := st')\<rparr>" by (simp add: h1_def)
  with t c show ?case
    by (intro exI [of _ t] exI [of _ st']) (simp add: Cons.prems(8) o1_def [symmetric] fun_upd_def)
qed

lemma commit_offsets_nth:
  assumes "uint z < 2 ^ 31" and "uint a \<le> uint z" and "\<forall>k \<in> set ks. k \<le> z"
  shows "length (commit_offsets z a ks) = length ks \<and> (\<forall>i < length ks. uint (commit_offsets z a ks ! i) =
     foldl (int_commit_advance (uint z)) (uint a) (map uint (take (Suc i) ks)))"
  using assms(2,3)
proof (induction ks arbitrary: a)
  case (Cons k ks)
  have k: "uint k \<le> uint z" using Cons.prems by (simp add: word_le_def)
  have u: "uint (commit_advance z a k) = int_commit_advance (uint z) (uint a) (uint k)"
    using advance_uint(2) [OF Cons.prems(1) k assms(1)] .
  then have "uint (commit_advance z a k) \<le> uint z" using k Cons.prems(1) by (simp add: int_commit_advance_def)
  from Cons.IH [OF this] Cons.prems(2) have IH: "length (commit_offsets z (commit_advance z a k) ks) = length ks"
    "\<forall>i < length ks. uint (commit_offsets z (commit_advance z a k) ks ! i) =
       foldl (int_commit_advance (uint z)) (int_commit_advance (uint z) (uint a) (uint k)) (map uint (take (Suc i) ks))"
    by (simp_all add: u)
  then show ?case using u by (auto simp: less_Suc_eq_0_disj nth_Cons split: nat.split)
qed simp

text \<open>
  C27. Any sequence of commits on an attached transmit stream, each at most the ring's size
  (which is below 2 GB), succeeds. After the commit number \<open>i\<close> the write offset is the sum of the
  offset before and all commits so far, reduced to the range from 1 to the ring's size: unlike
  \<open>nac_tx_stream_copy_bytes\<close>, a commit that ends with the ring leaves the offset at its end, one
  beyond the last byte, and not at 0 (the comment \<open>Keep offset inside buffer boundaries\<close> stands
  over a test with \<open>>\<close>). The call returned the address at that offset, and the limit pointer, the
  only register any of them writes, was given its bus address.
\<close>

theorem commits_in_ring:
  assumes "herd s fd = Some h" and "opened h" and "iom h \<noteq> 0" and "is_tx_stream n" and "st = stream h n"
    and "attached st" and "pbm st = PTo p" and z: "z = stream_size st" "0 < uint z" "uint z < 2 ^ 31"
    and off: "uint (offset st) \<le> uint z" and ks: "\<forall>k \<in> set ks. k \<le> z"
  shows "\<exists>offs t st'. commit_all fd n ks s = Some (Ok (map (\<lambda>o1. buf st + ucast o1) offs), t) \<and>
     length offs = length ks \<and>
     (\<forall>i < length ks. uint (offs ! i) =
        commit_place (uint z) (uint (offset st) + sum_list (map uint (take (Suc i) ks)))) \<and>
     herd t fd = Some (h\<lparr>stream := (stream h)(n := st')\<rparr>) \<and> offset st' = last (offset st # offs) \<and>
     reg_writes fd (trace t) = reg_writes fd (trace s) @ map (\<lambda>o1. (limit_ptr p, phyaddr st + o1)) offs"
proof -
  define offs where "offs = commit_offsets z (offset st) ks"
  note nth = commit_offsets_nth [OF z(3) off ks, folded offs_def]
  have "uint (offs ! i) = commit_place (uint z) (uint (offset st) + sum_list (map uint (take (Suc i) ks)))"
    if "i < length ks" for i
  proof -
    have "\<forall>k \<in> set (map uint (take (Suc i) ks)). 0 \<le> k \<and> k \<le> uint z"
      using ks by (auto simp: word_le_def dest: in_set_takeD)
    from commit_places [OF z(2) uint_ge_0 this, of "offset st"] nth that
    show ?thesis by (simp add: commit_place_small off)
  qed
  moreover have "\<exists>t st'. commit_all fd n ks s = Some (Ok (map (\<lambda>o1. buf st + ucast o1) offs), t) \<and>
     herd t fd = Some (h\<lparr>stream := (stream h)(n := st')\<rparr>) \<and> offset st' = last (offset st # offs) \<and>
     stream_size st' = z \<and>
     reg_writes fd (trace t) = reg_writes fd (trace s) @ map (\<lambda>o1. (limit_ptr p, phyaddr st + o1)) offs"
    using commit_all_run [OF assms(1-4), of p ks offs] assms(5-7) ks z(1) by (simp add: offs_def)
  ultimately show ?thesis using nth by blast
qed

lemma commits_in_ring_witness:
  "\<exists>offs t. commit_all 3 8 [1, 1, 8] tx_mach = Some (Ok (map (\<lambda>o1 :: u32. 0x7f2000000000 + ucast o1) offs), t) \<and>
     length offs = 3 \<and> uint (offs ! 1) = 8 \<and> uint (offs ! 2) = 8"
proof -
  let ?ks = "[1, 1, 8 :: u32]"
  have "\<exists>(offs :: u32 list) t st'. commit_all 3 8 ?ks tx_mach = Some (Ok (map (\<lambda>o1 :: u32. buf tx_demo + ucast o1) offs), t) \<and>
     length offs = length ?ks \<and>
     (\<forall>i < length ?ks. uint (offs ! i) = commit_place (uint (8 :: u32))
        (uint (offset tx_demo) + sum_list (map uint (take (Suc i) ?ks)))) \<and>
     herd t 3 = Some (demo_card\<lparr>stream := (stream demo_card)(8 := tx_demo, 8 := st')\<rparr>) \<and>
     offset st' = last (offset tx_demo # offs) \<and>
     reg_writes 3 (trace t) = reg_writes 3 (trace tx_mach) @ map (\<lambda>o1. (limit_ptr (tx_pbm 0), phyaddr tx_demo + o1)) offs"
    using commits_in_ring [where n = 8 and z = 8 and st = tx_demo and ks = ?ks,
      OF tx_mach_simps(1) _ _ _ _ tx_mach_simps(3,4)]
    by (simp add: tx_mach_simps demo_simps is_tx_range del: commit_all.simps)
  then show ?thesis
  proof (elim exE conjE)
    fix offs :: "u32 list" and t st'
    assume c: "commit_all 3 8 ?ks tx_mach = Some (Ok (map (\<lambda>o1 :: u32. buf tx_demo + ucast o1) offs), t)" "length offs = length ?ks"
      and off: "\<forall>i < length ?ks. uint (offs ! i) = commit_place (uint (8 :: u32))
        (uint (offset tx_demo) + sum_list (map uint (take (Suc i) ?ks)))"
    have "length offs = 3 \<and> uint (offs ! 1) = 8 \<and> uint (offs ! 2) = 8"
      using off [rule_format, of 1] off [rule_format, of 2] c(2) by (simp add: tx_mach_simps commit_place_def)
    moreover have "commit_all 3 8 ?ks tx_mach = Some (Ok (map (\<lambda>o1 :: u32. 0x7f2000000000 + ucast o1) offs), t)"
      using c(1) by (simp only: tx_mach_simps)
    ultimately show ?thesis
      by - (rule exI [where x = offs], rule exI [where x = t], rule conjI)
  qed
qed

end
