(* ===== verification/Rft.thy ===== *)
theory Rft
  imports StreamTx
begin

text \<open>
  Refreshing the flow table in the card's QDR memory (end of lib/nac_stream.c): the stream
  number 16 is mapped onto the flow table's part of the memory hole (\<open>nac_rft_attach_stream\<close>,
  \<open>nac_rft_init\<close>), entries are written there (\<open>nac_write_flowtable\<close>), and the card is made to
  fetch them in two halves (\<open>nac_rft_start\<close>). Also the estimate of the processor's clock.
\<close>

section \<open>Definitions\<close>

definition STRATEGY_LIST_MAX :: u16 where
  "STRATEGY_LIST_MAX = 1024"

definition FLOWTABLE_MAX_NUM :: u32 where
  "FLOWTABLE_MAX_NUM = 4194304"

text \<open>\<open>rft_num = NUM_STREAM * 2\<close>, as an index and as a word.\<close>

definition rft_num :: int where
  "rft_num = NUM_STREAM * 2"

definition rft_share :: "nacinf_t \<Rightarrow> u32" where
  "rft_share info = (nacinf_t.buf_size info - RFT_SIZE) div word_of_int rft_num"

text \<open>The ticks per millisecond, from the two readings of the cycle counter 100 ms apart.\<close>

definition get_cpu_tick_one_ms :: "u32 \<Rightarrow> u32 \<Rightarrow> u32 nac" where
  "get_cpu_tick_one_ms tsc_before tsc_after =
     bnd (nanosleep (0, 20 * 1000000)) (\<lambda>_.
     bnd (nanosleep (0, 100 * 1000000)) (\<lambda>_.
     ret ((tsc_after - tsc_before) div 100)))"

definition nac_rft_init :: "int \<Rightarrow> u64 nac" where
  "nac_rft_init nacfd =
     bnd (get_stream nacfd rft_num) (\<lambda>st.
     bnd (get_sheep nacfd) (\<lambda>h.
     if \<not> opened h then fail_with EBADF 0
     else if \<not> attached st then fail_with EINVAL 0
     else ret (buf st)))"

text \<open>The two waits for the engine, each with the pair read before it.\<close>

definition rft_pointers :: "env \<Rightarrow> int \<Rightarrow> (u32 \<times> u32) nac" where
  "rft_pointers E nacfd =
     bnd (reg_read E nacfd RFT_RECORD_PTR_LO_REG) (\<lambda>record.
     bnd (reg_read E nacfd RFT_LIMIT_PTR_LO_REG) (\<lambda>limit. ret (record, limit)))"

definition rft_round :: "env \<Rightarrow> int \<Rightarrow> bool \<Rightarrow> u32 \<times> u32 \<Rightarrow> ((u32 \<times> u32) + unit) nac" where
  "rft_round E nacfd while_equal x = (case x of (record, limit) \<Rightarrow>
     if (limit = record) \<noteq> while_equal then ret (Inr ())
     else bnd (rft_pointers E nacfd) (\<lambda>y. bnd (usleep 500) (\<lambda>_. ret (Inl y))))"

definition nac_rft_start :: "env \<Rightarrow> int \<Rightarrow> int nac" where
  "nac_rft_start E nacfd =
     bnd (nac_info nacfd) (\<lambda>ip.
     bnd (get_stream nacfd rft_num) (\<lambda>st.
     bnd (deref_pbm (pbm st)) (\<lambda>p.
     bnd (follow ip) (\<lambda>info.
     let dma_start = phy_addr info + word_of_int rft_num * rft_share info;
         dma_mid = dma_start + RFT_SIZE div 2;
         dma_end = dma_start + RFT_SIZE in
     bnd (reg_write nacfd (limit_ptr p) dma_mid) (\<lambda>_.
     bnd (rft_pointers E nacfd) (\<lambda>x.
     bnd (iterate (rft_round E nacfd True) x) (\<lambda>_.
     bnd (reg_write nacfd (limit_ptr p) dma_end) (\<lambda>_.
     bnd (rft_pointers E nacfd) (\<lambda>y.
     bnd (iterate (rft_round E nacfd False) y) (\<lambda>_.
     bnd (usleep 10000) (\<lambda>_.
     bnd (put_stream nacfd rft_num (\<lambda>st. st\<lparr>started := True\<rparr>)) (\<lambda>_. ret 0))))))))))))"

text \<open>An entry is 16 bits, the hash above the policy, stored with its high byte first.\<close>

definition flow_entry :: "u16 \<Rightarrow> u16 \<Rightarrow> u16" where
  "flow_entry policy_id hash2 = push_bit 10 (hash2 AND 0x3F) OR policy_id"

definition nac_write_flowtable :: "u64 \<Rightarrow> u32 \<Rightarrow> u16 \<Rightarrow> u16 \<Rightarrow> int nac" where
  "nac_write_flowtable addr e policy_id hash2 =
     (if STRATEGY_LIST_MAX \<le> policy_id then ret (- 1)
      else if FLOWTABLE_MAX_NUM \<le> e then ret (- 1)
      else if 0x3F < hash2 then ret (- 1)
      else let tmp = flow_entry policy_id hash2 in
        bnd (write_byte (addr + ucast (e * 2)) (ucast (drop_bit 8 tmp))) (\<lambda>_.
        bnd (write_byte (addr + ucast (e * 2) + 1) (ucast tmp)) (\<lambda>_. ret 0)))"

text \<open>
  The flow table is mapped once: a reservation, then the hole over it. A failing \<open>mmap\<close>
  answers \<open>(int) MAP_FAILED\<close>, which is -1, and leaves the reservation mapped.
\<close>

definition nac_rft_attach_stream :: "env \<Rightarrow> int \<Rightarrow> int nac" where
  "nac_rft_attach_stream E nacfd =
     bnd (get_sheep nacfd) (\<lambda>h.
     if \<not> opened h then fail_with EBADF (- 1)
     else bnd (nac_info nacfd) (\<lambda>ip.
       bnd (follow ip) (\<lambda>info.
       let bufsize = rft_share info in
       bnd (put_stream nacfd rft_num (\<lambda>st. set_poll_defaults (st\<lparr>stream_size := RFT_SIZE\<rparr>))) (\<lambda>_.
       bnd (mmap E (- 1) 0 (ucast RFT_SIZE) 0) (\<lambda>m.
       case m of None \<Rightarrow> ret (- 1)
       | Some sp \<Rightarrow> bnd (mmap E nacfd sp (ucast RFT_SIZE) (ucast (bufsize * word_of_int rft_num))) (\<lambda>m2.
           case m2 of None \<Rightarrow> ret (- 1)
           | Some p \<Rightarrow> bnd (put_stream nacfd rft_num (\<lambda>st. st\<lparr>buf := p, extra_window_size := 0, offset := 0,
               phyaddr := phy_addr info + word_of_int rft_num * bufsize, attached := True, started := False\<rparr>)) (\<lambda>_.
               ret 0)))))))"

section \<open>Entries of the flow table\<close>

text \<open>The entry that a reader of the hole's bytes from \<open>d\<close> on finds: policy and hash.\<close>

definition entry_word :: "int \<Rightarrow> u64 \<Rightarrow> (cell \<Rightarrow> u8) \<Rightarrow> nat \<Rightarrow> u16" where
  "entry_word fd d m e = push_bit 8 (ucast (m (Hole fd (d + of_nat (2 * e))))) OR ucast (m (Hole fd (d + of_nat (2 * e + 1))))"

definition flow_lookup :: "int \<Rightarrow> u64 \<Rightarrow> (cell \<Rightarrow> u8) \<Rightarrow> nat \<Rightarrow> u16 \<times> u16" where
  "flow_lookup fd d m e = (entry_word fd d m e AND 0x3FF, drop_bit 10 (entry_word fd d m e))"

lemma bit_below:
  assumes "(a :: 'a :: len word) < 2 ^ k"
  shows "bit a n \<Longrightarrow> n < k"
proof -
  have "a AND mask k = a" using assms(1) by (simp add: less_mask_eq)
  then have "take_bit k a = a" by (simp add: take_bit_eq_mask)
  then show "bit a n \<Longrightarrow> n < k" by (metis bit_take_bit_iff)
qed

lemma flow_entry_fields:
  assumes "policy_id < STRATEGY_LIST_MAX" and "hash2 \<le> 0x3F"
  shows "flow_entry policy_id hash2 AND 0x3FF = policy_id" and "drop_bit 10 (flow_entry policy_id hash2) = hash2"
proof -
  have p: "bit policy_id n \<Longrightarrow> n < 10" for n
    using bit_below [of policy_id 10 n] assms(1) by (simp add: STRATEGY_LIST_MAX_def)
  have "hash2 < 0x40" using assms(2) by unat_arith
  then have h: "bit hash2 n \<Longrightarrow> n < 6" for n using bit_below [of hash2 6 n] by simp
  have m: "(0x3FF :: u16) = mask 10" "(0x3F :: u16) = mask 6" by (simp_all add: mask_eq_exp_minus_1)
  show "flow_entry policy_id hash2 AND 0x3FF = policy_id"
    unfolding flow_entry_def m by (rule bit_word_eqI) (auto simp: bit_simps dest: p)
  show "drop_bit 10 (flow_entry policy_id hash2) = hash2"
    unfolding flow_entry_def m by (rule bit_word_eqI) (auto simp: bit_simps dest: p h bit_imp_le_length)
qed

lemma bytes_of_u16: "push_bit 8 (ucast (ucast (drop_bit 8 (w :: u16)) :: u8)) OR ucast (ucast w :: u8) = w"
  by (rule bit_word_eqI) (auto simp: bit_simps)

lemma hole_offset_inj:
  "i < 2 ^ 64 \<Longrightarrow> j < 2 ^ 64 \<Longrightarrow> Hole fd (d + of_nat i) = Hole fd (d + of_nat j) \<longleftrightarrow> i = j"
  using of_nat_inj64 [of i j] by auto

text \<open>
  C30. Writing an entry into a mapped flow table: with the entry number below 2^22, the policy
  below 1024 and the hash at most 63 the call returns 0, a reader of the hole finds exactly
  this policy and this hash in the entry, every other entry and every byte outside the table
  is as before; with any of the three out of range it returns -1 and changes nothing.
\<close>

theorem flowtable_roundtrip:
  assumes map: "\<And>i. i < 2 ^ 23 \<Longrightarrow> vmap s (addr + of_nat i) = Hole fd (d + of_nat i)"
  shows "(unat e < 2 ^ 22 \<and> policy_id < 1024 \<and> hash2 \<le> 0x3F \<longrightarrow>
       (\<exists>t. nac_write_flowtable addr e policy_id hash2 s = Some (Ok 0, t) \<and>
          flow_lookup fd d (ram t) (unat e) = (policy_id, hash2) \<and>
          (\<forall>k < 2 ^ 22. k \<noteq> unat e \<longrightarrow> flow_lookup fd d (ram t) k = flow_lookup fd d (ram s) k) \<and>
          (\<forall>c. (\<forall>i < 2 ^ 23. c \<noteq> Hole fd (d + of_nat i)) \<longrightarrow> ram t c = ram s c))) \<and>
     (\<not> (unat e < 2 ^ 22 \<and> policy_id < 1024 \<and> hash2 \<le> 0x3F) \<longrightarrow>
       nac_write_flowtable addr e policy_id hash2 s = Some (Ok (- 1), s))"
proof (intro conjI impI)
  have lim: "FLOWTABLE_MAX_NUM \<le> e \<longleftrightarrow> \<not> unat e < 2 ^ 22"
    by (simp add: FLOWTABLE_MAX_NUM_def word_le_nat_alt not_less)
  show "nac_write_flowtable addr e policy_id hash2 s = Some (Ok (- 1), s)"
    if "\<not> (unat e < 2 ^ 22 \<and> policy_id < 1024 \<and> hash2 \<le> 0x3F)"
    using that by (auto simp: nac_write_flowtable_def STRATEGY_LIST_MAX_def lim not_le not_less)
  assume ok: "unat e < 2 ^ 22 \<and> policy_id < 1024 \<and> hash2 \<le> 0x3F"
  define w where "w = flow_entry policy_id hash2"
  define c0 c1 where "c0 = Hole fd (d + of_nat (2 * unat e))" and "c1 = Hole fd (d + of_nat (2 * unat e + 1))"
  have "unat (e * 2) = 2 * unat e"
    using ok by (subst unat_mult_lem [THEN iffD1]) simp_all
  then have ix: "(ucast (e * 2) :: u64) = of_nat (2 * unat e)" by (metis of_nat_unat)
  have b: "2 * unat e < 2 ^ 23" "2 * unat e + 1 < 2 ^ 23" using ok by simp_all
  have v: "vmap s (addr + ucast (e * 2)) = c0" "vmap s (addr + ucast (e * 2) + 1) = c1"
    using map [OF b(1)] map [OF b(2)]
    unfolding ix c0_def c1_def by (simp_all only: of_nat_add of_nat_1 add.assoc)
  define m where "m = (ram s)(c0 := ucast (drop_bit 8 w), c1 := ucast w)"
  have run: "nac_write_flowtable addr e policy_id hash2 s = Some (Ok 0, s\<lparr>ram := m\<rparr>)"
    using ok v by (simp add: nac_write_flowtable_def STRATEGY_LIST_MAX_def lim write_byte_def w_def m_def
        Let_def c0_def c1_def not_le not_less leD)
  have ne: "c0 \<noteq> c1" using hole_offset_inj [of "2 * unat e" "2 * unat e + 1" fd d] ok by (simp add: c0_def c1_def)
  have "entry_word fd d m (unat e) = w"
    using ne bytes_of_u16 [of w] unfolding entry_word_def c0_def [symmetric] c1_def [symmetric]
    by (simp add: m_def)
  then have hit: "flow_lookup fd d m (unat e) = (policy_id, hash2)"
    using flow_entry_fields [of policy_id hash2] ok by (simp add: flow_lookup_def w_def STRATEGY_LIST_MAX_def)
  have miss: "flow_lookup fd d m k = flow_lookup fd d (ram s) k" if "k < 2 ^ 22" "k \<noteq> unat e" for k
  proof -
    have ne: "2 * k \<noteq> 2 * unat e + 1" "2 * k + 1 \<noteq> 2 * unat e" by presburger+
    have small: "2 * k < 2 ^ 64" "2 * k + 1 < 2 ^ 64" "2 * unat e < 2 ^ 64" "2 * unat e + 1 < 2 ^ 64"
      using that ok by simp_all
    note inj = hole_offset_inj [OF small(1) small(3), of fd d] hole_offset_inj [OF small(1) small(4), of fd d]
      hole_offset_inj [OF small(2) small(3), of fd d] hole_offset_inj [OF small(2) small(4), of fd d]
    have "Hole fd (d + of_nat (2 * k)) \<notin> {c0, c1}" "Hole fd (d + of_nat (2 * k + 1)) \<notin> {c0, c1}"
      unfolding c0_def c1_def insert_iff empty_iff inj using that(2) ne by simp_all
    then show ?thesis by (simp add: flow_lookup_def entry_word_def m_def)
  qed
  have out: "m c = ram s c" if "\<forall>i < 2 ^ 23. c \<noteq> Hole fd (d + of_nat i)" for c
    using that [rule_format, of "2 * unat e"] that [rule_format, of "2 * unat e + 1"] ok
    by (simp add: m_def c0_def c1_def)
  show "\<exists>t. nac_write_flowtable addr e policy_id hash2 s = Some (Ok 0, t) \<and>
      flow_lookup fd d (ram t) (unat e) = (policy_id, hash2) \<and>
      (\<forall>k < 2 ^ 22. k \<noteq> unat e \<longrightarrow> flow_lookup fd d (ram t) k = flow_lookup fd d (ram s) k) \<and>
      (\<forall>c. (\<forall>i < 2 ^ 23. c \<noteq> Hole fd (d + of_nat i)) \<longrightarrow> ram t c = ram s c)"
    by (rule exI [of _ "s\<lparr>ram := m\<rparr>"]) (simp add: run hit miss out)
qed

text \<open>A process with the 8 MB of the flow table mapped from 0x7f4000000000 on.\<close>

definition rft_mach :: mach where
  "rft_mach = demo_mach\<lparr>vmap := (\<lambda>x. Hole 3 (0x1000 + (x - 0x7f4000000000)))\<rparr>"

lemma flowtable_roundtrip_witness:
  "\<exists>t. nac_write_flowtable 0x7f4000000000 5 1023 63 rft_mach = Some (Ok 0, t) \<and>
     flow_lookup 3 0x1000 (ram t) 5 = (1023, 63)"
proof -
  have "vmap rft_mach (0x7f4000000000 + of_nat i) = Hole 3 (0x1000 + of_nat i)" for i
    by (simp add: rft_mach_def)
  from flowtable_roundtrip [of rft_mach "0x7f4000000000" 3 "0x1000" 5 1023 63, OF this]
  show ?thesis by auto
qed

section \<open>The handshake\<close>

text \<open>The pair of pointers that a reading which starts after \<open>hist\<close> gets.\<close>

definition rft_pair :: "env \<Rightarrow> int \<Rightarrow> history \<Rightarrow> u32 \<times> u32" where
  "rft_pair E fd hist = (let r = dev E hist fd RFT_RECORD_PTR_LO_REG in
     (r, dev E (hist @ [RegRd fd RFT_RECORD_PTR_LO_REG r]) fd RFT_LIMIT_PTR_LO_REG))"

lemma rft_pointers_run:
  assumes "mapped fd s"
  shows "\<exists>t. rft_pointers E fd s = Some (Ok (rft_pair E fd (trace s)), t) \<and> quiet fd s t \<and>
     length (trace t) = length (trace s) + 2"
  using assms by (simp add: rft_pointers_def rft_pair_def reg_read_mapped quiet_def Let_def)

lemma rft_round_again:
  assumes "mapped fd s" and "(snd x = fst x) = w"
  shows "\<exists>t. rft_round E fd w x s = Some (Ok (Inl (rft_pair E fd (trace s))), t) \<and> quiet fd s t \<and>
     length (trace t) = length (trace s) + 3"
proof -
  obtain t where t: "rft_pointers E fd s = Some (Ok (rft_pair E fd (trace s)), t)" "quiet fd s t"
    "length (trace t) = length (trace s) + 2" using rft_pointers_run [OF assms(1)] by blast
  then show ?thesis using assms(2) by (auto simp: rft_round_def quiet_def split: prod.split)
qed

lemma rft_round_done:
  "(snd x = fst x) \<noteq> w \<Longrightarrow> rft_round E fd w x s = Some (Ok (Inr ()), s)"
  by (auto simp: rft_round_def split: prod.split)

lemma rft_wait_safe:
  assumes "iterate (rft_round E fd w) x s = Some (r, t)" and "mapped fd s"
  shows "r = Ok () \<and> quiet fd s t"
proof -
  have out: "(\<exists>y t. v = (Ok (Inl y), t) \<and> quiet fd s t) \<or> (v = (Ok (Inr ()), u))"
    if "quiet fd s u" "rft_round E fd w y u = Some v" for y u and v :: "((u32 \<times> u32) + unit) res \<times> mach"
  proof (cases "(snd y = fst y) = w")
    case True
    have "mapped fd u" using quiet_mapped [OF that(1)] assms(2) by simp
    from rft_round_again [OF this True, of E] that show ?thesis by (auto intro: quiet_trans)
  next
    case False
    then show ?thesis using rft_round_done [of y w E fd u] that by simp
  qed
  have "(\<lambda>(r, t). r = Ok () \<and> quiet fd s t) (r, t)"
    by (rule iterate_invariant [where I = "\<lambda>_ u. quiet fd s u", OF assms(1)]) (simp, (use out in fastforce)+)
  then show ?thesis by simp
qed

lemma rft_wait_returns:
  assumes "mapped fd s" and enough: "\<And>u. quiet fd s u \<Longrightarrow> K \<le> length (trace u) \<Longrightarrow>
      (snd (rft_pair E fd (trace u)) = fst (rft_pair E fd (trace u))) \<noteq> w"
  shows "\<exists>t. iterate (rft_round E fd w) x s = Some (Ok (), t)"
proof -
  let ?mu = "\<lambda>(x :: u32 \<times> u32) u. if (snd x = fst x) = w then Suc (K - length (trace u)) else 0"
  have "\<exists>r t. iterate (rft_round E fd w) x s = Some (Ok r, t) \<and> True"
  proof (rule iterate_total [where I = "\<lambda>_ u. quiet fd s u" and \<mu> = ?mu])
    fix x :: "u32 \<times> u32" and u
    assume q: "quiet fd s u"
    then have m: "mapped fd u" using quiet_mapped [OF q] assms(1) by simp
    show "(\<exists>x' s'. rft_round E fd w x u = Some (Ok (Inl x'), s') \<and> quiet fd s s' \<and> ?mu x' s' < ?mu x u) \<or>
        (\<exists>r s'. rft_round E fd w x u = Some (Ok (Inr r), s') \<and> True)"
    proof (cases "(snd x = fst x) = w")
      case True
      from rft_round_again [OF m True, of E] obtain t where t:
        "rft_round E fd w x u = Some (Ok (Inl (rft_pair E fd (trace u))), t)" "quiet fd u t"
        "length (trace t) = length (trace u) + 3" by blast
      have "?mu (rft_pair E fd (trace u)) t < ?mu x u"
        using t(3) True enough [OF q] by (cases "K \<le> length (trace u)") auto
      then show ?thesis using t(1) quiet_trans [OF q t(2)] by blast
    qed (auto simp: rft_round_done)
  qed simp
  then show ?thesis by auto
qed

lemma rft_wait_hangs:
  assumes "mapped fd s" and "(snd x = fst x) = w"
    and "\<And>hist. (snd (rft_pair E fd hist) = fst (rft_pair E fd hist)) = w"
  shows "iterate (rft_round E fd w) x s = None"
proof (rule iterate_hangs [where I = "\<lambda>x u. mapped fd u \<and> (snd x = fst x) = w"])
  fix x :: "u32 \<times> u32" and u
  assume u: "mapped fd u \<and> (snd x = fst x) = w"
  then obtain t where "rft_round E fd w x u = Some (Ok (Inl (rft_pair E fd (trace u))), t)" "quiet fd u t"
    using rft_round_again [of fd u x w E] by blast
  then show "\<exists>x' s'. rft_round E fd w x u = Some (Ok (Inl x'), s') \<and> mapped fd s' \<and> (snd x' = fst x') = w"
    using u assms(3) quiet_mapped by blast
qed (use assms in simp)

text \<open>
  \<open>nac_rft_start\<close> on an open card whose stream 16 has a block, with the flow table's window
  at 16 shares of the hole. It returns if the engine follows the limit: from some point on, the
  two pointers differ while the last limit written is the middle of the window, and agree while
  it is the end. Whenever it returns, it returns 0, has written the limit register exactly
  twice, with the middle and then the end, and nothing else, and has marked the stream as
  started. A card whose pointers always agree keeps it from ever returning.
\<close>

theorem rft_start_handshake:
  assumes "herd s fd = Some h" and "opened h" and "iom h \<noteq> 0" and "pbm (stream h 16) = PTo p"
    and start: "start = phy_addr (nacinf h) + 16 * rft_share (nacinf h)"
    and agree: "agree = (\<lambda>hist. fst (rft_pair E fd hist) = snd (rft_pair E fd hist))"
  shows "((\<exists>K. \<forall>hist. K \<le> length hist \<longrightarrow>
           (last_write (limit_ptr p) (reg_writes fd hist) = Some (start + 0x400000) \<longrightarrow> \<not> agree hist) \<and>
           (last_write (limit_ptr p) (reg_writes fd hist) = Some (start + 0x800000) \<longrightarrow> agree hist)) \<longrightarrow>
         (\<exists>t. nac_rft_start E fd s = Some (Ok 0, t))) \<and>
     ((\<forall>hist. agree hist) \<longrightarrow> nac_rft_start E fd s = None) \<and>
     (\<forall>r t. nac_rft_start E fd s = Some (r, t) \<longrightarrow> r = Ok 0 \<and>
        herd t fd = Some (h\<lparr>stream := (stream h)(16 := (stream h 16)\<lparr>started := True\<rparr>)\<rparr>) \<and>
        reg_writes fd (trace t) = reg_writes fd (trace s) @
          [(limit_ptr p, start + 0x400000), (limit_ptr p, start + 0x800000)])"
proof -
  have num: "rft_num = 16" by (simp add: rft_num_def NUM_STREAM_def)
  have rs: "RFT_SIZE div 2 = 0x400000" "RFT_SIZE = 0x800000" by (simp_all add: RFT_SIZE_def)
  define s1 where "s1 = s\<lparr>trace := trace s @ [RegWr fd (limit_ptr p) (start + 0x400000)]\<rparr>"
  have m: "mapped fd s" using assms(1,3) by auto
  then have m1: "mapped fd s1" by (simp add: s1_def)
  define x where "x = rft_pair E fd (trace s1)"
  obtain s2 where s2: "rft_pointers E fd s1 = Some (Ok x, s2)" "quiet fd s1 s2"
    using rft_pointers_run [OF m1] unfolding x_def by blast
  have m2: "mapped fd s2" using quiet_mapped [OF s2(2)] m1 by simp
  define second where "second = bnd (reg_write fd (limit_ptr p) (start + 0x800000)) (\<lambda>_.
      bnd (rft_pointers E fd) (\<lambda>y. bnd (iterate (rft_round E fd False) y) (\<lambda>_.
      bnd (usleep 10000) (\<lambda>_. bnd (put_stream fd rft_num (\<lambda>st. st\<lparr>started := True\<rparr>)) (\<lambda>_. ret (0 :: int))))))"
  have run: "nac_rft_start E fd s = bnd (iterate (rft_round E fd True) x) (\<lambda>_. second) s2"
    using assms(1,2,4) m s2(1)
    by (simp add: nac_rft_start_def num NAC_STREAM_MAX_def Let_def start [symmetric] rs reg_write_mapped
        s1_def [symmetric] second_def)
  have num16: "0 \<le> (16 :: int)" "16 < NAC_STREAM_MAX" by (simp_all add: NAC_STREAM_MAX_def)
  define s3 where "s3 u = u\<lparr>trace := trace u @ [RegWr fd (limit_ptr p) (start + 0x800000)]\<rparr>" for u :: mach
  have sec: "\<exists>y s4. rft_pointers E fd (s3 u) = Some (Ok y, s4) \<and> quiet fd (s3 u) s4 \<and> mapped fd s4 \<and>
      y = rft_pair E fd (trace (s3 u)) \<and>
      second u = bnd (iterate (rft_round E fd False) y) (\<lambda>_. bnd (usleep 10000) (\<lambda>_.
        bnd (put_stream fd 16 (\<lambda>st. st\<lparr>started := True\<rparr>)) (\<lambda>_. ret 0))) s4" if "quiet fd s2 u" for u
  proof -
    have "mapped fd (s3 u)" using quiet_mapped [OF that] m2 by (simp add: s3_def)
    then obtain s4 where s4: "rft_pointers E fd (s3 u) = Some (Ok (rft_pair E fd (trace (s3 u))), s4)" "quiet fd (s3 u) s4"
      using rft_pointers_run by blast
    have "mapped fd u" using quiet_mapped [OF that] m2 by simp
    then show ?thesis using s4 quiet_mapped [OF s4(2)] num
      by (simp add: second_def reg_write_mapped s3_def)
  qed
  have done': "\<exists>t. bnd (usleep 10000) (\<lambda>_. bnd (put_stream fd 16 (\<lambda>st. st\<lparr>started := True\<rparr>)) (\<lambda>_. ret 0)) v = Some (Ok (0 :: int), t) \<and>
      herd t fd = Some (h\<lparr>stream := (stream h)(16 := (stream h 16)\<lparr>started := True\<rparr>)\<rparr>) \<and>
      reg_writes fd (trace t) = reg_writes fd (trace s) @
        [(limit_ptr p, start + 0x400000), (limit_ptr p, start + 0x800000)]"
    if u: "quiet fd s2 u" and v: "quiet fd (s3 u) v" for u v
  proof -
    have "herd v fd = Some h" "reg_writes fd (trace v) = reg_writes fd (trace s) @
        [(limit_ptr p, start + 0x400000), (limit_ptr p, start + 0x800000)]"
      using u v s2(2) assms(1) by (simp_all add: quiet_def s3_def s1_def)
    then show ?thesis using num16 by simp
  qed
  show ?thesis
  proof (intro conjI impI allI)
    assume "\<exists>K. \<forall>hist. K \<le> length hist \<longrightarrow>
           (last_write (limit_ptr p) (reg_writes fd hist) = Some (start + 0x400000) \<longrightarrow> \<not> agree hist) \<and>
           (last_write (limit_ptr p) (reg_writes fd hist) = Some (start + 0x800000) \<longrightarrow> agree hist)"
    then obtain K where K: "\<And>hist. K \<le> length hist \<Longrightarrow>
           (last_write (limit_ptr p) (reg_writes fd hist) = Some (start + 0x400000) \<longrightarrow> \<not> agree hist) \<and>
           (last_write (limit_ptr p) (reg_writes fd hist) = Some (start + 0x800000) \<longrightarrow> agree hist)" by blast
    have "(snd (rft_pair E fd (trace u)) = fst (rft_pair E fd (trace u))) \<noteq> True"
      if "quiet fd s2 u" "K \<le> length (trace u)" for u
      using K [OF that(2)] that(1) s2(2) unfolding agree by (auto simp: quiet_def s1_def last_write_def)
    from rft_wait_returns [OF m2 this] obtain u where u: "iterate (rft_round E fd True) x s2 = Some (Ok (), u)" by blast
    then have q: "quiet fd s2 u" using rft_wait_safe [OF u m2] by simp
    from sec [OF q] obtain y s4 where s4: "quiet fd (s3 u) s4" "mapped fd s4"
      "second u = bnd (iterate (rft_round E fd False) y) (\<lambda>_. bnd (usleep 10000) (\<lambda>_.
        bnd (put_stream fd 16 (\<lambda>st. st\<lparr>started := True\<rparr>)) (\<lambda>_. ret 0))) s4" by blast
    have "(snd (rft_pair E fd (trace v)) = fst (rft_pair E fd (trace v))) \<noteq> False"
      if "quiet fd s4 v" "K \<le> length (trace v)" for v
      using K [OF that(2)] that(1) s4(1) unfolding agree by (auto simp: quiet_def s3_def last_write_def)
    from rft_wait_returns [OF s4(2) this] obtain v where v: "iterate (rft_round E fd False) y s4 = Some (Ok (), v)" by blast
    then have "quiet fd (s3 u) v" using rft_wait_safe [OF v s4(2)] quiet_trans [OF s4(1)] by simp
    from done' [OF q this] u v s4(3) show "\<exists>t. nac_rft_start E fd s = Some (Ok 0, t)"
      by (auto simp: run)
  next
    assume "\<forall>hist. agree hist"
    then have "iterate (rft_round E fd True) x s2 = None"
      by (intro rft_wait_hangs [OF m2]) (simp_all add: x_def agree)
    then show "nac_rft_start E fd s = None" by (simp add: run)
  next
    fix r t
    assume rt: "nac_rft_start E fd s = Some (r, t)"
    obtain r1 u where u: "iterate (rft_round E fd True) x s2 = Some (r1, u)"
      using rt by (cases "iterate (rft_round E fd True) x s2") (auto simp: run)
    from rft_wait_safe [OF u m2] have q: "r1 = Ok ()" "quiet fd s2 u" by auto
    from sec [OF q(2)] obtain y s4 where s4: "quiet fd (s3 u) s4" "mapped fd s4"
      "second u = bnd (iterate (rft_round E fd False) y) (\<lambda>_. bnd (usleep 10000) (\<lambda>_.
        bnd (put_stream fd 16 (\<lambda>st. st\<lparr>started := True\<rparr>)) (\<lambda>_. ret 0))) s4" by blast
    obtain r2 v where v: "iterate (rft_round E fd False) y s4 = Some (r2, v)"
      using rt u q(1) s4(3) by (cases "iterate (rft_round E fd False) y s4") (auto simp: run)
    from rft_wait_safe [OF v s4(2)] have q2: "r2 = Ok ()" "quiet fd s4 v" by auto
    from done' [OF q(2) quiet_trans [OF s4(1) q2(2)]] rt u v q(1) q2(1) s4(3)
    show "r = Ok 0" "herd t fd = Some (h\<lparr>stream := (stream h)(16 := (stream h 16)\<lparr>started := True\<rparr>)\<rparr>)"
      "reg_writes fd (trace t) = reg_writes fd (trace s) @
          [(limit_ptr p, start + 0x400000), (limit_ptr p, start + 0x800000)]"
      by (auto simp: run)
  qed
qed

text \<open>An engine that fetches the table only when its limit is the end of the window.\<close>

definition rft_env :: env where
  "rft_env = demo_env\<lparr>dev := (\<lambda>hist fd a.
     case last_write RFT_LIMIT_PTR_LO_REG (reg_writes fd hist) of
       None \<Rightarrow> 0
     | Some v \<Rightarrow> if a = RFT_LIMIT_PTR_LO_REG then v else if v = 0x28000000 then v else 0)\<rparr>"

lemma rft_start_handshake_witness:
  "\<exists>t. nac_rft_start rft_env 3 (demo_with 16 (demo_stream rft_pbm)) = Some (Ok 0, t)"
proof -
  have share: "(0x27800000 :: u32) = phy_addr (nacinf demo_card) + 16 * rft_share (nacinf demo_card)"
    by (simp add: rft_share_def demo_simps RFT_SIZE_def rft_num_def NUM_STREAM_def)
  have lim: "limit_ptr rft_pbm = RFT_LIMIT_PTR_LO_REG" by (simp add: rft_pbm_def)
  have ne: "RFT_RECORD_PTR_LO_REG \<noteq> RFT_LIMIT_PTR_LO_REG"
    by (simp add: RFT_RECORD_PTR_LO_REG_def RFT_LIMIT_PTR_LO_REG_def)
  have ok: "(last_write (limit_ptr rft_pbm) (reg_writes 3 hist) = Some (0x27800000 + 0x400000) \<longrightarrow>
        \<not> (\<lambda>hist. fst (rft_pair rft_env 3 hist) = snd (rft_pair rft_env 3 hist)) hist) \<and>
      (last_write (limit_ptr rft_pbm) (reg_writes 3 hist) = Some (0x27800000 + 0x800000) \<longrightarrow>
        (\<lambda>hist. fst (rft_pair rft_env 3 hist) = snd (rft_pair rft_env 3 hist)) hist)" for hist
    using ne by (auto simp: rft_env_def rft_pair_def lim Let_def)
  show ?thesis
    using rft_start_handshake [where p = rft_pbm and E = rft_env, OF demo_with_simps(1) _ _ _ _ refl, of 16 "demo_stream rft_pbm" "0x27800000"]
      share ok by (simp add: demo_simps demo_stream_def)
qed

end
