(* ===== verification/ParseName.thy ===== *)
theory ParseName
  imports Session
begin

text \<open>
  \<open>nac_parse_name\<close> of lib/nac_stream.c, which splits the name a user gives a stream
  (\<open>/dev/nac0:3\<close>, \<open>nac0:3\<close> or \<open>0:3\<close>) into the device file and the stream number, with the
  library functions it relies on: \<open>strncpy\<close>, \<open>strtok\<close>, \<open>strstr\<close>, \<open>atoi\<close> and \<open>snprintf\<close>.
\<close>

section \<open>Library functions\<close>

text \<open>The contents of an array of \<open>n\<close> bytes after \<open>strncpy(array, xs, n)\<close>.\<close>

definition NUL :: char where
  "NUL = CHR 0x00"

definition strncpy :: "nat \<Rightarrow> string \<Rightarrow> string" where
  "strncpy n xs = take n (xs @ replicate n NUL)"

text \<open>
  Scanning an array: \<open>None\<close> when the scan runs past its end. \<open>strtok\<close> answers the token, if
  there is one, and what is left of the array; a later call with a null pointer goes on there.
\<close>

fun skip_delims :: "string \<Rightarrow> string \<Rightarrow> string option" where
  "skip_delims ds [] = None"
| "skip_delims ds (c # cs) = (if c = NUL then Some (c # cs) else if c \<in> set ds then skip_delims ds cs
     else Some (c # cs))"

fun scan_token :: "string \<Rightarrow> string \<Rightarrow> (string \<times> string) option" where
  "scan_token ds [] = None"
| "scan_token ds (c # cs) = (if c = NUL then Some ([], c # cs) else if c \<in> set ds then Some ([], cs)
     else map_option (\<lambda>(tok, rest). (c # tok, rest)) (scan_token ds cs))"

definition strtok :: "string \<Rightarrow> string \<Rightarrow> (string option \<times> string) option" where
  "strtok ds arr = (case skip_delims ds arr of
       None \<Rightarrow> None
     | Some rest \<Rightarrow> if rest \<noteq> [] \<and> hd rest = NUL then Some (None, rest)
         else map_option (\<lambda>(tok, rest). (Some tok, rest)) (scan_token ds rest))"

fun strstr :: "string \<Rightarrow> string \<Rightarrow> bool" where
  "strstr [] p = (p = [])"
| "strstr (c # cs) p = (take (length p) (c # cs) = p \<or> strstr cs p)"

definition digit_val :: "char \<Rightarrow> nat" where
  "digit_val c = of_char c - 48"

text \<open>\<open>atoi\<close> of a string that begins with a digit; a value that is no \<open>int\<close> is undefined.\<close>

definition atoi :: "string \<Rightarrow> int option" where
  "atoi cs = (let v = foldl (\<lambda>v c. 10 * v + int (digit_val c)) 0 (takeWhile is_digit cs) in
     if v < 2 ^ 31 then Some v else None)"

text \<open>\<open>%u\<close>, and \<open>snprintf\<close> into \<open>n\<close> bytes.\<close>

definition digit_char :: "nat \<Rightarrow> char" where
  "digit_char d = ''0123456789'' ! d"

fun decimal :: "nat \<Rightarrow> string" where
  "decimal n = (if n < 10 then [digit_char n] else decimal (n div 10) @ [digit_char (n mod 10)])"

declare decimal.simps [simp del]

definition snprintf :: "int \<Rightarrow> string \<Rightarrow> string" where
  "snprintf n xs = take (nat (n - 1)) xs"

section \<open>nac_parse_name\<close>

text \<open>A failing \<open>assert\<close> aborts the process.\<close>

definition assert_that :: "bool \<Rightarrow> unit nac" where
  "assert_that b = (if b then ret () else exit_with 134)"

text \<open>What a scan past the end of the array is.\<close>

definition in_array :: "'a option \<Rightarrow> 'a nac" where
  "in_array x = (case x of None \<Rightarrow> fault | Some v \<Rightarrow> ret v)"

text \<open>The form of the device's name: \<open>False\<close> is \<open>result == -1\<close>.\<close>

definition device_form :: "string \<Rightarrow> bool" where
  "device_form device =
     (if hd device = CHR ''/'' then strstr device ''/dev/nac''
      else if hd device = CHR ''d'' then strstr device ''nac''
      else True)"

text \<open>The number of the device: its last digit, with the one before it as the tens.\<close>

definition device_num :: "string \<Rightarrow> nat option" where
  "device_num device =
     (let c = last device in
      if is_digit c then
        (if 2 \<le> length device \<and> is_digit (device ! (length device - 2))
         then Some (digit_val c + 10 * digit_val (device ! (length device - 2)))
         else Some (digit_val c))
      else None)"

text \<open>
  The answer is the return value with the string in \<open>buffer\<close> and the number in
  \<open>*stream_number\<close>, or with \<open>None\<close> when neither was written. The three pointers are null or not; the name is \<open>None\<close> when null.
\<close>

definition nac_parse_name :: "string option \<Rightarrow> bool \<Rightarrow> int \<Rightarrow> bool \<Rightarrow> (int \<times> (string \<times> int) option) nac" where
  "nac_parse_name name buffer buflen stream_number =
     bnd (assert_that buffer) (\<lambda>_.
     bnd (assert_that (name \<noteq> None)) (\<lambda>_.
     bnd (assert_that stream_number) (\<lambda>_.
     bnd (assert_that (buflen \<noteq> 0)) (\<lambda>_.
     if buflen < 16 then fail_with EINVAL (- 1, None)
     else let nm = the name in
       bnd (if nm \<noteq> [] then in_array (strtok [CHR '':'', CHR 0x0A] (strncpy 16 nm)) else ret (None, [])) (\<lambda>(dev_tok, rest).
       case dev_tok of
         None \<Rightarrow> ret (0, Some (''/dev/nac0'', 0))
       | Some device \<Rightarrow>
         if \<not> device_form device then fail_with EINVAL (- 1, Some ([], 0))
         else (case device_num device of
             None \<Rightarrow> fail_with EINVAL (- 1, Some ([], 0))
           | Some device_number \<Rightarrow>
               let buf = snprintf buflen (''/dev/nac'' @ decimal device_number) in
               bnd (in_array (strtok [CHR '' '', CHR 0x09, CHR '':'', CHR 0x0A] rest)) (\<lambda>(stream_tok, _).
               case stream_tok of
                 None \<Rightarrow> ret (0, Some (buf, 0))
               | Some spec \<Rightarrow>
                   if is_digit (hd spec) then bnd (in_array (atoi spec)) (\<lambda>k. ret (0, Some (buf, k)))
                   else ret (0, Some (buf, 0)))))))))"

section \<open>Scanning\<close>

lemma scan_token_run:
  "\<forall>x \<in> set tok. x \<noteq> NUL \<and> x \<notin> set ds \<Longrightarrow> c = NUL \<or> c \<in> set ds \<Longrightarrow>
   scan_token ds (tok @ c # rest) = Some (tok, if c = NUL then c # rest else rest)"
  by (induction tok) auto

lemma scan_token_overruns: "\<forall>x \<in> set tok. x \<noteq> NUL \<and> x \<notin> set ds \<Longrightarrow> scan_token ds tok = None"
  by (induction tok) auto

lemma strtok_run:
  assumes "tok \<noteq> []" and "\<forall>x \<in> set tok. x \<noteq> NUL \<and> x \<notin> set ds" and "c = NUL \<or> c \<in> set ds"
  shows "strtok ds (tok @ c # rest) = Some (Some tok, if c = NUL then c # rest else rest)"
  using assms scan_token_run [OF assms(2,3), of rest] by (cases tok) (auto simp: strtok_def)

lemma strtok_overruns:
  assumes "tok \<noteq> []" and "\<forall>x \<in> set tok. x \<noteq> NUL \<and> x \<notin> set ds"
  shows "strtok ds tok = None"
  using assms scan_token_overruns [OF assms(2)] by (cases tok) (auto simp: strtok_def)

lemma strncpy_short: "length xs < n \<Longrightarrow> strncpy n xs = xs @ NUL # replicate (n - length xs - 1) NUL"
  by (simp add: strncpy_def take_Cons' flip: replicate_Suc)

section \<open>Decimal numbers\<close>

lemma digit_char:
  assumes "d < 10" shows "is_digit (digit_char d)" and "digit_val (digit_char d) = d"
proof -
  have "digit_char d \<in> set ''0123456789''" unfolding digit_char_def using assms by (intro nth_mem) simp
  then show "is_digit (digit_char d)" by (simp only: is_digit_def)
  have "d \<in> {0, 1, 2, 3, 4, 5, 6, 7, 8, 9}" using assms by auto
  then show "digit_val (digit_char d) = d"
    by (elim insertE emptyE) (simp_all add: digit_val_def digit_char_def)
qed

lemma decimal_digits: "decimal n \<noteq> [] \<and> (\<forall>c \<in> set (decimal n). is_digit c)"
proof (induction n rule: decimal.induct)
  case (1 n)
  then show ?case by (subst (1 2) decimal.simps) (auto intro: digit_char(1))
qed

lemma decimal_value: "foldl (\<lambda>v c. 10 * v + int (digit_val c)) 0 (decimal n) = int n"
proof (induction n rule: decimal.induct)
  case (1 n)
  then show ?case
  proof (cases "n < 10")
    case False
    have "int n = 10 * int (n div 10) + int (n mod 10)" by presburger
    with 1 False digit_char(2) [of "n mod 10"] show ?thesis by (subst decimal.simps) simp
  qed (subst decimal.simps, simp add: digit_char)
qed

lemma atoi_decimal: "int n < 2 ^ 31 \<Longrightarrow> atoi (decimal n) = Some (int n)"
  using decimal_digits [of n] decimal_value [of n] by (simp add: atoi_def takeWhile_eq_all_conv [THEN iffD2] Let_def)

lemma decimal_two: "n < 100 \<Longrightarrow> decimal n = (if n < 10 then [digit_char n]
    else [digit_char (n div 10), digit_char (n mod 10)])"
  by (subst decimal.simps) (simp add: decimal.simps [of "n div 10"] div_less_iff_less_mult)

lemma digit_not_special:
  "is_digit c \<Longrightarrow> c \<noteq> NUL \<and> c \<noteq> CHR '':'' \<and> c \<noteq> CHR 0x0A \<and> c \<noteq> CHR 0x09 \<and> c \<noteq> CHR '' '' \<and>
     c \<noteq> CHR ''/'' \<and> c \<noteq> CHR ''d''"
  by (auto simp: is_digit_def NUL_def)

section \<open>The documented forms\<close>

lemma device_parts:
  assumes "pre \<in> {''/dev/nac'', ''nac'', []}" and "u < 100"
  shows "device_form (pre @ decimal u)" and "device_num (pre @ decimal u) = Some u"
proof -
  have dm: "is_digit (digit_char (u mod 10))" "digit_val (digit_char (u mod 10)) = u mod 10"
    and dd: "is_digit (digit_char (u div 10))" "digit_val (digit_char (u div 10)) = u div 10"
    using assms(2) digit_char [of "u mod 10"] digit_char [of "u div 10"] by simp_all
  have hd: "is_digit (hd (decimal u))" using decimal_digits [of u] by simp
  have nc: "\<not> is_digit (CHR ''c'')" by (simp add: is_digit_def)
  show "device_form (pre @ decimal u)"
    using assms(1) digit_not_special [OF hd] decimal_digits [of u] by (auto simp: device_form_def)
  show "device_num (pre @ decimal u) = Some u"
  proof (cases "u < 10")
    case True
    then show ?thesis
      using assms(1) nc digit_char [OF True] by (auto simp: device_num_def decimal_two Let_def)
  next
    case False
    have "digit_val (digit_char (u mod 10)) + 10 * digit_val (digit_char (u div 10)) = u" using dm dd by simp
    then show ?thesis
      using assms(2) False dm(1) dd(1) by (auto simp: device_num_def decimal_two Let_def nth_append)
  qed
qed

text \<open>
  \<open>nac_parse_name\<close> understands the documented forms: a unit below 100 after \<open>/dev/nac\<close>,
  \<open>nac\<close> or nothing, with or without a stream number after a colon, at most 15 characters in
  all, gives the device file of that unit and that stream number (0 without one). But a name
  of 16 or more characters without a delimiter among the first 16 sends \<open>strtok\<close> past the end
  of the 16 bytes the name was copied to.
\<close>

theorem parse_name_forms:
  assumes "16 \<le> buflen" and "pre \<in> {''/dev/nac'', ''nac'', []}" and "u < 100" and "int k < 2 ^ 31"
  shows "(length (pre @ decimal u @ '':'' @ decimal k) < 16 \<longrightarrow>
       nac_parse_name (Some (pre @ decimal u @ '':'' @ decimal k)) True buflen True s =
         Some (Ok (0, Some (''/dev/nac'' @ decimal u, int k)), s)) \<and>
     nac_parse_name (Some (pre @ decimal u)) True buflen True s =
         Some (Ok (0, Some (''/dev/nac'' @ decimal u, 0)), s) \<and>
     (\<forall>nm. 16 \<le> length nm \<and> set (take 16 nm) \<inter> {NUL, CHR '':'', CHR 0x0A} = {} \<longrightarrow>
         nac_parse_name (Some nm) True buflen True s = Some (Fault, s))"
proof -
  let ?dev = "pre @ decimal u"
  have ch: "c \<noteq> NUL \<and> c \<noteq> CHR '':'' \<and> c \<noteq> CHR 0x0A" if "c \<in> set ?dev" for c
    using that assms(2) decimal_digits [of u] digit_not_special [of c] by (auto simp: NUL_def)
  then have chd: "\<forall>c \<in> set ?dev. c \<noteq> NUL \<and> c \<notin> set [CHR '':'', CHR 0x0A]" by simp
  have ne: "?dev \<noteq> []" using decimal_digits [of u] by simp
  have lu: "length (decimal u) \<le> 2" using assms(3) by (simp add: decimal_two)
  have sn: "snprintf buflen (''/dev/nac'' @ decimal u) = ''/dev/nac'' @ decimal u"
    using lu assms(1) by (simp add: snprintf_def)
  have lp: "length pre \<le> 8" using assms(2) by auto
  note dev = device_parts [OF assms(2,3)]
  have stream: "\<forall>c \<in> set (decimal k). c \<noteq> NUL \<and> c \<notin> set [CHR '' '', CHR 0x09, CHR '':'', CHR 0x0A]"
    using decimal_digits [of k] digit_not_special by auto
  have "nac_parse_name (Some (?dev @ '':'' @ decimal k)) True buflen True s =
      Some (Ok (0, Some (''/dev/nac'' @ decimal u, int k)), s)" if len: "length (?dev @ '':'' @ decimal k) < 16"
  proof -
    obtain pad where pad: "strncpy 16 (?dev @ '':'' @ decimal k) = ?dev @ CHR '':'' # decimal k @ NUL # pad"
      using strncpy_short [OF len] by auto
    have t1: "strtok [CHR '':'', CHR 0x0A] (strncpy 16 (?dev @ '':'' @ decimal k)) = Some (Some ?dev, decimal k @ NUL # pad)"
      unfolding pad using strtok_run [OF ne chd, of "CHR '':''" "decimal k @ NUL # pad"] by (simp add: NUL_def)
    have t2: "strtok [CHR '' '', CHR 0x09, CHR '':'', CHR 0x0A] (decimal k @ NUL # pad) = Some (Some (decimal k), NUL # pad)"
      using strtok_run [OF _ stream, of NUL pad] decimal_digits [of k] by simp
    have "is_digit (hd (decimal k))" using decimal_digits [of k] by simp
    then show ?thesis
      using assms(1) ne dev sn atoi_decimal [OF assms(4)] t1 t2
      by (simp add: nac_parse_name_def assert_that_def in_array_def Let_def)
  qed
  moreover have "nac_parse_name (Some ?dev) True buflen True s = Some (Ok (0, Some (''/dev/nac'' @ decimal u, 0)), s)"
  proof -
    have "length ?dev < 16" using lu lp by simp
    then obtain pad where pad: "strncpy 16 ?dev = ?dev @ NUL # pad" using strncpy_short [of ?dev 16] by auto
    have t1: "strtok [CHR '':'', CHR 0x0A] (strncpy 16 ?dev) = Some (Some ?dev, NUL # pad)"
      unfolding pad using strtok_run [OF ne chd, of NUL pad] by simp
    have t2: "strtok [CHR '' '', CHR 0x09, CHR '':'', CHR 0x0A] (NUL # pad) = Some (None, NUL # pad)"
      by (simp add: strtok_def)
    show ?thesis
      using assms(1) ne dev sn t1 t2 by (simp add: nac_parse_name_def assert_that_def in_array_def Let_def)
  qed
  moreover have "nac_parse_name (Some nm) True buflen True s = Some (Fault, s)"
    if nm: "16 \<le> length nm" "set (take 16 nm) \<inter> {NUL, CHR '':'', CHR 0x0A} = {}" for nm
  proof -
    have "strncpy 16 nm = take 16 nm" using nm(1) by (simp add: strncpy_def)
    moreover have "take 16 nm \<noteq> []" using nm(1) by auto
    ultimately have "strtok [CHR '':'', CHR 0x0A] (strncpy 16 nm) = None"
      using nm(2) strtok_overruns [of "take 16 nm" "[CHR '':'', CHR 0x0A]"] by auto
    moreover have "nm \<noteq> []" using nm(1) by auto
    ultimately show ?thesis using assms(1) by (simp add: nac_parse_name_def assert_that_def in_array_def)
  qed
  ultimately show ?thesis by simp
qed

lemma parse_name_forms_witness:
  "nac_parse_name (Some (''nac'' @ decimal 12 @ '':'' @ decimal 3)) True 16 True demo_mach =
     Some (Ok (0, Some (''/dev/nac'' @ decimal 12, 3)), demo_mach)"
  using parse_name_forms [of 16 "''nac''" 12 3 demo_mach] by (simp add: decimal_two)

end
