(* ===== verification/I2cBus.thy ===== *)
theory I2cBus
  imports Buses
begin

text \<open>
  What the I2C operations of lib/nacapi.c do on the bus. The registers the library writes drive
  an I2C master; a small interpreter of the history of one port's register recovers the
  commands the master got and the bytes it delivered, and rejects a history in which a byte or
  a command is written while a transfer is in progress.
\<close>

section \<open>The master, as its register window shows it\<close>

text \<open>A command with the byte in the transmit register, or a received byte.\<close>

datatype i2c_act = Cmd u8 u8 | Got u8

text \<open>
  \<open>busy\<close>: a transfer was started and no status has shown it finished; \<open>txr\<close>: the transmit
  register; \<open>sel\<close>: the register the next read of the window shows.
\<close>

record i2c_master =
  busy :: bool
  txr :: u8
  sel :: u8

definition wb_store :: "u8 \<Rightarrow> u8 \<Rightarrow> i2c_master \<Rightarrow> (i2c_master \<times> i2c_act list) option" where
  "wb_store a d m =
     (if busy m then None
      else if a = TXR then Some (m\<lparr>txr := d\<rparr>, [])
      else if a = CR then Some (m\<lparr>busy := d AND 0x30 \<noteq> 0\<rparr>, [Cmd d (txr m)])
      else Some (m, []))"

definition wb_show :: "u8 \<Rightarrow> i2c_master \<Rightarrow> i2c_master \<times> i2c_act list" where
  "wb_show v m =
     (if sel m = SR then (m\<lparr>busy := busy m \<and> v AND 0x2 \<noteq> 0\<rparr>, [])
      else if sel m = RXR then (m, [Got v]) else (m, []))"

fun wb_event :: "int \<Rightarrow> u32 \<Rightarrow> event \<Rightarrow> i2c_master \<Rightarrow> (i2c_master \<times> i2c_act list) option" where
  "wb_event fd r (RegWr f a v) m =
     (if f = fd \<and> a = r then
        (if bit v 31 then wb_store (ucast (drop_bit 8 v)) (ucast v) m
         else Some (m\<lparr>sel := ucast (drop_bit 8 v)\<rparr>, []))
      else Some (m, []))"
| "wb_event fd r (RegRd f a v) m = Some (if f = fd \<and> a = r then wb_show (ucast v) m else (m, []))"
| "wb_event fd r e m = Some (m, [])"

abbreviation wb_run :: "int \<Rightarrow> u32 \<Rightarrow> event list \<Rightarrow> i2c_master \<Rightarrow> (i2c_master \<times> i2c_act list) option" where
  "wb_run fd r \<equiv> interp (wb_event fd r)"

section \<open>Runs of the library, as the master sees them\<close>

definition on_bus :: "int \<Rightarrow> u8 \<Rightarrow> mach \<Rightarrow> mach \<Rightarrow> i2c_master \<Rightarrow> i2c_master \<Rightarrow> i2c_act list \<Rightarrow> bool" where
  "on_bus fd port s t m m' acts \<longleftrightarrow> herd t = herd s \<and> ram t = ram s \<and>
     (\<exists>evs. trace t = trace s @ evs \<and> wb_run fd (wb_reg port) evs m = Some (m', acts))"

lemma on_bus_trans:
  "on_bus fd port s t m m1 a \<Longrightarrow> on_bus fd port t u m1 m2 b \<Longrightarrow> on_bus fd port s u m m2 (a @ b)"
  unfolding on_bus_def by (metis append.assoc interp_append)

lemma on_bus_refl: "on_bus fd port s s m m []"
  by (auto simp: on_bus_def)

lemma on_bus_mapped: "on_bus fd port s t m m' a \<Longrightarrow> mapped fd t = mapped fd s"
  by (simp add: on_bus_def mapped_def)

lemma wb_word:
  assumes "addr \<le> 4"
  shows "bit (0x80000000 + ucast addr * 256 + ucast data :: u32) 31"
    and "(ucast (drop_bit 8 (0x80000000 + ucast addr * 256 + ucast data :: u32)) :: u8) = addr"
    and "(ucast (0x80000000 + ucast addr * 256 + ucast data :: u32) :: u8) = data"
    and "\<not> bit (ucast addr * 256 :: u32) 31"
    and "(ucast (drop_bit 8 (ucast addr * 256 :: u32)) :: u8) = addr"
proof -
  have ua: "uint addr \<le> 4" "0 \<le> uint addr" using assms by (simp_all add: word_le_def)
  have ud: "uint data < 256" "0 \<le> uint data" using uint_lt2p [of data] by simp_all
  have up: "uint (ucast addr :: u32) = uint addr" "uint (ucast data :: u32) = uint data"
    by (simp_all add: uint_up_ucast is_up)
  have s: "uint (ucast addr * 256 :: u32) = uint addr * 256"
    using ua by (simp add: uint_word_ariths up)
  have w: "uint (0x80000000 + ucast addr * 256 + ucast data :: u32) = 0x80000000 + uint addr * 256 + uint data"
    using ua ud by (simp add: uint_word_ariths up)
  have byte: "uint (ucast v :: u8) = uint v mod 256" for v :: u32
    by (simp add: unsigned_ucast_eq take_bit_eq_mod)
  have top: "bit v 31 \<longleftrightarrow> odd (uint v div 2 ^ 31)" for v :: u32
  proof -
    have "bit v 31 \<longleftrightarrow> bit (uint v) 31" by (simp add: bit_uint_iff)
    then show ?thesis by (simp only: bit_iff_odd)
  qed
  have dr: "uint (drop_bit 8 v) = uint v div 256" for v :: u32
    by (simp add: drop_bit_eq_div uint_div_distrib)
  have "(0x80000000 + uint addr * 256 + uint data) div 2 ^ 31 = 1" "uint addr * 256 div 2 ^ 31 = 0"
    using ua ud by (simp_all add: div_eq_minus1 zdiv_eq_0_iff int_div_pos_eq [of _ _ 1 "uint addr * 256 + uint data"])
  then show "bit (0x80000000 + ucast addr * 256 + ucast data :: u32) 31" "\<not> bit (ucast addr * 256 :: u32) 31"
    unfolding top w s by simp_all
  have q: "(0x80000000 + uint addr * 256 + uint data) div 256 = 0x800000 + uint addr"
    using ud by (intro int_div_pos_eq [of _ _ _ "uint data"]) simp_all
  have m2: "(256 * b + a) mod 256 = a" if "0 \<le> a" "a < 256" for a b :: int using that by simp
  have e1: "0x800000 + uint addr = 256 * 0x8000 + uint addr"
    and e2: "0x80000000 + uint addr * 256 + uint data = 256 * (0x800000 + uint addr) + uint data" by simp_all
  show "(ucast (drop_bit 8 (0x80000000 + ucast addr * 256 + ucast data :: u32)) :: u8) = addr"
    unfolding word_uint_eq_iff byte dr w q e1 using ua by (intro m2) simp_all
  show "(ucast (0x80000000 + ucast addr * 256 + ucast data :: u32) :: u8) = data"
    unfolding word_uint_eq_iff byte w e2 using ud by (intro m2) simp_all
  show "(ucast (drop_bit 8 (ucast addr * 256 :: u32)) :: u8) = addr"
    unfolding word_uint_eq_iff byte dr s using ua by simp
qed

section \<open>The elementary operations\<close>

lemma wb_write_bus:
  assumes "mapped fd s" and "port \<le> 3" and "addr \<le> 4" and "wb_store addr data m = Some (m', a)"
  shows "\<exists>t. nac_wb_write fd port addr data s = Some (Ok (), t) \<and> on_bus fd port s t m m' a"
  using assms wb_word [OF assms(3)]
  by (simp add: nac_wb_write_def reg_write_mapped leD on_bus_def)

lemma wb_read_bus:
  assumes "mapped fd s" and "port \<le> 3" and "addr \<le> 4"
  shows "\<exists>v t. nac_wb_read E fd port addr s = Some (Ok v, t) \<and>
     on_bus fd port s t m (fst (wb_show v (m\<lparr>sel := addr\<rparr>))) (snd (wb_show v (m\<lparr>sel := addr\<rparr>)))"
proof -
  let ?s1 = "s\<lparr>trace := trace s @ [RegWr fd (wb_reg port) (ucast addr * 256), Delay 100]\<rparr>"
  define v where "v = dev E (trace ?s1) fd (wb_reg port)"
  have "nac_wb_read E fd port addr s = Some (Ok (ucast v), s\<lparr>trace := trace ?s1 @ [RegRd fd (wb_reg port) v]\<rparr>)"
    using assms by (simp add: nac_wb_read_def mapped_runs leD v_def)
  then show ?thesis
    using wb_word [OF assms(3)] by (auto simp: on_bus_def split: prod.split)
qed

text \<open>Whenever the wait ends, the master is idle.\<close>

lemma wait_done_bus:
  assumes run: "nac_wait_trans_done E fd port s = Some (r, t)" and "mapped fd s" and "port \<le> 3"
  shows "r = Ok () \<and> on_bus fd port s t m (m\<lparr>sel := SR, busy := False\<rparr>) []"
proof -
  have sr: "SR \<le> 4" by (simp add: SR_def)
  let ?m = "\<lambda>q. m\<lparr>sel := SR, busy := busy m \<and> q AND 0x2 \<noteq> 0\<rparr>"
  have shown: "wb_show q (m'\<lparr>sel := SR\<rparr>) = (m'\<lparr>sel := SR, busy := busy m' \<and> q AND 0x2 \<noteq> 0\<rparr>, [])" for q m'
    by (simp add: wb_show_def)
  obtain q0 s0 where q0: "nac_wb_read E fd port SR s = Some (Ok q0, s0)" "on_bus fd port s s0 m (?m q0) []"
    using wb_read_bus [OF assms(2,3) sr, of E m] unfolding shown by auto
  have it: "iterate (tip_round E fd port) q0 s0 = Some (r, t)"
    using run q0(1) assms(3) by (simp add: nac_wait_trans_done_def leD)
  let ?I = "\<lambda>q u. \<exists>b. on_bus fd port s u m (m\<lparr>sel := SR, busy := b\<rparr>) [] \<and> (q AND 0x2 = 0 \<longrightarrow> \<not> b)"
  have body: "(q AND 0x2 = 0 \<and> v = (Ok (Inr ()), u)) \<or> (\<exists>q' u'. v = (Ok (Inl q'), u') \<and> ?I q' u')"
    if "?I q u" "tip_round E fd port q u = Some v" for q u and v :: "(u8 + unit) res \<times> mach"
  proof (cases "q AND 0x2 = 0")
    case False
    from that(1) obtain b where b: "on_bus fd port s u m (m\<lparr>sel := SR, busy := b\<rparr>) []" by blast
    have "mapped fd u" using on_bus_mapped [OF b] assms(2) by simp
    from wb_read_bus [OF this assms(3) sr, of E "m\<lparr>sel := SR, busy := b\<rparr>"] obtain q' u' where
      "nac_wb_read E fd port SR u = Some (Ok q', u')"
      "on_bus fd port u u' (m\<lparr>sel := SR, busy := b\<rparr>) (m\<lparr>sel := SR, busy := b \<and> q' AND 0x2 \<noteq> 0\<rparr>) []"
      unfolding shown by auto
    with that(2) False on_bus_trans [OF b this(2)] show ?thesis by (auto simp: tip_round_def)
  qed (use that in \<open>simp add: tip_round_def\<close>)
  have "(\<lambda>(r, t). r = Ok () \<and> on_bus fd port s t m (m\<lparr>sel := SR, busy := False\<rparr>) []) (r, t)"
  proof (rule iterate_invariant [where I = ?I, OF it])
    show "?I q0 s0" using q0(2) by blast
  next
    fix q u q' u'
    assume "?I q u" "tip_round E fd port q u = Some (Ok (Inl q'), u')"
    from body [OF this] show "?I q' u'" by auto
  next
    fix q u r' u'
    assume i: "?I q u" and "tip_round E fd port q u = Some (Ok (Inr r'), u')"
    from body [OF this] i show "(\<lambda>(r, t). r = Ok () \<and> on_bus fd port s t m (m\<lparr>sel := SR, busy := False\<rparr>) []) (Ok r', u')"
      by auto
  qed (use body in fastforce)+
  then show ?thesis by simp
qed

section \<open>Composing transfers\<close>

definition idle :: "u8 \<Rightarrow> u8 \<Rightarrow> i2c_master" where
  "idle x y = \<lparr>busy = False, txr = x, sel = y\<rparr>"

text \<open>
  Every run of \<open>m\<close> that ends, started with an idle master whose transmit register holds
  \<open>x\<close> and which shows register \<open>y\<close>, returns and leaves the master idle, with a value, a new
  state and actions that satisfy \<open>Q\<close>.
\<close>

definition bus_runs :: "int \<Rightarrow> u8 \<Rightarrow> u8 \<Rightarrow> u8 \<Rightarrow> 'a nac \<Rightarrow> ('a \<Rightarrow> u8 \<Rightarrow> u8 \<Rightarrow> i2c_act list \<Rightarrow> bool) \<Rightarrow> bool" where
  "bus_runs fd port x y m Q \<longleftrightarrow> (\<forall>s r t. mapped fd s \<longrightarrow> m s = Some (r, t) \<longrightarrow>
     (\<exists>v x' y' a. r = Ok v \<and> on_bus fd port s t (idle x y) (idle x' y') a \<and> Q v x' y' a))"

lemma bus_runsD:
  assumes "bus_runs fd port x y m Q" and "mapped fd s" and "m s = Some (r, t)"
  obtains v x' y' a where "r = Ok v" and "on_bus fd port s t (idle x y) (idle x' y') a" and "Q v x' y' a"
  using assms unfolding bus_runs_def by blast

lemma bus_bnd:
  assumes m: "bus_runs fd port x y m Q1"
    and f: "\<And>v x' y' a. Q1 v x' y' a \<Longrightarrow> bus_runs fd port x' y' (f v) (\<lambda>w x'' y'' b. Q w x'' y'' (a @ b))"
  shows "bus_runs fd port x y (bnd m f) Q"
  unfolding bus_runs_def
proof (intro allI impI)
  fix s r t
  assume s: "mapped fd s" and run: "bnd m f s = Some (r, t)"
  then obtain r1 s1 where r1: "m s = Some (r1, s1)" by (cases "m s") (auto simp: bnd_def)
  from bus_runsD [OF m s this] obtain v x' y' a where v: "r1 = Ok v"
    "on_bus fd port s s1 (idle x y) (idle x' y') a" "Q1 v x' y' a" by blast
  have "mapped fd s1" using on_bus_mapped [OF v(2)] s by simp
  moreover have "f v s1 = Some (r, t)" using run r1 v(1) by simp
  ultimately obtain w x'' y'' b where "r = Ok w" "on_bus fd port s1 t (idle x' y') (idle x'' y'') b" "Q w x'' y'' (a @ b)"
    using bus_runsD [OF f [OF v(3)]] by blast
  then show "\<exists>v x' y' a. r = Ok v \<and> on_bus fd port s t (idle x y) (idle x' y') a \<and> Q v x' y' a"
    using on_bus_trans [OF v(2)] by blast
qed

lemma bus_ret: "Q v x y [] \<Longrightarrow> bus_runs fd port x y (ret v) Q"
  by (auto simp: bus_runs_def intro!: exI on_bus_refl)

lemma bus_usleep: "Q () x y [] \<Longrightarrow> bus_runs fd port x y (usleep k) Q"
  unfolding bus_runs_def
proof (intro allI impI)
  fix s r t
  assume "Q () x y []" "usleep k s = Some (r, t)"
  then show "\<exists>v x' y' a. r = Ok v \<and> on_bus fd port s t (idle x y) (idle x' y') a \<and> Q v x' y' a"
    by (intro exI [of _ "()"] exI [of _ x] exI [of _ y] exI [of _ "[]"]) (auto simp: on_bus_def)
qed

lemma bus_write:
  assumes "port \<le> 3" and "addr \<le> 4" and "wb_store addr data (idle x y) = Some (idle x' y', a)" and "Q () x' y' a"
  shows "bus_runs fd port x y (nac_wb_write fd port addr data) Q"
  unfolding bus_runs_def
proof (intro allI impI)
  fix s r t
  assume "mapped fd s" "nac_wb_write fd port addr data s = Some (r, t)"
  with wb_write_bus [OF this(1) assms(1-3)] assms(4)
  show "\<exists>v x' y' a. r = Ok v \<and> on_bus fd port s t (idle x y) (idle x' y') a \<and> Q v x' y' a" by auto
qed

lemma regs: "TXR \<le> 4" "CR \<le> 4" "RXR \<le> 4" "SR \<le> 4" "CR \<noteq> TXR" "RXR \<noteq> SR"
  by (simp_all add: TXR_def CR_def RXR_def SR_def)

text \<open>A command that starts a transfer makes the master busy, so the wait belongs to it.\<close>

lemma bus_command:
  assumes "port \<le> 3"
  shows "bus_runs fd port x y (bnd (nac_wb_write fd port CR cmd) (\<lambda>_. nac_wait_trans_done E fd port))
     (\<lambda>_ x' y' a. x' = x \<and> y' = SR \<and> a = [Cmd cmd x])"
  unfolding bus_runs_def
proof (intro allI impI)
  fix s r t
  assume s: "mapped fd s" and run: "bnd (nac_wb_write fd port CR cmd) (\<lambda>_. nac_wait_trans_done E fd port) s = Some (r, t)"
  let ?m = "(idle x y)\<lparr>busy := cmd AND 0x30 \<noteq> 0\<rparr>"
  have "wb_store CR cmd (idle x y) = Some (?m, [Cmd cmd x])"
    using regs(5) by (simp add: wb_store_def idle_def)
  from wb_write_bus [OF s assms regs(2) this] obtain s1 where
    s1: "nac_wb_write fd port CR cmd s = Some (Ok (), s1)" "on_bus fd port s s1 (idle x y) ?m [Cmd cmd x]" by blast
  have "nac_wait_trans_done E fd port s1 = Some (r, t)" using run s1(1) by simp
  from wait_done_bus [OF this, of ?m] assms s on_bus_mapped [OF s1(2)]
  have "r = Ok ()" "on_bus fd port s1 t ?m (?m\<lparr>sel := SR, busy := False\<rparr>) []" by auto
  with on_bus_trans [OF s1(2) this(2)]
  show "\<exists>v x' y' a. r = Ok v \<and> on_bus fd port s t (idle x y) (idle x' y') a \<and> x' = x \<and> y' = SR \<and> a = [Cmd cmd x]"
    by (simp add: idle_def)
qed

lemma bus_send:
  assumes "port \<le> 3"
  shows "bus_runs fd port x y (i2c_send E fd port data cmd) (\<lambda>_ x' y' a. x' = data \<and> y' = SR \<and> a = [Cmd cmd data])"
proof -
  have "i2c_send E fd port data cmd = bnd (nac_wb_write fd port TXR data) (\<lambda>_.
      bnd (bnd (nac_wb_write fd port CR cmd) (\<lambda>_. nac_wait_trans_done E fd port)) (\<lambda>_. ret ()))"
    by (simp add: i2c_send_def bnd_assoc)
  moreover have "wb_store TXR data (idle x y) = Some (idle data y, [])" by (simp add: wb_store_def idle_def)
  then have "bus_runs fd port x y (nac_wb_write fd port TXR data) (\<lambda>_ x' y' a. x' = data \<and> y' = y \<and> a = [])"
    using assms regs(1) by (auto intro: bus_write)
  ultimately show ?thesis
    by simp (erule bus_bnd, rule bus_bnd, rule bus_command [OF assms], auto intro: bus_ret)
qed

lemma bus_receive:
  assumes "port \<le> 3"
  shows "bus_runs fd port x y (i2c_receive E fd port cmd) (\<lambda>v x' y' a. x' = x \<and> y' = RXR \<and> a = [Cmd cmd x, Got v])"
proof -
  have rd: "bus_runs fd port x y (nac_wb_read E fd port RXR) (\<lambda>v x' y' a. x' = x \<and> y' = RXR \<and> a = [Got v])" for x y
    unfolding bus_runs_def
  proof (intro allI impI)
    fix s r t
    assume "mapped fd s" "nac_wb_read E fd port RXR s = Some (r, t)"
    with wb_read_bus [OF this(1) assms regs(3), of E "idle x y"] regs(6)
    show "\<exists>v x' y' a. r = Ok v \<and> on_bus fd port s t (idle x y) (idle x' y') a \<and> x' = x \<and> y' = RXR \<and> a = [Got v]"
      by (auto simp: wb_show_def idle_def)
  qed
  have "i2c_receive E fd port cmd = bnd (bnd (nac_wb_write fd port CR cmd) (\<lambda>_. nac_wait_trans_done E fd port))
      (\<lambda>_. nac_wb_read E fd port RXR)" by (simp add: i2c_receive_def bnd_assoc)
  then show ?thesis
    by (simp, intro bus_bnd [OF bus_command [OF assms]]) (use rd in \<open>auto simp: bus_runs_def\<close>)
qed

lemma bus_stop:
  assumes "port \<le> 3"
  shows "bus_runs fd port x y (nac_wb_write fd port CR 0x40) (\<lambda>_ x' y' a. x' = x \<and> y' = y \<and> a = [Cmd 0x40 x])"
proof -
  have "wb_store CR 0x40 (idle x y) = Some (idle x y, [Cmd 0x40 x])"
    using regs(5) by (simp add: wb_store_def idle_def)
  then show ?thesis using assms regs(2) by (auto intro: bus_write)
qed

lemma bus_address:
  assumes "port \<le> 3"
  shows "bus_runs fd port x y (i2c_address E fd port slave mem)
     (\<lambda>_ x' y' a. x' = mem \<and> y' = SR \<and> a = [Cmd 0x90 slave, Cmd 0x10 mem])"
  unfolding i2c_address_def steps.simps WR_def
  by (rule bus_bnd [OF bus_send [OF assms]], rule bus_bnd [OF bus_send [OF assms]]) (auto intro: bus_ret)

section \<open>The transfers\<close>

lemma read8_bus:
  assumes "port \<le> 3"
  shows "bus_runs fd port x y (nac_i2c_random_read8 E fd port slave mem)
     (\<lambda>v _ _ a. a = [Cmd 0x90 slave, Cmd 0x10 mem, Cmd 0x90 (slave + 1), Cmd 0x28 (slave + 1), Got v, Cmd 0x40 (slave + 1)])"
proof -
  have "nac_i2c_random_read8 E fd port slave mem =
      bnd (i2c_address E fd port slave mem) (\<lambda>_. bnd (i2c_send E fd port (slave + RD) 0x90) (\<lambda>_.
      bnd (i2c_receive E fd port 0x28) (\<lambda>v. bnd (nac_wb_write fd port CR 0x40) (\<lambda>_. bnd (usleep 1) (\<lambda>_. ret v)))))"
    using assms by (simp add: nac_i2c_random_read8_def i2c_receive_def bnd_assoc leD)
  then show ?thesis
    by (simp, intro bus_bnd [OF bus_address [OF assms]] bus_bnd [OF bus_send [OF assms]] bus_bnd [OF bus_receive [OF assms]]
        bus_bnd [OF bus_stop [OF assms]] bus_bnd [OF bus_usleep] bus_ret; (elim conjE)?) (auto simp: RD_def)
qed

lemma sequential2_bus:
  assumes "port \<le> 3"
  shows "bus_runs fd port x y (i2c_sequential E fd port slave mem (\<lambda>_ _. ret ()) 2)
     (\<lambda>bs _ _ a. \<exists>hi lo. bs = [hi, lo] \<and> a = [Cmd 0x90 slave, Cmd 0x10 mem, Cmd 0x90 (slave + 1),
        Cmd 0x20 (slave + 1), Got hi, Cmd 0x28 (slave + 1), Got lo, Cmd 0x40 (slave + 1)])"
proof -
  have two: "[0..uint (2 :: u8) - 2] = [0]" by (simp add: upto.simps)
  have "i2c_sequential E fd port slave mem (\<lambda>_ _. ret ()) 2 =
      bnd (i2c_address E fd port slave mem) (\<lambda>_. bnd (i2c_send E fd port (slave + RD) 0x90) (\<lambda>_.
      bnd (i2c_receive E fd port 0x20) (\<lambda>hi. bnd (i2c_receive E fd port 0x28) (\<lambda>lo.
      bnd (nac_wb_write fd port CR 0x40) (\<lambda>_. bnd (usleep 1) (\<lambda>_. ret [hi, lo]))))))"
    unfolding i2c_sequential_def two i2c_receive_all.simps bnd_assoc bnd_ret by simp
  then show ?thesis
    by (simp, intro bus_bnd [OF bus_address [OF assms]] bus_bnd [OF bus_send [OF assms]] bus_bnd [OF bus_receive [OF assms]]
        bus_bnd [OF bus_stop [OF assms]] bus_bnd [OF bus_usleep] bus_ret; (elim conjE)?) (auto simp: RD_def)
qed

lemma read16_bus:
  assumes "port \<le> 3"
  shows "bus_runs fd port x y (nac_i2c_random_read16 E fd port slave mem)
     (\<lambda>v _ _ a. \<exists>hi lo. v = ucast hi * 256 + ucast lo \<and> a = [Cmd 0x90 slave, Cmd 0x10 mem, Cmd 0x90 (slave + 1),
        Cmd 0x20 (slave + 1), Got hi, Cmd 0x28 (slave + 1), Got lo, Cmd 0x40 (slave + 1)])"
proof -
  have "nac_i2c_random_read16 E fd port slave mem = bnd (i2c_sequential E fd port slave mem (\<lambda>_ _. ret ()) 2)
      (\<lambda>data. ret (ucast (data ! 0) * 256 + ucast (data ! 1)))"
    using assms by (simp add: nac_i2c_random_read16_def leD)
  then show ?thesis
    by (simp, intro bus_bnd [OF sequential2_bus [OF assms]] bus_ret) auto
qed

lemma write16_bus:
  assumes "port \<le> 3"
  shows "bus_runs fd port x y (nac_i2c_random_write16 E fd port slave mem data)
     (\<lambda>_ _ _ a. a = [Cmd 0x90 slave, Cmd 0x10 mem, Cmd 0x10 (ucast (drop_bit 8 data)), Cmd 0x50 (ucast data)])"
proof -
  have m: "(0xFF00 :: u16) = push_bit 8 (mask 8)" "(0x00FF :: u16) = mask 8"
    by (simp_all add: mask_eq_exp_minus_1)
  have hi: "ucast (drop_bit 8 (data AND 0xFF00)) = (ucast (drop_bit 8 data) :: u8)"
    unfolding m by (rule bit_word_eqI) (auto simp: bit_simps)
  have lo: "ucast (data AND 0x00FF) = (ucast data :: u8)"
    unfolding m by (rule bit_word_eqI) (auto simp: bit_simps)
  have "nac_i2c_random_write16 E fd port slave mem data =
      bnd (i2c_address E fd port slave mem) (\<lambda>_. bnd (i2c_send E fd port (ucast (drop_bit 8 data)) 0x10) (\<lambda>_.
      bnd (i2c_send E fd port (ucast data) 0x50) (\<lambda>_. bnd (usleep 1) (\<lambda>_. ret ()))))"
    using assms unfolding nac_i2c_random_write16_def hi lo by (simp add: leD)
  then show ?thesis
    by (simp, intro bus_bnd [OF bus_address [OF assms]] bus_bnd [OF bus_send [OF assms]]
        bus_bnd [OF bus_usleep] bus_ret; (elim conjE)?) auto
qed

text \<open>
  C37. On a mapped card and a port below 4, with the port's I2C master idle: whenever the
  8 bit read, the 16 bit read or the 16 bit write returns, the history between call and return
  is, for the master, one complete bus transaction, whatever number of status polls it took:
  start and write of the slave's address, the memory address, then a repeated start with the
  read bit and the received bytes (the last one not acknowledged) and a stop, or the two
  bytes written, high byte first, the last with the stop. No byte and no command was written
  while a transfer was in progress, the master is idle again, and the result of a read is the
  bytes received, the first one the high byte. (The sequential read of any number of bytes is
  covered only through the 16 bit read, which is its case of two.)
\<close>

theorem i2c_transactions:
  assumes "mapped fd s" and "port \<le> 3"
  shows "(\<forall>r t. nac_i2c_random_read8 E fd port slave mem s = Some (r, t) \<longrightarrow>
       (\<exists>v x' y'. r = Ok v \<and> on_bus fd port s t (idle x y) (idle x' y')
          [Cmd 0x90 slave, Cmd 0x10 mem, Cmd 0x90 (slave + 1), Cmd 0x28 (slave + 1), Got v, Cmd 0x40 (slave + 1)])) \<and>
     (\<forall>r t. nac_i2c_random_read16 E fd port slave mem s = Some (r, t) \<longrightarrow>
       (\<exists>hi lo x' y'. r = Ok (ucast hi * 256 + ucast lo) \<and> on_bus fd port s t (idle x y) (idle x' y')
          [Cmd 0x90 slave, Cmd 0x10 mem, Cmd 0x90 (slave + 1), Cmd 0x20 (slave + 1), Got hi,
           Cmd 0x28 (slave + 1), Got lo, Cmd 0x40 (slave + 1)])) \<and>
     (\<forall>r t. nac_i2c_random_write16 E fd port slave mem data s = Some (r, t) \<longrightarrow>
       (\<exists>x' y'. r = Ok () \<and> on_bus fd port s t (idle x y) (idle x' y')
          [Cmd 0x90 slave, Cmd 0x10 mem, Cmd 0x10 (ucast (drop_bit 8 data)), Cmd 0x50 (ucast data)]))"
proof (intro conjI allI impI)
  fix r t
  assume run: "nac_i2c_random_read8 E fd port slave mem s = Some (r, t)"
  show
    "\<exists>v x' y'. r = Ok v \<and> on_bus fd port s t (idle x y) (idle x' y')
       [Cmd 0x90 slave, Cmd 0x10 mem, Cmd 0x90 (slave + 1), Cmd 0x28 (slave + 1), Got v, Cmd 0x40 (slave + 1)]"
    by (rule bus_runsD [OF read8_bus [OF assms(2)] assms(1) run, of x y]) blast
next
  fix r t
  assume run: "nac_i2c_random_read16 E fd port slave mem s = Some (r, t)"
  show
    "\<exists>hi lo x' y'. r = Ok (ucast hi * 256 + ucast lo) \<and> on_bus fd port s t (idle x y) (idle x' y')
       [Cmd 0x90 slave, Cmd 0x10 mem, Cmd 0x90 (slave + 1), Cmd 0x20 (slave + 1), Got hi,
        Cmd 0x28 (slave + 1), Got lo, Cmd 0x40 (slave + 1)]"
    by (rule bus_runsD [OF read16_bus [OF assms(2)] assms(1) run, of x y]) blast
next
  fix r t
  assume run: "nac_i2c_random_write16 E fd port slave mem data s = Some (r, t)"
  show
    "\<exists>x' y'. r = Ok () \<and> on_bus fd port s t (idle x y) (idle x' y')
       [Cmd 0x90 slave, Cmd 0x10 mem, Cmd 0x10 (ucast (drop_bit 8 data)), Cmd 0x50 (ucast data)]"
    by (rule bus_runsD [OF write16_bus [OF assms(2)] assms(1) run, of x y]) auto
qed

text \<open>On the demonstration card, whose registers read 0, every operation of the bus ends.\<close>

definition demo_ends :: "'a nac \<Rightarrow> bool" where
  "demo_ends m \<longleftrightarrow> (\<forall>s. mapped 3 s \<longrightarrow> (\<exists>v t. m s = Some (Ok v, t) \<and> mapped 3 t))"

lemma demo_ends_bnd: "demo_ends m \<Longrightarrow> (\<And>v. demo_ends (f v)) \<Longrightarrow> demo_ends (bnd m f)"
  unfolding demo_ends_def by (metis bnd_Ok)

lemma demo_ends_basic: "demo_ends (ret x)" "demo_ends (usleep k)" "demo_ends (nac_wb_write 3 0 a d)"
    "demo_ends (nac_wait_trans_done demo_env 3 0)" "a \<le> 4 \<Longrightarrow> demo_ends (nac_wb_read demo_env 3 0 a)"
  by (simp_all add: demo_ends_def nac_wait_trans_done_def nac_wb_read_def nac_wb_write_def mapped_runs SR_def
      tip_round_def demo_env_def iterate_leave leD)

theorem i2c_transactions_witness:
  "\<exists>v t x' y'. nac_i2c_random_read8 demo_env 3 0 0xA0 0 demo_mach = Some (Ok v, t) \<and>
     on_bus 3 0 demo_mach t (idle 0 0) (idle x' y')
       [Cmd 0x90 0xA0, Cmd 0x10 0, Cmd 0x90 0xA1, Cmd 0x28 0xA1, Got v, Cmd 0x40 0xA1]"
proof -
  have "demo_ends (nac_i2c_random_read8 demo_env 3 0 0xA0 0)"
    unfolding nac_i2c_random_read8_def i2c_address_def i2c_send_def steps.simps
    by (simp, intro demo_ends_bnd demo_ends_basic) (simp add: RXR_def)
  then obtain v t where "nac_i2c_random_read8 demo_env 3 0 0xA0 0 demo_mach = Some (Ok v, t)"
    using demo_mapped unfolding demo_ends_def by blast
  moreover from i2c_transactions [OF demo_mapped, of 0 demo_env "0xA0" 0 0 0, THEN conjunct1, rule_format, OF _ this]
  have "\<exists>v' x' y'. (Ok v :: u8 res) = Ok v' \<and> on_bus 3 0 demo_mach t (idle 0 0) (idle x' y')
       [Cmd 0x90 0xA0, Cmd 0x10 0, Cmd 0x90 0xA1, Cmd 0x28 0xA1, Got v', Cmd 0x40 0xA1]" by simp
  ultimately show ?thesis by blast
qed

end
