(* ===== verification/Sem.thy ===== *)
theory Sem
  imports Machine
begin

text \<open>
  The semaphore operations of lib/nacapi.c, with which processes that share a card take turns.
  The semaphore itself is the kernel's: \<open>semop\<close> may fail or, on a semaphore that is not free,
  never return. What it does with \<open>SEM_UNDO\<close> when a process ends is not modelled: the library's
  part is which call it makes and what it makes of the answer.
\<close>

section \<open>The operations\<close>

definition SEM_UNDO :: int where
  "SEM_UNDO = 0x1000"

text \<open>\<open>semop\<close> with one operation on semaphore 0 of the set.\<close>

definition semop :: "env \<Rightarrow> int \<Rightarrow> int \<Rightarrow> int \<Rightarrow> bool nac" where
  "semop E semid sem_op sem_flg = (\<lambda>s. case semop_at E (trace s) semid sem_op sem_flg of
       None \<Rightarrow> None
     | Some b \<Rightarrow> bnd (log_event (SemOp semid sem_op sem_flg b)) (\<lambda>_. ret b) s)"

definition semctl :: "env \<Rightarrow> int \<Rightarrow> int option \<Rightarrow> int option nac" where
  "semctl E semid setval = bnd (read_st (\<lambda>s. semctl_at E (trace s) semid setval)) (\<lambda>r.
     bnd (log_event (SemCtl semid setval r)) (\<lambda>_. ret r))"

definition semop_p :: "env \<Rightarrow> int \<Rightarrow> int nac" where
  "semop_p E sem_id = bnd (semop E sem_id (- 1) SEM_UNDO) (\<lambda>b. ret (if \<not> b then 0 else 1))"

definition semop_v :: "env \<Rightarrow> int \<Rightarrow> int nac" where
  "semop_v E sem_id = bnd (semop E sem_id 1 SEM_UNDO) (\<lambda>b. ret (if \<not> b then 0 else 1))"

definition get_semvalue :: "env \<Rightarrow> int \<Rightarrow> int nac" where
  "get_semvalue E sem_id = bnd (semctl E sem_id None) (\<lambda>res.
     case res of None \<Rightarrow> exit_with 1 | Some v \<Rightarrow> ret v)"

definition set_semvalue :: "env \<Rightarrow> int \<Rightarrow> int nac" where
  "set_semvalue E sem_id = bnd (semctl E sem_id (Some 1)) (\<lambda>res. ret (if res = None then 0 else 1))"

section \<open>What they ask of the kernel\<close>

lemma semop_run:
  "semop E semid d flg s = map_option (\<lambda>b. (Ok b, s\<lparr>trace := trace s @ [SemOp semid d flg b]\<rparr>)) (semop_at E (trace s) semid d flg)"
  by (simp add: semop_def split: option.split)

text \<open>
  Every operation that changes the semaphore asks the kernel to undo it when the process ends;
  it returns 1 for success and 0 for failure, and does not return while the kernel blocks it.
\<close>

lemma semaphore_calls:
  "semop_p E semid s = map_option (\<lambda>b. (Ok (of_bool b), s\<lparr>trace := trace s @ [SemOp semid (- 1) SEM_UNDO b]\<rparr>))
     (semop_at E (trace s) semid (- 1) SEM_UNDO)"
  "semop_v E semid s = map_option (\<lambda>b. (Ok (of_bool b), s\<lparr>trace := trace s @ [SemOp semid 1 SEM_UNDO b]\<rparr>))
     (semop_at E (trace s) semid 1 SEM_UNDO)"
  by (cases "semop_at E (trace s) semid (- 1) SEM_UNDO"; simp add: semop_p_def semop_run bnd_def)
    (cases "semop_at E (trace s) semid 1 SEM_UNDO"; simp add: semop_v_def semop_run bnd_def)

text \<open>A value that cannot be read ends the process; one that cannot be set is answered with 0.\<close>

lemma semaphore_values:
  "get_semvalue E semid s = Some (case semctl_at E (trace s) semid None of None \<Rightarrow> Exited 1 | Some v \<Rightarrow> Ok v,
     s\<lparr>trace := trace s @ [SemCtl semid None (semctl_at E (trace s) semid None)]\<rparr>)"
  "set_semvalue E semid s = Some (Ok (of_bool (semctl_at E (trace s) semid (Some 1) \<noteq> None)),
     s\<lparr>trace := trace s @ [SemCtl semid (Some 1) (semctl_at E (trace s) semid (Some 1))]\<rparr>)"
  by (simp_all add: get_semvalue_def set_semvalue_def semctl_def exit_with_def split: option.split)

end
