(* ===== verification/Spec2Isabelle.thy ===== *)
theory Spec2Isabelle
  imports NacSys Divdi3 ToolRuns ToolSafe Rft ParseName I2cBus FlashOps Sem
begin

text \<open>
  A model of the user library of the nac network capture card (lib/nac_stream.c, lib/nacapi.c
  and the headers under include/), of its kernel driver (drv/) and of the tool that operates a
  card from the command line (src/nactool/), with the theorems that make them correct.

  The program. A process opens a card (\<open>nac_open\<close>), which gives it a register window and a
  description of the card's \<open>memory hole\<close>, a physical buffer the card writes packets into by
  DMA. A configuration call divides the hole into one ring per stream and programs the card's
  DMA engines; a stream is attached (its ring mapped into the process twice in a row), started,
  read with \<open>nac_advance_stream\<close> or \<open>nac_get_next_record\<close>, stopped and detached. Transmit
  streams are filled with \<open>nac_tx_stream_copy_bytes\<close> or with get_space and commit. A flow table
  in the hole is refreshed by the rft functions. Beside this the library drives the card's slow
  buses, its flash memory, and semaphores that processes take turns with.

  Below it, in the kernel: a memory module (drv/nac_mem.c) sets large contiguous buffers aside
  when it is loaded, one for each card, from pages that the kernel gives in small blocks. The
  driver (drv/nac_main.c) takes a unit of its table for every card that is probed, maps the
  registers, claims a buffer and makes three device nodes; through them a process reads, writes
  and maps the buffer and the registers and asks for the description that \<open>nac_open\<close> needs. A
  clock module (drv/nacts.c) keeps the time stamps of the card in step with the host or with an
  external reference.

  Above the library, the tool nactool parses its command line, opens a card and carries out one
  command: it shows or sets the state of the ports, measures rates, reads and writes registers in
  a menu, puts a serial number behind an image, and updates the flash from such a file.

  How it is modelled. A C function is a program over one machine state: a map from the state to
  \<open>None\<close>, if it never returns, or to its outcome (returned value, exit of the process, or
  undefined behaviour) and the new state (\<open>Prelude\<close>). The state (\<open>Machine\<close>) holds the herd of
  cards, errno, the process's memory map and contents, and the history of everything done to the
  outside world, an event per register access, system call, delay and allocation. The outside
  world is the parameter \<open>env\<close>: what a register read, malloc, mmap, open, ioctl, semop answers is
  any function of the history, so the card may change a register between two reads. Integers
  are words of their C width. Loops over known ranges are \<open>for_each\<close> and \<open>for_ok\<close>; a loop whose
  end depends on the hardware is \<open>iterate\<close>, which is \<open>None\<close> if it never ends, so no fuel is
  used anywhere; that such a function returns is proved as such, under a condition on the card.

  The kernel modules are programs over states of their own, in the same monad: the tables of
  \<open>NacMem\<close> with the kernel as \<open>page_env\<close>, the clock of \<open>Duck\<close> with \<open>clk_env\<close>, the units of \<open>NacCard\<close>
  with \<open>drv_env\<close>, which contains the other two. The build modelled is that for a kernel 2.6 on a
  64 bit machine (\<open>KERNEL_26X\<close>, \<open>PLATFORM64\<close>). Signed arithmetic of the kernel wraps around, and an
  access of a unit's buffer or window through a null pointer faults.
  The tool is a program over the library's state, the numbers that will be typed, the files and
  the output; \<open>lib\<close> runs a function of the library in it, \<open>file_env\<close> tells which of its file
  operations fail, and \<open>copper\<close> tells whether it is built with \<open>COPPER\<close>.

  The theories.
  \<^item> \<open>Prelude\<close>: words, outcomes, sequencing, loops with their rules, reading of a history.
  \<^item> \<open>NacMem\<close>: collecting pages, sorting, finding contiguous areas, claiming and releasing; the
    locale \<open>buffer_pool\<close> of buffers that holders claim, interpreted on the module and used by the
    units of \<open>NacCard\<close>. \<open>Duck\<close>: the clock, its timers and its interrupt.
  \<^item> \<open>NacCard\<close>: probing and removing, loading and unloading. \<open>NacFile\<close>: the file operations.
    \<open>NacSys\<close>: an inductive step relation of every call that the kernel makes, with the invariant
    of the reachable states.
  \<^item> \<open>Divdi3\<close>: the division of 64 bit numbers for 32 bit kernels (drv/divdi3_impl.c), for three
    machines; the locales \<open>divider\<close> and \<open>any_divider\<close> state what it needs of a machine's
    instructions and are interpreted on the three.
  \<^item> \<open>Nactypes\<close>: register addresses (include/nacreg.h), bit fields, plain types.
  \<^item> \<open>Machine\<close>: the structures of include/nactypes.h, events, environment, registers, memory,
    and the rules of symbolic execution; the locale \<open>rw_port\<close> of a place that is read, changed
    and written back, interpreted on the card's registers and, in \<open>Buses\<close>, on the PCS registers.
  \<^item> \<open>Board\<close>: capture, bypass, timer, port counters. \<open>Session\<close>: open, clone, close.
  \<^item> \<open>StreamConfig\<close>: the configuration calls and where they put the windows.
  \<^item> \<open>StreamLife\<close>: attach, start, stop, detach of both kinds of stream. The protocol they follow
    is a small machine, \<open>life_call\<close>, that gives the result of each call, what it leaves and where
    it follows a bad pointer; the locale \<open>stream_protocol\<close> states that calls do the same and is
    interpreted on the receive and on the transmit functions.
  \<^item> \<open>StreamRx\<close>: reading. \<open>StreamTx\<close>: filling, with the locale \<open>ring_counter\<close> of a position
    that is advanced around a ring, interpreted on both ways the code does it. \<open>Rft\<close>: the flow
    table. \<open>ParseName\<close>: device names.
  \<^item> \<open>Buses\<close>: I2C, MAC, PCS, PHY control, MDIO. \<open>I2cBus\<close>: the transactions the I2C master sees.
  \<^item> \<open>Flash\<close>: the remote update. \<open>FlashBus\<close>: the cycles and commands the flash chip sees, and
    programming of whole banks. \<open>FlashOps\<close>: serial numbers, status outcomes, waits.
  \<^item> \<open>Sem\<close>: the semaphores: which calls the library makes, with \<open>SEM_UNDO\<close>, and how it answers.
  \<^item> \<open>ToolArgs\<close>: the command line of nactool and its grammar. \<open>NacTool\<close>: the commands. \<open>NacIsp\<close>:
    what the whole update does to the flash chip. \<open>ToolRuns\<close>: dialogues with the tool. \<open>ToolSafe\<close>:
    the commands that are free of undefined behaviour. An access of a register faults in the model
    when the window is not mapped; that its offset is inside the window is a property of the
    history, which \<open>ToolSafe\<close> proves of these commands for a card whose window holds the registers
    of include/nacreg.h.
  This theory holds the properties that span components.

  What the lemmas show. Each component has run lemmas (what an operation does to state and
  history on each branch) and, on top of them, its properties: layout of the windows, the stream
  protocol, safety of the limit pointer, walking records, ring arithmetic, round trips of the
  flow table and the serial numbers, the outcome of every status, exact register effects, and
  for each wait both when it ends and when it never does. What the hardware does is never
  assumed in a definition; \<open>I2cBus\<close> and \<open>FlashBus\<close> read the history with an interpreter of the
  documented device, which rejects a history the device does not allow.

  The theorems on nactool rest on those of the library: the update of the flash is a sequence of
  the commands of \<open>FlashBus\<close> and \<open>FlashOps\<close>, and the card loads its new configuration only if what
  the chip showed is what the file holds, with the number that \<open>do_gsn\<close> put there.

  The driver's theorems follow a page from the kernel to the process: the buffers are made of
  the blocks that the kernel gave and overlap nowhere, no two holders share one, a probe gives its
  unit one of them, and a process that has a file on one card reads and writes the buffer of this
  card and nothing else. The theorems also show where the code breaks this: mappings at negative
  offsets, the request of the clock, probes that fail.

  Not modelled: messages on the console; \<open>nac_device_name\<close> of drv/nacpci.c, which only makes
  texts for them; the build of the driver for kernels 2.4; the banners, questions and printed times of nactool, and how the text typed is
  made into numbers; the test programs (src/flow_test, debugTools/), which only call the library in
  loops and write files; the big-endian branch of the headers, which no build file selects; the
  timing of delays, which are only recorded; the concurrency of several processes, and with it
  what the kernel does with a semaphore. An address that is not mapped faults; signals and partial system
  calls are not modelled.
\<close>

section \<open>Configuration, attach and start together\<close>

text \<open>The kernel reserves room when asked, and honours \<open>MAP_FIXED\<close>.\<close>

definition honours_fixed :: "env \<Rightarrow> int \<Rightarrow> bool" where
  "honours_fixed E fd \<longleftrightarrow> (\<forall>hist whole z off. \<exists>sp. fixed_maps E fd hist whole sp z off)"

lemma last_write_append:
  "last_write a (xs @ ys) = (case last_write a ys of Some v \<Rightarrow> Some v | None \<Rightarrow> last_write a xs)"
  by (simp add: last_write_def map_add_def split: option.split)

lemma windowD_append:
  assumes "window ws lo hi a b" and "\<And>x. (lo, x) \<notin> set ys" and "\<And>x. (hi, x) \<notin> set ys"
  shows "\<exists>v w. last_write lo (xs @ ws @ ys) = Some v \<and> last_write hi (xs @ ws @ ys) = Some w \<and> uint v = a \<and> uint w = b"
proof -
  have "last_write r ys = None" if "\<And>x. (r, x) \<notin> set ys" for r
    using that by (auto simp: last_write_def map_of_eq_None_iff)
  then show ?thesis using assms by (auto simp: window_def last_write_append)
qed

lemma ring_offset:
  assumes ok: "hole_ok info" and small: "uint (nacinf_t.buf_size info) < 2 ^ 31" and n: "0 < n" "n \<le> 8"
    and i: "0 \<le> i" "i < n" and z: "uint (z :: u32) = ring_size info n"
  shows "uint z < 2 ^ 31" and "(scast z :: u64) = word_of_int (ring_size info n)"
    and "(scast (z * word_of_int i) :: u64) = word_of_int (i * ring_size info n)"
proof -
  have z0: "0 \<le> ring_size info n" by (rule ring_size_bounds(1) [OF ok n(1)])
  have iz: "i * ring_size info n \<le> n * ring_size info n" "ring_size info n \<le> n * ring_size info n"
    using i n z0 by (simp_all add: mult_right_mono mult_le_cancel_right1)
  have le: "n * ring_size info n < 2 ^ 31" using ring_size_bounds(2) [OF ok n(1)] small by linarith
  show zs: "uint z < 2 ^ 31" using z iz(2) le by linarith
  have w: "uint (word_of_int i :: u32) = i" using i n by (simp add: uint_of_small)
  have m: "uint (z * word_of_int i) = i * ring_size info n"
    using uint_mult_small [of z "word_of_int i"] w z iz(1) le by (simp add: mult.commute)
  then have ms: "uint (z * word_of_int i) < 2 ^ 31" using iz(1) le by linarith
  show "(scast z :: u64) = word_of_int (ring_size info n)"
    unfolding scast_small [OF zs] ucast_eq z ..
  show "(scast (z * word_of_int i) :: u64) = word_of_int (i * ring_size info n)"
    unfolding scast_small [OF ms] ucast_eq m ..
qed

text \<open>The three calls run one after the other, with what the later facts need of each state.\<close>

lemma session_run:
  assumes "herd s fd = Some h" and "opened h" and "iom h \<noteq> 0" and "fd \<noteq> - 1" and "\<And>hist. malloc_ok E hist"
    and "0 < n" and "n \<le> 8" and "n \<noteq> 3" and "0 \<le> i" and "i < n" and "hole_ok (nacinf h)"
    and "uint (nacinf_t.buf_size (nacinf h)) < 2 ^ 31" and "honours_fixed E fd"
    and z: "z = ring_size (nacinf h) n"
  shows "\<exists>t1 t2 t3 h2 ws zw sp. nac_msu_configure E fd n s = Some (Ok 0, t1) \<and>
     nac_attach_stream E fd i flags 0 t1 = Some (Ok 0, t2) \<and> nac_start_stream E fd i t2 = Some (Ok 0, t3) \<and>
     phase_of fd i t3 = Running \<and>
     herd t3 fd = Some (h2\<lparr>stream := (stream h2)(i := (stream h2 i)\<lparr>started := True\<rparr>)\<rparr>) \<and>
     uint zw = z \<and> stream_size (stream h2 i) = zw \<and> phyaddr (stream h2 i) = phy_addr (nacinf h) + word_of_int i * zw \<and>
     buf (stream h2 i) = sp \<and> double_mapped (vmap t3) fd sp (ucast zw) (ucast zw) (word_of_int (i * z)) \<and>
     window ws (stream_reg HOST_ADDR_LO_REG i) (stream_reg BUF_BOTTOM_LO_REG i)
       (uint (phy_addr (nacinf h)) + i * z) (uint (phy_addr (nacinf h)) + (i + 1) * z) \<and>
     reg_writes fd (trace t3) = reg_writes fd (trace s) @ ws @
       [(stream_reg LIMIT_PTR_LO_REG i, phyaddr (stream h2 i) + zw), (stream_reg DMA_CTL_REG i, 8)]"
proof -
  let ?win = "\<lambda>ws. window ws (stream_reg HOST_ADDR_LO_REG i) (stream_reg BUF_BOTTOM_LO_REG i)
      (uint (phy_addr (nacinf h)) + i * z) (uint (phy_addr (nacinf h)) + (i + 1) * z)"
  have "\<exists>t1 h1 ws. nac_msu_configure E fd n s = Some (Ok 0, t1) \<and> herd t1 fd = Some h1 \<and> opened h1 \<and> iom h1 = iom h \<and>
      nacinf h1 = nacinf h \<and> reg_writes fd (trace t1) = reg_writes fd (trace s) @ ws \<and>
      pbm (stream h1 i) = PTo (rx_pbm i) \<and> uint (stream_size (stream h1 i)) = z \<and> ?win ws"
    using msu_windows [OF assms(1-3,5-8,11)] assms(9,10) unfolding z by blast
  then obtain t1 h1 ws where t1: "nac_msu_configure E fd n s = Some (Ok 0, t1)" "herd t1 fd = Some h1" "opened h1"
    "iom h1 = iom h" "nacinf h1 = nacinf h" "reg_writes fd (trace t1) = reg_writes fd (trace s) @ ws"
    "pbm (stream h1 i) = PTo (rx_pbm i)" "uint (stream_size (stream h1 i)) = z" "?win ws" by blast
  define zw where "zw = stream_size (stream h1 i)"
  have zw: "uint zw = ring_size (nacinf h) n" using t1(8) by (simp add: zw_def z)
  note off = ring_offset [OF assms(11,12,6,7,9,10) zw, folded z]
  obtain sp where sp: "fixed_maps E fd (trace t1) (ucast (zw + zw)) sp (scast zw) (scast (zw * word_of_int i))"
    using assms(13) unfolding honours_fixed_def by blast
  have i32: "i < NAC_STREAM_MAX" using assms(7,10) by (simp add: NAC_STREAM_MAX_def)
  have dw: "zw = default_window 0 zw" by (simp add: default_window_def)
  have le: "\<not> zw <s zw" by simp
  obtain t2 h2 where t2: "nac_attach_stream E fd i flags 0 t1 = Some (Ok 0, t2)" "herd t2 fd = Some h2"
    "h2 = h1\<lparr>stream := (stream h1)(i := stream h2 i)\<rparr>" "pbm (stream h2 i) = pbm (stream h1 i)" "stream_size (stream h2 i) = zw"
    "reg_writes fd (trace t2) = reg_writes fd (trace t1)" "phase_of fd i t2 = Attached" "buf (stream h2 i) = sp"
    "phyaddr (stream h2 i) = phy_addr (nacinf h1) + word_of_int i * zw"
    "double_mapped (vmap t2) fd sp (ucast zw) (ucast zw) (scast (zw * word_of_int i))"
    using attach_run [OF t1(2,3) assms(9) i32 assms(4) zw_def off(1) dw le sp] by blast
  have "iom h2 \<noteq> 0" using arg_cong [OF t2(3), of iom] t1(4) assms(3) by simp
  then obtain t3 where t3: "nac_start_stream E fd i t2 = Some (Ok 0, t3)" "phase_of fd i t3 = Running" "vmap t3 = vmap t2"
    "herd t3 fd = Some (h2\<lparr>stream := (stream h2)(i := (stream h2 i)\<lparr>started := True\<rparr>)\<rparr>)"
    "reg_writes fd (trace t3) = reg_writes fd (trace t2) @ [(limit_ptr (rx_pbm i), phyaddr (stream h2 i) + stream_size (stream h2 i)),
       (nacpbm_stream_t.dma_ctl_reg (rx_pbm i), 8)]"
    using start_run [OF t2(2) _ assms(9) i32 _ t2(7)] t2(4) t1(7) by metis
  have blk: "limit_ptr (rx_pbm i) = stream_reg LIMIT_PTR_LO_REG i" "nacpbm_stream_t.dma_ctl_reg (rx_pbm i) = stream_reg DMA_CTL_REG i"
    by (simp_all add: rx_pbm_def)
  have dm: "double_mapped (vmap t3) fd sp (ucast zw) (ucast zw) (word_of_int (i * z))"
    using t2(10) unfolding t3(3) off(3) .
  have tr: "reg_writes fd (trace t3) = reg_writes fd (trace s) @ ws @
       [(stream_reg LIMIT_PTR_LO_REG i, phyaddr (stream h2 i) + zw), (stream_reg DMA_CTL_REG i, 8)]"
    using t3(5) t2(5,6) t1(6) by (simp add: blk)
  show ?thesis
    using t1(1,5,9) t2(1,5,8,9) t3(1,2,4) zw dm tr unfolding z [symmetric] by metis
qed

text \<open>
  C2. The card and the process agree on the rings. On an open card with a hole below 2 GB that
  holds the flow table, with \<open>z\<close> the ring size for \<open>n\<close> streams: configuring, attaching stream
  \<open>i\<close> with the default window and starting it all return 0 and leave the stream running; the
  card's window registers then hold the bus addresses base + i * z and base + (i + 1) * z, its
  limit is the end of the window, the stream's bus address is the start of it, and byte \<open>k\<close> of
  the process's buffer is byte i * z + k of the hole, the place the card writes through bus
  address base + i * z + k, in both rounds of the double mapping.
\<close>

theorem card_and_process_agree:
  assumes "herd s fd = Some h" and "opened h" and "iom h \<noteq> 0" and "fd \<noteq> - 1" and "\<And>hist. malloc_ok E hist"
    and "0 < n" and "n \<le> 8" and "n \<noteq> 3" and "0 \<le> i" and "i < n" and "hole_ok (nacinf h)"
    and "uint (nacinf_t.buf_size (nacinf h)) < 2 ^ 31" and "honours_fixed E fd"
    and z: "z = ring_size (nacinf h) n"
  shows "\<exists>t1 t2 t3 h3 lo hi. nac_msu_configure E fd n s = Some (Ok 0, t1) \<and>
     nac_attach_stream E fd i flags 0 t1 = Some (Ok 0, t2) \<and> nac_start_stream E fd i t2 = Some (Ok 0, t3) \<and>
     phase_of fd i t3 = Running \<and> herd t3 fd = Some h3 \<and>
     uint lo = uint (phy_addr (nacinf h)) + i * z \<and> uint hi = uint lo + z \<and> phyaddr (stream h3 i) = lo \<and>
     last_write (stream_reg HOST_ADDR_LO_REG i) (reg_writes fd (trace t3)) = Some lo \<and>
     last_write (stream_reg BUF_BOTTOM_LO_REG i) (reg_writes fd (trace t3)) = Some hi \<and>
     last_write (stream_reg LIMIT_PTR_LO_REG i) (reg_writes fd (trace t3)) = Some hi \<and>
     (\<forall>k. uint k < z \<longrightarrow> vmap t3 (buf (stream h3 i) + k) = Hole fd (word_of_int (i * z) + k) \<and>
        vmap t3 (buf (stream h3 i) + word_of_int z + k) = Hole fd (word_of_int (i * z) + k))"
proof -
  obtain t1 t2 t3 h2 ws zw sp where r: "nac_msu_configure E fd n s = Some (Ok 0, t1)"
    "nac_attach_stream E fd i flags 0 t1 = Some (Ok 0, t2)" "nac_start_stream E fd i t2 = Some (Ok 0, t3)" "phase_of fd i t3 = Running"
    "herd t3 fd = Some (h2\<lparr>stream := (stream h2)(i := (stream h2 i)\<lparr>started := True\<rparr>)\<rparr>)"
    "uint zw = z" "stream_size (stream h2 i) = zw" "phyaddr (stream h2 i) = phy_addr (nacinf h) + word_of_int i * zw"
    "buf (stream h2 i) = sp" "double_mapped (vmap t3) fd sp (ucast zw) (ucast zw) (word_of_int (i * z))"
    "window ws (stream_reg HOST_ADDR_LO_REG i) (stream_reg BUF_BOTTOM_LO_REG i)
       (uint (phy_addr (nacinf h)) + i * z) (uint (phy_addr (nacinf h)) + (i + 1) * z)"
    "reg_writes fd (trace t3) = reg_writes fd (trace s) @ ws @
       [(stream_reg LIMIT_PTR_LO_REG i, phyaddr (stream h2 i) + zw), (stream_reg DMA_CTL_REG i, 8)]"
    using session_run [OF assms, of flags] by - (elim exE conjE, rule that, assumption+)
  define more where "more = [(stream_reg LIMIT_PTR_LO_REG i, phyaddr (stream h2 i) + zw), (stream_reg DMA_CTL_REG i, 8)]"
  have regs: "stream_reg LIMIT_PTR_LO_REG i \<noteq> stream_reg DMA_CTL_REG i"
    "(stream_reg HOST_ADDR_LO_REG i, x) \<notin> set more" "(stream_reg BUF_BOTTOM_LO_REG i, x) \<notin> set more" for x
    using assms(7,9,10) by (simp_all add: more_def stream_reg_eq HOST_ADDR_LO_REG_def BUF_BOTTOM_LO_REG_def
      LIMIT_PTR_LO_REG_def DMA_CTL_REG_def)
  obtain lo hi where win: "last_write (stream_reg HOST_ADDR_LO_REG i) (reg_writes fd (trace t3)) = Some lo"
    "last_write (stream_reg BUF_BOTTOM_LO_REG i) (reg_writes fd (trace t3)) = Some hi"
    "uint lo = uint (phy_addr (nacinf h)) + i * z" "uint hi = uint (phy_addr (nacinf h)) + (i + 1) * z"
    using windowD_append [OF r(11) regs(2,3), of "reg_writes fd (trace s)"] r(12) by (auto simp: more_def)
  have addr: "uint (phy_addr (nacinf h) + word_of_int j * zw) = uint (phy_addr (nacinf h)) + j * z" if "0 \<le> j" "j \<le> n" for j
    using uint_ring_addr [OF assms(11,6,7) r(6) [unfolded z] that] by (simp add: z)
  have lo: "phyaddr (stream h2 i) = lo"
    using addr [of i] win(3) r(8) assms(9,10) by (simp add: word_uint_eq_iff)
  have "phyaddr (stream h2 i) + zw = phy_addr (nacinf h) + word_of_int (i + 1) * zw"
    unfolding r(8) by (simp add: algebra_simps)
  then have hi: "phyaddr (stream h2 i) + zw = hi"
    using addr [of "i + 1"] win(4) assms(9,10) by (simp add: word_uint_eq_iff)
  have lim: "last_write (stream_reg LIMIT_PTR_LO_REG i) (reg_writes fd (trace t3)) = Some hi"
    unfolding r(12) hi using regs(1) by (simp add: last_write_def)
  have zu: "(ucast zw :: u64) = word_of_int z" by (simp only: ucast_eq r(6))
  have zu': "uint (word_of_int z :: u64) = z" unfolding zu [symmetric] using r(6) by (simp add: uint_up_ucast is_up)
  have "\<forall>k. uint k < z \<longrightarrow> vmap t3 (sp + k) = Hole fd (word_of_int (i * z) + k) \<and>
        vmap t3 (sp + word_of_int z + k) = Hole fd (word_of_int (i * z) + k)"
    using r(10) unfolding double_mapped_def by (simp add: word_less_def zu zu')
  with r(1-5,9) win lim lo show ?thesis
    by (intro exI conjI) (assumption+, simp_all add: algebra_simps)
qed

lemma honours_fixed_map_env: "honours_fixed map_env 3"
proof -
  have "\<exists>sp. mmap_at map_env hist = Some sp" for hist
    by (simp add: map_env_def split: list.split event.split option.split)
  then show ?thesis
    unfolding honours_fixed_def fixed_maps_def by (intro allI) (auto simp: map_env_def)
qed

lemma card_and_process_agree_witness:
  "\<exists>t1 t2 t3. nac_msu_configure map_env 3 4 demo_mach = Some (Ok 0, t1) \<and>
     nac_attach_stream map_env 3 2 0 0 t1 = Some (Ok 0, t2) \<and> nac_start_stream map_env 3 2 t2 = Some (Ok 0, t3) \<and>
     last_write (stream_reg HOST_ADDR_LO_REG 2) (reg_writes 3 (trace t3)) = Some 0x23c00000"
proof -
  have ok: "hole_ok (nacinf demo_card)" and z: "ring_size (nacinf demo_card) 4 = 31457280"
    by (simp_all add: hole_ok_def ring_size_def demo_simps)
  have m: "malloc_ok map_env hist" for hist by (simp add: map_env_def demo_env_def)
  have lo: "lo = 0x23c00000" if "uint lo = 599785472" for lo :: u32
    using that by (simp add: word_uint_eq_iff)
  from card_and_process_agree [OF demo_simps(1,3,4) _ m _ _ _ _ _ ok _ honours_fixed_map_env z [symmetric], of 2 0]
  show ?thesis by (auto simp: demo_simps dest: lo)
qed

text \<open>
  The flow table cannot be started after a configuration: on a freshly opened card,
  \<open>nac_msu_configure\<close> for \<open>n\<close> streams sets up the flow table's stream at index \<open>n\<close>, while
  \<open>nac_rft_start\<close> uses stream 16, whose register block is still null: it faults at once.
\<close>

theorem rft_start_after_configure:
  assumes "herd s fd = Some h" and "opened h" and "iom h \<noteq> 0" and "\<And>hist. malloc_ok E hist"
    and "0 < n" and "n \<le> 8" and "n \<noteq> 3" and "hole_ok (nacinf h)" and "pbm (stream h 16) = PNull"
  shows "\<exists>t. nac_msu_configure E fd n s = Some (Ok 0, t) \<and> nac_rft_start E fd t = Some (Fault, t)"
proof -
  have "\<exists>t h1. nac_msu_configure E fd n s = Some (Ok 0, t) \<and> herd t fd = Some h1 \<and> opened h1 \<and> (\<forall>i. n < i \<longrightarrow> stream h1 i = stream h i)"
    using msu_windows [OF assms(1-8)] by blast
  then obtain t h1 where t: "nac_msu_configure E fd n s = Some (Ok 0, t)" "herd t fd = Some h1" "opened h1"
    "\<forall>i. n < i \<longrightarrow> stream h1 i = stream h i" by blast
  have "pbm (stream h1 16) = PNull" using t(4) assms(6,9) by simp
  then have "nac_rft_start E fd t = Some (Fault, t)"
    using t(2,3) by (simp add: nac_rft_start_def rft_num_def NUM_STREAM_def NAC_STREAM_MAX_def nac_info_def)
  with t(1) show ?thesis by blast
qed

lemma rft_start_after_configure_witness:
  "\<exists>t. nac_msu_configure demo_env 3 8 demo_mach = Some (Ok 0, t) \<and> nac_rft_start demo_env 3 t = Some (Fault, t)"
proof -
  have "hole_ok (nacinf demo_card)" by (simp add: hole_ok_def demo_simps)
  then show ?thesis
    using rft_start_after_configure [OF demo_simps(1,3,4), of demo_env 8]
    by (auto simp: demo_simps) (simp add: demo_card_def zero_sheep_def zero_stream_def)
qed

end
